(* ===== verification/Prelude.thy ===== *)
theory Prelude
  imports Main "HOL-Library.Word" "HOL-Library.Char_ord" "HOL-Library.List_Lexorder"
begin

text \<open>
  What the components share: byte strings, results of fallible code, little-endian integers,
  and the functions of the Rust standard library on strings and integers that the code calls.

  A byte is HOL's type of 8-bit values \<^typ>\<open>char\<close>, so a \<open>Vec<u8>\<close>, an \<open>OsStr\<close> and a
  \<open>str\<close> are all lists of \<^typ>\<open>char\<close> (a \<open>str\<close> is its UTF-8 encoding, which is
  what the code's \<open>as_bytes()\<close> reads), and a literal \<open>b"abc"\<close> is \<open>''abc''\<close>.
  The order on byte strings is the lexicographic order of byte values, which is the order of
  \<open>Ord\<close> for \<open>OsStr\<close> and \<open>[u8]\<close>.
\<close>

type_synonym byte = char
type_synonym bytes = "char list"
type_synonym u8 = "8 word"
type_synonym u16 = "16 word"
type_synonym u32 = "32 word"
type_synonym u64 = "64 word"

named_theorems result_simps \<open>unfolding of the result monad\<close>
named_theorems byte_simps \<open>lengths and round trips of byte encodings\<close>

section \<open>Results\<close>

text \<open>
  \<open>Result<T, E>\<close> is \<open>'e + 'a\<close> with \<open>Inl\<close> for \<open>Err\<close>. \<open>rbind\<close> is the
  operator \<open>?\<close>: it returns an error early.
\<close>

definition rbind :: "'e + 'a \<Rightarrow> ('a \<Rightarrow> 'e + 'b) \<Rightarrow> 'e + 'b" where
  "rbind m f = (case m of Inl e \<Rightarrow> Inl e | Inr x \<Rightarrow> f x)"

definition ok_or :: "'a option \<Rightarrow> 'e \<Rightarrow> 'e + 'a" where
  "ok_or x e = (case x of None \<Rightarrow> Inl e | Some v \<Rightarrow> Inr v)"

definition ensure_r :: "bool \<Rightarrow> 'e \<Rightarrow> 'e + unit" where
  "ensure_r b e = (if b then Inr () else Inl e)"

definition map_err :: "('e \<Rightarrow> 'f) \<Rightarrow> 'e + 'a \<Rightarrow> 'f + 'a" where
  "map_err g m = (case m of Inl e \<Rightarrow> Inl (g e) | Inr x \<Rightarrow> Inr x)"

lemma rbind_Inl [simp, result_simps]: "rbind (Inl e) f = Inl e"
  by (simp add: rbind_def)

lemma rbind_Inr [simp, result_simps]: "rbind (Inr x) f = f x"
  by (simp add: rbind_def)

lemma rbind_eq_Inr_iff [result_simps]:
  "rbind m f = Inr y \<longleftrightarrow> (\<exists>x. m = Inr x \<and> f x = Inr y)"
  by (cases m) auto

lemma rbind_eq_Inl_iff:
  "rbind m f = Inl e \<longleftrightarrow> m = Inl e \<or> (\<exists>x. m = Inr x \<and> f x = Inl e)"
  by (cases m) auto

lemma rbind_cong [fundef_cong]:
  assumes "m = m'" and "\<And>x. m' = Inr x \<Longrightarrow> f x = f' x"
  shows "rbind m f = rbind m' f'"
  using assms by (cases m') (auto simp: rbind_def)

lemma ok_or_simps [simp, result_simps]: "ok_or None e = Inl e" "ok_or (Some v) e = Inr v"
  by (simp_all add: ok_or_def)

lemma ok_or_eq_Inr_iff [simp, result_simps]: "ok_or x e = Inr v \<longleftrightarrow> x = Some v"
  by (cases x) auto

lemma ensure_r_simps [simp, result_simps]: "ensure_r True e = Inr ()" "ensure_r False e = Inl e"
  by (simp_all add: ensure_r_def)

lemma ensure_r_eq_Inr_iff [simp, result_simps]: "ensure_r b e = Inr u \<longleftrightarrow> b"
  by (cases b) auto

lemma map_err_simps [simp, result_simps]: "map_err g (Inl e) = Inl (g e)" "map_err g (Inr x) = Inr x"
  by (simp_all add: map_err_def)

lemma map_err_eq_Inr_iff [simp, result_simps]: "map_err g m = Inr x \<longleftrightarrow> m = Inr x"
  by (cases m) auto

fun rfold :: "('s \<Rightarrow> 'a \<Rightarrow> 'e + 's) \<Rightarrow> 's \<Rightarrow> 'a list \<Rightarrow> 'e + 's" where
  "rfold f s [] = Inr s"
| "rfold f s (x # xs) = rbind (f s x) (\<lambda>s'. rfold f s' xs)"

fun rmap :: "('a \<Rightarrow> 'e + 'b) \<Rightarrow> 'a list \<Rightarrow> 'e + 'b list" where
  "rmap f [] = Inr []"
| "rmap f (x # xs) = rbind (f x) (\<lambda>y. rbind (rmap f xs) (\<lambda>ys. Inr (y # ys)))"

lemma rmap_cong [fundef_cong]:
  assumes "xs = ys" and "\<And>x. x \<in> set ys \<Longrightarrow> f x = g x"
  shows "rmap f xs = rmap g ys"
  using assms by (induction xs arbitrary: ys) (auto intro!: rbind_cong)

lemma rmap_Inr_map: "(\<And>x. x \<in> set xs \<Longrightarrow> f x = Inr (g x)) \<Longrightarrow> rmap f xs = Inr (map g xs)"
  by (induction xs) auto

lemma rfold_append: "rfold f s (xs @ ys) = rbind (rfold f s xs) (\<lambda>s'. rfold f s' ys)"
proof (induction xs arbitrary: s)
  case Nil
  then show ?case by simp
next
  case (Cons x xs)
  then show ?case by (cases "f s x") auto
qed

section \<open>Little-endian integers\<close>

text \<open>
  \<open>n.to_le_bytes()\<close> for an integer of \<open>k\<close> bytes, and the value of \<open>k\<close> bytes read
  as a little-endian integer (zerocopy's \<open>U16\<close>, \<open>U32\<close>, \<open>U64\<close>).
\<close>

fun le_bytes :: "nat \<Rightarrow> nat \<Rightarrow> bytes" where
  "le_bytes 0 n = []"
| "le_bytes (Suc k) n = char_of (n mod 256) # le_bytes k (n div 256)"

fun le_nat :: "bytes \<Rightarrow> nat" where
  "le_nat [] = 0"
| "le_nat (c # cs) = of_char c + 256 * le_nat cs"

lemma length_le_bytes [simp, byte_simps]: "length (le_bytes k n) = k"
  by (induction k n rule: le_bytes.induct) auto

lemma of_char_lt_256 [simp]: "(of_char c :: nat) < 256"
  using of_char_mod_256 [of c, where 'a = nat] by (metis mod_less_divisor zero_less_numeral)

lemma of_char_of_nat [simp]: "(of_char (char_of (n::nat)) :: nat) = n mod 256"
  by simp

lemma le_nat_le_bytes [byte_simps]: "le_nat (le_bytes k n) = n mod 256 ^ k"
proof (induction k n rule: le_bytes.induct)
  case (1 n)
  then show ?case by simp
next
  case (2 k n)
  have "n mod 256 ^ Suc k = n mod 256 + 256 * (n div 256 mod 256 ^ k)"
    by (simp add: mod_mult2_eq)
  with 2 show ?case by simp
qed

lemma le_nat_bound: "le_nat bs < 256 ^ length bs"
proof (induction bs)
  case Nil
  then show ?case by simp
next
  case (Cons c cs)
  have arith: "x + 256 * y < 256 * z" if "x < 256" "y < z" for x y z :: nat
    using that by linarith
  show ?case using arith [OF of_char_lt_256 Cons] by simp
qed

lemma le_bytes_le_nat [byte_simps]: "length bs = k \<Longrightarrow> le_bytes k (le_nat bs) = bs"
proof (induction bs arbitrary: k)
  case Nil
  then show ?case by simp
next
  case (Cons c cs)
  have "(of_char c :: nat) < 256" by simp
  moreover from this have "(of_char c + 256 * le_nat cs) div 256 = le_nat cs"
    by simp
  ultimately show ?case using Cons by auto
qed

text \<open>The same for machine words; \<open>word_le\<close> is \<open>to_le_bytes\<close> and \<open>le_word\<close> is \<open>get\<close>.\<close>

definition le16 :: "u16 \<Rightarrow> bytes" where "le16 w = le_bytes 2 (unat w)"
definition le32 :: "u32 \<Rightarrow> bytes" where "le32 w = le_bytes 4 (unat w)"
definition le64 :: "u64 \<Rightarrow> bytes" where "le64 w = le_bytes 8 (unat w)"
definition get16 :: "bytes \<Rightarrow> u16" where "get16 bs = of_nat (le_nat bs)"
definition get32 :: "bytes \<Rightarrow> u32" where "get32 bs = of_nat (le_nat bs)"
definition get64 :: "bytes \<Rightarrow> u64" where "get64 bs = of_nat (le_nat bs)"

lemma length_le_words [simp, byte_simps]:
  "length (le16 a) = 2" "length (le32 b) = 4" "length (le64 c) = 8"
  by (simp_all add: le16_def le32_def le64_def)

lemma unat_mod_range:
  "unat (a :: u16) mod 65536 = unat a" "unat (b :: u32) mod 4294967296 = unat b"
  "unat (c :: u64) mod 18446744073709551616 = unat c"
  using unsigned_less [of a, where 'a = nat] unsigned_less [of b, where 'a = nat] unsigned_less [of c, where 'a = nat]
  by simp_all

lemma get_le_words [simp, byte_simps]:
  "get16 (le16 a) = a" "get32 (le32 b) = b" "get64 (le64 c) = c"
  by (simp_all add: get16_def get32_def get64_def le16_def le32_def le64_def
      le_nat_le_bytes unat_mod_range)

definition u8_byte :: "u8 \<Rightarrow> byte" where "u8_byte w = char_of (unat w)"
definition byte_u8 :: "byte \<Rightarrow> u8" where "byte_u8 c = of_nat (of_char c)"

lemma byte_u8_u8_byte [simp, byte_simps]: "byte_u8 (u8_byte w) = w"
  using unsigned_less [of w, where 'a = nat] by (simp add: byte_u8_def u8_byte_def)

lemma u8_byte_byte_u8 [simp, byte_simps]: "u8_byte (byte_u8 c) = c"
proof -
  have "unat (of_nat (of_char c) :: u8) = of_char c"
    by (simp add: unat_of_nat)
  then show ?thesis by (simp add: byte_u8_def u8_byte_def)
qed

end
