(* ===== verification/Rust_Strings.thy ===== *)
theory Rust_Strings
  imports Prelude
begin

text \<open>
  The functions of Rust's standard library on strings that the code calls: iteration over the
  characters of a UTF-8 string, splitting, trimming, prefixes and suffixes, and the printing and
  parsing of unsigned integers. They carry no code of the repository; the components use them
  where the source names them.
\<close>

section \<open>Characters of a UTF-8 string\<close>

text \<open>
  \<open>s.chars()\<close>: a \<open>str\<close> holds valid UTF-8, so the first byte of a character gives its
  width. A character is kept as its bytes, which is what \<open>write!(r, "{c}")\<close> appends.
\<close>

definition utf8_width :: "byte \<Rightarrow> nat" where
  "utf8_width c = (if (of_char c :: nat) < 128 then 1 else if (of_char c :: nat) < 224 then 2
     else if (of_char c :: nat) < 240 then 3 else 4)"

function utf8_chars :: "bytes \<Rightarrow> bytes list" where
  "utf8_chars [] = []"
| "utf8_chars (c # cs) =
     (c # take (utf8_width c - 1) cs) # utf8_chars (drop (utf8_width c - 1) cs)"
  by pat_completeness auto
termination by (relation "measure length") auto

definition is_ascii :: "bytes \<Rightarrow> bool" where
  "is_ascii s \<longleftrightarrow> (\<forall>c \<in> set s. (of_char c :: nat) < 128)"

lemma concat_utf8_chars [simp]: "concat (utf8_chars s) = s"
  by (induction s rule: utf8_chars.induct) auto

lemma utf8_chars_ascii: "is_ascii s \<Longrightarrow> utf8_chars s = map (\<lambda>c. [c]) s"
  by (induction s) (simp_all add: is_ascii_def utf8_width_def)

lemma is_ascii_simps [simp]:
  "is_ascii []" "is_ascii (c # s) \<longleftrightarrow> (of_char c :: nat) < 128 \<and> is_ascii s"
  "is_ascii (s @ t) \<longleftrightarrow> is_ascii s \<and> is_ascii t"
  by (auto simp: is_ascii_def)

text \<open>The code point of a character, and \<open>char::is_whitespace\<close> (Unicode White_Space).\<close>

definition code_point :: "bytes \<Rightarrow> nat" where
  "code_point u = (case u of
     [a] \<Rightarrow> of_char a
   | [a, b] \<Rightarrow> (of_char a - 192) * 64 + (of_char b - 128)
   | [a, b, c] \<Rightarrow> ((of_char a - 224) * 64 + (of_char b - 128)) * 64 + (of_char c - 128)
   | [a, b, c, d] \<Rightarrow>
       (((of_char a - 240) * 64 + (of_char b - 128)) * 64 + (of_char c - 128)) * 64 + (of_char d - 128)
   | _ \<Rightarrow> 0)"

definition is_whitespace :: "bytes \<Rightarrow> bool" where
  "is_whitespace u = (let p = code_point u in
     (9 \<le> p \<and> p \<le> 13) \<or> p = 32 \<or> p = 133 \<or> p = 160 \<or> p = 5760 \<or> (8192 \<le> p \<and> p \<le> 8202) \<or>
     p = 8232 \<or> p = 8233 \<or> p = 8239 \<or> p = 8287 \<or> p = 12288)"

text \<open>\<open>char::is_ascii_whitespace\<close>: space, tab, LF, FF, CR (not VT).\<close>

definition is_ascii_whitespace :: "byte \<Rightarrow> bool" where
  "is_ascii_whitespace c \<longleftrightarrow> (of_char c :: nat) \<in> {9, 10, 12, 13, 32}"

definition trim_start :: "bytes \<Rightarrow> bytes" where
  "trim_start s = concat (dropWhile is_whitespace (utf8_chars s))"

definition trim :: "bytes \<Rightarrow> bytes" where
  "trim s = concat (rev (dropWhile is_whitespace (rev (dropWhile is_whitespace (utf8_chars s)))))"

text \<open>\<open>str::from_utf8\<close> accepts well-formed UTF-8: no overlong forms, no surrogates, nothing above
  U+10FFFF.\<close>

definition cont_byte :: "byte \<Rightarrow> bool" where
  "cont_byte c \<longleftrightarrow> 128 \<le> (of_char c :: nat) \<and> (of_char c :: nat) < 192"

definition utf8_lead_ok :: "byte \<Rightarrow> bytes \<Rightarrow> bool" where
  "utf8_lead_ok c r = (let n = (of_char c :: nat); b = (case r of [] \<Rightarrow> (0 :: nat) | x # xs \<Rightarrow> of_char x) in
     n < 128 \<or>
     (194 \<le> n \<and> n < 224 \<and> length r = 1) \<or>
     (224 \<le> n \<and> n < 240 \<and> length r = 2 \<and> (n = 224 \<longrightarrow> 160 \<le> b) \<and> (n = 237 \<longrightarrow> b < 160)) \<or>
     (240 \<le> n \<and> n < 245 \<and> length r = 3 \<and> (n = 240 \<longrightarrow> 144 \<le> b) \<and> (n = 244 \<longrightarrow> b < 144)))"

definition utf8_valid :: "bytes \<Rightarrow> bool" where
  "utf8_valid s \<longleftrightarrow> list_all (\<lambda>u. case u of [] \<Rightarrow> False | c # r \<Rightarrow> utf8_lead_ok c r \<and> list_all cont_byte r)
     (utf8_chars s)"

section \<open>Prefixes, splitting, lines\<close>

definition starts_with :: "bytes \<Rightarrow> bytes \<Rightarrow> bool" where
  "starts_with p s \<longleftrightarrow> take (length p) s = p"

definition ends_with :: "bytes \<Rightarrow> bytes \<Rightarrow> bool" where
  "ends_with p s \<longleftrightarrow> length p \<le> length s \<and> drop (length s - length p) s = p"

definition strip_prefix :: "bytes \<Rightarrow> bytes \<Rightarrow> bytes option" where
  "strip_prefix p s = (if starts_with p s then Some (drop (length p) s) else None)"

lemma strip_prefix_append [simp]: "strip_prefix p (p @ s) = Some s"
  by (simp add: strip_prefix_def starts_with_def)

lemma strip_prefix_Some_iff: "strip_prefix p s = Some r \<longleftrightarrow> s = p @ r"
proof
  assume "strip_prefix p s = Some r"
  then have "take (length p) s = p" and "drop (length p) s = r"
    by (auto simp: strip_prefix_def starts_with_def split: if_splits)
  then show "s = p @ r" using append_take_drop_id [of "length p" s] by simp
qed simp

lemma starts_with_Nil [simp]: "starts_with [] s"
  by (simp add: starts_with_def)

lemma starts_with_append [simp]: "starts_with p (p @ s)"
  by (simp add: starts_with_def)

lemma starts_with_iff: "starts_with p s \<longleftrightarrow> (\<exists>r. s = p @ r)"
proof
  assume "starts_with p s"
  then have "s = p @ drop (length p) s"
    unfolding starts_with_def by (metis append_take_drop_id)
  then show "\<exists>r. s = p @ r" ..
qed auto

fun split_char :: "char \<Rightarrow> bytes \<Rightarrow> bytes list" where
  "split_char d [] = [[]]"
| "split_char d (c # cs) =
     (if c = d then [] # split_char d cs
      else (case split_char d cs of [] \<Rightarrow> [[c]] | p # ps \<Rightarrow> (c # p) # ps))"

fun join_char :: "char \<Rightarrow> bytes list \<Rightarrow> bytes" where
  "join_char d [] = []"
| "join_char d [p] = p"
| "join_char d (p # q # ps) = p @ d # join_char d (q # ps)"

lemma split_char_not_Nil [simp]: "split_char d s \<noteq> []"
  by (induction s) (auto split: list.splits)

lemma join_split_char [simp]: "join_char d (split_char d s) = s"
proof (induction s)
  case Nil
  then show ?case by simp
next
  case (Cons c cs)
  obtain p ps where ps: "split_char d cs = p # ps"
    using split_char_not_Nil by (cases "split_char d cs") auto
  with Cons show ?case by (cases ps) auto
qed

lemma split_char_no_delim: "d \<notin> set p \<Longrightarrow> split_char d p = [p]"
  by (induction p) auto

lemma split_char_append: "d \<notin> set p \<Longrightarrow> split_char d (p @ d # s) = p # split_char d s"
  by (induction p) auto

lemma split_char_join:
  "ps \<noteq> [] \<Longrightarrow> \<forall>p \<in> set ps. d \<notin> set p \<Longrightarrow> split_char d (join_char d ps) = ps"
proof (induction d ps rule: join_char.induct)
  case (2 d p)
  then show ?case by (simp add: split_char_no_delim)
next
  case (3 d p q ps)
  then show ?case by (simp add: split_char_append)
qed simp

lemma split_char_pieces: "p \<in> set (split_char d s) \<Longrightarrow> d \<notin> set p"
proof (induction s arbitrary: p)
  case Nil
  then show ?case by simp
next
  case (Cons c cs)
  obtain q qs where qs: "split_char d cs = q # qs"
    using split_char_not_Nil by (cases "split_char d cs") auto
  with Cons show ?case by (auto split: if_splits)
qed

definition split_once :: "char \<Rightarrow> bytes \<Rightarrow> (bytes \<times> bytes) option" where
  "split_once d s = (case dropWhile (\<lambda>c. c \<noteq> d) s of [] \<Rightarrow> None
     | _ # rest \<Rightarrow> Some (takeWhile (\<lambda>c. c \<noteq> d) s, rest))"

lemma split_once_append [simp]: "d \<notin> set p \<Longrightarrow> split_once d (p @ d # s) = Some (p, s)"
proof -
  assume "d \<notin> set p"
  then have "dropWhile (\<lambda>c. c \<noteq> d) (p @ d # s) = d # s" "takeWhile (\<lambda>c. c \<noteq> d) (p @ d # s) = p"
    by (induction p) auto
  then show ?thesis by (simp add: split_once_def)
qed

lemma split_once_None: "d \<notin> set s \<Longrightarrow> split_once d s = None"
proof -
  assume "d \<notin> set s"
  then have "dropWhile (\<lambda>c. c \<noteq> d) s = []" by (auto simp: dropWhile_eq_Nil_conv)
  then show ?thesis by (simp only: split_once_def list.case)
qed

lemma split_once_SomeD: "split_once d s = Some (p, r) \<Longrightarrow> s = p @ d # r \<and> d \<notin> set p"
  by (induction s arbitrary: p)
     (auto simp: split_once_def split: if_splits list.splits)

definition rsplit_once :: "char \<Rightarrow> bytes \<Rightarrow> (bytes \<times> bytes) option" where
  "rsplit_once d s = (case split_once d (rev s) of None \<Rightarrow> None | Some (p, r) \<Rightarrow> Some (rev r, rev p))"

lemma rsplit_once_append [simp]: "d \<notin> set r \<Longrightarrow> rsplit_once d (p @ d # r) = Some (p, r)"
  using split_once_append [of d "rev r" "rev p"] by (simp add: rsplit_once_def)

text \<open>\<open>split_terminator('\n')\<close> and \<open>lines()\<close>: a final empty piece is dropped; \<open>lines\<close>
  also drops one carriage return at the end of a line.\<close>

definition split_terminator :: "char \<Rightarrow> bytes \<Rightarrow> bytes list" where
  "split_terminator d s =
     (let ps = split_char d s in if last ps = [] then butlast ps else ps)"

definition strip_cr :: "bytes \<Rightarrow> bytes" where
  "strip_cr l = (if l \<noteq> [] \<and> last l = CHR 0x0D then butlast l else l)"

text \<open>A last line without a line feed keeps its carriage return.\<close>

definition lines :: "bytes \<Rightarrow> bytes list" where
  "lines s = (let ps = split_char CHR 0x0A s; full = map strip_cr (butlast ps)
              in if last ps = [] then full else full @ [last ps])"

section \<open>Printing and parsing unsigned integers\<close>

text \<open>\<open>{}\<close>, \<open>{:o}\<close> and \<open>{:x}\<close> of an unsigned integer, and \<open>from_str_radix\<close>,
  which accepts one leading \<open>+\<close> and checks for overflow.\<close>

definition digit_char :: "nat \<Rightarrow> char" where
  "digit_char d = (if d < 10 then char_of (48 + d) else char_of (87 + d))"

definition to_digit :: "nat \<Rightarrow> char \<Rightarrow> nat option" where
  "to_digit b c = (let n = of_char c :: nat;
       d = (if 48 \<le> n \<and> n \<le> 57 then n - 48
            else if 97 \<le> n \<and> n \<le> 122 then n - 87
            else if 65 \<le> n \<and> n \<le> 90 then n - 55 else b)
     in if d < b then Some d else None)"

lemma to_digit_digit_char [simp]:
  assumes "d < b" and "b \<le> 16"
  shows "to_digit b (digit_char d) = Some d"
proof (cases "d < 10")
  case True
  with assms show ?thesis by (simp add: to_digit_def digit_char_def Let_def)
next
  case False
  with assms show ?thesis by (simp add: to_digit_def digit_char_def Let_def)
qed

function show_radix :: "nat \<Rightarrow> nat \<Rightarrow> bytes" where
  "show_radix b n = (if n < b \<or> b < 2 then [digit_char n]
     else show_radix b (n div b) @ [digit_char (n mod b)])"
  by pat_completeness auto
termination by (relation "measure snd") auto

declare show_radix.simps [simp del]

abbreviation show_dec :: "nat \<Rightarrow> bytes" where "show_dec \<equiv> show_radix 10"
abbreviation show_oct :: "nat \<Rightarrow> bytes" where "show_oct \<equiv> show_radix 8"

datatype int_error = IntEmpty | InvalidDigit | PosOverflow

fun digits_value :: "nat \<Rightarrow> nat \<Rightarrow> bytes \<Rightarrow> nat option" where
  "digits_value b acc [] = Some acc"
| "digits_value b acc (c # cs) =
     (case to_digit b c of None \<Rightarrow> None | Some d \<Rightarrow> digits_value b (acc * b + d) cs)"

definition parse_radix :: "nat \<Rightarrow> nat \<Rightarrow> bytes \<Rightarrow> int_error + nat" where
  "parse_radix b limit s =
     (if s = [] then Inl IntEmpty
      else let t = (if hd s = CHR ''+'' then tl s else s) in
        if t = [] then Inl InvalidDigit
        else case digits_value b 0 t of
            None \<Rightarrow> Inl InvalidDigit
          | Some n \<Rightarrow> if n < limit then Inr n else Inl PosOverflow)"

lemma digits_value_append:
  "digits_value b acc (xs @ ys) =
     (case digits_value b acc xs of None \<Rightarrow> None | Some v \<Rightarrow> digits_value b v ys)"
  by (induction xs arbitrary: acc) (auto split: option.splits)

lemma digits_value_show_radix:
  assumes "2 \<le> b" and "b \<le> 16"
  shows "digits_value b 0 (show_radix b n) = Some n"
  using assms
proof (induction b n rule: show_radix.induct)
  case (1 b n)
  show ?case
  proof (cases "n < b")
    case True
    with 1 show ?thesis by (subst show_radix.simps) simp
  next
    case False
    with 1 have "digits_value b 0 (show_radix b (n div b)) = Some (n div b)" by simp
    moreover have "n mod b < b" using 1 by simp
    ultimately show ?thesis using False 1
      by (subst show_radix.simps) (simp add: digits_value_append)
  qed
qed

lemma show_radix_not_Nil [simp]: "show_radix b n \<noteq> []"
  by (subst show_radix.simps) simp

lemma digit_char_range: "d < 16 \<Longrightarrow> (48 \<le> (of_char (digit_char d) :: nat) \<and> (of_char (digit_char d) :: nat) \<le> 57) \<or>
    (97 \<le> (of_char (digit_char d) :: nat) \<and> (of_char (digit_char d) :: nat) \<le> 102)"
  by (auto simp: digit_char_def)

lemma digit_char_neq:
  assumes "d < 16" "(of_char c :: nat) < 48 \<or> (57 < (of_char c :: nat) \<and> (of_char c :: nat) < 97)"
  shows "digit_char d \<noteq> c"
  using digit_char_range [of d] assms by auto

lemma show_radix_chars:
  assumes "2 \<le> b" "b \<le> 16" "c \<in> set (show_radix b n)"
  shows "(48 \<le> (of_char c :: nat) \<and> (of_char c :: nat) \<le> 57) \<or> (97 \<le> (of_char c :: nat) \<and> (of_char c :: nat) \<le> 102)"
  using assms
proof (induction b n rule: show_radix.induct)
  case (1 b n)
  show ?case
  proof (cases "n < b")
    case True
    with 1 have "c = digit_char n" using show_radix.simps [of b n] by simp
    with True 1 show ?thesis using digit_char_range [of n] by simp
  next
    case False
    with 1 have "c \<in> set (show_radix b (n div b)) \<or> c = digit_char (n mod b)"
      using show_radix.simps [of b n] by auto
    moreover have "n mod b < b" using 1 by simp
    then have "n mod b < 16" using 1 by linarith
    ultimately show ?thesis using 1 False digit_char_range [of "n mod b"] by auto
  qed
qed

lemma show_radix_no:
  assumes "2 \<le> b" "b \<le> 16" "(of_char c :: nat) < 48 \<or> (57 < (of_char c :: nat) \<and> (of_char c :: nat) < 97)"
  shows "c \<notin> set (show_radix b n)"
  using show_radix_chars [of b c n] assms by auto

lemma parse_show_radix [simp]:
  assumes "2 \<le> b" and "b \<le> 16" and "n < limit"
  shows "parse_radix b limit (show_radix b n) = Inr n"
proof -
  have "CHR ''+'' \<notin> set (show_radix b n)" using assms by (intro show_radix_no) auto
  then have "hd (show_radix b n) \<noteq> CHR ''+''"
    by (metis hd_in_set show_radix_not_Nil)
  with assms show ?thesis by (simp add: parse_radix_def digits_value_show_radix)
qed

end
