(* ===== verification/Rust_Path.thy ===== *)
theory Rust_Path
  imports Rust_Strings
begin

text \<open>
  \<open>std::path::Path\<close> on Unix: a path is its byte string, and the functions below read it as
  the standard library does. Repeated separators and "." components (except a leading one of a
  relative path) do not count.
\<close>

datatype component = RootDir | CurDir | ParentDir | Normal bytes

abbreviation SLASH :: char where "SLASH \<equiv> CHR ''/''"

definition has_root :: "bytes \<Rightarrow> bool" where
  "has_root p \<longleftrightarrow> p \<noteq> [] \<and> hd p = SLASH"

definition real_piece :: "bytes \<Rightarrow> bool" where
  "real_piece s \<longleftrightarrow> s \<noteq> [] \<and> s \<noteq> ''.''"

definition parse_component :: "bytes \<Rightarrow> component" where
  "parse_component s = (if s = ''..'' then ParentDir else Normal s)"

text \<open>The lead of a path (\<open>/\<close> or a leading \<open>.\<close>) and the pieces of its body.\<close>

definition path_lead :: "bytes \<Rightarrow> component list" where
  "path_lead p = (if has_root p then [RootDir]
     else if hd (split_char SLASH p) = ''.'' then [CurDir] else [])"

definition path_body :: "bytes \<Rightarrow> bytes list" where
  "path_body p = (if path_lead p = [] then split_char SLASH p else tl (split_char SLASH p))"

definition components :: "bytes \<Rightarrow> component list" where
  "components p = path_lead p @ map parse_component (filter real_piece (path_body p))"

text \<open>\<open>Path::parent\<close>: the path up to the end of the last component but one.\<close>

definition trim_right :: "bytes list \<Rightarrow> bytes list" where
  "trim_right ps = rev (dropWhile (\<lambda>s. \<not> real_piece s) (rev ps))"

definition rebuild :: "component list \<Rightarrow> bytes list \<Rightarrow> bytes" where
  "rebuild lead body =
     (case lead of
        [RootDir] \<Rightarrow> SLASH # join_char SLASH body
      | [CurDir] \<Rightarrow> ''.'' @ (if body = [] then [] else SLASH # join_char SLASH body)
      | _ \<Rightarrow> join_char SLASH body)"

definition parent :: "bytes \<Rightarrow> bytes option" where
  "parent p =
     (if filter real_piece (path_body p) = []
      then (if path_lead p = [CurDir] then Some [] else None)
      else Some (rebuild (path_lead p) (trim_right (butlast (trim_right (path_body p))))))"

definition file_name :: "bytes \<Rightarrow> bytes option" where
  "file_name p = (case rev (components p) of Normal s # _ \<Rightarrow> Some s | _ \<Rightarrow> None)"

text \<open>\<open>PathBuf::push\<close>, \<open>pop\<close> and \<open>Path\<close> equality.\<close>

definition push :: "bytes \<Rightarrow> bytes \<Rightarrow> bytes" where
  "push p q = (if has_root q then q
     else if p \<noteq> [] \<and> last p \<noteq> SLASH then p @ SLASH # q else p @ q)"

definition component_bytes :: "component \<Rightarrow> bytes" where
  "component_bytes c = (case c of RootDir \<Rightarrow> ''/'' | CurDir \<Rightarrow> ''.'' | ParentDir \<Rightarrow> ''..'' | Normal s \<Rightarrow> s)"

definition path_eq :: "bytes \<Rightarrow> bytes \<Rightarrow> bool" where
  "path_eq p q \<longleftrightarrow> components p = components q"

text \<open>A file name that a directory can hold: not empty, not "." or "..", no separator.\<close>

definition valid_name :: "bytes \<Rightarrow> bool" where
  "valid_name n \<longleftrightarrow> n \<noteq> [] \<and> n \<noteq> ''.'' \<and> n \<noteq> ''..'' \<and> SLASH \<notin> set n"

text \<open>The canonical absolute path of a list of names.\<close>

definition abs_path :: "bytes list \<Rightarrow> bytes" where
  "abs_path ns = SLASH # join_char SLASH ns"

section \<open>Lemmas\<close>

lemma valid_name_real [simp]: "valid_name n \<Longrightarrow> real_piece n"
  by (simp add: valid_name_def real_piece_def)

lemma parse_component_valid [simp]: "valid_name n \<Longrightarrow> parse_component n = Normal n"
  by (simp add: valid_name_def parse_component_def)

lemma split_char_hd: "hd (split_char d (c # s)) = (if c = d then [] else c # hd (split_char d s))"
  by (cases "split_char d s") auto

lemma components_abs_path [simp]:
  assumes "\<forall>n \<in> set ns. valid_name n"
  shows "components (abs_path ns) = RootDir # map Normal ns"
proof -
  have lead: "path_lead (abs_path ns) = [RootDir]"
    by (simp add: path_lead_def has_root_def abs_path_def)
  have "\<forall>n \<in> set ns. SLASH \<notin> set n" using assms by (simp add: valid_name_def)
  then have "split_char SLASH (join_char SLASH ns) = (if ns = [] then [[]] else ns)"
    by (simp add: split_char_join)
  then have "filter real_piece (path_body (abs_path ns)) = filter real_piece ns"
    using lead by (simp add: path_body_def abs_path_def real_piece_def)
  also have "\<dots> = ns" using assms by (simp add: filter_id_conv)
  finally show ?thesis using assms lead by (simp add: components_def)
qed

lemma components_valid_name [simp]:
  assumes "valid_name n"
  shows "components n = [Normal n]"
proof -
  have "split_char SLASH n = [n]" using assms by (simp add: valid_name_def split_char_no_delim)
  moreover have "\<not> has_root n" using assms by (cases n) (auto simp: has_root_def valid_name_def)
  ultimately show ?thesis
    using assms by (simp add: components_def path_lead_def path_body_def valid_name_def real_piece_def
        parse_component_def)
qed

lemma file_name_abs_path [simp]:
  "\<forall>n \<in> set ns. valid_name n \<Longrightarrow> file_name (abs_path ns) = (if ns = [] then None else Some (last ns))"
  by (cases ns rule: rev_cases) (simp_all add: file_name_def)

text \<open>The components of the parent are the components without the last one.\<close>

lemma filter_trim_right [simp]: "filter real_piece (trim_right ps) = filter real_piece ps"
proof -
  have "filter P (dropWhile (\<lambda>s. \<not> P s) xs) = filter P xs" for P and xs :: "bytes list"
    by (induction xs) auto
  then show ?thesis by (simp add: trim_right_def rev_filter [symmetric])
qed

lemma set_trim_right: "set (trim_right ps) \<subseteq> set ps"
  by (auto simp: trim_right_def dest: set_dropWhileD)

lemma last_trim_right: "trim_right ps \<noteq> [] \<Longrightarrow> real_piece (last (trim_right ps))"
  using hd_dropWhile [of "\<lambda>s. \<not> real_piece s" "rev ps"] by (auto simp: trim_right_def last_rev)

lemma filter_butlast_trim:
  "filter real_piece ps \<noteq> [] \<Longrightarrow>
    filter real_piece (butlast (trim_right ps)) = butlast (filter real_piece ps)"
proof -
  assume ne: "filter real_piece ps \<noteq> []"
  have t: "trim_right ps \<noteq> []"
  proof
    assume "trim_right ps = []"
    then have "filter real_piece (trim_right ps) = []" by simp
    with ne show False by simp
  qed
  then have "trim_right ps = butlast (trim_right ps) @ [last (trim_right ps)]" by simp
  then have "filter real_piece ps =
      filter real_piece (butlast (trim_right ps)) @ [last (trim_right ps)]"
    using last_trim_right [OF t] filter_trim_right [of ps]
    by (metis filter.simps filter_append)
  then show ?thesis by simp
qed

lemma path_lead_cases: "path_lead p \<in> {[], [RootDir], [CurDir]}"
  by (simp add: path_lead_def)

lemma path_body_no_slash: "s \<in> set (path_body p) \<Longrightarrow> SLASH \<notin> set s"
  by (metis list.set_sel(2) path_body_def split_char_pieces split_char_not_Nil)

lemma components_rebuild:
  assumes b: "\<forall>s \<in> set body. SLASH \<notin> set s" and l: "lead \<in> {[], [RootDir], [CurDir]}"
    and h: "lead = [] \<Longrightarrow> body \<noteq> [] \<Longrightarrow> hd body \<noteq> [] \<and> hd body \<noteq> ''.''"
  shows "components (rebuild lead body) = lead @ map parse_component (filter real_piece body)"
proof -
  have sp: "split_char SLASH (join_char SLASH body) = (if body = [] then [[]] else body)"
    using b by (simp add: split_char_join)
  have r0: "filter real_piece [[]] = []" by (simp add: real_piece_def)
  consider "lead = [RootDir]" | "lead = [CurDir]" | "lead = []" using l by auto
  then show ?thesis
  proof cases
    case 1
    then have "path_lead (rebuild lead body) = [RootDir]"
      by (simp add: path_lead_def rebuild_def has_root_def)
    with 1 sp r0 show ?thesis by (simp add: components_def path_body_def rebuild_def)
  next
    case 2
    have sd: "split_char SLASH (''.'' @ SLASH # join_char SLASH body) =
        ''.'' # split_char SLASH (join_char SLASH body)"
      by (rule split_char_append) simp
    from 2 have "path_lead (rebuild lead body) = [CurDir]"
      using sd by (auto simp: path_lead_def rebuild_def has_root_def)
    with 2 sp r0 sd show ?thesis by (auto simp: components_def path_body_def rebuild_def)
  next
    case 3
    show ?thesis
    proof (cases body)
      case Nil
      with 3 show ?thesis
        by (simp add: components_def path_body_def rebuild_def path_lead_def has_root_def real_piece_def)
    next
      case (Cons s body')
      then obtain c s' where s: "s = c # s'" using h 3 by (cases s) auto
      have "\<not> has_root (join_char SLASH body)"
        using b Cons s by (cases body') (auto simp: has_root_def)
      then have "path_lead (rebuild lead body) = []"
        using 3 sp Cons h by (simp add: path_lead_def rebuild_def)
      with 3 sp Cons show ?thesis by (simp add: components_def path_body_def rebuild_def)
    qed
  qed
qed

lemma hd_path_body:
  "path_lead p = [] \<Longrightarrow> p \<noteq> [] \<Longrightarrow> hd (path_body p) \<noteq> [] \<and> hd (path_body p) \<noteq> ''.''"
  by (cases p) (auto simp: path_lead_def path_body_def has_root_def split_char_hd
      simp del: split_char.simps split: if_splits)

lemma trim_right_take: "\<exists>k. trim_right ps = take k ps"
  by (metis rev_swap trim_right_def dropWhile_eq_drop rev_drop length_rev)

lemma components_parent:
  assumes "parent p = Some q"
  shows "components q = butlast (components p)"
proof (cases "filter real_piece (path_body p) = []")
  case True
  with assms show ?thesis
    by (auto simp: parent_def components_def path_lead_def path_body_def has_root_def real_piece_def
        split: if_splits)
next
  case False
  let ?b = "trim_right (butlast (trim_right (path_body p)))"
  from False assms have q: "q = rebuild (path_lead p) ?b" by (simp add: parent_def)
  have "set ?b \<subseteq> set (path_body p)"
    by (meson set_trim_right in_set_butlastD subset_iff)
  then have ns: "\<forall>s \<in> set ?b. SLASH \<notin> set s" using path_body_no_slash by blast
  have "\<exists>k. ?b = take k (path_body p)"
    by (metis butlast_conv_take take_take trim_right_take)
  then obtain k where k: "?b = take k (path_body p)" by blast
  have "p \<noteq> []" using False by (auto simp: path_body_def path_lead_def has_root_def real_piece_def)
  then have h: "path_lead p = [] \<Longrightarrow> ?b \<noteq> [] \<Longrightarrow> hd ?b \<noteq> [] \<and> hd ?b \<noteq> ''.''"
    using hd_path_body [of p] k by (simp add: hd_take)
  have "components q = path_lead p @ map parse_component (filter real_piece ?b)"
    unfolding q by (rule components_rebuild [OF ns path_lead_cases h])
  also have "\<dots> = butlast (components p)"
    using False filter_butlast_trim [OF False]
    by (simp add: components_def butlast_append map_butlast)
  finally show ?thesis .
qed

lemma file_name_Some:
  "file_name p = Some s \<longleftrightarrow> components p \<noteq> [] \<and> last (components p) = Normal s"
  by (cases "components p" rule: rev_cases) (auto simp: file_name_def split: component.splits)

lemma parent_of_file:
  assumes "file_name p = Some s"
  shows "\<exists>q. parent p = Some q \<and> components p = components q @ [Normal s]"
proof -
  have c: "components p \<noteq> []" "last (components p) = Normal s"
    using assms by (auto simp: file_name_Some)
  have "filter real_piece (path_body p) \<noteq> []"
    using c path_lead_cases [of p] by (auto simp: components_def)
  then obtain q where "parent p = Some q" by (simp add: parent_def)
  then show ?thesis using components_parent c by (metis append_butlast_last_id)
qed

lemma file_name_not_special: "file_name p = Some s \<Longrightarrow> valid_name s"
proof -
  assume f: "file_name p = Some s"
  then have "Normal s \<in> set (components p)" by (metis file_name_Some last_in_set)
  then obtain t where "t \<in> set (path_body p)" "real_piece t" "parse_component t = Normal s"
    using path_lead_cases [of p] by (auto simp: components_def)
  then show ?thesis
    using path_body_no_slash [of t p]
    by (auto simp: parse_component_def real_piece_def valid_name_def split: if_splits)
qed

lemma path_body_abs_path:
  assumes "\<forall>n \<in> set ns. valid_name n"
  shows "path_lead (abs_path ns) = [RootDir]" "path_body (abs_path ns) = (if ns = [] then [[]] else ns)"
proof -
  show lead: "path_lead (abs_path ns) = [RootDir]"
    by (simp add: path_lead_def has_root_def abs_path_def)
  have "\<forall>n \<in> set ns. SLASH \<notin> set n" using assms by (simp add: valid_name_def)
  then have "split_char SLASH (join_char SLASH ns) = (if ns = [] then [[]] else ns)"
    by (simp add: split_char_join)
  then show "path_body (abs_path ns) = (if ns = [] then [[]] else ns)"
    using lead by (simp add: path_body_def abs_path_def)
qed

lemma trim_right_valid: "\<forall>n \<in> set ns. valid_name n \<Longrightarrow> trim_right ns = ns"
  by (cases ns rule: rev_cases) (simp_all add: trim_right_def)

lemma parent_abs_path [simp]:
  assumes "\<forall>m \<in> set ns. valid_name m" "valid_name n"
  shows "parent (abs_path (ns @ [n])) = Some (abs_path ns)"
proof -
  have v: "\<forall>m \<in> set (ns @ [n]). valid_name m" using assms by simp
  show ?thesis
    using assms path_body_abs_path [OF v] trim_right_valid [OF v] trim_right_valid [OF assms(1)]
    by (simp add: parent_def rebuild_def abs_path_def)
qed

end
