(* ===== verification/Dumpfile_Parse.thy ===== *)
theory Dumpfile_Parse
  imports Rust_Path
begin

text \<open>
  Models \<open>crates/composefs/src/dumpfile_parse.rs\<close>: the escaping of the dump file format, the
  parser \<open>Entry::parse\<close> with all its checks, and the \<open>Display\<close> of an entry. A \<open>Cow\<close>
  is its value; an \<open>anyhow\<close> error is a constructor of \<open>dump_error\<close>, one for each place
  that makes one. \<open>dump\<close>, which runs \<open>composefs-info\<close>, is not modelled.
\<close>

abbreviation BACKSLASH :: char where "BACKSLASH \<equiv> CHR 0x5C"
abbreviation SPACE :: char where "SPACE \<equiv> CHR 0x20"
abbreviation DASH :: bytes where "DASH \<equiv> ''-''"

definition PATH_MAX :: nat where "PATH_MAX = 4096"
definition MAX_INLINE_CONTENT :: nat where "MAX_INLINE_CONTENT = 5000"
definition XATTR_NAME_MAX :: nat where "XATTR_NAME_MAX = 255"
definition XATTR_LIST_MAX :: nat where "XATTR_LIST_MAX = 65535"
definition XATTR_SIZE_MAX :: nat where "XATTR_SIZE_MAX = 65535"
definition USIZE_MAX :: nat where "USIZE_MAX = 18446744073709551615"

record xattr =
  xkey :: bytes
  xvalue :: bytes

record mtime =
  sec :: u64
  nsec :: u64

datatype item =
    RegularInline (inl_nlink: u32) bytes
  | RegularExt (reg_size: u64) u32 bytes "bytes option"
  | Device u32 u64
  | SymlinkItem u32 bytes
  | Hardlink bytes
  | FifoItem u32
  | DirectoryItem u64 u32

record entry =
  epath :: bytes
  euid :: u32
  egid :: u32
  emode :: u32
  emtime :: mtime
  eitem :: item
  exattrs :: "xattr list"

datatype dump_error =
    InputTooLong nat | UnterminatedEscape | UnterminatedHexEscape | InvalidHexEscape bytes
  | InvalidEscape bytes | EmbeddedNul | EmptyPath | PathTooLong nat | NonAbsolutePath
  | CanonicalInternalError | DotDotInPath | MissingDot | IntError int_error | MissingEquals
  | XattrNameTooLong nat | XattrValueTooLong nat | HasContent | HasDigest | HasRdev u64
  | Missing bytes | TooManyXattrs | HardlinkedDirectory | InlineWithDigest | TargetTooLong nat
  | SocketsUnsupported | UnhandledFileType u32

section \<open>Escapes\<close>

fun unescape_loop :: "nat \<Rightarrow> bytes list \<Rightarrow> bytes \<Rightarrow> dump_error + bytes" where
  "unescape_loop mx [] r = Inr r"
| "unescape_loop mx (c # it) r =
     (if length r = mx then Inl (InputTooLong mx)
      else if c \<noteq> [BACKSLASH] then unescape_loop mx it (r @ c)
      else case it of [] \<Rightarrow> Inl UnterminatedEscape
        | e # it1 \<Rightarrow>
            if e = [BACKSLASH] then unescape_loop mx it1 (r @ [BACKSLASH])
            else if e = ''n'' then unescape_loop mx it1 (r @ [CHR 0x0A])
            else if e = ''r'' then unescape_loop mx it1 (r @ [CHR 0x0D])
            else if e = ''t'' then unescape_loop mx it1 (r @ [CHR 0x09])
            else if e = ''x'' then
              (case it1 of [] \<Rightarrow> Inl UnterminatedHexEscape
                | h1 # it2 \<Rightarrow> (case it2 of [] \<Rightarrow> Inl UnterminatedHexEscape
                    | h2 # it3 \<Rightarrow>
                        rbind (map_err (\<lambda>_. InvalidHexEscape (h1 @ h2)) (parse_radix 16 256 (h1 @ h2)))
                          (\<lambda>v. unescape_loop mx it3 (r @ [char_of v]))))
            else Inl (InvalidEscape e))"

definition unescape_limited :: "bytes \<Rightarrow> nat \<Rightarrow> dump_error + bytes" where
  "unescape_limited s mx =
     (if BACKSLASH \<notin> set s \<and> is_ascii s
      then (if mx < length s then Inl (InputTooLong mx) else Inr s)
      else unescape_loop mx (utf8_chars s) [])"

definition unescape :: "bytes \<Rightarrow> dump_error + bytes" where
  "unescape s = unescape_limited s USIZE_MAX"

definition unescape_to_osstr :: "bytes \<Rightarrow> dump_error + bytes" where
  "unescape_to_osstr s = rbind (unescape s) (\<lambda>v.
     if CHR 0x00 \<in> set v then Inl EmbeddedNul else Inr v)"

definition unescape_to_path :: "bytes \<Rightarrow> dump_error + bytes" where
  "unescape_to_path s = rbind (unescape_to_osstr s) (\<lambda>v.
     if v = [] then Inl EmptyPath
     else if PATH_MAX < length v then Inl (PathTooLong (length v)) else Inr v)"

fun canonical_loop :: "component list \<Rightarrow> bytes \<Rightarrow> dump_error + bytes" where
  "canonical_loop [] r = Inr r"
| "canonical_loop (Normal n # cs) r = canonical_loop cs (push r n)"
| "canonical_loop (ParentDir # cs) r = Inl DotDotInPath"
| "canonical_loop (_ # cs) r = Inl CanonicalInternalError"

definition unescape_to_path_canonical :: "bytes \<Rightarrow> dump_error + bytes" where
  "unescape_to_path_canonical s = rbind (unescape_to_path s) (\<lambda>p.
     case components p of
       [] \<Rightarrow> Inl EmptyPath
     | first # rest \<Rightarrow>
         if first \<noteq> RootDir then Inl NonAbsolutePath
         else rbind (canonical_loop rest (push [] (component_bytes first)))
           (\<lambda>r. if r = p then Inr p else Inr r))"

datatype escape_mode = Standard | XattrKey

text \<open>\<open>{o:02x}\<close> of a byte, and the two classes of characters that stay as they are.\<close>

definition hex_byte :: "byte \<Rightarrow> bytes" where
  "hex_byte c = [digit_char (of_char c div 16), digit_char (of_char c mod 16)]"

definition hex_escape :: "byte \<Rightarrow> bytes" where
  "hex_escape c = [BACKSLASH, CHR ''x''] @ hex_byte c"

definition is_ascii_alphanumeric :: "byte \<Rightarrow> bool" where
  "is_ascii_alphanumeric c \<longleftrightarrow> (let n = of_char c :: nat in
     (48 \<le> n \<and> n \<le> 57) \<or> (65 \<le> n \<and> n \<le> 90) \<or> (97 \<le> n \<and> n \<le> 122))"

definition is_ascii_punctuation :: "byte \<Rightarrow> bool" where
  "is_ascii_punctuation c \<longleftrightarrow> (let n = of_char c :: nat in
     (33 \<le> n \<and> n \<le> 47) \<or> (58 \<le> n \<and> n \<le> 64) \<or> (91 \<le> n \<and> n \<le> 96) \<or> (123 \<le> n \<and> n \<le> 126))"

definition escape_byte :: "escape_mode \<Rightarrow> byte \<Rightarrow> bytes" where
  "escape_byte mode c =
     (let is_special = (c = BACKSLASH \<or> (mode = XattrKey \<and> c = CHR ''=''));
          is_printable = (is_ascii_alphanumeric c \<or> is_ascii_punctuation c)
      in if is_printable \<and> \<not> is_special then [c]
         else if c = BACKSLASH then [BACKSLASH, BACKSLASH]
         else if c = CHR 0x0A then [BACKSLASH, CHR ''n'']
         else if c = CHR 0x09 then [BACKSLASH, CHR ''t'']
         else if c = CHR 0x0D then [BACKSLASH, CHR ''r'']
         else hex_escape c)"

definition escape :: "escape_mode \<Rightarrow> bytes \<Rightarrow> bytes" where
  "escape mode s =
     (if s = [] then DASH
      else if s = DASH then [BACKSLASH, CHR ''x'', CHR ''2'', CHR ''d'']
      else concat (map (escape_byte mode) s))"

definition optional_str :: "bytes \<Rightarrow> bytes option" where
  "optional_str s = (if s = DASH then None else Some s)"

section \<open>The parser\<close>

definition parse_u32 :: "bytes \<Rightarrow> dump_error + u32" where
  "parse_u32 s = rbind (map_err IntError (parse_radix 10 (2 ^ 32) s)) (\<lambda>n. Inr (of_nat n))"

definition parse_u64 :: "bytes \<Rightarrow> dump_error + u64" where
  "parse_u64 s = rbind (map_err IntError (parse_radix 10 (2 ^ 64) s)) (\<lambda>n. Inr (of_nat n))"

definition parse_octal_u32 :: "bytes \<Rightarrow> dump_error + u32" where
  "parse_octal_u32 s = rbind (map_err IntError (parse_radix 8 (2 ^ 32) s)) (\<lambda>n. Inr (of_nat n))"

definition parse_mtime :: "bytes \<Rightarrow> dump_error + mtime" where
  "parse_mtime s = rbind (ok_or (split_once CHR ''.'' s) MissingDot) (\<lambda>(a, b).
     rbind (parse_u64 a) (\<lambda>sc. rbind (parse_u64 b) (\<lambda>ns. Inr \<lparr>sec = sc, nsec = ns\<rparr>)))"

definition parse_xattr :: "bytes \<Rightarrow> dump_error + xattr" where
  "parse_xattr s = rbind (ok_or (split_once CHR ''='' s) MissingEquals) (\<lambda>(k, v).
     rbind (unescape_to_osstr k) (\<lambda>key.
       if XATTR_NAME_MAX < length key then Inl (XattrNameTooLong (length key))
       else rbind (unescape v) (\<lambda>value.
         if XATTR_SIZE_MAX < length value then Inl (XattrValueTooLong (length key))
         else Inr \<lparr>xkey = key, xvalue = value\<rparr>)))"

definition check_nonregfile :: "bytes option \<Rightarrow> bytes option \<Rightarrow> dump_error + unit" where
  "check_nonregfile content fsverity_digest =
     (if content \<noteq> None then Inl HasContent
      else if fsverity_digest \<noteq> None then Inl HasDigest else Inr ())"

definition check_rdev :: "u64 \<Rightarrow> dump_error + unit" where
  "check_rdev rdev = (if rdev \<noteq> 0 then Inl (HasRdev rdev) else Inr ())"

datatype file_type =
    FtRegular | FtDirectory | FtSymlink | FtFifo | FtSocket | FtCharacterDevice | FtBlockDevice | FtUnknown

text \<open>The type bits of a mode, as POSIX numbers them (\<open>S_IFMT\<close> is 0o170000).\<close>

definition S_IFMT :: u32 where "S_IFMT = 0xF000"

definition from_raw_mode :: "u32 \<Rightarrow> file_type" where
  "from_raw_mode mode = (let t = and mode S_IFMT in
     if t = 0x8000 then FtRegular else if t = 0x4000 then FtDirectory
     else if t = 0xA000 then FtSymlink else if t = 0x1000 then FtFifo
     else if t = 0xC000 then FtSocket else if t = 0x2000 then FtCharacterDevice
     else if t = 0x6000 then FtBlockDevice else FtUnknown)"

definition as_raw_mode :: "file_type \<Rightarrow> u32" where
  "as_raw_mode t = (case t of FtRegular \<Rightarrow> 0x8000 | FtDirectory \<Rightarrow> 0x4000 | FtSymlink \<Rightarrow> 0xA000
     | FtFifo \<Rightarrow> 0x1000 | FtSocket \<Rightarrow> 0xC000 | FtCharacterDevice \<Rightarrow> 0x2000
     | FtBlockDevice \<Rightarrow> 0x6000 | FtUnknown \<Rightarrow> 0xF000)"

definition next_field :: "bytes \<Rightarrow> bytes list \<Rightarrow> dump_error + bytes \<times> bytes list" where
  "next_field name fs = (case fs of [] \<Rightarrow> Inl (Missing name) | f # fs' \<Rightarrow> Inr (f, fs'))"

definition xattr_step :: "xattr list \<times> nat \<Rightarrow> bytes \<Rightarrow> dump_error + xattr list \<times> nat" where
  "xattr_step a line = (case a of (acc, total_namelen) \<Rightarrow>
     rbind (parse_xattr line) (\<lambda>x.
       let total = min USIZE_MAX (total_namelen + length (xkey x))
       in if XATTR_LIST_MAX < total then Inl TooManyXattrs else Inr (acc @ [x], total)))"

definition parse_mode :: "bytes \<Rightarrow> dump_error + bool \<times> u32" where
  "parse_mode modeval = (case split_once CHR ''@'' modeval of
       Some (_, rest) \<Rightarrow> rbind (parse_octal_u32 rest) (\<lambda>m. Inr (True, m))
     | None \<Rightarrow> rbind (parse_octal_u32 modeval) (\<lambda>m. Inr (False, m)))"

definition parse_item :: "bool \<Rightarrow> u32 \<Rightarrow> u64 \<Rightarrow> u32 \<Rightarrow> u64 \<Rightarrow> bytes option \<Rightarrow> bytes option \<Rightarrow>
    bytes option \<Rightarrow> dump_error + item" where
  "parse_item is_hardlink mode sz nlink rdev payload content fsverity_digest =
     (let ty = from_raw_mode mode in
      if is_hardlink then
        (if ty = FtDirectory then Inl HardlinkedDirectory
         else rbind (ok_or payload (Missing ''payload'')) (\<lambda>p.
           rbind (unescape_to_path_canonical p) (\<lambda>target. Inr (Hardlink target))))
      else case ty of
        FtRegular \<Rightarrow> rbind (check_rdev rdev) (\<lambda>_.
          case payload of
            Some p \<Rightarrow> rbind (unescape_to_path p) (\<lambda>path. Inr (RegularExt sz nlink path fsverity_digest))
          | None \<Rightarrow>
              rbind (unescape_limited (case content of None \<Rightarrow> [] | Some c \<Rightarrow> c) MAX_INLINE_CONTENT) (\<lambda>c.
                if fsverity_digest \<noteq> None then Inl InlineWithDigest else Inr (RegularInline nlink c)))
      | FtSymlink \<Rightarrow> rbind (check_nonregfile content fsverity_digest) (\<lambda>_.
          rbind (check_rdev rdev) (\<lambda>_.
          rbind (ok_or payload (Missing ''payload'')) (\<lambda>p.
          rbind (unescape_to_path p) (\<lambda>target.
            if PATH_MAX < length target then Inl (TargetTooLong (length target))
            else Inr (SymlinkItem nlink target)))))
      | FtFifo \<Rightarrow> rbind (check_nonregfile content fsverity_digest) (\<lambda>_.
          rbind (check_rdev rdev) (\<lambda>_. Inr (FifoItem nlink)))
      | FtCharacterDevice \<Rightarrow> rbind (check_nonregfile content fsverity_digest) (\<lambda>_. Inr (Device nlink rdev))
      | FtBlockDevice \<Rightarrow> rbind (check_nonregfile content fsverity_digest) (\<lambda>_. Inr (Device nlink rdev))
      | FtDirectory \<Rightarrow> rbind (check_nonregfile content fsverity_digest) (\<lambda>_.
          rbind (check_rdev rdev) (\<lambda>_. Inr (DirectoryItem sz nlink)))
      | FtSocket \<Rightarrow> Inl SocketsUnsupported
      | FtUnknown \<Rightarrow> Inl (UnhandledFileType mode))"

definition parse_entry :: "bytes \<Rightarrow> dump_error + entry" where
  "parse_entry s =
     rbind (next_field ''path'' (split_char SPACE s)) (\<lambda>(f, fs). rbind (unescape_to_path_canonical f) (\<lambda>path.
     rbind (next_field ''size'' fs) (\<lambda>(f, fs). rbind (parse_u64 f) (\<lambda>sz.
     rbind (next_field ''mode'' fs) (\<lambda>(f, fs). rbind (parse_mode f) (\<lambda>(is_hardlink, mode).
     rbind (next_field ''nlink'' fs) (\<lambda>(f, fs). rbind (parse_u32 f) (\<lambda>nlink.
     rbind (next_field ''uid'' fs) (\<lambda>(f, fs). rbind (parse_u32 f) (\<lambda>uid.
     rbind (next_field ''gid'' fs) (\<lambda>(f, fs). rbind (parse_u32 f) (\<lambda>gid.
     rbind (next_field ''rdev'' fs) (\<lambda>(f, fs). rbind (parse_u64 f) (\<lambda>rdev.
     rbind (next_field ''mtime'' fs) (\<lambda>(f, fs). rbind (parse_mtime f) (\<lambda>mt.
     rbind (next_field ''payload'' fs) (\<lambda>(payload, fs).
     rbind (next_field ''content'' fs) (\<lambda>(content, fs).
     rbind (next_field ''digest'' fs) (\<lambda>(dig, fs).
     rbind (rfold xattr_step ([], 0) fs) (\<lambda>(xs, total).
     rbind (parse_item is_hardlink mode sz nlink rdev (optional_str payload) (optional_str content)
         (optional_str dig)) (\<lambda>it.
       Inr \<lparr>epath = path, euid = uid, egid = gid, emode = mode, emtime = mt, eitem = it,
            exattrs = xs\<rparr>)))))))))))))))))))))"

definition filter_special :: "entry \<Rightarrow> entry" where
  "filter_special e = e\<lparr>exattrs := filter (\<lambda>x. \<not> ((xkey x = ''trusted.overlay.opaque''
     \<or> xkey x = ''user.overlay.opaque'') \<and> xvalue x = ''x'')) (exattrs e)\<rparr>"

section \<open>Printing\<close>

definition item_size :: "item \<Rightarrow> u64" where
  "item_size i = (case i of RegularExt sz _ _ _ \<Rightarrow> sz | DirectoryItem sz _ \<Rightarrow> sz
     | RegularInline _ c \<Rightarrow> of_nat (length c) | _ \<Rightarrow> 0)"

definition item_nlink :: "item \<Rightarrow> u32" where
  "item_nlink i = (case i of RegularInline n _ \<Rightarrow> n | RegularExt _ n _ _ \<Rightarrow> n | Device n _ \<Rightarrow> n
     | SymlinkItem n _ \<Rightarrow> n | DirectoryItem _ n \<Rightarrow> n | FifoItem n \<Rightarrow> n | Hardlink _ \<Rightarrow> 0)"

definition item_rdev :: "item \<Rightarrow> u64" where
  "item_rdev i = (case i of Device _ rdev \<Rightarrow> rdev | _ \<Rightarrow> 0)"

definition item_payload :: "item \<Rightarrow> bytes option" where
  "item_payload i = (case i of RegularExt _ _ path _ \<Rightarrow> Some path | SymlinkItem _ t \<Rightarrow> Some t
     | Hardlink t \<Rightarrow> Some t | _ \<Rightarrow> None)"

definition show_mtime :: "mtime \<Rightarrow> bytes" where
  "show_mtime m = show_dec (unat (sec m)) @ ''.'' @ show_dec (unat (nsec m))"

definition show_xattr :: "xattr \<Rightarrow> bytes" where
  "show_xattr x = [SPACE] @ escape XattrKey (xkey x) @ ''='' @ escape Standard (xvalue x)"

definition show_entry :: "entry \<Rightarrow> bytes" where
  "show_entry e = escape Standard (epath e) @ [SPACE]
     @ show_dec (unat (item_size (eitem e))) @ [SPACE]
     @ show_oct (unat (emode e)) @ [SPACE]
     @ show_dec (unat (item_nlink (eitem e))) @ [SPACE]
     @ show_dec (unat (euid e)) @ [SPACE]
     @ show_dec (unat (egid e)) @ [SPACE]
     @ show_dec (unat (item_rdev (eitem e))) @ [SPACE]
     @ show_mtime (emtime e) @ [SPACE]
     @ (case item_payload (eitem e) of Some p \<Rightarrow> escape Standard p @ [SPACE] | None \<Rightarrow> DASH @ [SPACE])
     @ (case eitem e of RegularInline _ c \<Rightarrow> escape Standard c @ [SPACE] @ DASH
        | RegularExt _ _ _ d \<Rightarrow> DASH @ [SPACE] @ (case d of Some x \<Rightarrow> x | None \<Rightarrow> DASH)
        | _ \<Rightarrow> DASH @ [SPACE] @ DASH)
     @ concat (map show_xattr (exattrs e))"

section \<open>Escapes read back\<close>

abbreviation sing :: "char \<Rightarrow> bytes" where "sing c \<equiv> [c]"

text \<open>The bytes \<open>u\<close> stand for the byte \<open>c\<close>: the loop of \<open>unescape\<close> reads them as \<open>c\<close>.\<close>

definition unit_for :: "bytes \<Rightarrow> byte \<Rightarrow> bool" where
  "unit_for u c \<longleftrightarrow> is_ascii u \<and> (\<forall>mx rest r. length r \<noteq> mx \<longrightarrow>
     unescape_loop mx (map sing u @ rest) r = unescape_loop mx rest (r @ [c]))"

lemma is_ascii_concat [simp]: "is_ascii (concat xs) \<longleftrightarrow> (\<forall>x \<in> set xs. is_ascii x)"
  by (induction xs) auto

lemma unit_for_literal: "c \<noteq> BACKSLASH \<Longrightarrow> (of_char c :: nat) < 128 \<Longrightarrow> unit_for [c] c"
  by (simp add: unit_for_def)

lemma of_char_div_16 [simp]: "(of_char c :: nat) div 16 < 16"
  using of_char_lt_256 [of c] by linarith

lemma parse_hex_byte: "parse_radix 16 256 (hex_byte c) = Inr (of_char c)"
proof -
  have "digit_char (of_char c div 16) \<noteq> CHR ''+''" by (intro digit_char_neq) simp_all
  then show ?thesis
    by (simp add: parse_radix_def hex_byte_def Let_def less_mult_imp_div_less)
qed

lemma digit_char_ascii: "d < 16 \<Longrightarrow> (of_char (digit_char d) :: nat) < 128"
  using digit_char_range [of d] by linarith

lemma unit_for_hex: "unit_for (hex_escape c) c"
proof -
  have "is_ascii (hex_byte c)" by (simp add: hex_byte_def digit_char_ascii)
  moreover have "parse_radix 16 256 [digit_char (of_char c div 16), digit_char (of_char c mod 16)] =
      Inr (of_char c)"
    using parse_hex_byte [of c] by (simp add: hex_byte_def)
  ultimately show ?thesis by (simp add: unit_for_def hex_escape_def hex_byte_def)
qed

lemma printable_ascii:
  "is_ascii_alphanumeric c \<or> is_ascii_punctuation c \<Longrightarrow> 32 < (of_char c :: nat) \<and> (of_char c :: nat) < 127"
  by (auto simp: is_ascii_alphanumeric_def is_ascii_punctuation_def Let_def)

lemma unit_for_escape_byte: "unit_for (escape_byte mode c) c"
proof -
  have simple: "unit_for [BACKSLASH, BACKSLASH] BACKSLASH" "unit_for [BACKSLASH, CHR ''n''] CHR 0x0A"
    "unit_for [BACKSLASH, CHR ''t''] CHR 0x09" "unit_for [BACKSLASH, CHR ''r''] CHR 0x0D"
    by (simp_all add: unit_for_def)
  have lit: "is_ascii_alphanumeric c \<or> is_ascii_punctuation c \<Longrightarrow> c \<noteq> BACKSLASH \<Longrightarrow> unit_for [c] c"
    using printable_ascii [of c] by (intro unit_for_literal) auto
  show ?thesis using simple lit unit_for_hex [of c] by (auto simp: escape_byte_def Let_def)
qed

lemma unescape_loop_units:
  "\<forall>c \<in> set s. unit_for (f c) c \<Longrightarrow> length r + length s \<le> mx \<Longrightarrow>
     unescape_loop mx (map sing (concat (map f s))) r = Inr (r @ s)"
proof (induction s arbitrary: r)
  case (Cons c s)
  then have "unit_for (f c) c" by simp
  moreover have "length r \<noteq> mx" using Cons.prems by simp
  ultimately have "unescape_loop mx (map sing (f c) @ map sing (concat (map f s))) r =
      unescape_loop mx (map sing (concat (map f s))) (r @ [c])"
    by (simp add: unit_for_def)
  then show ?case using Cons by simp
qed simp

lemma unescape_loop_plain:
  "BACKSLASH \<notin> set t \<Longrightarrow> length r + length t \<le> mx \<Longrightarrow> unescape_loop mx (map sing t) r = Inr (r @ t)"
  by (induction t arbitrary: r) auto

lemma unescape_limited_units:
  assumes u: "\<forall>c \<in> set s. unit_for (f c) c" and l: "length s \<le> mx"
  shows "unescape_limited (concat (map f s)) mx = Inr s"
proof -
  let ?t = "concat (map f s)"
  have asc: "is_ascii ?t" using u by (simp add: unit_for_def)
  have "?t = s" if "BACKSLASH \<notin> set ?t"
    using unescape_loop_units [OF u, of "[]" "length ?t + length s"]
      unescape_loop_plain [OF that, of "[]" "length ?t + length s"] by simp
  then show ?thesis
    using unescape_loop_units [OF u, of "[]" mx] asc l
    by (auto simp: unescape_limited_def utf8_chars_ascii)
qed

lemma escape_as_units:
  assumes "s \<noteq> []"
  obtains f where "escape mode s = concat (map f s)" "\<forall>c \<in> set s. unit_for (f c) c"
proof (cases "s = DASH")
  case True
  have "hex_escape CHR ''-'' = [BACKSLASH, CHR ''x'', CHR ''2'', CHR ''d'']" by code_simp
  with True have "escape mode s = concat (map hex_escape s)" by (simp add: escape_def)
  then show ?thesis using that unit_for_hex by blast
next
  case False
  with assms have "escape mode s = concat (map (escape_byte mode) s)" by (simp add: escape_def)
  then show ?thesis using that unit_for_escape_byte by blast
qed

text \<open> C20: Every byte string but the empty one survives escaping and unescaping, in both modes and
  under every limit that it respects; the empty one comes back as a dash. \<close>

theorem unescape_escape:
  assumes "length s \<le> mx"
  shows "unescape_limited (escape mode s) mx =
    (if s = [] then (if mx = 0 then Inl (InputTooLong 0) else Inr DASH) else Inr s)"
proof (cases "s = []")
  case True
  then show ?thesis by (simp add: escape_def unescape_limited_def)
next
  case False
  then obtain f where "escape mode s = concat (map f s)" "\<forall>c \<in> set s. unit_for (f c) c"
    using escape_as_units by blast
  with False show ?thesis using unescape_limited_units [OF _ assms] by simp
qed

lemma unescape_escape_witness:
  "unescape_limited (escape XattrKey [CHR 0x00, CHR ''='', CHR 0xFF]) 3 =
     Inr [CHR 0x00, CHR ''='', CHR 0xFF]"
  using unescape_escape [of "[CHR 0x00, CHR ''='', CHR 0xFF]" 3 XattrKey] by simp

text \<open>What escaping writes holds no space, and no equals sign in a key.\<close>

lemma hex_escape_chars: "x \<in> set (hex_escape c) \<Longrightarrow> x \<noteq> SPACE \<and> x \<noteq> CHR ''=''"
proof -
  have d: "digit_char d \<noteq> SPACE" "digit_char d \<noteq> CHR ''=''" if "d < 16" for d
    using digit_char_neq [OF that, of SPACE] digit_char_neq [OF that, of "CHR ''=''"] by simp_all
  assume "x \<in> set (hex_escape c)"
  then have "x \<in> {BACKSLASH, CHR ''x'', digit_char (of_char c div 16), digit_char (of_char c mod 16)}"
    by (simp add: hex_escape_def hex_byte_def)
  then show ?thesis
    using d [of "of_char c div 16"] d [of "of_char c mod 16"] by auto
qed

lemma escape_byte_cases:
  "(32 < (of_char c :: nat) \<and> c \<noteq> BACKSLASH \<and> (mode = XattrKey \<longrightarrow> c \<noteq> CHR ''='') \<and> escape_byte mode c = [c])
   \<or> escape_byte mode c \<in> {[BACKSLASH, BACKSLASH], [BACKSLASH, CHR ''n''], [BACKSLASH, CHR ''t''],
       [BACKSLASH, CHR ''r'']}
   \<or> escape_byte mode c = hex_escape c"
  using printable_ascii [of c] by (simp add: escape_byte_def Let_def)

lemma escape_byte_chars:
  "SPACE \<notin> set (escape_byte mode c)" "CHR ''='' \<notin> set (escape_byte XattrKey c)"
proof -
  show "SPACE \<notin> set (escape_byte mode c)"
    using escape_byte_cases [of c mode] hex_escape_chars [of SPACE c] by (elim disjE) auto
  show "CHR ''='' \<notin> set (escape_byte XattrKey c)"
    using escape_byte_cases [of c XattrKey] hex_escape_chars [of "CHR ''=''" c] by (elim disjE) auto
qed

lemma escape_no_space [simp]: "SPACE \<notin> set (escape mode s)"
  by (simp add: escape_def escape_byte_chars)

lemma escape_key_no_equals [simp]: "CHR ''='' \<notin> set (escape XattrKey s)"
  by (simp add: escape_def escape_byte_chars)

lemma escape_DASH: "s \<noteq> [] \<Longrightarrow> escape mode s \<noteq> DASH"
proof
  assume "s \<noteq> []" "escape mode s = DASH"
  moreover from \<open>s \<noteq> []\<close> have "unescape_limited (escape mode s) (length s + 1) = Inr s"
    using unescape_limited_units [of s _ "length s + 1"] by (metis escape_as_units le_add1)
  ultimately have "s = DASH" by (simp add: unescape_limited_def split: if_splits)
  with \<open>escape mode s = DASH\<close> show False by (simp add: escape_def)
qed

lemma unescape_limited_escape: "s \<noteq> [] \<Longrightarrow> length s \<le> mx \<Longrightarrow> unescape_limited (escape mode s) mx = Inr s"
  by (metis escape_as_units unescape_limited_units)

section \<open>Canonical paths\<close>

definition canonical_path :: "bytes \<Rightarrow> bool" where
  "canonical_path p \<longleftrightarrow> p = ''/'' \<or>
     (case split_char SLASH p of [] \<Rightarrow> False
      | e # ns \<Rightarrow> e = [] \<and> ns \<noteq> [] \<and> list_all valid_name ns)"

lemma canonical_path_iff: "canonical_path p \<longleftrightarrow> (\<exists>ns. p = abs_path ns \<and> (\<forall>n \<in> set ns. valid_name n))"
proof
  assume c: "canonical_path p"
  show "\<exists>ns. p = abs_path ns \<and> (\<forall>n \<in> set ns. valid_name n)"
  proof (cases "p = ''/''")
    case True
    then show ?thesis by (intro exI [of _ "[]"]) (simp add: abs_path_def)
  next
    case False
    with c obtain ns where ns: "split_char SLASH p = [] # ns" "ns \<noteq> []" "list_all valid_name ns"
      by (auto simp: canonical_path_def split: list.splits)
    have "p = join_char SLASH ([] # ns)" using ns(1) join_split_char [of SLASH p] by simp
    then have "p = abs_path ns" using ns(2) by (cases ns) (simp_all add: abs_path_def)
    then show ?thesis using ns(3) by (auto simp: list_all_iff)
  qed
next
  assume "\<exists>ns. p = abs_path ns \<and> (\<forall>n \<in> set ns. valid_name n)"
  then obtain ns where p: "p = abs_path ns" and v: "\<forall>n \<in> set ns. valid_name n" by blast
  show "canonical_path p"
  proof (cases "ns = []")
    case True
    then show ?thesis using p by (simp add: canonical_path_def abs_path_def)
  next
    case False
    have "split_char SLASH (join_char SLASH ns) = ns"
      using v False by (intro split_char_join) (auto simp: valid_name_def)
    then show ?thesis using p v False by (simp add: canonical_path_def abs_path_def list_all_iff)
  qed
qed

lemma push_abs_path:
  assumes "\<forall>m \<in> set ms. valid_name m" "valid_name n"
  shows "push (abs_path ms) n = abs_path (ms @ [n])"
proof -
  have n: "\<not> has_root n" using assms(2) by (cases n) (auto simp: has_root_def valid_name_def)
  have j: "join_char SLASH (ms @ [n]) = (if ms = [] then n else join_char SLASH ms @ SLASH # n)"
    by (induction SLASH ms rule: join_char.induct) auto
  show ?thesis
  proof (cases ms rule: rev_cases)
    case Nil
    then show ?thesis using n by (simp add: push_def abs_path_def)
  next
    case (snoc ms' m)
    have m: "m \<noteq> []" "SLASH \<notin> set m" using assms(1) snoc by (auto simp: valid_name_def)
    have jm: "join_char SLASH (ms' @ [m]) = (if ms' = [] then m else join_char SLASH ms' @ SLASH # m)"
      by (induction SLASH ms' rule: join_char.induct) auto
    have "last m \<noteq> SLASH" using m last_in_set [of m] by metis
    then have "last (abs_path ms) \<noteq> SLASH" using snoc m jm by (auto simp: abs_path_def)
    then show ?thesis using n j snoc by (simp add: push_def abs_path_def)
  qed
qed

lemma canonical_loop_normal:
  "\<forall>n \<in> set ns. valid_name n \<Longrightarrow> \<forall>m \<in> set ms. valid_name m \<Longrightarrow>
     canonical_loop (map Normal ns) (abs_path ms) = Inr (abs_path (ms @ ns))"
  by (induction ns arbitrary: ms) (simp_all add: push_abs_path)

lemma push_root: "push [] ''/'' = abs_path []"
  by (simp add: push_def has_root_def abs_path_def)

lemma canonical_loop_Inr:
  "canonical_loop cs r = Inr q \<Longrightarrow> \<exists>ns. cs = map Normal ns"
proof (induction cs r rule: canonical_loop.induct)
  case (2 n cs r)
  then obtain ns where "cs = map Normal ns" by auto
  then show ?case by (intro exI [of _ "n # ns"]) simp
qed auto

lemma components_Normal_valid: "Normal n \<in> set (components p) \<Longrightarrow> valid_name n"
proof -
  assume "Normal n \<in> set (components p)"
  then obtain t where "t \<in> set (path_body p)" "real_piece t" "parse_component t = Normal n"
    using path_lead_cases [of p] by (auto simp: components_def)
  then show ?thesis
    using path_body_no_slash [of t p]
    by (auto simp: parse_component_def real_piece_def valid_name_def split: if_splits)
qed

text \<open> Every path that the parser accepts is in canonical form (absolute, no empty, "." or
  ".." component) and spells the components of the text that was escaped. \<close>

theorem unescape_to_path_canonical_sound:
  assumes "unescape_to_path_canonical s = Inr q"
  shows "canonical_path q \<and> (\<exists>p. unescape_to_path s = Inr p \<and> components q = components p)"
proof -
  obtain p where p0: "unescape_to_path s = Inr p" and
    m: "(case components p of [] \<Rightarrow> Inl EmptyPath
        | first # rest \<Rightarrow> if first \<noteq> RootDir then Inl NonAbsolutePath
          else rbind (canonical_loop rest (push [] (component_bytes first)))
            (\<lambda>r. if r = p then Inr p else Inr r)) = Inr q"
    using assms by (auto simp: unescape_to_path_canonical_def rbind_eq_Inr_iff)
  have same: "(\<lambda>r. if r = p then Inr p else Inr r) = (\<lambda>r. Inr r :: dump_error + bytes)" by auto
  obtain rest where c: "components p = RootDir # rest"
    using m by (cases "components p") (auto split: if_splits)
  then have "canonical_loop rest (push [] ''/'') = Inr q"
    using m unfolding same by (simp add: component_bytes_def rbind_eq_Inr_iff)
  with p0 c have p: "unescape_to_path s = Inr p" "components p = RootDir # rest"
    "canonical_loop rest (push [] ''/'') = Inr q" by simp_all
  obtain ns where ns: "rest = map Normal ns" using canonical_loop_Inr [OF p(3)] by blast
  have v: "\<forall>n \<in> set ns. valid_name n" using p(2) ns components_Normal_valid [of _ p] by auto
  then have "q = abs_path ns" using p(3) ns canonical_loop_normal [of ns "[]"] by (simp add: push_root)
  then have "canonical_path q" "components q = components p"
    using v p(2) ns by (simp_all add: canonical_path_iff) blast
  then show ?thesis using p(1) by simp
qed

lemma unescape_to_path_canonical_sound_witness: "canonical_path ''/a/b''"
proof -
  have "unescape_to_path ''/a//./b/'' = Inr ''/a//./b/''"
    by (simp add: unescape_to_path_def unescape_to_osstr_def unescape_def unescape_limited_def
        USIZE_MAX_def PATH_MAX_def)
  moreover have "components ''/a//./b/'' = [RootDir, Normal ''a'', Normal ''b'']"
    "push (push (push [] ''/'') ''a'') ''b'' = ''/a/b''" by code_simp+
  ultimately have "unescape_to_path_canonical ''/a//./b/'' = Inr ''/a/b''"
    by (simp add: unescape_to_path_canonical_def component_bytes_def)
  then show ?thesis by (rule unescape_to_path_canonical_sound [THEN conjunct1])
qed

text \<open>Paths that survive printing and parsing.\<close>

definition path_ok :: "bytes \<Rightarrow> bool" where
  "path_ok p \<longleftrightarrow> p \<noteq> [] \<and> CHR 0x00 \<notin> set p \<and> length p \<le> PATH_MAX"

lemma PATH_MAX_le: "n \<le> PATH_MAX \<Longrightarrow> n \<le> USIZE_MAX" "n \<le> XATTR_SIZE_MAX \<Longrightarrow> n \<le> USIZE_MAX"
  "n \<le> XATTR_NAME_MAX \<Longrightarrow> n \<le> USIZE_MAX"
  by (simp_all add: PATH_MAX_def USIZE_MAX_def XATTR_SIZE_MAX_def XATTR_NAME_MAX_def)

lemma unescape_to_path_escape: "path_ok p \<Longrightarrow> unescape_to_path (escape mode p) = Inr p"
  by (simp add: path_ok_def unescape_to_path_def unescape_to_osstr_def unescape_def
      unescape_limited_escape PATH_MAX_le)

lemma unescape_canonical_escape:
  assumes "path_ok p" "canonical_path p"
  shows "unescape_to_path_canonical (escape mode p) = Inr p"
proof -
  obtain ns where ns: "p = abs_path ns" "\<forall>n \<in> set ns. valid_name n"
    using assms(2) by (auto simp: canonical_path_iff)
  then show ?thesis
    using assms(1) canonical_loop_normal [of ns "[]"]
    by (simp add: unescape_to_path_canonical_def unescape_to_path_escape component_bytes_def push_root)
qed

section \<open>Entries read back\<close>

definition xattr_ok :: "xattr \<Rightarrow> bool" where
  "xattr_ok x \<longleftrightarrow> xkey x \<noteq> [] \<and> CHR 0x00 \<notin> set (xkey x) \<and> length (xkey x) \<le> XATTR_NAME_MAX \<and>
     xvalue x \<noteq> [] \<and> length (xvalue x) \<le> XATTR_SIZE_MAX"

definition item_ok :: "u32 \<Rightarrow> item \<Rightarrow> bool" where
  "item_ok mode i = (case i of
       RegularInline _ c \<Rightarrow> from_raw_mode mode = FtRegular \<and> length c \<le> MAX_INLINE_CONTENT
     | RegularExt _ _ p d \<Rightarrow> from_raw_mode mode = FtRegular \<and> path_ok p \<and>
         (case d of None \<Rightarrow> True | Some x \<Rightarrow> x \<noteq> DASH \<and> SPACE \<notin> set x)
     | Device _ _ \<Rightarrow> from_raw_mode mode \<in> {FtCharacterDevice, FtBlockDevice}
     | SymlinkItem _ t \<Rightarrow> from_raw_mode mode = FtSymlink \<and> path_ok t
     | FifoItem _ \<Rightarrow> from_raw_mode mode = FtFifo
     | DirectoryItem _ _ \<Rightarrow> from_raw_mode mode = FtDirectory
     | Hardlink _ \<Rightarrow> False)"

definition entry_ok :: "entry \<Rightarrow> bool" where
  "entry_ok e \<longleftrightarrow> path_ok (epath e) \<and> canonical_path (epath e) \<and> item_ok (emode e) (eitem e) \<and>
     list_all xattr_ok (exattrs e) \<and>
     sum_list (map (\<lambda>x. length (xkey x)) (exattrs e)) \<le> XATTR_LIST_MAX"

lemma unat_limits [simp]:
  "unat (a :: u32) < 4294967296" "unat (b :: u64) < 18446744073709551616"
  using unsigned_less [of a, where 'a = nat] unsigned_less [of b, where 'a = nat] by simp_all

lemma parse_show_numbers [simp]:
  "parse_u32 (show_dec (unat a)) = Inr a" "parse_u64 (show_dec (unat b)) = Inr b"
  "parse_octal_u32 (show_oct (unat a)) = Inr a"
  by (simp_all add: parse_u32_def parse_u64_def parse_octal_u32_def)

lemma show_radix_clean [simp]:
  "SPACE \<notin> set (show_dec n)" "SPACE \<notin> set (show_oct n)" "CHR ''.'' \<notin> set (show_dec n)"
  "CHR ''@'' \<notin> set (show_oct n)"
  by (intro show_radix_no; simp)+

lemma parse_show_mtime [simp]: "parse_mtime (show_mtime m) = Inr m"
  by (simp add: parse_mtime_def show_mtime_def)

lemma show_mtime_clean [simp]: "SPACE \<notin> set (show_mtime m)"
  by (simp add: show_mtime_def)

lemma parse_mode_show [simp]: "parse_mode (show_oct (unat m)) = Inr (False, m)"
  by (simp add: parse_mode_def split_once_None)

text \<open>Attributes that can be printed: an empty value is printed as a dash, and a dash is read as itself.\<close>

definition xattr_fits :: "xattr \<Rightarrow> bool" where
  "xattr_fits x \<longleftrightarrow> xkey x \<noteq> [] \<and> CHR 0x00 \<notin> set (xkey x) \<and> length (xkey x) \<le> XATTR_NAME_MAX \<and>
     length (xvalue x) \<le> XATTR_SIZE_MAX"

definition dashed :: "xattr \<Rightarrow> xattr" where
  "dashed x = (if xvalue x = [] then x\<lparr>xvalue := DASH\<rparr> else x)"

definition entry_fits :: "entry \<Rightarrow> bool" where
  "entry_fits e \<longleftrightarrow> path_ok (epath e) \<and> canonical_path (epath e) \<and> item_ok (emode e) (eitem e) \<and>
     list_all xattr_fits (exattrs e) \<and>
     sum_list (map (\<lambda>x. length (xkey x)) (exattrs e)) \<le> XATTR_LIST_MAX"

lemma unescape_shown_value:
  "length v \<le> XATTR_SIZE_MAX \<Longrightarrow> unescape (escape Standard v) = Inr (if v = [] then DASH else v)"
proof (cases "v = []")
  case True
  have "unescape (escape Standard []) = Inr DASH" by (simp add: escape_def unescape_def unescape_limited_def USIZE_MAX_def)
  then show ?thesis using True by simp
qed (simp add: unescape_def unescape_limited_escape PATH_MAX_le)

lemma parse_show_xattr:
  assumes "xattr_fits x"
  shows "parse_xattr (escape XattrKey (xkey x) @ CHR ''='' # escape Standard (xvalue x)) = Inr (dashed x)"
proof -
  have k: "unescape_to_osstr (escape XattrKey (xkey x)) = Inr (xkey x)" "\<not> XATTR_NAME_MAX < length (xkey x)"
    using assms by (simp_all add: xattr_fits_def unescape_to_osstr_def unescape_def unescape_limited_escape PATH_MAX_le)
  have v: "unescape (escape Standard (xvalue x)) = Inr (xvalue (dashed x))" "\<not> XATTR_SIZE_MAX < length (xvalue (dashed x))"
    using assms unescape_shown_value [of "xvalue x"] by (simp_all add: xattr_fits_def dashed_def XATTR_SIZE_MAX_def)
  show ?thesis using k v by (simp add: parse_xattr_def dashed_def)
qed

lemma xattr_fold:
  assumes "list_all xattr_fits xs" "n + sum_list (map (\<lambda>x. length (xkey x)) xs) \<le> XATTR_LIST_MAX"
  shows "rfold xattr_step (acc, n)
      (map (\<lambda>x. escape XattrKey (xkey x) @ CHR ''='' # escape Standard (xvalue x)) xs) =
    Inr (acc @ map dashed xs, n + sum_list (map (\<lambda>x. length (xkey x)) xs))"
  using assms
proof (induction xs arbitrary: acc n)
  case (Cons x xs)
  have "n + length (xkey x) \<le> USIZE_MAX" "n + length (xkey x) \<le> XATTR_LIST_MAX"
    using Cons.prems by (simp_all add: XATTR_LIST_MAX_def USIZE_MAX_def)
  moreover have "xkey (dashed x) = xkey x" by (simp add: dashed_def)
  ultimately show ?case using Cons by (simp add: xattr_step_def parse_show_xattr Let_def min_def)
qed simp

text \<open>The fields of a printed entry.\<close>

definition fields :: "entry \<Rightarrow> bytes list" where
  "fields e = [escape Standard (epath e), show_dec (unat (item_size (eitem e))),
     show_oct (unat (emode e)), show_dec (unat (item_nlink (eitem e))), show_dec (unat (euid e)),
     show_dec (unat (egid e)), show_dec (unat (item_rdev (eitem e))), show_mtime (emtime e),
     (case item_payload (eitem e) of Some p \<Rightarrow> escape Standard p | None \<Rightarrow> DASH),
     (case eitem e of RegularInline _ c \<Rightarrow> escape Standard c | _ \<Rightarrow> DASH),
     (case eitem e of RegularExt _ _ _ (Some d) \<Rightarrow> d | _ \<Rightarrow> DASH)]"

lemma join_char_Cons: "ps \<noteq> [] \<Longrightarrow> join_char d (p # ps) = p @ d # join_char d ps"
  by (cases ps) simp_all

lemma join_char_map: "join_char d (p # map f xs) = p @ concat (map (\<lambda>x. d # f x) xs)"
  by (induction xs arbitrary: p) (simp_all add: join_char_Cons)

lemma join_char_fields:
  "join_char d ([a1, a2, a3, a4, a5, a6, a7, a8, a9, a10, a11] @ map f xs) =
     a1 @ d # a2 @ d # a3 @ d # a4 @ d # a5 @ d # a6 @ d # a7 @ d # a8 @ d # a9 @ d # a10 @ d # a11 @
     concat (map (\<lambda>x. d # f x) xs)"
  by (simp add: join_char_Cons join_char_map del: join_char.simps)

lemma show_entry_fields:
  "show_entry e = join_char SPACE (fields e @
     map (\<lambda>x. escape XattrKey (xkey x) @ CHR ''='' # escape Standard (xvalue x)) (exattrs e))"
proof -
  have x: "show_xattr = (\<lambda>x. SPACE # escape XattrKey (xkey x) @ CHR ''='' # escape Standard (xvalue x))"
    by (simp add: show_xattr_def fun_eq_iff)
  show ?thesis
    unfolding fields_def join_char_fields
    by (cases "eitem e") (simp_all add: show_entry_def x item_payload_def split: option.splits)
qed

lemma split_show_entry:
  assumes "entry_fits e"
  shows "split_char SPACE (show_entry e) = fields e @
     map (\<lambda>x. escape XattrKey (xkey x) @ CHR ''='' # escape Standard (xvalue x)) (exattrs e)"
  unfolding show_entry_fields
  by (rule split_char_join)
    (use assms in \<open>auto simp: fields_def entry_fits_def item_ok_def split: item.splits option.splits\<close>)

lemma optional_str_simps [simp]:
  "optional_str DASH = None" "p \<noteq> [] \<Longrightarrow> optional_str (escape mode p) = Some (escape mode p)"
  "optional_str (escape mode []) = None"
  by (simp_all add: optional_str_def escape_DASH) (simp add: escape_def)

lemma optional_str_some: "s \<noteq> DASH \<Longrightarrow> optional_str s = Some s"
  by (simp add: optional_str_def)

lemma unescape_content: "length c \<le> MAX_INLINE_CONTENT \<Longrightarrow>
    unescape_limited (case optional_str (escape Standard c) of None \<Rightarrow> [] | Some x \<Rightarrow> x) MAX_INLINE_CONTENT = Inr c"
proof (cases "c = []")
  case True
  then show ?thesis by (simp add: unescape_limited_def)
qed (simp add: unescape_limited_escape)

lemma parse_item_fields:
  assumes "item_ok mode i"
  shows "parse_item False mode (item_size i) (item_nlink i) (item_rdev i)
    (optional_str (case item_payload i of Some p \<Rightarrow> escape Standard p | None \<Rightarrow> DASH))
    (optional_str (case i of RegularInline _ c \<Rightarrow> escape Standard c | _ \<Rightarrow> DASH))
    (optional_str (case i of RegularExt _ _ _ (Some d) \<Rightarrow> d | _ \<Rightarrow> DASH)) = Inr i"
proof (cases i)
  case (RegularExt sz nl p d)
  then show ?thesis using assms
    by (cases d) (auto simp: item_ok_def parse_item_def item_size_def item_nlink_def item_rdev_def
        item_payload_def check_rdev_def unescape_to_path_escape path_ok_def [of p] optional_str_some)
next
  case (SymlinkItem nl t)
  then have "path_ok t" using assms by (simp add: item_ok_def)
  then have "t \<noteq> []" "length t \<le> PATH_MAX" by (simp_all add: path_ok_def)
  then show ?thesis using assms SymlinkItem \<open>path_ok t\<close>
    by (simp add: item_ok_def parse_item_def item_size_def item_nlink_def item_rdev_def
        item_payload_def check_rdev_def check_nonregfile_def unescape_to_path_escape)
qed (use assms in \<open>auto simp: item_ok_def parse_item_def item_size_def item_nlink_def item_rdev_def
        item_payload_def check_rdev_def check_nonregfile_def unescape_content\<close>)

lemma parse_shown:
  assumes "entry_fits e"
  shows "parse_entry (show_entry e) = Inr (e\<lparr>exattrs := map dashed (exattrs e)\<rparr>)"
proof -
  have i: "item_ok (emode e) (eitem e)" and p: "path_ok (epath e)" "canonical_path (epath e)"
    and x: "list_all xattr_fits (exattrs e)" "sum_list (map (\<lambda>x. length (xkey x)) (exattrs e)) \<le> XATTR_LIST_MAX"
    using assms by (auto simp: entry_fits_def)
  have "rfold xattr_step ([], 0)
      (map (\<lambda>x. escape XattrKey (xkey x) @ CHR ''='' # escape Standard (xvalue x)) (exattrs e)) =
    Inr (map dashed (exattrs e), sum_list (map (\<lambda>x. length (xkey x)) (exattrs e)))"
    using xattr_fold [OF x(1), of 0 "[]"] x(2) by simp
  then show ?thesis
    unfolding parse_entry_def split_show_entry [OF assms]
    by (simp add: fields_def next_field_def unescape_canonical_escape [OF p] parse_item_fields [OF i])
qed

lemma entry_ok_dashed: "entry_ok e \<Longrightarrow> entry_fits e \<and> e\<lparr>exattrs := map dashed (exattrs e)\<rparr> = e"
proof -
  assume e: "entry_ok e"
  then have "\<forall>x \<in> set (exattrs e). dashed x = x \<and> xattr_fits x"
    by (auto simp: entry_ok_def list_all_iff xattr_ok_def xattr_fits_def dashed_def)
  then have "map dashed (exattrs e) = exattrs e" "list_all xattr_fits (exattrs e)" by (simp_all add: map_idI list_all_iff)
  then show ?thesis using e by (simp add: entry_ok_def entry_fits_def)
qed

text \<open> C6: An entry that is printed parses back to itself, except that an empty attribute value comes back as a
  single dash. This holds of every entry but a hardlink, with a canonical path and with names, targets, contents and
  values within the limits of the format; every number has its full width. In particular an entry without empty values
  is read back as it was. \<close>

theorem parse_show_entry:
  assumes "entry_fits e"
  shows "parse_entry (show_entry e) = Inr (e\<lparr>exattrs := map dashed (exattrs e)\<rparr>) \<and>
    ((\<forall>x \<in> set (exattrs e). xvalue x \<noteq> []) \<longrightarrow> parse_entry (show_entry e) = Inr e)"
proof
  show p: "parse_entry (show_entry e) = Inr (e\<lparr>exattrs := map dashed (exattrs e)\<rparr>)" by (rule parse_shown [OF assms])
  show "(\<forall>x \<in> set (exattrs e). xvalue x \<noteq> []) \<longrightarrow> parse_entry (show_entry e) = Inr e"
  proof
    assume "\<forall>x \<in> set (exattrs e). xvalue x \<noteq> []"
    then have "map dashed (exattrs e) = exattrs e" by (simp add: dashed_def map_idI)
    then show "parse_entry (show_entry e) = Inr e" unfolding p by simp
  qed
qed

definition example_entry :: entry where
  "example_entry = \<lparr>epath = ''/a b'', euid = 1000, egid = 0, emode = 0x81A4,
     emtime = \<lparr>sec = 5, nsec = 7\<rparr>, eitem = RegularInline 1 ''-'',
     exattrs = [\<lparr>xkey = ''user.x='', xvalue = [CHR 0x0A]\<rparr>, \<lparr>xkey = ''user.y'', xvalue = []\<rparr>]\<rparr>"

lemma parse_show_entry_witness:
  "parse_entry (show_entry example_entry) =
     Inr (example_entry\<lparr>exattrs := [\<lparr>xkey = ''user.x='', xvalue = [CHR 0x0A]\<rparr>, \<lparr>xkey = ''user.y'', xvalue = DASH\<rparr>]\<rparr>)"
proof -
  have "entry_fits example_entry"
    by (simp add: example_entry_def entry_fits_def path_ok_def canonical_path_def
      item_ok_def xattr_fits_def valid_name_def from_raw_mode_def S_IFMT_def PATH_MAX_def
      MAX_INLINE_CONTENT_def XATTR_NAME_MAX_def XATTR_SIZE_MAX_def XATTR_LIST_MAX_def Let_def)
  then have "parse_entry (show_entry example_entry) = Inr (example_entry\<lparr>exattrs := map dashed (exattrs example_entry)\<rparr>)"
    using parse_show_entry by blast
  then show ?thesis by (simp add: example_entry_def dashed_def)
qed

section \<open>Where the format is not kept\<close>

text \<open> \<open>Display\<close> prints a hardlink without the marker \<open>@\<close> of its mode, so a hardlink
  entry whose mode has the type bits of a symlink parses back as a symlink with no links. \<close>

theorem hardlink_display_loses_marker:
  assumes "eitem e = Hardlink t" and "entry_ok (e\<lparr>eitem := SymlinkItem 0 t\<rparr>)"
  shows "parse_entry (show_entry e) = Inr (e\<lparr>eitem := SymlinkItem 0 t\<rparr>)"
proof -
  have "show_entry e = show_entry (e\<lparr>eitem := SymlinkItem 0 t\<rparr>)"
    using assms(1) by (simp add: show_entry_def item_size_def item_nlink_def item_rdev_def item_payload_def)
  moreover have "parse_entry (show_entry (e\<lparr>eitem := SymlinkItem 0 t\<rparr>)) = Inr (e\<lparr>eitem := SymlinkItem 0 t\<rparr>)"
    using parse_shown [of "e\<lparr>eitem := SymlinkItem 0 t\<rparr>"] entry_ok_dashed [OF assms(2)] by simp
  ultimately show ?thesis by simp
qed

definition example_hardlink :: entry where
  "example_hardlink = \<lparr>epath = ''/b'', euid = 0, egid = 0, emode = 0xA000,
     emtime = \<lparr>sec = 0, nsec = 0\<rparr>, eitem = Hardlink ''/a'', exattrs = []\<rparr>"

lemma hardlink_display_loses_marker_witness:
  "parse_entry (show_entry example_hardlink) = Inr (example_hardlink\<lparr>eitem := SymlinkItem 0 ''/a''\<rparr>)"
  by (rule hardlink_display_loses_marker)
    (simp_all add: example_hardlink_def entry_ok_def path_ok_def canonical_path_def
      item_ok_def valid_name_def from_raw_mode_def S_IFMT_def PATH_MAX_def XATTR_LIST_MAX_def Let_def)

text \<open>The two bytes of U+00E9.\<close>

definition e_acute :: bytes where "e_acute = [CHR 0xC3, CHR 0xA9]"

lemma utf8_chars_e_acute: "utf8_chars (concat (replicate n e_acute)) = replicate n e_acute"
  by (induction n) (simp_all add: e_acute_def utf8_width_def)

lemma unescape_loop_e_acute:
  "odd (length r) \<Longrightarrow> even mx \<Longrightarrow>
     unescape_loop mx (replicate n e_acute) r = Inr (r @ concat (replicate n e_acute))"
proof (induction n arbitrary: r)
  case (Suc n)
  have "length r \<noteq> mx" using Suc.prems by auto
  moreover have "odd (length (r @ e_acute))" using Suc.prems by (simp add: e_acute_def)
  ultimately show ?case using Suc by (simp add: e_acute_def)
qed simp

text \<open> C22: The limit on inline content is compared for equality, so a character of two bytes that
  straddles it disarms it: contents of any length are accepted. \<close>

theorem inline_limit_bypassed:
  "unescape_limited (CHR ''a'' # concat (replicate (Suc n) e_acute)) MAX_INLINE_CONTENT =
     Inr (CHR ''a'' # concat (replicate (Suc n) e_acute))"
proof -
  let ?s = "CHR ''a'' # concat (replicate (Suc n) e_acute)"
  have "utf8_chars ?s = ''a'' # replicate (Suc n) e_acute"
    using utf8_chars_e_acute [of "Suc n"] by (simp add: utf8_width_def)
  moreover have "unescape_loop MAX_INLINE_CONTENT (''a'' # es) [] = unescape_loop MAX_INLINE_CONTENT es ''a''"
    for es by (simp add: MAX_INLINE_CONTENT_def)
  moreover have "unescape_loop MAX_INLINE_CONTENT (replicate (Suc n) e_acute) ''a'' =
      Inr (''a'' @ concat (replicate (Suc n) e_acute))"
    by (rule unescape_loop_e_acute) (simp_all add: MAX_INLINE_CONTENT_def)
  ultimately have "unescape_loop MAX_INLINE_CONTENT (utf8_chars ?s) [] = Inr (''a'' @ concat (replicate (Suc n) e_acute))"
    by (simp only: append.simps)
  then have "unescape_loop MAX_INLINE_CONTENT (utf8_chars ?s) [] = Inr ?s"
    by (simp only: append.simps)
  moreover have "\<not> is_ascii ?s" by (simp add: e_acute_def)
  ultimately show ?thesis unfolding unescape_limited_def by (simp only: if_False simp_thms)
qed

end
