(* ===== verification/Generic_Tree.thy ===== *)
theory Generic_Tree
  imports Ordered_Map Rust_Path "HOL-Library.Sublist"
begin

text \<open>
  Models \<open>crates/composefs/src/generic_tree.rs\<close> and the content type of
  \<open>crates/composefs/src/tree.rs\<close>: the metadata-only filesystem tree, lookup along a path,
  the operations on a directory, and the transformations of a whole filesystem.

  \<open>Rc<Leaf<T>>\<close> is a pointer \<open>rc\<close> into a heap of leaves (a list; \<open>Rc::new\<close>
  appends), so that hardlinks are two entries with the same pointer and a write through a
  \<open>RefCell\<close> is seen from both. A \<open>&mut Directory\<close> returned by a function is the
  directory together with the function that puts its new value back into the tree.
  \<open>st_mtim_sec\<close>, an \<open>i64\<close>, is a 64-bit word read with \<^const>\<open>sint\<close>.
\<close>

section \<open>Data\<close>

record stat =
  st_mode :: u32
  st_uid :: u32
  st_gid :: u32
  st_mtim_sec :: u64
  xattrs :: "(bytes \<times> bytes) list"

datatype 't leaf_content =
    Regular 't
  | BlockDevice u64
  | CharacterDevice u64
  | Fifo
  | Socket
  | Symlink bytes

record 't leaf =
  leaf_stat :: stat
  content :: "'t leaf_content"

type_synonym rc = nat

datatype 'd inode_of = IDirectory 'd | ILeaf rc

datatype directory = Directory (dstat: stat) (entries: "(bytes \<times> directory inode_of) list")

type_synonym inode = "directory inode_of"

record 't filesystem =
  root :: directory
  heap :: "'t leaf list"

datatype image_error =
    InvalidFilename bytes
  | NotFound bytes
  | NotADirectory bytes
  | IsADirectory bytes
  | IsNotRegular bytes

text \<open>The content of a regular file in a composefs tree (\<open>tree.rs\<close>).\<close>

datatype regular_file = Inline bytes | External bytes u64

definition stat_uninitialized :: stat where
  "stat_uninitialized =
     \<lparr>st_mode = 0, st_uid = 0, st_gid = 0, st_mtim_sec = 0, xattrs = []\<rparr>"

definition inode_stat :: "'t leaf list \<Rightarrow> inode \<Rightarrow> stat" where
  "inode_stat h i = (case i of IDirectory d \<Rightarrow> dstat d | ILeaf r \<Rightarrow> leaf_stat (h ! r))"

definition set_stat :: "stat \<Rightarrow> directory \<Rightarrow> directory" where
  "set_stat st d = Directory st (entries d)"

definition set_entries :: "(bytes \<times> inode) list \<Rightarrow> directory \<Rightarrow> directory" where
  "set_entries es d = Directory (dstat d) es"

lemma directory_sel_simps [simp]:
  "dstat (set_stat st d) = st" "entries (set_stat st d) = entries d"
  "dstat (set_entries es d) = dstat d" "entries (set_entries es d) = es"
  by (simp_all add: set_stat_def set_entries_def)

section \<open>Lookup along a path\<close>

definition directory_new :: "stat \<Rightarrow> directory" where
  "directory_new st = Directory st []"

fun walk_opt :: "bytes \<Rightarrow> component list \<Rightarrow> directory \<Rightarrow> image_error + directory option" where
  "walk_opt pathname [] d = Inr (Some d)"
| "walk_opt pathname (RootDir # cs) d = walk_opt pathname cs d"
| "walk_opt pathname (CurDir # cs) d = Inl (InvalidFilename pathname)"
| "walk_opt pathname (ParentDir # cs) d = Inl (InvalidFilename pathname)"
| "walk_opt pathname (Normal filename # cs) d =
     (case bt_get (entries d) filename of
        Some (IDirectory subdir) \<Rightarrow> walk_opt pathname cs subdir
      | Some (ILeaf r) \<Rightarrow> Inl (NotADirectory filename)
      | None \<Rightarrow> Inr None)"

definition get_directory_opt :: "directory \<Rightarrow> bytes \<Rightarrow> image_error + directory option" where
  "get_directory_opt d pathname = walk_opt pathname (components pathname) d"

definition get_directory :: "directory \<Rightarrow> bytes \<Rightarrow> image_error + directory" where
  "get_directory d pathname =
     rbind (get_directory_opt d pathname) (\<lambda>r. case r of Some s \<Rightarrow> Inr s
       | None \<Rightarrow> Inl (NotFound pathname))"

fun walk_mut :: "bytes \<Rightarrow> component list \<Rightarrow> directory \<Rightarrow>
    image_error + directory \<times> (directory \<Rightarrow> directory)" where
  "walk_mut pathname [] d = Inr (d, \<lambda>d'. d')"
| "walk_mut pathname (RootDir # cs) d = walk_mut pathname cs d"
| "walk_mut pathname (CurDir # cs) d = Inl (InvalidFilename pathname)"
| "walk_mut pathname (ParentDir # cs) d = Inl (InvalidFilename pathname)"
| "walk_mut pathname (Normal filename # cs) d =
     (case bt_get (entries d) filename of
        Some (IDirectory subdir) \<Rightarrow> rbind (walk_mut pathname cs subdir) (\<lambda>(s, put).
          Inr (s, \<lambda>s'. set_entries (bt_insert filename (IDirectory (put s')) (entries d)) d))
      | Some (ILeaf r) \<Rightarrow> Inl (NotADirectory filename)
      | None \<Rightarrow> Inl (NotFound filename))"

definition get_directory_mut ::
    "directory \<Rightarrow> bytes \<Rightarrow> image_error + directory \<times> (directory \<Rightarrow> directory)" where
  "get_directory_mut d pathname = walk_mut pathname (components pathname) d"

definition split :: "directory \<Rightarrow> bytes \<Rightarrow> image_error + directory \<times> bytes" where
  "split d pathname =
     (case file_name pathname of None \<Rightarrow> Inl (InvalidFilename pathname)
      | Some filename \<Rightarrow>
          rbind (case parent pathname of Some p \<Rightarrow> get_directory d p | None \<Rightarrow> Inr d)
            (\<lambda>dir. Inr (dir, filename)))"

definition split_mut ::
    "directory \<Rightarrow> bytes \<Rightarrow> image_error + (directory \<times> (directory \<Rightarrow> directory)) \<times> bytes" where
  "split_mut d pathname =
     (case file_name pathname of None \<Rightarrow> Inl (InvalidFilename pathname)
      | Some filename \<Rightarrow>
          rbind (case parent pathname of Some p \<Rightarrow> get_directory_mut d p | None \<Rightarrow> Inr (d, \<lambda>d'. d'))
            (\<lambda>dir. Inr (dir, filename)))"

section \<open>Operations on one directory\<close>

definition ref_leaf :: "directory \<Rightarrow> bytes \<Rightarrow> image_error + rc" where
  "ref_leaf d filename =
     (case bt_get (entries d) filename of
        Some (ILeaf r) \<Rightarrow> Inr r
      | Some (IDirectory _) \<Rightarrow> Inl (IsADirectory filename)
      | None \<Rightarrow> Inl (NotFound filename))"

definition get_file_opt :: "'t leaf list \<Rightarrow> directory \<Rightarrow> bytes \<Rightarrow> image_error + 't option" where
  "get_file_opt h d filename =
     (case bt_get (entries d) filename of
        Some (ILeaf r) \<Rightarrow> (case content (h ! r) of Regular file \<Rightarrow> Inr (Some file)
          | _ \<Rightarrow> Inl (IsNotRegular filename))
      | Some (IDirectory _) \<Rightarrow> Inl (IsADirectory filename)
      | None \<Rightarrow> Inr None)"

definition get_file :: "'t leaf list \<Rightarrow> directory \<Rightarrow> bytes \<Rightarrow> image_error + 't" where
  "get_file h d filename =
     rbind (get_file_opt h d filename) (\<lambda>r. ok_or r (NotFound filename))"

definition insert :: "bytes \<Rightarrow> inode \<Rightarrow> directory \<Rightarrow> directory" where
  "insert filename i d = set_entries (bt_insert filename i (entries d)) d"

definition merge :: "bytes \<Rightarrow> inode \<Rightarrow> directory \<Rightarrow> directory" where
  "merge filename i d =
     (case i of
        IDirectory new_dir \<Rightarrow>
          (case bt_get (entries d) filename of
             Some (IDirectory old_dir) \<Rightarrow>
               set_entries (bt_insert filename (IDirectory (set_stat (dstat new_dir) old_dir)) (entries d)) d
           | _ \<Rightarrow> insert filename (IDirectory new_dir) d)
      | ILeaf r \<Rightarrow> insert filename (ILeaf r) d)"

definition remove :: "bytes \<Rightarrow> directory \<Rightarrow> directory" where
  "remove filename d = set_entries (bt_remove filename (entries d)) d"

definition lookup :: "directory \<Rightarrow> bytes \<Rightarrow> inode option" where
  "lookup d filename = bt_get (entries d) filename"

definition pop :: "bytes \<Rightarrow> directory \<Rightarrow> inode option \<times> directory" where
  "pop filename d = (bt_get (entries d) filename, remove filename d)"

definition clear :: "directory \<Rightarrow> directory" where
  "clear d = set_entries [] d"

text \<open>\<open>newest_file\<close>: its loop over the entries carries the newest time so far.\<close>

function newest_file :: "'t leaf list \<Rightarrow> directory \<Rightarrow> u64"
  and newest_loop :: "'t leaf list \<Rightarrow> (bytes \<times> inode) list \<Rightarrow> u64 \<Rightarrow> u64" where
  "newest_file h (Directory st es) = newest_loop h es (st_mtim_sec st)"
| "newest_loop h [] newest = newest"
| "newest_loop h ((n, IDirectory d) # es) newest =
     (let mtime = newest_file h d
      in newest_loop h es (if sint newest < sint mtime then mtime else newest))"
| "newest_loop h ((n, ILeaf r) # es) newest =
     (let mtime = st_mtim_sec (leaf_stat (h ! r))
      in newest_loop h es (if sint newest < sint mtime then mtime else newest))"

  by pat_completeness auto
termination
  by (relation "measure (case_sum (\<lambda>(h, d). size d)
    (\<lambda>(h, es, n). size_list (size_prod (\<lambda>_. 0) (size_inode_of size)) es))") auto

section \<open>Operations on a filesystem\<close>

definition filesystem_new :: "stat \<Rightarrow> 't filesystem" where
  "filesystem_new root_stat = \<lparr>root = directory_new root_stat, heap = []\<rparr>"

definition set_root_stat :: "stat \<Rightarrow> 't filesystem \<Rightarrow> 't filesystem" where
  "set_root_stat st fs = fs\<lparr>root := set_stat st (root fs)\<rparr>"

definition copy_root_metadata_from_usr :: "'t filesystem \<Rightarrow> image_error + 't filesystem" where
  "copy_root_metadata_from_usr fs =
     rbind (get_directory (root fs) ''usr'') (\<lambda>usr.
       Inr (fs\<lparr>root := set_stat (dstat (root fs)
         \<lparr>st_mode := st_mode (dstat usr), st_uid := st_uid (dstat usr),
          st_gid := st_gid (dstat usr), st_mtim_sec := st_mtim_sec (dstat usr),
          xattrs := xattrs (dstat usr)\<rparr>) (root fs)\<rparr>))"

text \<open>\<open>for_each_stat\<close>: \<open>f\<close> is the change the visitor makes to a \<open>Stat\<close> through
  its \<open>RefCell\<close>; a leaf is visited once for each of its names.\<close>

function visit_dir :: "(stat \<Rightarrow> stat) \<Rightarrow> directory \<Rightarrow> 't leaf list \<Rightarrow> directory \<times> 't leaf list"
  and visit_entries :: "(stat \<Rightarrow> stat) \<Rightarrow> (bytes \<times> inode) list \<Rightarrow> 't leaf list \<Rightarrow>
    (bytes \<times> inode) list \<times> 't leaf list" where
  "visit_dir f (Directory st es) h =
     (let (es', h') = visit_entries f es h in (Directory (f st) es', h'))"
| "visit_entries f [] h = ([], h)"
| "visit_entries f ((n, IDirectory d) # es) h =
     (let (d', h1) = visit_dir f d h; (es', h2) = visit_entries f es h1
      in ((n, IDirectory d') # es', h2))"
| "visit_entries f ((n, ILeaf r) # es) h =
     (let h1 = h[r := (h ! r)\<lparr>leaf_stat := f (leaf_stat (h ! r))\<rparr>];
          (es', h2) = visit_entries f es h1
      in ((n, ILeaf r) # es', h2))"
  by pat_completeness auto
termination
  by (relation "measure (case_sum (\<lambda>(f, d, h). size d)
    (\<lambda>(f, es, h). size_list (size_prod (\<lambda>_. 0) (size_inode_of size)) es))") auto

definition for_each_stat :: "(stat \<Rightarrow> stat) \<Rightarrow> 't filesystem \<Rightarrow> 't filesystem" where
  "for_each_stat f fs = (let (d, h) = visit_dir f (root fs) (heap fs) in fs\<lparr>root := d, heap := h\<rparr>)"

definition filter_xattrs :: "(bytes \<Rightarrow> bool) \<Rightarrow> 't filesystem \<Rightarrow> 't filesystem" where
  "filter_xattrs predicate fs =
     for_each_stat (\<lambda>st. st\<lparr>xattrs := bt_retain (\<lambda>k _. predicate k) (xattrs st)\<rparr>) fs"

definition canonicalize_run :: "'t filesystem \<Rightarrow> image_error + 't filesystem" where
  "canonicalize_run fs =
     rbind (get_directory_opt (root fs) ''run'') (\<lambda>r.
       if r \<noteq> None then
         rbind (get_directory (root fs) ''usr'') (\<lambda>usr.
         rbind (get_directory_mut (root fs) ''run'') (\<lambda>(run_dir, put).
           Inr (fs\<lparr>root := put (clear (set_stat
             ((dstat run_dir)\<lparr>st_mtim_sec := st_mtim_sec (dstat usr)\<rparr>) run_dir))\<rparr>)))
       else Inr fs)"

definition transform_for_oci :: "'t filesystem \<Rightarrow> image_error + 't filesystem" where
  "transform_for_oci fs = rbind (copy_root_metadata_from_usr fs) canonicalize_run"

section \<open>Well-formed trees\<close>

text \<open>
  Every map is ordered (\<open>BTreeMap\<close> keeps it so) and every pointer is one of the first
  \<open>n\<close> leaves of the heap.
\<close>

lemma size_entry:
  assumes "e \<in> set es"
  shows "size_inode_of size (snd e) < Suc (size_list (size_prod (\<lambda>_. 0) (size_inode_of size)) es)"
proof -
  have "size_inode_of size (snd e) \<le> size_prod (\<lambda>_. 0) (size_inode_of size) e" by (cases e) simp
  also have "\<dots> \<le> size_list (size_prod (\<lambda>_. 0) (size_inode_of size)) es"
    by (rule size_list_estimation' [OF assms order_refl])
  finally show ?thesis by simp
qed

function dir_wf :: "nat \<Rightarrow> directory \<Rightarrow> bool"
  and inode_wf :: "nat \<Rightarrow> inode \<Rightarrow> bool" where
  "dir_wf n (Directory st es) \<longleftrightarrow> bt_wf (xattrs st) \<and> bt_wf es \<and> (\<forall>e \<in> set es. inode_wf n (snd e))"
| "inode_wf n (IDirectory d) \<longleftrightarrow> dir_wf n d"
| "inode_wf n (ILeaf r) \<longleftrightarrow> r < n"
  by pat_completeness auto
termination
  by (relation "measure (case_sum (\<lambda>(n, d). size d) (\<lambda>(n, i). size_inode_of size i))")
    (auto simp: size_entry)

lemma dir_wf_iff:
  "dir_wf n d \<longleftrightarrow> bt_wf (xattrs (dstat d)) \<and> bt_wf (entries d) \<and>
     (\<forall>e \<in> set (entries d). inode_wf n (snd e))"
  by (cases d) simp

lemma dir_wf_get:
  "dir_wf n d \<Longrightarrow> bt_get (entries d) name = Some i \<Longrightarrow> inode_wf n i"
  by (auto simp: dir_wf_iff dest!: bt_get_SomeD)

lemma dir_wf_entries: "dir_wf n d \<Longrightarrow> bt_wf (entries d)"
  by (simp add: dir_wf_iff)

lemma dir_wf_bt_insert:
  "dir_wf n d \<Longrightarrow> inode_wf n i \<Longrightarrow> dir_wf n (set_entries (bt_insert name i (entries d)) d)"
  using set_bt_insert_subset [of name i "entries d"] by (auto simp: dir_wf_iff bt_wf_insert)

lemma dir_wf_new [simp]: "dir_wf n (directory_new st) \<longleftrightarrow> bt_wf (xattrs st)"
  by (simp add: directory_new_def)

lemma dir_wf_set_stat: "dir_wf n d \<Longrightarrow> bt_wf (xattrs st) \<Longrightarrow> dir_wf n (set_stat st d)"
  by (simp add: dir_wf_iff)

lemma dir_wf_insert: "dir_wf n d \<Longrightarrow> inode_wf n i \<Longrightarrow> dir_wf n (insert name i d)"
  by (simp add: insert_def dir_wf_bt_insert)

lemma dir_wf_merge:
  assumes "dir_wf n d" "inode_wf n i"
  shows "dir_wf n (merge name i d)"
proof (cases i)
  case (ILeaf r)
  with assms show ?thesis by (simp add: merge_def dir_wf_insert)
next
  case (IDirectory new_dir)
  then have st: "bt_wf (xattrs (dstat new_dir))" using assms by (simp add: dir_wf_iff)
  show ?thesis
  proof (cases "bt_get (entries d) name")
    case (Some j)
    show ?thesis
    proof (cases j)
      case (IDirectory old)
      then have "dir_wf n old" using Some assms dir_wf_get [of n d name j] by simp
      then show ?thesis using IDirectory \<open>i = IDirectory new_dir\<close> Some assms st
        by (simp add: merge_def dir_wf_bt_insert dir_wf_set_stat)
    qed (use IDirectory Some assms in \<open>simp add: merge_def dir_wf_insert\<close>)
  qed (use IDirectory assms in \<open>simp add: merge_def dir_wf_insert\<close>)
qed

lemma dir_wf_remove: "dir_wf n d \<Longrightarrow> dir_wf n (remove name d)"
  using set_bt_remove [of name "entries d"] by (auto simp: remove_def dir_wf_iff bt_wf_remove)

lemma dir_wf_clear: "dir_wf n d \<Longrightarrow> dir_wf n (clear d)"
  by (simp add: clear_def dir_wf_iff)

lemma inode_wf_mono: "dir_wf n d \<Longrightarrow> n \<le> m \<Longrightarrow> dir_wf m d"
  "inode_wf n i \<Longrightarrow> n \<le> m \<Longrightarrow> inode_wf m i"
  by (induction n d and n i rule: dir_wf_inode_wf.induct) auto

lemma dir_wf_walk_opt: "walk_opt p cs d = Inr (Some s) \<Longrightarrow> dir_wf n d \<Longrightarrow> dir_wf n s"
proof (induction p cs d rule: walk_opt.induct)
  case (5 pathname filename cs d)
  then show ?case using dir_wf_get [of n d filename]
    by (auto split: option.splits inode_of.splits)
qed auto

section \<open>A \<open>&mut Directory\<close> is a lens\<close>

text \<open>The names of a path.\<close>

definition normals :: "component list \<Rightarrow> bytes list" where
  "normals cs = concat (map (\<lambda>c. case c of Normal n \<Rightarrow> [n] | _ \<Rightarrow> []) cs)"

lemma normals_simps [simp]:
  "normals [] = []" "normals (Normal n # cs) = n # normals cs" "normals (RootDir # cs) = normals cs"
  "normals (CurDir # cs) = normals cs" "normals (ParentDir # cs) = normals cs"
  "normals (map Normal ns) = ns"
  by (simp_all add: normals_def comp_def)

lemma walk_mut_NormalE:
  assumes "walk_mut p (Normal f # cs) d = Inr (s, put)"
  obtains sub put' where "bt_get (entries d) f = Some (IDirectory sub)"
    "walk_mut p cs sub = Inr (s, put')"
    "put = (\<lambda>s'. set_entries (bt_insert f (IDirectory (put' s')) (entries d)) d)"
  using assms by (auto simp: result_simps split: option.splits inode_of.splits)

lemma walk_mut_opt: "walk_mut p cs d = Inr (s, put) \<Longrightarrow> walk_opt q cs d = Inr (Some s)"
  by (induction p cs d arbitrary: s put rule: walk_mut.induct)
    (auto simp: result_simps split: option.splits inode_of.splits)

lemma walk_mut_back_same:
  "walk_mut p cs d = Inr (s, put) \<Longrightarrow> dir_wf n d \<Longrightarrow> put s = d"
proof (induction p cs d arbitrary: s put rule: walk_mut.induct)
  case (5 pathname filename cs d)
  from "5.prems"(1) obtain sub put' where b: "bt_get (entries d) filename = Some (IDirectory sub)"
    "walk_mut pathname cs sub = Inr (s, put')"
    "put = (\<lambda>s'. set_entries (bt_insert filename (IDirectory (put' s')) (entries d)) d)"
    by (rule walk_mut_NormalE)
  have "dir_wf n sub" using dir_wf_get [OF "5.prems"(2) b(1)] by simp
  then have "put' s = sub" using "5.IH" b by simp
  then show ?case using b "5.prems"(2)
    by (cases d) (simp add: btree.insert_same set_entries_def)
qed auto

lemma walk_mut_back_wf:
  "walk_mut p cs d = Inr (s, put) \<Longrightarrow> dir_wf n d \<Longrightarrow> dir_wf n s' \<Longrightarrow> dir_wf n (put s')"
proof (induction p cs d arbitrary: s put rule: walk_mut.induct)
  case (5 pathname filename cs d)
  from "5.prems"(1) obtain sub put' where b: "bt_get (entries d) filename = Some (IDirectory sub)"
    "walk_mut pathname cs sub = Inr (s, put')"
    "put = (\<lambda>s'. set_entries (bt_insert filename (IDirectory (put' s')) (entries d)) d)"
    by (rule walk_mut_NormalE)
  have "dir_wf n sub" using dir_wf_get [OF "5.prems"(2) b(1)] by simp
  then have "dir_wf n (put' s')" using "5.IH" b "5.prems"(3) by simp
  then show ?case using b "5.prems"(2) by (simp add: dir_wf_bt_insert)
qed auto

lemma walk_mut_put_get:
  "walk_mut p cs d = Inr (s, put) \<Longrightarrow> dir_wf n d \<Longrightarrow> walk_opt q cs (put s') = Inr (Some s')"
proof (induction p cs d arbitrary: s put rule: walk_mut.induct)
  case (5 pathname filename cs d)
  from "5.prems"(1) obtain sub put' where b: "bt_get (entries d) filename = Some (IDirectory sub)"
    "walk_mut pathname cs sub = Inr (s, put')"
    "put = (\<lambda>s'. set_entries (bt_insert filename (IDirectory (put' s')) (entries d)) d)"
    by (rule walk_mut_NormalE)
  have "dir_wf n sub" using dir_wf_get [OF "5.prems"(2) b(1)] by simp
  then have "walk_opt q cs (put' s') = Inr (Some s')" using "5.IH" b by simp
  then show ?case using b dir_wf_entries [OF "5.prems"(2)] by (simp add: bt_get_insert)
qed auto

lemma walk_mut_frame:
  assumes "walk_mut p cs d = Inr (s, put)" and "dir_wf n d"
    and "\<not> prefix (normals cs) (normals ds)" and "\<not> prefix (normals ds) (normals cs)"
  shows "walk_opt q ds (put s') = walk_opt q ds d"
  using assms
proof (induction p cs d arbitrary: s put ds rule: walk_mut.induct)
  case (5 pathname filename cs d)
  from "5.prems"(1) obtain sub put' where b: "bt_get (entries d) filename = Some (IDirectory sub)"
    "walk_mut pathname cs sub = Inr (s, put')"
    "put = (\<lambda>s'. set_entries (bt_insert filename (IDirectory (put' s')) (entries d)) d)"
    by (rule walk_mut_NormalE)
  have wf: "dir_wf n sub" using dir_wf_get [OF "5.prems"(2) b(1)] by simp
  from "5.prems"(3,4) show ?case
  proof (induction ds)
    case (Cons c ds)
    show ?case
    proof (cases c)
      case (Normal g)
      show ?thesis
      proof (cases "g = filename")
        case True
        with Normal Cons.prems have "walk_opt q ds (put' s') = walk_opt q ds sub"
          using "5.IH" [OF b(1) refl b(2) wf] by simp
        with True Normal b dir_wf_entries [OF "5.prems"(2)] show ?thesis
          by (simp add: bt_get_insert)
      qed (use Normal b dir_wf_entries [OF "5.prems"(2)] in \<open>simp add: bt_get_insert\<close>)
    qed (use Cons in auto)
  qed simp
qed auto

lemma get_directory_opt_frame:
  assumes "get_directory_mut d p = Inr (s, put)" and "dir_wf n d"
    and "\<not> prefix (normals (components p)) (normals (components q))"
    and "\<not> prefix (normals (components q)) (normals (components p))"
  shows "get_directory (put s') q = get_directory d q"
  using walk_mut_frame [of p "components p" d s put n "components q" q s'] assms
  by (simp add: get_directory_mut_def get_directory_def get_directory_opt_def)

text \<open> C17: A directory reached for writing is the one that a lookup for reading finds, and
  putting a new value back into the tree changes just that directory: putting the same value
  back changes nothing, a lookup of the path finds the new value, the tree stays well-formed, and
  every path that is neither above nor below it still finds what it found. \<close>

theorem get_directory_mut_lens:
  assumes "dir_wf n d" and "get_directory_mut d p = Inr (s, put)"
  shows "get_directory d p = Inr s \<and> put s = d \<and> get_directory (put s') p = Inr s' \<and>
    (dir_wf n s' \<longrightarrow> dir_wf n (put s')) \<and>
    (\<not> prefix (normals (components p)) (normals (components q)) \<and>
     \<not> prefix (normals (components q)) (normals (components p)) \<longrightarrow>
       get_directory (put s') q = get_directory d q)"
proof -
  have w: "walk_mut p (components p) d = Inr (s, put)" using assms(2) by (simp add: get_directory_mut_def)
  show ?thesis
    using walk_mut_opt [OF w, of p] walk_mut_back_same [OF w assms(1)] walk_mut_put_get [OF w assms(1), of p s']
      walk_mut_back_wf [OF w assms(1), of s'] get_directory_opt_frame [OF assms(2,1), of q s']
    by (auto simp: get_directory_def get_directory_opt_def)
qed

text \<open>A tree with two directories, for the witnesses.\<close>

definition example_dir :: directory where
  "example_dir = Directory stat_uninitialized
     [(''etc'', IDirectory (directory_new stat_uninitialized)),
      (''usr'', IDirectory (Directory (stat_uninitialized\<lparr>st_mtim_sec := 7\<rparr>) [(''bin'', ILeaf 0)]))]"

lemma example_dir_wf: "dir_wf 1 example_dir"
  by (simp add: example_dir_def directory_new_def stat_uninitialized_def less_list_code)

lemma get_directory_mut_lens_witness:
  "\<exists>s put. get_directory_mut example_dir ''/usr'' = Inr (s, put) \<and> put s = example_dir \<and>
     get_directory (put (directory_new stat_uninitialized)) ''/etc'' = get_directory example_dir ''/etc''"
proof -
  have c: "components ''/usr'' = [RootDir, Normal ''usr'']"
    "components ''/etc'' = [RootDir, Normal ''etc'']" by code_simp+
  obtain s put where m: "get_directory_mut example_dir ''/usr'' = Inr (s, put)"
    by (simp add: get_directory_mut_def c example_dir_def bt_get_def)
  show ?thesis
    using get_directory_mut_lens [OF example_dir_wf m, of "directory_new stat_uninitialized" "''/etc''"] m
    by (auto simp: c)
qed

section \<open>The operations on a directory\<close>

text \<open> \<open>merge\<close> replaces the entry, except that a directory merged over a directory
  keeps the old entries and takes the new stat; the other entries and the stat of the
  directory itself stay. \<close>

theorem merge_lookup:
  assumes "dir_wf n d"
  shows "lookup (merge name i d) other =
      (if other = name then
         Some (case (i, lookup d name) of
             (IDirectory new_dir, Some (IDirectory old_dir)) \<Rightarrow>
               IDirectory (Directory (dstat new_dir) (entries old_dir))
           | _ \<Rightarrow> i)
       else lookup d other)
    \<and> dstat (merge name i d) = dstat d"
  using dir_wf_entries [OF assms]
  by (auto simp: merge_def lookup_def insert_def bt_get_insert set_stat_def
      split: inode_of.splits option.splits)

lemma merge_lookup_witness:
  "lookup (merge ''etc'' (ILeaf 0) example_dir) ''etc'' = Some (ILeaf 0)"
  using merge_lookup [OF example_dir_wf, of "''etc''" "ILeaf 0" "''etc''"] by simp

text \<open> Every operation on a directory keeps the tree well-formed, and \<open>pop\<close>
  returns the entry that it removes. \<close>

theorem directory_operations_wf:
  assumes "dir_wf n d" and "inode_wf n i" and "bt_wf (xattrs st)"
  shows "dir_wf n (insert name i d) \<and> dir_wf n (merge name i d) \<and> dir_wf n (remove name d) \<and>
    dir_wf n (clear d) \<and> dir_wf n (set_stat st d) \<and> dir_wf n (snd (pop name d)) \<and>
    fst (pop name d) = lookup d name \<and> lookup (snd (pop name d)) name = None"
  using assms dir_wf_entries [OF assms(1)]
  by (simp add: dir_wf_insert dir_wf_merge dir_wf_remove dir_wf_clear dir_wf_set_stat pop_def
      lookup_def, simp add: remove_def bt_get_remove)

lemma directory_operations_wf_witness: "dir_wf 1 (merge ''lib'' (ILeaf 0) example_dir)"
  using directory_operations_wf [OF example_dir_wf, of "ILeaf 0" stat_uninitialized "''lib''"]
  by (simp add: stat_uninitialized_def)

section \<open>Walks over a whole tree\<close>

text \<open>The pointers to leaves and the stats of a tree, in the order of the walk.\<close>

function refs :: "directory \<Rightarrow> rc list" and inode_refs :: "inode \<Rightarrow> rc list" where
  "refs (Directory st es) = concat (map (\<lambda>e. inode_refs (snd e)) es)"
| "inode_refs (IDirectory d) = refs d"
| "inode_refs (ILeaf r) = [r]"
  by pat_completeness auto
termination
  by (relation "measure (case_sum size (size_inode_of size))") (auto simp: size_entry)

function tree_stats :: "'t leaf list \<Rightarrow> directory \<Rightarrow> stat list"
  and inode_stats :: "'t leaf list \<Rightarrow> inode \<Rightarrow> stat list" where
  "tree_stats h (Directory st es) = st # concat (map (\<lambda>e. inode_stats h (snd e)) es)"
| "inode_stats h (IDirectory d) = tree_stats h d"
| "inode_stats h (ILeaf r) = [leaf_stat (h ! r)]"
  by pat_completeness auto
termination
  by (relation "measure (case_sum (\<lambda>(h, d). size d) (\<lambda>(h, i). size_inode_of size i))")
    (auto simp: size_entry)

text \<open>\<open>Rc::strong_count\<close> of a leaf that only the tree points to.\<close>

definition strong_count :: "directory \<Rightarrow> rc \<Rightarrow> nat" where
  "strong_count d r = count_list (refs d) r"

lemma refs_bound: "dir_wf n d \<Longrightarrow> r \<in> set (refs d) \<Longrightarrow> r < n"
  "inode_wf n i \<Longrightarrow> r \<in> set (inode_refs i) \<Longrightarrow> r < n"
  by (induction n d and n i rule: dir_wf_inode_wf.induct) auto

lemma Max_insert_if:
  "finite A \<Longrightarrow> A \<noteq> {} \<Longrightarrow> Max (Set.insert x A) = max x (Max A)"
  by simp

lemma newest_loop_Max:
  "sint (newest_file h d) = Max (set (map (\<lambda>st. sint (st_mtim_sec st)) (tree_stats h d)))"
  "sint (newest_loop h es n) =
     Max (set (sint n # map (\<lambda>st. sint (st_mtim_sec st)) (concat (map (\<lambda>e. inode_stats h (snd e)) es))))"
proof (induction h d and h es n rule: newest_file_newest_loop.induct)
  case (1 h st es)
  then show ?case by (simp add: image_Un)
next
  case (3 h n d es newest)
  let ?m = "newest_file h d"
  let ?T = "set (map (\<lambda>st. sint (st_mtim_sec st)) (tree_stats h d))"
  let ?R = "set (map (\<lambda>st. sint (st_mtim_sec st)) (concat (map (\<lambda>e. inode_stats h (snd e)) es)))"
  have ne: "?T \<noteq> {}" by (cases d) simp
  have "sint (newest_loop h ((n, IDirectory d) # es) newest) =
      Max (Set.insert (max (sint newest) (sint ?m)) ?R)"
    using "3.IH"(2) [OF refl] by (auto simp: Let_def max_def)
  also have "\<dots> = Max (Set.insert (sint newest) (?T \<union> ?R))"
    using "3.IH"(1) ne by (cases "?R = {}") (simp_all add: Max_Un max.assoc)
  finally show ?case by (simp add: image_Un)
next
  case (4 h n r es newest)
  let ?R = "set (map (\<lambda>st. sint (st_mtim_sec st)) (concat (map (\<lambda>e. inode_stats h (snd e)) es)))"
  have "sint (newest_loop h ((n, ILeaf r) # es) newest) =
      Max (Set.insert (max (sint newest) (sint (st_mtim_sec (leaf_stat (h ! r))))) ?R)"
    using "4.IH" [OF refl] by (auto simp: Let_def max_def)
  also have "\<dots> = Max (Set.insert (sint newest) (Set.insert (sint (st_mtim_sec (leaf_stat (h ! r)))) ?R))"
    by (cases "?R = {}") (simp_all add: max.assoc)
  finally show ?case by simp
qed simp

text \<open> \<open>newest_file\<close> is the latest modification time of the directory and of
  everything below it, with times compared as signed integers. \<close>

theorem newest_file_Max:
  "sint (newest_file h d) = Max (set (map (\<lambda>st. sint (st_mtim_sec st)) (tree_stats h d)))"
  by (rule newest_loop_Max)

text \<open>A change to every stat: what \<open>for_each_stat\<close> does to the tree and to the heap.\<close>

definition update_leaf :: "(stat \<Rightarrow> stat) \<Rightarrow> rc \<Rightarrow> 't leaf list \<Rightarrow> 't leaf list" where
  "update_leaf f r h = h[r := (h ! r)\<lparr>leaf_stat := f (leaf_stat (h ! r))\<rparr>]"

function map_stats :: "(stat \<Rightarrow> stat) \<Rightarrow> directory \<Rightarrow> directory"
  and map_inode :: "(stat \<Rightarrow> stat) \<Rightarrow> inode \<Rightarrow> inode" where
  "map_stats f (Directory st es) = Directory (f st) (map (\<lambda>e. (fst e, map_inode f (snd e))) es)"
| "map_inode f (IDirectory d) = IDirectory (map_stats f d)"
| "map_inode f (ILeaf r) = ILeaf r"
  by pat_completeness auto
termination
  by (relation "measure (case_sum (\<lambda>(f, d). size d) (\<lambda>(f, i). size_inode_of size i))")
    (auto simp: size_entry)

lemma visit_eq:
  "visit_dir f d h = (map_stats f d, fold (update_leaf f) (refs d) h)"
  "visit_entries f es h = (map (\<lambda>e. (fst e, map_inode f (snd e))) es,
     fold (update_leaf f) (concat (map (\<lambda>e. inode_refs (snd e)) es)) h)"
  by (induction f d h and f es h rule: visit_dir_visit_entries.induct)
    (simp_all add: update_leaf_def)

lemma length_update_leaf [simp]: "length (update_leaf f q h) = length h"
  by (simp add: update_leaf_def)

lemma length_fold_update [simp]: "length (fold (update_leaf f) rs h) = length h"
  by (induction rs arbitrary: h) simp_all

lemma leaf_stat_update_leaf:
  "r < length h \<Longrightarrow> leaf_stat (update_leaf f q h ! r) =
     (if q = r then f (leaf_stat (h ! r)) else leaf_stat (h ! r))"
  by (simp add: update_leaf_def nth_list_update)

lemma content_update_leaf: "r < length h \<Longrightarrow> content (update_leaf f q h ! r) = content (h ! r)"
  by (cases "q = r") (simp_all add: update_leaf_def)

lemma leaf_stat_fold_update:
  assumes idem: "\<And>st. f (f st) = f st"
  shows "r < length h \<Longrightarrow> leaf_stat (fold (update_leaf f) rs h ! r) =
    (if r \<in> set rs then f (leaf_stat (h ! r)) else leaf_stat (h ! r))"
  by (induction rs arbitrary: h) (simp_all add: leaf_stat_update_leaf idem)

lemma content_fold_update:
  "r < length h \<Longrightarrow> content (fold (update_leaf f) rs h ! r) = content (h ! r)"
  by (induction rs arbitrary: h) (simp_all add: content_update_leaf)

lemma fold_update_other: "r \<notin> set rs \<Longrightarrow> fold (update_leaf f) rs h ! r = h ! r"
  by (induction rs arbitrary: h) (simp_all add: update_leaf_def)

lemma tree_stats_map:
  "(\<forall>r \<in> set (refs d). leaf_stat (h' ! r) = f (leaf_stat (h ! r))) \<Longrightarrow>
     tree_stats h' (map_stats f d) = map f (tree_stats h d)"
  "(\<forall>r \<in> set (inode_refs i). leaf_stat (h' ! r) = f (leaf_stat (h ! r))) \<Longrightarrow>
     inode_stats h' (map_inode f i) = map f (inode_stats h i)"
proof (induction f d and f i rule: map_stats_map_inode.induct)
  case (1 f st es)
  then have "inode_stats h' (map_inode f (snd e)) = map f (inode_stats h (snd e))" if "e \<in> set es" for e
    using that by auto
  then show ?case by (simp add: map_concat comp_def cong: map_cong)
qed auto

lemma refs_map_stats [simp]: "refs (map_stats f d) = refs d" "inode_refs (map_inode f i) = inode_refs i"
  by (induction f d and f i rule: map_stats_map_inode.induct) (simp_all add: comp_def cong: map_cong)

text \<open> \<open>filter_xattrs\<close> removes, in every stat of the tree, exactly the attributes that
  the predicate rejects; names, pointers and contents stay, and so do the leaves that the tree
  does not reach. \<close>

theorem filter_xattrs_stats:
  assumes "dir_wf (length (heap fs)) (root fs)"
  shows "let fs' = filter_xattrs P fs in
    tree_stats (heap fs') (root fs') =
      map (\<lambda>st. st\<lparr>xattrs := filter (\<lambda>(k, v). P k) (xattrs st)\<rparr>) (tree_stats (heap fs) (root fs)) \<and>
    refs (root fs') = refs (root fs) \<and> length (heap fs') = length (heap fs) \<and>
    (\<forall>r < length (heap fs). content (heap fs' ! r) = content (heap fs ! r)) \<and>
    (\<forall>r < length (heap fs). r \<notin> set (refs (root fs)) \<longrightarrow> heap fs' ! r = heap fs ! r)"
proof -
  let ?f = "\<lambda>st::stat. st\<lparr>xattrs := bt_retain (\<lambda>k v. P k) (xattrs st)\<rparr>"
  have idem: "?f (?f st) = ?f st" for st :: stat by (simp add: bt_retain_def)
  have b: "\<forall>r \<in> set (refs (root fs)). r < length (heap fs)" using refs_bound(1) [OF assms] by blast
  have "tree_stats (fold (update_leaf ?f) (refs (root fs)) (heap fs)) (map_stats ?f (root fs)) =
      map ?f (tree_stats (heap fs) (root fs))"
    by (rule tree_stats_map) (use b in \<open>simp add: leaf_stat_fold_update [OF idem]\<close>)
  then show ?thesis
    by (simp add: Let_def filter_xattrs_def for_each_stat_def visit_eq content_fold_update
        fold_update_other bt_retain_def)
qed

lemma filter_xattrs_stats_witness:
  "let fs = \<lparr>root = example_dir,
        heap = [\<lparr>leaf_stat = stat_uninitialized\<lparr>xattrs := [(''a'', []), (''b'', [])]\<rparr>,
                 content = Fifo :: nat leaf_content\<rparr>]\<rparr>
   in content (heap (filter_xattrs (\<lambda>k. k = ''a'') fs) ! 0) = Fifo"
  using filter_xattrs_stats [of "\<lparr>root = example_dir,
        heap = [\<lparr>leaf_stat = stat_uninitialized\<lparr>xattrs := [(''a'', []), (''b'', [])]\<rparr>,
                 content = Fifo :: nat leaf_content\<rparr>]\<rparr>" "\<lambda>k. k = ''a''"] example_dir_wf
  by (simp add: Let_def)

section \<open>The transformation for OCI images\<close>

lemma components_usr_run:
  "components ''usr'' = [Normal ''usr'']" "components ''run'' = [Normal ''run'']"
  by code_simp+

text \<open>What \<open>transform_for_oci\<close> makes of the root directory.\<close>

definition oci_root :: "directory \<Rightarrow> image_error + directory" where
  "oci_root d =
     (case lookup d ''usr'' of
        None \<Rightarrow> Inl (NotFound ''usr'')
      | Some (ILeaf _) \<Rightarrow> Inl (NotADirectory ''usr'')
      | Some (IDirectory usr) \<Rightarrow>
          (case lookup d ''run'' of
             None \<Rightarrow> Inr (Directory (dstat usr) (entries d))
           | Some (ILeaf _) \<Rightarrow> Inl (NotADirectory ''run'')
           | Some (IDirectory run) \<Rightarrow>
               Inr (Directory (dstat usr) (bt_insert ''run''
                 (IDirectory (Directory ((dstat run)\<lparr>st_mtim_sec := st_mtim_sec (dstat usr)\<rparr>) []))
                 (entries d)))))"

text \<open> \<open>transform_for_oci\<close> gives the root the whole stat of \<open>/usr\<close>; an existing
  \<open>/run\<close> is emptied and takes the modification time of \<open>/usr\<close>; nothing else changes. A
  missing \<open>/usr\<close>, or a \<open>/usr\<close> or \<open>/run\<close> that is no directory, is the error that names it. \<close>

lemma transform_for_oci_root:
  "transform_for_oci fs = rbind (oci_root (root fs)) (\<lambda>d. Inr (fs\<lparr>root := d\<rparr>))"
  by (auto simp: transform_for_oci_def oci_root_def copy_root_metadata_from_usr_def canonicalize_run_def
      get_directory_def get_directory_opt_def get_directory_mut_def components_usr_run lookup_def
      set_stat_def set_entries_def clear_def split: option.splits inode_of.splits)

text \<open> A second \<open>transform_for_oci\<close> changes nothing. \<close>

lemma transform_for_oci_idempotent:
  assumes "dir_wf n (root fs)"
  shows "rbind (transform_for_oci fs) transform_for_oci = transform_for_oci fs"
proof -
  have wf: "bt_wf (entries (root fs))" using assms by (rule dir_wf_entries)
  have ne: "''run'' \<noteq> ''usr''" by simp
  have "rbind (oci_root (root fs)) oci_root = oci_root (root fs)"
    using wf by (auto simp: oci_root_def lookup_def bt_get_insert btree.insert_insert
        split: option.splits inode_of.splits)
  then show ?thesis
    by (cases "oci_root (root fs)") (auto simp: transform_for_oci_root)
qed

end
