(* ===== verification/Hash_Value.thy ===== *)
theory Hash_Value
  imports Rust_Strings
begin

text \<open>
  Models \<open>crates/composefs/src/fsverity/hashvalue.rs\<close>: the trait \<open>FsVerityHashValue\<close>
  with its two implementations, and the conversions between a hash value and the names it has
  in the object store.

  A hash value is its byte string. The trait is the record \<open>hash_alg\<close>; its field
  \<open>Digest\<close> is the sha2 crate's hash function, which is not part of the repository and is a
  parameter. The hex crate is the parameter \<open>hex_crate\<close>; \<open>hex_laws\<close> states its
  documented behaviour.
\<close>

section \<open>The hex crate (parameter)\<close>

datatype from_hex_error =
    InvalidHexCharacter char nat
  | OddLength
  | InvalidStringLength

record hex_crate =
  hex_encode :: "bytes \<Rightarrow> bytes"
  decode_to_slice :: "bytes \<Rightarrow> nat \<Rightarrow> from_hex_error + bytes"

text \<open>The two lower-case digits of a byte: the formatting \<open>{:02x}\<close>.\<close>

definition hex2 :: "byte \<Rightarrow> bytes" where
  "hex2 c = [digit_char (of_char c div 16), digit_char (of_char c mod 16)]"

definition ascii_lower :: "byte \<Rightarrow> byte" where
  "ascii_lower c = (if 65 \<le> (of_char c :: nat) \<and> (of_char c :: nat) \<le> 90
                    then char_of ((of_char c :: nat) + 32) else c)"

text \<open>
  \<open>encode\<close> writes two lower-case digits for each byte; \<open>decode_to_slice\<close> succeeds exactly
  on strings of twice the length of the slice that consist of hex digits of either case.
\<close>

definition hex_laws :: "hex_crate \<Rightarrow> bool" where
  "hex_laws hx \<longleftrightarrow>
     (\<forall>b. hex_encode hx b = concat (map hex2 b)) \<and>
     (\<forall>s n v. decode_to_slice hx s n = Inr v \<longleftrightarrow>
        length v = n \<and> map ascii_lower s = hex_encode hx v)"

section \<open>The trait\<close>

record hash_alg =
  ALGORITHM :: nat
  size_of :: nat
  ID :: bytes
  Digest :: "bytes \<Rightarrow> bytes"

definition EMPTY :: "hash_alg \<Rightarrow> bytes" where
  "EMPTY H = replicate (size_of H) CHR 0x00"

definition Sha256HashValue :: "(bytes \<Rightarrow> bytes) \<Rightarrow> hash_alg" where
  "Sha256HashValue sha256 = \<lparr>ALGORITHM = 1, size_of = 32, ID = ''sha256'', Digest = sha256\<rparr>"

definition Sha512HashValue :: "(bytes \<Rightarrow> bytes) \<Rightarrow> hash_alg" where
  "Sha512HashValue sha512 = \<lparr>ALGORITHM = 2, size_of = 64, ID = ''sha512'', Digest = sha512\<rparr>"

definition from_hex :: "hex_crate \<Rightarrow> hash_alg \<Rightarrow> bytes \<Rightarrow> from_hex_error + bytes" where
  "from_hex hx H hex = decode_to_slice hx hex (size_of H)"

definition from_object_dir_and_basename ::
    "hex_crate \<Rightarrow> hash_alg \<Rightarrow> byte \<Rightarrow> bytes \<Rightarrow> from_hex_error + bytes" where
  "from_object_dir_and_basename hx H dirnum basename =
     (let expected_size = 2 * (size_of H - 1) in
      if length basename \<noteq> expected_size then Inl InvalidStringLength
      else rbind (decode_to_slice hx basename (size_of H - 1)) (\<lambda>rest. Inr (dirnum # rest)))"

definition from_object_pathname ::
    "hex_crate \<Rightarrow> hash_alg \<Rightarrow> bytes \<Rightarrow> from_hex_error + bytes" where
  "from_object_pathname hx H pathname =
     (let min_size = 2 * size_of H + 1 in
      if length pathname < min_size then Inl InvalidStringLength
      else let trailing = drop (length pathname - min_size) pathname in
        rbind (decode_to_slice hx (take 2 trailing) 1) (\<lambda>first.
        if trailing ! 2 \<noteq> CHR ''/'' then Inl (InvalidHexCharacter (trailing ! 2) 2)
        else rbind (decode_to_slice hx (drop 3 trailing) (size_of H - 1)) (\<lambda>rest.
          Inr (first @ rest))))"

definition to_object_pathname :: "hex_crate \<Rightarrow> bytes \<Rightarrow> bytes" where
  "to_object_pathname hx h = hex2 (hd h) @ ''/'' @ hex_encode hx (tl h)"

definition to_object_dir :: "bytes \<Rightarrow> bytes" where
  "to_object_dir h = hex2 (hd h)"

definition to_hex :: "hex_crate \<Rightarrow> bytes \<Rightarrow> bytes" where
  "to_hex hx h = hex_encode hx h"

definition to_id :: "hex_crate \<Rightarrow> hash_alg \<Rightarrow> bytes \<Rightarrow> bytes" where
  "to_id hx H h = ID H @ '':'' @ to_hex hx h"

section \<open>A concrete hex codec\<close>

text \<open>
  An instance of the parameter: it shows that \<open>hex_laws\<close> can hold, and the witnesses of
  theorems with that hypothesis use it. It is not a model of the crate's code.
\<close>

fun hex_pairs :: "nat \<Rightarrow> bytes \<Rightarrow> from_hex_error + bytes" where
  "hex_pairs i (a # b # s) =
     (case to_digit 16 a of None \<Rightarrow> Inl (InvalidHexCharacter a i)
      | Some x \<Rightarrow> (case to_digit 16 b of None \<Rightarrow> Inl (InvalidHexCharacter b (i + 1))
        | Some y \<Rightarrow> rbind (hex_pairs (i + 2) s) (\<lambda>r. Inr (char_of (16 * x + y) # r))))"
| "hex_pairs i s = Inr []"

definition hex_codec :: hex_crate where
  "hex_codec = \<lparr>hex_encode = (\<lambda>b. concat (map hex2 b)),
     decode_to_slice = (\<lambda>s n. if odd (length s) then Inl OddLength
       else if length s \<noteq> 2 * n then Inl InvalidStringLength else hex_pairs 0 s)\<rparr>"

lemma length_concat_hex2 [simp]: "length (concat (map hex2 b)) = 2 * length b"
  by (induction b) (auto simp: hex2_def)

lemma to_digit_hex2:
  "to_digit 16 (digit_char (of_char c div 16)) = Some (of_char c div 16)"
  "to_digit 16 (digit_char (of_char c mod 16)) = Some (of_char c mod 16)"
proof -
  have "(of_char c :: nat) div 16 < 16"
    using of_char_lt_256 [of c] by (simp add: less_mult_imp_div_less)
  then show "to_digit 16 (digit_char (of_char c div 16)) = Some (of_char c div 16)" by simp
qed simp

lemma hex_pairs_hex2: "hex_pairs i (concat (map hex2 b)) = Inr b"
  by (induction b arbitrary: i) (simp_all add: hex2_def to_digit_hex2)

lemma digit_char_to_digit: "to_digit 16 a = Some x \<Longrightarrow> digit_char x = ascii_lower a \<and> x < 16"
proof -
  assume "to_digit 16 a = Some x"
  then consider "48 \<le> (of_char a :: nat)" "(of_char a :: nat) \<le> 57" "x = of_char a - 48"
    | "97 \<le> (of_char a :: nat)" "(of_char a :: nat) \<le> 122" "x = of_char a - 87" "x < 16"
    | "65 \<le> (of_char a :: nat)" "(of_char a :: nat) \<le> 90" "x = of_char a - 55" "x < 16"
    by (auto simp: to_digit_def Let_def split: if_splits)
  then show ?thesis
    by cases (auto simp: digit_char_def ascii_lower_def)
qed

lemma to_digit_lower: "ascii_lower a = digit_char x \<Longrightarrow> x < 16 \<Longrightarrow> to_digit 16 a = Some x"
proof -
  assume a: "ascii_lower a = digit_char x" and x: "x < 16"
  then have n: "(of_char (ascii_lower a) :: nat) = of_char (digit_char x)" by simp
  have "(of_char a :: nat) < 256" by simp
  with n x show ?thesis
    by (auto simp: ascii_lower_def digit_char_def to_digit_def Let_def split: if_splits)
qed

lemma hex_pairs_Inr:
  "even (length s) \<Longrightarrow> hex_pairs i s = Inr v \<Longrightarrow>
     length s = 2 * length v \<and> map ascii_lower s = concat (map hex2 v)"
proof (induction i s arbitrary: v rule: hex_pairs.induct)
  case (1 i a b s)
  then obtain x y r where x: "to_digit 16 a = Some x" and y: "to_digit 16 b = Some y"
    and r: "hex_pairs (i + 2) s = Inr r" and v: "v = char_of (16 * x + y) # r"
    by (auto simp: result_simps split: option.splits)
  from digit_char_to_digit [OF x] digit_char_to_digit [OF y]
  have xy: "digit_char x = ascii_lower a" "digit_char y = ascii_lower b" "x < 16" "y < 16"
    by auto
  then have "hex2 (char_of (16 * x + y)) = [ascii_lower a, ascii_lower b]"
    by (simp add: hex2_def)
  with "1.IH" [OF x y, of r] r v "1.prems" show ?case by simp
qed auto

lemma hex_pairs_lower:
  "map ascii_lower s = concat (map hex2 v) \<Longrightarrow> hex_pairs i s = Inr v"
proof (induction v arbitrary: i s)
  case Nil
  then show ?case by simp
next
  case (Cons c v)
  let ?x = "of_char c div 16 :: nat" and ?y = "of_char c mod 16 :: nat"
  have x16: "?x < 16" using of_char_lt_256 [of c] by (simp add: less_mult_imp_div_less)
  have "map ascii_lower s = digit_char ?x # digit_char ?y # concat (map hex2 v)"
    using Cons.prems by (simp add: hex2_def [of c])
  then obtain a b s' where s: "s = a # b # s'"
    and ab: "ascii_lower a = digit_char ?x" "ascii_lower b = digit_char ?y"
    and s': "map ascii_lower s' = concat (map hex2 v)"
    by (auto simp: map_eq_Cons_conv)
  have "to_digit 16 a = Some ?x" "to_digit 16 b = Some ?y"
    using to_digit_lower [OF ab(1) x16] to_digit_lower [OF ab(2)] by simp_all
  with s Cons.IH [OF s'] show ?case by simp
qed

lemma hex_laws_hex_codec: "hex_laws hex_codec"
proof -
  have "decode_to_slice hex_codec s n = Inr v \<longleftrightarrow>
      length v = n \<and> map ascii_lower s = hex_encode hex_codec v" for s n v
  proof
    assume "decode_to_slice hex_codec s n = Inr v"
    then have "even (length s)" "length s = 2 * n" "hex_pairs 0 s = Inr v"
      by (auto simp: hex_codec_def split: if_splits)
    with hex_pairs_Inr [of s 0 v]
    show "length v = n \<and> map ascii_lower s = hex_encode hex_codec v"
      by (simp add: hex_codec_def)
  next
    assume a: "length v = n \<and> map ascii_lower s = hex_encode hex_codec v"
    then have e: "map ascii_lower s = concat (map hex2 v)" by (simp add: hex_codec_def)
    then have "length s = 2 * n"
      using a by (metis length_map length_concat_hex2)
    with a hex_pairs_lower [OF e] show "decode_to_slice hex_codec s n = Inr v"
      by (simp add: hex_codec_def)
  qed
  then show ?thesis by (simp add: hex_laws_def hex_codec_def)
qed

section \<open>Lemmas\<close>

lemma hex_lawsD:
  assumes "hex_laws hx"
  shows "hex_encode hx b = concat (map hex2 b)"
    and "decode_to_slice hx s n = Inr v \<longleftrightarrow> length v = n \<and> map ascii_lower s = hex_encode hx v"
  using assms unfolding hex_laws_def by blast+

lemma ascii_lower_idem [simp]: "d < 16 \<Longrightarrow> ascii_lower (digit_char d) = digit_char d"
  by (auto simp: ascii_lower_def digit_char_def)

lemma hex2_lower [simp]: "map ascii_lower (hex2 c) = hex2 c"
proof -
  have "of_char c div 16 < (16::nat)"
    using of_char_lt_256 [of c] by (simp add: less_mult_imp_div_less)
  then show ?thesis by (simp add: hex2_def)
qed

lemma hex_encode_lower [simp]: "hex_laws hx \<Longrightarrow> map ascii_lower (hex_encode hx b) = hex_encode hx b"
  by (induction b) (simp_all add: hex_lawsD(1))

lemma hex_decode_encode [simp]:
  "hex_laws hx \<Longrightarrow> n = length b \<Longrightarrow> decode_to_slice hx (hex_encode hx b) n = Inr b"
  by (simp add: hex_lawsD(2))

lemma hex_encode_inj:
  assumes "hex_laws hx" and "hex_encode hx a = hex_encode hx b"
  shows "a = b"
proof -
  have l: "length a = length b"
    using arg_cong [OF assms(2), of length] hex_lawsD(1) [OF assms(1)] length_concat_hex2
    by (metis mult_left_cancel zero_neq_numeral)
  have "Inr a = decode_to_slice hx (hex_encode hx a) (length a)" using assms(1) by simp
  also have "\<dots> = Inr b" using assms l by simp
  finally show ?thesis by simp
qed

lemma hex2_inj: "hex2 a = hex2 b \<longleftrightarrow> a = b"
proof
  assume h: "hex2 a = hex2 b"
  have "hex_pairs 0 (concat (map hex2 [a])) = hex_pairs 0 (concat (map hex2 [b]))"
    using h by simp
  then show "a = b" by (simp only: hex_pairs_hex2) simp
qed simp

lemma hex_decode_hex2: "hex_laws hx \<Longrightarrow> decode_to_slice hx (hex2 c) 1 = Inr [c]"
  by (simp add: hex_lawsD)

lemma length_hex2 [simp]: "length (hex2 c) = 2"
  by (simp add: hex2_def)

lemma length_hex_encode [simp]: "hex_laws hx \<Longrightarrow> length (hex_encode hx b) = 2 * length b"
  by (simp add: hex_lawsD(1))

lemma length_to_object_pathname:
  "hex_laws hx \<Longrightarrow> h \<noteq> [] \<Longrightarrow> length (to_object_pathname hx h) = 2 * length h + 1"
  by (cases h) (simp_all add: to_object_pathname_def)

lemma hex_encode_no_slash: "hex_laws hx \<Longrightarrow> CHR ''/'' \<notin> set (hex_encode hx b)"
proof -
  assume hx: "hex_laws hx"
  have "CHR ''/'' \<notin> set (hex2 c)" for c
  proof -
    have "of_char c div 16 < (16::nat)"
      using of_char_lt_256 [of c] by (simp add: less_mult_imp_div_less)
    then have "digit_char (of_char c div 16) \<noteq> CHR ''/''" by (rule digit_char_neq) simp
    moreover have "digit_char (of_char c mod 16) \<noteq> CHR ''/''" by (rule digit_char_neq) simp_all
    ultimately show ?thesis by (auto simp: hex2_def)
  qed
  then show ?thesis using hx by (simp add: hex_lawsD(1))
qed

section \<open>Properties\<close>

lemma trailing_split:
  assumes "length t = n"
  shows "drop (length (p @ t) - n) (p @ t) = t"
  using assms by simp

lemma map_ascii_lower_slash:
  "ascii_lower c = CHR ''/'' \<longleftrightarrow> c = CHR ''/''"
proof
  assume "ascii_lower c = CHR ''/''"
  then have "(of_char (ascii_lower c) :: nat) = 47" by simp
  moreover have "(of_char c :: nat) < 256" by simp
  ultimately have "c = ascii_lower c"
    by (auto simp: ascii_lower_def split: if_splits)
  then show "c = CHR ''/''" using \<open>ascii_lower c = CHR ''/''\<close> by simp
qed (simp add: ascii_lower_def)

lemma object_pathname_lower [simp]:
  "hex_laws hx \<Longrightarrow> map ascii_lower (to_object_pathname hx h) = to_object_pathname hx h"
  by (simp add: to_object_pathname_def map_ascii_lower_slash)

lemma from_object_pathname_trailing:
  assumes hx: "hex_laws hx" and H: "0 < size_of H" and t: "length t = 2 * size_of H + 1"
  shows "from_object_pathname hx H (p @ t) = Inr h \<longleftrightarrow>
     length h = size_of H \<and> map ascii_lower t = to_object_pathname hx h"
proof -
  obtain a b c u where tu: "t = a # b # c # u" and u: "length u = 2 * (size_of H - 1)"
    using t H by (cases t rule: list.exhaust; cases "tl t"; cases "tl (tl t)"; simp; arith)
  have drop: "drop (length (p @ t) - (2 * size_of H + 1)) (p @ t) = t"
    using t by (rule trailing_split)
  have "from_object_pathname hx H (p @ t) = Inr h \<longleftrightarrow>
     (\<exists>f r. decode_to_slice hx [a, b] 1 = Inr f \<and> c = CHR ''/'' \<and>
        decode_to_slice hx u (size_of H - 1) = Inr r \<and> h = f @ r)"
    using drop t by (auto simp: from_object_pathname_def Let_def tu result_simps)
  also have "\<dots> \<longleftrightarrow> (\<exists>x r. map ascii_lower [a, b] = hex2 x \<and> c = CHR ''/'' \<and>
        length r = size_of H - 1 \<and> map ascii_lower u = hex_encode hx r \<and> h = x # r)"
    by (auto simp: hex_lawsD [OF hx] length_Suc_conv)
  also have "\<dots> \<longleftrightarrow> length h = size_of H \<and> map ascii_lower t = to_object_pathname hx h"
    using H by (cases h) (auto simp: to_object_pathname_def tu map_ascii_lower_slash hex2_def)
  finally show ?thesis .
qed

text \<open>
  C18: a pathname parses to the hash value \<open>h\<close> exactly when it ends with the object pathname of \<open>h\<close>, its
  letters in any case. Whatever precedes those characters is ignored, and need not end with a separator:
  a longer component before the last one also parses. In particular \<open>to_object_pathname\<close> round-trips.
\<close>

theorem from_object_pathname_iff:
  assumes "hex_laws hx" and "0 < size_of H"
  shows "from_object_pathname hx H s = Inr h \<longleftrightarrow>
    length h = size_of H \<and> (\<exists>p t. s = p @ t \<and> map ascii_lower t = to_object_pathname hx h)"
proof
  assume l: "from_object_pathname hx H s = Inr h"
  let ?m = "2 * size_of H + 1"
  from l have "?m \<le> length s" by (auto simp: from_object_pathname_def Let_def split: if_splits)
  then have "s = take (length s - ?m) s @ drop (length s - ?m) s"
    and "length (drop (length s - ?m) s) = ?m" by simp_all
  then show "length h = size_of H \<and> (\<exists>p t. s = p @ t \<and> map ascii_lower t = to_object_pathname hx h)"
    using from_object_pathname_trailing [OF assms] l by metis
next
  assume r: "length h = size_of H \<and> (\<exists>p t. s = p @ t \<and> map ascii_lower t = to_object_pathname hx h)"
  then obtain p t where s: "s = p @ t" and t: "map ascii_lower t = to_object_pathname hx h" by blast
  have "h \<noteq> []" using r assms(2) by auto
  then have "length t = 2 * size_of H + 1"
    using length_to_object_pathname [OF assms(1), of h] arg_cong [OF t, of length] r by simp
  then show "from_object_pathname hx H s = Inr h"
    using from_object_pathname_trailing [OF assms] s t r by blast
qed

theorem from_object_pathname_iff_witness:
  "from_object_pathname hex_codec (Sha256HashValue rev) (''../objects/'' @ to_object_pathname hex_codec (replicate 32 CHR ''k''))
     = Inr (replicate 32 CHR ''k'')"
proof -
  let ?h = "replicate 32 CHR ''k''" and ?H = "Sha256HashValue rev"
  have "length ?h = size_of ?H \<and> (\<exists>p t. ''../objects/'' @ to_object_pathname hex_codec ?h = p @ t \<and>
      map ascii_lower t = to_object_pathname hex_codec ?h)"
    using object_pathname_lower [OF hex_laws_hex_codec]
    by (intro conjI exI [of _ "''../objects/''"] exI [of _ "to_object_pathname hex_codec ?h"])
       (simp_all add: Sha256HashValue_def)
  then show ?thesis
    using from_object_pathname_iff [OF hex_laws_hex_codec, of ?H] by (simp add: Sha256HashValue_def)
qed

text \<open>
  the identifier that garbage collection computes for the file \<open>objects/XX/basename\<close> is
  the one \<open>from_object_pathname\<close> reads from that pathname: the two parsers agree.
\<close>

theorem dir_and_basename_agree:
  assumes "hex_laws hx" and "0 < size_of H"
  shows "from_object_dir_and_basename hx H d bn = Inr h \<longleftrightarrow>
    length bn = 2 * (size_of H - 1) \<and> from_object_pathname hx H (hex2 d @ ''/'' @ bn) = Inr h"
proof (cases "length bn = 2 * (size_of H - 1)")
  case True
  then have t: "length (hex2 d @ ''/'' @ bn) = 2 * size_of H + 1" using assms(2) by simp
  have "from_object_pathname hx H (hex2 d @ ''/'' @ bn) = Inr h \<longleftrightarrow>
      length h = size_of H \<and> map ascii_lower (hex2 d @ ''/'' @ bn) = to_object_pathname hx h"
    using from_object_pathname_trailing [OF assms t, of "[]"] by simp
  also have "\<dots> \<longleftrightarrow> from_object_dir_and_basename hx H d bn = Inr h"
    using True assms(2) hex2_inj
    by (cases h) (auto simp: from_object_dir_and_basename_def to_object_pathname_def
        result_simps hex_lawsD(2) [OF assms(1)] map_ascii_lower_slash)
  finally show ?thesis using True by simp
next
  case False
  then show ?thesis by (simp add: from_object_dir_and_basename_def)
qed

theorem dir_and_basename_agree_witness:
  "from_object_dir_and_basename hex_codec (Sha512HashValue rev) CHR ''a'' (hex_encode hex_codec (replicate 63 CHR ''k''))
     = Inr (CHR ''a'' # replicate 63 CHR ''k'')"
  using dir_and_basename_agree [OF hex_laws_hex_codec, of "Sha512HashValue rev" "CHR ''a''"
      "hex_encode hex_codec (replicate 63 CHR ''k'')" "CHR ''a'' # replicate 63 CHR ''k''"]
    from_object_pathname_trailing [OF hex_laws_hex_codec, of "Sha512HashValue rev"
      "to_object_pathname hex_codec (CHR ''a'' # replicate 63 CHR ''k'')" "[]" "CHR ''a'' # replicate 63 CHR ''k''"]
    hex_laws_hex_codec
  by (simp add: Sha512HashValue_def to_object_pathname_def map_ascii_lower_slash)

end
