(* ===== verification/Dumpfile.thy ===== *)
theory Dumpfile
  imports Dumpfile_Parse Generic_Tree Hash_Value
begin

text \<open>
  Models \<open>crates/composefs/src/dumpfile.rs\<close>: writing a filesystem tree as a dump file, with
  hardlinks tracked by leaf pointer, and building a tree from parsed entries. A writer is the text
  that it appends; writing to a \<open>String\<close> cannot fail, so the writing functions have no error.
\<close>

section \<open>Writing\<close>

definition write_empty :: bytes where
  "write_empty = DASH"

definition write_escaped_byte :: "byte \<Rightarrow> bytes" where
  "write_escaped_byte c =
     (if (of_char c :: nat) < 33 \<or> c = CHR ''='' \<or> c = BACKSLASH \<or> 126 < (of_char c :: nat)
      then hex_escape c else [c])"

definition write_escaped :: "bytes \<Rightarrow> bytes" where
  "write_escaped b = (if b = [] then write_empty else concat (map write_escaped_byte b))"

text \<open>\<open>{}\<close> of an \<open>i64\<close>.\<close>

definition show_i64 :: "u64 \<Rightarrow> bytes" where
  "show_i64 w = (if sint w < 0 then CHR ''-'' # show_dec (nat (- sint w)) else show_dec (nat (sint w)))"

definition write_xattr :: "bytes \<times> bytes \<Rightarrow> bytes" where
  "write_xattr kv = [SPACE] @ write_escaped (fst kv) @ ''='' @ write_escaped (snd kv)"

definition write_entry :: "bytes \<Rightarrow> stat \<Rightarrow> file_type \<Rightarrow> u64 \<Rightarrow> nat \<Rightarrow> u64 \<Rightarrow> bytes \<Rightarrow> bytes \<Rightarrow>
    bytes option \<Rightarrow> bytes" where
  "write_entry path st ifmt sz nlink rdev payload content_bytes dig =
     (let mode = or (st_mode st) (as_raw_mode ifmt)
      in write_escaped path @ [SPACE] @ show_dec (unat sz) @ [SPACE] @ show_oct (unat mode) @ [SPACE]
         @ show_dec nlink @ [SPACE] @ show_dec (unat (st_uid st)) @ [SPACE]
         @ show_dec (unat (st_gid st)) @ [SPACE] @ show_dec (unat rdev) @ [SPACE]
         @ show_i64 (st_mtim_sec st) @ ''.0'' @ [SPACE]
         @ write_escaped payload @ [SPACE] @ write_escaped content_bytes @ [SPACE]
         @ (case dig of Some oid \<Rightarrow> oid | None \<Rightarrow> write_empty)
         @ concat (map write_xattr (xattrs st)))"

definition write_directory :: "bytes \<Rightarrow> stat \<Rightarrow> nat \<Rightarrow> bytes" where
  "write_directory path st nlink = write_entry path st FtDirectory 0 nlink 0 [] [] None"

definition write_leaf :: "hex_crate \<Rightarrow> bytes \<Rightarrow> stat \<Rightarrow> regular_file leaf_content \<Rightarrow> nat \<Rightarrow> bytes" where
  "write_leaf hx path st c nlink = (case c of
       Regular (Inline d) \<Rightarrow> write_entry path st FtRegular (of_nat (length d)) nlink 0 [] d None
     | Regular (External oid sz) \<Rightarrow>
         write_entry path st FtRegular sz nlink 0 (to_object_pathname hx oid) [] (Some (to_hex hx oid))
     | BlockDevice rdev \<Rightarrow> write_entry path st FtBlockDevice 0 nlink rdev [] [] None
     | CharacterDevice rdev \<Rightarrow> write_entry path st FtCharacterDevice 0 nlink rdev [] [] None
     | Fifo \<Rightarrow> write_entry path st FtFifo 0 nlink 0 [] [] None
     | Socket \<Rightarrow> write_entry path st FtSocket 0 nlink 0 [] [] None
     | Symlink target \<Rightarrow>
         write_entry path st FtSymlink (of_nat (length target)) nlink 0 target [] None)"

definition write_hardlink :: "bytes \<Rightarrow> bytes \<Rightarrow> bytes" where
  "write_hardlink path target =
     write_escaped path @ '' 0 @120000 - - - - 0.0 '' @ write_escaped target @ '' - -''"

text \<open>
  \<open>DumpfileWriter\<close>: the map \<open>hardlinks\<close> from leaf pointers to paths is threaded through, and
  \<open>count\<close> is \<open>Rc::strong_count\<close>. \<open>PathBuf::pop\<close> cuts the path to its parent.
\<close>

type_synonym links = "rc \<Rightarrow> bytes option"

definition write_leaf_node :: "hex_crate \<Rightarrow> regular_file leaf list \<Rightarrow> (rc \<Rightarrow> nat) \<Rightarrow> bytes \<Rightarrow> rc \<Rightarrow>
    links \<Rightarrow> bytes \<times> links" where
  "write_leaf_node hx h count path r hardlinks =
     (let nlink = count r; l = h ! r;
          line = write_leaf hx path (leaf_stat l) (content l) nlink @ [CHR 0x0A]
      in if 1 < nlink then
           (case hardlinks r of
              Some target \<Rightarrow> (write_hardlink path target @ [CHR 0x0A], hardlinks)
            | None \<Rightarrow> (line, hardlinks(r \<mapsto> path)))
         else (line, hardlinks))"

definition pop_path :: "bytes \<Rightarrow> bytes" where
  "pop_path p = (case parent p of Some q \<Rightarrow> q | None \<Rightarrow> p)"

definition dir_nlink :: "directory \<Rightarrow> nat" where
  "dir_nlink d = fold (\<lambda>e n. n + (case snd e of IDirectory _ \<Rightarrow> 1 | ILeaf _ \<Rightarrow> 0)) (entries d) 2"

function write_dir :: "hex_crate \<Rightarrow> regular_file leaf list \<Rightarrow> (rc \<Rightarrow> nat) \<Rightarrow> bytes \<Rightarrow> directory \<Rightarrow> links \<Rightarrow>
    bytes \<times> links"
  and write_entries :: "hex_crate \<Rightarrow> regular_file leaf list \<Rightarrow> (rc \<Rightarrow> nat) \<Rightarrow> bytes \<Rightarrow>
    (bytes \<times> inode) list \<Rightarrow> links \<Rightarrow> bytes \<times> links" where
  "write_dir hx h count path (Directory st es) hl =
     (let line = write_directory path st (dir_nlink (Directory st es)) @ [CHR 0x0A];
          (rest, hl') = write_entries hx h count path es hl
      in (line @ rest, hl'))"
| "write_entries hx h count path [] hl = ([], hl)"
| "write_entries hx h count path ((n, IDirectory d) # es) hl =
     (let sub = push path n;
          (a, hl1) = write_dir hx h count sub d hl;
          (b, hl2) = write_entries hx h count (pop_path sub) es hl1
      in (a @ b, hl2))"
| "write_entries hx h count path ((n, ILeaf r) # es) hl =
     (let sub = push path n;
          (a, hl1) = write_leaf_node hx h count sub r hl;
          (b, hl2) = write_entries hx h count (pop_path sub) es hl1
      in (a @ b, hl2))"
  by pat_completeness auto
termination
  by (relation "measure (case_sum (\<lambda>(hx, h, c, p, d, hl). size d)
    (\<lambda>(hx, h, c, p, es, hl). size_list (size_prod (\<lambda>_. 0) (size_inode_of size)) es))") auto

definition write_dumpfile :: "hex_crate \<Rightarrow> regular_file filesystem \<Rightarrow> bytes" where
  "write_dumpfile hx fs =
     fst (write_dir hx (heap fs) (strong_count (root fs)) ''/'' (root fs) (\<lambda>_. None))"

section \<open>Reading\<close>

datatype build_error =
    NoFilename bytes | ParentNotFound bytes image_error | HardlinkTargetNotFound bytes | MissingDigest
  | BadDigest from_hex_error | ParseFailed bytes dump_error | NotRootFirst bytes | EmptyDump

definition entry_to_stat :: "entry \<Rightarrow> stat" where
  "entry_to_stat e = \<lparr>st_mode = and (emode e) 0xFFF, st_uid = euid e, st_gid = egid e,
     st_mtim_sec = sec (emtime e),
     xattrs = fold (\<lambda>x m. bt_insert (xkey x) (xvalue x) m) (exattrs e) []\<rparr>"

text \<open>A \<open>HashMap<PathBuf, _>\<close> compares its keys by components.\<close>

type_synonym link_table = "component list \<Rightarrow> rc option"

text \<open>The inode of an entry, with the heap that \<open>Rc::new\<close> may have grown.\<close>

definition new_leaf :: "entry \<Rightarrow> regular_file leaf_content \<Rightarrow> regular_file leaf list \<Rightarrow>
    inode \<times> regular_file leaf list" where
  "new_leaf e c h = (ILeaf (length h), h @ [\<lparr>leaf_stat = entry_to_stat e, content = c\<rparr>])"

definition entry_inode :: "hex_crate \<Rightarrow> hash_alg \<Rightarrow> entry \<Rightarrow> link_table \<Rightarrow> regular_file leaf list \<Rightarrow>
    build_error + inode \<times> regular_file leaf list" where
  "entry_inode hx H e hardlinks h = (case eitem e of
       DirectoryItem _ _ \<Rightarrow> Inr (IDirectory (directory_new (entry_to_stat e)), h)
     | Hardlink target \<Rightarrow>
         rbind (ok_or (hardlinks (components target)) (HardlinkTargetNotFound target)) (\<lambda>r. Inr (ILeaf r, h))
     | RegularInline _ c \<Rightarrow> Inr (new_leaf e (Regular (Inline c)) h)
     | RegularExt sz _ _ dig \<Rightarrow> rbind (ok_or dig MissingDigest) (\<lambda>d.
         rbind (map_err BadDigest (from_hex hx H d)) (\<lambda>oid.
           Inr (new_leaf e (Regular (External oid sz)) h)))
     | Device _ rdev \<Rightarrow> Inr (new_leaf e (if and (emode e) 0xF000 = 0x6000 then BlockDevice rdev
         else CharacterDevice rdev) h)
     | SymlinkItem _ t \<Rightarrow> Inr (new_leaf e (Symlink t) h)
     | FifoItem _ \<Rightarrow> Inr (new_leaf e Fifo h))"

definition add_entry_to_filesystem :: "hex_crate \<Rightarrow> hash_alg \<Rightarrow> regular_file filesystem \<Rightarrow> entry \<Rightarrow> link_table \<Rightarrow>
    build_error + regular_file filesystem \<times> link_table" where
  "add_entry_to_filesystem hx H fs e hardlinks =
     (let path = epath e in
      if path_eq path ''/'' then Inr (set_root_stat (entry_to_stat e) fs, hardlinks)
      else let par = (case parent path of Some p \<Rightarrow> p | None \<Rightarrow> ''/'') in
        rbind (ok_or (file_name path) (NoFilename path)) (\<lambda>filename.
        rbind (if path_eq par ''/'' then Inr (root fs, \<lambda>d. d)
               else map_err (ParentNotFound par) (get_directory_mut (root fs) par)) (\<lambda>(parent_dir, put).
        rbind (entry_inode hx H e hardlinks (heap fs)) (\<lambda>(inode, h).
          let hardlinks' = (case inode of ILeaf r \<Rightarrow> hardlinks(components path \<mapsto> r) | _ \<Rightarrow> hardlinks)
          in Inr (fs\<lparr>root := put (insert filename inode parent_dir), heap := h\<rparr>, hardlinks')))))"

definition blank_line :: "bytes \<Rightarrow> bool" where
  "blank_line line \<longleftrightarrow> trim line = []"

definition add_line :: "hex_crate \<Rightarrow> hash_alg \<Rightarrow> regular_file filesystem \<times> link_table \<Rightarrow> bytes \<Rightarrow>
    build_error + regular_file filesystem \<times> link_table" where
  "add_line hx H s line = (if blank_line line then Inr s
     else rbind (map_err (ParseFailed line) (parse_entry line)) (\<lambda>e.
       case s of (fs, hardlinks) \<Rightarrow> add_entry_to_filesystem hx H fs e hardlinks))"

fun find_root :: "bytes list \<Rightarrow> build_error + stat \<times> bytes list" where
  "find_root [] = Inl EmptyDump"
| "find_root (line # ls) = (if blank_line line then find_root ls
     else rbind (map_err (ParseFailed line) (parse_entry line)) (\<lambda>e.
       if path_eq (epath e) ''/'' then Inr (entry_to_stat e, ls) else Inl (NotRootFirst (epath e))))"

definition dumpfile_to_filesystem :: "hex_crate \<Rightarrow> hash_alg \<Rightarrow> bytes \<Rightarrow> build_error + regular_file filesystem" where
  "dumpfile_to_filesystem hx H dumpfile =
     rbind (find_root (lines dumpfile)) (\<lambda>(root_stat, rest).
     rbind (rfold (add_line hx H) (filesystem_new root_stat, \<lambda>_. None) rest) (\<lambda>(fs, hardlinks).
       Inr fs))"

section \<open>Lines that are written parse\<close>

lemma unit_for_write_escaped_byte: "unit_for (write_escaped_byte c) c"
  using unit_for_hex [of c] unit_for_literal [of c] by (auto simp: write_escaped_byte_def)

lemma write_escaped_byte_chars:
  "SPACE \<notin> set (write_escaped_byte c)" "CHR ''='' \<notin> set (write_escaped_byte c)"
  "(of_char x :: nat) < 33 \<Longrightarrow> x \<notin> set (write_escaped_byte c)"
proof -
  show "SPACE \<notin> set (write_escaped_byte c)" "CHR ''='' \<notin> set (write_escaped_byte c)"
    using hex_escape_chars [of _ c] by (auto simp: write_escaped_byte_def)
  assume x: "(of_char x :: nat) < 33"
  have d: "digit_char k \<noteq> x" if "k < 16" for k using digit_char_neq [OF that, of x] x by simp
  show "x \<notin> set (write_escaped_byte c)"
    using x d [of "of_char c div 16"] d [of "of_char c mod 16"]
    by (auto simp: write_escaped_byte_def hex_escape_def hex_byte_def)
qed

lemma write_escaped_chars [simp]:
  "SPACE \<notin> set (write_escaped b)" "CHR ''='' \<notin> set (write_escaped b)" "CHR 0x0A \<notin> set (write_escaped b)"
  by (simp_all add: write_escaped_def write_empty_def write_escaped_byte_chars)

lemma unescape_write_escaped:
  "b \<noteq> [] \<Longrightarrow> length b \<le> mx \<Longrightarrow> unescape_limited (write_escaped b) mx = Inr b"
  by (simp add: write_escaped_def unescape_limited_units unit_for_write_escaped_byte)

lemma optional_write_escaped [simp]:
  "optional_str (write_escaped []) = None"
  "b \<noteq> [] \<Longrightarrow> b \<noteq> DASH \<Longrightarrow> optional_str (write_escaped b) = Some (write_escaped b)"
proof -
  show "optional_str (write_escaped []) = None"
    by (simp add: write_escaped_def write_empty_def)
  assume b: "b \<noteq> []" "b \<noteq> DASH"
  have "write_escaped b \<noteq> DASH"
    using unescape_write_escaped [OF b(1), of "length b + 1"] b
    by (auto simp: unescape_limited_def)
  then show "optional_str (write_escaped b) = Some (write_escaped b)" by (rule optional_str_some)
qed

lemma path_write_escaped: "path_ok p \<Longrightarrow> unescape_to_path (write_escaped p) = Inr p"
  by (simp add: path_ok_def unescape_to_path_def unescape_to_osstr_def unescape_def
      unescape_write_escaped PATH_MAX_le)

lemma canonical_write_escaped:
  assumes "path_ok p" "canonical_path p"
  shows "unescape_to_path_canonical (write_escaped p) = Inr p"
proof -
  obtain ns where ns: "p = abs_path ns" "\<forall>n \<in> set ns. valid_name n"
    using assms(2) by (auto simp: canonical_path_iff)
  then show ?thesis
    using assms(1) canonical_loop_normal [of ns "[]"]
    by (simp add: unescape_to_path_canonical_def path_write_escaped component_bytes_def push_root)
qed

text \<open>Stats that the format can hold.\<close>

definition xattr_pair_ok :: "bytes \<times> bytes \<Rightarrow> bool" where
  "xattr_pair_ok kv \<longleftrightarrow> xattr_ok \<lparr>xkey = fst kv, xvalue = snd kv\<rparr>"

definition stat_ok :: "stat \<Rightarrow> bool" where
  "stat_ok st \<longleftrightarrow> and (st_mode st) 0xFFF = st_mode st \<and> 0 \<le> sint (st_mtim_sec st) \<and>
     bt_wf (xattrs st) \<and> list_all xattr_pair_ok (xattrs st) \<and>
     sum_list (map (\<lambda>kv. length (fst kv)) (xattrs st)) \<le> XATTR_LIST_MAX"

lemma show_i64_nonneg: "0 \<le> sint w \<Longrightarrow> show_i64 w = show_dec (unat w)"
proof -
  assume w: "0 \<le> sint (w :: u64)"
  have "sint w < 2 ^ 63" using sint_less [of w] by simp
  moreover have "uint w = take_bit 64 (sint w)" using uint_sint [of w] by simp
  ultimately have "sint w = uint w" using w by (simp add: take_bit_int_eq_self)
  then have "nat (sint w) = unat w" by simp
  then show ?thesis using w by (simp add: show_i64_def)
qed

lemma parse_mtime_write: "0 \<le> sint w \<Longrightarrow> parse_mtime (show_i64 w @ ''.0'') = Inr \<lparr>sec = w, nsec = 0\<rparr>"
proof -
  assume w: "0 \<le> sint (w :: u64)"
  have "parse_u64 ''0'' = Inr 0"
    by (simp add: parse_u64_def parse_radix_def to_digit_def)
  then show ?thesis using w by (simp add: parse_mtime_def show_i64_nonneg)
qed

lemma mode_bits:
  assumes "and m 0xFFF = (m :: u32)" "t \<noteq> FtUnknown"
  shows "from_raw_mode (or m (as_raw_mode t)) = t" "and (or m (as_raw_mode t)) 0xFFF = m"
    "and (or m (as_raw_mode t)) 0xF000 = as_raw_mode t"
proof -
  have "and m 0xF000 = and (and m 0xFFF) 0xF000" by (simp only: assms(1))
  also have "\<dots> = 0" by (simp add: and.assoc)
  finally have z: "and m 0xF000 = 0" .
  have "and (or m k) 0xF000 = and k 0xF000" "and (or m k) 0xFFF = or m (and k 0xFFF)" for k
    by (simp_all add: bit.conj_disj_distrib2 z assms(1))
  then show "from_raw_mode (or m (as_raw_mode t)) = t" "and (or m (as_raw_mode t)) 0xFFF = m"
    "and (or m (as_raw_mode t)) 0xF000 = as_raw_mode t"
    using assms(2) by (cases t; simp add: from_raw_mode_def S_IFMT_def as_raw_mode_def)+
qed

lemma write_xattr_fold:
  assumes "list_all xattr_pair_ok xs" "n + sum_list (map (\<lambda>kv. length (fst kv)) xs) \<le> XATTR_LIST_MAX"
  shows "rfold xattr_step (acc, n) (map (\<lambda>kv. write_escaped (fst kv) @ CHR ''='' # write_escaped (snd kv)) xs) =
    Inr (acc @ map (\<lambda>kv. \<lparr>xkey = fst kv, xvalue = snd kv\<rparr>) xs, n + sum_list (map (\<lambda>kv. length (fst kv)) xs))"
  using assms
proof (induction xs arbitrary: acc n)
  case (Cons x xs)
  have b: "n + length (fst x) \<le> USIZE_MAX" "n + length (fst x) \<le> XATTR_LIST_MAX"
    using Cons.prems by (simp_all add: XATTR_LIST_MAX_def USIZE_MAX_def)
  have "parse_xattr (write_escaped (fst x) @ CHR ''='' # write_escaped (snd x)) =
      Inr \<lparr>xkey = fst x, xvalue = snd x\<rparr>"
    using Cons.prems(1) by (simp add: parse_xattr_def xattr_pair_ok_def xattr_ok_def
        unescape_to_osstr_def unescape_def unescape_write_escaped PATH_MAX_le)
  then show ?case using Cons b by (simp add: xattr_step_def Let_def min_def)
qed simp

lemma write_entry_fields:
  "write_entry path st t sz nlink rdev payload c dig = join_char SPACE
     ([write_escaped path, show_dec (unat sz), show_oct (unat (or (st_mode st) (as_raw_mode t))),
       show_dec nlink, show_dec (unat (st_uid st)), show_dec (unat (st_gid st)), show_dec (unat rdev),
       show_i64 (st_mtim_sec st) @ ''.0'', write_escaped payload, write_escaped c,
       (case dig of Some oid \<Rightarrow> oid | None \<Rightarrow> DASH)] @
      map (\<lambda>kv. write_escaped (fst kv) @ CHR ''='' # write_escaped (snd kv)) (xattrs st))"
proof -
  have x: "write_xattr = (\<lambda>kv. SPACE # write_escaped (fst kv) @ CHR ''='' # write_escaped (snd kv))"
    by (simp add: write_xattr_def fun_eq_iff)
  show ?thesis unfolding join_char_fields write_empty_def [symmetric]
    by (simp add: write_entry_def Let_def x)
qed

lemma parse_write_entry:
  assumes p: "path_ok path" "canonical_path path" and st: "stat_ok st" and n: "nlink < 2 ^ 32"
    and d: "\<forall>x. dig = Some x \<longrightarrow> x \<noteq> DASH \<and> SPACE \<notin> set x"
    and i: "parse_item False (or (st_mode st) (as_raw_mode t)) sz (of_nat nlink) rdev
       (optional_str (write_escaped payload)) (optional_str (write_escaped c)) dig = Inr it"
  shows "parse_entry (write_entry path st t sz nlink rdev payload c dig) =
    Inr \<lparr>epath = path, euid = st_uid st, egid = st_gid st, emode = or (st_mode st) (as_raw_mode t),
      emtime = \<lparr>sec = st_mtim_sec st, nsec = 0\<rparr>, eitem = it,
      exattrs = map (\<lambda>kv. \<lparr>xkey = fst kv, xvalue = snd kv\<rparr>) (xattrs st)\<rparr>"
proof -
  let ?fs = "[write_escaped path, show_dec (unat sz), show_oct (unat (or (st_mode st) (as_raw_mode t))),
       show_dec nlink, show_dec (unat (st_uid st)), show_dec (unat (st_gid st)), show_dec (unat rdev),
       show_i64 (st_mtim_sec st) @ ''.0'', write_escaped payload, write_escaped c,
       (case dig of Some oid \<Rightarrow> oid | None \<Rightarrow> DASH)] @
      map (\<lambda>kv. write_escaped (fst kv) @ CHR ''='' # write_escaped (snd kv)) (xattrs st)"
  have mt: "0 \<le> sint (st_mtim_sec st)" using st by (simp add: stat_ok_def)
  have "split_char SPACE (write_entry path st t sz nlink rdev payload c dig) = ?fs"
    unfolding write_entry_fields
    by (rule split_char_join) (use d mt in \<open>auto simp: show_i64_nonneg split: option.splits\<close>)
  moreover have "optional_str (case dig of Some oid \<Rightarrow> oid | None \<Rightarrow> DASH) = dig"
    using d by (cases dig) (auto simp: optional_str_some)
  moreover have "rfold xattr_step ([], 0)
      (map (\<lambda>kv. write_escaped (fst kv) @ CHR ''='' # write_escaped (snd kv)) (xattrs st)) =
      Inr (map (\<lambda>kv. \<lparr>xkey = fst kv, xvalue = snd kv\<rparr>) (xattrs st),
        sum_list (map (\<lambda>kv. length (fst kv)) (xattrs st)))"
    using write_xattr_fold [of "xattrs st" 0 "[]"] st by (simp add: stat_ok_def)
  moreover have "parse_u32 (show_dec nlink) = Inr (of_nat nlink)"
    using n by (simp add: parse_u32_def)
  ultimately show ?thesis
    using i by (simp add: parse_entry_def next_field_def canonical_write_escaped [OF p]
        parse_mtime_write [OF mt])
qed

section \<open>Entries of a written line\<close>

definition content_ok :: "hash_alg \<Rightarrow> regular_file leaf_content \<Rightarrow> bool" where
  "content_ok H c = (case c of
       Regular (Inline d) \<Rightarrow> length d \<le> MAX_INLINE_CONTENT \<and> d \<noteq> DASH
     | Regular (External oid _) \<Rightarrow> length oid = size_of H \<and> 1 \<le> size_of H \<and> size_of H \<le> 64
     | Symlink t \<Rightarrow> path_ok t \<and> t \<noteq> DASH
     | Socket \<Rightarrow> False
     | _ \<Rightarrow> True)"

definition item_of :: "hex_crate \<Rightarrow> regular_file leaf_content \<Rightarrow> u32 \<Rightarrow> item" where
  "item_of hx c n = (case c of
       Regular (Inline d) \<Rightarrow> RegularInline n d
     | Regular (External oid sz) \<Rightarrow> RegularExt sz n (to_object_pathname hx oid) (Some (to_hex hx oid))
     | BlockDevice rdev \<Rightarrow> Device n rdev
     | CharacterDevice rdev \<Rightarrow> Device n rdev
     | Symlink t \<Rightarrow> SymlinkItem n t
     | _ \<Rightarrow> FifoItem n)"

definition type_of :: "regular_file leaf_content \<Rightarrow> file_type" where
  "type_of c = (case c of Regular _ \<Rightarrow> FtRegular | BlockDevice _ \<Rightarrow> FtBlockDevice
     | CharacterDevice _ \<Rightarrow> FtCharacterDevice | Fifo \<Rightarrow> FtFifo | Socket \<Rightarrow> FtSocket | Symlink _ \<Rightarrow> FtSymlink)"

definition entry_of :: "bytes \<Rightarrow> stat \<Rightarrow> file_type \<Rightarrow> item \<Rightarrow> entry" where
  "entry_of path st t it = \<lparr>epath = path, euid = st_uid st, egid = st_gid st,
      emode = or (st_mode st) (as_raw_mode t), emtime = \<lparr>sec = st_mtim_sec st, nsec = 0\<rparr>, eitem = it,
      exattrs = map (\<lambda>kv. \<lparr>xkey = fst kv, xvalue = snd kv\<rparr>) (xattrs st)\<rparr>"

lemma entry_of_sel [simp]:
  "epath (entry_of path st t it) = path" "eitem (entry_of path st t it) = it"
  "emode (entry_of path st t it) = or (st_mode st) (as_raw_mode t)"
  by (simp_all add: entry_of_def)

lemma hex2_chars: "x \<in> set (hex2 c) \<Longrightarrow> \<exists>d < 16. x = digit_char d"
  by (auto simp: hex2_def intro: of_char_div_16 exI [of _ "of_char c div 16"] exI [of _ "of_char c mod 16"])

lemma hex_encode_chars:
  assumes "hex_laws hx" "x \<in> set (hex_encode hx b)"
  shows "\<exists>d < 16. x = digit_char d"
  using assms hex2_chars by (auto simp: hex_laws_def)

lemma hex_encode_no:
  assumes "hex_laws hx" "(of_char x :: nat) < 48"
  shows "x \<notin> set (hex_encode hx b)"
  using hex_encode_chars [OF assms(1), of x b] digit_char_neq [of _ x] assms(2) by auto

lemma object_pathname_path_ok:
  assumes "hex_laws hx" "1 \<le> length oid" "length oid \<le> 64"
  shows "path_ok (to_object_pathname hx oid)" "to_object_pathname hx oid \<noteq> DASH"
proof -
  have "CHR 0x00 \<notin> set (hex2 (hd oid))"
  proof
    assume "CHR 0x00 \<in> set (hex2 (hd oid))"
    then obtain d where d: "d < 16" "CHR 0x00 = digit_char d" using hex2_chars by blast
    have "digit_char d \<noteq> CHR 0x00" by (rule digit_char_neq [OF d(1)]) simp
    then show False using d(2) by metis
  qed
  moreover have "CHR 0x00 \<notin> set (hex_encode hx (tl oid))" using hex_encode_no [OF assms(1)] by simp
  ultimately show "path_ok (to_object_pathname hx oid)"
    using assms(2,3) length_hex_encode [OF assms(1), of "tl oid"]
    by (simp add: path_ok_def to_object_pathname_def PATH_MAX_def hex2_def)
  show "to_object_pathname hx oid \<noteq> DASH" by (simp add: to_object_pathname_def hex2_def)
qed

lemma to_hex_clean:
  assumes "hex_laws hx" "1 \<le> length oid"
  shows "to_hex hx oid \<noteq> DASH" "(of_char x :: nat) < 48 \<Longrightarrow> x \<notin> set (to_hex hx oid)"
proof -
  show "to_hex hx oid \<noteq> DASH"
    using length_hex_encode [OF assms(1), of oid] assms(2) by (auto simp: to_hex_def)
  show "(of_char x :: nat) < 48 \<Longrightarrow> x \<notin> set (to_hex hx oid)"
    using hex_encode_no [OF assms(1)] by (simp add: to_hex_def)
qed

lemma unescape_limited_Nil: "unescape_limited [] mx = Inr []"
  by (simp add: unescape_limited_def)

lemma stat_ok_mode: "stat_ok st \<Longrightarrow> and (st_mode st) 0xFFF = st_mode st"
  by (simp add: stat_ok_def)

text \<open> The line that is written for a file, device, symlink or fifo parses to an entry with the
  same metadata and the same contents. \<close>

theorem parse_write_leaf:
  assumes hx: "hex_laws hx" and p: "path_ok path" "canonical_path path" and st: "stat_ok st"
    and c: "content_ok H c" and n: "nlink < 2 ^ 32"
  shows "parse_entry (write_leaf hx path st c nlink) =
    Inr (entry_of path st (type_of c) (item_of hx c (of_nat nlink)))"
proof -
  note pw = parse_write_entry [OF p st n]
  note m = mode_bits(1) [OF stat_ok_mode [OF st]]
  show ?thesis
  proof (cases c)
    case (Regular f)
    show ?thesis
    proof (cases f)
      case (Inline d)
      have i: "parse_item False (or (st_mode st) (as_raw_mode FtRegular)) (of_nat (length d)) (of_nat nlink) 0
          (optional_str (write_escaped [])) (optional_str (write_escaped d)) None =
          Inr (RegularInline (of_nat nlink) d)"
        using c Regular Inline
        by (cases "d = []") (simp_all add: parse_item_def m check_rdev_def content_ok_def
            unescape_write_escaped unescape_limited_Nil)
      show ?thesis using pw [OF _ i] Regular Inline
        by (simp add: write_leaf_def entry_of_def type_of_def item_of_def)
    next
      case (External oid sz)
      then have l: "1 \<le> length oid" "length oid \<le> 64" using c Regular by (auto simp: content_ok_def)
      note o = object_pathname_path_ok [OF hx l]
      have ne: "to_object_pathname hx oid \<noteq> []" using o(1) by (simp add: path_ok_def)
      have i: "parse_item False (or (st_mode st) (as_raw_mode FtRegular)) sz (of_nat nlink) 0
          (optional_str (write_escaped (to_object_pathname hx oid))) (optional_str (write_escaped []))
          (Some (to_hex hx oid)) =
          Inr (RegularExt sz (of_nat nlink) (to_object_pathname hx oid) (Some (to_hex hx oid)))"
        by (simp add: parse_item_def m check_rdev_def o(2) ne path_write_escaped [OF o(1)])
      show ?thesis using pw [OF _ i] Regular External to_hex_clean [OF hx l(1)]
        by (simp add: write_leaf_def entry_of_def type_of_def item_of_def)
    qed
  next
    case (Symlink t)
    then have t: "path_ok t" "t \<noteq> DASH" using c by (simp_all add: content_ok_def)
    then have t': "t \<noteq> []" "length t \<le> PATH_MAX" by (simp_all add: path_ok_def)
    have i: "parse_item False (or (st_mode st) (as_raw_mode FtSymlink)) (of_nat (length t)) (of_nat nlink) 0
        (optional_str (write_escaped t)) (optional_str (write_escaped [])) None =
        Inr (SymlinkItem (of_nat nlink) t)"
      using t t' by (simp add: parse_item_def m check_rdev_def check_nonregfile_def path_write_escaped)
    show ?thesis using pw [OF _ i] Symlink
      by (simp add: write_leaf_def entry_of_def type_of_def item_of_def)
  next
    case (BlockDevice r)
    have i: "parse_item False (or (st_mode st) (as_raw_mode FtBlockDevice)) 0 (of_nat nlink) r
        (optional_str (write_escaped [])) (optional_str (write_escaped [])) None = Inr (Device (of_nat nlink) r)"
      by (simp add: parse_item_def m check_nonregfile_def)
    show ?thesis using pw [OF _ i] BlockDevice
      by (simp add: write_leaf_def entry_of_def type_of_def item_of_def)
  next
    case (CharacterDevice r)
    have i: "parse_item False (or (st_mode st) (as_raw_mode FtCharacterDevice)) 0 (of_nat nlink) r
        (optional_str (write_escaped [])) (optional_str (write_escaped [])) None = Inr (Device (of_nat nlink) r)"
      by (simp add: parse_item_def m check_nonregfile_def)
    show ?thesis using pw [OF _ i] CharacterDevice
      by (simp add: write_leaf_def entry_of_def type_of_def item_of_def)
  next
    case Fifo
    have i: "parse_item False (or (st_mode st) (as_raw_mode FtFifo)) 0 (of_nat nlink) 0
        (optional_str (write_escaped [])) (optional_str (write_escaped [])) None = Inr (FifoItem (of_nat nlink))"
      by (simp add: parse_item_def m check_rdev_def check_nonregfile_def)
    show ?thesis using pw [OF _ i] Fifo
      by (simp add: write_leaf_def entry_of_def type_of_def item_of_def)
  next
    case Socket
    then show ?thesis using c by (simp add: content_ok_def)
  qed
qed

definition example_stat :: stat where
  "example_stat = \<lparr>st_mode = 0x1A4, st_uid = 1000, st_gid = 1000, st_mtim_sec = 12,
     xattrs = [(''user.a=b'', [CHR 0xFF])]\<rparr>"

lemma example_stat_ok: "stat_ok example_stat"
  by (simp add: stat_ok_def example_stat_def xattr_pair_ok_def xattr_ok_def XATTR_NAME_MAX_def
      XATTR_SIZE_MAX_def XATTR_LIST_MAX_def)

lemma parse_write_leaf_witness:
  "parse_entry (write_leaf hex_codec ''/a b'' example_stat (Symlink ''..'') 1) =
     Inr (entry_of ''/a b'' example_stat FtSymlink (SymlinkItem 1 ''..''))"
  using parse_write_leaf [OF hex_laws_hex_codec _ _ example_stat_ok, of "''/a b''"
      "Sha256HashValue rev" "Symlink ''..''" 1]
  by (simp add: path_ok_def canonical_path_def valid_name_def PATH_MAX_def content_ok_def
      type_of_def item_of_def)

lemma parse_write_directory:
  assumes p: "path_ok path" "canonical_path path" and st: "stat_ok st" and n: "nlink < 2 ^ 32"
  shows "parse_entry (write_directory path st nlink) =
    Inr (entry_of path st FtDirectory (DirectoryItem 0 (of_nat nlink)))"
proof -
  have i: "parse_item False (or (st_mode st) (as_raw_mode FtDirectory)) 0 (of_nat nlink) 0
      (optional_str (write_escaped [])) (optional_str (write_escaped [])) None =
      Inr (DirectoryItem 0 (of_nat nlink))"
    by (simp add: parse_item_def mode_bits(1) [OF stat_ok_mode [OF st]] check_rdev_def check_nonregfile_def)
  show ?thesis using parse_write_entry [OF p st n _ i]
    by (simp add: write_directory_def entry_of_def)
qed

section \<open>The tree read back\<close>

lemma bt_insert_append: "\<forall>x \<in> fst ` set m. x < k \<Longrightarrow> bt_insert k v m = m @ [(k, v)]"
  by (induction k v m rule: bt_insert.induct) auto

lemma bt_wf_append:
  "bt_wf (xs @ ys) \<longleftrightarrow> bt_wf xs \<and> bt_wf ys \<and> (\<forall>x \<in> fst ` set xs. \<forall>y \<in> fst ` set ys. x < y)"
  by (simp add: bt_wf_def sorted_wrt_append)

lemma fold_bt_insert:
  "bt_wf (acc @ xs) \<Longrightarrow>
    fold (\<lambda>x m. bt_insert (xkey x) (xvalue x) m) (map (\<lambda>kv. \<lparr>xkey = fst kv, xvalue = snd kv\<rparr>) xs) acc = acc @ xs"
proof (induction xs arbitrary: acc)
  case (Cons x xs)
  then have "bt_insert (fst x) (snd x) acc = acc @ [x]"
    by (cases x) (auto simp: bt_wf_append intro: bt_insert_append)
  then show ?case using Cons by simp
qed simp

lemma entry_to_stat_entry_of:
  assumes "stat_ok st" "t \<noteq> FtUnknown"
  shows "entry_to_stat (entry_of path st t it) = st"
proof -
  have "bt_wf (xattrs st)" using assms(1) by (simp add: stat_ok_def)
  then have "fold (\<lambda>x m. bt_insert (xkey x) (xvalue x) m)
      (map (\<lambda>kv. \<lparr>xkey = fst kv, xvalue = snd kv\<rparr>) (xattrs st)) [] = xattrs st"
    using fold_bt_insert [of "[]" "xattrs st"] by simp
  then show ?thesis using mode_bits(2) [OF stat_ok_mode [OF assms(1)] assms(2)]
    by (simp add: entry_to_stat_def entry_of_def)
qed

lemma from_hex_to_hex: "hex_laws hx \<Longrightarrow> length oid = size_of H \<Longrightarrow> from_hex hx H (to_hex hx oid) = Inr oid"
  by (simp add: from_hex_def to_hex_def)

lemma entry_inode_leaf:
  assumes hx: "hex_laws hx" and st: "stat_ok st" and c: "content_ok H c"
  shows "entry_inode hx H (entry_of path st (type_of c) (item_of hx c n)) hl h =
    Inr (ILeaf (length h), h @ [\<lparr>leaf_stat = st, content = c\<rparr>])"
proof -
  have t: "type_of c \<noteq> FtUnknown" by (simp add: type_of_def split: leaf_content.splits)
  note e = entry_to_stat_entry_of [OF st t]
  note b = mode_bits(3) [OF stat_ok_mode [OF st] t]
  show ?thesis
  proof (cases c)
    case (Regular f)
    then show ?thesis using c e hx
      by (cases f) (simp_all add: entry_inode_def item_of_def new_leaf_def type_of_def content_ok_def
          from_hex_to_hex)
  qed (use c e b in \<open>simp_all add: entry_inode_def item_of_def new_leaf_def type_of_def content_ok_def
        as_raw_mode_def\<close>)
qed

lemma entry_inode_directory:
  "stat_ok st \<Longrightarrow> entry_inode hx H (entry_of path st FtDirectory (DirectoryItem sz n)) hl h =
     Inr (IDirectory (directory_new st), h)"
  by (simp add: entry_inode_def entry_to_stat_entry_of)

text \<open>\<open>put\<close> writes the directory with the names \<open>ns\<close> into a tree.\<close>

definition holds :: "bytes list \<Rightarrow> (directory \<Rightarrow> directory) \<Rightarrow> bool" where
  "holds ns put \<longleftrightarrow> (\<forall>pn d. walk_mut pn (map Normal ns) (put d) = Inr (d, put))"

lemma holds_Nil [simp]: "holds [] (\<lambda>d. d)"
  by (simp add: holds_def)

lemma walk_mut_append:
  "walk_mut pn (as @ bs) d = rbind (walk_mut pn as d) (\<lambda>(s, put).
     rbind (walk_mut pn bs s) (\<lambda>(s2, put2). Inr (s2, \<lambda>x. put (put2 x))))"
proof (induction pn as d rule: walk_mut.induct)
  case (1 pn d)
  then show ?case by (cases "walk_mut pn bs d") auto
next
  case (5 pn f cs d)
  show ?case
  proof (cases "bt_get (entries d) f")
    case (Some i)
    then show ?thesis using 5
      by (cases i) (auto simp: rbind_def split: sum.splits)
  qed simp
qed auto

lemma holds_child:
  assumes h: "holds ns put" and wf: "bt_wf es" and k: "\<forall>x \<in> fst ` set es. x < n"
  shows "holds (ns @ [n]) (\<lambda>s. put (Directory st (es @ [(n, IDirectory s)])))"
proof -
  have g: "bt_get (es @ [(n, IDirectory s)]) n = Some (IDirectory s)" for s
  proof -
    have "n \<notin> fst ` set es" using k by auto
    then have "map_of es n = None" by (simp add: map_of_eq_None_iff)
    then show ?thesis by (simp add: bt_get_def map_add_Some_iff)
  qed
  have w: "bt_wf (es @ [(n, IDirectory s)])" for s using wf k by (simp add: bt_wf_append)
  have i: "bt_insert n (IDirectory s') (es @ [(n, IDirectory s)]) = es @ [(n, IDirectory s')]" for s s'
    using btree.insert_insert [OF wf, of n "IDirectory s'" "IDirectory s"] k
    by (simp add: bt_insert_append)
  show ?thesis using h
    by (auto simp: holds_def walk_mut_append g i set_entries_def)
qed

lemma get_parent:
  assumes "holds ns put" "\<forall>m \<in> set ns. valid_name m" "root fs = put d"
  shows "(if path_eq (abs_path ns) ''/'' then Inr (root fs, \<lambda>d. d)
     else map_err (ParentNotFound (abs_path ns)) (get_directory_mut (root fs) (abs_path ns))) = Inr (d, put)"
proof -
  have r: "components ''/'' = [RootDir]" by code_simp
  have w: "walk_mut pn (map Normal ns) (put d) = Inr (d, put)" for pn using assms(1) by (simp add: holds_def)
  show ?thesis using assms w [of "[]"] w
    by (cases "ns = []") (simp_all add: path_eq_def r get_directory_mut_def)
qed

lemma add_entry_at:
  assumes h: "holds ns put" and v: "\<forall>m \<in> set ns. valid_name m" "valid_name n"
    and r: "root fs = put d" and e: "epath e = abs_path (ns @ [n])"
    and i: "entry_inode hx H e hl (heap fs) = Inr (i, h')"
  shows "\<exists>hl'. add_entry_to_filesystem hx H fs e hl = Inr (fs\<lparr>root := put (insert n i d), heap := h'\<rparr>, hl')"
proof -
  have root: "components ''/'' = [RootDir]" by code_simp
  have v': "\<forall>m \<in> set (ns @ [n]). valid_name m" using v by simp
  have "\<not> path_eq (abs_path (ns @ [n])) ''/''" by (simp add: path_eq_def root v')
  moreover have "file_name (abs_path (ns @ [n])) = Some n" using file_name_abs_path [OF v'] by simp
  ultimately show ?thesis
    using get_parent [OF h v(1) r] i e v
    by (simp add: add_entry_to_filesystem_def Let_def)
qed

text \<open>Trees that the format can hold, and the lines they are written as.\<close>

function dir_ok :: "hash_alg \<Rightarrow> regular_file leaf list \<Rightarrow> bytes list \<Rightarrow> directory \<Rightarrow> bool"
  and inode_ok :: "hash_alg \<Rightarrow> regular_file leaf list \<Rightarrow> bytes list \<Rightarrow> inode \<Rightarrow> bool" where
  "dir_ok H h ns (Directory st es) \<longleftrightarrow> stat_ok st \<and> bt_wf es \<and> dir_nlink (Directory st es) < 2 ^ 32 \<and>
     path_ok (abs_path ns) \<and> (\<forall>e \<in> set es. valid_name (fst e) \<and> inode_ok H h (ns @ [fst e]) (snd e))"
| "inode_ok H h ns (IDirectory d) \<longleftrightarrow> dir_ok H h ns d"
| "inode_ok H h ns (ILeaf r) \<longleftrightarrow> path_ok (abs_path ns) \<and> stat_ok (leaf_stat (h ! r)) \<and> content_ok H (content (h ! r))"
  by pat_completeness auto
termination
  by (relation "measure (case_sum (\<lambda>(H, h, ns, d). size d) (\<lambda>(H, h, ns, i). size_inode_of size i))")
    (auto simp: size_entry)

function dir_lines :: "hex_crate \<Rightarrow> regular_file leaf list \<Rightarrow> bytes list \<Rightarrow> directory \<Rightarrow> bytes list"
  and entries_lines :: "hex_crate \<Rightarrow> regular_file leaf list \<Rightarrow> bytes list \<Rightarrow> (bytes \<times> inode) list \<Rightarrow> bytes list" where
  "dir_lines hx h ns (Directory st es) =
     write_directory (abs_path ns) st (dir_nlink (Directory st es)) # entries_lines hx h ns es"
| "entries_lines hx h ns [] = []"
| "entries_lines hx h ns ((n, IDirectory d) # es) = dir_lines hx h (ns @ [n]) d @ entries_lines hx h ns es"
| "entries_lines hx h ns ((n, ILeaf r) # es) =
     write_leaf hx (abs_path (ns @ [n])) (leaf_stat (h ! r)) (content (h ! r)) 1 # entries_lines hx h ns es"
  by pat_completeness auto
termination
  by (relation "measure (case_sum (\<lambda>(hx, h, ns, d). size d)
    (\<lambda>(hx, h, ns, es). size_list (size_prod (\<lambda>_. 0) (size_inode_of size)) es))") auto

abbreviation entries_ok :: "hash_alg \<Rightarrow> regular_file leaf list \<Rightarrow> bytes list \<Rightarrow> (bytes \<times> inode) list \<Rightarrow> bool" where
  "entries_ok H h ns es \<equiv> \<forall>e \<in> set es. valid_name (fst e) \<and> inode_ok H h (ns @ [fst e]) (snd e)"

abbreviation text_of :: "bytes list \<Rightarrow> bytes" where
  "text_of ls \<equiv> concat (map (\<lambda>l. l @ [CHR 0x0A]) ls)"

lemma pop_push: "\<forall>m \<in> set ns. valid_name m \<Longrightarrow> valid_name n \<Longrightarrow> pop_path (push (abs_path ns) n) = abs_path ns"
  by (simp add: push_abs_path pop_path_def)

lemma write_dir_lines:
  "\<forall>m \<in> set ns. valid_name m \<Longrightarrow> dir_ok H h ns d \<Longrightarrow> \<forall>r \<in> set (refs d). count r = 1 \<Longrightarrow>
     write_dir hx h count (abs_path ns) d hl = (text_of (dir_lines hx h ns d), hl)"
  "\<forall>m \<in> set ns. valid_name m \<Longrightarrow> entries_ok H h ns es \<Longrightarrow>
     \<forall>r \<in> set (concat (map (\<lambda>e. inode_refs (snd e)) es)). count r = 1 \<Longrightarrow>
     write_entries hx h count (abs_path ns) es hl = (text_of (entries_lines hx h ns es), hl)"
proof (induction hx h ns d and hx h ns es rule: dir_lines_entries_lines.induct)
  case (3 hx h ns n d es)
  then have v: "valid_name n" by simp
  have "write_dir hx h count (push (abs_path ns) n) d hl = (text_of (dir_lines hx h (ns @ [n]) d), hl)"
    using 3 v by (simp add: push_abs_path)
  moreover have "write_entries hx h count (abs_path ns) es hl = (text_of (entries_lines hx h ns es), hl)"
    using 3 by simp
  ultimately show ?case using pop_push [OF "3.prems"(1) v] by (simp add: Let_def)
next
  case (4 hx h ns n r es)
  then have v: "valid_name n" by simp
  have "write_entries hx h count (abs_path ns) es hl = (text_of (entries_lines hx h ns es), hl)"
    using 4 by simp
  then show ?case using pop_push [OF "4.prems"(1) v] "4.prems" v
    by (simp add: Let_def write_leaf_node_def push_abs_path)
qed (simp_all add: Let_def)

text \<open>No written line is blank.\<close>

lemma not_blank_slash: "\<not> blank_line (SLASH # s)"
proof -
  have w: "utf8_chars (SLASH # s) = ''/'' # utf8_chars s" by (simp add: utf8_width_def)
  have n: "\<not> is_whitespace ''/''" by (simp add: is_whitespace_def code_point_def Let_def)
  have "dropWhile is_whitespace (rev (utf8_chars s) @ [''/'']) \<noteq> []"
    using n by (auto simp: dropWhile_eq_Nil_conv)
  then have "\<exists>xs. dropWhile is_whitespace (rev (utf8_chars s) @ [''/'']) = xs @ [''/'']"
    using n by (metis append_Nil dropWhile.simps dropWhile_append dropWhile_append2)
  then show ?thesis using w n by (auto simp: blank_line_def trim_def)
qed

lemma write_escaped_abs: "\<exists>s. write_escaped (abs_path ns) = SLASH # s"
proof -
  have "write_escaped_byte SLASH = ''/''" by (simp add: write_escaped_byte_def)
  then show ?thesis by (simp add: write_escaped_def abs_path_def)
qed

lemma write_entry_not_blank: "\<not> blank_line (write_entry (abs_path ns) st t sz nl rdev p c dig)"
proof -
  obtain s where "write_escaped (abs_path ns) = SLASH # s" using write_escaped_abs by blast
  then show ?thesis by (simp add: write_entry_def Let_def not_blank_slash)
qed

lemma line_not_blank [simp]:
  "\<not> blank_line (write_directory (abs_path ns) st nl)"
  "\<not> blank_line (write_leaf hx (abs_path ns) st c nl)"
  by (simp_all add: write_directory_def write_leaf_def write_entry_not_blank
      split: leaf_content.splits regular_file.splits)

lemma upt_split:
  assumes "xs @ ys = [a..<a + length (xs @ ys)]"
  shows "xs = [a..<a + length xs]" "ys = [a + length xs..<a + length xs + length ys]"
proof -
  have "[a..<a + length (xs @ ys)] = [a..<a + length xs] @ [a + length xs..<a + length xs + length ys]"
    by (metis add.assoc le_add1 length_append upt_add_eq_append)
  with assms have "xs @ ys = [a..<a + length xs] @ [a + length xs..<a + length xs + length ys]" by simp
  then show "xs = [a..<a + length xs]" "ys = [a + length xs..<a + length xs + length ys]"
    by (simp_all add: append_eq_append_conv)
qed

abbreviation entries_refs :: "(bytes \<times> inode) list \<Rightarrow> rc list" where
  "entries_refs es \<equiv> concat (map (\<lambda>e. inode_refs (snd e)) es)"

lemma abs_canonical: "\<forall>n \<in> set ns. valid_name n \<Longrightarrow> canonical_path (abs_path ns)"
  by (auto simp: canonical_path_iff)

lemma insert_last:
  assumes "bt_wf (acc @ (n, j) # es)"
  shows "insert n i (Directory st acc) = Directory st (acc @ [(n, i)])" "\<forall>x \<in> fst ` set acc. x < n" "bt_wf acc"
  using assms by (auto simp: bt_wf_append insert_def set_entries_def intro!: bt_insert_append)

text \<open>Reading the lines of some entries appends the entries to their directory and their leaves to
  the heap.\<close>

definition reads :: "hex_crate \<Rightarrow> hash_alg \<Rightarrow> regular_file leaf list \<Rightarrow> bytes list \<Rightarrow> (bytes \<times> inode) list \<Rightarrow> bool" where
  "reads hx H h ns es \<longleftrightarrow> (\<forall>put st acc fs hl.
     holds ns put \<and> bt_wf (acc @ es) \<and> root fs = put (Directory st acc) \<and>
     entries_refs es = [length (heap fs)..<length (heap fs) + length (entries_refs es)] \<longrightarrow>
     (\<exists>hl'. rfold (add_line hx H) (fs, hl) (entries_lines hx h ns es) =
        Inr (fs\<lparr>root := put (Directory st (acc @ es)), heap := heap fs @ map ((!) h) (entries_refs es)\<rparr>, hl')))"

lemma readsD:
  "reads hx H h ns es \<Longrightarrow> holds ns put \<Longrightarrow> bt_wf (acc @ es) \<Longrightarrow> root fs = put (Directory st acc) \<Longrightarrow>
     entries_refs es = [length (heap fs)..<length (heap fs) + length (entries_refs es)] \<Longrightarrow>
     \<exists>hl'. rfold (add_line hx H) (fs, hl) (entries_lines hx h ns es) =
        Inr (fs\<lparr>root := put (Directory st (acc @ es)), heap := heap fs @ map ((!) h) (entries_refs es)\<rparr>, hl')"
  unfolding reads_def by blast

lemma dir_line_added:
  assumes v: "\<forall>m \<in> set ns. valid_name m" "valid_name n" and d: "dir_ok H h (ns @ [n]) (Directory st es)"
    and p: "holds ns put" "root fs = put dir"
  shows "\<exists>hl'. add_line hx H (fs, hl) (write_directory (abs_path (ns @ [n])) st (dir_nlink (Directory st es))) =
    Inr (fs\<lparr>root := put (insert n (IDirectory (directory_new st)) dir)\<rparr>, hl')"
proof -
  have v': "\<forall>m \<in> set (ns @ [n]). valid_name m" using v by simp
  have o: "path_ok (abs_path (ns @ [n]))" "stat_ok st" "dir_nlink (Directory st es) < 2 ^ 32" using d by auto
  note l = parse_write_directory [OF o(1) abs_canonical [OF v'] o(2,3)]
  let ?e = "entry_of (abs_path (ns @ [n])) st FtDirectory
    (DirectoryItem 0 (of_nat (dir_nlink (Directory st es))))"
  obtain hl' where "add_entry_to_filesystem hx H fs ?e hl =
      Inr (fs\<lparr>root := put (insert n (IDirectory (directory_new st)) dir), heap := heap fs\<rparr>, hl')"
    using add_entry_at [OF p(1) v p(2), of ?e hx H hl] entry_inode_directory [OF o(2), of hx H]
    by auto
  then show ?thesis by (simp add: add_line_def l)
qed

lemma leaf_line_added:
  assumes v: "\<forall>m \<in> set ns. valid_name m" "valid_name n" and hx: "hex_laws hx"
    and d: "inode_ok H h (ns @ [n]) (ILeaf r)" and p: "holds ns put" "root fs = put dir"
  shows "\<exists>hl'. add_line hx H (fs, hl)
      (write_leaf hx (abs_path (ns @ [n])) (leaf_stat (h ! r)) (content (h ! r)) 1) =
    Inr (fs\<lparr>root := put (insert n (ILeaf (length (heap fs))) dir), heap := heap fs @ [h ! r]\<rparr>, hl')"
proof -
  have v': "\<forall>m \<in> set (ns @ [n]). valid_name m" using v by simp
  have o: "path_ok (abs_path (ns @ [n]))" "stat_ok (leaf_stat (h ! r))" "content_ok H (content (h ! r))"
    using d by auto
  have l: "parse_entry (write_leaf hx (abs_path (ns @ [n])) (leaf_stat (h ! r)) (content (h ! r)) 1) =
      Inr (entry_of (abs_path (ns @ [n])) (leaf_stat (h ! r)) (type_of (content (h ! r)))
        (item_of hx (content (h ! r)) 1))"
    using parse_write_leaf [OF hx o(1) abs_canonical [OF v'] o(2,3), of 1] by simp
  have eq: "\<lparr>leaf_stat = leaf_stat (h ! r), content = content (h ! r)\<rparr> = h ! r" by simp
  obtain hl' where "add_entry_to_filesystem hx H fs (entry_of (abs_path (ns @ [n])) (leaf_stat (h ! r))
        (type_of (content (h ! r))) (item_of hx (content (h ! r)) 1)) hl =
      Inr (fs\<lparr>root := put (insert n (ILeaf (length (heap fs))) dir), heap := heap fs @ [h ! r]\<rparr>, hl')"
    using add_entry_at [OF p(1) v p(2) entry_of_sel(1) entry_inode_leaf [OF hx o(2,3)]] eq by metis
  then show ?thesis by (simp add: add_line_def l [unfolded One_nat_def])
qed

lemma reads_entries:
  "hex_laws hx \<Longrightarrow> \<forall>m \<in> set ns. valid_name m \<Longrightarrow> dir_ok H h ns d \<Longrightarrow> reads hx H h ns (entries d)"
  "hex_laws hx \<Longrightarrow> \<forall>m \<in> set ns. valid_name m \<Longrightarrow> entries_ok H h ns es \<Longrightarrow> reads hx H h ns es"
proof (induction hx h ns d and hx h ns es rule: dir_lines_entries_lines.induct)
  case (1 hx h ns st es)
  then show ?case by simp
next
  case (2 hx h ns)
  show ?case unfolding reads_def by simp
next
  case (3 hx h ns n d es)
  obtain st' es' where d: "d = Directory st' es'" by (cases d)
  have v: "valid_name n" and dok: "dir_ok H h (ns @ [n]) d" and eok: "entries_ok H h ns es"
    using "3.prems"(3) by auto
  have v': "\<forall>m \<in> set (ns @ [n]). valid_name m" using v "3.prems"(2) by simp
  have wf': "bt_wf es'" using dok d by simp
  have sub: "reads hx H h (ns @ [n]) es'" using "3.IH"(1) [OF "3.prems"(1) v' dok] d by simp
  have rest: "reads hx H h ns es" using "3.IH"(2) "3.prems" eok by blast
  show ?case unfolding reads_def
  proof (intro allI impI, elim conjE)
    fix put st acc and fs :: "regular_file filesystem" and hl :: link_table
    assume p: "holds ns put" "root fs = put (Directory st acc)" and wf: "bt_wf (acc @ (n, IDirectory d) # es)"
      and rf: "entries_refs ((n, IDirectory d) # es) =
        [length (heap fs)..<length (heap fs) + length (entries_refs ((n, IDirectory d) # es))]"
    have rf': "refs d @ entries_refs es = [length (heap fs)..<length (heap fs) + length (refs d @ entries_refs es)]"
      using rf by simp
    note il = insert_last [OF wf]
    obtain hl1 where a: "add_line hx H (fs, hl)
        (write_directory (abs_path (ns @ [n])) st' (dir_nlink (Directory st' es'))) =
        Inr (fs\<lparr>root := put (Directory st (acc @ [(n, IDirectory (Directory st' []))]))\<rparr>, hl1)"
      using dir_line_added [OF "3.prems"(2) v dok [unfolded d] p, of hx hl] il(1)
      by (auto simp: directory_new_def)
    let ?put = "\<lambda>s. put (Directory st (acc @ [(n, IDirectory s)]))"
    have h': "holds (ns @ [n]) ?put" by (rule holds_child [OF p(1) il(3,2)])
    let ?fs1 = "fs\<lparr>root := ?put (Directory st' [])\<rparr>"
    have "entries_refs es' = [length (heap ?fs1)..<length (heap ?fs1) + length (entries_refs es')]"
      using upt_split(1) [OF rf'] d by simp
    then obtain hl2 where b: "rfold (add_line hx H) (?fs1, hl1) (entries_lines hx h (ns @ [n]) es') =
        Inr (?fs1\<lparr>root := ?put (Directory st' es'), heap := heap fs @ map ((!) h) (entries_refs es')\<rparr>, hl2)"
      using readsD [OF sub h', of "[]" ?fs1 st' hl1] wf' by auto
    let ?fs2 = "fs\<lparr>root := put (Directory st (acc @ [(n, IDirectory d)])), heap := heap fs @ map ((!) h) (refs d)\<rparr>"
    have "entries_refs es = [length (heap ?fs2)..<length (heap ?fs2) + length (entries_refs es)]"
      using upt_split(2) [OF rf'] by (simp add: add.assoc)
    then obtain hl3 where c: "rfold (add_line hx H) (?fs2, hl2) (entries_lines hx h ns es) =
        Inr (?fs2\<lparr>root := put (Directory st ((acc @ [(n, IDirectory d)]) @ es)),
          heap := heap ?fs2 @ map ((!) h) (entries_refs es)\<rparr>, hl3)"
      using readsD [OF rest p(1), of "acc @ [(n, IDirectory d)]" ?fs2 st hl2] wf by auto
    show "\<exists>hl'. rfold (add_line hx H) (fs, hl) (entries_lines hx h ns ((n, IDirectory d) # es)) =
        Inr (fs\<lparr>root := put (Directory st (acc @ (n, IDirectory d) # es)),
          heap := heap fs @ map ((!) h) (entries_refs ((n, IDirectory d) # es))\<rparr>, hl')"
      using a b c d by (auto simp: rfold_append)
  qed
next
  case (4 hx h ns n r es)
  have v: "valid_name n" and lok: "inode_ok H h (ns @ [n]) (ILeaf r)" and eok: "entries_ok H h ns es"
    using "4.prems"(3) by auto
  have rest: "reads hx H h ns es" using "4.IH" "4.prems" eok by blast
  show ?case unfolding reads_def
  proof (intro allI impI, elim conjE)
    fix put st acc and fs :: "regular_file filesystem" and hl :: link_table
    assume p: "holds ns put" "root fs = put (Directory st acc)" and wf: "bt_wf (acc @ (n, ILeaf r) # es)"
      and rf: "entries_refs ((n, ILeaf r) # es) =
        [length (heap fs)..<length (heap fs) + length (entries_refs ((n, ILeaf r) # es))]"
    have rf': "[r] @ entries_refs es = [length (heap fs)..<length (heap fs) + length ([r] @ entries_refs es)]"
      using rf by simp
    have r: "r = length (heap fs)" using upt_split(1) [OF rf'] by simp
    obtain hl1 where a: "add_line hx H (fs, hl)
        (write_leaf hx (abs_path (ns @ [n])) (leaf_stat (h ! r)) (content (h ! r)) 1) =
        Inr (fs\<lparr>root := put (Directory st (acc @ [(n, ILeaf r)])), heap := heap fs @ [h ! r]\<rparr>, hl1)"
      using leaf_line_added [OF "4.prems"(2) v "4.prems"(1) lok p, of hl] insert_last(1) [OF wf] r by auto
    let ?fs1 = "fs\<lparr>root := put (Directory st (acc @ [(n, ILeaf r)])), heap := heap fs @ [h ! r]\<rparr>"
    have "entries_refs es = [length (heap ?fs1)..<length (heap ?fs1) + length (entries_refs es)]"
      using upt_split(2) [OF rf'] by simp
    then obtain hl2 where b: "rfold (add_line hx H) (?fs1, hl1) (entries_lines hx h ns es) =
        Inr (?fs1\<lparr>root := put (Directory st ((acc @ [(n, ILeaf r)]) @ es)),
          heap := heap ?fs1 @ map ((!) h) (entries_refs es)\<rparr>, hl2)"
      using readsD [OF rest p(1), of "acc @ [(n, ILeaf r)]" ?fs1 st hl1] wf by auto
    show "\<exists>hl'. rfold (add_line hx H) (fs, hl) (entries_lines hx h ns ((n, ILeaf r) # es)) =
        Inr (fs\<lparr>root := put (Directory st (acc @ (n, ILeaf r) # es)),
          heap := heap fs @ map ((!) h) (entries_refs ((n, ILeaf r) # es))\<rparr>, hl')"
      using a b by simp
  qed
qed

lemma lines_text_of:
  assumes "\<forall>l \<in> set ls. CHR 0x0A \<notin> set l \<and> CHR 0x0D \<notin> set l"
  shows "lines (text_of ls) = ls"
proof -
  have "split_char CHR 0x0A (text_of ls) = ls @ [[]]"
    using assms by (induction ls) (simp_all add: split_char_append)
  moreover have "map strip_cr ls = ls"
  proof (rule map_idI)
    fix l assume "l \<in> set ls"
    then have "\<not> (l \<noteq> [] \<and> last l = CHR 0x0D)" using assms last_in_set [of l] by metis
    then show "strip_cr l = l" unfolding strip_cr_def by (rule if_not_P)
  qed
  ultimately show ?thesis by (simp add: lines_def Let_def)
qed

lemma distinct_count_list: "distinct xs \<Longrightarrow> x \<in> set xs \<Longrightarrow> count_list xs x = 1"
  by (induction xs) (auto simp: count_list_0_iff)

text \<open>A written line holds no control character.\<close>

lemma write_escaped_control: "(of_char x :: nat) < 32 \<Longrightarrow> x \<notin> set (write_escaped b)"
  by (auto simp: write_escaped_def write_empty_def write_escaped_byte_chars)

lemma show_dec_control:
  "(of_char x :: nat) < 32 \<Longrightarrow> x \<notin> set (show_dec n)" "(of_char x :: nat) < 32 \<Longrightarrow> x \<notin> set (show_oct n)"
  using show_radix_no [of 10 x n] show_radix_no [of 8 x n] by simp_all

lemma show_i64_control: "(of_char x :: nat) < 32 \<Longrightarrow> x \<notin> set (show_i64 w)"
  by (auto simp: show_i64_def show_dec_control)

lemma write_entry_control:
  assumes x: "(of_char x :: nat) < 32" and d: "\<forall>oid. dig = Some oid \<longrightarrow> x \<notin> set oid"
  shows "x \<notin> set (write_entry path st t sz nl rdev p c dig)"
proof -
  have ne: "x \<noteq> SPACE" "x \<noteq> CHR ''=''" "x \<noteq> CHR ''.''" "x \<noteq> CHR ''0''" "x \<noteq> CHR ''-''"
    using x by auto
  have xa: "x \<notin> set (concat (map write_xattr xs))" for xs
    using x ne by (auto simp: write_xattr_def write_escaped_control)
  show ?thesis
    using x d ne xa by (auto simp: write_entry_def Let_def write_escaped_control show_dec_control show_i64_control
        write_empty_def split: option.splits)
qed

lemma line_control:
  assumes "(of_char x :: nat) < 32"
  shows "x \<notin> set (write_directory path st nl)"
    "hex_laws hx \<Longrightarrow> content_ok H c \<Longrightarrow> x \<notin> set (write_leaf hx path st c nl)"
proof -
  show "x \<notin> set (write_directory path st nl)"
    using assms by (simp add: write_directory_def write_entry_control)
  assume hx: "hex_laws hx" and c: "content_ok H c"
  have "x \<notin> set (to_hex hx oid)" if "1 \<le> length oid" for oid
    using to_hex_clean(2) [OF hx that, of x] assms by simp
  then show "x \<notin> set (write_leaf hx path st c nl)"
    using assms c by (auto simp: write_leaf_def write_entry_control content_ok_def
        split: leaf_content.splits regular_file.splits)
qed

lemma dir_lines_control:
  "hex_laws hx \<Longrightarrow> dir_ok H h ns d \<Longrightarrow> l \<in> set (dir_lines hx h ns d) \<Longrightarrow> (of_char x :: nat) < 32 \<Longrightarrow> x \<notin> set l"
  "hex_laws hx \<Longrightarrow> entries_ok H h ns es \<Longrightarrow> l \<in> set (entries_lines hx h ns es) \<Longrightarrow> (of_char x :: nat) < 32 \<Longrightarrow> x \<notin> set l"
proof (induction hx h ns d and hx h ns es rule: dir_lines_entries_lines.induct)
  case (1 hx h ns st es)
  then show ?case by (auto simp: line_control)
next
  case (4 hx h ns n r es)
  then have "content_ok H (content (h ! r))" by simp
  with 4 show ?case by (auto simp: line_control(2))
qed auto

text \<open> C1: A tree that is written as a dump file is read back as the same tree: every directory,
  name, stat, attribute, device number, symlink target, inline content and object reference, with
  the leaves in the order of the walk. The tree may hold any bytes in its names and values; what
  the format cannot hold (hardlinks, sockets, negative times, empty attribute values, and a
  single dash as content or target) is excluded by \<open>dir_ok\<close> and by the pointers being distinct. \<close>

theorem dumpfile_roundtrip:
  assumes hx: "hex_laws hx" and ok: "dir_ok H (heap fs) [] (root fs)"
    and rf: "refs (root fs) = [0..<length (heap fs)]"
  shows "dumpfile_to_filesystem hx H (write_dumpfile hx fs) = Inr fs"
proof -
  obtain st es where r: "root fs = Directory st es" by (cases "root fs")
  have one: "\<forall>q \<in> set (refs (root fs)). strong_count (root fs) q = 1"
    by (simp add: strong_count_def rf distinct_count_list)
  have root: "abs_path [] = ''/''" by (simp add: abs_path_def)
  have "write_dumpfile hx fs = text_of (dir_lines hx (heap fs) [] (root fs))"
    using write_dir_lines(1) [of "[]" H "heap fs" "root fs" "strong_count (root fs)" hx "\<lambda>_. None"] ok one
    by (simp add: write_dumpfile_def root)
  moreover have "lines (text_of (dir_lines hx (heap fs) [] (root fs))) = dir_lines hx (heap fs) [] (root fs)"
    using dir_lines_control(1) [OF hx ok] by (intro lines_text_of) auto
  moreover have "dir_lines hx (heap fs) [] (root fs) =
      write_directory (abs_path []) st (dir_nlink (root fs)) # entries_lines hx (heap fs) [] es"
    using r by simp
  moreover have "parse_entry (write_directory (abs_path []) st (dir_nlink (root fs))) =
      Inr (entry_of (abs_path []) st FtDirectory (DirectoryItem 0 (of_nat (dir_nlink (root fs)))))"
    using ok r by (intro parse_write_directory) (simp_all add: abs_canonical)
  moreover have "entry_to_stat (entry_of (abs_path []) st FtDirectory it) = st" for it
    using ok r by (intro entry_to_stat_entry_of) simp_all
  moreover have "reads hx H (heap fs) [] es"
    using reads_entries(1) [OF hx, of "[]" H "heap fs" "root fs"] ok r by simp
  then obtain hl' where "rfold (add_line hx H) (filesystem_new st, \<lambda>_. None) (entries_lines hx (heap fs) [] es) =
      Inr ((filesystem_new st)\<lparr>root := Directory st es, heap := map ((!) (heap fs)) [0..<length (heap fs)]\<rparr>, hl')"
    using readsD [of hx H "heap fs" "[]" es "\<lambda>d. d" "[]" "filesystem_new st" st "\<lambda>_. None"] ok r rf
    by (auto simp: filesystem_new_def directory_new_def)
  moreover have "\<not> blank_line (write_directory (abs_path []) st (dir_nlink (root fs)))" by simp
  moreover have "fs = \<lparr>root = Directory st es, heap = heap fs\<rparr>" using r by (cases fs) simp
  ultimately show ?thesis
    using r by (simp add: dumpfile_to_filesystem_def path_eq_def root map_nth filesystem_new_def)
qed

text \<open>A tree with a directory, an inline file with odd names and a symlink.\<close>

definition example_fs :: "regular_file filesystem" where
  "example_fs = \<lparr>root = Directory example_stat
      [(''a b'', ILeaf 0), (''d'', IDirectory (Directory example_stat [(''x='', ILeaf 1)]))],
     heap = [\<lparr>leaf_stat = example_stat, content = Regular (Inline [CHR 0x0A])\<rparr>,
             \<lparr>leaf_stat = example_stat, content = Symlink ''../a b''\<rparr>]\<rparr>"

lemma dumpfile_roundtrip_witness:
  "dumpfile_to_filesystem hex_codec (Sha256HashValue rev) (write_dumpfile hex_codec example_fs) = Inr example_fs"
proof (rule dumpfile_roundtrip [OF hex_laws_hex_codec])
  show "dir_ok (Sha256HashValue rev) (heap example_fs) [] (root example_fs)"
    using example_stat_ok
    by (simp add: example_fs_def dir_nlink_def path_ok_def abs_path_def PATH_MAX_def valid_name_def
        content_ok_def MAX_INLINE_CONTENT_def less_list_code)
  show "refs (root example_fs) = [0..<length (heap example_fs)]"
    by (simp add: example_fs_def upt_rec)
qed

section \<open>What does not read back\<close>

text \<open> C21: The line that is written for a hardlink never parses: its link count is a dash, which
  the parser reads as a number. Every dump file with a hardlink is rejected. \<close>

theorem write_hardlink_unparsable:
  assumes "path_ok path" and "canonical_path path"
  shows "parse_entry (write_hardlink path target) = Inl (IntError InvalidDigit)"
proof -
  have "split_char SPACE (write_hardlink path target) =
      write_escaped path # split_char SPACE (''0 @120000 - - - - 0.0 '' @ write_escaped target @ '' - -'')"
    unfolding write_hardlink_def by (simp add: split_char_append del: split_char.simps)
  also have "split_char SPACE (''0 @120000 - - - - 0.0 '' @ write_escaped target @ '' - -'') =
      [''0'', ''@120000'', DASH, DASH, DASH, DASH, ''0.0'', write_escaped target, DASH, DASH]"
    using split_char_append [of SPACE "write_escaped target" "''- -''"] by simp
  finally have f: "split_char SPACE (write_hardlink path target) =
      write_escaped path # [''0'', ''@120000'', DASH, DASH, DASH, DASH, ''0.0'', write_escaped target, DASH, DASH]" .
  have n: "parse_u64 ''0'' = Inr 0" "parse_u32 DASH = Inl (IntError InvalidDigit)"
    by (simp_all add: parse_u64_def parse_u32_def parse_radix_def to_digit_def)
  have m: "parse_mode ''@120000'' = Inr (True, 0xA000)"
    by (simp add: parse_mode_def split_once_def parse_octal_u32_def parse_radix_def to_digit_def)
  show ?thesis
    by (simp add: parse_entry_def f next_field_def canonical_write_escaped [OF assms] n m)
qed

lemma write_hardlink_unparsable_witness:
  "parse_entry (write_hardlink ''/b'' ''/a'') = Inl (IntError InvalidDigit)"
  by (rule write_hardlink_unparsable)
    (simp_all add: path_ok_def PATH_MAX_def canonical_path_def valid_name_def)

text \<open> A file whose content is a single dash is written with an unescaped dash, which means "no
  content": it is read back as an empty file. \<close>

theorem dash_content_lost:
  assumes "path_ok path" and "canonical_path path" and "stat_ok st" and "nlink < 2 ^ 32"
  shows "parse_entry (write_leaf hx path st (Regular (Inline DASH)) nlink) =
    Inr (entry_of path st FtRegular (RegularInline (of_nat nlink) []))"
proof -
  have e: "write_escaped DASH = DASH" by (simp add: write_escaped_def write_escaped_byte_def)
  have i: "parse_item False (or (st_mode st) (as_raw_mode FtRegular)) 1 (of_nat nlink) 0
      (optional_str (write_escaped [])) (optional_str (write_escaped DASH)) None =
      Inr (RegularInline (of_nat nlink) [])"
    by (simp add: parse_item_def mode_bits(1) [OF stat_ok_mode [OF assms(3)]] check_rdev_def e
        unescape_limited_Nil)
  show ?thesis using parse_write_entry [OF assms _ i]
    by (simp add: write_leaf_def entry_of_def)
qed

lemma dash_content_lost_witness:
  "parse_entry (write_leaf hex_codec ''/f'' example_stat (Regular (Inline DASH)) 1) =
     Inr (entry_of ''/f'' example_stat FtRegular (RegularInline 1 []))"
  using dash_content_lost [OF _ _ example_stat_ok, of "''/f''" 1 hex_codec]
  by (simp add: path_ok_def PATH_MAX_def canonical_path_def valid_name_def)

end
