(* ===== verification/Boot_Cmdline.thy ===== *)
theory Boot_Cmdline
  imports Hash_Value "HOL-Library.Code_Target_Nat"
begin

text \<open>
  Models \<open>crates/composefs-boot/src/cmdline.rs\<close> and the entry files of
  \<open>crates/composefs-boot/src/bootloader.rs\<close>: splitting a kernel command line, reading and writing its
  \<open>composefs=\<close> argument, and editing the \<open>options\<close> line of a boot loader entry. A string is its UTF-8 bytes.
\<close>

section \<open>Command lines\<close>

definition QUOTE :: byte where "QUOTE = CHR 0x22"

fun split_quoted :: "bool \<Rightarrow> bytes \<Rightarrow> bytes list" where
  "split_quoted in_quotes [] = [[]]"
| "split_quoted in_quotes (c # cs) = (let q = (if c = QUOTE then \<not> in_quotes else in_quotes) in
     if \<not> q \<and> is_ascii_whitespace c then [] # split_quoted q cs
     else (case split_quoted q cs of [] \<Rightarrow> [[c]] | p # ps \<Rightarrow> (c # p) # ps))"

definition split_cmdline :: "bytes \<Rightarrow> bytes list" where
  "split_cmdline cmdline = split_quoted False cmdline"

fun find_map :: "('a \<Rightarrow> 'b option) \<Rightarrow> 'a list \<Rightarrow> 'b option" where
  "find_map f [] = None"
| "find_map f (x # xs) = (case f x of Some y \<Rightarrow> Some y | None \<Rightarrow> find_map f xs)"

definition get_cmdline_value :: "bytes \<Rightarrow> bytes \<Rightarrow> bytes option" where
  "get_cmdline_value cmdline prefx = find_map (strip_prefix prefx) (split_cmdline cmdline)"

datatype cmdline_error = NoComposefs | BadId from_hex_error

definition get_cmdline_composefs :: "hex_crate \<Rightarrow> hash_alg \<Rightarrow> bytes \<Rightarrow> cmdline_error + (bytes \<times> bool)" where
  "get_cmdline_composefs hx H cmdline =
     rbind (ok_or (get_cmdline_value cmdline ''composefs='') NoComposefs) (\<lambda>oid.
       case strip_prefix ''?'' oid of
         Some stripped \<Rightarrow> rbind (map_err BadId (from_hex hx H stripped)) (\<lambda>v. Inr (v, True))
       | None \<Rightarrow> rbind (map_err BadId (from_hex hx H oid)) (\<lambda>v. Inr (v, False)))"

definition make_cmdline_composefs :: "bytes \<Rightarrow> bool \<Rightarrow> bytes" where
  "make_cmdline_composefs oid ins = (if ins then ''composefs=?'' @ oid else ''composefs='' @ oid)"

section \<open>Entry files\<close>

definition strip_ble_key :: "bytes \<Rightarrow> bytes \<Rightarrow> bytes option" where
  "strip_ble_key line key = (case strip_prefix key line of
       None \<Rightarrow> None
     | Some [] \<Rightarrow> None
     | Some (c # rest) \<Rightarrow> if is_ascii_whitespace c then Some (trim_start (c # rest)) else None)"

record boot_entry_file =
  entry_lines :: "bytes list"

definition entry_new :: "bytes \<Rightarrow> boot_entry_file" where
  "entry_new content = \<lparr>entry_lines = split_terminator CHR 0x0A content\<rparr>"

definition get_values :: "boot_entry_file \<Rightarrow> bytes \<Rightarrow> bytes list" where
  "get_values e key = List.map_filter (\<lambda>line. strip_ble_key line key) (entry_lines e)"

definition get_value :: "boot_entry_file \<Rightarrow> bytes \<Rightarrow> bytes option" where
  "get_value e key = find_map (\<lambda>line. strip_ble_key line key) (entry_lines e)"

definition arg_key :: "bytes \<Rightarrow> bytes" where
  "arg_key arg = (if CHR ''='' \<in> set arg then takeWhile (\<lambda>c. c \<noteq> CHR ''='') arg @ ''='' else arg)"

text \<open>
  The slices of the code are positions: the first segment that starts with the key, with its offset in the command
  line. The command line is itself the end of its line, so \<open>substr_range\<close> of the segment is found by adding.
\<close>

fun find_segment :: "(bytes \<Rightarrow> bool) \<Rightarrow> nat \<Rightarrow> bytes list \<Rightarrow> (nat \<times> bytes) option" where
  "find_segment P off [] = None"
| "find_segment P off (s # ss) = (if P s then Some (off, s) else find_segment P (off + length s + 1) ss)"

definition replace_range :: "bytes \<Rightarrow> nat \<Rightarrow> nat \<Rightarrow> bytes \<Rightarrow> bytes" where
  "replace_range s a b new = take a s @ new @ drop b s"

definition edit_options :: "bytes \<Rightarrow> bytes \<Rightarrow> bytes \<Rightarrow> bytes \<Rightarrow> bytes" where
  "edit_options key arg line cmdline = (case find_segment (starts_with key) 0 (split_cmdline cmdline) of
       Some (off, old) \<Rightarrow> (let start = length line - length cmdline + off in replace_range line start (start + length old) arg)
     | None \<Rightarrow> line @ '' '' @ arg)"

fun edit_lines :: "bytes \<Rightarrow> bytes \<Rightarrow> bytes list \<Rightarrow> bytes list option" where
  "edit_lines key arg [] = None"
| "edit_lines key arg (line # ls) = (case strip_ble_key line ''options'' of
       Some cmdline \<Rightarrow> Some (edit_options key arg line cmdline # ls)
     | None \<Rightarrow> map_option (Cons line) (edit_lines key arg ls))"

definition add_cmdline :: "boot_entry_file \<Rightarrow> bytes \<Rightarrow> boot_entry_file" where
  "add_cmdline e arg = e\<lparr>entry_lines := (case edit_lines (arg_key arg) arg (entry_lines e) of
       Some ls \<Rightarrow> ls
     | None \<Rightarrow> entry_lines e @ [''options '' @ arg])\<rparr>"

definition adjust_cmdline :: "boot_entry_file \<Rightarrow> bytes option \<Rightarrow> bool \<Rightarrow> bytes list \<Rightarrow> boot_entry_file" where
  "adjust_cmdline e composefs ins extra = (let e1 = (case composefs of
       Some oid \<Rightarrow> add_cmdline e (make_cmdline_composefs oid ins) | None \<Rightarrow> e) in fold (\<lambda>item e. add_cmdline e item) extra e1)"

section \<open>Splitting\<close>

abbreviation ws :: "byte \<Rightarrow> bool" where "ws \<equiv> is_ascii_whitespace"

fun in_quotes_after :: "bool \<Rightarrow> bytes \<Rightarrow> bool" where
  "in_quotes_after q [] = q"
| "in_quotes_after q (c # cs) = in_quotes_after (if c = QUOTE then \<not> q else q) cs"

lemma split_quoted_not_Nil [simp]: "split_quoted q s \<noteq> []"
  by (cases s) (auto simp: Let_def split: list.splits)

lemma quote_not_ws [simp]: "\<not> ws QUOTE"
  by (simp add: QUOTE_def is_ascii_whitespace_def)

lemma split_quoted_append:
  "ws w \<Longrightarrow> \<not> in_quotes_after q s \<Longrightarrow> split_quoted q (s @ w # t) = split_quoted q s @ split_quoted False t"
proof (induction s arbitrary: q)
  case Nil
  then have "w \<noteq> QUOTE" by auto
  then show ?case using Nil by simp
next
  case (Cons c s)
  define r where "r = (if c = QUOTE then \<not> q else q)"
  have step: "split_quoted q (c # x) = (if \<not> r \<and> ws c then [] # split_quoted r x
      else (case split_quoted r x of [] \<Rightarrow> [[c]] | p # ps \<Rightarrow> (c # p) # ps))" for x
    by (simp only: split_quoted.simps Let_def r_def)
  have "split_quoted r (s @ w # t) = split_quoted r s @ split_quoted False t" using Cons by (simp add: r_def)
  moreover obtain p ps where "split_quoted r s = p # ps" by (cases "split_quoted r s") auto
  ultimately show ?case unfolding append_Cons step
    by (cases "\<not> r \<and> ws c") (simp_all only: if_True if_False append_Cons list.case simp_thms)
qed

lemma split_quoted_first:
  "split_quoted q s = old # rest \<Longrightarrow> (s = old \<and> rest = []) \<or>
    (\<exists>w t. ws w \<and> s = old @ w # t \<and> rest = split_quoted False t \<and> \<not> in_quotes_after q old)"
proof (induction s arbitrary: q old rest)
  case (Cons c s)
  let ?q = "if c = QUOTE then \<not> q else q"
  show ?case
  proof (cases "\<not> ?q \<and> ws c")
    case True
    then show ?thesis using Cons.prems by (auto simp: Let_def split: if_splits)
  next
    case False
    obtain p ps where p: "split_quoted ?q s = p # ps" by (cases "split_quoted ?q s") auto
    then have o: "old = c # p" "rest = ps" using Cons.prems False by (auto simp: Let_def split: if_splits)
    show ?thesis using Cons.IH [OF p] by (auto simp: o)
  qed
qed simp

definition plain_arg :: "bytes \<Rightarrow> bool" where
  "plain_arg arg \<longleftrightarrow> arg \<noteq> [] \<and> (\<forall>c \<in> set arg. \<not> ws c \<and> c \<noteq> QUOTE \<and> of_char c < (128 :: nat) \<and> of_char c \<noteq> (11 :: nat))"

lemma plain_arg_split: "(\<forall>c \<in> set a. \<not> ws c \<and> c \<noteq> QUOTE) \<Longrightarrow> split_quoted False a = [a] \<and> \<not> in_quotes_after False a"
  by (induction a) (auto simp: Let_def)

lemma replace_segment:
  assumes "find_segment P n (split_quoted False s) = Some (off, old)" "plain_arg arg"
  shows "n \<le> off \<and> (\<exists>as bs. split_quoted False s = as @ old # bs \<and> (\<forall>a \<in> set as. \<not> P a) \<and> P old \<and>
    off - n + length old \<le> length s \<and>
    split_quoted False (replace_range s (off - n) (off - n + length old) arg) = as @ arg # bs \<and>
    in_quotes_after False (replace_range s (off - n) (off - n + length old) arg) = (bs \<noteq> [] \<and> in_quotes_after False s) \<and>
    (as = [] \<longrightarrow> off = n))"
  using assms
proof (induction "length s" arbitrary: s n rule: less_induct)
  case less
  obtain p ps where p: "split_quoted False s = p # ps" by (cases "split_quoted False s") auto
  note a = plain_arg_split [of arg]
  have arg: "split_quoted False arg = [arg]" "\<not> in_quotes_after False arg" using a less.prems(2) by (auto simp: plain_arg_def)
  have app: "in_quotes_after q (x @ y) = in_quotes_after (in_quotes_after q x) y" for q x y
    by (induction x arbitrary: q) auto
  show ?case
  proof (cases "P p")
    case True
    then have o: "off = n" "old = p" using less.prems(1) p by auto
    from split_quoted_first [OF p] show ?thesis
    proof (elim disjE exE conjE)
      assume "s = p" "ps = []"
      then show ?thesis using True arg o p by (intro conjI exI [of _ "[]"]) (simp_all add: replace_range_def)
    next
      fix w t assume w: "ws w" "s = p @ w # t" "ps = split_quoted False t" "\<not> in_quotes_after False p"
      then have "w \<noteq> QUOTE" by auto
      then have "in_quotes_after False (arg @ w # t) = in_quotes_after False s" using arg w by (simp add: app)
      moreover have "ps \<noteq> []" using w(3) by simp
      ultimately show ?thesis using True arg o p w(2,3) split_quoted_append [OF w(1) arg(2), of t]
        by (intro conjI exI [of _ "[]"] exI [of _ ps]) (simp_all add: replace_range_def)
    qed
  next
    case False
    then have f: "find_segment P (n + length p + 1) ps = Some (off, old)" using less.prems(1) p by simp
    from split_quoted_first [OF p] obtain w t where w: "ws w" "s = p @ w # t" "ps = split_quoted False t" "\<not> in_quotes_after False p"
      using f by auto
    have wq: "w \<noteq> QUOTE" using w(1) by auto
    have "length t < length s" using w(2) by simp
    note ih = less.hyps [OF this f [unfolded w(3)] less.prems(2)]
    let ?o = "off - (n + length p + 1)"
    obtain as bs where n: "n + length p + 1 \<le> off" and ab: "split_quoted False t = as @ old # bs" "\<forall>a \<in> set as. \<not> P a" "P old"
      "?o + length old \<le> length t"
      "split_quoted False (replace_range t ?o (?o + length old) arg) = as @ arg # bs"
      "in_quotes_after False (replace_range t ?o (?o + length old) arg) = (bs \<noteq> [] \<and> in_quotes_after False t)"
      using ih by blast
    have r: "replace_range s (off - n) (off - n + length old) arg = p @ w # replace_range t ?o (?o + length old) arg"
    proof -
      obtain k where "off = n + length p + 1 + k" using n nat_le_iff_add by blast
      then show ?thesis by (simp add: replace_range_def w(2))
    qed
    have "split_quoted False (replace_range s (off - n) (off - n + length old) arg) = (p # as) @ arg # bs"
    proof -
      have "split_quoted False p = [p]"
      proof -
        have "split_quoted False s = split_quoted False p @ split_quoted False t"
          unfolding w(2) by (rule split_quoted_append [OF w(1,4)])
        then show ?thesis using p w(3) by (cases "split_quoted False p") auto
      qed
      then show ?thesis unfolding r using split_quoted_append [OF w(1,4)] ab(5) by simp
    qed
    moreover have "split_quoted False s = (p # as) @ old # bs" using p w(3) ab(1) by simp
    moreover have "in_quotes_after False (replace_range s (off - n) (off - n + length old) arg) = (bs \<noteq> [] \<and> in_quotes_after False s)"
      unfolding r using w wq ab(6) by (simp add: app)
    moreover have "off - n + length old \<le> length s" using n ab(4) w(2) by simp
    ultimately show ?thesis using n ab(2,3) False by (intro conjI exI [of _ "p # as"] exI [of _ bs]) auto
  qed
qed

section \<open>The options line of an entry\<close>

definition key_line :: "bytes \<Rightarrow> bytes \<Rightarrow> bytes \<Rightarrow> bool" where
  "key_line key line v \<longleftrightarrow> (\<exists>b. line = key @ b @ v \<and> b \<noteq> [] \<and> ws (hd b) \<and> (\<forall>c \<in> set b. is_whitespace [c]) \<and>
     (v \<noteq> [] \<longrightarrow> \<not> is_whitespace [hd v]))"

lemma ws_whitespace: "ws c \<Longrightarrow> is_whitespace [c]"
  by (auto simp: is_ascii_whitespace_def is_whitespace_def code_point_def)

lemma whitespace_ascii: "of_char c < (128 :: nat) \<Longrightarrow> is_whitespace [c] \<longleftrightarrow> ws c \<or> of_char c = (11 :: nat)"
  unfolding is_whitespace_def code_point_def is_ascii_whitespace_def Let_def list.case insert_iff empty_iff by presburger

lemma trim_start_ascii: "is_ascii s \<Longrightarrow> trim_start s = dropWhile (\<lambda>c. is_whitespace [c]) s"
  by (simp add: trim_start_def utf8_chars_ascii dropWhile_map comp_def concat_map_singleton)

lemma strip_ble_key_iff:
  assumes "is_ascii line"
  shows "strip_ble_key line key = Some v \<longleftrightarrow> key_line key line v"
proof
  assume s: "strip_ble_key line key = Some v"
  then obtain c r where l: "line = key @ c # r" "ws c" "v = trim_start (c # r)"
    by (auto simp: strip_ble_key_def strip_prefix_Some_iff split: option.splits list.splits if_splits)
  let ?W = "\<lambda>c. is_whitespace [c]"
  have v: "v = dropWhile ?W (c # r)" using l assms by (simp add: trim_start_ascii)
  have "line = key @ takeWhile ?W (c # r) @ v" using l(1) v by (simp only: takeWhile_dropWhile_id)
  moreover have "takeWhile ?W (c # r) \<noteq> []" "ws (hd (takeWhile ?W (c # r)))" using ws_whitespace [OF l(2)] l(2) by simp_all
  moreover have "\<forall>c \<in> set (takeWhile ?W (c # r)). ?W c" by (auto dest: set_takeWhileD)
  moreover have "v \<noteq> [] \<longrightarrow> \<not> ?W (hd v)" using v hd_dropWhile [of ?W "c # r"] by auto
  ultimately show "key_line key line v" unfolding key_line_def by blast
next
  assume "key_line key line v"
  then obtain b where b: "line = key @ b @ v" "b \<noteq> []" "ws (hd b)" "\<forall>c \<in> set b. is_whitespace [c]"
    "v \<noteq> [] \<longrightarrow> \<not> is_whitespace [hd v]" by (auto simp: key_line_def)
  have "dropWhile (\<lambda>c. is_whitespace [c]) (b @ v) = v"
  proof -
    have "dropWhile (\<lambda>c. is_whitespace [c]) (b @ v) = dropWhile (\<lambda>c. is_whitespace [c]) v" using b(4) by (simp add: dropWhile_append2)
    also have "\<dots> = v" using b(5) by (cases v) auto
    finally show ?thesis .
  qed
  moreover have "is_ascii (b @ v)" using assms b(1) by simp
  moreover obtain c r where "b = c # r" using b(2) by (cases b) auto
  ultimately show "strip_ble_key line key = Some v" using b(1,3)
    by (auto simp: strip_ble_key_def strip_prefix_Some_iff trim_start_ascii split: option.splits)
qed

text \<open>The arguments of a command line, and setting one of them.\<close>

definition arguments :: "bytes \<Rightarrow> bytes list" where
  "arguments cmdline = filter (\<lambda>a. a \<noteq> []) (split_cmdline cmdline)"

fun set_argument :: "bytes \<Rightarrow> bytes \<Rightarrow> bytes list \<Rightarrow> bytes list" where
  "set_argument key arg [] = [arg]"
| "set_argument key arg (a # as) = (if starts_with key a then arg # as else a # set_argument key arg as)"

lemma set_argument_first:
  "\<forall>a \<in> set as. \<not> starts_with key a \<Longrightarrow> starts_with key old \<Longrightarrow> set_argument key arg (as @ old # bs) = as @ arg # bs"
  by (induction as) auto

lemma set_argument_new: "\<forall>a \<in> set as. \<not> starts_with key a \<Longrightarrow> set_argument key arg as = as @ [arg]"
  by (induction as) auto

lemma find_segment_None: "find_segment P n ss = None \<longleftrightarrow> (\<forall>s \<in> set ss. \<not> P s)"
  by (induction ss arbitrary: n) auto

definition options_ok :: "bytes \<Rightarrow> bool" where
  "options_ok v \<longleftrightarrow> \<not> in_quotes_after False v"

lemma plain_arg_simps:
  assumes "plain_arg arg"
  shows "arg \<noteq> []" "is_ascii arg" "\<not> is_whitespace [hd arg]" "split_quoted False arg = [arg]" "\<not> in_quotes_after False arg"
proof -
  show "arg \<noteq> []" "is_ascii arg" using assms by (simp_all add: plain_arg_def is_ascii_def)
  then have "hd arg \<in> set arg" by simp
  then show "\<not> is_whitespace [hd arg]" using assms whitespace_ascii [of "hd arg"] unfolding plain_arg_def by blast
  show "split_quoted False arg = [arg]" "\<not> in_quotes_after False arg"
    using plain_arg_split [of arg] assms by (auto simp: plain_arg_def)
qed

lemma arg_key_prefix: "arg \<noteq> [] \<Longrightarrow> arg_key arg \<noteq> [] \<and> starts_with (arg_key arg) arg"
proof -
  assume "arg \<noteq> []"
  have "starts_with (takeWhile (\<lambda>c. c \<noteq> CHR ''='') arg @ ''='') arg" if eq: "CHR ''='' \<in> set arg"
  proof -
    obtain ys zs where y: "arg = ys @ CHR ''='' # zs" "CHR ''='' \<notin> set ys" using split_list_first [OF eq] by blast
    then have "takeWhile (\<lambda>c. c \<noteq> CHR ''='') arg = ys" by (auto simp: takeWhile_append)
    then show ?thesis using y(1) starts_with_append [of "ys @ ''=''" zs] by simp
  qed
  then show ?thesis using \<open>arg \<noteq> []\<close> starts_with_append [of arg "[]"] by (simp add: arg_key_def)
qed

lemma replace_range_append: "replace_range (p @ v) (length p + a) (length p + b) new = p @ replace_range v a b new"
  by (simp add: replace_range_def)

lemma edit_options_arguments:
  assumes line: "is_ascii line" "key_line ''options'' line v" "options_ok v" and arg: "plain_arg arg"
  shows "\<exists>v'. key_line ''options'' (edit_options (arg_key arg) arg line v) v' \<and> options_ok v' \<and>
    is_ascii (edit_options (arg_key arg) arg line v) \<and> arguments v' = set_argument (arg_key arg) arg (arguments v)"
proof -
  note a = plain_arg_simps [OF arg]
  let ?k = "arg_key arg"
  have k: "\<not> starts_with ?k []" using arg_key_prefix [OF a(1)] by (auto simp: starts_with_def)
  obtain b where b: "line = ''options'' @ b @ v" "b \<noteq> []" "ws (hd b)" "\<forall>c \<in> set b. is_whitespace [c]"
    "v \<noteq> [] \<longrightarrow> \<not> is_whitespace [hd v]" using line(2) unfolding key_line_def by blast
  have start: "length line - length v = length (''options'' @ b)" using b(1) by simp
  show ?thesis
  proof (cases "find_segment (starts_with ?k) 0 (split_cmdline v)")
    case None
    then have n: "\<forall>s \<in> set (split_quoted False v). \<not> starts_with ?k s" by (simp add: find_segment_None split_cmdline_def)
    have e: "edit_options ?k arg line v = line @ '' '' @ arg" using None by (simp add: edit_options_def)
    have sp: "ws CHR '' ''" by (simp add: is_ascii_whitespace_def)
    let ?v = "if v = [] then arg else v @ CHR '' '' # arg"
    have "split_quoted False (v @ CHR '' '' # arg) = split_quoted False v @ [arg]"
      using split_quoted_append [OF sp, of False v arg] line(3) a(4) by (simp add: options_ok_def)
    then have "arguments ?v = arguments v @ [arg]" using a(1,4) by (simp add: arguments_def split_cmdline_def)
    moreover have "\<forall>s \<in> set (arguments v). \<not> starts_with ?k s" using n by (simp add: arguments_def split_cmdline_def)
    moreover have "key_line ''options'' (line @ '' '' @ arg) ?v"
    proof (cases "v = []")
      case True
      then show ?thesis unfolding key_line_def using b a(3) ws_whitespace [OF sp]
        by (intro exI [of _ "b @ '' ''"]) auto
    next
      case False
      then show ?thesis unfolding key_line_def using b by (intro exI [of _ b]) auto
    qed
    moreover have "options_ok ?v"
    proof -
      have app: "in_quotes_after q (x @ y) = in_quotes_after (in_quotes_after q x) y" for q x y
        by (induction x arbitrary: q) auto
      show ?thesis using a(5) line(3) by (simp add: options_ok_def app) (simp add: QUOTE_def)
    qed
    moreover have "is_ascii (line @ '' '' @ arg)" using line(1) a(2) by simp
    ultimately show ?thesis unfolding e using set_argument_new by (intro exI [of _ ?v]) auto
  next
    case (Some x)
    obtain off old where x: "x = (off, old)" by (cases x)
    let ?v = "replace_range v off (off + length old) arg"
    obtain as bs where r: "split_quoted False v = as @ old # bs" "\<forall>s \<in> set as. \<not> starts_with ?k s" "starts_with ?k old"
      "off + length old \<le> length v" "split_quoted False ?v = as @ arg # bs"
      "in_quotes_after False ?v = (bs \<noteq> [] \<and> in_quotes_after False v)" "as = [] \<longrightarrow> off = 0"
      using replace_segment [OF Some [unfolded x split_cmdline_def] arg] by auto
    have e: "edit_options ?k arg line v = ''options'' @ b @ ?v"
    proof -
      have "line = (''options'' @ b) @ v" using b(1) by simp
      then show ?thesis unfolding edit_options_def Some x option.case prod.case Let_def start
        using replace_range_append [of "''options'' @ b" v off "off + length old" arg] by (simp only: add.assoc append_assoc)
    qed
    have "arguments ?v = set_argument ?k arg (arguments v)"
    proof -
      have "old \<noteq> []" using r(3) k by auto
      then show ?thesis using r(1,3,5) a(1) set_argument_first [of "filter (\<lambda>a. a \<noteq> []) as" ?k old arg] r(2)
        by (simp add: arguments_def split_cmdline_def)
    qed
    moreover have "\<not> is_whitespace [hd ?v]"
    proof (cases "off = 0")
      case True
      then show ?thesis using a(1,3) by (simp add: replace_range_def)
    next
      case False
      then have "v \<noteq> []" using r(4) by auto
      then show ?thesis using False b(5) by (cases v; cases off) (auto simp: replace_range_def)
    qed
    then have "key_line ''options'' (''options'' @ b @ ?v) ?v" unfolding key_line_def using b by blast
    moreover have "options_ok ?v" using r(6) line(3) by (simp add: options_ok_def)
    moreover have "is_ascii (''options'' @ b @ ?v)"
      using line(1) a(2) set_take_subset [of off v] set_drop_subset [of "off + length old" v]
      by (auto simp: b(1) replace_range_def is_ascii_def)
    ultimately show ?thesis unfolding e by blast
  qed
qed

section \<open>Editing an entry\<close>

definition entry_ok :: "boot_entry_file \<Rightarrow> bool" where
  "entry_ok e \<longleftrightarrow> (\<forall>l \<in> set (entry_lines e). is_ascii l) \<and>
     (\<forall>v. get_value e ''options'' = Some v \<longrightarrow> options_ok v)"

definition entry_arguments :: "boot_entry_file \<Rightarrow> bytes list" where
  "entry_arguments e = (case get_value e ''options'' of None \<Rightarrow> [] | Some v \<Rightarrow> arguments v)"

lemma edit_lines_value:
  assumes "\<forall>l \<in> set ls. is_ascii l" "\<forall>v. find_map (\<lambda>l. strip_ble_key l ''options'') ls = Some v \<longrightarrow> options_ok v"
    and arg: "plain_arg arg"
  shows "case find_map (\<lambda>l. strip_ble_key l ''options'') ls of
      None \<Rightarrow> edit_lines (arg_key arg) arg ls = None
    | Some v \<Rightarrow> (\<exists>ls' v'. edit_lines (arg_key arg) arg ls = Some ls' \<and> (\<forall>l \<in> set ls'. is_ascii l) \<and>
        find_map (\<lambda>l. strip_ble_key l ''options'') ls' = Some v' \<and> options_ok v' \<and>
        arguments v' = set_argument (arg_key arg) arg (arguments v))"
  using assms(1,2)
proof (induction ls)
  case (Cons l ls)
  show ?case
  proof (cases "strip_ble_key l ''options''")
    case None
    then show ?thesis using Cons by (fastforce split: option.splits)
  next
    case (Some v)
    have l: "is_ascii l" "key_line ''options'' l v" "options_ok v"
      using Cons.prems Some strip_ble_key_iff [of l "''options''" v] by auto
    obtain v' where v': "key_line ''options'' (edit_options (arg_key arg) arg l v) v'" "options_ok v'"
      "is_ascii (edit_options (arg_key arg) arg l v)" "arguments v' = set_argument (arg_key arg) arg (arguments v)"
      using edit_options_arguments [OF l arg] by blast
    then have "strip_ble_key (edit_options (arg_key arg) arg l v) ''options'' = Some v'" using strip_ble_key_iff by blast
    then show ?thesis using Some v' Cons.prems by simp
  qed
qed simp

lemma add_cmdline_arguments:
  assumes e: "entry_ok e" and arg: "plain_arg arg"
  shows "entry_ok (add_cmdline e arg)" "entry_arguments (add_cmdline e arg) = set_argument (arg_key arg) arg (entry_arguments e)"
proof -
  let ?f = "find_map (\<lambda>l. strip_ble_key l ''options'')"
  note a = plain_arg_simps [OF arg]
  note ed = edit_lines_value [OF _ _ arg, of "entry_lines e"]
  have "entry_ok (add_cmdline e arg) \<and> entry_arguments (add_cmdline e arg) = set_argument (arg_key arg) arg (entry_arguments e)"
  proof (cases "?f (entry_lines e)")
    case None
    then have "edit_lines (arg_key arg) arg (entry_lines e) = None" using ed e by (auto simp: entry_ok_def get_value_def)
    then have ls: "entry_lines (add_cmdline e arg) = entry_lines e @ [''options '' @ arg]" by (simp add: add_cmdline_def)
    have sp: "ws CHR '' ''" by (simp add: is_ascii_whitespace_def)
    have asc: "is_ascii (''options '' @ arg)" using a(2) by simp
    have "key_line ''options'' (''options '' @ arg) arg" unfolding key_line_def
      using a(3) sp ws_whitespace [OF sp] by (intro exI [of _ "'' ''"]) auto
    then have "strip_ble_key (''options '' @ arg) ''options'' = Some arg" using strip_ble_key_iff [OF asc] by blast
    then have "find_map (\<lambda>l. strip_ble_key l ''options'') (ls @ [''options '' @ arg]) = Some arg"
      if "?f ls = None" for ls using that by (induction ls) (auto split: option.splits)
    then have v: "get_value (add_cmdline e arg) ''options'' = Some arg" using None ls by (simp add: get_value_def)
    moreover have "arguments arg = [arg]" using a(1,4) by (simp add: arguments_def split_cmdline_def)
    moreover have "entry_arguments e = []" using None by (simp add: entry_arguments_def get_value_def)
    moreover have "options_ok arg" using a(5) by (simp add: options_ok_def)
    ultimately show ?thesis using e ls asc by (auto simp: entry_ok_def entry_arguments_def)
  next
    case (Some v)
    then obtain ls' v' where "edit_lines (arg_key arg) arg (entry_lines e) = Some ls'" "\<forall>l \<in> set ls'. is_ascii l"
      "?f ls' = Some v'" "options_ok v'" "arguments v' = set_argument (arg_key arg) arg (arguments v)"
      using ed e by (auto simp: entry_ok_def get_value_def)
    then show ?thesis using Some by (simp add: entry_ok_def entry_arguments_def get_value_def add_cmdline_def)
  qed
  then show "entry_ok (add_cmdline e arg)" "entry_arguments (add_cmdline e arg) = set_argument (arg_key arg) arg (entry_arguments e)"
    by auto
qed

lemma add_all_arguments:
  assumes "entry_ok e" "\<forall>x \<in> set extra. plain_arg x"
  shows "entry_arguments (fold (\<lambda>item e. add_cmdline e item) extra e) =
    fold (\<lambda>x. set_argument (arg_key x) x) extra (entry_arguments e)"
  using assms
proof (induction extra arbitrary: e)
  case (Cons x extra)
  then show ?case using add_cmdline_arguments [of e x] by simp
qed simp

section \<open>The composefs argument\<close>

definition first_with :: "bytes \<Rightarrow> bytes list \<Rightarrow> bytes option" where
  "first_with prefx as = find_map (strip_prefix prefx) as"

lemma first_with_arguments: "prefx \<noteq> [] \<Longrightarrow> get_cmdline_value c prefx = first_with prefx (arguments c)"
proof -
  assume "prefx \<noteq> []"
  then have "strip_prefix prefx [] = None" by (auto simp: strip_prefix_def starts_with_def)
  then have "find_map (strip_prefix prefx) ss = find_map (strip_prefix prefx) (filter (\<lambda>a. a \<noteq> []) ss)" for ss
    by (induction ss) (auto split: option.split)
  then show ?thesis by (simp add: get_cmdline_value_def first_with_def arguments_def)
qed

lemma first_with_set:
  "strip_prefix key arg = Some v \<Longrightarrow> first_with key (set_argument key arg as) = Some v"
  by (induction as) (auto simp: first_with_def strip_prefix_def split: if_splits)

lemma first_with_keeps:
  assumes "first_with key as = Some v" "strip_prefix key x = None" "\<not> starts_with k (key @ v)"
  shows "first_with key (set_argument k x as) = Some v"
  using assms
proof (induction as)
  case (Cons a as)
  show ?case
  proof (cases "strip_prefix key a")
    case None
    then show ?thesis using Cons by (auto simp: first_with_def)
  next
    case (Some w)
    then have "a = key @ v" using Cons.prems(1) by (auto simp: first_with_def strip_prefix_Some_iff)
    then show ?thesis using Cons.prems by (simp add: first_with_def)
  qed
qed (simp add: first_with_def)

lemma first_with_fold:
  "first_with key as = Some v \<Longrightarrow> \<forall>x \<in> set extra. strip_prefix key x = None \<and> \<not> starts_with (arg_key x) (key @ v) \<Longrightarrow>
    first_with key (fold (\<lambda>x. set_argument (arg_key x) x) extra as) = Some v"
  by (induction extra arbitrary: as) (simp_all add: first_with_keeps)

lemma hex_bytes: "hex_laws hx \<Longrightarrow> c \<in> set (hex_encode hx b) \<Longrightarrow> \<exists>d < 16. c = digit_char d"
proof -
  assume "hex_laws hx" "c \<in> set (hex_encode hx b)"
  then have "c \<in> set (concat (map hex2 b))" by (simp add: hex_laws_def)
  then obtain x where "c \<in> set (hex2 x)" by auto
  then have "c = digit_char (of_char x div 16) \<or> c = digit_char (of_char x mod 16)" by (auto simp: hex2_def)
  moreover have "of_char x div 16 < (16 :: nat)" using of_char_lt_256 [of x] by (simp add: less_mult_imp_div_less)
  moreover have "of_char x mod 16 < (16 :: nat)" by simp
  ultimately show ?thesis by blast
qed

lemma digit_plain: "d < 16 \<Longrightarrow> \<not> ws (digit_char d) \<and> digit_char d \<noteq> QUOTE \<and> of_char (digit_char d) < (128 :: nat) \<and>
    of_char (digit_char d) \<noteq> (11 :: nat) \<and> digit_char d \<noteq> CHR ''='' \<and> digit_char d \<noteq> CHR ''?''"
proof -
  assume "d < 16"
  then have c: "(of_char (digit_char d) :: nat) = (if d < 10 then 48 + d else 87 + d)" by (simp add: digit_char_def)
  have "digit_char d \<noteq> x" if "of_char x \<in> {34, 61, 63 :: nat}" for x using c that \<open>d < 16\<close> by (auto split: if_splits)
  then have "digit_char d \<noteq> QUOTE" "digit_char d \<noteq> CHR ''=''" "digit_char d \<noteq> CHR ''?''" by (simp_all add: QUOTE_def)
  then show ?thesis using c \<open>d < 16\<close> by (simp add: is_ascii_whitespace_def)
qed

lemma composefs_plain:
  assumes "hex_laws hx"
  shows "plain_arg (make_cmdline_composefs (to_hex hx oid) ins)"
    "arg_key (make_cmdline_composefs (to_hex hx oid) ins) = ''composefs=''"
proof -
  have p: "plain_arg a" if "a = ''composefs='' \<or> a = ''composefs=?''" for a using that
    by (auto simp: plain_arg_def is_ascii_whitespace_def QUOTE_def)
  have h: "\<not> ws c \<and> c \<noteq> QUOTE \<and> of_char c < (128 :: nat) \<and> of_char c \<noteq> (11 :: nat)" if ch: "c \<in> set (to_hex hx oid)" for c
  proof -
    obtain d where "d < 16" "c = digit_char d" using hex_bytes [OF assms ch [unfolded to_hex_def]] by auto
    then show ?thesis using digit_plain by simp
  qed
  show "plain_arg (make_cmdline_composefs (to_hex hx oid) ins)"
    using p [of "''composefs=''"] p [of "''composefs=?''"] h by (auto simp: plain_arg_def make_cmdline_composefs_def)
  show "arg_key (make_cmdline_composefs (to_hex hx oid) ins) = ''composefs=''"
    by (simp add: arg_key_def make_cmdline_composefs_def)
qed

lemma adjust_cmdline_reads_back:
  assumes hx: "hex_laws hx" "length oid = size_of H" and e: "entry_ok e"
    and extra: "\<forall>x \<in> set extra. plain_arg x \<and> \<not> starts_with (arg_key x) (make_cmdline_composefs (to_hex hx oid) ins) \<and>
      strip_prefix ''composefs='' x = None"
  shows "\<exists>v. get_value (adjust_cmdline e (Some (to_hex hx oid)) ins extra) ''options'' = Some v \<and>
    arguments v = fold (\<lambda>x. set_argument (arg_key x) x) extra
      (set_argument ''composefs='' (make_cmdline_composefs (to_hex hx oid) ins) (entry_arguments e)) \<and>
    get_cmdline_composefs hx H v = Inr (oid, ins)"
proof -
  let ?c = "make_cmdline_composefs (to_hex hx oid) ins"
  let ?e = "adjust_cmdline e (Some (to_hex hx oid)) ins extra"
  note c = composefs_plain [OF hx(1), of oid ins]
  note a = add_cmdline_arguments [OF e c(1)]
  have args: "entry_arguments ?e = fold (\<lambda>x. set_argument (arg_key x) x) extra (set_argument ''composefs='' ?c (entry_arguments e))"
    using add_all_arguments [OF a(1)] extra a(2) c(2) by (simp add: adjust_cmdline_def)
  let ?w = "if ins then CHR ''?'' # to_hex hx oid else to_hex hx oid"
  have "strip_prefix ''composefs='' ?c = Some ?w" by (auto simp: make_cmdline_composefs_def strip_prefix_Some_iff)
  moreover have cw: "?c = ''composefs='' @ ?w" by (simp add: make_cmdline_composefs_def)
  ultimately have f: "first_with ''composefs='' (entry_arguments ?e) = Some ?w"
    unfolding args
  proof (intro first_with_fold first_with_set)
    show "\<forall>x \<in> set extra. strip_prefix ''composefs='' x = None \<and> \<not> starts_with (arg_key x) (''composefs='' @ ?w)"
      using extra unfolding cw by blast
  qed
  obtain v where v: "get_value ?e ''options'' = Some v"
    using f by (cases "get_value ?e ''options''") (simp_all add: entry_arguments_def first_with_def)
  then have g: "get_cmdline_value v ''composefs='' = Some ?w"
    using f first_with_arguments [of "''composefs=''" v] by (simp add: entry_arguments_def)
  have h: "from_hex hx H (to_hex hx oid) = Inr oid" using hx by (simp add: from_hex_def to_hex_def)
  have "strip_prefix ''?'' (to_hex hx oid) = None"
  proof (rule ccontr)
    assume "strip_prefix ''?'' (to_hex hx oid) \<noteq> None"
    then obtain r where "hex_encode hx oid = CHR ''?'' # r" by (auto simp: strip_prefix_Some_iff to_hex_def)
    then have "CHR ''?'' \<in> set (hex_encode hx oid)" by simp
    then obtain d where "d < 16" "CHR ''?'' = digit_char d" using hex_bytes [OF hx(1)] by blast
    then show False using digit_plain by metis
  qed
  moreover have "strip_prefix ''?'' (CHR ''?'' # x) = Some x" for x by (simp add: strip_prefix_Some_iff)
  ultimately have "get_cmdline_composefs hx H v = Inr (oid, ins)"
    using g h by (simp add: get_cmdline_composefs_def ok_or_def)
  then show ?thesis using v args by (auto simp: entry_arguments_def)
qed

text \<open>
  C31: Adjusting an entry sets the composefs argument and then every extra one, in order. An argument that is set takes the place
  of the first one that starts with its key (what comes before and with its equals sign, or the whole argument when it has none), and
  is appended when there is none; so a flag takes the place of the first argument that it is a prefix of, and \<open>ro\<close> replaces
  root=/dev/sda1 (lemma \<open>flag_replaces_argument\<close>). The others stay, in their order. The digest and its flag are
  read back from the command line, when no extra argument has a key that
  the composefs argument starts with. The lines are ASCII and the quotes of the options are closed.
\<close>

theorem adjust_cmdline_composefs:
  assumes hx: "hex_laws hx" "length oid = size_of H" and e: "entry_ok e"
    and extra: "\<forall>x \<in> set extra. plain_arg x \<and> \<not> starts_with (arg_key x) (make_cmdline_composefs (to_hex hx oid) ins) \<and>
      strip_prefix ''composefs='' x = None"
  shows "\<exists>v. get_value (adjust_cmdline e (Some (to_hex hx oid)) ins extra) ''options'' = Some v \<and>
    arguments v = fold (\<lambda>x. set_argument (arg_key x) x) extra
      (set_argument ''composefs='' (make_cmdline_composefs (to_hex hx oid) ins) (entry_arguments e)) \<and>
    get_cmdline_composefs hx H v = Inr (oid, ins)"
  by (rule adjust_cmdline_reads_back [OF assms])

definition grub_entry :: boot_entry_file where
  "grub_entry = entry_new (''title Linux'' @ [CHR 0x0A] @ ''options root=/dev/sda1 composefs=old rw'' @ [CHR 0x0A])"

lemma adjust_cmdline_composefs_witness:
  "\<exists>v. get_value (adjust_cmdline grub_entry (Some (to_hex hex_codec (replicate 32 CHR ''x''))) True [''quiet'']) ''options'' = Some v \<and>
     arguments v = [''root=/dev/sda1'', ''composefs=?'' @ to_hex hex_codec (replicate 32 CHR ''x''), ''rw'', ''quiet''] \<and>
     get_cmdline_composefs hex_codec (Sha256HashValue rev) v = Inr (replicate 32 CHR ''x'', True)"
proof -
  have e: "entry_ok grub_entry"
  proof -
    have "get_value grub_entry ''options'' = Some ''root=/dev/sda1 composefs=old rw''" by code_simp
    moreover have "options_ok ''root=/dev/sda1 composefs=old rw''" by code_simp
    moreover have "list_all is_ascii (entry_lines grub_entry)" by code_simp
    ultimately show ?thesis by (simp add: entry_ok_def list_all_iff)
  qed
  have h: "length (replicate 32 CHR ''x'') = size_of (Sha256HashValue rev)" by (simp add: Sha256HashValue_def)
  have x: "\<forall>x \<in> set [''quiet'']. plain_arg x \<and> \<not> starts_with (arg_key x) (make_cmdline_composefs h True) \<and>
    strip_prefix ''composefs='' x = None" for h
    by (simp add: plain_arg_def is_ascii_whitespace_def QUOTE_def arg_key_def make_cmdline_composefs_def starts_with_def strip_prefix_def)
  have ga: "entry_arguments grub_entry = [''root=/dev/sda1'', ''composefs=old'', ''rw'']" by code_simp
  have a: "fold (\<lambda>x. set_argument (arg_key x) x) [''quiet''] (set_argument ''composefs=''
      (make_cmdline_composefs h True) (entry_arguments grub_entry)) = [''root=/dev/sda1'', ''composefs=?'' @ h, ''rw'', ''quiet'']" for h
    unfolding ga by (simp add: arg_key_def make_cmdline_composefs_def starts_with_def)
  show ?thesis using adjust_cmdline_composefs [OF hex_laws_hex_codec h e x] unfolding a .
qed

text \<open>
  A flag replaces every argument that it is a prefix of: adding \<open>ro\<close> drops the root device.
\<close>

theorem flag_replaces_argument:
  "get_value (add_cmdline (entry_new ''options root=/dev/sda1 quiet'') ''ro'') ''options'' = Some ''ro quiet''"
  by code_simp

end
