(* ===== verification/Verity_Digest.thy ===== *)
theory Verity_Digest
  imports Hash_Value
begin

text \<open>
  Models \<open>crates/composefs/src/fsverity/digest.rs\<close> and \<open>compute_verity\<close> of
  \<open>fsverity/mod.rs\<close>: the incremental fs-verity hasher, and its equivalence with the Merkle
  tree that the kernel builds level by level.

  A digest context of the sha2 crate is the list of bytes fed to it so far: \<open>update\<close> appends
  and \<open>finalize\<close> applies the hash function \<open>Digest H\<close> (a parameter). A subtraction of
  \<open>usize\<close> that would underflow, and the panic that follows from it, is \<open>None\<close>.
\<close>

section \<open>Layers\<close>

record layer =
  ctx :: bytes
  remaining :: nat

definition new_layer :: "nat \<Rightarrow> layer" where
  "new_layer lg = \<lparr>ctx = [], remaining = 2 ^ lg\<rparr>"

definition add_data :: "layer \<Rightarrow> bytes \<Rightarrow> layer option" where
  "add_data l data =
     (if length data \<le> remaining l
      then Some (l\<lparr>ctx := ctx l @ data, remaining := remaining l - length data\<rparr>)
      else None)"

definition complete :: "hash_alg \<Rightarrow> nat \<Rightarrow> layer \<Rightarrow> bytes \<times> layer" where
  "complete H lg l = (Digest H (ctx l @ replicate (remaining l) CHR 0x00), new_layer lg)"

section \<open>The hasher\<close>

record hasher =
  layers :: "layer list"
  hvalue :: "bytes option"
  n_bytes :: u64

definition new_hasher :: hasher where
  "new_hasher = \<lparr>layers = [], hvalue = None, n_bytes = 0\<rparr>"

text \<open>The loop of \<open>add_block\<close> over the layers; an early return leaves no value.\<close>

fun push_layers :: "hash_alg \<Rightarrow> nat \<Rightarrow> layer list \<Rightarrow> bytes \<Rightarrow> (layer list \<times> bytes option) option" where
  "push_layers H lg [] value = Some ([], Some value)"
| "push_layers H lg (l # ls) value =
     (case add_data l value of None \<Rightarrow> None
      | Some l1 \<Rightarrow>
          if remaining l1 \<noteq> 0 then Some (l1 # ls, None)
          else let (value', l2) = complete H lg l1 in
            (case push_layers H lg ls value' of None \<Rightarrow> None
             | Some (ls', v) \<Rightarrow> Some (l2 # ls', v)))"

definition add_block :: "hash_alg \<Rightarrow> nat \<Rightarrow> hasher \<Rightarrow> bytes \<Rightarrow> hasher option" where
  "add_block H lg s data =
     Option.bind
       (case hvalue s of None \<Rightarrow> Some (layers s)
        | Some v \<Rightarrow> Option.bind (add_data (new_layer lg) v) (\<lambda>l. Some (layers s @ [l])))
       (\<lambda>ls. Option.bind (add_data (new_layer lg) data)
       (\<lambda>leaf. Option.bind (push_layers H lg ls (fst (complete H lg leaf)))
       (\<lambda>(ls', v). Some \<lparr>layers = ls', hvalue = v,
                          n_bytes = n_bytes s + of_nat (length data)\<rparr>)))"

text \<open>The loop of \<open>root_hash\<close>: the layers from the leaves up, with the value carried.\<close>

fun root_layers :: "hash_alg \<Rightarrow> nat \<Rightarrow> layer list \<Rightarrow> bytes \<Rightarrow> (layer list \<times> bytes) option" where
  "root_layers H lg [] value = Some ([], value)"
| "root_layers H lg (l # ls) value =
     (case (if value \<noteq> EMPTY H then add_data l value else Some l) of None \<Rightarrow> None
      | Some l1 \<Rightarrow>
          let (value', l2) = (if remaining l1 \<noteq> 2 ^ lg then complete H lg l1 else (EMPTY H, l1)) in
            (case root_layers H lg ls value' of None \<Rightarrow> None
             | Some (ls', v) \<Rightarrow> Some (l2 # ls', v)))"

definition root_hash :: "hash_alg \<Rightarrow> nat \<Rightarrow> hasher \<Rightarrow> (bytes \<times> hasher) option" where
  "root_hash H lg s =
     (case hvalue s of Some v \<Rightarrow> Some (v, s)
      | None \<Rightarrow> Option.bind (root_layers H lg (layers s) (EMPTY H))
          (\<lambda>(ls, v). Some (v, s\<lparr>layers := ls, hvalue := Some v\<rparr>)))"

definition descriptor :: "hash_alg \<Rightarrow> nat \<Rightarrow> u64 \<Rightarrow> bytes \<Rightarrow> bytes" where
  "descriptor H lg n root =
     le_bytes 1 1 @ le_bytes 1 (ALGORITHM H) @ le_bytes 1 lg @ le_bytes 1 0 @
     replicate 4 CHR 0x00 @ le64 n @ root @ replicate (64 - size_of H) CHR 0x00 @
     replicate 32 CHR 0x00 @ replicate 144 CHR 0x00"

definition digest :: "hash_alg \<Rightarrow> nat \<Rightarrow> hasher \<Rightarrow> (bytes \<times> hasher) option" where
  "digest H lg s = Option.bind (root_hash H lg s)
     (\<lambda>(root, s'). Some (Digest H (descriptor H lg (n_bytes s) root), s'))"

fun add_blocks :: "hash_alg \<Rightarrow> nat \<Rightarrow> hasher \<Rightarrow> bytes list \<Rightarrow> hasher option" where
  "add_blocks H lg s [] = Some s"
| "add_blocks H lg s (b # bs) = Option.bind (add_block H lg s b) (\<lambda>s'. add_blocks H lg s' bs)"

text \<open>The loop of \<open>hash\<close>: slices of \<open>BLOCK_SIZE\<close> bytes, the last one shorter.\<close>

function hash_loop :: "hash_alg \<Rightarrow> nat \<Rightarrow> bytes \<Rightarrow> nat \<Rightarrow> hasher \<Rightarrow> hasher option" where
  "hash_loop H lg buffer start s =
     (if start < length buffer then
        let stop = min (start + 2 ^ lg) (length buffer) in
        Option.bind (add_block H lg s (take (stop - start) (drop start buffer)))
          (hash_loop H lg buffer stop)
      else Some s)"
  by pat_completeness auto
termination
proof (relation "measure (\<lambda>(H, lg, buffer, start, s). length buffer - start)")
  fix H :: hash_alg and lg start stop :: nat and buffer :: bytes and s x :: hasher
  assume "start < length buffer" "stop = min (start + 2 ^ lg) (length buffer)"
  moreover have "(0::nat) < 2 ^ lg" by simp
  ultimately have "length buffer - stop < length buffer - start" by linarith
  then show "((H, lg, buffer, stop, x), (H, lg, buffer, start, s))
      \<in> measure (\<lambda>(H, lg, buffer, start, s). length buffer - start)" by simp
qed simp

declare hash_loop.simps [simp del]

definition hash_buffer :: "hash_alg \<Rightarrow> nat \<Rightarrow> bytes \<Rightarrow> bytes option" where
  "hash_buffer H lg buffer = Option.bind (hash_loop H lg buffer 0 new_hasher)
     (\<lambda>s. map_option fst (digest H lg s))"

definition compute_verity :: "hash_alg \<Rightarrow> bytes \<Rightarrow> bytes option" where
  "compute_verity H data = hash_buffer H 12 data"

section \<open>Reference: the Merkle tree of fs-verity\<close>

function chunks :: "nat \<Rightarrow> 'a list \<Rightarrow> 'a list list" where
  "chunks n xs = (if xs = [] \<or> n = 0 then [] else take n xs # chunks n (drop n xs))"
  by pat_completeness auto
termination by (relation "measure (\<lambda>(n, xs). length xs)") auto

declare chunks.simps [simp del]

text \<open>A block is padded with zeros to the block size and hashed; the hashes of a level are packed
  into the blocks of the next one, until one hash is left. No block has the root hash zero.\<close>

definition hash_block :: "hash_alg \<Rightarrow> nat \<Rightarrow> bytes \<Rightarrow> bytes" where
  "hash_block H bs b = Digest H (b @ replicate (bs - length b) CHR 0x00)"

definition next_level :: "hash_alg \<Rightarrow> nat \<Rightarrow> bytes list \<Rightarrow> bytes list" where
  "next_level H bs hs = map (\<lambda>c. hash_block H bs (concat c)) (chunks (bs div size_of H) hs)"

lemma chunks_Nil [simp]: "chunks n [] = []"
  by (simp add: chunks.simps)

lemma length_chunks_less:
  "2 \<le> n \<Longrightarrow> 2 \<le> length xs \<Longrightarrow> length (chunks n xs) < length xs"
proof (induction n xs rule: chunks.induct)
  case (1 n xs)
  then have ne: "xs \<noteq> []" "n \<noteq> 0" by auto
  show ?case
  proof (cases "2 \<le> length (drop n xs)")
    case True
    with 1 ne show ?thesis by (simp add: chunks.simps [of n xs])
  next
    case False
    then have "length (chunks n (drop n xs)) \<le> length (drop n xs)"
    proof (cases "drop n xs")
      case (Cons y ys)
      with False have "ys = []" by (cases ys) auto
      with Cons 1 show ?thesis by (simp add: chunks.simps)
    qed simp
    with ne 1 show ?thesis by (simp add: chunks.simps [of n xs])
  qed
qed

function merkle_root :: "hash_alg \<Rightarrow> nat \<Rightarrow> bytes list \<Rightarrow> bytes" where
  "merkle_root H bs hs =
     (if hs = [] then EMPTY H
      else if length hs = 1 \<or> bs div size_of H < 2 then hd hs
      else merkle_root H bs (next_level H bs hs))"
  by pat_completeness auto
termination
proof (relation "measure (\<lambda>(H, bs, hs). length hs)")
  fix H :: hash_alg and bs :: nat and hs :: "bytes list"
  assume "hs \<noteq> []" "\<not> (length hs = 1 \<or> bs div size_of H < 2)"
  then have "2 \<le> length hs" "2 \<le> bs div size_of H" by (cases hs; cases "tl hs"; auto)+
  then show "((H, bs, next_level H bs hs), (H, bs, hs)) \<in> measure (\<lambda>(H, bs, hs). length hs)"
    by (simp add: next_level_def length_chunks_less)
qed simp

declare merkle_root.simps [simp del]

definition fsverity_digest :: "hash_alg \<Rightarrow> nat \<Rightarrow> bytes \<Rightarrow> bytes" where
  "fsverity_digest H lg data =
     Digest H (descriptor H lg (of_nat (length data))
       (merkle_root H (2 ^ lg) (map (hash_block H (2 ^ lg)) (chunks (2 ^ lg) data))))"

section \<open>The hasher's invariant\<close>

text \<open>
  \<open>alg_ok\<close>: a digest has the size of a hash value, at least two hash values fit in a block, and
  they fill it exactly (both algorithms with 4096-byte blocks). \<open>never_empty\<close>: no input hashes
  to zero, the value that the code uses as "no value".
\<close>

definition alg_ok :: "hash_alg \<Rightarrow> nat \<Rightarrow> bool" where
  "alg_ok H lg \<longleftrightarrow> 0 < size_of H \<and> size_of H dvd 2 ^ lg \<and> 2 * size_of H \<le> 2 ^ lg \<and>
     (\<forall>x. length (Digest H x) = size_of H)"

definition never_empty :: "hash_alg \<Rightarrow> bool" where
  "never_empty H \<longleftrightarrow> (\<forall>x. Digest H x \<noteq> EMPTY H)"

abbreviation arity :: "hash_alg \<Rightarrow> nat \<Rightarrow> nat" where
  "arity H lg \<equiv> 2 ^ lg div size_of H"

abbreviation node :: "hash_alg \<Rightarrow> nat \<Rightarrow> bytes list \<Rightarrow> bytes" where
  "node H lg c \<equiv> hash_block H (2 ^ lg) (concat c)"

text \<open>The layer that holds the hash values \<open>rest\<close>.\<close>

definition layer_of :: "hash_alg \<Rightarrow> nat \<Rightarrow> bytes list \<Rightarrow> layer" where
  "layer_of H lg rest = \<lparr>ctx = concat rest, remaining = 2 ^ lg - size_of H * length rest\<rparr>"

definition all_size :: "hash_alg \<Rightarrow> bytes list \<Rightarrow> bool" where
  "all_size H hs \<longleftrightarrow> (\<forall>h \<in> set hs. length h = size_of H)"

text \<open>
  \<open>repr ls v hs\<close>: the layers \<open>ls\<close> with value \<open>v\<close> are the state after the hash values
  \<open>hs\<close> were pushed into the lowest layer: a layer holds the values that do not fill a block
  yet, and the layers above it represent the hashes of the full blocks.
\<close>

fun repr :: "hash_alg \<Rightarrow> nat \<Rightarrow> layer list \<Rightarrow> bytes option \<Rightarrow> bytes list \<Rightarrow> bool" where
  "repr H lg [] v hs \<longleftrightarrow> (hs = [] \<and> v = None) \<or> (\<exists>h. hs = [h] \<and> v = Some h)"
| "repr H lg (l # ls) v hs \<longleftrightarrow> (\<exists>full rest. hs = concat full @ rest \<and> hs \<noteq> [] \<and>
     (\<forall>c \<in> set full. length c = arity H lg) \<and> length rest < arity H lg \<and>
     l = layer_of H lg rest \<and> repr H lg ls v (map (node H lg) full) \<and>
     (v \<noteq> None \<longrightarrow> rest = []))"

text \<open>Between two calls of \<open>add_block\<close> a state without a value has two values in flight at
  the layer from which \<open>root_hash\<close> starts.\<close>

fun settled :: "hash_alg \<Rightarrow> nat \<Rightarrow> layer list \<Rightarrow> bytes list \<Rightarrow> bool" where
  "settled H lg [] hs \<longleftrightarrow> False"
| "settled H lg (l # ls) hs \<longleftrightarrow> (\<exists>full rest. hs = concat full @ rest \<and> 2 \<le> length hs \<and>
     (\<forall>c \<in> set full. length c = arity H lg) \<and> length rest < arity H lg \<and>
     l = layer_of H lg rest \<and> repr H lg ls None (map (node H lg) full) \<and>
     (rest = [] \<longrightarrow> settled H lg ls (map (node H lg) full)))"

lemma repr_ConsE:
  assumes "repr H lg (l # ls) v hs"
  obtains full rest where "hs = concat full @ rest" "hs \<noteq> []"
    "\<forall>c \<in> set full. length c = arity H lg" "length rest < arity H lg"
    "l = layer_of H lg rest" "repr H lg ls v (map (node H lg) full)" "v \<noteq> None \<longrightarrow> rest = []"
  using assms unfolding repr.simps by (elim exE conjE) (rule that)

lemma repr_ConsI:
  assumes "hs = concat full @ rest" "hs \<noteq> []"
    "\<forall>c \<in> set full. length c = arity H lg" "length rest < arity H lg"
    "l = layer_of H lg rest" "repr H lg ls v (map (node H lg) full)" "v \<noteq> None \<longrightarrow> rest = []"
  shows "repr H lg (l # ls) v hs"
  unfolding repr.simps using assms by (intro exI [of _ full] exI [of _ rest] conjI)

lemma alg_okD:
  assumes "alg_ok H lg"
  shows "0 < size_of H" "size_of H * arity H lg = 2 ^ lg" "2 \<le> arity H lg"
    "length (Digest H x) = size_of H" "length (hash_block H n b) = size_of H"
proof -
  show s: "0 < size_of H" and m: "size_of H * arity H lg = 2 ^ lg"
    and "length (Digest H x) = size_of H" "length (hash_block H n b) = size_of H"
    using assms by (auto simp: alg_ok_def hash_block_def)
  have "2 * size_of H \<le> 2 ^ lg" using assms by (simp add: alg_ok_def)
  then have "(2 * size_of H) div size_of H \<le> arity H lg" by (rule div_le_mono)
  with s show "2 \<le> arity H lg" by simp
qed

lemma length_concat_all_size:
  "all_size H hs \<Longrightarrow> length (concat hs) = size_of H * length hs"
  by (induction hs) (auto simp: all_size_def)

lemma layer_of_Nil [simp]: "layer_of H lg [] = new_layer lg"
  by (simp add: layer_of_def new_layer_def)

lemma add_data_layer_of:
  assumes "alg_ok H lg" "length rest < arity H lg" "length h = size_of H"
  shows "add_data (layer_of H lg rest) h = Some (layer_of H lg (rest @ [h]))"
proof -
  have "size_of H * (length rest + 1) \<le> size_of H * arity H lg"
    using assms(2) by (intro mult_le_mono2) simp
  then have "size_of H * length rest + size_of H \<le> 2 ^ lg"
    using alg_okD(2) [OF assms(1)] by simp
  with assms(3) show ?thesis by (auto simp: add_data_def layer_of_def algebra_simps)
qed

lemma remaining_layer_of:
  assumes "alg_ok H lg" "length rest \<le> arity H lg"
  shows "remaining (layer_of H lg rest) = 0 \<longleftrightarrow> length rest = arity H lg"
    and "remaining (layer_of H lg rest) = 2 ^ lg \<longleftrightarrow> rest = []"
proof -
  have m: "size_of H * arity H lg = 2 ^ lg" and s: "0 < size_of H"
    using alg_okD [OF assms(1)] by auto
  have "size_of H * length rest < size_of H * arity H lg \<longleftrightarrow> length rest < arity H lg"
    using s by simp
  with assms(2) show "remaining (layer_of H lg rest) = 0 \<longleftrightarrow> length rest = arity H lg"
    unfolding layer_of_def m by auto
  show "remaining (layer_of H lg rest) = 2 ^ lg \<longleftrightarrow> rest = []"
  proof
    assume "remaining (layer_of H lg rest) = 2 ^ lg"
    then have "2 ^ lg - size_of H * length rest = 2 ^ lg" by (simp add: layer_of_def)
    moreover have "(0::nat) < 2 ^ lg" by simp
    ultimately have "size_of H * length rest = 0" by linarith
    then show "rest = []" using s by simp
  qed (simp add: layer_of_def)
qed

lemma complete_layer_of:
  assumes "alg_ok H lg" "all_size H rest"
  shows "complete H lg (layer_of H lg rest) = (node H lg rest, new_layer lg)"
  using assms by (simp add: complete_def layer_of_def hash_block_def length_concat_all_size)

lemma all_size_node [simp]: "alg_ok H lg \<Longrightarrow> all_size H (map (node H lg) full)"
  by (auto simp: all_size_def alg_okD)

lemma all_size_append [simp]: "all_size H (xs @ ys) \<longleftrightarrow> all_size H xs \<and> all_size H ys"
  "all_size H (x # xs) \<longleftrightarrow> length x = size_of H \<and> all_size H xs" "all_size H []"
  by (auto simp: all_size_def)

text \<open>Taking a complete value opens a new top layer for it.\<close>

lemma repr_open_layer:
  assumes ok: "alg_ok H lg"
  shows "repr H lg ls (Some x) hs \<Longrightarrow> repr H lg (ls @ [layer_of H lg [x]]) None hs"
proof (induction ls arbitrary: hs)
  case Nil
  then show ?case using alg_okD [OF ok] by auto
next
  case (Cons l ls)
  from Cons.prems show ?case
  proof (rule repr_ConsE)
    fix full rest
    assume *: "hs = concat full @ rest" "hs \<noteq> []" "\<forall>c \<in> set full. length c = arity H lg"
      "length rest < arity H lg" "l = layer_of H lg rest"
      "repr H lg ls (Some x) (map (node H lg) full)"
    show ?thesis
      using repr_ConsI [OF *(1-5) Cons.IH [OF *(6)]] by simp
  qed
qed

lemma repr_Some_mem: "repr H lg ls (Some x) hs \<Longrightarrow> all_size H hs \<Longrightarrow> alg_ok H lg \<Longrightarrow> length x = size_of H"
proof (induction ls arbitrary: hs)
  case Nil
  then show ?case by auto
next
  case (Cons l ls)
  from Cons.prems(1) obtain full where "repr H lg ls (Some x) (map (node H lg) full)"
    by (rule repr_ConsE)
  then show ?case using Cons.IH Cons.prems(3) by simp
qed

lemma push_layers_repr:
  assumes ok: "alg_ok H lg"
  shows "repr H lg ls None hs \<Longrightarrow> all_size H hs \<Longrightarrow> length h = size_of H \<Longrightarrow>
    \<exists>ls' v. push_layers H lg ls h = Some (ls', v) \<and> repr H lg ls' v (hs @ [h]) \<and>
      (v = None \<longrightarrow> settled H lg ls' (hs @ [h]))"
proof (induction ls arbitrary: hs h)
  case Nil
  then show ?case by simp
next
  case (Cons l ls)
  from Cons.prems(1) obtain full rest where hs: "hs = concat full @ rest" and ne: "hs \<noteq> []"
    and full: "\<forall>c \<in> set full. length c = arity H lg" and rest: "length rest < arity H lg"
    and l: "l = layer_of H lg rest" and up: "repr H lg ls None (map (node H lg) full)"
    by (rule repr_ConsE)
  have len2: "2 \<le> length (hs @ [h])" using ne by (cases hs) auto
  have add: "add_data l h = Some (layer_of H lg (rest @ [h]))"
    unfolding l using ok rest Cons.prems(3) by (rule add_data_layer_of)
  show ?case
  proof (cases "length (rest @ [h]) = arity H lg")
    case False
    then have less: "length (rest @ [h]) < arity H lg" using rest by simp
    then have "remaining (layer_of H lg (rest @ [h])) \<noteq> 0"
      using remaining_layer_of(1) [OF ok, of "rest @ [h]"] by simp
    then have "push_layers H lg (l # ls) h = Some (layer_of H lg (rest @ [h]) # ls, None)"
      using add by simp
    moreover have "repr H lg (layer_of H lg (rest @ [h]) # ls) None (hs @ [h])"
      unfolding repr.simps using hs full less up
      by (intro exI [of _ full] exI [of _ "rest @ [h]"]) simp
    moreover have "settled H lg (layer_of H lg (rest @ [h]) # ls) (hs @ [h])"
      unfolding settled.simps using hs full less up len2
      by (intro exI [of _ full] exI [of _ "rest @ [h]"]) simp
    ultimately show ?thesis by blast
  next
    case True
    let ?f = "full @ [rest @ [h]]" and ?n = "node H lg (rest @ [h])"
    have sz: "all_size H (rest @ [h])" using Cons.prems(2,3) hs by simp
    have r0: "remaining (layer_of H lg (rest @ [h])) = 0"
      using remaining_layer_of(1) [OF ok, of "rest @ [h]"] True by simp
    obtain ls' v where push: "push_layers H lg ls ?n = Some (ls', v)"
      and rep: "repr H lg ls' v (map (node H lg) full @ [?n])"
      and set: "v = None \<longrightarrow> settled H lg ls' (map (node H lg) full @ [?n])"
      using Cons.IH [OF up] ok by (metis alg_okD(5) all_size_node)
    have "push_layers H lg (l # ls) h = Some (new_layer lg # ls', v)"
      using add r0 push complete_layer_of [OF ok sz] by simp
    moreover have f: "hs @ [h] = concat ?f" "\<forall>c \<in> set ?f. length c = arity H lg"
      "map (node H lg) ?f = map (node H lg) full @ [?n]"
      using hs full True by auto
    then have "repr H lg (new_layer lg # ls') v (hs @ [h])"
      unfolding repr.simps using rep alg_okD(3) [OF ok]
      by (intro exI [of _ ?f] exI [of _ "[]"]) auto
    moreover have "v = None \<longrightarrow> settled H lg (new_layer lg # ls') (hs @ [h])"
      unfolding settled.simps using rep set alg_okD(3) [OF ok] f len2
      by (intro impI exI [of _ ?f] exI [of _ "[]"]) auto
    ultimately show ?thesis by blast
  qed
qed

definition hasher_inv :: "hash_alg \<Rightarrow> nat \<Rightarrow> hasher \<Rightarrow> bytes list \<Rightarrow> bool" where
  "hasher_inv H lg s hs \<longleftrightarrow> all_size H hs \<and> repr H lg (layers s) (hvalue s) hs \<and>
     (hvalue s = None \<longrightarrow> hs = [] \<and> layers s = [] \<or> settled H lg (layers s) hs)"

lemma hasher_inv_new [simp]: "hasher_inv H lg new_hasher []"
  by (simp add: hasher_inv_def new_hasher_def)

lemma add_block_inv:
  assumes ok: "alg_ok H lg" and inv: "hasher_inv H lg s hs" and b: "length b \<le> 2 ^ lg"
  shows "\<exists>s'. add_block H lg s b = Some s' \<and> hasher_inv H lg s' (hs @ [hash_block H (2 ^ lg) b]) \<and>
    n_bytes s' = n_bytes s + of_nat (length b)"
proof -
  let ?h = "hash_block H (2 ^ lg) b"
  let ?open = "case hvalue s of None \<Rightarrow> Some (layers s)
        | Some v \<Rightarrow> Option.bind (add_data (new_layer lg) v) (\<lambda>l. Some (layers s @ [l]))"
  have leaf: "add_data (new_layer lg) b = Some \<lparr>ctx = b, remaining = 2 ^ lg - length b\<rparr>"
    using b by (simp add: add_data_def new_layer_def)
  have h: "fst (complete H lg \<lparr>ctx = b, remaining = 2 ^ lg - length b\<rparr>) = ?h"
    by (simp add: complete_def hash_block_def)
  have "\<exists>ls. ?open = Some ls \<and> repr H lg ls None hs"
  proof (cases "hvalue s")
    case None
    then show ?thesis using inv by (simp add: hasher_inv_def)
  next
    case (Some x)
    then have r: "repr H lg (layers s) (Some x) hs" and sz: "all_size H hs"
      using inv by (auto simp: hasher_inv_def)
    have "length x = size_of H" using r sz ok by (rule repr_Some_mem)
    then have "add_data (new_layer lg) x = Some (layer_of H lg [x])"
      using add_data_layer_of [OF ok, of "[]" x] alg_okD(3) [OF ok] by simp
    with Some repr_open_layer [OF ok r] show ?thesis by simp
  qed
  then obtain ls where ls: "?open = Some ls" and rep: "repr H lg ls None hs" by blast
  have szs: "all_size H hs" using inv by (simp add: hasher_inv_def)
  obtain ls' v where push: "push_layers H lg ls ?h = Some (ls', v)"
    and "repr H lg ls' v (hs @ [?h])" "v = None \<longrightarrow> settled H lg ls' (hs @ [?h])"
    using push_layers_repr [OF ok rep szs alg_okD(5) [OF ok]] by blast
  then have "hasher_inv H lg \<lparr>layers = ls', hvalue = v, n_bytes = n_bytes s + of_nat (length b)\<rparr> (hs @ [?h])"
    using szs alg_okD(5) [OF ok] by (simp add: hasher_inv_def)
  then show ?thesis
    using ls leaf h push by (auto simp: add_block_def)
qed

lemma add_blocks_inv:
  assumes ok: "alg_ok H lg"
  shows "hasher_inv H lg s hs \<Longrightarrow> \<forall>b \<in> set bs. length b \<le> 2 ^ lg \<Longrightarrow>
    \<exists>s'. add_blocks H lg s bs = Some s' \<and> hasher_inv H lg s' (hs @ map (hash_block H (2 ^ lg)) bs) \<and>
      n_bytes s' = n_bytes s + of_nat (length (concat bs))"
proof (induction bs arbitrary: s hs)
  case Nil
  then show ?case by simp
next
  case (Cons b bs)
  then obtain s1 where s1: "add_block H lg s b = Some s1"
    and inv: "hasher_inv H lg s1 (hs @ [hash_block H (2 ^ lg) b])"
    and n: "n_bytes s1 = n_bytes s + of_nat (length b)"
    using add_block_inv [OF ok, of s hs b] by auto
  from Cons.IH [OF inv] Cons.prems(2) s1 n show ?case by (auto simp: add.assoc)
qed

section \<open>The root hash is the Merkle root\<close>

lemma chunks_concat:
  assumes "0 < n" "\<forall>c \<in> set full. length c = n" "length rest \<le> n"
  shows "chunks n (concat full @ rest) = full @ (if rest = [] then [] else [rest])"
  using assms(2)
proof (induction full)
  case Nil
  with assms show ?case by (simp add: chunks.simps)
next
  case (Cons c full)
  then have "c \<noteq> []" "length c = n" using assms(1) by auto
  then show ?case using Cons assms(1) by (simp add: chunks.simps [of n "c @ concat full @ rest"])
qed

lemma concat_chunks [simp]: "0 < n \<Longrightarrow> concat (chunks n xs) = xs"
proof (induction n xs rule: chunks.induct)
  case (1 n xs)
  then show ?case by (cases "xs = []") (simp_all add: chunks.simps [of n xs])
qed

lemma chunks_length: "c \<in> set (chunks n xs) \<Longrightarrow> length c \<le> n"
proof (induction n xs rule: chunks.induct)
  case (1 n xs)
  then show ?case by (cases "xs = [] \<or> n = 0") (auto simp: chunks.simps [of n xs])
qed

lemma merkle_root_single: "merkle_root H bs [h] = h"
  by (simp add: merkle_root.simps)

lemma merkle_root_step:
  assumes "alg_ok H lg" "2 \<le> length hs"
  shows "merkle_root H (2 ^ lg) hs = merkle_root H (2 ^ lg) (next_level H (2 ^ lg) hs)"
proof -
  have "hs \<noteq> []" "length hs \<noteq> 1" using assms(2) by auto
  then show ?thesis using alg_okD(3) [OF assms(1)] by (subst merkle_root.simps) simp
qed

lemma next_level_full:
  assumes "alg_ok H lg" "\<forall>c \<in> set full. length c = arity H lg" "length rest \<le> arity H lg"
  shows "next_level H (2 ^ lg) (concat full @ rest) =
    map (node H lg) full @ (if rest = [] then [] else [node H lg rest])"
  using chunks_concat [OF _ assms(2,3)] alg_okD(3) [OF assms(1)]
  by (simp add: next_level_def)

lemma node_not_EMPTY: "never_empty H \<Longrightarrow> hash_block H n b \<noteq> EMPTY H"
  by (simp add: never_empty_def hash_block_def)

lemma repr_None_Nil: "repr H lg ls None [] \<longleftrightarrow> ls = []"
  by (cases ls) auto

lemma root_layers_carry:
  assumes ok: "alg_ok H lg" and ne: "never_empty H"
  shows "repr H lg ls None hs \<Longrightarrow> all_size H (hs @ [c]) \<Longrightarrow> c \<noteq> EMPTY H \<Longrightarrow>
    \<exists>ls'. root_layers H lg ls c = Some (ls', merkle_root H (2 ^ lg) (hs @ [c]))"
proof (induction ls arbitrary: hs c)
  case Nil
  then show ?case by (simp add: merkle_root_single)
next
  case (Cons l ls)
  from Cons.prems(1) obtain full rest where hs: "hs = concat full @ rest" and hne: "hs \<noteq> []"
    and full: "\<forall>c \<in> set full. length c = arity H lg" and rest: "length rest < arity H lg"
    and l: "l = layer_of H lg rest" and up: "repr H lg ls None (map (node H lg) full)"
    by (rule repr_ConsE)
  let ?r = "rest @ [c]"
  have sz: "all_size H ?r" and c: "length c = size_of H" using Cons.prems(2) hs by auto
  have rem: "remaining (layer_of H lg ?r) \<noteq> 2 ^ lg"
    using remaining_layer_of(2) [OF ok, of ?r] rest by simp
  have "2 \<le> length (hs @ [c])" using hne by (cases hs) auto
  then have "merkle_root H (2 ^ lg) (hs @ [c]) =
      merkle_root H (2 ^ lg) (next_level H (2 ^ lg) (concat full @ ?r))"
    using merkle_root_step [OF ok] hs by (metis append.assoc)
  also have "\<dots> = merkle_root H (2 ^ lg) (map (node H lg) full @ [node H lg ?r])"
    using next_level_full [OF ok full, of ?r] rest by simp
  finally have m: "merkle_root H (2 ^ lg) (hs @ [c]) =
      merkle_root H (2 ^ lg) (map (node H lg) full @ [node H lg ?r])" .
  obtain ls' where "root_layers H lg ls (node H lg ?r) =
      Some (ls', merkle_root H (2 ^ lg) (hs @ [c]))"
    using Cons.IH [OF up, of "node H lg ?r"] ok ne m
    by (auto simp: node_not_EMPTY alg_okD)
  then show ?case
    using add_data_layer_of [OF ok rest c] rem complete_layer_of [OF ok sz] Cons.prems(3) l
    by simp
qed

lemma root_layers_settled:
  assumes ok: "alg_ok H lg" and ne: "never_empty H"
  shows "settled H lg ls hs \<Longrightarrow> all_size H hs \<Longrightarrow>
    \<exists>ls'. root_layers H lg ls (EMPTY H) = Some (ls', merkle_root H (2 ^ lg) hs)"
proof (induction ls arbitrary: hs)
  case Nil
  then show ?case by simp
next
  case (Cons l ls)
  from Cons.prems(1) obtain full rest where hs: "hs = concat full @ rest" "2 \<le> length hs"
    and full: "\<forall>c \<in> set full. length c = arity H lg" and rest: "length rest < arity H lg"
    and l: "l = layer_of H lg rest" and up: "repr H lg ls None (map (node H lg) full)"
    and set: "rest = [] \<longrightarrow> settled H lg ls (map (node H lg) full)"
    unfolding settled.simps by (elim exE conjE) (rule that)
  have m: "merkle_root H (2 ^ lg) hs = merkle_root H (2 ^ lg)
      (map (node H lg) full @ (if rest = [] then [] else [node H lg rest]))"
    using merkle_root_step [OF ok hs(2)] next_level_full [OF ok full, of rest] rest hs(1) by simp
  show ?case
  proof (cases "rest = []")
    case True
    then have "remaining l = 2 ^ lg" using l by (simp add: new_layer_def)
    moreover obtain ls' where "root_layers H lg ls (EMPTY H) = Some (ls', merkle_root H (2 ^ lg) hs)"
      using Cons.IH set True m ok by fastforce
    ultimately show ?thesis by simp
  next
    case False
    then have rem: "remaining (layer_of H lg rest) \<noteq> 2 ^ lg"
      using remaining_layer_of(2) [OF ok, of rest] rest by simp
    have sz: "all_size H rest" using Cons.prems(2) hs(1) by simp
    obtain ls' where "root_layers H lg ls (node H lg rest) = Some (ls', merkle_root H (2 ^ lg) hs)"
      using root_layers_carry [OF ok ne up, of "node H lg rest"] False m ok ne
      by (auto simp: node_not_EMPTY alg_okD)
    then show ?thesis
      using rem complete_layer_of [OF ok sz] l by simp
  qed
qed

lemma repr_Some_merkle:
  assumes ok: "alg_ok H lg"
  shows "repr H lg ls (Some x) hs \<Longrightarrow> merkle_root H (2 ^ lg) hs = x"
proof (induction ls arbitrary: hs)
  case Nil
  then show ?case by (auto simp: merkle_root_single)
next
  case (Cons l ls)
  from Cons.prems obtain full rest where hs: "hs = concat full @ rest" and hne: "hs \<noteq> []"
    and full: "\<forall>c \<in> set full. length c = arity H lg"
    and up: "repr H lg ls (Some x) (map (node H lg) full)" and rest: "rest = []"
    by (rule repr_ConsE) simp
  obtain c full' where "full = c # full'" using hne hs rest by (cases full) auto
  then have "arity H lg \<le> length hs" using hs rest full by simp
  then have "2 \<le> length hs" using alg_okD(3) [OF ok] by simp
  then have "merkle_root H (2 ^ lg) hs = merkle_root H (2 ^ lg) (map (node H lg) full)"
    using merkle_root_step [OF ok, of hs] next_level_full [OF ok full, of "[]"] hs rest by simp
  with Cons.IH [OF up] show ?case by simp
qed

lemma root_hash_merkle:
  assumes ok: "alg_ok H lg" and ne: "never_empty H" and inv: "hasher_inv H lg s hs"
  shows "\<exists>s'. root_hash H lg s = Some (merkle_root H (2 ^ lg) hs, s')"
proof (cases "hvalue s")
  case (Some x)
  then have "repr H lg (layers s) (Some x) hs" using inv by (simp add: hasher_inv_def)
  then show ?thesis using repr_Some_merkle [OF ok] Some by (simp add: root_hash_def)
next
  case None
  then consider "hs = []" "layers s = []" | "settled H lg (layers s) hs"
    using inv by (auto simp: hasher_inv_def)
  then show ?thesis
  proof cases
    case 1
    then show ?thesis using None by (simp add: root_hash_def merkle_root.simps)
  next
    case 2
    then show ?thesis
      using None root_layers_settled [OF ok ne 2] inv by (auto simp: root_hash_def hasher_inv_def)
  qed
qed

lemma digest_add_blocks:
  assumes ok: "alg_ok H lg" and ne: "never_empty H" and bs: "\<forall>b \<in> set bs. length b \<le> 2 ^ lg"
  shows "Option.bind (add_blocks H lg new_hasher bs) (\<lambda>s. map_option fst (digest H lg s)) =
    Some (Digest H (descriptor H lg (of_nat (length (concat bs)))
      (merkle_root H (2 ^ lg) (map (hash_block H (2 ^ lg)) bs))))"
proof -
  obtain s where s: "add_blocks H lg new_hasher bs = Some s"
    and inv: "hasher_inv H lg s (map (hash_block H (2 ^ lg)) bs)"
    and n: "n_bytes s = of_nat (length (concat bs))"
    using add_blocks_inv [OF ok hasher_inv_new bs] by (auto simp: new_hasher_def)
  obtain s' where "root_hash H lg s = Some (merkle_root H (2 ^ lg) (map (hash_block H (2 ^ lg)) bs), s')"
    using root_hash_merkle [OF ok ne inv] by blast
  then show ?thesis using s n by (simp add: digest_def)
qed

lemma hash_loop_chunks:
  "hash_loop H lg buffer start s = add_blocks H lg s (chunks (2 ^ lg) (drop start buffer))"
proof (induction H lg buffer start s rule: hash_loop.induct)
  case (1 H lg buffer start s)
  show ?case
  proof (cases "start < length buffer")
    case True
    let ?e = "min (start + 2 ^ lg) (length buffer)"
    have t: "take (?e - start) (drop start buffer) = take (2 ^ lg) (drop start buffer)"
      by (cases "start + 2 ^ lg \<le> length buffer") (simp_all add: min_def)
    have d: "drop ?e buffer = drop (2 ^ lg) (drop start buffer)"
      by (cases "start + 2 ^ lg \<le> length buffer") (simp_all add: min_def add.commute)
    have "chunks (2 ^ lg) (drop start buffer) =
        take (2 ^ lg) (drop start buffer) # chunks (2 ^ lg) (drop ?e buffer)"
      using True d by (subst chunks.simps) simp
    then show ?thesis
      using True 1 t by (subst hash_loop.simps) (simp add: Let_def cong: Option.bind_cong)
  next
    case False
    then show ?thesis by (subst hash_loop.simps) simp
  qed
qed

section \<open>Properties\<close>

text \<open>A toy hash function for witnesses: 32 bytes, never zero; it tells descriptors of different
  sizes apart.\<close>

definition toy_sha256 :: "bytes \<Rightarrow> bytes" where
  "toy_sha256 x = CHR ''#'' # replicate 30 (if x = [] then CHR ''e'' else hd x)
     @ [if 8 < length x \<and> hd x = CHR 0x01 then x ! 8 else CHR ''e'']"

lemma toy_sha256_ok: "alg_ok (Sha256HashValue toy_sha256) 12" "never_empty (Sha256HashValue toy_sha256)"
proof -
  show "alg_ok (Sha256HashValue toy_sha256) 12"
    by (simp add: alg_ok_def Sha256HashValue_def toy_sha256_def)
  have "hd (toy_sha256 x) \<noteq> hd (EMPTY (Sha256HashValue toy_sha256))" for x
    by (simp add: toy_sha256_def EMPTY_def Sha256HashValue_def)
  then show "never_empty (Sha256HashValue toy_sha256)"
    unfolding never_empty_def by (metis Sha256HashValue_def hash_alg.select_convs(4))
qed

text \<open>
  C14: the incremental hasher never panics on blocks of at most the block size, and its digest is
  the hash of the fs-verity descriptor with the root of the Merkle tree that is built level by
  level from the hashes of the blocks.
\<close>

theorem hasher_computes_merkle_root:
  assumes "alg_ok H lg" and "never_empty H" and "\<forall>b \<in> set bs. length b \<le> 2 ^ lg"
  shows "\<exists>s s'. add_blocks H lg new_hasher bs = Some s \<and>
    digest H lg s = Some (Digest H (descriptor H lg (of_nat (length (concat bs)))
      (merkle_root H (2 ^ lg) (map (hash_block H (2 ^ lg)) bs))), s')"
  using digest_add_blocks [OF assms] by (auto simp: bind_eq_Some_conv)

theorem hasher_computes_merkle_root_witness:
  "\<exists>s s'. add_blocks (Sha256HashValue toy_sha256) 12 new_hasher [''abc''] = Some s \<and>
    digest (Sha256HashValue toy_sha256) 12 s = Some (Digest (Sha256HashValue toy_sha256)
      (descriptor (Sha256HashValue toy_sha256) 12 3 (toy_sha256 ''a'')), s')"
  using hasher_computes_merkle_root [OF toy_sha256_ok, of "[''abc'']"]
  by (simp add: merkle_root_single hash_block_def Sha256HashValue_def toy_sha256_def)

lemma compute_verity_eq:
  assumes "alg_ok H 12" and "never_empty H"
  shows "compute_verity H data = Some (fsverity_digest H 12 data)"
proof -
  have "\<forall>b \<in> set (chunks (2 ^ 12) data). length b \<le> 2 ^ 12" using chunks_length by blast
  from digest_add_blocks [OF assms this] show ?thesis
    by (simp add: compute_verity_def hash_buffer_def hash_loop_chunks fsverity_digest_def)
qed

text \<open>
  C13: \<open>compute_verity\<close> returns the fs-verity digest of the data as the kernel defines it, for
  data of any length.
\<close>

theorem compute_verity_correct:
  assumes "alg_ok H 12" and "never_empty H"
  shows "compute_verity H data = Some (fsverity_digest H 12 data)"
  by (rule compute_verity_eq [OF assms])

theorem compute_verity_correct_witness:
  "compute_verity (Sha256HashValue toy_sha256) ''hello'' =
     Some (fsverity_digest (Sha256HashValue toy_sha256) 12 ''hello'')"
  by (rule compute_verity_correct [OF toy_sha256_ok])

lemma length_descriptor:
  "length root = size_of H \<Longrightarrow> size_of H \<le> 64 \<Longrightarrow> length (descriptor H lg n root) = 256"
  by (simp add: descriptor_def)

end
