(* ===== verification/Fsverity.thy ===== *)
theory Fsverity
  imports Verity_Digest Hash_Value
begin

text \<open>
  Models \<open>crates/composefs/src/fsverity/mod.rs\<close> and \<open>fsverity/ioctl.rs\<close>: enabling fs-verity
  with retries and on a copy, measuring it, and comparing it with an expected digest.

  The kernel is the parameter \<open>kernel\<close>: the outcome of the n-th call of the enable ioctl, which
  depends on what other processes do, the reply of the measure ioctl, and the error, if any, of each call that
  copies a file before the n-th ioctl. \<open>kernel_laws\<close> states
  its documented behaviour. A file is its content with the digest the kernel keeps for it.
\<close>

datatype errno = NOTTY | OPNOTSUPP | EXIST | TXTBSY | NODATA | OVERFLOW | OtherErrno nat

record verity_file =
  file_data :: bytes
  file_verity :: "(nat \<times> bytes) option"

text \<open>A reply fills in the algorithm, the digest size and the digest.\<close>

datatype measure_reply = Measured nat nat bytes | MeasureErrno errno nat

text \<open>The calls that copy a file, any of which may fail.\<close>

datatype copy_call = TryClone | Metadata | Rewind | OpenTmpfile | CopyData | Reopen

record kernel =
  enable_ioctl :: "nat \<Rightarrow> nat \<Rightarrow> verity_file \<Rightarrow> errno + verity_file"
  measure_ioctl :: "nat \<Rightarrow> verity_file \<Rightarrow> measure_reply"
  copy_error :: "nat \<Rightarrow> copy_call \<Rightarrow> errno option"

datatype measure_error =
    MeasureIo errno | VerityMissing | MeasureNotSupported
  | InvalidDigestAlgorithm nat nat | InvalidDigestSize nat

datatype enable_error = EnableIo errno | EnableNotSupported | AlreadyEnabled | FileOpenedForWrite

datatype compare_error = Measure measure_error | DigestMismatch bytes bytes

section \<open>The ioctls\<close>

definition fs_ioc_enable_verity :: "kernel \<Rightarrow> hash_alg \<Rightarrow> nat \<Rightarrow> verity_file \<Rightarrow> enable_error + verity_file" where
  "fs_ioc_enable_verity K H n f = (case enable_ioctl K n (ALGORITHM H) f of
       Inl NOTTY \<Rightarrow> Inl EnableNotSupported
     | Inl OPNOTSUPP \<Rightarrow> Inl EnableNotSupported
     | Inl EXIST \<Rightarrow> Inl AlreadyEnabled
     | Inl TXTBSY \<Rightarrow> Inl FileOpenedForWrite
     | Inl e \<Rightarrow> Inl (EnableIo e)
     | Inr f' \<Rightarrow> Inr f')"

definition fs_ioc_measure_verity :: "kernel \<Rightarrow> hash_alg \<Rightarrow> verity_file \<Rightarrow> measure_error + bytes" where
  "fs_ioc_measure_verity K H f = (case measure_ioctl K (size_of H) f of
       Measured alg sz d \<Rightarrow>
         if alg \<noteq> ALGORITHM H then Inl (InvalidDigestAlgorithm alg (ALGORITHM H))
         else if sz \<noteq> size_of H then Inl (InvalidDigestSize sz)
         else Inr d
     | MeasureErrno NODATA sz \<Rightarrow> Inl VerityMissing
     | MeasureErrno NOTTY sz \<Rightarrow> Inl MeasureNotSupported
     | MeasureErrno OPNOTSUPP sz \<Rightarrow> Inl MeasureNotSupported
     | MeasureErrno OVERFLOW sz \<Rightarrow> Inl (InvalidDigestSize sz)
     | MeasureErrno e sz \<Rightarrow> Inl (MeasureIo e))"

section \<open>Enabling\<close>

text \<open>The number \<open>n\<close> counts the calls of the enable ioctl; each function returns the next number.\<close>

definition enable_verity_raw :: "kernel \<Rightarrow> hash_alg \<Rightarrow> nat \<Rightarrow> verity_file \<Rightarrow> (enable_error + verity_file) \<times> nat" where
  "enable_verity_raw K H n f = (fs_ioc_enable_verity K H n f, n + 1)"

function retry_loop :: "kernel \<Rightarrow> hash_alg \<Rightarrow> nat \<Rightarrow> verity_file \<Rightarrow> nat \<Rightarrow> (enable_error + verity_file) \<times> nat" where
  "retry_loop K H attempt f n = (case enable_verity_raw K H n f of (r, n') \<Rightarrow>
     if r = Inl FileOpenedForWrite \<and> attempt < 3 then retry_loop K H (attempt + 1) f n' else (r, n'))"
  by pat_completeness auto
termination by (relation "measure (\<lambda>(K, H, attempt, f, n). 3 - attempt)") auto

declare retry_loop.simps [simp del]

definition enable_verity_with_retry :: "kernel \<Rightarrow> hash_alg \<Rightarrow> verity_file \<Rightarrow> nat \<Rightarrow>
    (enable_error + verity_file) \<times> nat" where
  "enable_verity_with_retry K H f n = retry_loop K H 1 f n"

text \<open>The calls before the n-th ioctl, in order: the first that fails is the error.\<close>

fun copy_calls :: "kernel \<Rightarrow> nat \<Rightarrow> copy_call list \<Rightarrow> enable_error + unit" where
  "copy_calls K n [] = Inr ()"
| "copy_calls K n (c # cs) = (case copy_error K n c of Some e \<Rightarrow> Inl (EnableIo e) | None \<Rightarrow> copy_calls K n cs)"

definition new_copy :: "kernel \<Rightarrow> nat \<Rightarrow> verity_file \<Rightarrow> enable_error + verity_file" where
  "new_copy K n f = rbind (copy_calls K n [Rewind, OpenTmpfile, CopyData, Reopen])
     (\<lambda>_. Inr \<lparr>file_data = file_data f, file_verity = None\<rparr>)"

text \<open>Each round of the loop makes a new file with the same content; a call that fails ends it, an ioctl that fails
  does not, whatever its error.\<close>

partial_function (option) copy_loop ::
    "kernel \<Rightarrow> hash_alg \<Rightarrow> verity_file \<Rightarrow> nat \<Rightarrow> ((enable_error + verity_file) \<times> nat) option" where
  "copy_loop K H f n = (case new_copy K n f of
       Inl e \<Rightarrow> Some (Inl e, n)
     | Inr g \<Rightarrow> (case enable_verity_with_retry K H g n of
         (Inr g', n') \<Rightarrow> Some (Inr g', n')
       | (Inl e, n') \<Rightarrow> copy_loop K H f n'))"

definition enable_verity_on_copy ::
    "kernel \<Rightarrow> hash_alg \<Rightarrow> verity_file \<Rightarrow> nat \<Rightarrow> ((enable_error + verity_file) \<times> nat) option" where
  "enable_verity_on_copy K H f n = (case copy_calls K n [TryClone, Metadata] of
       Inl e \<Rightarrow> Some (Inl e, n)
     | Inr _ \<Rightarrow> copy_loop K H f n)"

datatype enabled = OnOriginal verity_file | OnCopy verity_file

definition enable_verity_maybe_copy :: "kernel \<Rightarrow> hash_alg \<Rightarrow> verity_file \<Rightarrow> nat \<Rightarrow>
    ((enable_error + enabled) \<times> nat) option" where
  "enable_verity_maybe_copy K H f n = (case enable_verity_with_retry K H f n of
       (Inr f', n') \<Rightarrow> Some (Inr (OnOriginal f'), n')
     | (Inl e, n') \<Rightarrow>
         if e = FileOpenedForWrite
         then map_option (\<lambda>(c, m). (rbind c (\<lambda>c. Inr (OnCopy c)), m)) (enable_verity_on_copy K H f n')
         else Some (Inl e, n'))"

section \<open>Measuring\<close>

definition measure_verity :: "kernel \<Rightarrow> hash_alg \<Rightarrow> verity_file \<Rightarrow> measure_error + bytes" where
  "measure_verity K H f = fs_ioc_measure_verity K H f"

definition measure_verity_opt :: "kernel \<Rightarrow> hash_alg \<Rightarrow> verity_file \<Rightarrow> measure_error + bytes option" where
  "measure_verity_opt K H f = (case fs_ioc_measure_verity K H f of
       Inr d \<Rightarrow> Inr (Some d)
     | Inl VerityMissing \<Rightarrow> Inr None
     | Inl MeasureNotSupported \<Rightarrow> Inr None
     | Inl e \<Rightarrow> Inl e)"

definition ensure_verity_equal :: "hex_crate \<Rightarrow> kernel \<Rightarrow> hash_alg \<Rightarrow> verity_file \<Rightarrow> bytes \<Rightarrow> compare_error + unit" where
  "ensure_verity_equal hx K H f expected =
     rbind (map_err Measure (measure_verity K H f)) (\<lambda>found.
       if expected = found then Inr () else Inl (DigestMismatch (to_hex hx expected) (to_hex hx found)))"

section \<open>The kernel's documented behaviour\<close>

text \<open>
  Enabling keeps the content and records the fs-verity digest of it; measuring a file with a
  recorded digest that fits in the buffer replies with that digest, and a file without one is
  reported as having no data or as not supported.
\<close>

definition kernel_laws :: "kernel \<Rightarrow> hash_alg \<Rightarrow> bool" where
  "kernel_laws K H \<longleftrightarrow>
     (\<forall>n f f'. enable_ioctl K n (ALGORITHM H) f = Inr f' \<longrightarrow>
        file_data f' = file_data f \<and>
        file_verity f' = Some (ALGORITHM H, fsverity_digest H 12 (file_data f))) \<and>
     (\<forall>f alg d. file_verity f = Some (alg, d) \<longrightarrow> length d \<le> size_of H \<longrightarrow>
        measure_ioctl K (size_of H) f = Measured alg (length d) d) \<and>
     (\<forall>f b alg n d. measure_ioctl K b f = Measured alg n d \<longrightarrow>
        file_verity f = Some (alg, d) \<and> n = length d) \<and>
     (\<forall>b f. file_verity f = None \<longrightarrow>
        (\<exists>e n. measure_ioctl K b f = MeasureErrno e n \<and> e \<in> {NODATA, NOTTY, OPNOTSUPP}))"

text \<open>A file is honest when its recorded digest, if any, is the digest of its content.\<close>

definition honest :: "hash_alg \<Rightarrow> verity_file \<Rightarrow> bool" where
  "honest H f \<longleftrightarrow> (\<forall>d. file_verity f = Some (ALGORITHM H, d) \<longrightarrow> d = fsverity_digest H 12 (file_data f))"

lemma measure_honest:
  assumes "kernel_laws K H" "honest H f" "measure_verity K H f = Inr d"
  shows "d = fsverity_digest H 12 (file_data f)" "file_verity f = Some (ALGORITHM H, d)"
proof -
  obtain n where "measure_ioctl K (size_of H) f = Measured (ALGORITHM H) n d"
    using assms(3) by (auto simp: measure_verity_def fs_ioc_measure_verity_def
        split: measure_reply.splits errno.splits if_splits)
  then show v: "file_verity f = Some (ALGORITHM H, d)" using assms(1) unfolding kernel_laws_def by metis
  then show "d = fsverity_digest H 12 (file_data f)" using assms(2) by (simp add: honest_def)
qed

lemma ensure_verity_equal_digest:
  assumes "kernel_laws K H" and "honest H f" and "ensure_verity_equal hx K H f expected = Inr ()"
  shows "fsverity_digest H 12 (file_data f) = expected"
proof -
  have "measure_verity K H f = Inr expected"
    using assms(3) by (auto simp: ensure_verity_equal_def result_simps split: if_splits)
  then show ?thesis using measure_honest(1) [OF assms(1,2)] by simp
qed

lemma measure_enabled:
  assumes K: "kernel_laws K H" and s: "length d = size_of H" and v: "file_verity f = Some (ALGORITHM H, d)"
  shows "measure_verity K H f = Inr d"
proof -
  have "measure_ioctl K (size_of H) f = Measured (ALGORITHM H) (length d) d"
    using K s v unfolding kernel_laws_def by auto
  then show ?thesis using s by (simp add: measure_verity_def fs_ioc_measure_verity_def)
qed

lemma fs_ioc_enable_Inr:
  "fs_ioc_enable_verity K H n f = Inr f' \<longleftrightarrow> enable_ioctl K n (ALGORITHM H) f = Inr f'"
  by (auto simp: fs_ioc_enable_verity_def split: sum.splits errno.splits)

text \<open>The result of the retry loop is the result of its last attempt, of which there are at most three.\<close>

lemma retry_loop_result:
  "retry_loop K H attempt f n = (r, n') \<Longrightarrow>
     n < n' \<and> n' \<le> n + 1 + (3 - attempt) \<and> r = fs_ioc_enable_verity K H (n' - 1) f \<and>
     (\<forall>i. n \<le> i \<and> i < n' - 1 \<longrightarrow> fs_ioc_enable_verity K H i f = Inl FileOpenedForWrite)"
proof (induction K H attempt f n arbitrary: r n' rule: retry_loop.induct)
  case (1 K H attempt f n)
  let ?e = "fs_ioc_enable_verity K H n f"
  show ?case
  proof (cases "?e = Inl FileOpenedForWrite \<and> attempt < 3")
    case True
    then have loop: "retry_loop K H (attempt + 1) f (n + 1) = (r, n')"
      using "1.prems" retry_loop.simps [of K H attempt f n] by (simp add: enable_verity_raw_def)
    have "(n + 1 < n' \<and> n' \<le> n + 1 + 1 + (3 - (attempt + 1)) \<and> r = fs_ioc_enable_verity K H (n' - 1) f \<and>
      (\<forall>i. n + 1 \<le> i \<and> i < n' - 1 \<longrightarrow> fs_ioc_enable_verity K H i f = Inl FileOpenedForWrite))"
      using "1.IH" [of ?e "n + 1" r n'] True loop by (simp add: enable_verity_raw_def)
    then have ih: "n + 1 < n'" "n' \<le> n + 1 + 1 + (3 - (attempt + 1))" "r = fs_ioc_enable_verity K H (n' - 1) f"
      "\<forall>i. n + 1 \<le> i \<and> i < n' - 1 \<longrightarrow> fs_ioc_enable_verity K H i f = Inl FileOpenedForWrite"
      by blast+
    show ?thesis
    proof (intro conjI allI impI)
      fix i assume "n \<le> i \<and> i < n' - 1"
      then show "fs_ioc_enable_verity K H i f = Inl FileOpenedForWrite"
        using ih(4) True by (cases "i = n") auto
    qed (use ih(1-3) True in auto)
  next
    case False
    then have "(r, n') = (?e, n + 1)"
      using "1.prems" retry_loop.simps [of K H attempt f n] by (auto simp: enable_verity_raw_def)
    then show ?thesis by auto
  qed
qed

lemma with_retry_result:
  assumes "enable_verity_with_retry K H f n = (r, n')"
  shows "n < n'" "n' \<le> n + 3" "r = fs_ioc_enable_verity K H (n' - 1) f"
    "n \<le> i \<Longrightarrow> i < n' - 1 \<Longrightarrow> fs_ioc_enable_verity K H i f = Inl FileOpenedForWrite"
  using retry_loop_result [of K H 1 f n r n'] assms
  by (auto simp: enable_verity_with_retry_def)

abbreviation fresh_copy :: "verity_file \<Rightarrow> verity_file" where
  "fresh_copy f \<equiv> \<lparr>file_data = file_data f, file_verity = None\<rparr>"

lemma new_copy_Inr: "new_copy K n f = Inr g \<longleftrightarrow> copy_calls K n [Rewind, OpenTmpfile, CopyData, Reopen] = Inr () \<and> g = fresh_copy f"
  by (auto simp: new_copy_def result_simps)

text \<open>The rounds of the loop, each named by the number of its first ioctl.\<close>

inductive copy_round :: "kernel \<Rightarrow> hash_alg \<Rightarrow> verity_file \<Rightarrow> nat \<Rightarrow> nat \<Rightarrow> bool" for K H f n where
  first: "copy_calls K n [TryClone, Metadata] = Inr () \<Longrightarrow> copy_round K H f n n"
| again: "copy_round K H f n k \<Longrightarrow> new_copy K k f = Inr g \<Longrightarrow> enable_verity_with_retry K H g k = (Inl e, k') \<Longrightarrow>
    copy_round K H f n k'"

lemma copy_round_ge: "copy_round K H f n k \<Longrightarrow> n \<le> k"
  by (induction rule: copy_round.induct) (use with_retry_result(1) in fastforce)+

text \<open>What the loop returns from a round is what its last round gives.\<close>

lemma copy_loop_Some:
  assumes "copy_loop K H f k = Some r"
  shows "copy_round K H f n k \<longrightarrow> (\<exists>k' \<ge> k. copy_round K H f n k' \<and>
     (case fst r of
        Inl e \<Rightarrow> snd r = k' \<and> new_copy K k' f = Inl e
      | Inr c \<Rightarrow> new_copy K k' f = Inr (fresh_copy f) \<and> enable_verity_with_retry K H (fresh_copy f) k' = (Inr c, snd r)))"
proof (rule copy_loop.raw_induct [OF _ assms, where
    P = "\<lambda>K H f k r. copy_round K H f n k \<longrightarrow> (\<exists>k' \<ge> k. copy_round K H f n k' \<and>
     (case fst r of
        Inl e \<Rightarrow> snd r = k' \<and> new_copy K k' f = Inl e
      | Inr c \<Rightarrow> new_copy K k' f = Inr (fresh_copy f) \<and> enable_verity_with_retry K H (fresh_copy f) k' = (Inr c, snd r)))"],
    rule impI, goal_cases)
  case (1 rec K H f k r)
  show ?case
  proof (cases "new_copy K k f")
    case (Inl e)
    then have "r = (Inl e, k)" using 1(2) by simp
    then show ?thesis using Inl 1(3) by auto
  next
    case (Inr g)
    obtain q k1 where q: "enable_verity_with_retry K H g k = (q, k1)" by fastforce
    show ?thesis
    proof (cases q)
      case (Inr c)
      then have "r = (Inr c, k1)" using 1(2) q \<open>new_copy K k f = Inr g\<close> by simp
      then show ?thesis using 1(3) q Inr \<open>new_copy K k f = Inr g\<close> new_copy_Inr by (intro exI [of _ k]) auto
    next
      case (Inl e)
      then have "rec K H f k1 = Some r" using 1(2) q \<open>new_copy K k f = Inr g\<close> by simp
      moreover have "copy_round K H f n k1" using copy_round.again [OF 1(3) \<open>new_copy K k f = Inr g\<close>] q Inl by simp
      moreover have "k < k1" using with_retry_result(1) [OF q] .
      ultimately show ?thesis using 1(1) [of K H f k1 r] by (meson le_trans less_imp_le)
    qed
  qed
qed


lemma on_copy_Some:
  assumes "enable_verity_on_copy K H f n = Some (Inr c, m)"
  shows "n < m \<and> enable_ioctl K (m - 1) (ALGORITHM H) (fresh_copy f) = Inr c"
proof -
  have l: "copy_loop K H f n = Some (Inr c, m)" and s: "copy_round K H f n n"
    using assms copy_round.first by (auto simp: enable_verity_on_copy_def split: sum.splits)
  obtain k where "n \<le> k" "enable_verity_with_retry K H (fresh_copy f) k = (Inr c, m)"
    using copy_loop_Some [OF l, of n] s by auto
  then show ?thesis using with_retry_result(1,3) [of K H "fresh_copy f" k "Inr c" m] fs_ioc_enable_Inr [of K H "m - 1" "fresh_copy f" c] by auto
qed




definition result_file :: "enabled \<Rightarrow> verity_file" where
  "result_file e = (case e of OnOriginal f \<Rightarrow> f | OnCopy f \<Rightarrow> f)"

lemma maybe_copy_enabled:
  assumes "kernel_laws K H" and "enable_verity_maybe_copy K H f n = Some (Inr e, m)"
  shows "file_data (result_file e) = file_data f"
    "file_verity (result_file e) = Some (ALGORITHM H, fsverity_digest H 12 (file_data f))"
proof -
  obtain q n' where q: "enable_verity_with_retry K H f n = (q, n')" by fastforce
  have "\<exists>k g. file_data g = file_data f \<and> enable_ioctl K k (ALGORITHM H) g = Inr (result_file e)"
  proof (cases q)
    case (Inr f')
    then have "e = OnOriginal f'" using assms(2) q by (simp add: enable_verity_maybe_copy_def)
    moreover have "enable_ioctl K (n' - 1) (ALGORITHM H) f = Inr f'"
      using with_retry_result(3) [OF q] Inr fs_ioc_enable_Inr [of K H "n' - 1" f f'] by simp
    ultimately show ?thesis by (auto simp: result_file_def)
  next
    case (Inl err)
    then obtain c where "e = OnCopy c" "enable_verity_on_copy K H f n' = Some (Inr c, m)"
      using assms(2) q by (auto simp: enable_verity_maybe_copy_def result_simps split: if_splits)
    then show ?thesis using on_copy_Some [of K H f n' c m]
      by (intro exI [of _ "m - 1"] exI [of _ "fresh_copy f"]) (simp add: result_file_def)
  qed
  then show "file_data (result_file e) = file_data f"
    "file_verity (result_file e) = Some (ALGORITHM H, fsverity_digest H 12 (file_data f))"
    using assms(1) unfolding kernel_laws_def by metis+
qed

text \<open>A kernel that has the laws: enabling works on the calls that \<open>ok\<close> accepts.\<close>

definition model_kernel :: "hash_alg \<Rightarrow> (nat \<Rightarrow> bool) \<Rightarrow> kernel" where
  "model_kernel H ok = \<lparr>enable_ioctl = (\<lambda>n alg f. if \<not> ok n then Inl TXTBSY
       else if file_verity f \<noteq> None then Inl EXIST
       else Inr \<lparr>file_data = file_data f, file_verity = Some (alg, fsverity_digest H 12 (file_data f))\<rparr>),
     measure_ioctl = (\<lambda>b f. case file_verity f of None \<Rightarrow> MeasureErrno NODATA 0
       | Some (alg, d) \<Rightarrow> if b < length d then MeasureErrno OVERFLOW (length d) else Measured alg (length d) d),
     copy_error = (\<lambda>n c. None)\<rparr>"

lemma model_kernel_laws: "kernel_laws (model_kernel H ok) H"
  by (auto simp: kernel_laws_def model_kernel_def split: if_splits option.splits)

definition example_file :: verity_file where
  "example_file = \<lparr>file_data = ''x'', file_verity =
     Some (1, fsverity_digest (Sha256HashValue toy_sha256) 12 ''x'')\<rparr>"

lemma length_fsverity_digest: "alg_ok H 12 \<Longrightarrow> length (fsverity_digest H 12 data) = size_of H"
  by (simp add: fsverity_digest_def alg_ok_def)

end
