(* ===== verification/Object_Store.thy ===== *)
theory Object_Store
  imports Fsverity Ordered_Map
begin

text \<open>
  Models the object store of \<open>crates/composefs/src/repository.rs\<close>: storing objects under their
  fs-verity digest, with and without enforcement, and reading them back verified.

  The directory \<open>objects/\<close> is a map from pathnames (\<open>xx/yyyy\<close>) to files. A step returns
  \<open>None\<close> when it does not return, and otherwise a result with the new state. Other errors of
  the system (no space, no permission) are not modelled. The locale \<open>object_store\<close> is what the
  other components rely on.
\<close>

section \<open>Steps\<close>

datatype repo_error =
    NoEntry bytes
  | Compare compare_error
  | Enable enable_error
  | MeasureFailed measure_error
  | Panicked

type_synonym ('e, 's, 'a) io = "'s \<Rightarrow> (('e + 'a) \<times> 's) option"

definition io_return :: "'a \<Rightarrow> ('e, 's, 'a) io" where
  "io_return x = (\<lambda>s. Some (Inr x, s))"

definition io_fail :: "'e \<Rightarrow> ('e, 's, 'a) io" where
  "io_fail e = (\<lambda>s. Some (Inl e, s))"

definition io_lift :: "('e + 'a) \<Rightarrow> ('e, 's, 'a) io" where
  "io_lift r = (\<lambda>s. Some (r, s))"

definition io_bind :: "('e, 's, 'a) io \<Rightarrow> ('a \<Rightarrow> ('e, 's, 'b) io) \<Rightarrow> ('e, 's, 'b) io" where
  "io_bind m f = (\<lambda>s. case m s of None \<Rightarrow> None
     | Some (Inl e, s') \<Rightarrow> Some (Inl e, s')
     | Some (Inr x, s') \<Rightarrow> f x s')"

lemma io_simps [simp]:
  "io_bind (io_return x) f = f x" "io_bind (io_fail e) f = io_fail e"
  "io_bind (io_lift (Inr x)) f = f x" "io_bind (io_lift (Inl e)) f = io_fail e"
  "io_lift (Inr x) = io_return x" "io_lift (Inl e) = io_fail e"
  "io_return x s = Some (Inr x, s)" "io_fail e s = Some (Inl e, s)"
  by (simp_all add: io_bind_def io_return_def io_fail_def io_lift_def fun_eq_iff)

lemma io_bind_Inr_iff:
  "io_bind m f s = Some (Inr y, s2) \<longleftrightarrow> (\<exists>x s1. m s = Some (Inr x, s1) \<and> f x s1 = Some (Inr y, s2))"
  by (auto simp: io_bind_def split: option.splits prod.splits sum.splits)

section \<open>The store\<close>

record repo =
  objects :: "(bytes \<times> verity_file) list"
  insecure :: bool
  ioctl_calls :: nat

definition fresh_file :: "bytes \<Rightarrow> verity_file" where
  "fresh_file data = \<lparr>file_data = data, file_verity = None\<rparr>"

definition link_object :: "bytes \<Rightarrow> verity_file \<Rightarrow> 'z repo_scheme \<Rightarrow> 'z repo_scheme" where
  "link_object path f s = (if bt_get (objects s) path = None
     then s\<lparr>objects := bt_insert path f (objects s)\<rparr> else s)"

text \<open>Errors of a comparison that a repository without enforcement ignores.\<close>

definition missing_verity :: "compare_error \<Rightarrow> bool" where
  "missing_verity e \<longleftrightarrow> e = Measure VerityMissing \<or> e = Measure MeasureNotSupported"

definition store_existing :: "hex_crate \<Rightarrow> kernel \<Rightarrow> hash_alg \<Rightarrow> bytes \<Rightarrow> verity_file \<Rightarrow> bytes \<Rightarrow>
    (repo_error, 'z repo_scheme, unit) io" where
  "store_existing hx K H path f oid = (\<lambda>s.
     case ensure_verity_equal hx K H f oid of
       Inr _ \<Rightarrow> Some (Inr (), s)
     | Inl e \<Rightarrow>
         if e = Measure VerityMissing \<and> insecure s then
           (case enable_verity_maybe_copy K H f (ioctl_calls s) of
              None \<Rightarrow> None
            | Some (Inl err, n) \<Rightarrow> Some (Inl (Enable err), s\<lparr>ioctl_calls := n\<rparr>)
            | Some (Inr (OnOriginal f'), n) \<Rightarrow>
                Some (map_err Compare (ensure_verity_equal hx K H f' oid),
                  s\<lparr>objects := bt_insert path f' (objects s), ioctl_calls := n\<rparr>)
            | Some (Inr (OnCopy c), n) \<Rightarrow>
                Some (map_err Compare (ensure_verity_equal hx K H c oid), s\<lparr>ioctl_calls := n\<rparr>))
         else if e = Measure MeasureNotSupported \<and> insecure s then Some (Inr (), s)
         else Some (Inl (Compare e), s))"

definition store_new :: "hex_crate \<Rightarrow> kernel \<Rightarrow> hash_alg \<Rightarrow> bytes \<Rightarrow> bytes \<Rightarrow> bytes \<Rightarrow> (repo_error, 'z repo_scheme, unit) io" where
  "store_new hx K H path data oid = (\<lambda>s.
     case enable_verity_maybe_copy K H (fresh_file data) (ioctl_calls s) of
       None \<Rightarrow> None
     | Some (Inl err, n) \<Rightarrow>
         (let s1 = s\<lparr>ioctl_calls := n\<rparr> in
          if err = EnableNotSupported \<and> insecure s then Some (Inr (), link_object path (fresh_file data) s1)
          else Some (Inl (Enable err), s1))
     | Some (Inr e, n) \<Rightarrow>
         (let s1 = s\<lparr>ioctl_calls := n\<rparr>; f = result_file e in
          case ensure_verity_equal hx K H f oid of
            Inr _ \<Rightarrow> Some (Inr (), link_object path f s1)
          | Inl err \<Rightarrow>
              if missing_verity err \<and> insecure s then Some (Inr (), link_object path f s1)
              else Some (Inl (Compare err), s1)))"

definition store_object_with_id :: "hex_crate \<Rightarrow> kernel \<Rightarrow> hash_alg \<Rightarrow> bytes \<Rightarrow> bytes \<Rightarrow> (repo_error, 'z repo_scheme, unit) io" where
  "store_object_with_id hx K H data oid = (\<lambda>s.
     let path = to_object_pathname hx oid in
     case bt_get (objects s) path of
       Some f \<Rightarrow> store_existing hx K H path f oid s
     | None \<Rightarrow> store_new hx K H path data oid s)"

definition ensure_object :: "hex_crate \<Rightarrow> kernel \<Rightarrow> hash_alg \<Rightarrow> bytes \<Rightarrow> (repo_error, 'z repo_scheme, bytes) io" where
  "ensure_object hx K H data =
     io_bind (io_lift (ok_or (compute_verity H data) Panicked)) (\<lambda>oid.
     io_bind (store_object_with_id hx K H data oid) (\<lambda>_. io_return oid))"

text \<open>\<open>open_with_verity\<close> on an object, and reading it to the end.\<close>

definition verify_open :: "hex_crate \<Rightarrow> kernel \<Rightarrow> hash_alg \<Rightarrow> verity_file \<Rightarrow> bytes \<Rightarrow> bool \<Rightarrow> repo_error + unit" where
  "verify_open hx K H f expected ins = (case ensure_verity_equal hx K H f expected of
       Inr _ \<Rightarrow> Inr ()
     | Inl e \<Rightarrow> if missing_verity e \<and> ins then Inr () else Inl (Compare e))"

definition open_object :: "hex_crate \<Rightarrow> kernel \<Rightarrow> hash_alg \<Rightarrow> bytes \<Rightarrow> (repo_error, 'z repo_scheme, verity_file) io" where
  "open_object hx K H oid = (\<lambda>s.
     let path = to_object_pathname hx oid in
     case bt_get (objects s) path of
       None \<Rightarrow> Some (Inl (NoEntry (''objects/'' @ path)), s)
     | Some f \<Rightarrow> Some (rbind (verify_open hx K H f oid (insecure s)) (\<lambda>_. Inr f), s))"

definition read_object :: "hex_crate \<Rightarrow> kernel \<Rightarrow> hash_alg \<Rightarrow> bytes \<Rightarrow> (repo_error, 'z repo_scheme, bytes) io" where
  "read_object hx K H oid = io_bind (open_object hx K H oid) (\<lambda>f. io_return (file_data f))"

section \<open>Streamed objects\<close>

text \<open>\<open>compute_verity_digest\<close>: \<open>fill_buf\<close> of a \<open>BufReader\<close> refills an empty buffer with up
  to 8192 bytes; at most a block is consumed at a time.\<close>

function reader_loop :: "hash_alg \<Rightarrow> bytes \<Rightarrow> bytes \<Rightarrow> hasher \<Rightarrow> hasher option" where
  "reader_loop H buf rest h =
     (if buf = [] then (if rest = [] then Some h else reader_loop H (take 8192 rest) (drop 8192 rest) h)
      else let chunk_size = min (length buf) (2 ^ 12) in
        Option.bind (add_block H 12 h (take chunk_size buf)) (\<lambda>h'.
          reader_loop H (drop chunk_size buf) rest h'))"
  by pat_completeness auto
termination
  by (relation "measures [\<lambda>(H, buf, rest, h). length buf + length rest, \<lambda>(H, buf, rest, h). length rest]")
    auto

declare reader_loop.simps [simp del]

definition compute_verity_digest :: "hash_alg \<Rightarrow> bytes \<Rightarrow> bytes option" where
  "compute_verity_digest H data =
     Option.bind (reader_loop H [] data new_hasher) (\<lambda>h. map_option fst (digest H 12 h))"

definition finalize_object_tmpfile :: "hex_crate \<Rightarrow> kernel \<Rightarrow> hash_alg \<Rightarrow> bytes \<Rightarrow> nat \<Rightarrow> (repo_error, 'z repo_scheme, bytes) io" where
  "finalize_object_tmpfile hx K H data sz = (\<lambda>s.
     case enable_verity_maybe_copy K H (fresh_file data) (ioctl_calls s) of
       None \<Rightarrow> None
     | Some (r, n) \<Rightarrow>
         let s1 = s\<lparr>ioctl_calls := n\<rparr>;
             opened = (case r of
                 Inr e \<Rightarrow> Inr (result_file e, True)
               | Inl err \<Rightarrow>
                   if err = EnableNotSupported \<and> insecure s then Inr (fresh_file data, False)
                   else if err = AlreadyEnabled then Inr (fresh_file data, True)
                   else Inl (Enable err))
         in case opened of
              Inl err \<Rightarrow> Some (Inl err, s1)
            | Inr (f, verity_enabled) \<Rightarrow>
                (case (if verity_enabled then map_err MeasureFailed (measure_verity K H f)
                       else ok_or (compute_verity_digest H (file_data f)) Panicked) of
                   Inl err \<Rightarrow> Some (Inl err, s1)
                 | Inr oid \<Rightarrow>
                     let path = to_object_pathname hx oid;
                         same_size = (case bt_get (objects s1) path of
                             Some g \<Rightarrow> length (file_data g) = sz | None \<Rightarrow> False)
                     in if same_size then Some (Inr oid, s1)
                        else Some (Inr oid, link_object path f s1)))"

section \<open>The store's invariant\<close>

text \<open>Every object is honest and lies under the name of its own digest.\<close>

definition store_inv :: "hex_crate \<Rightarrow> hash_alg \<Rightarrow> 'z repo_scheme \<Rightarrow> bool" where
  "store_inv hx H s \<longleftrightarrow> bt_wf (objects s) \<and> (\<forall>(p, f) \<in> set (objects s). honest H f \<and>
     p = to_object_pathname hx (fsverity_digest H 12 (file_data f)))"

definition env_ok :: "hex_crate \<Rightarrow> kernel \<Rightarrow> hash_alg \<Rightarrow> bool" where
  "env_ok hx K H \<longleftrightarrow> hex_laws hx \<and> kernel_laws K H \<and> alg_ok H 12 \<and> never_empty H"

lemma store_inv_get:
  "store_inv hx H s \<Longrightarrow> bt_get (objects s) p = Some f \<Longrightarrow>
     honest H f \<and> p = to_object_pathname hx (fsverity_digest H 12 (file_data f))"
  by (auto simp: store_inv_def dest!: bt_get_SomeD)

lemma store_inv_insert:
  assumes "store_inv hx H s" "honest H f" "p = to_object_pathname hx (fsverity_digest H 12 (file_data f))"
  shows "store_inv hx H (s\<lparr>objects := bt_insert p f (objects s)\<rparr>)"
  using assms set_bt_insert_subset [of p f "objects s"]
  by (auto simp: store_inv_def bt_wf_insert)

lemma store_inv_calls [simp]: "store_inv hx H (s\<lparr>ioctl_calls := n\<rparr>) = store_inv hx H s"
  by (simp add: store_inv_def)

lemma objects_link_object:
  "bt_wf (objects s) \<Longrightarrow> bt_get (objects (link_object p f s)) q =
     (if q = p \<and> bt_get (objects s) p = None then Some f else bt_get (objects s) q)"
  by (simp add: link_object_def bt_get_insert)

lemma link_object_frame [simp]: "insecure (link_object p f s) = insecure s"
  by (simp add: link_object_def)

lemma honest_fresh [simp]: "honest H (fresh_file data)" "file_data (fresh_file data) = data"
  by (simp_all add: honest_def fresh_file_def)

lemma honest_enabled:
  assumes "kernel_laws K H" "enable_verity_maybe_copy K H f n = Some (Inr e, m)"
  shows "honest H (result_file e)" "file_data (result_file e) = file_data f"
  using maybe_copy_enabled [OF assms] by (simp_all add: honest_def)

lemma measure_fresh:
  assumes "kernel_laws K H" "file_verity f = None"
  shows "measure_verity K H f \<in> {Inl VerityMissing, Inl MeasureNotSupported}"
proof -
  obtain e n where "measure_ioctl K (size_of H) f = MeasureErrno e n" "e \<in> {NODATA, NOTTY, OPNOTSUPP}"
    using assms unfolding kernel_laws_def by blast
  then show ?thesis by (auto simp: measure_verity_def fs_ioc_measure_verity_def)
qed

lemma verify_fresh: "kernel_laws K H \<Longrightarrow> verify_open hx K H (fresh_file data) oid True = Inr ()"
  using measure_fresh [of K H "fresh_file data"]
  by (auto simp: verify_open_def ensure_verity_equal_def missing_verity_def fresh_file_def)

text \<open>\<open>holds_object\<close>: the object can be opened and has these contents.\<close>

definition holds_object :: "hex_crate \<Rightarrow> kernel \<Rightarrow> hash_alg \<Rightarrow> 'z repo_scheme \<Rightarrow> bytes \<Rightarrow> bytes \<Rightarrow> bool" where
  "holds_object hx K H s oid data \<longleftrightarrow> (\<exists>f. bt_get (objects s) (to_object_pathname hx oid) = Some f \<and>
     file_data f = data \<and> verify_open hx K H f oid (insecure s) = Inr ())"

lemma read_holds: "holds_object hx K H s oid data \<longleftrightarrow> read_object hx K H oid s = Some (Inr data, s)"
  by (auto simp: holds_object_def read_object_def open_object_def io_bind_def Let_def
      split: option.splits sum.splits) (auto simp: rbind_def split: sum.splits)

text \<open>No stored object has the digest of the data but other contents.\<close>

definition no_collision :: "hash_alg \<Rightarrow> bytes \<Rightarrow> 'z repo_scheme \<Rightarrow> bool" where
  "no_collision H data s \<longleftrightarrow> (\<forall>(p, f) \<in> set (objects s).
     fsverity_digest H 12 (file_data f) = fsverity_digest H 12 data \<longrightarrow> file_data f = data)"

lemma object_pathname_inj:
  assumes "hex_laws hx" "to_object_pathname hx a = to_object_pathname hx b" "a \<noteq> []" "b \<noteq> []"
  shows "a = b"
proof -
  have "hex2 (hd a) = hex2 (hd b)" "hex_encode hx (tl a) = hex_encode hx (tl b)"
    using assms(2) by (simp_all add: to_object_pathname_def hex2_def)
  then have "hd a = hd b" "tl a = tl b" using hex2_inj hex_encode_inj [OF assms(1)] by auto
  then show ?thesis using assms(3,4) by (metis list.collapse)
qed

lemma digest_not_Nil: "alg_ok H 12 \<Longrightarrow> fsverity_digest H 12 data \<noteq> []"
  using length_fsverity_digest [of H data] by (auto simp: alg_ok_def)

lemma env_ok_simps:
  assumes "env_ok hx K H"
  shows "hex_laws hx" "kernel_laws K H" "alg_ok H 12"
    "compute_verity H data = Some (fsverity_digest H 12 data)"
  using assms compute_verity_eq by (auto simp: env_ok_def)

section \<open>Storing and reading back\<close>

lemma store_existing_result:
  assumes K: "kernel_laws K H" and inv: "store_inv hx H s" and g: "bt_get (objects s) path = Some f"
    and r: "store_existing hx K H path f oid s = Some (r, s')"
  shows "store_inv hx H s' \<and> insecure s' = insecure s \<and>
    (\<exists>f'. bt_get (objects s') path = Some f' \<and> file_data f' = file_data f \<and>
       (r = Inr () \<longrightarrow> verify_open hx K H f' oid (insecure s) = Inr ())) \<and>
    (\<forall>q. q \<noteq> path \<longrightarrow> bt_get (objects s') q = bt_get (objects s) q)"
proof (cases "ensure_verity_equal hx K H f oid")
  case (Inr u)
  then show ?thesis using r inv g by (auto simp: store_existing_def verify_open_def)
next
  case (Inl e)
  have f: "honest H f" "path = to_object_pathname hx (fsverity_digest H 12 (file_data f))"
    using store_inv_get [OF inv g] by auto
  have wf: "bt_wf (objects s)" using inv by (simp add: store_inv_def)
  show ?thesis
  proof (cases "e = Measure VerityMissing \<and> insecure s")
    case True
    then have tol: "verify_open hx K H f oid (insecure s) = Inr ()"
      using Inl by (simp add: verify_open_def missing_verity_def)
    obtain q n where q: "enable_verity_maybe_copy K H f (ioctl_calls s) = Some (q, n)"
      using r Inl True by (auto simp: store_existing_def split: option.splits)
    show ?thesis
    proof (cases q)
      case (Inl err)
      then show ?thesis using r \<open>ensure_verity_equal hx K H f oid = Inl e\<close> True q inv g
        by (auto simp: store_existing_def)
    next
      case (Inr en)
      note h = honest_enabled [OF K q [unfolded Inr]]
      show ?thesis
      proof (cases en)
        case (OnOriginal f')
        have "s' = s\<lparr>objects := bt_insert path f' (objects s), ioctl_calls := n\<rparr>"
          and res: "r = map_err Compare (ensure_verity_equal hx K H f' oid)"
          using r Inl True q Inr OnOriginal by (simp_all add: store_existing_def)
        moreover have "store_inv hx H (s\<lparr>objects := bt_insert path f' (objects s)\<rparr>)"
          using h OnOriginal f by (intro store_inv_insert inv) (simp_all add: result_file_def)
        then have "store_inv hx H ((s\<lparr>objects := bt_insert path f' (objects s)\<rparr>)\<lparr>ioctl_calls := n\<rparr>)"
          by simp
        moreover have "r = Inr () \<longrightarrow> verify_open hx K H f' oid (insecure s) = Inr ()"
          using res by (cases "ensure_verity_equal hx K H f' oid") (auto simp: verify_open_def)
        ultimately show ?thesis using h OnOriginal wf
          by (simp add: bt_get_insert result_file_def)
      next
        case (OnCopy c)
        then have "s' = s\<lparr>ioctl_calls := n\<rparr>"
          using r Inl True q Inr by (simp add: store_existing_def)
        then show ?thesis using inv g tol by simp
      qed
    qed
  next
    case False
    then show ?thesis using r Inl inv g
      by (auto simp: store_existing_def verify_open_def missing_verity_def split: if_splits)
  qed
qed

lemma store_new_result:
  assumes K: "kernel_laws K H" and inv: "store_inv hx H s" and g: "bt_get (objects s) path = None"
    and p: "path = to_object_pathname hx (fsverity_digest H 12 data)"
    and r: "store_new hx K H path data oid s = Some (r, s')"
  shows "store_inv hx H s' \<and> insecure s' = insecure s \<and>
    (r = Inr () \<longrightarrow> (\<exists>f'. bt_get (objects s') path = Some f' \<and> file_data f' = data \<and>
       verify_open hx K H f' oid (insecure s) = Inr ())) \<and>
    (\<forall>q. q \<noteq> path \<longrightarrow> bt_get (objects s') q = bt_get (objects s) q)"
proof -
  have wf: "bt_wf (objects s)" using inv by (simp add: store_inv_def)
  have link: "store_inv hx H (link_object path f (s\<lparr>ioctl_calls := n\<rparr>)) \<and>
      bt_get (objects (link_object path f (s\<lparr>ioctl_calls := n\<rparr>))) path = Some f"
    if "honest H f" "file_data f = data" for f n
    using store_inv_insert [of hx H "s\<lparr>ioctl_calls := n\<rparr>" f path] inv that p g wf
    by (simp add: link_object_def bt_get_insert)
  have frame: "q \<noteq> path \<longrightarrow> bt_get (objects (link_object path f (s\<lparr>ioctl_calls := n\<rparr>))) q = bt_get (objects s) q"
    for q f n using wf by (simp add: objects_link_object)
  obtain q n where q: "enable_verity_maybe_copy K H (fresh_file data) (ioctl_calls s) = Some (q, n)"
    using r by (auto simp: store_new_def split: option.splits)
  show ?thesis
  proof (cases q)
    case (Inl err)
    show ?thesis
    proof (cases "err = EnableNotSupported \<and> insecure s")
      case True
      then have "s' = link_object path (fresh_file data) (s\<lparr>ioctl_calls := n\<rparr>)"
        using r q Inl by (simp add: store_new_def Let_def)
      then show ?thesis using link [of "fresh_file data" n] frame [of _ "fresh_file data" n] True
          verify_fresh [OF K, of hx data oid] by simp
    next
      case False
      then have "s' = s\<lparr>ioctl_calls := n\<rparr>" "r = Inl (Enable err)"
        using r q Inl by (auto simp: store_new_def Let_def)
      then show ?thesis using inv by simp
    qed
  next
    case (Inr en)
    let ?f = "result_file en"
    note h = honest_enabled [OF K q [unfolded Inr]]
    show ?thesis
    proof (cases "verify_open hx K H ?f oid (insecure s)")
      case (Inr u)
      then have "s' = link_object path ?f (s\<lparr>ioctl_calls := n\<rparr>)"
        using r q \<open>q = Inr en\<close>
        by (auto simp: store_new_def Let_def verify_open_def split: sum.splits if_splits)
      then show ?thesis using link [of ?f n] frame [of _ ?f n] h Inr by simp
    next
      case (Inl e)
      then have "s' = s\<lparr>ioctl_calls := n\<rparr>" "\<exists>e. r = Inl e"
        using r q \<open>q = Inr en\<close>
        by (auto simp: store_new_def Let_def verify_open_def split: sum.splits if_splits)
      then show ?thesis using inv by auto
    qed
  qed
qed

lemma verify_enabled:
  assumes "kernel_laws K H" "alg_ok H 12" "file_verity f = Some (ALGORITHM H, fsverity_digest H 12 d)"
  shows "verify_open hx K H f (fsverity_digest H 12 d) ins = Inr ()"
  using measure_enabled [OF assms(1) length_fsverity_digest [OF assms(2)] assms(3)]
  by (simp add: verify_open_def ensure_verity_equal_def)

lemma store_existing_keeps:
  assumes env: "hex_laws hx" "kernel_laws K H" "alg_ok H 12" and inv: "store_inv hx H s"
    and g: "bt_get (objects s) path = Some f" and p: "path = to_object_pathname hx oid" "oid \<noteq> []"
    and v: "verify_open hx K H f oid (insecure s) = Inr ()"
    and r: "store_existing hx K H path f oid s = Some (r, s')"
  shows "\<exists>f'. bt_get (objects s') path = Some f' \<and> file_data f' = file_data f \<and>
     verify_open hx K H f' oid (insecure s) = Inr ()"
proof -
  have wf: "bt_wf (objects s)" using inv by (simp add: store_inv_def)
  have "to_object_pathname hx (fsverity_digest H 12 (file_data f)) = to_object_pathname hx oid"
    using store_inv_get [OF inv g] p(1) by simp
  then have oid: "fsverity_digest H 12 (file_data f) = oid"
    by (rule object_pathname_inj [OF env(1) _ digest_not_Nil [OF env(3)] p(2)])
  show ?thesis
  proof (cases "\<exists>f' n. enable_verity_maybe_copy K H f (ioctl_calls s) = Some (Inr (OnOriginal f'), n)
      \<and> s' = s\<lparr>objects := bt_insert path f' (objects s), ioctl_calls := n\<rparr>")
    case True
    then obtain f' n where e: "enable_verity_maybe_copy K H f (ioctl_calls s) = Some (Inr (OnOriginal f'), n)"
      and s': "s' = s\<lparr>objects := bt_insert path f' (objects s), ioctl_calls := n\<rparr>" by blast
    note m = maybe_copy_enabled [OF env(2) e]
    have "verify_open hx K H f' oid (insecure s) = Inr ()"
      using verify_enabled [OF env(2,3), of f' "file_data f" hx "insecure s"] m(2) oid
      by (simp add: result_file_def)
    then show ?thesis using s' wf m(1) by (simp add: bt_get_insert result_file_def)
  next
    case False
    then have "objects s' = objects s"
      using r by (auto simp: store_existing_def split: sum.splits option.splits prod.splits enabled.splits if_splits)
    then show ?thesis using g v by simp
  qed
qed

lemma store_object_result:
  assumes env: "env_ok hx K H" and inv: "store_inv hx H s"
    and r: "store_object_with_id hx K H data (fsverity_digest H 12 data) s = Some (r, s')"
  shows "store_inv hx H s'" "insecure s' = insecure s"
    "r = Inr () \<Longrightarrow> no_collision H data s \<Longrightarrow> holds_object hx K H s' (fsverity_digest H 12 data) data"
    "oid \<noteq> [] \<Longrightarrow> holds_object hx K H s oid d \<Longrightarrow> holds_object hx K H s' oid d"
proof -
  note e = env_ok_simps [OF env]
  let ?oid = "fsverity_digest H 12 data"
  let ?path = "to_object_pathname hx ?oid"
  have "store_inv hx H s' \<and> insecure s' = insecure s \<and>
    (r = Inr () \<longrightarrow> no_collision H data s \<longrightarrow> holds_object hx K H s' ?oid data) \<and>
    (oid \<noteq> [] \<longrightarrow> holds_object hx K H s oid d \<longrightarrow> holds_object hx K H s' oid d)"
  proof (cases "bt_get (objects s) ?path")
    case None
    have r': "store_new hx K H ?path data ?oid s = Some (r, s')"
      using r None by (simp add: store_object_with_id_def Let_def)
    note res = store_new_result [OF e(2) inv None refl r']
    have "holds_object hx K H s' oid d" if h: "holds_object hx K H s oid d"
    proof -
      obtain f where f: "bt_get (objects s) (to_object_pathname hx oid) = Some f" "file_data f = d"
        "verify_open hx K H f oid (insecure s) = Inr ()" using h by (auto simp: holds_object_def)
      then have "to_object_pathname hx oid \<noteq> ?path" using None by auto
      then have "bt_get (objects s') (to_object_pathname hx oid) = Some f" using res f(1) by metis
      then show ?thesis using f res by (auto simp: holds_object_def)
    qed
    with res show ?thesis by (auto simp: holds_object_def)
  next
    case (Some f)
    have r': "store_existing hx K H ?path f ?oid s = Some (r, s')"
      using r Some by (simp add: store_object_with_id_def Let_def)
    note res = store_existing_result [OF e(2) inv Some r']
    have "file_data f = data" if "no_collision H data s"
    proof -
      have "to_object_pathname hx ?oid = to_object_pathname hx (fsverity_digest H 12 (file_data f))"
        using store_inv_get [OF inv Some] by simp
      then have "fsverity_digest H 12 (file_data f) = ?oid"
        using object_pathname_inj [OF e(1)] digest_not_Nil [OF e(3)] by metis
      then show ?thesis using that bt_get_SomeD [OF Some] by (auto simp: no_collision_def)
    qed
    moreover have "holds_object hx K H s' oid d" if "oid \<noteq> []" "holds_object hx K H s oid d"
    proof (cases "to_object_pathname hx oid = ?path")
      case True
      then have "oid = ?oid" using object_pathname_inj [OF e(1)] digest_not_Nil [OF e(3)] that(1) by metis
      then show ?thesis
        using store_existing_keeps [OF e(1-3) inv Some refl digest_not_Nil [OF e(3)] _ r'] that(2) Some res
        by (auto simp: holds_object_def)
    next
      case False
      then show ?thesis using that(2) res by (auto simp: holds_object_def)
    qed
    ultimately show ?thesis using res by (auto simp: holds_object_def)
  qed
  then show "store_inv hx H s'" "insecure s' = insecure s"
    "r = Inr () \<Longrightarrow> no_collision H data s \<Longrightarrow> holds_object hx K H s' ?oid data"
    "oid \<noteq> [] \<Longrightarrow> holds_object hx K H s oid d \<Longrightarrow> holds_object hx K H s' oid d"
    by blast+
qed

lemma ensure_object_eq:
  assumes "env_ok hx K H"
  shows "ensure_object hx K H data = io_bind (store_object_with_id hx K H data (fsverity_digest H 12 data))
    (\<lambda>_. io_return (fsverity_digest H 12 data))"
  by (simp add: ensure_object_def env_ok_simps(4) [OF assms])

lemma ensure_object_result:
  assumes env: "env_ok hx K H" and inv: "store_inv hx H s" and r: "ensure_object hx K H data s = Some (r, s')"
  shows "store_inv hx H s'" "insecure s' = insecure s"
    "r = Inr oid \<Longrightarrow> oid = fsverity_digest H 12 data"
    "r = Inr oid \<Longrightarrow> no_collision H data s \<Longrightarrow> holds_object hx K H s' oid data"
    "oid' \<noteq> [] \<Longrightarrow> holds_object hx K H s oid' d \<Longrightarrow> holds_object hx K H s' oid' d"
proof -
  obtain q where q: "store_object_with_id hx K H data (fsverity_digest H 12 data) s = Some (q, s')"
    and rq: "r = (case q of Inl e \<Rightarrow> Inl e | Inr _ \<Rightarrow> Inr (fsverity_digest H 12 data))"
    using r by (auto simp: ensure_object_eq [OF env] io_bind_def split: option.splits prod.splits sum.splits)
  note res = store_object_result [OF env inv q]
  show "store_inv hx H s'" "insecure s' = insecure s" by (rule res)+
  show "r = Inr oid \<Longrightarrow> oid = fsverity_digest H 12 data" using rq by (auto split: sum.splits)
  show "r = Inr oid \<Longrightarrow> no_collision H data s \<Longrightarrow> holds_object hx K H s' oid data"
    using rq res(3) by (auto split: sum.splits)
  show "oid' \<noteq> [] \<Longrightarrow> holds_object hx K H s oid' d \<Longrightarrow> holds_object hx K H s' oid' d"
    by (rule res(4))
qed

section \<open>The interface\<close>

text \<open>What a client of the store relies on: \<open>good\<close> is an invariant of the state, and
  \<open>has s oid data\<close> means that the object \<open>oid\<close> reads as \<open>data\<close>.\<close>

locale object_store =
  fixes ensure :: "bytes \<Rightarrow> ('e, 's, bytes) io"
    and read :: "bytes \<Rightarrow> ('e, 's, bytes) io"
    and good :: "'s \<Rightarrow> bool"
    and compatible :: "bytes \<Rightarrow> 's \<Rightarrow> bool"
    and has :: "'s \<Rightarrow> bytes \<Rightarrow> bytes \<Rightarrow> bool"
  assumes ensure_good: "good s \<Longrightarrow> ensure data s = Some (r, s') \<Longrightarrow> good s'"
    and ensure_has: "good s \<Longrightarrow> compatible data s \<Longrightarrow> ensure data s = Some (Inr oid, s') \<Longrightarrow> has s' oid data"
    and ensure_keeps: "good s \<Longrightarrow> ensure data s = Some (r, s') \<Longrightarrow> has s oid d \<Longrightarrow> has s' oid d"
    and read_has: "has s oid d \<Longrightarrow> read oid s = Some (Inr d, s)"
begin

lemma ensure_read:
  "good s \<Longrightarrow> compatible data s \<Longrightarrow> ensure data s = Some (Inr oid, s') \<Longrightarrow> read oid s' = Some (Inr data, s')"
  using ensure_has read_has by blast

lemma keep_reading:
  "good s \<Longrightarrow> compatible a s \<Longrightarrow> ensure a s = Some (Inr x, s1) \<Longrightarrow> ensure b s1 = Some (r, s2) \<Longrightarrow>
     read x s2 = Some (Inr a, s2)"
  using ensure_good ensure_has ensure_keeps read_has by blast

end

definition store_good :: "hex_crate \<Rightarrow> kernel \<Rightarrow> hash_alg \<Rightarrow> 'z repo_scheme \<Rightarrow> bool" where
  "store_good hx K H s \<longleftrightarrow> env_ok hx K H \<and> store_inv hx H s"

definition store_has :: "hex_crate \<Rightarrow> kernel \<Rightarrow> hash_alg \<Rightarrow> 'z repo_scheme \<Rightarrow> bytes \<Rightarrow> bytes \<Rightarrow> bool" where
  "store_has hx K H s oid d \<longleftrightarrow> oid \<noteq> [] \<and> holds_object hx K H s oid d"

interpretation store: object_store "ensure_object hx K H" "read_object hx K H" "store_good hx K H"
    "no_collision H" "store_has hx K H" for hx K H
proof unfold_locales
  fix s :: "'a repo_scheme" and data r s' oid d
  show "store_good hx K H s \<Longrightarrow> ensure_object hx K H data s = Some (r, s') \<Longrightarrow> store_good hx K H s'"
    using ensure_object_result(1) by (auto simp: store_good_def)
  show "store_good hx K H s \<Longrightarrow> ensure_object hx K H data s = Some (r, s') \<Longrightarrow> store_has hx K H s oid d \<Longrightarrow>
      store_has hx K H s' oid d"
    using ensure_object_result(5) by (auto simp: store_good_def store_has_def)
  show "store_has hx K H s oid d \<Longrightarrow> read_object hx K H oid s = Some (Inr d, s)"
    by (simp add: store_has_def read_holds)
  show "store_has hx K H s' oid data" if g: "store_good hx K H s" and c: "no_collision H data s"
    and r: "ensure_object hx K H data s = Some (Inr oid, s')"
  proof -
    have env: "env_ok hx K H" and inv: "store_inv hx H s" using g by (auto simp: store_good_def)
    show ?thesis
      using ensure_object_result(3,4) [OF env inv r] c digest_not_Nil [OF env_ok_simps(3) [OF env]]
      by (auto simp: store_has_def)
  qed
qed

text \<open> C12: An object that was stored reads back as it was stored, under the fs-verity digest of its
  content, also after any further object is stored (or fails to be), with or without enforcement;
  unless the store held other data with the same digest before. \<close>

theorem ensure_object_then_read:
  assumes "env_ok hx K H" and "store_inv hx H s" and "no_collision H a s"
    and "ensure_object hx K H a s = Some (Inr oid, s1)" and "ensure_object hx K H b s1 = Some (r, s2)"
  shows "oid = fsverity_digest H 12 a \<and> read_object hx K H oid s1 = Some (Inr a, s1) \<and>
    read_object hx K H oid s2 = Some (Inr a, s2) \<and> store_inv hx H s2"
proof -
  have g: "store_good hx K H s" using assms(1,2) by (simp add: store_good_def)
  show ?thesis
    using store.ensure_read [OF g assms(3,4)] store.keep_reading [OF g assms(3,4,5)]
      ensure_object_result(3) [OF assms(1,2,4)]
      store.ensure_good [OF store.ensure_good [OF g assms(4)] assms(5)]
    by (simp add: store_good_def)
qed

text \<open> C15: In a repository that enforces verity, whatever was put under an object's name, the data
  that is read has the fs-verity digest that was asked for. \<close>

theorem read_object_verified:
  assumes "kernel_laws K H" and "\<not> insecure s" and "\<forall>(p, f) \<in> set (objects s). honest H f"
    and "read_object hx K H oid s = Some (Inr data, s')"
  shows "fsverity_digest H 12 data = oid"
proof -
  have "holds_object hx K H s oid data"
    using assms(4) read_holds [of hx K H s oid data]
    by (auto simp: read_object_def open_object_def io_bind_def Let_def split: option.splits sum.splits)
  then obtain f where f: "bt_get (objects s) (to_object_pathname hx oid) = Some f" "file_data f = data"
    "verify_open hx K H f oid False = Inr ()"
    using assms(2) by (auto simp: holds_object_def)
  have "honest H f" using assms(3) bt_get_SomeD [OF f(1)] by auto
  moreover have "ensure_verity_equal hx K H f oid = Inr ()"
    using f(3) by (auto simp: verify_open_def split: sum.splits)
  ultimately show ?thesis using ensure_verity_equal_digest [OF assms(1)] f(2) by metis
qed

section \<open>Streamed objects\<close>

lemma reader_loop_chunks:
  "rest = [] \<or> length buf mod 4096 = 0 \<Longrightarrow>
     reader_loop H buf rest h = add_blocks H 12 h (chunks 4096 (buf @ rest))"
proof (induction H buf rest h rule: reader_loop.induct)
  case (1 H buf rest h)
  show ?case
  proof (cases "buf = []")
    case True
    show ?thesis
    proof (cases "rest = []")
      case True
      then show ?thesis using \<open>buf = []\<close> by (simp add: reader_loop.simps)
    next
      case False
      have "drop 8192 rest = [] \<or> length (take 8192 rest) mod 4096 = 0"
        by (cases "8192 \<le> length rest") auto
      then have "reader_loop H (take 8192 rest) (drop 8192 rest) h = add_blocks H 12 h (chunks 4096 rest)"
        using 1 True False by simp
      then show ?thesis using True False by (simp add: reader_loop.simps [of H "[]"])
    qed
  next
    case False
    let ?c = "min (length buf) (2 ^ 12)"
    have c: "chunks 4096 (buf @ rest) = take ?c buf # chunks 4096 (drop ?c buf @ rest)"
    proof (cases "4096 \<le> length buf")
      case True
      then show ?thesis using False by (subst chunks.simps) simp
    next
      case short: False
      then have "rest = []" using "1.prems" False by auto
      then show ?thesis using short False by (subst chunks.simps) simp
    qed
    have "rest = [] \<or> length (drop ?c buf) mod 4096 = 0"
      using "1.prems" by (cases "4096 \<le> length buf") (auto simp: le_mod_geq)
    then have "reader_loop H (drop ?c buf) rest h' = add_blocks H 12 h' (chunks 4096 (drop ?c buf @ rest))"
      if "add_block H 12 h (take ?c buf) = Some h'" for h'
      using "1.IH"(2) [OF False refl that] by simp
    then show ?thesis using False c
      by (simp add: reader_loop.simps [of H buf] Let_def cong: Option.bind_cong)
  qed
qed

lemma compute_verity_digest_eq: "compute_verity_digest H data = compute_verity H data"
  by (simp add: compute_verity_digest_def compute_verity_def hash_buffer_def hash_loop_chunks
      reader_loop_chunks)

lemma finalize_object_result:
  assumes env: "env_ok hx K H" and inv: "store_inv hx H s"
    and r: "finalize_object_tmpfile hx K H data sz s = Some (Inr oid, s')"
  shows "oid = fsverity_digest H 12 data \<and> store_inv hx H s' \<and>
    bt_get (objects s') (to_object_pathname hx oid) \<noteq> None \<and>
    (\<forall>p f. bt_get (objects s) p = Some f \<longrightarrow> bt_get (objects s') p = Some f)"
proof -
  note e = env_ok_simps [OF env]
  have wf: "bt_wf (objects s)" using inv by (simp add: store_inv_def)
  obtain q n where q: "enable_verity_maybe_copy K H (fresh_file data) (ioctl_calls s) = Some (q, n)"
    using r by (auto simp: finalize_object_tmpfile_def split: option.splits)
  have step: "\<exists>f. honest H f \<and> file_data f = data \<and> oid = fsverity_digest H 12 data \<and>
      (s' = s\<lparr>ioctl_calls := n\<rparr> \<and> bt_get (objects s) (to_object_pathname hx oid) \<noteq> None \<or>
       s' = link_object (to_object_pathname hx oid) f (s\<lparr>ioctl_calls := n\<rparr>))"
  proof (cases q)
    case (Inr en)
    note h = honest_enabled [OF e(2) q [unfolded Inr]]
    have m: "measure_verity K H (result_file en) = Inr oid"
      using r q Inr by (auto simp: finalize_object_tmpfile_def Let_def split: sum.splits if_splits)
    then have "oid = fsverity_digest H 12 data"
      using measure_honest(1) [OF e(2) h(1)] h(2) by simp
    moreover have "s' = s\<lparr>ioctl_calls := n\<rparr> \<and> bt_get (objects s) (to_object_pathname hx oid) \<noteq> None \<or>
       s' = link_object (to_object_pathname hx oid) (result_file en) (s\<lparr>ioctl_calls := n\<rparr>)"
      using r q Inr m by (auto simp: finalize_object_tmpfile_def Let_def split: option.splits if_splits)
    ultimately show ?thesis using h by auto
  next
    case (Inl err)
    have "err \<noteq> AlreadyEnabled"
      using r q Inl measure_fresh [OF e(2), of "fresh_file data"]
      by (auto simp: finalize_object_tmpfile_def Let_def fresh_file_def)
    then have i: "err = EnableNotSupported" "insecure s"
      using r q Inl by (auto simp: finalize_object_tmpfile_def Let_def split: if_splits)
    then have "oid = fsverity_digest H 12 data"
      using r q Inl e(4) [of data]
      by (auto simp: finalize_object_tmpfile_def Let_def compute_verity_digest_eq split: if_splits)
    moreover have "s' = s\<lparr>ioctl_calls := n\<rparr> \<and> bt_get (objects s) (to_object_pathname hx oid) \<noteq> None \<or>
       s' = link_object (to_object_pathname hx oid) (fresh_file data) (s\<lparr>ioctl_calls := n\<rparr>)"
      using r q Inl i e(4) [of data]
      by (auto simp: finalize_object_tmpfile_def Let_def compute_verity_digest_eq split: option.splits if_splits)
    ultimately show ?thesis by (intro exI [of _ "fresh_file data"]) simp
  qed
  then obtain f where f: "honest H f" "file_data f = data" "oid = fsverity_digest H 12 data"
    and s': "s' = s\<lparr>ioctl_calls := n\<rparr> \<and> bt_get (objects s) (to_object_pathname hx oid) \<noteq> None \<or>
       s' = link_object (to_object_pathname hx oid) f (s\<lparr>ioctl_calls := n\<rparr>)" by blast
  have "store_inv hx H (link_object (to_object_pathname hx oid) f (s\<lparr>ioctl_calls := n\<rparr>))"
    using store_inv_insert [of hx H "s\<lparr>ioctl_calls := n\<rparr>" f] inv f by (simp add: link_object_def)
  with s' f inv wf show ?thesis by (auto simp: objects_link_object)
qed

text \<open> C16: Streaming an object into the store names it as storing it at once does: on every path
  (kernel digest, or the digest computed in userspace without enforcement) the name is the
  fs-verity digest of the data, and every object stays where and what it was. \<close>

theorem finalize_object_names_data:
  assumes env: "env_ok hx K H" and inv: "store_inv hx H s"
    and r: "finalize_object_tmpfile hx K H data sz s = Some (Inr oid, s')"
  shows "oid = fsverity_digest H 12 data \<and> store_inv hx H s' \<and>
    bt_get (objects s') (to_object_pathname hx oid) \<noteq> None \<and>
    (\<forall>p f. bt_get (objects s) p = Some f \<longrightarrow> bt_get (objects s') p = Some f)"
  by (rule finalize_object_result [OF assms])

lemma finalize_object_error:
  "store_inv hx H s \<Longrightarrow> finalize_object_tmpfile hx K H data n s = Some (Inl e, s') \<Longrightarrow> store_inv hx H s'"
  by (auto simp: finalize_object_tmpfile_def Let_def split: option.splits prod.splits sum.splits if_splits)

section \<open>An example store\<close>

definition toy_H :: hash_alg where "toy_H = Sha256HashValue toy_sha256"
definition toy_K :: kernel where "toy_K = model_kernel toy_H (\<lambda>n. 1 \<le> n)"
definition empty_repo :: repo where "empty_repo = \<lparr>objects = [], insecure = False, ioctl_calls = 0\<rparr>"

lemma toy_env: "env_ok hex_codec toy_K toy_H"
  using toy_sha256_ok by (simp add: env_ok_def hex_laws_hex_codec toy_K_def model_kernel_laws toy_H_def)

text \<open>The toy digests tell data of different lengths apart.\<close>

lemma nth8_le64: "le64 w ! 0 = char_of (unat w)"
proof -
  have "le_bytes (Suc 7) n ! 0 = char_of n" for n
    by (simp only: le_bytes.simps nth_Cons_0 char_of_mod_256)
  then show ?thesis by (simp add: le64_def)
qed

lemma toy_digest_length:
  assumes "fsverity_digest toy_H 12 a = fsverity_digest toy_H 12 b"
  shows "length a mod 256 = length b mod 256"
proof -
  have last: "last (fsverity_digest toy_H 12 d) = char_of (length d)" for d
  proof -
    let ?r = "merkle_root toy_H (2 ^ 12) (map (hash_block toy_H (2 ^ 12)) (chunks (2 ^ 12) d))"
    let ?D = "descriptor toy_H 12 (of_nat (length d)) ?r"
    have h: "Digest toy_H x = toy_sha256 x" "size_of toy_H = 32" for x
      by (simp_all add: toy_H_def Sha256HashValue_def)
    have "8 < length ?D" "hd ?D = CHR 0x01"
      by (simp_all add: descriptor_def char_of_def bit_0)
    then have "last (toy_sha256 ?D) = ?D ! 8" by (simp add: toy_sha256_def)
    also have "?D ! 8 = le64 (of_nat (length d)) ! 0"
      by (simp add: descriptor_def nth_append)
    also have "\<dots> = char_of (length d)" by (simp add: nth8_le64 unat_of_nat mod_mod_cancel)
    finally show ?thesis by (simp add: fsverity_digest_def h)
  qed
  have "char_of (length a) = (char_of (length b) :: char)" using last [of a] last [of b] assms by simp
  then show ?thesis by (metis of_char_of)
qed

lemma empty_repo_ok [simp]: "store_inv hx H empty_repo" "no_collision H d empty_repo"
  by (simp_all add: store_inv_def no_collision_def empty_repo_def)

lemma toy_enable:
  "enable_verity_maybe_copy toy_K toy_H (fresh_file d) 0 =
    Some (Inr (OnOriginal \<lparr>file_data = d, file_verity = Some (1, fsverity_digest toy_H 12 d)\<rparr>), 2)"
  "1 \<le> n \<Longrightarrow> enable_verity_maybe_copy toy_K toy_H (fresh_file d) n =
    Some (Inr (OnOriginal \<lparr>file_data = d, file_verity = Some (1, fsverity_digest toy_H 12 d)\<rparr>), n + 1)"
proof -
  have a: "fs_ioc_enable_verity toy_K toy_H n (fresh_file d) =
     (if 1 \<le> n then Inr \<lparr>file_data = d, file_verity = Some (1, fsverity_digest toy_H 12 d)\<rparr>
      else Inl FileOpenedForWrite)" for n
    by (simp add: fs_ioc_enable_verity_def toy_K_def model_kernel_def fresh_file_def)
      (simp add: toy_H_def Sha256HashValue_def)
  have b: "retry_loop toy_K toy_H 1 (fresh_file d) 0 =
      (Inr \<lparr>file_data = d, file_verity = Some (1, fsverity_digest toy_H 12 d)\<rparr>, 2)"
    by (simp add: retry_loop.simps enable_verity_raw_def a)
  show "enable_verity_maybe_copy toy_K toy_H (fresh_file d) 0 =
    Some (Inr (OnOriginal \<lparr>file_data = d, file_verity = Some (1, fsverity_digest toy_H 12 d)\<rparr>), 2)"
    using b by (simp add: enable_verity_maybe_copy_def enable_verity_with_retry_def)
  show "1 \<le> n \<Longrightarrow> enable_verity_maybe_copy toy_K toy_H (fresh_file d) n =
    Some (Inr (OnOriginal \<lparr>file_data = d, file_verity = Some (1, fsverity_digest toy_H 12 d)\<rparr>), n + 1)"
    by (simp add: enable_verity_maybe_copy_def enable_verity_with_retry_def retry_loop.simps
        enable_verity_raw_def a)
qed

lemma toy_store_new:
  assumes "bt_get (objects s) (to_object_pathname hex_codec (fsverity_digest toy_H 12 d)) = None"
  shows "\<exists>s'. ensure_object hex_codec toy_K toy_H d s = Some (Inr (fsverity_digest toy_H 12 d), s')"
proof -
  obtain en n where e: "enable_verity_maybe_copy toy_K toy_H (fresh_file d) (ioctl_calls s) = Some (Inr (OnOriginal en), n)"
    and v: "file_verity en = Some (1, fsverity_digest toy_H 12 d)"
    using toy_enable(1) [of d] toy_enable(2) [of "ioctl_calls s" d] by (cases "ioctl_calls s = 0") auto
  have "ALGORITHM toy_H = 1" by (simp add: toy_H_def Sha256HashValue_def)
  then have "verify_open hex_codec toy_K toy_H en (fsverity_digest toy_H 12 d) False = Inr ()"
    using v toy_env by (intro verify_enabled) (simp_all add: env_ok_def)
  then have "ensure_verity_equal hex_codec toy_K toy_H en (fsverity_digest toy_H 12 d) = Inr ()"
    by (auto simp: verify_open_def split: sum.splits)
  then show ?thesis using assms e
    by (simp add: ensure_object_eq [OF toy_env] io_bind_def store_object_with_id_def Let_def store_new_def
        result_file_def)
qed

lemma toy_store_other:
  assumes "store_inv hex_codec toy_H s" "\<forall>(p, f) \<in> set (objects s). file_data f = d"
    "fsverity_digest toy_H 12 e \<noteq> fsverity_digest toy_H 12 d"
  shows "\<exists>s'. ensure_object hex_codec toy_K toy_H e s = Some (Inr (fsverity_digest toy_H 12 e), s')"
proof (rule toy_store_new, rule ccontr)
  assume "bt_get (objects s) (to_object_pathname hex_codec (fsverity_digest toy_H 12 e)) \<noteq> None"
  then obtain f where f: "bt_get (objects s) (to_object_pathname hex_codec (fsverity_digest toy_H 12 e)) = Some f" by auto
  have "fsverity_digest toy_H 12 x \<noteq> []" for x using toy_env digest_not_Nil by (simp add: env_ok_def)
  then have "fsverity_digest toy_H 12 e = fsverity_digest toy_H 12 (file_data f)"
    using store_inv_get [OF assms(1) f] object_pathname_inj [OF hex_laws_hex_codec] by blast
  then show False using assms(2,3) bt_get_SomeD [OF f] by auto
qed

lemma toy_finalize:
  "\<exists>s'. finalize_object_tmpfile hex_codec toy_K toy_H d n s = Some (Inr (fsverity_digest toy_H 12 d), s') \<and>
     (\<forall>(p, f) \<in> set (objects s'). (p, f) \<in> set (objects s) \<or> file_data f = d)"
proof -
  have a: "ALGORITHM toy_H = 1" by (simp add: toy_H_def Sha256HashValue_def)
  have "measure_verity toy_K toy_H \<lparr>file_data = d, file_verity = Some (1, fsverity_digest toy_H 12 d)\<rparr> =
      Inr (fsverity_digest toy_H 12 d)"
    using toy_env by (intro measure_enabled) (simp_all add: env_ok_def length_fsverity_digest a)
  moreover obtain m where "enable_verity_maybe_copy toy_K toy_H (fresh_file d) (ioctl_calls s) =
      Some (Inr (OnOriginal \<lparr>file_data = d, file_verity = Some (1, fsverity_digest toy_H 12 d)\<rparr>), m)"
    using toy_enable(1) [of d] toy_enable(2) [of "ioctl_calls s" d] by (cases "ioctl_calls s = 0") auto
  ultimately show ?thesis
    by (auto simp: finalize_object_tmpfile_def Let_def result_file_def link_object_def split: option.splits
        dest!: set_mp [OF set_bt_insert_subset])
qed

lemma ensure_new_objects:
  assumes "env_ok hx K H" "bt_wf (objects s)" "ensure_object hx K H d s = Some (r, s')" "(p, f) \<in> set (objects s')"
    "bt_get (objects s) (to_object_pathname hx (fsverity_digest H 12 d)) = None"
  shows "(p, f) \<in> set (objects s) \<or> file_data f = d"
proof -
  obtain q where "store_new hx K H (to_object_pathname hx (fsverity_digest H 12 d)) d (fsverity_digest H 12 d) s = Some (q, s')"
    using assms(3,5) by (auto simp: ensure_object_eq [OF assms(1)] io_bind_def store_object_with_id_def Let_def
        split: option.splits sum.splits prod.splits)
  moreover have "file_data (result_file e) = d"
    if "enable_verity_maybe_copy K H (fresh_file d) n = Some (Inr e, m)" for e n m
    using honest_enabled(2) [OF env_ok_simps(2) [OF assms(1)] that] by simp
  ultimately show ?thesis using assms(4)
    by (auto simp: store_new_def link_object_def Let_def split: option.splits sum.splits prod.splits if_splits
        dest!: set_mp [OF set_bt_insert_subset])
qed

lemma ensure_object_then_read_witness:
  "\<exists>s1 s2 r. ensure_object hex_codec toy_K toy_H ''abc'' empty_repo = Some (Inr (fsverity_digest toy_H 12 ''abc''), s1) \<and>
     ensure_object hex_codec toy_K toy_H ''abc'' s1 = Some (r, s2) \<and>
     read_object hex_codec toy_K toy_H (fsverity_digest toy_H 12 ''abc'') s2 = Some (Inr ''abc'', s2)"
proof -
  have "bt_get (objects empty_repo) (to_object_pathname hex_codec (fsverity_digest toy_H 12 ''abc'')) = None"
    by (simp add: empty_repo_def bt_get_def)
  from toy_store_new [OF this] obtain s1 where s1: "ensure_object hex_codec toy_K toy_H ''abc'' empty_repo =
      Some (Inr (fsverity_digest toy_H 12 ''abc''), s1)" by blast
  have h: "holds_object hex_codec toy_K toy_H s1 (fsverity_digest toy_H 12 ''abc'') ''abc''"
    using ensure_object_result(4) [OF toy_env empty_repo_ok(1) s1] by simp
  have ni: "\<not> insecure s1" using ensure_object_result(2) [OF toy_env empty_repo_ok(1) s1] by (simp add: empty_repo_def)
  obtain f where f: "bt_get (objects s1) (to_object_pathname hex_codec (fsverity_digest toy_H 12 ''abc'')) = Some f"
    "verify_open hex_codec toy_K toy_H f (fsverity_digest toy_H 12 ''abc'') False = Inr ()"
    using h ni by (auto simp: holds_object_def)
  have "ensure_verity_equal hex_codec toy_K toy_H f (fsverity_digest toy_H 12 ''abc'') = Inr ()"
    using f(2) by (auto simp: verify_open_def split: sum.splits)
  then have s2: "ensure_object hex_codec toy_K toy_H ''abc'' s1 = Some (Inr (fsverity_digest toy_H 12 ''abc''), s1)"
    using f(1) by (simp add: ensure_object_eq [OF toy_env] io_bind_def store_object_with_id_def Let_def
        store_existing_def)
  show ?thesis
    using ensure_object_then_read [OF toy_env empty_repo_ok s1 s2] s1 s2 by blast
qed

definition toy_file :: "bytes \<Rightarrow> verity_file" where
  "toy_file d = \<lparr>file_data = d, file_verity = Some (ALGORITHM toy_H, fsverity_digest toy_H 12 d)\<rparr>"

definition toy_repo :: "bytes \<Rightarrow> repo" where
  "toy_repo d = \<lparr>objects = [(to_object_pathname hex_codec (fsverity_digest toy_H 12 d), toy_file d)],
     insecure = False, ioctl_calls = 0\<rparr>"

lemma read_object_verified_witness:
  "read_object hex_codec toy_K toy_H (fsverity_digest toy_H 12 ''abc'') (toy_repo ''abc'') =
     Some (Inr ''abc'', toy_repo ''abc'') \<and>
   fsverity_digest toy_H 12 ''abc'' = fsverity_digest toy_H 12 ''abc''"
proof
  have K: "kernel_laws toy_K toy_H" "alg_ok toy_H 12" using toy_env by (simp_all add: env_ok_def)
  have "verify_open hex_codec toy_K toy_H (toy_file ''abc'') (fsverity_digest toy_H 12 ''abc'') False = Inr ()"
    by (rule verify_enabled [OF K]) (simp add: toy_file_def)
  then show r: "read_object hex_codec toy_K toy_H (fsverity_digest toy_H 12 ''abc'') (toy_repo ''abc'') =
     Some (Inr ''abc'', toy_repo ''abc'')"
    by (simp add: read_holds [symmetric] holds_object_def toy_repo_def bt_get_def) (simp add: toy_file_def)
  show "fsverity_digest toy_H 12 ''abc'' = fsverity_digest toy_H 12 ''abc''"
    by (rule read_object_verified [OF K(1) _ _ r]) (simp_all add: toy_repo_def honest_def toy_file_def)
qed

lemma finalize_object_names_data_witness:
  "\<exists>s'. finalize_object_tmpfile hex_codec toy_K toy_H ''abc'' 3 empty_repo =
      Some (Inr (fsverity_digest toy_H 12 ''abc''), s') \<and> store_inv hex_codec toy_H s'"
proof -
  obtain s' where "finalize_object_tmpfile hex_codec toy_K toy_H ''abc'' 3 empty_repo =
      Some (Inr (fsverity_digest toy_H 12 ''abc''), s')"
    using toy_finalize by blast
  then show ?thesis
    using finalize_object_names_data [OF toy_env empty_repo_ok(1), of "''abc''" 3] by blast
qed

end
