(* ===== verification/Boot_Entries.thy ===== *)
theory Boot_Entries
  imports Boot_Cmdline Generic_Tree Object_Store
begin

text \<open>
  Models the boot entries of \<open>crates/composefs-boot/src/bootloader.rs\<close> and \<open>read_file\<close> of
  \<open>crates/composefs/src/fs.rs\<close>: entries of type 1 with their files, images of type 2, and kernels in
  \<open>/usr/lib/modules\<close>, as they are found in a filesystem tree. A hash map of files is an ordered map.
\<close>

section \<open>Files\<close>

datatype boot_error =
    BootImage image_error
  | BootRepo repo_error
  | WrongLength
  | NotUtf8
  | IsDirectory bytes
  | NotRegular bytes

definition boot_read_file :: "hex_crate \<Rightarrow> kernel \<Rightarrow> hash_alg \<Rightarrow> regular_file \<Rightarrow> (boot_error, 'z repo_scheme, bytes) io" where
  "boot_read_file hx K H f = (case f of
       Inline d \<Rightarrow> io_return d
     | External oid sz \<Rightarrow> (\<lambda>s. case read_object hx K H oid s of
           None \<Rightarrow> None
         | Some (r, s') \<Rightarrow> Some (rbind (map_err BootRepo r) (\<lambda>d.
             rbind (ensure_r (sz = of_nat (length d)) WrongLength) (\<lambda>_. Inr d)), s')))"

section \<open>Entries of type 1\<close>

record type1_entry =
  t1_filename :: bytes
  t1_entry :: boot_entry_file
  t1_files :: "(bytes \<times> regular_file) list"

definition boot_keys :: "bytes list" where
  "boot_keys = [''linux'', ''initrd'', ''efi'']"

definition relocated_name :: "bytes \<Rightarrow> bytes \<Rightarrow> bytes" where
  "relocated_name entry_id basename = ''/'' @ entry_id @ ''/'' @ basename"

definition final_entry_path :: "bytes option \<Rightarrow> bytes \<Rightarrow> bytes" where
  "final_entry_path boot_subdir new = (case boot_subdir of Some d \<Rightarrow> ''/'' @ d @ new | None \<Rightarrow> new)"

definition relocate_key :: "bytes option \<Rightarrow> bytes \<Rightarrow> bytes \<Rightarrow> bytes \<times> (bytes \<times> regular_file) list \<Rightarrow> bytes \<times> (bytes \<times> regular_file) list" where
  "relocate_key boot_subdir entry_id key lf = (case lf of (line, files) \<Rightarrow> (case strip_ble_key line key of
       None \<Rightarrow> (line, files)
     | Some v \<Rightarrow> (case rsplit_once CHR ''/'' v of
           None \<Rightarrow> (line, files)
         | Some (_, basename) \<Rightarrow>
             (let new = relocated_name entry_id basename; start = length line - length v in
              (replace_range line start (start + length v) (final_entry_path boot_subdir new),
               (case bt_get files v of None \<Rightarrow> bt_remove v files | Some f \<Rightarrow> bt_insert new f (bt_remove v files)))))))"

fun relocate_lines :: "bytes option \<Rightarrow> bytes \<Rightarrow> bytes list \<Rightarrow> (bytes \<times> regular_file) list \<Rightarrow> bytes list \<times> (bytes \<times> regular_file) list" where
  "relocate_lines boot_subdir entry_id [] files = ([], files)"
| "relocate_lines boot_subdir entry_id (line # ls) files =
     (let (line', files1) = fold (relocate_key boot_subdir entry_id) boot_keys (line, files);
          (ls', files2) = relocate_lines boot_subdir entry_id ls files1
      in (line' # ls', files2))"

definition relocate :: "bytes option \<Rightarrow> bytes \<Rightarrow> type1_entry \<Rightarrow> type1_entry" where
  "relocate boot_subdir entry_id t = (let (ls, files) = relocate_lines boot_subdir entry_id (entry_lines (t1_entry t)) (t1_files t) in
     t\<lparr>t1_filename := entry_id @ ''.conf'', t1_entry := (t1_entry t)\<lparr>entry_lines := ls\<rparr>, t1_files := files\<rparr>)"

definition referenced :: "boot_entry_file \<Rightarrow> bytes list" where
  "referenced e = concat (map (get_values e) boot_keys)"

definition load_files :: "regular_file filesystem \<Rightarrow> bytes list \<Rightarrow> boot_error + (bytes \<times> regular_file) list" where
  "load_files fs paths = rfold (\<lambda>files pathname.
     rbind (map_err BootImage (Generic_Tree.split (root fs) pathname)) (\<lambda>(dir, filename).
     rbind (map_err BootImage (get_file (heap fs) dir filename)) (\<lambda>f. Inr (bt_insert pathname f files)))) [] paths"

definition type1_load :: "hex_crate \<Rightarrow> kernel \<Rightarrow> hash_alg \<Rightarrow> bytes \<Rightarrow> regular_file \<Rightarrow> regular_file filesystem \<Rightarrow>
    (boot_error, 'z repo_scheme, type1_entry) io" where
  "type1_load hx K H filename f fs = io_bind (boot_read_file hx K H f) (\<lambda>content.
     io_lift (rbind (ensure_r (utf8_valid content) NotUtf8) (\<lambda>_.
       let e = entry_new content in
       rbind (load_files fs (referenced e)) (\<lambda>files. Inr \<lparr>t1_filename = filename, t1_entry = e, t1_files = files\<rparr>))))"

fun type1_load_entries :: "hex_crate \<Rightarrow> kernel \<Rightarrow> hash_alg \<Rightarrow> regular_file filesystem \<Rightarrow> (bytes \<times> inode) list \<Rightarrow>
    (boot_error, 'z repo_scheme, type1_entry list) io" where
  "type1_load_entries hx K H fs [] = io_return []"
| "type1_load_entries hx K H fs ((filename, inode) # es) =
     (if \<not> ends_with ''.conf'' filename then type1_load_entries hx K H fs es
      else case inode of
          IDirectory _ \<Rightarrow> io_fail (IsDirectory filename)
        | ILeaf r \<Rightarrow> (case content (heap fs ! r) of
              Regular f \<Rightarrow> io_bind (type1_load hx K H filename f fs) (\<lambda>t.
                io_bind (type1_load_entries hx K H fs es) (\<lambda>ts. io_return (t # ts)))
            | _ \<Rightarrow> io_fail (NotRegular filename)))"

text \<open>A directory that is not found counts as empty.\<close>

definition directory_entries :: "directory \<Rightarrow> bytes \<Rightarrow> boot_error + (bytes \<times> inode) list" where
  "directory_entries d path = (case get_directory d path of
       Inr s \<Rightarrow> Inr (entries s)
     | Inl (NotFound _) \<Rightarrow> Inr []
     | Inl e \<Rightarrow> Inl (BootImage e))"

definition type1_load_all :: "hex_crate \<Rightarrow> kernel \<Rightarrow> hash_alg \<Rightarrow> regular_file filesystem \<Rightarrow> (boot_error, 'z repo_scheme, type1_entry list) io" where
  "type1_load_all hx K H fs = io_bind (io_lift (directory_entries (root fs) ''/boot/loader/entries'')) (type1_load_entries hx K H fs)"

section \<open>Entries of type 2\<close>

definition EFI_EXT :: bytes where "EFI_EXT = ''.efi''"

datatype pe_type = Uki | UkiAddon

record type2_entry =
  kver :: "bytes option"
  file_path :: bytes
  t2_file :: regular_file
  t2_type :: pe_type

definition type2_rename :: "bytes \<Rightarrow> type2_entry \<Rightarrow> type2_entry" where
  "type2_rename name t = t\<lparr>file_path := (case Rust_Path.parent (file_path t) of
       Some p \<Rightarrow> push p (name @ ''.efi'') | None \<Rightarrow> name @ ''.efi'')\<rparr>"

text \<open>The path is pushed before an entry and popped after it, so that each entry sees the path of its directory.\<close>

function find_uki_components :: "regular_file leaf list \<Rightarrow> bytes option \<Rightarrow> bytes \<Rightarrow> directory \<Rightarrow> type2_entry list \<Rightarrow> boot_error + type2_entry list"
  and find_uki_entries :: "regular_file leaf list \<Rightarrow> bytes option \<Rightarrow> bytes \<Rightarrow> (bytes \<times> inode) list \<Rightarrow> type2_entry list \<Rightarrow> boot_error + type2_entry list" where
  "find_uki_components h kv path (Directory st es) acc = find_uki_entries h kv path es acc"
| "find_uki_entries h kv path [] acc = Inr acc"
| "find_uki_entries h kv path ((filename, IDirectory d) # es) acc =
     rbind (find_uki_components h kv (push path filename) d acc) (\<lambda>acc1. find_uki_entries h kv path es acc1)"
| "find_uki_entries h kv path ((filename, ILeaf r) # es) acc =
     (if \<not> ends_with EFI_EXT filename then find_uki_entries h kv path es acc
      else case content (h ! r) of
          Regular f \<Rightarrow> find_uki_entries h kv path es (acc @ [\<lparr>kver = kv, file_path = push path filename, t2_file = f,
            t2_type = (if length (components (push path filename)) = 1 then Uki else UkiAddon)\<rparr>])
        | _ \<Rightarrow> Inl (NotRegular filename))"
  by pat_completeness auto
termination
  by (relation "measure (case_sum (\<lambda>(h, kv, p, d, acc). size d)
    (\<lambda>(h, kv, p, es, acc). size_list (size_prod (\<lambda>_. 0) (size_inode_of size)) es))") auto

definition type2_load_all :: "regular_file filesystem \<Rightarrow> boot_error + type2_entry list" where
  "type2_load_all fs =
     rbind (directory_entries (root fs) ''/boot/EFI/Linux'') (\<lambda>es.
     rbind (find_uki_entries (heap fs) None [] es []) (\<lambda>acc.
     rbind (directory_entries (root fs) ''/usr/lib/modules'') (\<lambda>modules.
       rfold (\<lambda>acc (kv, inode). case inode of
           IDirectory dir \<Rightarrow> find_uki_components (heap fs) (Some kv) [] dir acc
         | ILeaf _ \<Rightarrow> Inr acc) acc modules)))"

section \<open>Kernels in \<open>/usr/lib/modules\<close>\<close>

record vmlinuz_entry =
  vm_kver :: bytes
  vmlinuz :: regular_file
  initramfs :: "regular_file option"
  os_release :: "regular_file option"

text \<open>None: the panic of \<open>unwrap\<close> on a missing initramfs.\<close>

definition into_type1 :: "bytes option \<Rightarrow> vmlinuz_entry \<Rightarrow> type1_entry option" where
  "into_type1 entry_id v = (let eid = (case entry_id of Some i \<Rightarrow> i | None \<Rightarrow> vm_kver v); nl = [CHR 0x0A] in
     map_option (\<lambda>img. \<lparr>t1_filename = eid @ ''.conf'',
       t1_entry = entry_new (''# File created by composefs'' @ nl @ ''title todoOS'' @ nl @ ''version 0-todo'' @ nl @
         ''linux /'' @ eid @ ''/vmlinuz'' @ nl @ ''initrd /'' @ eid @ ''/initramfs.img'' @ nl),
       t1_files = bt_insert (''/'' @ eid @ ''/initramfs.img'') img (bt_insert (''/'' @ eid @ ''/vmlinuz'') (vmlinuz v) [])\<rparr>) (initramfs v))"

definition result_ok :: "'e + 'a \<Rightarrow> 'a option" where
  "result_ok r = (case r of Inl _ \<Rightarrow> None | Inr x \<Rightarrow> Some x)"

definition vmlinuz_load_all :: "regular_file filesystem \<Rightarrow> boot_error + vmlinuz_entry list" where
  "vmlinuz_load_all fs =
     rbind (directory_entries (root fs) ''/usr/lib/modules'') (\<lambda>modules.
       rfold (\<lambda>acc (kv, inode). case inode of
           ILeaf _ \<Rightarrow> Inr acc
         | IDirectory dir \<Rightarrow> (case get_file (heap fs) dir ''vmlinuz'' of
               Inl _ \<Rightarrow> Inr acc
             | Inr vm \<Rightarrow> rbind (ensure_r (utf8_valid kv) NotUtf8) (\<lambda>_. Inr (acc @ [\<lparr>vm_kver = kv, vmlinuz = vm,
                 initramfs = result_ok (get_file (heap fs) dir ''initramfs.img''),
                 os_release = result_ok (get_file (heap fs) (root fs) ''/usr/lib/os-release'')\<rparr>])))) [] modules)"

datatype boot_entry = Type1 type1_entry | Type2 type2_entry | UsrLibModulesVmLinuz vmlinuz_entry

definition get_boot_resources :: "hex_crate \<Rightarrow> kernel \<Rightarrow> hash_alg \<Rightarrow> regular_file filesystem \<Rightarrow> (boot_error, 'z repo_scheme, boot_entry list) io" where
  "get_boot_resources hx K H fs = io_bind (type1_load_all hx K H fs) (\<lambda>t1.
     io_bind (io_lift (type2_load_all fs)) (\<lambda>t2.
     io_bind (io_lift (vmlinuz_load_all fs)) (\<lambda>vm.
       io_return (map Type1 t1 @ map Type2 t2 @ map UsrLibModulesVmLinuz vm))))"

section \<open>Relocating the files of an entry\<close>

definition new_path :: "bytes \<Rightarrow> bytes \<Rightarrow> bytes" where
  "new_path entry_id v = (case rsplit_once CHR ''/'' v of None \<Rightarrow> v | Some (_, b) \<Rightarrow> relocated_name entry_id b)"

definition final_path :: "bytes option \<Rightarrow> bytes \<Rightarrow> bytes \<Rightarrow> bytes" where
  "final_path boot_subdir entry_id v = (case rsplit_once CHR ''/'' v of
       None \<Rightarrow> v | Some (_, b) \<Rightarrow> final_entry_path boot_subdir (relocated_name entry_id b))"

definition move_file :: "bytes \<Rightarrow> bytes \<Rightarrow> (bytes \<times> regular_file) list \<Rightarrow> (bytes \<times> regular_file) list" where
  "move_file entry_id v files = (if rsplit_once CHR ''/'' v = None then files else (case bt_get files v of
       None \<Rightarrow> bt_remove v files | Some f \<Rightarrow> bt_insert (new_path entry_id v) f (bt_remove v files)))"

lemma rsplit_once_SomeD: "rsplit_once d s = Some (p, r) \<Longrightarrow> s = p @ d # r \<and> d \<notin> set r"
  using split_once_SomeD [of d "rev s"] by (auto simp: rsplit_once_def rev_swap split: option.splits)

lemma new_path_idem: "new_path i (new_path i v) = new_path i v"
proof (cases "rsplit_once CHR ''/'' v")
  case (Some pb)
  obtain p b where pb: "pb = (p, b)" by (cases pb)
  then have "CHR ''/'' \<notin> set b" using rsplit_once_SomeD [OF Some [unfolded pb]] by blast
  then have "rsplit_once CHR ''/'' (relocated_name i b) = Some (CHR ''/'' # i, b)"
    using rsplit_once_append [of "CHR ''/''" b "CHR ''/'' # i"] by (simp add: relocated_name_def)
  then show ?thesis using Some pb by (simp add: new_path_def)
qed (simp add: new_path_def)

lemma move_files:
  assumes V: "inj_on (new_path i) V" "set vs \<subseteq> V" and F: "bt_wf F" "\<forall>v \<in> V. bt_get F v \<noteq> None"
  shows "bt_wf (fold (move_file i) vs F) \<and> (\<forall>v \<in> V.
    (v \<in> set vs \<longrightarrow> bt_get (fold (move_file i) vs F) (new_path i v) = bt_get F v) \<and>
    (v \<notin> set vs \<longrightarrow> bt_get (fold (move_file i) vs F) v = bt_get F v) \<and>
    (v \<in> set vs \<longrightarrow> new_path i v \<noteq> v \<longrightarrow> bt_get (fold (move_file i) vs F) v = None))"
  using V(2)
proof (induction vs rule: rev_induct)
  case (snoc u vs)
  define G where "G = fold (move_file i) vs F"
  have ih: "bt_wf G" "\<And>v. v \<in> V \<Longrightarrow> v \<in> set vs \<Longrightarrow> bt_get G (new_path i v) = bt_get F v"
    "\<And>v. v \<in> V \<Longrightarrow> v \<notin> set vs \<Longrightarrow> bt_get G v = bt_get F v"
    "\<And>v. v \<in> V \<Longrightarrow> v \<in> set vs \<Longrightarrow> new_path i v \<noteq> v \<Longrightarrow> bt_get G v = None"
    using snoc by (auto simp: G_def)
  have u: "u \<in> V" using snoc.prems by simp
  have step: "fold (move_file i) (vs @ [u]) F = move_file i u G" by (simp add: G_def)
  have wf: "bt_wf (bt_remove u G)" using ih(1) by (rule bt_wf_remove)
  have m: "bt_wf (move_file i u G)" using ih(1) wf by (simp add: move_file_def bt_wf_insert split: option.split)
  have g: "bt_get (move_file i u G) w = (if rsplit_once CHR ''/'' u = None then bt_get G w
      else if w = new_path i u \<and> bt_get G u \<noteq> None then bt_get G u else if w = u then None else bt_get G w)" for w
    using ih(1) wf by (auto simp: move_file_def bt_get_insert bt_get_remove split: option.split)
  have nn: "rsplit_once CHR ''/'' u = None \<Longrightarrow> new_path i u = u" by (simp add: new_path_def)
  have inj: "new_path i a = new_path i b \<longleftrightarrow> a = b" if "a \<in> V" "b \<in> V" for a b
    using V(1) that by (auto simp: inj_on_def)
  have other: "v \<noteq> u \<Longrightarrow> v \<in> V \<Longrightarrow> new_path i u \<noteq> v \<and> new_path i v \<noteq> u \<and> new_path i u \<noteq> new_path i v" for v
    using inj [of v u] inj [of u v] u new_path_idem [of i u] new_path_idem [of i v] by metis
  have "(v \<in> set (vs @ [u]) \<longrightarrow> bt_get (move_file i u G) (new_path i v) = bt_get F v) \<and>
    (v \<notin> set (vs @ [u]) \<longrightarrow> bt_get (move_file i u G) v = bt_get F v) \<and>
    (v \<in> set (vs @ [u]) \<longrightarrow> new_path i v \<noteq> v \<longrightarrow> bt_get (move_file i u G) v = None)" if v: "v \<in> V" for v
  proof (cases "v = u")
    case False
    then show ?thesis using other [OF False v] ih(2-4) [OF v] unfolding g by auto
  next
    case True
    have "bt_get F u \<noteq> None" using F(2) u by blast
    then show ?thesis using True nn ih(2-4) [OF u] unfolding g by (cases "u \<in> set vs"; cases "new_path i u = u") auto
  qed
  then show ?case unfolding step using m by blast
qed (use F in simp)

text \<open>One line.\<close>

definition line_values :: "bytes \<Rightarrow> bytes list" where
  "line_values line = List.map_filter (strip_ble_key line) boot_keys"

lemma strip_ble_key_hd: "strip_ble_key line key = Some v \<Longrightarrow> key \<noteq> [] \<Longrightarrow> hd line = hd key"
  by (auto simp: strip_ble_key_def strip_prefix_Some_iff split: option.splits)

lemma strip_suffix: "is_ascii line \<Longrightarrow> strip_ble_key line key = Some v \<Longrightarrow> \<exists>p. line = p @ v"
  using strip_ble_key_iff by (fastforce simp: key_line_def)

lemma relocate_key_line:
  assumes a: "is_ascii line" "is_ascii i" "case d of None \<Rightarrow> True | Some x \<Rightarrow> is_ascii x" and v: "strip_ble_key line key = Some v"
  shows "\<exists>line'. (\<forall>files. relocate_key d i key (line, files) = (line', move_file i v files)) \<and> is_ascii line' \<and>
    strip_ble_key line' key = Some (final_path d i v)"
proof (cases "rsplit_once CHR ''/'' v")
  case None
  then show ?thesis using a v by (simp add: relocate_key_def move_file_def final_path_def)
next
  case (Some pb)
  obtain p b where pb: "pb = (p, b)" by (cases pb)
  have vb: "v = p @ CHR ''/'' # b" using rsplit_once_SomeD Some pb by blast
  obtain ws where kl: "line = key @ ws @ v" "ws \<noteq> []" "is_ascii_whitespace (hd ws)" "\<forall>c \<in> set ws. is_whitespace [c]"
    using strip_ble_key_iff [OF a(1)] v unfolding key_line_def by blast
  let ?f = "final_entry_path d (relocated_name i b)"
  let ?line = "key @ ws @ ?f"
  have r: "replace_range line (length line - length v) (length line - length v + length v) ?f = ?line"
    using replace_range_append [of "key @ ws" v 0 "length v" ?f] kl(1) by (simp add: replace_range_def)
  have hd: "hd ?f = CHR ''/''" "?f \<noteq> []" by (simp_all add: final_entry_path_def relocated_name_def split: option.split)
  have asc: "is_ascii ?line" using a kl(1) vb by (auto simp: final_entry_path_def relocated_name_def split: option.splits)
  have "key_line key ?line ?f" unfolding key_line_def using kl hd
    by (intro exI [of _ ws]) (simp add: is_whitespace_def code_point_def)
  then have "strip_ble_key ?line key = Some ?f" using strip_ble_key_iff [OF asc] by blast
  moreover have "relocate_key d i key (line, files) = (?line, move_file i v files)" for files
    using Some pb v r by (simp add: relocate_key_def move_file_def new_path_def Let_def split: option.split)
  ultimately show ?thesis using asc Some pb by (simp add: final_path_def)
qed

lemma relocate_key_None: "strip_ble_key line key = None \<Longrightarrow> relocate_key d i key (line, files) = (line, files)"
  by (simp add: relocate_key_def)

lemma keys_apart:
  assumes "strip_ble_key line key = Some v" "key \<in> set boot_keys" "key' \<in> set boot_keys" "key' \<noteq> key"
  shows "strip_ble_key line key' = None"
proof (rule ccontr)
  assume "strip_ble_key line key' \<noteq> None"
  then obtain w where "strip_ble_key line key' = Some w" by blast
  moreover have "key \<noteq> []" "key' \<noteq> []" using assms(2,3) by (auto simp: boot_keys_def)
  ultimately have "hd key = hd key'" using strip_ble_key_hd assms(1) by metis
  then show False using assms(2-4) by (auto simp: boot_keys_def)
qed

lemma fold_fixed: "\<forall>k \<in> set ks. f k y = y \<Longrightarrow> fold f ks y = y"
  by (induction ks) auto

lemma fold_one:
  "key \<in> set ks \<Longrightarrow> distinct ks \<Longrightarrow> f key x = y \<Longrightarrow> \<forall>k \<in> set ks. k \<noteq> key \<longrightarrow> f k x = x \<and> f k y = y \<Longrightarrow> fold f ks x = y"
proof (induction ks)
  case (Cons k ks)
  then show ?case by (cases "k = key") (auto intro: fold_fixed)
qed simp

lemma map_filter_one:
  "key \<in> set ks \<Longrightarrow> distinct ks \<Longrightarrow> g key = Some v \<Longrightarrow> \<forall>k \<in> set ks. k \<noteq> key \<longrightarrow> g k = None \<Longrightarrow> List.map_filter g ks = [v]"
proof (induction ks)
  case (Cons k ks)
  have none: "List.map_filter g xs = []" if "\<forall>k \<in> set xs. g k = None" for xs
    using that by (induction xs) (simp_all add: List.map_filter_def)
  show ?case
  proof (cases "k = key")
    case True
    then have "List.map_filter g ks = []" using Cons.prems by (intro none) auto
    then show ?thesis using True Cons.prems(3) by (simp add: List.map_filter_def)
  next
    case False
    then have "List.map_filter g ks = [v]" "g k = None" using Cons by auto
    then show ?thesis by (simp add: List.map_filter_def)
  qed
qed simp

lemma relocate_line:
  assumes a: "is_ascii line" "is_ascii i" "case d of None \<Rightarrow> True | Some x \<Rightarrow> is_ascii x"
  shows "\<exists>line'. fold (relocate_key d i) boot_keys (line, files) = (line', fold (move_file i) (line_values line) files) \<and> is_ascii line' \<and>
    (\<forall>key \<in> set boot_keys. strip_ble_key line' key = map_option (final_path d i) (strip_ble_key line key))"
proof (cases "\<exists>key \<in> set boot_keys. strip_ble_key line key \<noteq> None")
  case False
  then have n: "strip_ble_key line key = None" if "key \<in> set boot_keys" for key using that by blast
  then have "fold (relocate_key d i) boot_keys (line, files) = (line, files)" "line_values line = []"
    by (simp_all add: boot_keys_def relocate_key_None line_values_def List.map_filter_def)
  then show ?thesis using a n by simp
next
  case True
  then obtain key v where k: "key \<in> set boot_keys" "strip_ble_key line key = Some v" by blast
  obtain line' where l: "\<And>files. relocate_key d i key (line, files) = (line', move_file i v files)" "is_ascii line'"
    "strip_ble_key line' key = Some (final_path d i v)"
    using relocate_key_line [OF a k(2)] by blast
  note other = keys_apart [OF k(2,1)] keys_apart [OF l(3) k(1)]
  have n: "relocate_key d i key' (line, files) = (line, files)" "relocate_key d i key' (line', files) = (line', files)"
    if "key' \<in> set boot_keys" "key' \<noteq> key" for key' files using other that relocate_key_None by simp_all
  have dk: "distinct boot_keys" by (simp add: boot_keys_def)
  have "fold (relocate_key d i) boot_keys (line, files) = (line', move_file i v files)"
    using l(1) n by (intro fold_one [OF k(1) dk]) blast+
  moreover have "line_values line = [v]" unfolding line_values_def
    using other(1) by (intro map_filter_one [where g = "strip_ble_key line", OF k(1) dk k(2)]) blast
  ultimately have f: "fold (relocate_key d i) boot_keys (line, files) = (line', fold (move_file i) (line_values line) files)" by simp
  have "strip_ble_key line' key' = map_option (final_path d i) (strip_ble_key line key')" if "key' \<in> set boot_keys" for key'
    using other [OF that] k(2) l(3) by (cases "key' = key") simp_all
  then show ?thesis using l(2) f by simp
qed

lemma relocate_lines_values:
  assumes "\<forall>l \<in> set ls. is_ascii l" "is_ascii i" "case d of None \<Rightarrow> True | Some x \<Rightarrow> is_ascii x"
  shows "\<exists>ls'. relocate_lines d i ls files = (ls', fold (move_file i) (concat (map line_values ls)) files) \<and>
    (\<forall>key \<in> set boot_keys. List.map_filter (\<lambda>l. strip_ble_key l key) ls' =
      map (final_path d i) (List.map_filter (\<lambda>l. strip_ble_key l key) ls))"
  using assms(1)
proof (induction ls arbitrary: files)
  case Nil
  then show ?case by (simp add: List.map_filter_def)
next
  case (Cons l ls)
  obtain l' where l': "fold (relocate_key d i) boot_keys (l, files) = (l', fold (move_file i) (line_values l) files)"
    "\<forall>key \<in> set boot_keys. strip_ble_key l' key = map_option (final_path d i) (strip_ble_key l key)"
    using relocate_line [OF _ assms(2,3), of l files] Cons.prems by auto
  obtain ls' where ls': "relocate_lines d i ls (fold (move_file i) (line_values l) files) =
      (ls', fold (move_file i) (concat (map line_values ls)) (fold (move_file i) (line_values l) files))"
    "\<forall>key \<in> set boot_keys. List.map_filter (\<lambda>l. strip_ble_key l key) ls' =
      map (final_path d i) (List.map_filter (\<lambda>l. strip_ble_key l key) ls)"
    using Cons.IH [of "fold (move_file i) (line_values l) files"] Cons.prems by auto
  have "relocate_lines d i (l # ls) files = (l' # ls', fold (move_file i) (concat (map line_values (l # ls))) files)"
    using l'(1) ls'(1) by simp
  moreover have "List.map_filter (\<lambda>l. strip_ble_key l key) (l' # ls') =
      map (final_path d i) (List.map_filter (\<lambda>l. strip_ble_key l key) (l # ls))" if "key \<in> set boot_keys" for key
    using l'(2) ls'(2) that by (cases "strip_ble_key l key") (simp_all add: List.map_filter_def)
  ultimately show ?case by blast
qed

lemma set_map_filter_iff: "x \<in> set (List.map_filter f xs) \<longleftrightarrow> (\<exists>y \<in> set xs. f y = Some x)"
  by (auto simp: List.map_filter_def image_iff intro: rev_bexI)

lemma set_referenced: "set (concat (map line_values (entry_lines e))) = set (referenced e)"
proof (rule set_eqI)
  fix x
  show "x \<in> set (concat (map line_values (entry_lines e))) \<longleftrightarrow> x \<in> set (referenced e)"
    unfolding referenced_def get_values_def line_values_def set_concat set_map UN_iff bex_simps set_map_filter_iff by blast
qed

text \<open>
  C34: Relocating an entry keeps its files: every kernel, initrd and EFI path of the entry file becomes /entry_id/name,
  below /boot_subdir when there is one, in the same order, and under its new name (without the subdirectory) the entry has the file that the path
  led to. No two of the paths may get the same name; the entry file is ASCII. The documentation of \<open>write_boot_simple\<close>
  says that the subdirectory 1 gives /boot/1/entry_id/name; the code gives /1/entry_id/name.
\<close>

theorem relocate_keeps_files:
  assumes ascii: "\<forall>l \<in> set (entry_lines (t1_entry t)). is_ascii l" "is_ascii entry_id" "case boot_subdir of None \<Rightarrow> True | Some x \<Rightarrow> is_ascii x"
    and files: "bt_wf (t1_files t)" "\<forall>v \<in> set (referenced (t1_entry t)). bt_get (t1_files t) v \<noteq> None"
    and inj: "inj_on (new_path entry_id) (set (referenced (t1_entry t)))"
  shows "t1_filename (relocate boot_subdir entry_id t) = entry_id @ ''.conf'' \<and>
    (\<forall>key \<in> set boot_keys. get_values (t1_entry (relocate boot_subdir entry_id t)) key =
      map (final_path boot_subdir entry_id) (get_values (t1_entry t) key)) \<and>
    (\<forall>v \<in> set (referenced (t1_entry t)).
      bt_get (t1_files (relocate boot_subdir entry_id t)) (new_path entry_id v) = bt_get (t1_files t) v)"
proof -
  let ?vs = "concat (map line_values (entry_lines (t1_entry t)))"
  obtain ls' where ls': "relocate_lines boot_subdir entry_id (entry_lines (t1_entry t)) (t1_files t) =
      (ls', fold (move_file entry_id) ?vs (t1_files t))"
    "\<forall>key \<in> set boot_keys. List.map_filter (\<lambda>l. strip_ble_key l key) ls' =
      map (final_path boot_subdir entry_id) (List.map_filter (\<lambda>l. strip_ble_key l key) (entry_lines (t1_entry t)))"
    using relocate_lines_values [OF ascii] by blast
  have r: "relocate boot_subdir entry_id t = t\<lparr>t1_filename := entry_id @ ''.conf'',
      t1_entry := (t1_entry t)\<lparr>entry_lines := ls'\<rparr>, t1_files := fold (move_file entry_id) ?vs (t1_files t)\<rparr>"
    unfolding relocate_def by (simp add: ls'(1))
  have "set ?vs \<subseteq> set (referenced (t1_entry t))" using set_referenced by blast
  note m = move_files [OF inj this files]
  have "bt_get (fold (move_file entry_id) ?vs (t1_files t)) (new_path entry_id v) = bt_get (t1_files t) v"
    if "v \<in> set (referenced (t1_entry t))" for v
    using m that set_referenced [of "t1_entry t"] by blast
  then show ?thesis unfolding r using ls'(2) by (simp add: get_values_def)
qed

definition fedora_entry :: type1_entry where
  "fedora_entry = \<lparr>t1_filename = ''f.conf'', t1_entry = \<lparr>entry_lines = [''title Fedora'', ''linux /old/vmlinuz'', ''initrd /old/initrd.img'']\<rparr>,
     t1_files = [(''/old/initrd.img'', Inline ''i''), (''/old/vmlinuz'', Inline ''k'')]\<rparr>"

lemma relocate_keeps_files_witness:
  "get_values (t1_entry (relocate (Some ''boot'') ''new'' fedora_entry)) ''linux'' = [''/boot/new/vmlinuz''] \<and>
   bt_get (t1_files (relocate (Some ''boot'') ''new'' fedora_entry)) ''/new/initrd.img'' = Some (Inline ''i'')"
proof -
  have v: "get_values (t1_entry fedora_entry) ''linux'' = [''/old/vmlinuz'']" "get_values (t1_entry fedora_entry) ''initrd'' = [''/old/initrd.img'']"
    "get_values (t1_entry fedora_entry) ''efi'' = []" by code_simp+
  have r: "referenced (t1_entry fedora_entry) = [''/old/vmlinuz'', ''/old/initrd.img'']" by (simp add: referenced_def boot_keys_def v)
  have a: "\<forall>l \<in> set (entry_lines (t1_entry fedora_entry)). is_ascii l" by (simp add: fedora_entry_def)
  have b: "is_ascii ''new''" "case Some ''boot'' of None \<Rightarrow> True | Some x \<Rightarrow> is_ascii x" by simp_all
  have w: "bt_wf (t1_files fedora_entry)" by (simp add: fedora_entry_def)
  have g: "bt_get (t1_files fedora_entry) ''/old/initrd.img'' = Some (Inline ''i'')" "bt_get (t1_files fedora_entry) ''/old/vmlinuz'' = Some (Inline ''k'')"
    by code_simp+
  have n: "new_path ''new'' ''/old/initrd.img'' = ''/new/initrd.img''" "new_path ''new'' ''/old/vmlinuz'' = ''/new/vmlinuz''"
    "final_path (Some ''boot'') ''new'' ''/old/vmlinuz'' = ''/boot/new/vmlinuz''" by code_simp+
  have i: "inj_on (new_path ''new'') (set (referenced (t1_entry fedora_entry)))" by (simp add: r n)
  have f: "\<forall>v \<in> set (referenced (t1_entry fedora_entry)). bt_get (t1_files fedora_entry) v \<noteq> None" by (simp add: r g)
  from relocate_keeps_files [OF a b w f i] show ?thesis by (simp add: v r g n boot_keys_def)
qed

text \<open>Two files with the same name in different directories: the second one takes the place of the first.\<close>

lemma relocate_collision:
  "t1_files (relocate None ''x'' \<lparr>t1_filename = ''f.conf'', t1_entry = \<lparr>entry_lines = [''initrd /ucode/img'', ''initrd /main/img'']\<rparr>,
     t1_files = [(''/main/img'', Inline ''main''), (''/ucode/img'', Inline ''ucode'')]\<rparr>) = [(''/x/img'', Inline ''main'')]"
  by code_simp

section \<open>The os-release file of a kernel\<close>

text \<open>
  C35: \<open>load_all\<close> of the kernels never finds an os-release file: \<open>get_file\<close> looks a name up in one directory, and no
  entry of the root is called \<open>/usr/lib/os-release\<close>.
\<close>

theorem os_release_never_found:
  assumes "\<forall>n \<in> fst ` set (entries (root fs)). valid_name n" and "vmlinuz_load_all fs = Inr vs" and "v \<in> set vs"
  shows "os_release v = None"
proof -
  have "bt_get (entries (root fs)) ''/usr/lib/os-release'' = None"
  proof -
    have "\<not> valid_name ''/usr/lib/os-release''" by (simp add: valid_name_def)
    then show ?thesis using assms(1) unfolding bt_get_None by blast
  qed
  then have g: "result_ok (get_file (heap fs) (root fs) ''/usr/lib/os-release'') = None"
    by (simp add: get_file_def get_file_opt_def result_ok_def)
  let ?step = "\<lambda>acc (kv, inode). case inode of ILeaf _ \<Rightarrow> Inr acc
      | IDirectory dir \<Rightarrow> (case get_file (heap fs) dir ''vmlinuz'' of Inl _ \<Rightarrow> Inr acc
        | Inr vm \<Rightarrow> rbind (ensure_r (utf8_valid kv) NotUtf8) (\<lambda>_. Inr (acc @ [\<lparr>vm_kver = kv, vmlinuz = vm,
            initramfs = result_ok (get_file (heap fs) dir ''initramfs.img''),
            os_release = result_ok (get_file (heap fs) (root fs) ''/usr/lib/os-release'')\<rparr>])))"
  have step: "\<forall>v \<in> set b. os_release v = None" if "\<forall>v \<in> set a. os_release v = None" "?step a x = Inr b" for a b x
    using that g by (auto simp: ensure_r_def split: prod.splits inode_of.splits sum.splits if_splits)
  have all: "\<forall>v \<in> set b. os_release v = None" if "\<forall>v \<in> set a. os_release v = None" "rfold ?step a xs = Inr b" for a b xs
    using that
  proof (induction xs arbitrary: a)
    case (Cons x xs)
    then obtain c where c: "?step a x = Inr c" "rfold ?step c xs = Inr b" by (auto simp: rbind_eq_Inr_iff)
    show ?case by (rule Cons.IH [OF step [OF Cons.prems(1) c(1)] c(2)])
  qed simp
  obtain modules where "rfold ?step [] modules = Inr vs"
    using assms(2) unfolding vmlinuz_load_all_def by (auto simp: rbind_eq_Inr_iff)
  then have "\<forall>v \<in> set vs. os_release v = None" by (rule all [rotated]) simp
  then show ?thesis using assms(3) by blast
qed

definition kernel_fs :: "regular_file filesystem" where
  "kernel_fs = (let st = stat_uninitialized; dir = Directory st in
     \<lparr>root = dir [(''usr'', IDirectory (dir [(''lib'', IDirectory (dir [
        (''modules'', IDirectory (dir [(''6.1'', IDirectory (dir [(''vmlinuz'', ILeaf 0)]))])),
        (''os-release'', ILeaf 1)]))]))],
      heap = [\<lparr>leaf_stat = st, content = Regular (Inline ''kernel'')\<rparr>, \<lparr>leaf_stat = st, content = Regular (Inline ''NAME=Demo'')\<rparr>]\<rparr>)"

lemma os_release_never_found_witness:
  "\<exists>v. vmlinuz_load_all kernel_fs = Inr [v] \<and> vmlinuz v = Inline ''kernel'' \<and> os_release v = None"
proof -
  have "case vmlinuz_load_all kernel_fs of Inr [v] \<Rightarrow> vmlinuz v = Inline ''kernel'' | _ \<Rightarrow> False" by code_simp
  then obtain v where v: "vmlinuz_load_all kernel_fs = Inr [v]" "vmlinuz v = Inline ''kernel''"
    by (auto split: sum.splits list.splits)
  have names: "\<forall>n \<in> fst ` set (entries (root kernel_fs)). valid_name n"
    by (simp add: kernel_fs_def Let_def valid_name_def)
  show ?thesis using os_release_never_found [OF names v(1), of v] v by simp
qed

end
