(* ===== verification/Splitstream.thy ===== *)
theory Splitstream
  imports Object_Store
begin

text \<open>
  Models \<open>crates/composefs/src/splitstream.rs\<close>: the split stream file format, its writer and
  builder, and its reader.

  The zstd crate is the parameter \<open>zstd\<close>. An encoder is the bytes written to it so far. A decoder
  is the bytes that are still to come, with a flag that tells whether the compressed data then
  ends properly; \<open>zstd_laws\<close> states that decompression inverts compression. A panic (an
  \<open>assert!\<close> or \<open>expect\<close>) is \<open>None\<close> in a plain function and the error \<open>Panic\<close> in a step.
\<close>

record zstd =
  zcompress :: "bytes \<Rightarrow> bytes"
  zdecode :: "bytes \<Rightarrow> bytes \<times> bool"

definition zstd_laws :: "zstd \<Rightarrow> bool" where
  "zstd_laws Z \<longleftrightarrow> (\<forall>b. zdecode Z (zcompress Z b) = (b, True))"

definition SPLITSTREAM_MAGIC :: bytes where "SPLITSTREAM_MAGIC = ''SplitStream''"
definition LG_BLOCKSIZE :: nat where "LG_BLOCKSIZE = 12"

datatype stream_error =
    Repo repo_error | Panic
  | HeaderTooShort | BadMagic | BadVersion nat | BadAlgorithm | BadBlockSize
  | NegativeRange | IncompleteRead | BadInfo | BadContentType | BadStreamRefs | BadObjectRefs
  | BadNamedRefs named_error
  | UnexpectedEof | CorruptData | EofInStream | UnexpectedExternal | ExternalOutOfRange | SmallInline
and named_error = NotUtf8 | NoColon | BadIndex int_error | IndexOutOfBounds | NamedCorrupt | TrailingJunk

section \<open>The file format\<close>

record file_range =
  range_start :: u64
  range_end :: u64

record splitstream_header =
  magic :: bytes
  version :: nat
  flags :: u16
  algorithm :: nat
  lg_blocksize :: nat
  info :: file_range

record splitstream_info =
  stream_refs :: file_range
  object_refs :: file_range
  stream :: file_range
  named_refs :: file_range
  content_type :: u64
  stream_size :: u64

definition range_bytes :: "file_range \<Rightarrow> bytes" where
  "range_bytes r = le64 (range_start r) @ le64 (range_end r)"

definition header_bytes :: "splitstream_header \<Rightarrow> bytes" where
  "header_bytes h = magic h @ [char_of (version h)] @ le16 (flags h) @ [char_of (algorithm h)]
     @ [char_of (lg_blocksize h)] @ range_bytes (info h)"

definition info_bytes :: "splitstream_info \<Rightarrow> bytes" where
  "info_bytes i = range_bytes (stream_refs i) @ range_bytes (object_refs i) @ range_bytes (stream i)
     @ range_bytes (named_refs i) @ le64 (content_type i) @ le64 (stream_size i)"

definition read_file_range :: "bytes \<Rightarrow> file_range" where
  "read_file_range b = \<lparr>range_start = get64 (take 8 b), range_end = get64 (take 8 (drop 8 b))\<rparr>"

definition read_header :: "bytes \<Rightarrow> splitstream_header option" where
  "read_header b = (if length b < 32 then None else Some
     \<lparr>magic = take 11 b, version = of_char (b ! 11), flags = get16 (take 2 (drop 12 b)),
      algorithm = of_char (b ! 14), lg_blocksize = of_char (b ! 15), info = read_file_range (drop 16 b)\<rparr>)"

definition read_info :: "bytes \<Rightarrow> splitstream_info option" where
  "read_info b = (if length b < 80 then None else Some
     \<lparr>stream_refs = read_file_range b, object_refs = read_file_range (drop 16 b),
      stream = read_file_range (drop 32 b), named_refs = read_file_range (drop 48 b),
      content_type = get64 (take 8 (drop 64 b)), stream_size = get64 (take 8 (drop 72 b))\<rparr>)"

definition range_len :: "file_range \<Rightarrow> stream_error + nat" where
  "range_len r = (if range_end r < range_start r then Inl NegativeRange
     else Inr (unat (range_end r) - unat (range_start r)))"

text \<open>One call of \<open>pread\<close>, which gives all bytes that there are; an early end for another reason is not modelled.\<close>

definition read_range :: "bytes \<Rightarrow> file_range \<Rightarrow> stream_error + bytes" where
  "read_range file r = rbind (range_len r) (\<lambda>sz.
     let buffer = take sz (drop (unat (range_start r)) file)
     in if length buffer = sz then Inr buffer else Inl IncompleteRead)"

section \<open>Unique vectors\<close>

record unique_vec =
  items :: "bytes list"
  uindex :: "bytes \<Rightarrow> nat option"

definition uv_new :: unique_vec where
  "uv_new = \<lparr>items = [], uindex = (\<lambda>_. None)\<rparr>"

definition uv_get :: "unique_vec \<Rightarrow> bytes \<Rightarrow> nat option" where
  "uv_get u x = uindex u x"

definition uv_ensure :: "unique_vec \<Rightarrow> bytes \<Rightarrow> nat \<times> unique_vec" where
  "uv_ensure u x = (case uv_get u x of
       Some i \<Rightarrow> (i, u)
     | None \<Rightarrow> (let idx = length (items u)
         in (idx, \<lparr>items = items u @ [x], uindex = (uindex u)(x \<mapsto> idx)\<rparr>)))"

definition uv_get_by_index :: "unique_vec \<Rightarrow> nat \<Rightarrow> bytes option" where
  "uv_get_by_index u i = (if i < length (items u) then Some (items u ! i) else None)"

definition uv_bytes :: "unique_vec \<Rightarrow> bytes" where
  "uv_bytes u = concat (items u)"

section \<open>The writer\<close>

record writer =
  w_stream_refs :: unique_vec
  w_object_refs :: unique_vec
  w_named_refs :: "(bytes \<times> nat) list"
  inline_buffer :: bytes
  w_total_size :: u64
  encoder :: bytes
  w_content_type :: u64

definition writer_new :: "u64 \<Rightarrow> writer" where
  "writer_new ct = \<lparr>w_stream_refs = uv_new, w_object_refs = uv_new, w_named_refs = [],
     inline_buffer = [], w_total_size = 0, encoder = [], w_content_type = ct\<rparr>"

definition add_object_ref :: "bytes \<Rightarrow> writer \<Rightarrow> nat \<times> writer" where
  "add_object_ref verity w = (case uv_ensure (w_object_refs w) verity of
     (i, u) \<Rightarrow> (i, w\<lparr>w_object_refs := u\<rparr>))"

definition lookup_object_ref :: "bytes \<Rightarrow> writer \<Rightarrow> nat option" where
  "lookup_object_ref verity w = uv_get (w_object_refs w) verity"

definition add_named_stream_ref :: "bytes \<Rightarrow> bytes \<Rightarrow> writer \<Rightarrow> writer" where
  "add_named_stream_ref name verity w = (case uv_ensure (w_stream_refs w) verity of
     (i, u) \<Rightarrow> w\<lparr>w_stream_refs := u, w_named_refs := bt_insert name i (w_named_refs w)\<rparr>)"

text \<open>\<open>I64\<close> of a number, and \<open>i64::try_from\<close>.\<close>

definition I64_MAX :: nat where "I64_MAX = 9223372036854775807"

definition flush_inline :: "writer \<Rightarrow> writer option" where
  "flush_inline w = (let sz = length (inline_buffer w) in
     if sz = 0 then Some w
     else if I64_MAX < sz then None
     else Some (w\<lparr>encoder := encoder w @ le64 (- of_nat sz) @ inline_buffer w, inline_buffer := []\<rparr>))"

definition write_inline :: "bytes \<Rightarrow> writer \<Rightarrow> writer" where
  "write_inline data w = w\<lparr>w_total_size := w_total_size w + of_nat (length data),
     inline_buffer := inline_buffer w @ data\<rparr>"

definition add_external_size :: "u64 \<Rightarrow> writer \<Rightarrow> writer" where
  "add_external_size sz w = w\<lparr>w_total_size := w_total_size w + sz\<rparr>"

definition write_reference :: "bytes \<Rightarrow> writer \<Rightarrow> writer option" where
  "write_reference oid w = Option.bind (flush_inline w) (\<lambda>w1.
     case add_object_ref oid w1 of (index, w2) \<Rightarrow>
       if I64_MAX < index then None
       else Some (w2\<lparr>encoder := encoder w2 @ le64 (of_nat index)\<rparr>))"

definition repo_step :: "(repo_error, 's, 'a) io \<Rightarrow> (stream_error, 's, 'a) io" where
  "repo_step m = (\<lambda>s. map_option (\<lambda>(r, s'). (map_err Repo r, s')) (m s))"

text \<open>The repository is used only through \<open>ensure_object\<close> here; \<open>cat\<close> below opens and reads objects.\<close>

definition write_external_with :: "(bytes \<Rightarrow> (repo_error, 's, bytes) io) \<Rightarrow> bytes \<Rightarrow> writer \<Rightarrow>
    (stream_error, 's, writer) io" where
  "write_external_with ensure data w =
     (let w1 = w\<lparr>w_total_size := w_total_size w + of_nat (length data)\<rparr> in
      io_bind (repo_step (ensure data)) (\<lambda>oid.
        io_lift (ok_or (write_reference oid w1) Panic)))"

definition write_external :: "hex_crate \<Rightarrow> kernel \<Rightarrow> hash_alg \<Rightarrow> bytes \<Rightarrow> writer \<Rightarrow>
    (stream_error, 'z repo_scheme, writer) io" where
  "write_external hx K H data w = write_external_with (ensure_object hx K H) data w"

definition write_named_refs :: "zstd \<Rightarrow> (bytes \<times> nat) list \<Rightarrow> bytes" where
  "write_named_refs Z refs = zcompress Z
     (concat (map (\<lambda>(name, idx). show_dec idx @ '':'' @ name @ [CHR 0x00]) refs))"

text \<open>The file that \<open>done\<close> lays out, or a panic of one of its alignment assertions.\<close>

definition layout :: "hash_alg \<Rightarrow> writer \<Rightarrow> bytes \<Rightarrow> bytes \<Rightarrow> bytes option" where
  "layout H w strm named = (let
       info_start = 32; info_end = info_start + 80;
       stream_refs_start = info_end; stream_refs_end = stream_refs_start + length (uv_bytes (w_stream_refs w));
       object_refs_start = stream_refs_end;
       object_refs_end = object_refs_start + length (uv_bytes (w_object_refs w));
       named_refs_start = object_refs_end; named_refs_end = named_refs_start + length named;
       stream_start = named_refs_end; stream_end = stream_start + length strm;
       rng = (\<lambda>a b. \<lparr>range_start = of_nat a, range_end = of_nat b\<rparr>)
     in if info_start mod 8 = 0 \<and> stream_refs_start mod 8 = 0 \<and> object_refs_start mod 8 = 0
           \<and> named_refs_start mod (8::nat) = 0
        then Some (
          header_bytes \<lparr>magic = SPLITSTREAM_MAGIC, version = 0, flags = 0, algorithm = ALGORITHM H,
            lg_blocksize = LG_BLOCKSIZE, info = rng info_start info_end\<rparr>
          @ info_bytes \<lparr>stream_refs = rng stream_refs_start stream_refs_end,
            object_refs = rng object_refs_start object_refs_end, stream = rng stream_start stream_end,
            named_refs = rng named_refs_start named_refs_end, content_type = w_content_type w,
            stream_size = w_total_size w\<rparr>
          @ uv_bytes (w_stream_refs w) @ uv_bytes (w_object_refs w) @ named @ strm)
        else None)"

definition file_of :: "zstd \<Rightarrow> hash_alg \<Rightarrow> writer \<Rightarrow> bytes option" where
  "file_of Z H w = Option.bind (flush_inline w) (\<lambda>w1.
     layout H w1 (zcompress Z (encoder w1)) (write_named_refs Z (w_named_refs w1)))"

definition writer_done :: "zstd \<Rightarrow> hex_crate \<Rightarrow> kernel \<Rightarrow> hash_alg \<Rightarrow> writer \<Rightarrow> (stream_error, 'z repo_scheme, bytes) io" where
  "writer_done Z hx K H w = io_bind (io_lift (ok_or (file_of Z H w) Panic)) (\<lambda>buf.
     repo_step (ensure_object hx K H buf))"

section \<open>The builder\<close>

text \<open>An external entry carries what its background task returns when it is awaited.\<close>

datatype stream_entry = EInline bytes | EExternal "repo_error + bytes" u64

record builder =
  b_entries :: "stream_entry list"
  total_external_size :: u64
  b_content_type :: u64
  b_stream_refs :: unique_vec
  b_named_refs :: "(bytes \<times> nat) list"

definition builder_new :: "u64 \<Rightarrow> builder" where
  "builder_new ct = \<lparr>b_entries = [], total_external_size = 0, b_content_type = ct,
     b_stream_refs = uv_new, b_named_refs = []\<rparr>"

definition push_inline :: "bytes \<Rightarrow> builder \<Rightarrow> builder" where
  "push_inline data b = (if data = [] then b
     else case rev (b_entries b) of
         EInline existing # before \<Rightarrow> b\<lparr>b_entries := rev before @ [EInline (existing @ data)]\<rparr>
       | _ \<Rightarrow> b\<lparr>b_entries := b_entries b @ [EInline data]\<rparr>)"

definition push_external :: "(repo_error + bytes) \<Rightarrow> u64 \<Rightarrow> builder \<Rightarrow> builder" where
  "push_external handle sz b = b\<lparr>total_external_size := total_external_size b + sz,
     b_entries := b_entries b @ [EExternal handle sz]\<rparr>"

definition builder_add_named_stream_ref :: "bytes \<Rightarrow> bytes \<Rightarrow> builder \<Rightarrow> builder" where
  "builder_add_named_stream_ref name verity b = (case uv_ensure (b_stream_refs b) verity of
     (i, u) \<Rightarrow> b\<lparr>b_stream_refs := u, b_named_refs := bt_insert name i (b_named_refs b)\<rparr>)"

datatype resolved_entry = RInline bytes | RExternal bytes u64

definition resolve_entry :: "stream_entry \<Rightarrow> stream_error + resolved_entry" where
  "resolve_entry e = (case e of EInline d \<Rightarrow> Inr (RInline d)
     | EExternal handle sz \<Rightarrow> rbind (map_err Repo handle) (\<lambda>oid. Inr (RExternal oid sz)))"

definition replay :: "writer \<Rightarrow> resolved_entry \<Rightarrow> stream_error + writer" where
  "replay w e = (case e of RInline d \<Rightarrow> Inr (write_inline d w)
     | RExternal oid sz \<Rightarrow> ok_or (write_reference oid (add_external_size sz w)) Panic)"

definition copy_named_ref :: "unique_vec \<Rightarrow> writer \<Rightarrow> bytes \<times> nat \<Rightarrow> stream_error + writer" where
  "copy_named_ref refs w ni = (case ni of (name, idx) \<Rightarrow>
     rbind (ok_or (uv_get_by_index refs idx) Panic) (\<lambda>verity. Inr (add_named_stream_ref name verity w)))"

definition builder_writer :: "builder \<Rightarrow> stream_error + writer" where
  "builder_writer b =
     rbind (rmap resolve_entry (b_entries b)) (\<lambda>resolved.
     rbind (rfold (copy_named_ref (b_stream_refs b)) (writer_new (b_content_type b)) (b_named_refs b)) (\<lambda>w.
       rfold replay w resolved))"

definition builder_finish :: "zstd \<Rightarrow> hex_crate \<Rightarrow> kernel \<Rightarrow> hash_alg \<Rightarrow> builder \<Rightarrow>
    (stream_error, 'z repo_scheme, bytes) io" where
  "builder_finish Z hx K H b = io_bind (io_lift (builder_writer b)) (\<lambda>w. writer_done Z hx K H w)"

section \<open>The reader\<close>

record reader =
  decoder :: "bytes \<times> bool"
  inline_bytes :: nat
  r_content_type :: u64
  r_total_size :: u64
  r_object_refs :: "bytes list"
  r_named_refs :: "(bytes \<times> bytes) list"

text \<open>\<open>read_exactish\<close> and \<open>read_exact\<close> on a decoder.\<close>

definition read_exactish :: "bytes \<times> bool \<Rightarrow> nat \<Rightarrow> stream_error + (bytes option \<times> (bytes \<times> bool))" where
  "read_exactish dec n = (case dec of (avail, clean) \<Rightarrow>
     if n \<le> length avail then Inr (Some (take n avail), (drop n avail, clean))
     else if \<not> clean then Inl CorruptData
     else if avail = [] then Inr (None, dec) else Inl UnexpectedEof)"

definition dec_read_exact :: "bytes \<times> bool \<Rightarrow> nat \<Rightarrow> stream_error + (bytes \<times> (bytes \<times> bool))" where
  "dec_read_exact dec n = (case dec of (avail, clean) \<Rightarrow>
     if n \<le> length avail then Inr (take n avail, (drop n avail, clean))
     else Inl (if clean then UnexpectedEof else CorruptData))"

text \<open>A slice of hash values: the section must hold a whole number of them.\<close>

definition hash_slice :: "hash_alg \<Rightarrow> bytes \<Rightarrow> bytes list option" where
  "hash_slice H b = (if length b mod size_of H = 0 then Some (chunks (size_of H) b) else None)"

definition named_ref_item :: "bytes list \<Rightarrow> (bytes \<times> bytes) list \<Rightarrow> bytes \<Rightarrow> named_error + (bytes \<times> bytes) list" where
  "named_ref_item references m it =
     rbind (ensure_r (utf8_valid it) NotUtf8) (\<lambda>_.
     rbind (ok_or (split_once CHR '':'' it) NoColon) (\<lambda>(idx_str, name).
     rbind (map_err BadIndex (parse_radix 10 (2 ^ 64) idx_str)) (\<lambda>idx.
     rbind (ok_or (if idx < length references then Some (references ! idx) else None) IndexOutOfBounds) (\<lambda>oid.
       Inr (bt_insert name oid m)))))"

definition read_named_references :: "zstd \<Rightarrow> bytes \<Rightarrow> bytes list \<Rightarrow> named_error + (bytes \<times> bytes) list" where
  "read_named_references Z sect references = (case zdecode Z sect of (text, clean) \<Rightarrow>
     let pieces = split_char CHR 0x00 text in
     rbind (rfold (named_ref_item references) [] (butlast pieces)) (\<lambda>m.
       if \<not> clean then Inl NamedCorrupt
       else if last pieces \<noteq> [] then Inl TrailingJunk else Inr m))"

definition reader_new :: "zstd \<Rightarrow> hash_alg \<Rightarrow> bytes \<Rightarrow> u64 option \<Rightarrow> stream_error + reader" where
  "reader_new Z H file expected_content_type =
     rbind (ok_or (read_header file) HeaderTooShort) (\<lambda>h.
     rbind (ensure_r (magic h = SPLITSTREAM_MAGIC) BadMagic) (\<lambda>_.
     rbind (ensure_r (version h = 0) (BadVersion (version h))) (\<lambda>_.
     rbind (ensure_r (algorithm h = ALGORITHM H) BadAlgorithm) (\<lambda>_.
     rbind (ensure_r (lg_blocksize h = LG_BLOCKSIZE) BadBlockSize) (\<lambda>_.
     rbind (read_range file (info h)) (\<lambda>ib.
     rbind (ok_or (read_info ib) BadInfo) (\<lambda>i.
     rbind (ensure_r (case expected_content_type of None \<Rightarrow> True | Some e \<Rightarrow> content_type i = e) BadContentType) (\<lambda>_.
     rbind (read_range file (stream_refs i)) (\<lambda>sb.
     rbind (ok_or (hash_slice H sb) BadStreamRefs) (\<lambda>srefs.
     rbind (read_range file (object_refs i)) (\<lambda>ob.
     rbind (ok_or (hash_slice H ob) BadObjectRefs) (\<lambda>orefs.
     rbind (read_range file (named_refs i)) (\<lambda>nb.
     rbind (map_err BadNamedRefs (read_named_references Z nb srefs)) (\<lambda>named.
     rbind (range_len (stream i)) (\<lambda>len.
       Inr \<lparr>decoder = zdecode Z (take len (drop (unat (range_start (stream i))) file)),
         inline_bytes = 0, r_content_type = content_type i, r_total_size = stream_size i,
         r_object_refs = orefs, r_named_refs = named\<rparr>)))))))))))))))"

datatype chunk_type = CEof | CInline | CExternal bytes

definition ensure_chunk :: "reader \<Rightarrow> bool \<Rightarrow> bool \<Rightarrow> nat \<Rightarrow> stream_error + (chunk_type \<times> reader)" where
  "ensure_chunk r eof_ok ext_ok expected =
     (let inline_check = (\<lambda>r. if inline_bytes r < expected then Inl SmallInline else Inr (CInline, r)) in
      if inline_bytes r = 0 then
        rbind (read_exactish (decoder r) 8) (\<lambda>(v, dec). case v of
          None \<Rightarrow> if eof_ok then Inr (CEof, r) else Inl EofInStream
        | Some b \<Rightarrow>
            let value = get64 b; r1 = r\<lparr>decoder := dec\<rparr> in
            if sint value < 0 then inline_check (r1\<lparr>inline_bytes := nat (- sint value)\<rparr>)
            else if \<not> ext_ok then Inl UnexpectedExternal
            else let idx = nat (sint value) in
              if idx < length (r_object_refs r) then Inr (CExternal (r_object_refs r ! idx), r1)
              else Inl ExternalOutOfRange)
      else inline_check r)"

definition read_inline_exact :: "reader \<Rightarrow> nat \<Rightarrow> stream_error + (bytes option \<times> reader)" where
  "read_inline_exact r n = rbind (ensure_chunk r True False n) (\<lambda>(c, r1).
     if c = CInline then
       rbind (dec_read_exact (decoder r1) n) (\<lambda>(b, dec).
         Inr (Some b, r1\<lparr>inline_bytes := inline_bytes r1 - n, decoder := dec\<rparr>))
     else Inr (None, r1))"

definition discard_padding :: "reader \<Rightarrow> nat \<Rightarrow> stream_error + reader" where
  "discard_padding r n = rbind (ensure_r (n \<le> 512) Panic) (\<lambda>_.
     rbind (ensure_chunk r False False n) (\<lambda>(c, r1).
     rbind (dec_read_exact (decoder r1) n) (\<lambda>(b, dec).
       Inr (r1\<lparr>decoder := dec, inline_bytes := inline_bytes r1 - n\<rparr>))))"

datatype stream_data = DInline bytes | DExternal bytes

definition read_exact :: "reader \<Rightarrow> nat \<Rightarrow> nat \<Rightarrow> stream_error + (stream_data \<times> reader)" where
  "read_exact r actual_size stored_size =
     rbind (ensure_chunk r False True stored_size) (\<lambda>(c, r1). case c of
       CExternal oid \<Rightarrow>
         rbind (if actual_size < stored_size then discard_padding r1 (stored_size - actual_size) else Inr r1) (\<lambda>r2.
           Inr (DExternal oid, r2))
     | _ \<Rightarrow> rbind (dec_read_exact (decoder r1) stored_size) (\<lambda>(b, dec).
           Inr (DInline (take actual_size b), r1\<lparr>decoder := dec, inline_bytes := inline_bytes r1 - stored_size\<rparr>)))"

lemma ensure_chunk_decreases:
  assumes "ensure_chunk r e x n = Inr (c, r1)"
  shows "length (fst (decoder r1)) \<le> length (fst (decoder r))"
    "c = CExternal oid \<Longrightarrow> length (fst (decoder r1)) < length (fst (decoder r))"
    "c = CInline \<Longrightarrow> 0 < inline_bytes r1"
  using assms
  by (auto simp: ensure_chunk_def read_exactish_def Let_def result_simps split: if_splits prod.splits option.splits)

lemma dec_read_exact_decreases:
  "dec_read_exact dec n = Inr (b, dec') \<Longrightarrow> length (fst dec') + n = length (fst dec)"
  by (auto simp: dec_read_exact_def split: prod.splits if_splits)

text \<open>\<open>cat\<close>: the output is what has been written so far; \<open>read\<close> opens an object and reads it to
  its end.\<close>

function cat_loop :: "(bytes \<Rightarrow> (repo_error, 's, bytes) io) \<Rightarrow> reader \<Rightarrow> bytes \<Rightarrow> (stream_error, 's, bytes) io" where
  "cat_loop read r out =
     (case ensure_chunk r True True 0 of
        Inl e \<Rightarrow> io_fail e
      | Inr (CEof, r1) \<Rightarrow> io_return out
      | Inr (CInline, r1) \<Rightarrow>
          (case dec_read_exact (decoder r1) (inline_bytes r1) of
             Inl e \<Rightarrow> io_fail e
           | Inr (b, dec) \<Rightarrow> cat_loop read (r1\<lparr>decoder := dec, inline_bytes := 0\<rparr>) (out @ b))
      | Inr (CExternal oid, r1) \<Rightarrow>
          io_bind (repo_step (read oid)) (\<lambda>d. cat_loop read r1 (out @ d)))"
  by pat_completeness auto
termination
proof (relation "measure (\<lambda>(read, r, out). length (fst (decoder r)))", goal_cases)
  case (2 read r out x c r1 y b dec)
  then have "ensure_chunk r True True 0 = Inr (CInline, r1)" by simp
  note e = ensure_chunk_decreases [OF this]
  have "length (fst dec) + inline_bytes r1 = length (fst (decoder r1))"
    using 2 dec_read_exact_decreases [of "decoder r1" "inline_bytes r1" b dec] by auto
  then show ?case using e by simp
next
  case (3 read r out x c r1 oid d)
  then show ?case using ensure_chunk_decreases(2) [of r True True 0 "CExternal oid" r1 oid] by simp
qed simp

declare cat_loop.simps [simp del]

definition cat :: "hex_crate \<Rightarrow> kernel \<Rightarrow> hash_alg \<Rightarrow> reader \<Rightarrow> (stream_error, 'z repo_scheme, bytes) io" where
  "cat hx K H r = cat_loop (read_object hx K H) r []"

definition get_object_refs :: "reader \<Rightarrow> bytes list" where
  "get_object_refs r = r_object_refs r"

definition iter_named_refs :: "reader \<Rightarrow> (bytes \<times> bytes) list" where
  "iter_named_refs r = r_named_refs r"

definition lookup_named_ref :: "bytes \<Rightarrow> reader \<Rightarrow> bytes option" where
  "lookup_named_ref name r = bt_get (r_named_refs r) name"

text \<open>The implementation of \<open>Read\<close>: an external chunk is an error that \<open>ensure_chunk\<close> reports.\<close>

definition reader_read :: "reader \<Rightarrow> nat \<Rightarrow> stream_error + (bytes \<times> reader)" where
  "reader_read r n = rbind (ensure_chunk r True False 1) (\<lambda>(c, r1). case c of
       CEof \<Rightarrow> Inr ([], r1)
     | CInline \<Rightarrow> (let n_bytes = min n (inline_bytes r1) in
         rbind (dec_read_exact (decoder r1) n_bytes) (\<lambda>(b, dec).
           Inr (b, r1\<lparr>decoder := dec, inline_bytes := inline_bytes r1 - n_bytes\<rparr>)))
     | CExternal _ \<Rightarrow> Inl Panic)"

section \<open>The format reads back\<close>

lemma read_range_bytes [simp]: "read_file_range (range_bytes r @ rest) = r"
  by (simp add: read_file_range_def range_bytes_def)

lemma length_range_bytes [simp]: "length (range_bytes r) = 16"
  by (simp add: range_bytes_def)

lemma drop_append_eq: "n = length xs \<Longrightarrow> drop n (xs @ ys) = ys"
  by simp

lemma read_header_bytes:
  assumes "length (magic h) = 11" "version h < 256" "algorithm h < 256" "lg_blocksize h < 256"
  shows "read_header (header_bytes h @ rest) = Some h"
proof -
  let ?b = "magic h @ [char_of (version h)] @ le16 (flags h) @ [char_of (algorithm h), char_of (lg_blocksize h)]
    @ range_bytes (info h) @ rest"
  have b: "header_bytes h @ rest = ?b" by (simp add: header_bytes_def)
  have l: "length (le16 (flags h)) = 2" by simp
  have "take 11 ?b = magic h" using assms(1) by simp
  moreover have "?b ! 11 = char_of (version h)" using assms(1) by (simp add: nth_append)
  moreover have "take 2 (drop 12 ?b) = le16 (flags h)" using assms(1) by simp
  moreover have "?b ! 14 = char_of (algorithm h)" using assms(1) by (simp add: nth_append)
  moreover have "?b ! 15 = char_of (lg_blocksize h)" using assms(1) by (simp add: nth_append)
  moreover have "drop 16 ?b = range_bytes (info h) @ rest" using assms(1) by simp
  moreover have "\<not> length ?b < 32" using assms(1) by simp
  ultimately show ?thesis unfolding b read_header_def using assms by simp
qed

lemma read_info_bytes: "read_info (info_bytes i) = Some i"
proof -
  let ?a = "range_bytes (stream_refs i)" and ?b = "range_bytes (object_refs i)" and ?c = "range_bytes (stream i)"
    and ?d = "range_bytes (named_refs i)" and ?e = "le64 (content_type i)" and ?f = "le64 (stream_size i)"
  have "drop 16 (info_bytes i) = ?b @ ?c @ ?d @ ?e @ ?f" "drop 32 (info_bytes i) = ?c @ ?d @ ?e @ ?f"
    "drop 48 (info_bytes i) = ?d @ ?e @ ?f" "drop 64 (info_bytes i) = ?e @ ?f" "drop 72 (info_bytes i) = ?f"
    "\<not> length (info_bytes i) < 80"
    by (simp_all add: info_bytes_def)
  moreover have "read_file_range (info_bytes i) = stream_refs i" by (simp add: info_bytes_def)
  ultimately show ?thesis by (simp add: read_info_def)
qed

lemma length_header_info:
  "length (magic h) = 11 \<Longrightarrow> length (header_bytes h) = 32" "length (info_bytes i) = 80"
  by (simp_all add: header_bytes_def info_bytes_def)

lemma read_range_section:
  assumes "file = pre @ sect @ post" "length file < 2 ^ 64"
  shows "read_range file \<lparr>range_start = of_nat (length pre), range_end = of_nat (length pre + length sect)\<rparr> = Inr sect"
    "range_len \<lparr>range_start = of_nat (length pre), range_end = of_nat (length pre + length sect)\<rparr> = Inr (length sect)"
proof -
  have a: "unat (of_nat (length pre) :: u64) = length pre"
    "unat (of_nat (length pre + length sect) :: u64) = length pre + length sect"
    using assms by (simp_all add: unat_of_nat del: of_nat_add)
  have "\<not> (of_nat (length pre + length sect) :: u64) < of_nat (length pre)"
    using a by (simp add: word_less_nat_alt)
  then show l: "range_len \<lparr>range_start = of_nat (length pre), range_end = of_nat (length pre + length sect)\<rparr> = Inr (length sect)"
    using a by (simp add: range_len_def del: of_nat_add)
  then show "read_range file \<lparr>range_start = of_nat (length pre), range_end = of_nat (length pre + length sect)\<rparr> = Inr sect"
    using a assms by (simp add: read_range_def Let_def del: of_nat_add)
qed

lemma chunks_of_concat:
  "0 < n \<Longrightarrow> \<forall>x \<in> set xs. length x = n \<Longrightarrow> chunks n (concat xs) = xs"
proof (induction xs)
  case (Cons x xs)
  then show ?case by (subst chunks.simps) auto
qed simp

lemma length_concat_const: "\<forall>x \<in> set xs. length x = n \<Longrightarrow> length (concat xs) = n * length xs"
  by (induction xs) auto

lemma hash_slice_concat:
  "0 < size_of H \<Longrightarrow> \<forall>x \<in> set xs. length x = size_of H \<Longrightarrow> hash_slice H (concat xs) = Some xs"
  using length_concat_const [of xs "size_of H"] by (simp add: hash_slice_def chunks_of_concat)

text \<open>The named references: the table that the reader builds.\<close>

definition resolve_named :: "bytes list \<Rightarrow> (bytes \<times> nat) list \<Rightarrow> (bytes \<times> bytes) list" where
  "resolve_named refs ns = map (\<lambda>(name, i). (name, refs ! i)) ns"

definition named_ok :: "bytes list \<Rightarrow> (bytes \<times> nat) list \<Rightarrow> bool" where
  "named_ok refs ns \<longleftrightarrow> bt_wf ns \<and> (\<forall>(name, i) \<in> set ns. i < length refs \<and> i < 2 ^ 64 \<and>
     utf8_valid name \<and> CHR 0x00 \<notin> set name)"

lemma utf8_valid_ascii_append: "is_ascii p \<Longrightarrow> utf8_valid s \<Longrightarrow> utf8_valid (p @ s)"
proof (induction p)
  case (Cons c p)
  then have c: "utf8_chars ((c # p) @ s) = [c] # utf8_chars (p @ s)" "(of_char c :: nat) < 128"
    by (simp_all add: utf8_width_def)
  have "utf8_valid (p @ s)" using Cons by simp
  then show ?case unfolding utf8_valid_def c(1) using c(2) by (simp add: utf8_lead_ok_def Let_def)
qed simp

lemma show_dec_ascii: "is_ascii (show_dec n)"
  unfolding is_ascii_def
proof
  fix c assume "c \<in> set (show_dec n)"
  then show "(of_char c :: nat) < 128" using show_radix_chars [of 10 c n] by auto
qed

lemma bt_insert_above: "\<forall>x \<in> fst ` set m. x < k \<Longrightarrow> bt_insert k v m = m @ [(k, v)]"
  by (induction k v m rule: bt_insert.induct) auto

lemma named_fold:
  assumes "\<forall>(name, i) \<in> set ns. i < length refs \<and> i < 2 ^ 64 \<and> utf8_valid name" "bt_wf (acc @ resolve_named refs ns)"
  shows "rfold (named_ref_item refs) acc (map (\<lambda>(name, idx). show_dec idx @ '':'' @ name) ns) =
    Inr (acc @ resolve_named refs ns)"
  using assms
proof (induction ns arbitrary: acc)
  case Nil
  then show ?case by (simp add: resolve_named_def)
next
  case (Cons x ns)
  obtain name i where x: "x = (name, i)" by (cases x)
  have i: "i < length refs" "i < 18446744073709551616" "utf8_valid name" using Cons.prems(1) x by auto
  have colon: "CHR '':'' \<notin> set (show_dec i)"
    by (rule show_radix_no) simp_all
  have "is_ascii (show_dec i @ '':'')" using show_dec_ascii by simp
  then have u: "utf8_valid (show_dec i @ CHR '':'' # name)"
    using utf8_valid_ascii_append [of "show_dec i @ '':''" name] i(3) by simp
  have wf: "bt_wf (acc @ (name, refs ! i) # resolve_named refs ns)"
    using Cons.prems(2) x by (simp add: resolve_named_def)
  have "\<forall>y \<in> fst ` set acc. y < name" using wf by (auto simp: bt_wf_def sorted_wrt_append)
  then have "named_ref_item refs acc (show_dec i @ CHR '':'' # name) = Inr (acc @ [(name, refs ! i)])"
    using i u colon by (simp add: named_ref_item_def bt_insert_above)
  moreover have "rfold (named_ref_item refs) (acc @ [(name, refs ! i)]) (map (\<lambda>(name, idx). show_dec idx @ '':'' @ name) ns) =
      Inr ((acc @ [(name, refs ! i)]) @ resolve_named refs ns)"
    using Cons.IH [of "acc @ [(name, refs ! i)]"] Cons.prems(1) wf by simp
  ultimately show ?case using x by (simp add: resolve_named_def)
qed

lemma read_named_written:
  assumes Z: "zstd_laws Z" and ok: "named_ok refs ns"
  shows "read_named_references Z (write_named_refs Z ns) refs = Inr (resolve_named refs ns)"
proof -
  let ?ps = "map (\<lambda>(name, idx). show_dec idx @ '':'' @ name) ns"
  have body: "concat (map (\<lambda>(name, idx). show_dec idx @ '':'' @ name @ [CHR 0x00]) ns) =
      concat (map (\<lambda>p. p @ [CHR 0x00]) ?ps)"
    by (rule arg_cong [where f = concat]) auto
  have z: "CHR 0x00 \<notin> set p" if p: "p \<in> set ?ps" for p
  proof -
    obtain name i where "(name, i) \<in> set ns" "p = show_dec i @ '':'' @ name" using p by auto
    moreover have "CHR 0x00 \<notin> set (show_dec i)" by (rule show_radix_no) simp_all
    ultimately show ?thesis using ok by (auto simp: named_ok_def)
  qed
  have "split_char CHR 0x00 (concat (map (\<lambda>p. p @ [CHR 0x00]) ps)) = ps @ [[]]"
    if "\<forall>p \<in> set ps. CHR 0x00 \<notin> set p" for ps
    using that by (induction ps) (simp_all add: split_char_append)
  then have sp: "split_char CHR 0x00 (concat (map (\<lambda>p. p @ [CHR 0x00]) ?ps)) = ?ps @ [[]]" using z by blast
  have "map fst (resolve_named refs ns) = map fst ns" by (simp add: resolve_named_def case_prod_beta comp_def)
  then have "bt_wf (resolve_named refs ns)" using ok by (simp add: named_ok_def bt_wf_def)
  then have "rfold (named_ref_item refs) [] ?ps = Inr (resolve_named refs ns)"
    using named_fold [of ns refs "[]"] ok by (auto simp: named_ok_def)
  then show ?thesis using Z sp unfolding read_named_references_def write_named_refs_def body
    by (simp add: zstd_laws_def Let_def)
qed

text \<open>What the reader knows of a file that was laid out from a writer.\<close>

definition opened :: "writer \<Rightarrow> reader" where
  "opened w = \<lparr>decoder = (encoder w, True), inline_bytes = 0, r_content_type = w_content_type w,
     r_total_size = w_total_size w, r_object_refs = items (w_object_refs w),
     r_named_refs = resolve_named (items (w_stream_refs w)) (w_named_refs w)\<rparr>"

definition writer_wf :: "hash_alg \<Rightarrow> writer \<Rightarrow> bool" where
  "writer_wf H w \<longleftrightarrow> (\<forall>x \<in> set (items (w_stream_refs w)). length x = size_of H) \<and>
     (\<forall>x \<in> set (items (w_object_refs w)). length x = size_of H) \<and>
     named_ok (items (w_stream_refs w)) (w_named_refs w)"

definition stream_alg :: "hash_alg \<Rightarrow> bool" where
  "stream_alg H \<longleftrightarrow> 0 < size_of H \<and> size_of H mod 8 = 0 \<and> ALGORITHM H < 256"

lemma layout_opened:
  assumes Z: "zstd_laws Z" and H: "stream_alg H" and w: "writer_wf H w"
    and l: "layout H w (zcompress Z (encoder w)) (write_named_refs Z (w_named_refs w)) = Some file"
    and len: "length file < 2 ^ 64" and ct: "ct = None \<or> ct = Some (w_content_type w)"
  shows "reader_new Z H file ct = Inr (opened w)"
proof -
  let ?S = "uv_bytes (w_stream_refs w)" and ?O = "uv_bytes (w_object_refs w)"
  let ?N = "write_named_refs Z (w_named_refs w)" and ?D = "zcompress Z (encoder w)"
  let ?rng = "\<lambda>a b. \<lparr>range_start = of_nat a, range_end = of_nat b\<rparr> :: file_range"
  let ?h = "\<lparr>magic = SPLITSTREAM_MAGIC, version = 0, flags = 0, algorithm = ALGORITHM H,
    lg_blocksize = LG_BLOCKSIZE, info = ?rng 32 112\<rparr>"
  let ?i = "\<lparr>stream_refs = ?rng 112 (112 + length ?S),
    object_refs = ?rng (112 + length ?S) (112 + length ?S + length ?O),
    stream = ?rng (112 + length ?S + length ?O + length ?N) (112 + length ?S + length ?O + length ?N + length ?D),
    named_refs = ?rng (112 + length ?S + length ?O) (112 + length ?S + length ?O + length ?N),
    content_type = w_content_type w, stream_size = w_total_size w\<rparr>"
  have fl: "file = header_bytes ?h @ info_bytes ?i @ ?S @ ?O @ ?N @ ?D"
    using l by (simp add: layout_def Let_def split: if_splits)
  have hl: "length (header_bytes ?h) = 32" "length (info_bytes ?i) = 80"
    by (simp_all add: length_header_info SPLITSTREAM_MAGIC_def)
  note sect = read_range_section [OF _ len]
  have h: "read_header file = Some ?h"
    unfolding fl using H by (intro read_header_bytes) (simp_all add: SPLITSTREAM_MAGIC_def LG_BLOCKSIZE_def stream_alg_def)
  have i: "read_range file (info ?h) = Inr (info_bytes ?i)"
    using sect(1) [of "header_bytes ?h" "info_bytes ?i" "?S @ ?O @ ?N @ ?D"] fl hl by simp
  have s: "read_range file (stream_refs ?i) = Inr ?S"
    using sect(1) [of "header_bytes ?h @ info_bytes ?i" ?S "?O @ ?N @ ?D"] fl hl by simp
  have o: "read_range file (object_refs ?i) = Inr ?O"
    using sect(1) [of "header_bytes ?h @ info_bytes ?i @ ?S" ?O "?N @ ?D"] fl hl by (simp add: add.assoc)
  have n: "read_range file (named_refs ?i) = Inr ?N"
    using sect(1) [of "header_bytes ?h @ info_bytes ?i @ ?S @ ?O" ?N ?D] fl hl by (simp add: add.assoc)
  have d: "range_len (stream ?i) = Inr (length ?D)"
    using sect(2) [of "header_bytes ?h @ info_bytes ?i @ ?S @ ?O @ ?N" ?D "[]"] fl hl by (simp add: add.assoc)
  have "112 + length ?S + length ?O + length ?N < 2 ^ 64" using len fl hl by simp
  then have "unat (of_nat (112 + length ?S + length ?O + length ?N) :: u64) = 112 + length ?S + length ?O + length ?N"
    by (simp add: unat_of_nat del: of_nat_add)
  then have dd: "take (length ?D) (drop (unat (of_nat (112 + length ?S + length ?O + length ?N) :: u64)) file) = ?D"
    using fl hl by (simp del: of_nat_add)
  have "hash_slice H ?S = Some (items (w_stream_refs w))" "hash_slice H ?O = Some (items (w_object_refs w))"
    using H w by (simp_all add: uv_bytes_def hash_slice_concat stream_alg_def writer_wf_def)
  moreover have "read_named_references Z ?N (items (w_stream_refs w)) =
      Inr (resolve_named (items (w_stream_refs w)) (w_named_refs w))"
    using w by (intro read_named_written [OF Z]) (simp add: writer_wf_def)
  moreover have "zdecode Z ?D = (encoder w, True)" using Z by (simp add: zstd_laws_def)
  ultimately show ?thesis
    using ct unfolding reader_new_def h ok_or_simps rbind_Inr i read_info_bytes s o n d
    by (auto simp: i s o n d dd opened_def ensure_r_def read_info_bytes simp del: of_nat_add)
qed

lemma layout_no_panic:
  assumes "stream_alg H" "writer_wf H w"
  shows "\<exists>file. layout H w strm named = Some file"
proof -
  have "length (uv_bytes (w_stream_refs w)) = size_of H * length (items (w_stream_refs w))"
    "length (uv_bytes (w_object_refs w)) = size_of H * length (items (w_object_refs w))"
    using assms(2) by (simp_all add: uv_bytes_def writer_wf_def length_concat_const)
  then have m: "length (uv_bytes (w_stream_refs w)) mod 8 = 0" "length (uv_bytes (w_object_refs w)) mod 8 = 0"
    using assms(1) by (simp_all add: stream_alg_def mod_mult_left_eq [symmetric])
  then have "(112 + length (uv_bytes (w_stream_refs w))) mod 8 = 0"
    "(112 + length (uv_bytes (w_stream_refs w)) + length (uv_bytes (w_object_refs w))) mod 8 = 0"
    by presburger+
  then show ?thesis by (simp add: layout_def Let_def)
qed

section \<open>Unique vectors\<close>

definition uv_ok :: "unique_vec \<Rightarrow> bool" where
  "uv_ok u \<longleftrightarrow> distinct (items u) \<and> (\<forall>x i. uindex u x = Some i \<longleftrightarrow> i < length (items u) \<and> items u ! i = x)"

lemma uv_ok_new [simp]: "uv_ok uv_new" "items uv_new = []"
  by (simp_all add: uv_ok_def uv_new_def)

lemma uv_ensure_ok:
  assumes "uv_ok u" "uv_ensure u x = (i, u')"
  shows "uv_ok u'" "i < length (items u')" "items u' ! i = x"
    "items u' = items u \<or> (items u' = items u @ [x] \<and> x \<notin> set (items u))"
    "items u' = items u \<longleftrightarrow> x \<in> set (items u)"
proof -
  have "uv_ok u' \<and> i < length (items u') \<and> items u' ! i = x \<and>
    (items u' = items u \<or> (items u' = items u @ [x] \<and> x \<notin> set (items u))) \<and>
    (items u' = items u \<longleftrightarrow> x \<in> set (items u))"
  proof (cases "uindex u x")
    case (Some j)
    then show ?thesis using assms by (auto simp: uv_ensure_def uv_get_def uv_ok_def)
  next
    case None
    then have "\<not> (j < length (items u) \<and> items u ! j = x)" for j
      using assms(1) by (metis option.distinct(1) uv_ok_def)
    then have x: "x \<notin> set (items u)" by (auto simp: in_set_conv_nth)
    then have u': "i = length (items u)" "items u' = items u @ [x]" "uindex u' = (uindex u)(x \<mapsto> i)"
      using None assms(2) by (auto simp: uv_ensure_def uv_get_def Let_def)
    have "uindex u' y = Some k \<longleftrightarrow> k < length (items u') \<and> items u' ! k = y" for y k
    proof (cases "y = x")
      case True
      then show ?thesis using u' x by (auto simp: nth_append in_set_conv_nth less_Suc_eq)
    next
      case False
      then show ?thesis using u' assms(1) by (auto simp: nth_append uv_ok_def less_Suc_eq)
    qed
    then have "uv_ok u'" using assms(1) u'(2) x by (simp add: uv_ok_def)
    then show ?thesis using u' x by simp
  qed
  then show "uv_ok u'" "i < length (items u')" "items u' ! i = x"
    "items u' = items u \<or> (items u' = items u @ [x] \<and> x \<notin> set (items u))"
    "items u' = items u \<longleftrightarrow> x \<in> set (items u)" by blast+
qed

text \<open> Adding an item to a unique vector returns an index where it is found, twice the same
  index; other items keep their places and the items stay distinct. \<close>

theorem unique_vec_ensure:
  assumes "uv_ok u" and "uv_ensure u x = (i, u')"
  shows "uv_get_by_index u' i = Some x \<and> uv_get u' x = Some i \<and> uv_ensure u' x = (i, u') \<and> uv_ok u' \<and>
    (\<forall>j y. uv_get_by_index u j = Some y \<longrightarrow> uv_get_by_index u' j = Some y)"
proof -
  note r = uv_ensure_ok [OF assms]
  have g: "uv_get u' x = Some i" using r(1-3) by (simp add: uv_get_def uv_ok_def)
  have "uv_get_by_index u j = Some y \<longrightarrow> uv_get_by_index u' j = Some y" for j y
    using r(4) by (auto simp: uv_get_by_index_def nth_append split: if_splits)
  then show ?thesis using r(1-3) g by (auto simp: uv_get_by_index_def uv_ensure_def)
qed

lemma unique_vec_ensure_witness:
  "uv_get_by_index (snd (uv_ensure uv_new ''a'')) 0 = Some ''a''"
  using unique_vec_ensure [of uv_new "''a''" 0 "snd (uv_ensure uv_new ''a'')"]
  by (simp add: uv_ensure_def uv_get_def uv_new_def uv_ok_def)

section \<open>Chunks\<close>

text \<open>The stream as a list of chunks: inline data, or the index of an object.\<close>

datatype chunk = Data bytes | Ref nat

definition encode_chunk :: "chunk \<Rightarrow> bytes" where
  "encode_chunk c = (case c of Data d \<Rightarrow> le64 (- of_nat (length d)) @ d | Ref i \<Rightarrow> le64 (of_nat i))"

definition chunk_ok :: "nat \<Rightarrow> chunk \<Rightarrow> bool" where
  "chunk_ok n c = (case c of Data d \<Rightarrow> 0 < length d \<and> length d \<le> I64_MAX | Ref i \<Rightarrow> i < n \<and> i \<le> I64_MAX)"

definition encode_chunks :: "chunk list \<Rightarrow> bytes" where
  "encode_chunks cs = concat (map encode_chunk cs)"

definition chunk_data :: "bytes list \<Rightarrow> chunk \<Rightarrow> bytes" where
  "chunk_data ds c = (case c of Data d \<Rightarrow> d | Ref i \<Rightarrow> ds ! i)"

definition chunks_data :: "bytes list \<Rightarrow> chunk list \<Rightarrow> bytes" where
  "chunks_data ds cs = concat (map (chunk_data ds) cs)"

lemma sint_small: "n \<le> I64_MAX \<Longrightarrow> sint (of_nat n :: u64) = int n"
proof -
  assume n: "n \<le> I64_MAX"
  have "sint (word_of_int (int n) :: u64) = signed_take_bit 63 (int n)" by (simp only: sint_sbintrunc') simp
  also have "\<dots> = int n" using n by (simp add: signed_take_bit_int_eq_self I64_MAX_def)
  finally show ?thesis by simp
qed

lemma sint_neg_small: "n \<le> I64_MAX \<Longrightarrow> sint (- of_nat n :: u64) = - int n"
proof -
  assume n: "n \<le> I64_MAX"
  have "sint (word_of_int (- int n) :: u64) = signed_take_bit 63 (- int n)" by (simp only: sint_sbintrunc') simp
  also have "\<dots> = - int n" using n by (intro signed_take_bit_int_eq_self) (simp_all add: I64_MAX_def)
  finally show ?thesis by simp
qed

lemma ensure_chunk_data:
  assumes "inline_bytes r = 0" "decoder r = (encode_chunk (Data d) @ rest, True)" "chunk_ok n (Data d)"
    "expected \<le> length d"
  shows "ensure_chunk r e x expected = Inr (CInline, r\<lparr>decoder := (d @ rest, True), inline_bytes := length d\<rparr>)"
proof -
  have "sint (- of_nat (length d) :: u64) = - int (length d)" "0 < length d"
    using assms(3) by (simp_all add: chunk_ok_def sint_neg_small)
  then show ?thesis using assms(1,2,4)
    by (simp add: ensure_chunk_def read_exactish_def encode_chunk_def Let_def)
qed

lemma ensure_chunk_ref:
  assumes "inline_bytes r = 0" "decoder r = (encode_chunk (Ref i) @ rest, True)"
    "chunk_ok (length (r_object_refs r)) (Ref i)"
  shows "ensure_chunk r e True expected = Inr (CExternal (r_object_refs r ! i), r\<lparr>decoder := (rest, True)\<rparr>)"
proof -
  have "sint (of_nat i :: u64) = int i" "i < length (r_object_refs r)"
    using assms(3) by (simp_all add: chunk_ok_def sint_small)
  then show ?thesis using assms(1,2)
    by (simp add: ensure_chunk_def read_exactish_def encode_chunk_def Let_def)
qed

lemma ensure_chunk_eof:
  "inline_bytes r = 0 \<Longrightarrow> decoder r = ([], True) \<Longrightarrow> ensure_chunk r True x expected = Inr (CEof, r)"
  by (simp add: ensure_chunk_def read_exactish_def)

text \<open>\<open>cat\<close> writes the contents of the chunks.\<close>

lemma cat_loop_chunks:
  assumes refs: "\<forall>i < length (r_object_refs r). read (r_object_refs r ! i) s = Some (Inr (ds ! i), s)"
    and ok: "\<forall>c \<in> set cs. chunk_ok (length (r_object_refs r)) c"
    and dec: "decoder r = (encode_chunks cs, True)" "inline_bytes r = 0"
  shows "cat_loop read r out s = Some (Inr (out @ chunks_data ds cs), s)"
  using assms
proof (induction cs arbitrary: r out)
  case Nil
  then show ?case
    by (subst cat_loop.simps) (simp add: encode_chunks_def ensure_chunk_eof chunks_data_def)
next
  case (Cons c cs)
  show ?case
  proof (cases c)
    case (Data d)
    have d: "decoder r = (encode_chunk (Data d) @ encode_chunks cs, True)"
      using Cons.prems(3) Data by (simp add: encode_chunks_def)
    have ok: "chunk_ok (length (r_object_refs r)) (Data d)" using Cons.prems(2) Data by simp
    let ?r = "r\<lparr>decoder := (encode_chunks cs, True), inline_bytes := 0\<rparr>"
    have "cat_loop read ?r (out @ d) s = Some (Inr ((out @ d) @ chunks_data ds cs), s)"
      using Cons.IH [of ?r "out @ d"] Cons.prems by simp
    then show ?thesis using ensure_chunk_data [OF Cons.prems(4) d ok, of 0 True True] Data
      by (subst cat_loop.simps) (simp add: dec_read_exact_def chunks_data_def chunk_data_def)
  next
    case (Ref i)
    have d: "decoder r = (encode_chunk (Ref i) @ encode_chunks cs, True)"
      using Cons.prems(3) Ref by (simp add: encode_chunks_def)
    have ok: "chunk_ok (length (r_object_refs r)) (Ref i)" using Cons.prems(2) Ref by simp
    then have i: "i < length (r_object_refs r)" by (simp add: chunk_ok_def)
    let ?r = "r\<lparr>decoder := (encode_chunks cs, True)\<rparr>"
    have "cat_loop read ?r (out @ ds ! i) s = Some (Inr ((out @ ds ! i) @ chunks_data ds cs), s)"
      using Cons.IH [of ?r "out @ ds ! i"] Cons.prems by simp
    moreover have "read (r_object_refs r ! i) s = Some (Inr (ds ! i), s)" using Cons.prems(1) i by simp
    ultimately show ?thesis using ensure_chunk_ref [OF Cons.prems(4) d ok, of True 0] Ref
      by (subst cat_loop.simps) (simp add: io_bind_def repo_step_def chunks_data_def chunk_data_def)
  qed
qed

section \<open>Writing a stream\<close>

datatype stream_op = WInline bytes | WExternal bytes

definition op_data :: "stream_op \<Rightarrow> bytes" where
  "op_data p = (case p of WInline d \<Rightarrow> d | WExternal d \<Rightarrow> d)"

definition run_op :: "(bytes \<Rightarrow> (repo_error, 's, bytes) io) \<Rightarrow> writer \<Rightarrow> stream_op \<Rightarrow> (stream_error, 's, writer) io" where
  "run_op ensure w p = (case p of WInline d \<Rightarrow> io_return (write_inline d w)
     | WExternal d \<Rightarrow> write_external_with ensure d w)"

fun run_ops :: "(bytes \<Rightarrow> (repo_error, 's, bytes) io) \<Rightarrow> writer \<Rightarrow> stream_op list \<Rightarrow> (stream_error, 's, writer) io" where
  "run_ops ensure w [] = io_return w"
| "run_ops ensure w (p # ps) = io_bind (run_op ensure w p) (\<lambda>w'. run_ops ensure w' ps)"

text \<open>Nothing that is stored collides with what the store holds by then.\<close>

fun compatible_run :: "(bytes \<Rightarrow> 's \<Rightarrow> bool) \<Rightarrow> (bytes \<Rightarrow> (repo_error, 's, bytes) io) \<Rightarrow> writer \<Rightarrow>
    stream_op list \<Rightarrow> 's \<Rightarrow> bool" where
  "compatible_run cmp ensure w [] s \<longleftrightarrow> True"
| "compatible_run cmp ensure w (p # ps) s \<longleftrightarrow>
     (case p of WInline d \<Rightarrow> True | WExternal d \<Rightarrow> cmp d s) \<and>
     (case run_op ensure w p s of Some (Inr w', s') \<Rightarrow> compatible_run cmp ensure w' ps s' | _ \<Rightarrow> True)"

text \<open>The writer has written \<open>data\<close>: its chunks and its buffer, with the objects in the store.\<close>

definition written :: "('s \<Rightarrow> bytes \<Rightarrow> bytes \<Rightarrow> bool) \<Rightarrow> 's \<Rightarrow> writer \<Rightarrow> bytes \<Rightarrow> bool" where
  "written has s w data \<longleftrightarrow> uv_ok (w_object_refs w) \<and> w_total_size w = of_nat (length data) \<and>
     (\<exists>cs ds. encoder w = encode_chunks cs \<and> length ds = length (items (w_object_refs w)) \<and>
        (\<forall>c \<in> set cs. chunk_ok (length ds) c) \<and>
        (\<forall>i < length ds. has s (items (w_object_refs w) ! i) (ds ! i)) \<and>
        chunks_data ds cs @ inline_buffer w = data)"

lemma written_new: "written has s (writer_new ct) []"
  unfolding written_def writer_new_def
  by (intro conjI exI [of _ "[]"]) (simp_all add: encode_chunks_def chunks_data_def)

lemma written_inline: "written has s w data \<Longrightarrow> written has s (write_inline d w) (data @ d)"
  unfolding written_def write_inline_def by (simp add: ac_simps)

lemma written_mono: "written has s w data \<Longrightarrow> (\<And>oid d. has s oid d \<Longrightarrow> has s' oid d) \<Longrightarrow> written has s' w data"
  unfolding written_def by blast

lemma encode_chunks_snoc: "encode_chunks (cs @ [c]) = encode_chunks cs @ encode_chunk c"
  by (simp add: encode_chunks_def)

lemma chunks_data_snoc: "chunks_data ds (cs @ [c]) = chunks_data ds cs @ chunk_data ds c"
  by (simp add: chunks_data_def)

lemma written_flush:
  assumes "written has s w data" "flush_inline w = Some w'"
  shows "written has s w' data" "inline_buffer w' = []" "w_object_refs w' = w_object_refs w"
    "w_stream_refs w' = w_stream_refs w" "w_named_refs w' = w_named_refs w"
proof -
  let ?b = "inline_buffer w"
  have fl: "(?b = [] \<and> w' = w) \<or> (?b \<noteq> [] \<and> length ?b \<le> I64_MAX \<and>
      w' = w\<lparr>encoder := encoder w @ encode_chunk (Data ?b), inline_buffer := []\<rparr>)"
    using assms(2) by (auto simp: flush_inline_def Let_def encode_chunk_def split: if_splits)
  then show "inline_buffer w' = []" "w_object_refs w' = w_object_refs w"
    "w_stream_refs w' = w_stream_refs w" "w_named_refs w' = w_named_refs w" by auto
  obtain cs ds where c: "encoder w = encode_chunks cs" "length ds = length (items (w_object_refs w))"
    "\<forall>c \<in> set cs. chunk_ok (length ds) c" "\<forall>i < length ds. has s (items (w_object_refs w) ! i) (ds ! i)"
    "chunks_data ds cs @ ?b = data" and u: "uv_ok (w_object_refs w)" "w_total_size w = of_nat (length data)"
    using assms(1) unfolding written_def by blast
  show "written has s w' data"
  proof (cases "?b = []")
    case True
    then show ?thesis using fl assms(1) by simp
  next
    case False
    then have w': "w' = w\<lparr>encoder := encode_chunks (cs @ [Data ?b]), inline_buffer := []\<rparr>" "length ?b \<le> I64_MAX"
      using fl c(1) by (auto simp: encode_chunks_snoc)
    have "chunk_ok (length ds) (Data ?b)" using False w'(2) by (simp add: chunk_ok_def)
    moreover have "chunks_data ds (cs @ [Data ?b]) = data" using c(5) by (simp add: chunks_data_snoc chunk_data_def)
    ultimately show ?thesis using c u w'(1) unfolding written_def
      by (intro conjI exI [of _ "cs @ [Data ?b]"] exI [of _ ds]) auto
  qed
qed

lemma chunks_data_extend: "\<forall>c \<in> set cs. chunk_ok (length ds) c \<Longrightarrow> chunks_data (ds @ xs) cs = chunks_data ds cs"
  by (induction cs) (auto simp: chunks_data_def chunk_data_def chunk_ok_def nth_append split: chunk.splits)

lemma chunk_ok_mono: "chunk_ok n c \<Longrightarrow> n \<le> m \<Longrightarrow> chunk_ok m c"
  by (auto simp: chunk_ok_def split: chunk.splits)

lemma written_reference:
  assumes w: "written has s w data" and h: "has s oid d"
    and det: "\<And>x a b. has s x a \<Longrightarrow> has s x b \<Longrightarrow> a = b"
    and r: "write_reference oid w = Some w'"
  shows "written has s (w'\<lparr>w_total_size := w_total_size w' + of_nat (length d)\<rparr>) (data @ d)"
    "w_stream_refs w' = w_stream_refs w" "w_named_refs w' = w_named_refs w" "inline_buffer w' = []"
    "w_total_size w' = w_total_size w" "set (items (w_object_refs w')) \<subseteq> Set.insert oid (set (items (w_object_refs w)))"
proof -
  obtain w1 where w1: "flush_inline w = Some w1" using r by (cases "flush_inline w") (simp_all add: write_reference_def)
  note fl = written_flush [OF w w1]
  obtain i u where e: "uv_ensure (w_object_refs w1) oid = (i, u)" by fastforce
  have w': "w' = w1\<lparr>w_object_refs := u, encoder := encoder w1 @ encode_chunk (Ref i)\<rparr>" "i \<le> I64_MAX"
    using r w1 e by (auto simp: write_reference_def add_object_ref_def encode_chunk_def split: if_splits)
  have ts: "w_total_size w1 = w_total_size w"
    using w1 by (auto simp: flush_inline_def Let_def split: if_splits)
  obtain cs ds where c: "encoder w1 = encode_chunks cs" "length ds = length (items (w_object_refs w1))"
    "\<forall>c \<in> set cs. chunk_ok (length ds) c" "\<forall>i < length ds. has s (items (w_object_refs w1) ! i) (ds ! i)"
    "chunks_data ds cs = data" and u: "uv_ok (w_object_refs w1)" "w_total_size w1 = of_nat (length data)"
    using fl(1,2) unfolding written_def by auto
  note en = uv_ensure_ok [OF u(1) e]
  let ?w = "w'\<lparr>w_total_size := w_total_size w' + of_nat (length d)\<rparr>"
  show "written has s ?w (data @ d)"
  proof (cases "oid \<in> set (items (w_object_refs w1))")
    case True
    then have it: "items u = items (w_object_refs w1)" using en(5) by simp
    then have "has s oid (ds ! i)" using c(2,4) en(2,3) by (metis)
    then have d: "ds ! i = d" using det h by blast
    have "chunk_ok (length ds) (Ref i)" using en(2) it c(2) w'(2) by (simp add: chunk_ok_def)
    moreover have "chunks_data ds (cs @ [Ref i]) = data @ d" using c(5) d by (simp add: chunks_data_snoc chunk_data_def)
    ultimately show ?thesis using c(1-4) u en(1) it w'(1) fl(2) unfolding written_def
      by (intro conjI exI [of _ "cs @ [Ref i]"] exI [of _ ds]) (auto simp: encode_chunks_snoc)
  next
    case False
    then have it: "items u = items (w_object_refs w1) @ [oid]" using en(4,5) by auto
    have i: "i = length ds"
    proof (rule ccontr)
      assume "i \<noteq> length ds"
      then have "i < length (items (w_object_refs w1))" using en(2) it c(2) by auto
      then have "items (w_object_refs w1) ! i = oid" using en(3) it by (simp add: nth_append)
      then show False using False \<open>i < length (items (w_object_refs w1))\<close> by auto
    qed
    have "chunk_ok (length (ds @ [d])) (Ref i)" using i w'(2) by (simp add: chunk_ok_def)
    then have "\<forall>c \<in> set (cs @ [Ref i]). chunk_ok (length (ds @ [d])) c"
      using c(3) chunk_ok_mono [of "length ds" _ "length (ds @ [d])"] by auto
    moreover have "chunks_data (ds @ [d]) (cs @ [Ref i]) = data @ d"
      using c(5) chunks_data_extend [OF c(3), of "[d]"] i by (simp add: chunks_data_snoc chunk_data_def)
    moreover have "\<forall>k < length (ds @ [d]). has s (items u ! k) ((ds @ [d]) ! k)"
      using c(2,4) it h by (auto simp: nth_append less_Suc_eq)
    ultimately show ?thesis using c(1,2) u en(1) it w'(1) fl(2) unfolding written_def
      by (intro conjI exI [of _ "cs @ [Ref i]"] exI [of _ "ds @ [d]"]) (auto simp: encode_chunks_snoc)
  qed
  show "w_stream_refs w' = w_stream_refs w" "w_named_refs w' = w_named_refs w" "inline_buffer w' = []"
    "w_total_size w' = w_total_size w"
    using w' fl ts by simp_all
  show "set (items (w_object_refs w')) \<subseteq> Set.insert oid (set (items (w_object_refs w)))"
    using w' en(4) fl(3) by auto
qed

text \<open>The size is added before the object is stored.\<close>

lemma flush_total_size:
  "flush_inline (w\<lparr>w_total_size := n\<rparr>) = map_option (w_total_size_update (\<lambda>_. n)) (flush_inline w)"
  by (simp add: flush_inline_def Let_def)

lemma reference_total_size:
  "write_reference oid (w\<lparr>w_total_size := n\<rparr>) = map_option (w_total_size_update (\<lambda>_. n)) (write_reference oid w)"
  by (cases "flush_inline w")
    (simp_all add: write_reference_def flush_total_size add_object_ref_def case_prod_beta)

lemma writer_wf_inline: "writer_wf H (write_inline d w) = writer_wf H w"
  by (simp add: writer_wf_def write_inline_def)

text \<open>A store whose object names all have the same length, as a stream needs them.\<close>

locale stream_store = object_store ensure read good compatible has
    for ensure :: "bytes \<Rightarrow> (repo_error, 's, bytes) io" and read :: "bytes \<Rightarrow> (repo_error, 's, bytes) io"
    and good :: "'s \<Rightarrow> bool" and compatible :: "bytes \<Rightarrow> 's \<Rightarrow> bool" and has :: "'s \<Rightarrow> bytes \<Rightarrow> bytes \<Rightarrow> bool" +
  fixes n :: nat
  assumes ensure_length: "good s \<Longrightarrow> ensure d s = Some (Inr oid, s') \<Longrightarrow> length oid = n"
begin

lemma has_unique: "has s x a \<Longrightarrow> has s x b \<Longrightarrow> a = b"
  using read_has [of s x a] read_has [of s x b] by simp

lemma write_external_written:
  assumes g: "good s" and c: "compatible d s" and w: "written has s w data"
    and r: "write_external_with ensure d w s = Some (Inr w', s')"
  shows "good s' \<and> written has s' w' (data @ d) \<and> w_stream_refs w' = w_stream_refs w \<and>
    w_named_refs w' = w_named_refs w \<and> w_content_type w' = w_content_type w"
    "\<exists>oid. ensure d s = Some (Inr oid, s') \<and>
       set (items (w_object_refs w')) \<subseteq> Set.insert oid (set (items (w_object_refs w)))"
proof -
  let ?n = "w_total_size w + of_nat (length d)"
  obtain oid where e: "ensure d s = Some (Inr oid, s')"
    and w': "write_reference oid (w\<lparr>w_total_size := ?n\<rparr>) = Some w'"
    using r by (auto simp: write_external_with_def io_bind_def repo_step_def Let_def ok_or_def io_lift_def
        split: option.splits sum.splits prod.splits)
  obtain w2 where w2: "write_reference oid w = Some w2" "w' = w2\<lparr>w_total_size := ?n\<rparr>"
    using w' by (auto simp: reference_total_size)
  have "written has s' w data" using written_mono [OF w] ensure_keeps [OF g e] by blast
  note wr = written_reference [OF this ensure_has [OF g c e] has_unique w2(1)]
  have "w_content_type w2 = w_content_type w"
    using w2(1) by (cases "flush_inline w")
      (auto simp: write_reference_def add_object_ref_def flush_inline_def Let_def split: if_splits prod.splits)
  then show "good s' \<and> written has s' w' (data @ d) \<and> w_stream_refs w' = w_stream_refs w \<and>
    w_named_refs w' = w_named_refs w \<and> w_content_type w' = w_content_type w"
    using wr w2(2) ensure_good [OF g e] by simp
  show "\<exists>oid. ensure d s = Some (Inr oid, s') \<and>
      set (items (w_object_refs w')) \<subseteq> Set.insert oid (set (items (w_object_refs w)))"
    using e wr(6) w2(2) by auto
qed

lemma run_ops_written:
  assumes "good s" "compatible_run compatible ensure w ps s" "written has s w data"
    "run_ops ensure w ps s = Some (Inr w', s')"
    "\<forall>x \<in> set (items (w_object_refs w)). length x = n"
  shows "good s' \<and> written has s' w' (data @ concat (map op_data ps)) \<and>
    w_stream_refs w' = w_stream_refs w \<and> w_named_refs w' = w_named_refs w \<and>
    w_content_type w' = w_content_type w \<and> (\<forall>x \<in> set (items (w_object_refs w')). length x = n)"
  using assms
proof (induction ps arbitrary: w s data)
  case (Cons p ps)
  obtain w1 s1 where p: "run_op ensure w p s = Some (Inr w1, s1)"
    and ps: "run_ops ensure w1 ps s1 = Some (Inr w', s')"
    using Cons.prems(4) by (auto simp: io_bind_Inr_iff)
  have c: "compatible_run compatible ensure w1 ps s1" using Cons.prems(2) p by simp
  have st: "good s1 \<and> written has s1 w1 (data @ op_data p) \<and> w_stream_refs w1 = w_stream_refs w \<and>
    w_named_refs w1 = w_named_refs w \<and> w_content_type w1 = w_content_type w \<and>
    (\<forall>x \<in> set (items (w_object_refs w1)). length x = n)"
  proof (cases p)
    case (WInline d)
    then show ?thesis using p Cons.prems(1,3,5) written_inline [OF Cons.prems(3), of d]
      by (auto simp: run_op_def op_data_def write_inline_def)
  next
    case (WExternal d)
    then have r: "write_external_with ensure d w s = Some (Inr w1, s1)" and cd: "compatible d s"
      using p Cons.prems(2) by (simp_all add: run_op_def)
    note we = write_external_written [OF Cons.prems(1) cd Cons.prems(3) r]
    obtain oid where "length oid = n" "set (items (w_object_refs w1)) \<subseteq> Set.insert oid (set (items (w_object_refs w)))"
      using we(2) ensure_length [OF Cons.prems(1)] by blast
    then show ?thesis using we(1) Cons.prems(5) WExternal by (auto simp: op_data_def)
  qed
  then show ?case using Cons.IH [OF _ c _ ps, of "data @ op_data p"] by simp
qed simp

text \<open>Reading what was written.\<close>

lemma cat_written:
  assumes "written has s w data" "inline_buffer w = []"
  shows "cat_loop read (opened w) [] s = Some (Inr data, s)"
proof -
  obtain cs ds where c: "encoder w = encode_chunks cs" "length ds = length (items (w_object_refs w))"
    "\<forall>c \<in> set cs. chunk_ok (length ds) c" "\<forall>i < length ds. has s (items (w_object_refs w) ! i) (ds ! i)"
    "chunks_data ds cs = data"
    using assms unfolding written_def by auto
  then show ?thesis
    using cat_loop_chunks [of "opened w" read s ds cs "[]"] read_has by (simp add: opened_def)
qed

end

interpretation stream: stream_store "ensure_object hx K H" "read_object hx K H" "store_good hx K H"
    "no_collision H" "store_has hx K H" "size_of H" for hx K H
proof unfold_locales
  fix s :: "'a repo_scheme" and d oid s'
  assume "store_good hx K H s" "ensure_object hx K H d s = Some (Inr oid, s')"
  then show "length oid = size_of H"
    using ensure_object_result(3) length_fsverity_digest env_ok_simps(3) by (fastforce simp: store_good_def)
qed

text \<open>A new writer with named references, and the table that they make.\<close>

definition named_writer :: "u64 \<Rightarrow> (bytes \<times> bytes) list \<Rightarrow> writer" where
  "named_writer ct refs = fold (\<lambda>(name, verity). add_named_stream_ref name verity) refs (writer_new ct)"

definition named_table :: "(bytes \<times> bytes) list \<Rightarrow> (bytes \<times> bytes) list" where
  "named_table refs = fold (\<lambda>(name, verity). bt_insert name verity) refs []"

definition refs_ok :: "hash_alg \<Rightarrow> (bytes \<times> bytes) list \<Rightarrow> bool" where
  "refs_ok H refs \<longleftrightarrow> length refs < 2 ^ 64 \<and>
     (\<forall>(name, verity) \<in> set refs. utf8_valid name \<and> CHR 0x00 \<notin> set name \<and> length verity = size_of H)"

lemma resolve_named_insert:
  "resolve_named refs (bt_insert name i m) = bt_insert name (refs ! i) (resolve_named refs m)"
  by (induction name i m rule: bt_insert.induct) (auto simp: resolve_named_def)

lemma add_named_stream_ref_table:
  assumes u: "uv_ok (w_stream_refs w)" and ix: "\<forall>(name, i) \<in> set (w_named_refs w). i < length (items (w_stream_refs w))"
    and wf: "bt_wf (w_named_refs w)"
    and w': "w' = add_named_stream_ref name verity w"
  shows "resolve_named (items (w_stream_refs w')) (w_named_refs w') =
      bt_insert name verity (resolve_named (items (w_stream_refs w)) (w_named_refs w)) \<and>
    uv_ok (w_stream_refs w') \<and> bt_wf (w_named_refs w') \<and>
    (\<forall>(name, i) \<in> set (w_named_refs w'). i < length (items (w_stream_refs w'))) \<and>
    fst ` set (w_named_refs w') = Set.insert name (fst ` set (w_named_refs w)) \<and>
    set (items (w_stream_refs w')) \<subseteq> Set.insert verity (set (items (w_stream_refs w))) \<and>
    length (items (w_stream_refs w')) \<le> Suc (length (items (w_stream_refs w))) \<and>
    w_object_refs w' = w_object_refs w \<and> encoder w' = encoder w \<and> inline_buffer w' = inline_buffer w \<and>
    w_total_size w' = w_total_size w \<and> w_content_type w' = w_content_type w"
proof -
  obtain i v where e: "uv_ensure (w_stream_refs w) verity = (i, v)" by fastforce
  have w2: "w' = w\<lparr>w_stream_refs := v, w_named_refs := bt_insert name i (w_named_refs w)\<rparr>"
    by (simp add: assms(4) add_named_stream_ref_def e)
  note r = uv_ensure_ok [OF u e]
  have pre: "items v ! j = items (w_stream_refs w) ! j \<and> j < length (items v)"
    if "j < length (items (w_stream_refs w))" for j
    using r(4) that by (auto simp: nth_append)
  then have "resolve_named (items v) (w_named_refs w) = resolve_named (items (w_stream_refs w)) (w_named_refs w)"
    using ix by (auto simp: resolve_named_def)
  moreover have "\<forall>(name, k) \<in> set (bt_insert name i (w_named_refs w)). k < length (items v)"
    using set_bt_insert_subset [of name i "w_named_refs w"] ix pre r(2) by fastforce
  moreover have "set (items v) \<subseteq> Set.insert verity (set (items (w_stream_refs w)))"
    "length (items v) \<le> Suc (length (items (w_stream_refs w)))" using r(4) by auto
  ultimately show ?thesis using r(1,3) wf by (simp add: w2 resolve_named_insert bt_wf_insert set_bt_insert)
qed

lemma named_writer_invariant:
  "resolve_named (items (w_stream_refs (named_writer ct refs))) (w_named_refs (named_writer ct refs)) = named_table refs \<and>
    uv_ok (w_stream_refs (named_writer ct refs)) \<and> bt_wf (w_named_refs (named_writer ct refs)) \<and>
    (\<forall>(name, i) \<in> set (w_named_refs (named_writer ct refs)). i < length (items (w_stream_refs (named_writer ct refs)))) \<and>
    fst ` set (w_named_refs (named_writer ct refs)) = fst ` set refs \<and>
    set (items (w_stream_refs (named_writer ct refs))) \<subseteq> snd ` set refs \<and>
    length (items (w_stream_refs (named_writer ct refs))) \<le> length refs \<and>
    w_object_refs (named_writer ct refs) = uv_new \<and> encoder (named_writer ct refs) = [] \<and>
    inline_buffer (named_writer ct refs) = [] \<and> w_total_size (named_writer ct refs) = 0 \<and>
    w_content_type (named_writer ct refs) = ct"
proof (induction refs rule: rev_induct)
  case Nil
  then show ?case
    by (simp add: named_writer_def named_table_def writer_new_def resolve_named_def bt_wf_def)
next
  case (snoc x refs)
  obtain name verity where x: "x = (name, verity)" by (cases x)
  have w: "named_writer ct (refs @ [x]) = add_named_stream_ref name verity (named_writer ct refs)"
    "named_table (refs @ [x]) = bt_insert name verity (named_table refs)"
    by (simp_all add: named_writer_def named_table_def x)
  note a = add_named_stream_ref_table [of "named_writer ct refs" _ name verity]
  have "uv_ok (w_stream_refs (named_writer ct refs))" "bt_wf (w_named_refs (named_writer ct refs))"
    "\<forall>(name, i) \<in> set (w_named_refs (named_writer ct refs)). i < length (items (w_stream_refs (named_writer ct refs)))"
    using snoc by blast+
  note a = a [OF this(1,3,2) refl]
  show ?case unfolding w using a snoc x by auto
qed

lemma named_writer_written: "written has s (named_writer ct refs) []"
  using named_writer_invariant [of ct refs] unfolding written_def
  by (intro conjI exI [of _ "[]"]) (simp_all add: encode_chunks_def chunks_data_def)

lemma named_writer_wf:
  assumes "refs_ok H refs" "w_stream_refs w = w_stream_refs (named_writer ct refs)"
    "w_named_refs w = w_named_refs (named_writer ct refs)" "\<forall>x \<in> set (items (w_object_refs w)). length x = size_of H"
  shows "writer_wf H w"
proof -
  note n = named_writer_invariant [of ct refs]
  have "length x = size_of H" if "x \<in> set (items (w_stream_refs w))" for x
  proof -
    have "x \<in> snd ` set refs" using n that assms(2) by auto
    then show ?thesis using assms(1) by (auto simp: refs_ok_def)
  qed
  moreover have "i < length (items (w_stream_refs w)) \<and> i < 2 ^ 64 \<and> utf8_valid name \<and> CHR 0x00 \<notin> set name"
    if "(name, i) \<in> set (w_named_refs w)" for name i
  proof -
    have "i < length (items (w_stream_refs w))" using n that assms(2,3) by auto
    moreover have "length (items (w_stream_refs w)) < 2 ^ 64"
      using n assms(1,2) by (simp add: refs_ok_def)
    moreover have "name \<in> fst ` set refs"
      using n that assms(3) by (metis fst_conv image_eqI)
    then have "utf8_valid name \<and> CHR 0x00 \<notin> set name" using assms(1) by (auto simp: refs_ok_def)
    ultimately show ?thesis by linarith
  qed
  ultimately show ?thesis using n assms(2-4) by (auto simp: writer_wf_def named_ok_def)
qed

lemma file_of_opens:
  assumes Z: "zstd_laws Z" and H: "stream_alg H" and wf: "writer_wf H w"
    and f: "file_of Z H w = Some file" and len: "length file < 2 ^ 64"
  shows "\<exists>w1. flush_inline w = Some w1 \<and> reader_new Z H file (Some (w_content_type w)) = Inr (opened w1)"
proof -
  obtain w1 where w1: "flush_inline w = Some w1"
    and l: "layout H w1 (zcompress Z (encoder w1)) (write_named_refs Z (w_named_refs w1)) = Some file"
    using f by (cases "flush_inline w") (simp_all add: file_of_def)
  have "writer_wf H w1" "w_content_type w1 = w_content_type w"
    using w1 wf by (auto simp: flush_inline_def Let_def writer_wf_def split: if_splits)
  then show ?thesis using layout_opened [OF Z H _ l len, of "Some (w_content_type w)"] w1 by auto
qed

lemma stream_reads_back:
  assumes store: "store_good hx K H s" and Z: "zstd_laws Z" and H: "stream_alg H" and refs: "refs_ok H refs"
    and run: "run_ops (ensure_object hx K H) (named_writer ct refs) ps s = Some (Inr w, s1)"
    and safe: "compatible_run (no_collision H) (ensure_object hx K H) (named_writer ct refs) ps s"
    and fin: "writer_done Z hx K H w s1 = Some (Inr oid, s2)"
    and fl: "file_of Z H w = Some file" "no_collision H file s1" "length file < 2 ^ 64"
  shows "read_object hx K H oid s2 = Some (Inr file, s2) \<and>
    (\<exists>r. reader_new Z H file (Some ct) = Inr r \<and> r_content_type r = ct \<and>
       r_total_size r = of_nat (length (concat (map op_data ps))) \<and> iter_named_refs r = named_table refs \<and>
       cat hx K H r s2 = Some (Inr (concat (map op_data ps)), s2))"
proof -
  note n = named_writer_invariant [of ct refs]
  have "\<forall>x \<in> set (items (w_object_refs (named_writer ct refs))). length x = size_of H" using n by simp
  note w = stream.run_ops_written [OF store safe named_writer_written run this]
  have wf: "writer_wf H w" using w by (intro named_writer_wf [OF refs]) auto
  obtain w1 where w1: "flush_inline w = Some w1"
    and r: "reader_new Z H file (Some (w_content_type w)) = Inr (opened w1)"
    using file_of_opens [OF Z H wf fl(1,3)] by blast
  have ct: "w_content_type w = ct" using w n by simp
  have e: "ensure_object hx K H file s1 = Some (Inr oid, s2)"
    using fin fl(1) by (auto simp: writer_done_def repo_step_def)
  have g1: "store_good hx K H s1" using w by simp
  have "written (store_has hx K H) s1 w1 (concat (map op_data ps))"
    by (rule written_flush(1) [OF _ w1]) (use w in simp)
  then have w2: "written (store_has hx K H) s2 w1 (concat (map op_data ps))"
    by (rule written_mono) (rule store.ensure_keeps [OF g1 e])
  note wr = written_flush [OF _ w1, of "store_has hx K H" s1 "concat (map op_data ps)"]
  have "read_object hx K H oid s2 = Some (Inr file, s2)" by (rule store.ensure_read [OF g1 fl(2) e])
  moreover have "cat hx K H (opened w1) s2 = Some (Inr (concat (map op_data ps)), s2)"
    using stream.cat_written [OF w2] wr(2) w by (simp add: cat_def)
  moreover have "w_total_size w1 = of_nat (length (concat (map op_data ps)))" "w_content_type w1 = ct"
    using w2 w1 ct by (auto simp: written_def flush_inline_def Let_def split: if_splits)
  moreover have "iter_named_refs (opened w1) = named_table refs"
    using wr(4,5) w n by (simp add: iter_named_refs_def opened_def)
  ultimately show ?thesis using r ct by (auto simp: opened_def)
qed

text \<open> C7: A split stream reads back: after any sequence of inline and external writes and after
  \<open>done\<close>, the object of the returned name opens as a stream with the content type, the total
  size and the named references that were written, and \<open>cat\<close> returns the concatenated data. \<close>

theorem splitstream_roundtrip:
  assumes store: "store_good hx K H s" and Z: "zstd_laws Z" and H: "stream_alg H" and refs: "refs_ok H refs"
    and run: "run_ops (ensure_object hx K H) (named_writer ct refs) ps s = Some (Inr w, s1)"
    and safe: "compatible_run (no_collision H) (ensure_object hx K H) (named_writer ct refs) ps s"
    and fin: "writer_done Z hx K H w s1 = Some (Inr oid, s2)"
    and fl: "file_of Z H w = Some file" "no_collision H file s1" "length file < 2 ^ 64"
  shows "read_object hx K H oid s2 = Some (Inr file, s2) \<and>
    (\<exists>r. reader_new Z H file (Some ct) = Inr r \<and> r_content_type r = ct \<and>
       r_total_size r = of_nat (length (concat (map op_data ps))) \<and> iter_named_refs r = named_table refs \<and>
       cat hx K H r s2 = Some (Inr (concat (map op_data ps)), s2))"
  by (rule stream_reads_back [OF assms])

text \<open>An example: two inline writes around an object, and a named reference.\<close>

definition plain_zstd :: zstd where
  "plain_zstd = \<lparr>zcompress = (\<lambda>b. b), zdecode = (\<lambda>b. (b, True))\<rparr>"

lemma splitstream_roundtrip_witness:
  "\<exists>w s1 oid s2 file r.
     run_ops (ensure_object hex_codec toy_K toy_H) (named_writer 7 []) [WInline ''a'', WExternal ''bc'', WInline ''d'']
       empty_repo = Some (Inr w, s1) \<and>
     writer_done plain_zstd hex_codec toy_K toy_H w s1 = Some (Inr oid, s2) \<and>
     reader_new plain_zstd toy_H file (Some 7) = Inr r \<and> cat hex_codec toy_K toy_H r s2 = Some (Inr ''abcd'', s2)"
proof -
  let ?en = "ensure_object hex_codec toy_K toy_H" and ?ps = "[WInline ''a'', WExternal ''bc'', WInline ''d'']"
  let ?oid = "fsverity_digest toy_H 12 ''bc''" and ?w = "named_writer 7 []"
  have store: "store_good hex_codec toy_K toy_H empty_repo" by (simp add: store_good_def toy_env)
  have h: "size_of toy_H = 32" "ALGORITHM toy_H = 1" "length ?oid = 32" using toy_env length_fsverity_digest [of toy_H "''bc''"]
    by (simp_all add: toy_H_def Sha256HashValue_def env_ok_def)
  obtain s1 where s1: "?en ''bc'' empty_repo = Some (Inr ?oid, s1)"
    using toy_store_new [of empty_repo "''bc''"] by (auto simp: empty_repo_def bt_get_def)
  define w where "w = ?w\<lparr>w_total_size := 4, inline_buffer := ''d'', encoder := le64 (- 1) @ ''a'' @ le64 0,
    w_object_refs := \<lparr>items = [?oid], uindex = [?oid \<mapsto> 0]\<rparr>\<rparr>"
  have nw: "?w = writer_new 7" by (simp add: named_writer_def)
  have run: "run_ops ?en ?w ?ps empty_repo = Some (Inr w, s1)"
    using s1 by (simp add: nw w_def run_op_def write_external_with_def io_bind_def repo_step_def Let_def write_inline_def
        write_reference_def flush_inline_def add_object_ref_def uv_ensure_def uv_get_def writer_new_def uv_new_def
        I64_MAX_def)
  have safe: "compatible_run (no_collision toy_H) ?en ?w ?ps empty_repo"
    using s1 by (simp add: run_op_def write_external_with_def io_bind_def repo_step_def Let_def split: option.splits sum.splits)
  have "\<exists>buf. file_of plain_zstd toy_H w = Some buf \<and> length buf = 170"
    using h by (simp add: file_of_def w_def nw writer_new_def flush_inline_def I64_MAX_def Let_def layout_def
        uv_bytes_def uv_new_def write_named_refs_def plain_zstd_def length_header_info SPLITSTREAM_MAGIC_def)
  then obtain buf where fl: "file_of plain_zstd toy_H w = Some buf" "length buf = 170" by blast
  have objs: "\<forall>(p, f) \<in> set (objects s1). file_data f = ''bc''"
    using ensure_new_objects [OF toy_env _ s1] by (fastforce simp: empty_repo_def bt_get_def)
  have nc: "no_collision toy_H buf s1" unfolding no_collision_def
  proof clarify
    fix p f assume "(p, f) \<in> set (objects s1)" "fsverity_digest toy_H 12 (file_data f) = fsverity_digest toy_H 12 buf"
    then show "file_data f = buf" using objs toy_digest_length [of "file_data f" buf] fl(2) by auto
  qed
  obtain s2 where fin: "writer_done plain_zstd hex_codec toy_K toy_H w s1 = Some (Inr (fsverity_digest toy_H 12 buf), s2)"
  proof -
    have "fsverity_digest toy_H 12 buf \<noteq> fsverity_digest toy_H 12 ''bc''"
      using fl(2) toy_digest_length [of buf "''bc''"] by auto
    from toy_store_other [OF ensure_object_result(1) [OF toy_env empty_repo_ok(1) s1] objs this] fl(1) show ?thesis using that
      by (auto simp: writer_done_def repo_step_def)
  qed
  have z: "zstd_laws plain_zstd" "stream_alg toy_H" "refs_ok toy_H []"
    using h by (simp_all add: zstd_laws_def plain_zstd_def stream_alg_def refs_ok_def)
  show ?thesis
    using splitstream_roundtrip [OF store z run safe fin fl(1) nc] fl(2) run fin by (auto simp: op_data_def)
qed

section \<open>The builder writes what a writer would\<close>

definition push_entry :: "stream_entry \<Rightarrow> builder \<Rightarrow> builder" where
  "push_entry e b = (case e of EInline d \<Rightarrow> push_inline d b | EExternal handle sz \<Rightarrow> push_external handle sz b)"

text \<open>Two lists of entries resolve with the same error, or replay alike on every writer.\<close>

definition same_play :: "stream_entry list \<Rightarrow> stream_entry list \<Rightarrow> bool" where
  "same_play a b \<longleftrightarrow> (case (rmap resolve_entry a, rmap resolve_entry b) of
       (Inl e, Inl e') \<Rightarrow> e = e'
     | (Inr x, Inr y) \<Rightarrow> (\<forall>w. rfold replay w x = rfold replay w y)
     | _ \<Rightarrow> False)"

lemma rmap_append: "rmap f (xs @ ys) = rbind (rmap f xs) (\<lambda>us. rbind (rmap f ys) (\<lambda>vs. Inr (us @ vs)))"
proof (induction xs)
  case Nil
  then show ?case by (cases "rmap f ys") simp_all
next
  case (Cons x xs)
  then show ?case by (cases "f x"; cases "rmap f xs"; cases "rmap f ys") simp_all
qed

lemma write_inline_append: "write_inline b (write_inline a w) = write_inline (a @ b) w"
  by (simp add: write_inline_def ac_simps)

lemma write_inline_Nil [simp]: "write_inline [] w = w"
  by (simp add: write_inline_def)

lemma same_play_refl: "same_play a a"
  by (cases "rmap resolve_entry a") (simp_all add: same_play_def)

lemma same_play_trans: "same_play a b \<Longrightarrow> same_play b c \<Longrightarrow> same_play a c"
  by (auto simp: same_play_def split: sum.splits)

lemma same_play_append: "same_play a b \<Longrightarrow> same_play (a @ c) (b @ c)"
  by (cases "rmap resolve_entry c")
    (auto simp: same_play_def rmap_append rfold_append split: sum.splits)

lemma same_play_inline:
  "same_play es (es @ [EInline []])" "same_play (es @ [EInline (a @ d)]) ((es @ [EInline a]) @ [EInline d])"
proof -
  have r: "rbind m Inr = m" for m :: "stream_error + writer" by (cases m) simp_all
  have w: "rbind (rbind m (\<lambda>w. Inr (write_inline a w))) (\<lambda>w. Inr (write_inline d w)) =
      rbind m (\<lambda>w. Inr (write_inline d (write_inline a w)))"
    for m :: "stream_error + writer" by (cases m) simp_all
  show "same_play es (es @ [EInline []])"
    by (cases "rmap resolve_entry es") (simp_all add: same_play_def rmap_append resolve_entry_def rfold_append replay_def r)
  show "same_play (es @ [EInline (a @ d)]) ((es @ [EInline a]) @ [EInline d])"
    by (cases "rmap resolve_entry es") (simp_all add: same_play_def rmap_append resolve_entry_def rfold_append replay_def w
        write_inline_append [symmetric])
qed

lemma same_play_push: "same_play (b_entries (push_entry e b)) (b_entries b @ [e])"
proof (cases e)
  case (EInline d)
  show ?thesis
  proof (cases "d \<noteq> [] \<and> (\<exists>before a. rev (b_entries b) = EInline a # before)")
    case True
    then obtain before a where r: "rev (b_entries b) = EInline a # before" "d \<noteq> []" by blast
    then have es: "b_entries b = rev before @ [EInline a]" by (simp add: rev_eq_Cons_iff)
    have p: "b_entries (push_entry e b) = rev before @ [EInline (a @ d)]"
      using r EInline by (simp add: push_entry_def push_inline_def)
    show ?thesis unfolding p unfolding EInline es by (rule same_play_inline(2))
  next
    case False
    then have "b_entries (push_entry e b) = (if d = [] then b_entries b else b_entries b @ [EInline d])"
      using EInline by (auto simp: push_entry_def push_inline_def split: list.splits stream_entry.splits)
    then show ?thesis using EInline same_play_inline(1) same_play_refl by auto
  qed
next
  case (EExternal h n)
  then show ?thesis by (simp add: push_entry_def push_external_def same_play_refl)
qed

lemma push_entry_frame:
  "b_content_type (push_entry e b) = b_content_type b" "b_stream_refs (push_entry e b) = b_stream_refs b"
  "b_named_refs (push_entry e b) = b_named_refs b"
  by (auto simp: push_entry_def push_inline_def push_external_def split: stream_entry.splits list.splits)

lemma builder_writer_pushes:
  "builder_writer (fold push_entry es b) =
     rbind (rmap resolve_entry (b_entries b @ es)) (\<lambda>resolved.
     rbind (rfold (copy_named_ref (b_stream_refs b)) (writer_new (b_content_type b)) (b_named_refs b)) (\<lambda>w.
       rfold replay w resolved))"
proof -
  have "same_play (b_entries (fold push_entry es b)) (b_entries b @ es)"
  proof (induction es arbitrary: b)
    case Nil
    then show ?case by (simp add: same_play_refl)
  next
    case (Cons e es)
    then show ?case
      using same_play_trans [OF Cons.IH [of "push_entry e b"] same_play_append [OF same_play_push, of e b es]]
      by simp
  qed
  moreover have "b_content_type (fold push_entry es b) = b_content_type b \<and>
      b_stream_refs (fold push_entry es b) = b_stream_refs b \<and> b_named_refs (fold push_entry es b) = b_named_refs b"
    by (induction es arbitrary: b) (simp_all add: push_entry_frame)
  ultimately show ?thesis
    by (auto simp: builder_writer_def same_play_def split: sum.splits)
qed

text \<open> Whatever is pushed to a builder, its stream is the one that a writer makes from the pushed
  entries one by one: joining neighbouring inline pieces and dropping empty ones changes nothing, and
  a failed background task gives the same error. \<close>

theorem builder_replays_pushes:
  "builder_writer (fold push_entry es b) =
     rbind (rmap resolve_entry (b_entries b @ es)) (\<lambda>resolved.
     rbind (rfold (copy_named_ref (b_stream_refs b)) (writer_new (b_content_type b)) (b_named_refs b)) (\<lambda>w.
       rfold replay w resolved))"
  by (rule builder_writer_pushes)

end
