(* ===== verification/Oci_Tar.thy ===== *)
theory Oci_Tar
  imports Splitstream Dumpfile
begin

text \<open>
  Models \<open>crates/composefs-oci/src/tar.rs\<close>: splitting a tar archive into a split stream, with the
  contents of large files stored as objects, and reading entries back from a split stream.

  The tar crate is the parameter \<open>tar_crate\<close>: the fields that it reads from a header of 512 bytes
  and the extensions of a PAX header (\<open>None\<close> for its errors). The tar stream is the bytes that
  are still to come.
\<close>

definition INLINE_CONTENT_MAX :: nat where "INLINE_CONTENT_MAX = 64"

datatype entry_type = TRegular | TLink | TSymlink | TChar | TBlock | TDirectory | TFifo | TContinuous
  | TGNULongName | TGNULongLink | TXGlobalHeader | TXHeader | TOther

record tar_crate =
  entry_size :: "bytes \<Rightarrow> u64 option"
  entry_type :: "bytes \<Rightarrow> entry_type"
  path_bytes :: "bytes \<Rightarrow> bytes"
  link_name_bytes :: "bytes \<Rightarrow> bytes option"
  device_major :: "bytes \<Rightarrow> u32 option option"
  device_minor :: "bytes \<Rightarrow> u32 option option"
  header_uid :: "bytes \<Rightarrow> u64 option"
  header_gid :: "bytes \<Rightarrow> u64 option"
  header_mode :: "bytes \<Rightarrow> u32 option"
  header_mtime :: "bytes \<Rightarrow> u64 option"
  pax_extensions :: "bytes \<Rightarrow> (bytes option \<times> bytes) option list"
  makedev :: "u32 \<Rightarrow> u32 \<Rightarrow> u64"

datatype tar_error =
    TStream stream_error
  | BadHeader
  | BadPax
  | SmallExternal u64
  | UnsupportedExternal bytes
  | LargeInline nat
  | NoLinkName
  | NoDeviceNumbers
  | Todo

definition zero_block :: bytes where "zero_block = replicate 512 CHR 0x00"

lemma length_zero_block [simp]: "length zero_block = 512"
  by (simp add: zero_block_def)

text \<open>\<open>next_multiple_of(512)\<close>, which overflows to a panic.\<close>

definition next_multiple :: "u64 \<Rightarrow> nat option" where
  "next_multiple n = (let m = (unat n + 511) div 512 * 512 in if m < 2 ^ 64 then Some m else None)"

section \<open>Splitting\<close>

definition tar_step :: "(stream_error, 's, 'a) io \<Rightarrow> (tar_error, 's, 'a) io" where
  "tar_step m = (\<lambda>s. map_option (\<lambda>(r, s'). (map_err TStream r, s')) (m s))"

lemma dec_read_exact_length:
  "dec_read_exact (input, c) n = Inr (b, rest, c') \<Longrightarrow> input = b @ rest \<and> length b = n"
  by (auto simp: dec_read_exact_def split: if_splits)

lemma read_exactish_length:
  "read_exactish (input, c) n = Inr (Some b, rest, c') \<Longrightarrow> input = b @ rest \<and> length b = n"
  by (auto simp: read_exactish_def split: if_splits)

function tar_split :: "tar_crate \<Rightarrow> (bytes \<Rightarrow> (repo_error, 's, bytes) io) \<Rightarrow> bytes \<Rightarrow> writer \<Rightarrow> (tar_error, 's, writer) io" where
  "tar_split T ensure tar_stream w =
     (case read_exactish (tar_stream, True) 512 of
        Inl e \<Rightarrow> io_fail (TStream e)
      | Inr (None, _) \<Rightarrow> io_return w
      | Inr (Some header, (rest, _)) \<Rightarrow>
          let w1 = write_inline header w in
          if header = zero_block then tar_split T ensure rest w1
          else case entry_size T header of
              None \<Rightarrow> io_fail BadHeader
            | Some actual_size \<Rightarrow>
          case next_multiple actual_size of
              None \<Rightarrow> io_fail (TStream Panic)
            | Some storage_size \<Rightarrow>
          case dec_read_exact (rest, True) storage_size of
              Inl e \<Rightarrow> io_fail (TStream e)
            | Inr (buffer, (rest', _)) \<Rightarrow>
                if entry_type T header = TRegular \<and> INLINE_CONTENT_MAX < unat actual_size then
                  io_bind (tar_step (write_external_with ensure (take (unat actual_size) buffer) w1)) (\<lambda>w2.
                    tar_split T ensure rest' (write_inline (drop (unat actual_size) buffer) w2))
                else tar_split T ensure rest' (write_inline buffer w1))"
  by pat_completeness auto
termination
  by (relation "measure (\<lambda>(T, ensure, tar_stream, w). length tar_stream)")
    (auto dest!: read_exactish_length dec_read_exact_length)

declare tar_split.simps [simp del]

text \<open>
  The asynchronous version pushes to a builder. A large file is sent to a background task, which
  stores it whether or not the rest of the archive can be read; the model runs the task when it is
  spawned, and the builder keeps its result. (The task stops receiving only on errors that are not
  modelled.)
\<close>

definition spawn :: "(bytes \<Rightarrow> nat \<Rightarrow> (repo_error, 's, bytes) io) \<Rightarrow> bytes \<Rightarrow> nat \<Rightarrow>
    ('e, 's, repo_error + bytes) io" where
  "spawn finalize data n = (\<lambda>s. map_option (\<lambda>(r, s'). (Inr r, s')) (finalize data n s))"

function tar_split_async :: "tar_crate \<Rightarrow> (bytes \<Rightarrow> nat \<Rightarrow> (repo_error, 's, bytes) io) \<Rightarrow> bytes \<Rightarrow> builder \<Rightarrow>
    (tar_error, 's, builder) io" where
  "tar_split_async T finalize tar_stream b =
     (case read_exactish (tar_stream, True) 512 of
        Inl e \<Rightarrow> io_fail (TStream e)
      | Inr (None, _) \<Rightarrow> io_return b
      | Inr (Some header, (rest, _)) \<Rightarrow>
          let b1 = push_inline header b in
          if header = zero_block then tar_split_async T finalize rest b1
          else case entry_size T header of
              None \<Rightarrow> io_fail BadHeader
            | Some actual_size \<Rightarrow>
          case next_multiple actual_size of
              None \<Rightarrow> io_fail (TStream Panic)
            | Some storage_size \<Rightarrow>
              let n = unat actual_size in
              if entry_type T header = TRegular \<and> INLINE_CONTENT_MAX < n then
                io_bind (spawn finalize (take n rest) n) (\<lambda>handle.
                  if length rest < n then io_fail (TStream UnexpectedEof)
                  else let b2 = push_external handle actual_size b1; padding_size = storage_size - n in
                    if 0 < padding_size then
                      (case dec_read_exact (drop n rest, True) padding_size of
                         Inl e \<Rightarrow> io_fail (TStream e)
                       | Inr (padding, (rest', _)) \<Rightarrow> tar_split_async T finalize rest' (push_inline padding b2))
                    else tar_split_async T finalize (drop n rest) b2)
              else (case dec_read_exact (rest, True) storage_size of
                  Inl e \<Rightarrow> io_fail (TStream e)
                | Inr (buffer, (rest', _)) \<Rightarrow> tar_split_async T finalize rest' (push_inline buffer b1)))"
  by pat_completeness auto
termination
  by (relation "measure (\<lambda>(T, finalize, tar_stream, b). length tar_stream)")
    (auto dest!: read_exactish_length dec_read_exact_length arg_cong [of "drop _ _" _ length])

declare tar_split_async.simps [simp del]

definition split_async :: "tar_crate \<Rightarrow> zstd \<Rightarrow> hex_crate \<Rightarrow> kernel \<Rightarrow> hash_alg \<Rightarrow> bytes \<Rightarrow> u64 \<Rightarrow>
    (tar_error, 'z repo_scheme, bytes) io" where
  "split_async T Z hx K H tar_stream ct =
     io_bind (tar_split_async T (finalize_object_tmpfile hx K H) tar_stream (builder_new ct)) (\<lambda>b.
       tar_step (builder_finish Z hx K H b))"

section \<open>Entries\<close>

datatype tar_item = TarDirectory | TarLeaf "regular_file leaf_content" | TarHardlink bytes

record tar_entry =
  te_path :: bytes
  te_stat :: stat
  te_item :: tar_item

definition show_tar_entry :: "hex_crate \<Rightarrow> tar_entry \<Rightarrow> bytes" where
  "show_tar_entry hx e = (case te_item e of
       TarHardlink target \<Rightarrow> write_hardlink (te_path e) target
     | TarDirectory \<Rightarrow> write_directory (te_path e) (te_stat e) 1
     | TarLeaf c \<Rightarrow> write_leaf hx (te_path e) (te_stat e) c 1)"

definition pop_if :: "char \<Rightarrow> bytes \<Rightarrow> bytes" where
  "pop_if c p = (if p \<noteq> [] \<and> last p = c then butlast p else p)"

definition path_from_tar :: "bytes option \<Rightarrow> bytes \<Rightarrow> bytes \<Rightarrow> bytes" where
  "path_from_tar pax gnu short = pop_if CHR ''/'' (CHR ''/'' # (case pax of
       Some name \<Rightarrow> name | None \<Rightarrow> if gnu \<noteq> [] then gnu else short))"

definition symlink_target_from_tar :: "bytes option \<Rightarrow> bytes \<Rightarrow> bytes \<Rightarrow> bytes" where
  "symlink_target_from_tar pax gnu short = (case pax of
       Some name \<Rightarrow> name | None \<Rightarrow> if gnu \<noteq> [] then gnu else short)"

record extensions =
  gnu_longlink :: bytes
  gnu_longname :: bytes
  pax_longlink :: "bytes option"
  pax_longname :: "bytes option"
  ext_xattrs :: "(bytes \<times> bytes) list"

definition no_extensions :: extensions where
  "no_extensions = \<lparr>gnu_longlink = [], gnu_longname = [], pax_longlink = None, pax_longname = None, ext_xattrs = []\<rparr>"

definition pax_step :: "extensions \<Rightarrow> (bytes option \<times> bytes) option \<Rightarrow> tar_error + extensions" where
  "pax_step x it = (case it of
       Some (Some key, value) \<Rightarrow>
         if key = ''path'' then Inr (x\<lparr>pax_longname := Some value\<rparr>)
         else if key = ''linkpath'' then Inr (x\<lparr>pax_longlink := Some value\<rparr>)
         else (case strip_prefix ''SCHILY.xattr.'' key of
             Some xattr \<Rightarrow> Inr (x\<lparr>ext_xattrs := bt_insert xattr value (ext_xattrs x)\<rparr>)
           | None \<Rightarrow> Inr x)
     | _ \<Rightarrow> Inl BadPax)"

definition device_number :: "tar_crate \<Rightarrow> bytes \<Rightarrow> tar_error + u64" where
  "device_number T h = rbind (ok_or (device_major T h) BadHeader) (\<lambda>ma.
     rbind (ok_or (device_minor T h) BadHeader) (\<lambda>mi.
       case (ma, mi) of (Some a, Some b) \<Rightarrow> Inr (makedev T a b) | _ \<Rightarrow> Inl NoDeviceNumbers))"

text \<open>What \<open>get_entry\<close> makes of the data after a header: an item, or more extensions.\<close>

datatype step = Item tar_item | Continue extensions

definition inline_item :: "tar_crate \<Rightarrow> bytes \<Rightarrow> bytes \<Rightarrow> extensions \<Rightarrow> tar_error + step" where
  "inline_item T h c x = (case entry_type T h of
       TGNULongLink \<Rightarrow> Inr (Continue (x\<lparr>gnu_longlink := pop_if CHR 0x00 (gnu_longlink x @ c)\<rparr>))
     | TGNULongName \<Rightarrow> Inr (Continue (x\<lparr>gnu_longname := pop_if CHR 0x00 (gnu_longname x @ c)\<rparr>))
     | TXGlobalHeader \<Rightarrow> Inl Todo
     | TXHeader \<Rightarrow> rbind (rfold pax_step x (pax_extensions T c)) (\<lambda>x'. Inr (Continue x'))
     | TDirectory \<Rightarrow> Inr (Item TarDirectory)
     | TRegular \<Rightarrow> rbind (ensure_r (length c \<le> INLINE_CONTENT_MAX) (LargeInline (length c))) (\<lambda>_.
         Inr (Item (TarLeaf (Regular (Inline c)))))
     | TContinuous \<Rightarrow> rbind (ensure_r (length c \<le> INLINE_CONTENT_MAX) (LargeInline (length c))) (\<lambda>_.
         Inr (Item (TarLeaf (Regular (Inline c)))))
     | TLink \<Rightarrow> rbind (ok_or (link_name_bytes T h) NoLinkName) (\<lambda>link_name.
         Inr (Item (TarHardlink (path_from_tar (pax_longlink x) (gnu_longlink x) link_name))))
     | TSymlink \<Rightarrow> rbind (ok_or (link_name_bytes T h) NoLinkName) (\<lambda>link_name.
         Inr (Item (TarLeaf (Symlink (symlink_target_from_tar (pax_longlink x) (gnu_longlink x) link_name)))))
     | TBlock \<Rightarrow> rbind (device_number T h) (\<lambda>n. Inr (Item (TarLeaf (BlockDevice n))))
     | TChar \<Rightarrow> rbind (device_number T h) (\<lambda>n. Inr (Item (TarLeaf (CharacterDevice n))))
     | TFifo \<Rightarrow> Inr (Item (TarLeaf Fifo))
     | TOther \<Rightarrow> Inl Todo)"

definition external_item :: "tar_crate \<Rightarrow> bytes \<Rightarrow> bytes \<Rightarrow> u64 \<Rightarrow> tar_error + step" where
  "external_item T h oid n = (if entry_type T h \<in> {TRegular, TContinuous} then
       rbind (ensure_r (INLINE_CONTENT_MAX < unat n) (SmallExternal n)) (\<lambda>_.
         Inr (Item (TarLeaf (Regular (External oid n)))))
     else Inl (UnsupportedExternal oid))"

definition finish_entry :: "tar_crate \<Rightarrow> bytes \<Rightarrow> extensions \<Rightarrow> tar_item \<Rightarrow> tar_error + tar_entry" where
  "finish_entry T h x item =
     rbind (ok_or (header_uid T h) BadHeader) (\<lambda>uid. rbind (ok_or (header_gid T h) BadHeader) (\<lambda>gid.
     rbind (ok_or (header_mode T h) BadHeader) (\<lambda>mode. rbind (ok_or (header_mtime T h) BadHeader) (\<lambda>mtime.
       Inr \<lparr>te_path = path_from_tar (pax_longname x) (gnu_longname x) (path_bytes T h),
         te_stat = \<lparr>st_mode = mode, st_uid = ucast uid, st_gid = ucast gid, st_mtim_sec = mtime,
           xattrs = ext_xattrs x\<rparr>,
         te_item = item\<rparr>))))"

lemma read_inline_exact_decreases:
  "read_inline_exact r n = Inr (Some b, r1) \<Longrightarrow> length (fst (decoder r1)) + n \<le> length (fst (decoder r))"
  by (auto simp: read_inline_exact_def result_simps split: if_splits prod.splits
      dest!: ensure_chunk_decreases(1) dec_read_exact_decreases)

lemma read_exact_decreases:
  "read_exact r a n = Inr (d, r1) \<Longrightarrow> length (fst (decoder r1)) \<le> length (fst (decoder r))"
  by (auto simp: read_exact_def discard_padding_def result_simps split: if_splits prod.splits chunk_type.splits
      dest!: ensure_chunk_decreases(1) dec_read_exact_decreases)

function get_entry_loop :: "tar_crate \<Rightarrow> reader \<Rightarrow> extensions \<Rightarrow> tar_error + (tar_entry option \<times> reader)" where
  "get_entry_loop T r x =
     (case read_inline_exact r 512 of
        Inl e \<Rightarrow> Inl (TStream e)
      | Inr (None, r1) \<Rightarrow> Inr (None, r1)
      | Inr (Some h, r1) \<Rightarrow>
          if h = zero_block then Inr (None, r1)
          else case entry_size T h of
              None \<Rightarrow> Inl BadHeader
            | Some n \<Rightarrow>
          case next_multiple n of
              None \<Rightarrow> Inl (TStream Panic)
            | Some stored_size \<Rightarrow>
          case read_exact r1 (unat n) stored_size of
              Inl e \<Rightarrow> Inl (TStream e)
            | Inr (d, r2) \<Rightarrow>
                (case (case d of DExternal oid \<Rightarrow> external_item T h oid n | DInline c \<Rightarrow> inline_item T h c x) of
                   Inl e \<Rightarrow> Inl e
                 | Inr (Continue x') \<Rightarrow> get_entry_loop T r2 x'
                 | Inr (Item i) \<Rightarrow> rbind (finish_entry T h x i) (\<lambda>e. Inr (Some e, r2))))"
  by pat_completeness auto
termination
  by (relation "measure (\<lambda>(T, r, x). length (fst (decoder r)))")
    (auto dest!: read_inline_exact_decreases read_exact_decreases)

declare get_entry_loop.simps [simp del]

definition get_entry :: "tar_crate \<Rightarrow> reader \<Rightarrow> tar_error + (tar_entry option \<times> reader)" where
  "get_entry T r = get_entry_loop T r no_extensions"

section \<open>Blocks\<close>

text \<open>The archive as a sequence of blocks: the reference that splitting and reading are compared with.\<close>

datatype tar_block = ZeroBlock | Block (header: bytes) (bsize: u64) (buffer: bytes)

definition next_block :: "tar_crate \<Rightarrow> bytes \<Rightarrow> tar_error + (tar_block \<times> bytes) option" where
  "next_block T inp =
     rbind (map_err TStream (read_exactish (inp, True) 512)) (\<lambda>(h, rest, _). case h of
       None \<Rightarrow> Inr None
     | Some h \<Rightarrow>
         if h = zero_block then Inr (Some (ZeroBlock, rest))
         else rbind (ok_or (entry_size T h) BadHeader) (\<lambda>n.
           rbind (ok_or (next_multiple n) (TStream Panic)) (\<lambda>stored.
           rbind (map_err TStream (dec_read_exact (rest, True) stored)) (\<lambda>(b, rest', _).
             Inr (Some (Block h n b, rest'))))))"

definition block_data :: "tar_block \<Rightarrow> bytes" where
  "block_data b = (case b of ZeroBlock \<Rightarrow> zero_block | Block h n d \<Rightarrow> h @ d)"

definition is_external :: "tar_crate \<Rightarrow> bytes \<Rightarrow> u64 \<Rightarrow> bool" where
  "is_external T h n \<longleftrightarrow> entry_type T h = TRegular \<and> INLINE_CONTENT_MAX < unat n"

definition block_ops :: "tar_crate \<Rightarrow> tar_block \<Rightarrow> stream_op list" where
  "block_ops T b = (case b of ZeroBlock \<Rightarrow> [WInline zero_block]
     | Block h n d \<Rightarrow> if is_external T h n then [WInline h, WExternal (take (unat n) d), WInline (drop (unat n) d)]
         else [WInline h, WInline d])"

definition block_ok :: "tar_crate \<Rightarrow> tar_block \<Rightarrow> bool" where
  "block_ok T b = (case b of ZeroBlock \<Rightarrow> True
     | Block h n d \<Rightarrow> length h = 512 \<and> h \<noteq> zero_block \<and> entry_size T h = Some n \<and> next_multiple n = Some (length d))"

lemma next_block_data:
  assumes "next_block T inp = Inr (Some (b, rest))"
  shows "inp = block_data b @ rest" "0 < length (block_data b)" "block_ok T b"
proof -
  obtain h r c where h: "read_exactish (inp, True) 512 = Inr (Some h, r, c)"
    using assms by (auto simp: next_block_def rbind_eq_Inr_iff split: option.splits)
  note l = read_exactish_length [OF h]
  have "inp = block_data b @ rest \<and> 0 < length (block_data b) \<and> block_ok T b"
  proof (cases "h = zero_block")
    case True
    then show ?thesis using assms h l by (auto simp: next_block_def block_data_def block_ok_def)
  next
    case False
    then obtain n stored d r' c' where d: "entry_size T h = Some n" "next_multiple n = Some stored"
      "dec_read_exact (r, True) stored = Inr (d, r', c')" "b = Block h n d" "rest = r'"
      using assms h by (auto simp: next_block_def rbind_eq_Inr_iff)
    then show ?thesis using dec_read_exact_length [OF d(3)] l False by (simp add: block_data_def block_ok_def)
  qed
  then show "inp = block_data b @ rest" "0 < length (block_data b)" "block_ok T b" by blast+
qed

lemma next_block_shorter: "next_block T inp = Inr (Some (b, rest)) \<Longrightarrow> length rest < length inp"
  using next_block_data(1,2) [of T inp b rest] by simp

lemma next_block_end: "next_block T inp = Inr None \<Longrightarrow> inp = []"
  by (auto simp: next_block_def rbind_eq_Inr_iff read_exactish_def split: option.splits if_splits)

function tar_blocks :: "tar_crate \<Rightarrow> bytes \<Rightarrow> tar_error + tar_block list" where
  "tar_blocks T inp = (case next_block T inp of
       Inl e \<Rightarrow> Inl e
     | Inr None \<Rightarrow> Inr []
     | Inr (Some (b, rest)) \<Rightarrow> rbind (tar_blocks T rest) (\<lambda>bs. Inr (b # bs)))"
  by pat_completeness auto
termination by (relation "measure (\<lambda>(T, inp). length inp)") (auto dest: next_block_shorter)

declare tar_blocks.simps [simp del]

lemma tar_blocks_data:
  "tar_blocks T inp = Inr bs \<Longrightarrow> concat (map block_data bs) = inp \<and> (\<forall>b \<in> set bs. block_ok T b)"
proof (induction T inp arbitrary: bs rule: tar_blocks.induct)
  case (1 T inp)
  show ?case
  proof (cases "next_block T inp")
    case (Inl e)
    then show ?thesis using "1.prems" by (simp add: tar_blocks.simps [of T inp])
  next
    case (Inr x)
    show ?thesis
    proof (cases x)
      case None
      then show ?thesis using Inr "1.prems" next_block_end [of T inp] by (simp add: tar_blocks.simps [of T inp])
    next
      case (Some y)
      obtain b rest where y: "y = (b, rest)" by (cases y)
      then obtain bs' where "tar_blocks T rest = Inr bs'" "bs = b # bs'"
        using Inr Some "1.prems" by (auto simp: tar_blocks.simps [of T inp] rbind_eq_Inr_iff)
      then show ?thesis using "1.IH" [OF Inr Some y [symmetric]] next_block_data [OF Inr [unfolded Some y]] by simp
    qed
  qed
qed

lemma block_ops_data: "block_ok T b \<Longrightarrow> concat (map op_data (block_ops T b)) = block_data b"
  by (auto simp: block_ops_def block_data_def op_data_def split: tar_block.splits)

lemma run_ops_append:
  "run_ops ensure w (xs @ ys) = io_bind (run_ops ensure w xs) (\<lambda>w'. run_ops ensure w' ys)"
  by (induction xs arbitrary: w) (simp_all add: io_bind_def fun_eq_iff split: option.splits sum.splits prod.splits)

lemma tar_step_simps [simp]:
  "tar_step (io_return x) = io_return x" "tar_step (io_bind m f) = io_bind (tar_step m) (\<lambda>x. tar_step (f x))"
  by (simp_all add: tar_step_def io_return_def io_bind_def fun_eq_iff split: option.splits sum.splits)

lemma io_bind_assoc: "io_bind (io_bind m f) g = io_bind m (\<lambda>x. io_bind (f x) g)"
  by (simp add: io_bind_def fun_eq_iff split: option.splits sum.splits)

lemma io_bind_return [simp]: "io_bind m io_return = m"
  by (simp add: io_bind_def io_return_def fun_eq_iff split: option.splits sum.splits)

lemma run_block_ops:
  "run_ops ensure w [WInline a] = io_return (write_inline a w)"
  "run_ops ensure w [WInline a, WInline b] = io_return (write_inline b (write_inline a w))"
  "run_ops ensure w [WInline a, WExternal b, WInline c] =
     io_bind (write_external_with ensure b (write_inline a w)) (\<lambda>w'. io_return (write_inline c w'))"
  by (simp_all add: run_op_def) (simp_all add: io_return_def)

lemma tar_split_block:
  "tar_split T ensure inp w = (case next_block T inp of
       Inl e \<Rightarrow> io_fail e
     | Inr None \<Rightarrow> io_return w
     | Inr (Some (b, rest)) \<Rightarrow> io_bind (tar_step (run_ops ensure w (block_ops T b))) (\<lambda>w'. tar_split T ensure rest w'))"
proof (cases "read_exactish (inp, True) 512")
  case (Inl e)
  then show ?thesis by (simp add: tar_split.simps [of T ensure inp] next_block_def)
next
  case (Inr x)
  obtain h rest c where x: "x = (h, rest, c)" by (cases x)
  show ?thesis
  proof (cases h)
    case None
    then show ?thesis using Inr x by (simp add: tar_split.simps [of T ensure inp] next_block_def)
  next
    case (Some h)
    note q = Inr [unfolded x Some]
    show ?thesis
    proof (cases "h = zero_block")
      case True
      then show ?thesis using q
        by (simp add: tar_split.simps [of T ensure inp] next_block_def block_ops_def run_block_ops del: run_ops.simps)
    next
      case False
      show ?thesis
      proof (cases "entry_size T h")
        case None
        then show ?thesis using q False by (simp add: tar_split.simps [of T ensure inp] next_block_def)
      next
        case n: (Some n)
        show ?thesis
        proof (cases "next_multiple n")
          case None
          then show ?thesis using q n False by (simp add: tar_split.simps [of T ensure inp] next_block_def)
        next
          case (Some m)
          then show ?thesis using q n False
            by (cases "dec_read_exact (rest, True) m")
              (auto simp: tar_split.simps [of T ensure inp] next_block_def block_ops_def run_block_ops is_external_def
                Let_def io_bind_assoc simp del: run_ops.simps)
        qed
      qed
    qed
  qed
qed

text \<open>Splitting an archive is running the operations of its blocks.\<close>

lemma tar_split_run:
  "tar_split T ensure inp w s = Some (Inr w', s') \<longleftrightarrow> (\<exists>bs. tar_blocks T inp = Inr bs \<and>
     run_ops ensure w (concat (map (block_ops T) bs)) s = Some (Inr w', s'))"
proof (induction T inp arbitrary: w s rule: tar_blocks.induct)
  case (1 T inp)
  show ?case
  proof (cases "next_block T inp")
    case (Inl e)
    then show ?thesis by (simp add: tar_split_block [of T ensure inp] tar_blocks.simps [of T inp])
  next
    case (Inr x)
    show ?thesis
    proof (cases x)
      case None
      then show ?thesis using Inr by (simp add: tar_split_block [of T ensure inp] tar_blocks.simps [of T inp])
    next
      case (Some y)
      obtain b rest where y: "y = (b, rest)" by (cases y)
      have st: "tar_step m s = Some (Inr v, s2) \<longleftrightarrow> m s = Some (Inr v, s2)" for m v s2 and s :: 'b
        by (auto simp: tar_step_def)
      note ih = "1.IH" [OF Inr Some y [symmetric]]
      have "tar_split T ensure inp w s = Some (Inr w', s') \<longleftrightarrow>
          (\<exists>v s1. run_ops ensure w (block_ops T b) s = Some (Inr v, s1) \<and> tar_split T ensure rest v s1 = Some (Inr w', s'))"
        using Inr Some y by (simp add: tar_split_block [of T ensure inp] io_bind_Inr_iff st)
      also have "\<dots> \<longleftrightarrow> (\<exists>bs. tar_blocks T rest = Inr bs \<and>
          run_ops ensure w (block_ops T b @ concat (map (block_ops T) bs)) s = Some (Inr w', s'))"
        by (auto simp: run_ops_append io_bind_Inr_iff ih)
      also have "\<dots> \<longleftrightarrow> (\<exists>bs. tar_blocks T inp = Inr bs \<and>
          run_ops ensure w (concat (map (block_ops T) bs)) s = Some (Inr w', s'))"
        using Inr Some y by (auto simp: tar_blocks.simps [of T inp] rbind_eq_Inr_iff)
      finally show ?thesis .
    qed
  qed
qed

section \<open>Splitting loses nothing\<close>

definition tar_ops :: "tar_crate \<Rightarrow> bytes \<Rightarrow> stream_op list" where
  "tar_ops T inp = (case tar_blocks T inp of Inl e \<Rightarrow> [] | Inr bs \<Rightarrow> concat (map (block_ops T) bs))"

lemma tar_ops_data: "tar_blocks T inp = Inr bs \<Longrightarrow> concat (map op_data (tar_ops T inp)) = inp"
proof -
  assume bs: "tar_blocks T inp = Inr bs"
  note d = tar_blocks_data [OF bs]
  have "concat (map op_data (concat (map (block_ops T) bs))) = concat (map block_data bs)"
    using conjunct2 [OF d] by (induction bs) (auto simp: block_ops_data)
  then show ?thesis using d bs by (simp add: tar_ops_def)
qed

lemma tar_split_ops:
  "tar_split T ensure inp w s = Some (Inr w', s') \<Longrightarrow>
     run_ops ensure w (tar_ops T inp) s = Some (Inr w', s') \<and> concat (map op_data (tar_ops T inp)) = inp"
  using tar_ops_data by (fastforce simp: tar_split_run tar_ops_def)

lemma named_writer_Nil [simp]: "named_writer ct [] = writer_new ct"
  by (simp add: named_writer_def)

lemma refs_ok_Nil [simp]: "refs_ok H []"
  by (simp add: refs_ok_def)

section \<open>The two ways of splitting agree\<close>

text \<open>The replayed entry of an operation, with the names that \<open>D\<close> gives to objects.\<close>

definition op_entry :: "(bytes \<Rightarrow> bytes) \<Rightarrow> stream_op \<Rightarrow> resolved_entry" where
  "op_entry D p = (case p of WInline d \<Rightarrow> RInline d | WExternal d \<Rightarrow> RExternal (D d) (of_nat (length d)))"

lemma run_ops_replay:
  assumes "\<And>data s oid s'. good s \<Longrightarrow> ensure data s = Some (Inr oid, s') \<Longrightarrow> oid = D data \<and> good s'"
  shows "good s \<Longrightarrow> run_ops ensure w ps s = Some (Inr w', s') \<Longrightarrow> rfold replay w (map (op_entry D) ps) = Inr w'"
proof (induction ps arbitrary: w s)
  case (Cons p ps)
  obtain w1 s1 where p: "run_op ensure w p s = Some (Inr w1, s1)" and r: "run_ops ensure w1 ps s1 = Some (Inr w', s')"
    using Cons.prems(2) by (auto simp: io_bind_Inr_iff)
  have "good s1 \<and> replay w (op_entry D p) = Inr w1"
  proof (cases p)
    case (WInline d)
    then show ?thesis using p Cons.prems(1) by (auto simp: run_op_def op_entry_def replay_def)
  next
    case (WExternal d)
    then obtain oid where e: "ensure d s = Some (Inr oid, s1)"
      and w: "write_reference oid (w\<lparr>w_total_size := w_total_size w + of_nat (length d)\<rparr>) = Some w1"
      using p by (auto simp: run_op_def write_external_with_def io_bind_def repo_step_def Let_def ok_or_def io_lift_def
        split: option.splits sum.splits prod.splits)
    show ?thesis using assms [OF Cons.prems(1) e] w WExternal
      by (simp add: op_entry_def replay_def add_external_size_def)
  qed
  then show ?case using Cons.IH [OF _ r] by simp
qed simp

text \<open>The entries that the asynchronous version pushes for a block.\<close>

definition block_entries :: "tar_crate \<Rightarrow> tar_block \<Rightarrow> (repo_error + bytes) \<Rightarrow> stream_entry list" where
  "block_entries T b handle = (case b of ZeroBlock \<Rightarrow> [EInline zero_block]
     | Block h n d \<Rightarrow> if is_external T h n then [EInline h, EExternal handle n, EInline (drop (unat n) d)]
         else [EInline h, EInline d])"

definition handle_ok :: "(bytes \<Rightarrow> bytes) \<Rightarrow> tar_crate \<Rightarrow> tar_block \<Rightarrow> (repo_error + bytes) \<Rightarrow> bool" where
  "handle_ok D T b handle \<longleftrightarrow> (case b of ZeroBlock \<Rightarrow> True
     | Block h n d \<Rightarrow> is_external T h n \<longrightarrow> (\<forall>oid. handle = Inr oid \<longrightarrow> oid = D (take (unat n) d)))"

lemma next_multiple_ge: "next_multiple n = Some m \<Longrightarrow> unat n \<le> m"
proof -
  have le: "k \<le> (k + 511) div 512 * 512" for k :: nat
  proof -
    have "(k + 511) div 512 * 512 + (k + 511) mod 512 = k + 511" "(k + 511) mod 512 < 512" by simp_all
    then show ?thesis by linarith
  qed
  assume "next_multiple n = Some m"
  then have "m = (unat n + 511) div 512 * 512" by (simp add: next_multiple_def Let_def split: if_splits)
  then show ?thesis using le [of "unat n"] by simp
qed

lemma block_entries_replay:
  assumes ok: "block_ok T b" and h: "handle_ok D T b handle" and r: "rmap resolve_entry (block_entries T b handle) = Inr res"
  shows "res = map (op_entry D) (block_ops T b)"
proof (cases b)
  case ZeroBlock
  then show ?thesis using r by (auto simp: block_entries_def block_ops_def op_entry_def resolve_entry_def)
next
  case (Block h n d)
  then have "length (take (unat n) d) = unat n" using ok next_multiple_ge by (auto simp: block_ok_def)
  then have l: "of_nat (length (take (unat n) d)) = n" by simp
  show ?thesis
  proof (cases "is_external T h n")
    case True
    then obtain oid where "handle = Inr oid" "res = [RInline h, RExternal oid n, RInline (drop (unat n) d)]"
      using r Block by (auto simp: block_entries_def resolve_entry_def rbind_eq_Inr_iff)
    then show ?thesis using h Block True l by (simp add: handle_ok_def block_ops_def op_entry_def del: length_take)
  next
    case False
    then show ?thesis using r Block by (auto simp: block_entries_def block_ops_def op_entry_def resolve_entry_def)
  qed
qed

lemma push_entry_simps [simp]:
  "push_entry (EInline d) b = push_inline d b" "push_entry (EExternal handle n) b = push_external handle n b"
  "push_inline [] b = b"
  by (simp_all add: push_entry_def push_inline_def)

definition block_stored :: "(bytes \<Rightarrow> nat \<Rightarrow> (repo_error, 's, bytes) io) \<Rightarrow> tar_crate \<Rightarrow> tar_block \<Rightarrow>
    (repo_error + bytes) \<Rightarrow> 's \<Rightarrow> 's \<Rightarrow> bool" where
  "block_stored finalize T b handle s s1 \<longleftrightarrow> (case b of ZeroBlock \<Rightarrow> s1 = s
     | Block h n d \<Rightarrow> if is_external T h n then finalize (take (unat n) d) (unat n) s = Some (handle, s1) else s1 = s)"

lemma dec_read_exact_at: "n \<le> length inp \<Longrightarrow> dec_read_exact (inp, True) n = Inr (take n inp, drop n inp, True)"
  by (simp add: dec_read_exact_def)

lemma tar_split_async_block:
  assumes run: "tar_split_async T finalize inp b s = Some (Inr b', s')"
  shows "(next_block T inp = Inr None \<and> b' = b \<and> s' = s) \<or>
    (\<exists>blk rest handle s1. next_block T inp = Inr (Some (blk, rest)) \<and> block_stored finalize T blk handle s s1 \<and>
       tar_split_async T finalize rest (fold push_entry (block_entries T blk handle) b) s1 = Some (Inr b', s'))"
proof -
  obtain h rest c where x: "read_exactish (inp, True) 512 = Inr (h, rest, c)"
    using run by (cases "read_exactish (inp, True) 512") (auto simp: tar_split_async.simps [of T finalize inp])
  show ?thesis
  proof (cases h)
    case None
    then show ?thesis using run x by (simp add: tar_split_async.simps [of T finalize inp] next_block_def)
  next
    case (Some h)
    note q = x [unfolded Some]
    show ?thesis
    proof (cases "h = zero_block")
      case True
      then show ?thesis using run q
        by (intro disjI2 exI [of _ ZeroBlock] exI [of _ rest])
          (simp add: tar_split_async.simps [of T finalize inp] next_block_def block_stored_def block_entries_def)
    next
      case False
      obtain n m where n: "entry_size T h = Some n" "next_multiple n = Some m"
        using run q False by (auto simp: tar_split_async.simps [of T finalize inp] Let_def split: option.splits)
      note le = next_multiple_ge [OF n(2)]
      show ?thesis
      proof (cases "is_external T h n")
        case True
        obtain handle s1 where fin: "finalize (take (unat n) rest) (unat n) s = Some (handle, s1)"
          and l: "unat n \<le> length rest"
          and cont: "(if 0 < m - unat n then
                (case dec_read_exact (drop (unat n) rest, True) (m - unat n) of
                   Inl e \<Rightarrow> io_fail (TStream e)
                 | Inr (padding, (rest', _)) \<Rightarrow> tar_split_async T finalize rest'
                     (push_inline padding (push_external handle n (push_inline h b))))
              else tar_split_async T finalize (drop (unat n) rest) (push_external handle n (push_inline h b))) s1 = Some (Inr b', s')"
          using run q False n True
          by (auto simp: tar_split_async.simps [of T finalize inp] is_external_def Let_def io_bind_def spawn_def
              split: option.splits if_splits)
        have m: "m \<le> length rest"
          using cont l le by (cases "0 < m - unat n") (auto simp: dec_read_exact_def split: if_splits)
        have "tar_split_async T finalize (drop m rest)
            (push_inline (drop (unat n) (take m rest)) (push_external handle n (push_inline h b))) s1 = Some (Inr b', s')"
          using cont m le by (cases "0 < m - unat n") (auto simp: dec_read_exact_at drop_take)
        moreover have "next_block T inp = Inr (Some (Block h n (take m rest), drop m rest))"
          using q False n m by (simp add: next_block_def dec_read_exact_at)
        ultimately show ?thesis using fin True le
          by (intro disjI2 exI [of _ "Block h n (take m rest)"] exI [of _ "drop m rest"] exI [of _ handle] exI [of _ s1])
            (simp add: block_stored_def block_entries_def)
      next
        case inl: False
        then have cont: "(case dec_read_exact (rest, True) m of Inl e \<Rightarrow> io_fail (TStream e)
            | Inr (buf, (rest', _)) \<Rightarrow> tar_split_async T finalize rest' (push_inline buf (push_inline h b))) s = Some (Inr b', s')"
          using run q False n by (auto simp: tar_split_async.simps [of T finalize inp] is_external_def Let_def)
        then have m: "m \<le> length rest" by (auto simp: dec_read_exact_def split: if_splits)
        have "next_block T inp = Inr (Some (Block h n (take m rest), drop m rest))"
          using q False n m by (simp add: next_block_def dec_read_exact_at)
        then show ?thesis using cont m inl
          by (intro disjI2 exI [of _ "Block h n (take m rest)"] exI [of _ "drop m rest"])
            (simp add: block_stored_def block_entries_def dec_read_exact_at)
      qed
    qed
  qed
qed

lemma tar_split_async_entries:
  assumes "\<And>data n s r s'. good s \<Longrightarrow> finalize data n s = Some (r, s') \<Longrightarrow> good s' \<and> (\<forall>oid. r = Inr oid \<longrightarrow> oid = D data)"
  shows "good s \<Longrightarrow> tar_split_async T finalize inp b s = Some (Inr b', s') \<Longrightarrow>
    \<exists>bs hs. tar_blocks T inp = Inr bs \<and> length hs = length bs \<and> (\<forall>(blk, h) \<in> set (zip bs hs). handle_ok D T blk h) \<and>
      b' = fold push_entry (concat (map (\<lambda>(blk, h). block_entries T blk h) (zip bs hs))) b \<and> good s'"
proof (induction T inp arbitrary: b s rule: tar_blocks.induct)
  case (1 T inp)
  from tar_split_async_block [OF "1.prems"(2)] show ?case
  proof (elim disjE exE conjE)
    assume "next_block T inp = Inr None" "b' = b" "s' = s"
    then show ?thesis using "1.prems"(1) by (simp add: tar_blocks.simps [of T inp])
  next
    fix blk rest h s1
    assume nb: "next_block T inp = Inr (Some (blk, rest))" and st: "block_stored finalize T blk h s s1"
      and r: "tar_split_async T finalize rest (fold push_entry (block_entries T blk h) b) s1 = Some (Inr b', s')"
    have g: "good s1 \<and> handle_ok D T blk h"
      using st assms [OF "1.prems"(1)] "1.prems"(1) by (fastforce simp: block_stored_def handle_ok_def split: tar_block.splits if_splits)
    obtain bs hs where "tar_blocks T rest = Inr bs" "length hs = length bs" "\<forall>(blk, h) \<in> set (zip bs hs). handle_ok D T blk h"
      "b' = fold push_entry (concat (map (\<lambda>(blk, h). block_entries T blk h) (zip bs hs))) (fold push_entry (block_entries T blk h) b)"
      "good s'"
      using "1.IH" [OF nb refl refl conjunct1 [OF g] r] by blast
    then show ?thesis using nb g
      by (intro exI [of _ "blk # bs"] exI [of _ "h # hs"]) (simp add: tar_blocks.simps [of T inp])
  qed
qed

text \<open>A stream that was split is the stream of its operations.\<close>

lemma split_async_writer:
  assumes fin: "\<And>data n s r s'. good s \<Longrightarrow> finalize data n s = Some (r, s') \<Longrightarrow> good s' \<and> (\<forall>oid. r = Inr oid \<longrightarrow> oid = D data)"
    and g: "good s" and run: "tar_split_async T finalize inp (builder_new ct) s = Some (Inr b, s')"
    and w: "builder_writer b = Inr w"
  shows "rfold replay (writer_new ct) (map (op_entry D) (tar_ops T inp)) = Inr w \<and> good s'"
proof -
  obtain bs hs where bs: "tar_blocks T inp = Inr bs" "length hs = length bs"
    and h: "\<forall>(blk, h) \<in> set (zip bs hs). handle_ok D T blk h"
    and b: "b = fold push_entry (concat (map (\<lambda>(blk, h). block_entries T blk h) (zip bs hs))) (builder_new ct)"
    and g': "good s'"
    using tar_split_async_entries [of good finalize D, OF _ g run] fin by blast
  let ?es = "concat (map (\<lambda>(blk, h). block_entries T blk h) (zip bs hs))"
  have ok: "\<forall>blk \<in> set bs. block_ok T blk" using tar_blocks_data [OF bs(1)] by blast
  have res: "res = map (op_entry D) (concat (map (block_ops T) bs))"
    if "rmap resolve_entry (concat (map (\<lambda>(blk, h). block_entries T blk h) (zip bs hs))) = Inr res"
      "length hs = length bs" "\<forall>(blk, h) \<in> set (zip bs hs). handle_ok D T blk h" "\<forall>blk \<in> set bs. block_ok T blk"
    for res bs hs
    using that
  proof (induction bs hs arbitrary: res rule: list_induct2')
    case (4 blk bs h hs)
    then obtain r1 r2 where "rmap resolve_entry (block_entries T blk h) = Inr r1" "res = r1 @ r2"
      "rmap resolve_entry (concat (map (\<lambda>(blk, h). block_entries T blk h) (zip bs hs))) = Inr r2"
      by (auto simp: rmap_append rbind_eq_Inr_iff)
    then show ?case using block_entries_replay [of T blk D h r1] "4.IH" [of r2] "4.prems"(2-4) by simp
  qed simp_all
  have "rbind (rmap resolve_entry ?es) (rfold replay (writer_new ct)) = Inr w"
    using w unfolding b builder_writer_pushes by (simp add: builder_new_def)
  then obtain rs where rs: "rmap resolve_entry ?es = Inr rs" "rfold replay (writer_new ct) rs = Inr w"
    by (auto simp: rbind_eq_Inr_iff)
  then show ?thesis using res [OF rs(1) bs(2) h ok] bs(1) g' by (simp add: tar_ops_def)
qed

lemma writer_done_digest:
  assumes "env_ok hx K H" "store_inv hx H s" "writer_done Z hx K H w s = Some (Inr oid, s')"
  shows "\<exists>buf. file_of Z H w = Some buf \<and> oid = fsverity_digest H 12 buf"
proof -
  obtain buf where f: "file_of Z H w = Some buf" and e: "ensure_object hx K H buf s = Some (Inr oid, s')"
    using assms(3) by (cases "file_of Z H w") (auto simp: writer_done_def repo_step_def)
  then show ?thesis using ensure_object_result(3) [OF assms(1,2) e refl] by blast
qed

lemma run_ops_good:
  assumes "\<And>data s oid s'. good s \<Longrightarrow> ensure data s = Some (Inr oid, s') \<Longrightarrow> good s'"
  shows "good s \<Longrightarrow> run_ops ensure w ps s = Some (Inr w', s') \<Longrightarrow> good s'"
proof (induction ps arbitrary: w s)
  case (Cons p ps)
  obtain w1 s1 where p: "run_op ensure w p s = Some (Inr w1, s1)" and r: "run_ops ensure w1 ps s1 = Some (Inr w', s')"
    using Cons.prems(2) by (auto simp: io_bind_Inr_iff)
  have "good s1"
    using p Cons.prems(1) assms
    by (auto simp: run_op_def write_external_with_def io_bind_def repo_step_def Let_def ok_or_def io_lift_def
        split: stream_op.splits option.splits sum.splits prod.splits)
  then show ?case using Cons.IH r by blast
qed simp

text \<open> C8: Splitting an archive loses nothing: the object that \<open>split\<close> and \<open>done\<close> store opens as a
  stream of the archive's size, and \<open>cat\<close> returns the archive byte for byte. \<close>

theorem tar_split_lossless:
  assumes "store_good hx K H s" and "zstd_laws Z" and "stream_alg H"
    and split: "tar_split T (ensure_object hx K H) archive (writer_new ct) s = Some (Inr w, s1)"
    and "compatible_run (no_collision H) (ensure_object hx K H) (writer_new ct) (tar_ops T archive) s"
    and "writer_done Z hx K H w s1 = Some (Inr oid, s2)"
    and "file_of Z H w = Some file" and "no_collision H file s1" and "length file < 2 ^ 64"
  shows "read_object hx K H oid s2 = Some (Inr file, s2) \<and>
    (\<exists>r. reader_new Z H file (Some ct) = Inr r \<and> r_total_size r = of_nat (length archive) \<and>
       cat hx K H r s2 = Some (Inr archive, s2))"
  using stream_reads_back [of hx K H s Z "[]" ct "tar_ops T archive" w s1 oid s2 "file"] assms tar_split_ops [OF split]
  by auto

text \<open> C9: Both ways of splitting an archive, the direct one and the asynchronous one with background
  tasks, name it alike: whatever the two stores hold, they return the same object. \<close>

theorem split_async_same_object:
  assumes env: "env_ok hx K H" and inv: "store_inv hx H s" "store_inv hx H t"
    and split: "tar_split T (ensure_object hx K H) archive (writer_new ct) s = Some (Inr w, s1)"
    and fin: "writer_done Z hx K H w s1 = Some (Inr oid, s2)"
    and async: "split_async T Z hx K H archive ct t = Some (Inr oid', t2)"
  shows "oid' = oid"
proof -
  let ?D = "fsverity_digest H 12"
  obtain b t1 w' where b: "tar_split_async T (finalize_object_tmpfile hx K H) archive (builder_new ct) t = Some (Inr b, t1)"
    and w': "builder_writer b = Inr w'" and d': "writer_done Z hx K H w' t1 = Some (Inr oid', t2)"
    using async by (auto simp: split_async_def io_bind_Inr_iff tar_step_def builder_finish_def io_lift_def)
  have "store_inv hx H q' \<and> (\<forall>oid. r = Inr oid \<longrightarrow> oid = ?D data)"
    if "store_inv hx H q" "finalize_object_tmpfile hx K H data n q = Some (r, q')" for data n q r q'
    using finalize_object_result [OF env that(1)] finalize_object_error [OF that(1)] that(2) by (cases r) blast+
  then have r': "rfold replay (writer_new ct) (map (op_entry ?D) (tar_ops T archive)) = Inr w'"
    and g: "store_inv hx H t1"
    using split_async_writer [of "store_inv hx H" _ ?D, OF _ inv(2) b w'] by blast+
  have r: "rfold replay (writer_new ct) (map (op_entry ?D) (tar_ops T archive)) = Inr w"
    using run_ops_replay [of "store_inv hx H" "ensure_object hx K H" ?D, OF _ inv(1)] tar_split_ops [OF split]
      ensure_object_result(1,3) [OF env] by blast
  have "store_inv hx H s1"
    using run_ops_good [of "store_inv hx H" "ensure_object hx K H", OF _ inv(1)] tar_split_ops [OF split]
      ensure_object_result(1) [OF env] by blast
  then show ?thesis using writer_done_digest [OF env _ fin] writer_done_digest [OF env g d'] r r' by auto
qed

section \<open>An example archive\<close>

text \<open>A file of 100 bytes and an end block; every header reads as a regular file of 100 bytes.\<close>

definition toy_tar :: tar_crate where
  "toy_tar = \<lparr>entry_size = (\<lambda>h. Some 100), entry_type = (\<lambda>h. TRegular), path_bytes = (\<lambda>h. ''file''),
     link_name_bytes = (\<lambda>h. None), device_major = (\<lambda>h. Some None), device_minor = (\<lambda>h. Some None),
     header_uid = (\<lambda>h. Some 0), header_gid = (\<lambda>h. Some 0), header_mode = (\<lambda>h. Some 420), header_mtime = (\<lambda>h. Some 7),
     pax_extensions = (\<lambda>h. []), makedev = (\<lambda>a b. 0)\<rparr>"

definition toy_header :: bytes where "toy_header = replicate 512 CHR ''h''"
definition toy_content :: bytes where "toy_content = replicate 100 CHR ''c''"
definition toy_padding :: bytes where "toy_padding = replicate 412 CHR 0x00"
definition toy_archive :: bytes where "toy_archive = toy_header @ toy_content @ toy_padding @ zero_block"

lemma toy_lengths [simp]:
  "length toy_header = 512" "length toy_content = 100" "length toy_padding = 412" "toy_header \<noteq> zero_block" "toy_header \<noteq> []"
  by (simp_all add: toy_header_def toy_content_def toy_padding_def zero_block_def)

lemma toy_tar_simps [simp]: "entry_size toy_tar h = Some 100" "entry_type toy_tar h = TRegular"
  by (simp_all add: toy_tar_def)

lemma toy_blocks: "tar_blocks toy_tar toy_archive = Inr [Block toy_header 100 (toy_content @ toy_padding), ZeroBlock]"
proof -
  have m: "next_multiple 100 = Some 512" by (simp add: next_multiple_def)
  have a: "next_block toy_tar toy_archive = Inr (Some (Block toy_header 100 (toy_content @ toy_padding), zero_block))"
    by (simp add: next_block_def read_exactish_def toy_archive_def dec_read_exact_def m)
  have b: "next_block toy_tar zero_block = Inr (Some (ZeroBlock, []))" "next_block toy_tar [] = Inr None"
    by (simp_all add: next_block_def read_exactish_def)
  show ?thesis by (simp add: tar_blocks.simps [of toy_tar toy_archive] tar_blocks.simps [of toy_tar zero_block]
        tar_blocks.simps [of toy_tar "[]"] a b)
qed

lemma toy_ops: "tar_ops toy_tar toy_archive =
  [WInline toy_header, WExternal toy_content, WInline toy_padding, WInline zero_block]"
  by (simp add: tar_ops_def toy_blocks block_ops_def is_external_def INLINE_CONTENT_MAX_def)

definition toy_writer :: writer where
  "toy_writer = (let oid = fsverity_digest toy_H 12 toy_content in
     (writer_new 7)\<lparr>w_total_size := 1536, inline_buffer := toy_padding @ zero_block,
       encoder := le64 (- 512) @ toy_header @ le64 0,
       w_object_refs := \<lparr>items = [oid], uindex = [oid \<mapsto> 0]\<rparr>\<rparr>)"

lemma toy_size: "size_of toy_H = 32" "ALGORITHM toy_H = 1" "length (fsverity_digest toy_H 12 d) = 32"
  using toy_env length_fsverity_digest [of toy_H d] by (simp_all add: toy_H_def Sha256HashValue_def env_ok_def)

lemma toy_run:
  assumes "ensure_object hex_codec toy_K toy_H toy_content empty_repo = Some (Inr (fsverity_digest toy_H 12 toy_content), s1)"
  shows "run_ops (ensure_object hex_codec toy_K toy_H) (writer_new 7) (tar_ops toy_tar toy_archive) empty_repo =
    Some (Inr toy_writer, s1)"
  using assms
  by (simp add: toy_ops toy_writer_def run_op_def write_external_with_def io_bind_def repo_step_def Let_def write_inline_def
      write_reference_def flush_inline_def add_object_ref_def uv_ensure_def uv_get_def writer_new_def uv_new_def I64_MAX_def)

lemma toy_file_of: "\<exists>buf. file_of plain_zstd toy_H toy_writer = Some buf \<and> length buf = 1604"
  by (simp add: file_of_def toy_writer_def writer_new_def flush_inline_def I64_MAX_def Let_def layout_def toy_size
      uv_bytes_def uv_new_def write_named_refs_def plain_zstd_def length_header_info SPLITSTREAM_MAGIC_def)

lemma toy_done:
  "\<exists>s1 buf s2. ensure_object hex_codec toy_K toy_H toy_content empty_repo = Some (Inr (fsverity_digest toy_H 12 toy_content), s1) \<and>
     file_of plain_zstd toy_H toy_writer = Some buf \<and> length buf = 1604 \<and> no_collision toy_H buf s1 \<and>
     writer_done plain_zstd hex_codec toy_K toy_H toy_writer s1 = Some (Inr (fsverity_digest toy_H 12 buf), s2)"
proof -
  obtain s1 where s1: "ensure_object hex_codec toy_K toy_H toy_content empty_repo = Some (Inr (fsverity_digest toy_H 12 toy_content), s1)"
    using toy_store_new [of empty_repo toy_content] by (auto simp: empty_repo_def bt_get_def)
  obtain buf where f: "file_of plain_zstd toy_H toy_writer = Some buf" "length buf = 1604" using toy_file_of by blast
  have objs: "\<forall>(p, f) \<in> set (objects s1). file_data f = toy_content"
    using ensure_new_objects [OF toy_env _ s1] by (fastforce simp: empty_repo_def bt_get_def)
  have ne: "fsverity_digest toy_H 12 buf \<noteq> fsverity_digest toy_H 12 toy_content"
    using toy_digest_length [of buf toy_content] f(2) by auto
  have nc: "no_collision toy_H buf s1" using objs ne by (fastforce simp: no_collision_def)
  obtain s2 where "ensure_object hex_codec toy_K toy_H buf s1 = Some (Inr (fsverity_digest toy_H 12 buf), s2)"
    using toy_store_other [OF ensure_object_result(1) [OF toy_env empty_repo_ok(1) s1] objs ne] by blast
  then show ?thesis using s1 f nc by (auto simp: writer_done_def repo_step_def)
qed

lemma toy_tar_split:
  assumes "ensure_object hex_codec toy_K toy_H toy_content empty_repo = Some (Inr (fsverity_digest toy_H 12 toy_content), s1)"
  shows "tar_split toy_tar (ensure_object hex_codec toy_K toy_H) toy_archive (writer_new 7) empty_repo =
    Some (Inr toy_writer, s1)"
  using toy_run [OF assms] toy_blocks by (auto simp: tar_split_run tar_ops_def)

lemma toy_safe: "compatible_run (no_collision toy_H) (ensure_object hex_codec toy_K toy_H) (writer_new 7)
    (tar_ops toy_tar toy_archive) empty_repo"
  by (simp add: toy_ops run_op_def write_external_with_def io_bind_def repo_step_def Let_def split: option.splits sum.splits)

lemma plain_zstd_ok: "zstd_laws plain_zstd" "stream_alg toy_H"
  using toy_size by (simp_all add: zstd_laws_def plain_zstd_def stream_alg_def)

lemma tar_split_lossless_witness:
  "\<exists>buf r (s2 :: repo). reader_new plain_zstd toy_H buf (Some 7) = Inr r \<and> r_total_size r = 1536 \<and>
     cat hex_codec toy_K toy_H r s2 = Some (Inr toy_archive, s2)"
proof -
  obtain s1 buf s2 where s: "ensure_object hex_codec toy_K toy_H toy_content empty_repo = Some (Inr (fsverity_digest toy_H 12 toy_content), s1)"
    "file_of plain_zstd toy_H toy_writer = Some buf" "length buf = 1604" "no_collision toy_H buf s1"
    "writer_done plain_zstd hex_codec toy_K toy_H toy_writer s1 = Some (Inr (fsverity_digest toy_H 12 buf), s2)"
    using toy_done by blast
  have "store_good hex_codec toy_K toy_H empty_repo" by (simp add: store_good_def toy_env)
  moreover have "length toy_archive = 1536" by (simp add: toy_archive_def)
  ultimately show ?thesis
    using tar_split_lossless [OF _ plain_zstd_ok toy_tar_split [OF s(1)] toy_safe s(5,2,4)] s(3) by auto
qed

lemma split_async_same_object_witness:
  "\<exists>w s1 oid s2 t2. tar_split toy_tar (ensure_object hex_codec toy_K toy_H) toy_archive (writer_new 7) empty_repo = Some (Inr w, s1) \<and>
     writer_done plain_zstd hex_codec toy_K toy_H w s1 = Some (Inr oid, s2) \<and>
     split_async toy_tar plain_zstd hex_codec toy_K toy_H toy_archive 7 empty_repo = Some (Inr oid, t2)"
proof -
  obtain s1 buf s2 where s: "ensure_object hex_codec toy_K toy_H toy_content empty_repo = Some (Inr (fsverity_digest toy_H 12 toy_content), s1)"
    "file_of plain_zstd toy_H toy_writer = Some buf"
    "writer_done plain_zstd hex_codec toy_K toy_H toy_writer s1 = Some (Inr (fsverity_digest toy_H 12 buf), s2)"
    "length buf = 1604"
    using toy_done by blast
  obtain t1 where t1: "finalize_object_tmpfile hex_codec toy_K toy_H toy_content 100 empty_repo =
      Some (Inr (fsverity_digest toy_H 12 toy_content), t1)"
    and objs: "\<forall>(p, f) \<in> set (objects t1). file_data f = toy_content"
    using toy_finalize [of toy_content 100 empty_repo] by (auto simp: empty_repo_def)
  define b where "b = (builder_new 7)\<lparr>total_external_size := 100, b_entries :=
    [EInline toy_header, EExternal (Inr (fsverity_digest toy_H 12 toy_content)) 100, EInline (toy_padding @ zero_block)]\<rparr>"
  have m: "next_multiple 100 = Some 512" by (simp add: next_multiple_def)
  have zb: "zero_block \<noteq> []" "toy_padding \<noteq> []" by (simp_all add: zero_block_def toy_padding_def)
  have split: "tar_split_async toy_tar (finalize_object_tmpfile hex_codec toy_K toy_H) toy_archive (builder_new 7) empty_repo =
      Some (Inr b, t1)"
    using t1 m zb unfolding toy_archive_def
    by (simp add: tar_split_async.simps [of toy_tar _ "toy_header @ toy_content @ toy_padding @ zero_block"] tar_split_async.simps [of toy_tar _ zero_block]
        tar_split_async.simps [of toy_tar _ "[]"] read_exactish_def INLINE_CONTENT_MAX_def Let_def
        io_bind_def spawn_def dec_read_exact_def push_inline_def push_external_def builder_new_def b_def)
  have "builder_writer b = Inr toy_writer"
    using zb by (simp add: b_def builder_writer_def builder_new_def resolve_entry_def replay_def toy_writer_def Let_def
        write_inline_def write_reference_def flush_inline_def add_object_ref_def uv_ensure_def uv_get_def writer_new_def
        uv_new_def I64_MAX_def add_external_size_def)
  moreover obtain oid t2 where "writer_done plain_zstd hex_codec toy_K toy_H toy_writer t1 = Some (Inr oid, t2)"
  proof -
    have "fsverity_digest toy_H 12 buf \<noteq> fsverity_digest toy_H 12 toy_content"
      using toy_digest_length [of buf toy_content] s(4) by auto
    then obtain t2 where "ensure_object hex_codec toy_K toy_H buf t1 = Some (Inr (fsverity_digest toy_H 12 buf), t2)"
      using toy_store_other objs conjunct1 [OF conjunct2 [OF finalize_object_result [OF toy_env empty_repo_ok(1) t1]]] by blast
    then show ?thesis using that s(2) by (simp add: writer_done_def repo_step_def)
  qed
  ultimately have "split_async toy_tar plain_zstd hex_codec toy_K toy_H toy_archive 7 empty_repo = Some (Inr oid, t2)"
    using split by (simp add: split_async_def io_bind_def builder_finish_def tar_step_def)
  then show ?thesis
    using split_async_same_object [OF toy_env empty_repo_ok(1) empty_repo_ok(1) toy_tar_split [OF s(1)] s(3)]
      toy_tar_split [OF s(1)] s(3) by blast
qed

end
