(* ===== verification/Oci_Layer.thy ===== *)
theory Oci_Layer
  imports Oci_Tar
begin

text \<open>
  Reading a layer: the loop over \<open>get_entry\<close> that \<open>ls_layer\<close> and \<open>create_filesystem\<close> of
  \<open>crates/composefs-oci\<close> run, compared with reading the entries directly from the blocks of the
  archive that was split.
\<close>

section \<open>The loop over the entries\<close>

lemma get_entry_loop_decreases:
  "get_entry_loop T r x = Inr (Some e, r') \<Longrightarrow> length (fst (decoder r')) < length (fst (decoder r))"
proof (induction T r x rule: get_entry_loop.induct)
  case (1 T r x)
  obtain h r1 where h: "read_inline_exact r 512 = Inr (Some h, r1)" "h \<noteq> zero_block"
    using "1.prems" by (auto simp: get_entry_loop.simps [of T r x] split: sum.splits option.splits if_splits)
  obtain n m d r2 where n: "entry_size T h = Some n" "next_multiple n = Some m"
    and d: "read_exact r1 (unat n) m = Inr (d, r2)"
    using "1.prems" h by (auto simp: get_entry_loop.simps [of T r x] split: option.splits sum.splits)
  have less: "length (fst (decoder r2)) < length (fst (decoder r))"
    using read_inline_exact_decreases [OF h(1)] read_exact_decreases [OF d] by simp
  obtain st where st: "(case d of DExternal oid \<Rightarrow> external_item T h oid n | DInline c \<Rightarrow> inline_item T h c x) = Inr st"
    using "1.prems" h n d by (auto simp: get_entry_loop.simps [of T r x] split: sum.splits)
  show ?case
  proof (cases st)
    case (Item i)
    then have "r' = r2" using "1.prems" h n d st
      by (auto simp: get_entry_loop.simps [of T r x] rbind_eq_Inr_iff)
    then show ?thesis using less by simp
  next
    case (Continue x')
    have "get_entry_loop T r2 x' = Inr (Some e, r')"
      using "1.prems" h n d st Continue by (simp add: get_entry_loop.simps [of T r x])
    then show ?thesis using "1.IH" [OF h(1) refl refl h(2) n d refl st Continue] less by simp
  qed
qed

lemma get_entry_decreases:
  "get_entry T r = Inr (Some e, r') \<Longrightarrow> length (fst (decoder r')) < length (fst (decoder r))"
  by (auto simp: get_entry_def dest: get_entry_loop_decreases)

function layer_entries :: "tar_crate \<Rightarrow> reader \<Rightarrow> tar_error + tar_entry list" where
  "layer_entries T r = (case get_entry T r of
       Inl e \<Rightarrow> Inl e
     | Inr (None, _) \<Rightarrow> Inr []
     | Inr (Some e, r') \<Rightarrow> rbind (layer_entries T r') (\<lambda>es. Inr (e # es)))"
  by pat_completeness auto
termination
  by (relation "measure (\<lambda>(T, r). length (fst (decoder r)))") (auto dest: get_entry_decreases)

declare layer_entries.simps [simp del]

section \<open>Pieces\<close>

text \<open>The content of a stream, as pieces of inline data and names of objects; \<open>norm\<close> joins
  neighbouring pieces of data, as the writer's buffer does.\<close>

datatype piece = PData bytes | PRef bytes

fun norm :: "piece list \<Rightarrow> piece list" where
  "norm [] = []"
| "norm (PRef oid # ps) = PRef oid # norm ps"
| "norm (PData d # ps) = (if d = [] then norm ps
     else case norm ps of PData b # qs \<Rightarrow> PData (d @ b) # qs | qs \<Rightarrow> PData d # qs)"

lemma norm_PRef_snoc: "norm (ps @ [PRef oid]) = norm ps @ [PRef oid]"
  by (induction ps rule: norm.induct) (auto split: list.splits piece.splits)

lemma norm_cases:
  obtains (data) b qs where "norm ps = PData b # qs" "b \<noteq> []"
  | (other) "\<nexists>b qs. norm ps = PData b # qs"
proof (cases "\<exists>b qs. norm ps = PData b # qs")
  case True
  moreover have "norm ps = PData b # qs \<Longrightarrow> b \<noteq> []" for b qs
    by (induction ps rule: norm.induct) (auto split: if_splits list.splits piece.splits)
  ultimately show ?thesis using data by blast
qed (use other in blast)

lemma norm_PData_cases:
  assumes "d \<noteq> []"
  obtains b where "norm (PData d # ps) = PData (d @ b) # (if b = [] then norm ps else tl (norm ps))"
    "b \<noteq> [] \<Longrightarrow> norm ps = PData b # tl (norm ps)"
proof (cases ps rule: norm_cases)
  case (data b qs)
  then show ?thesis using assms that [of b] by simp
next
  case other
  then have "norm (PData d # ps) = PData d # norm ps"
    using assms by (auto split: list.splits piece.splits)
  then show ?thesis using that [of "[]"] by simp
qed

text \<open>Appending data to a normal form.\<close>

definition norm_snoc :: "piece list \<Rightarrow> bytes \<Rightarrow> piece list" where
  "norm_snoc qs d = (if d = [] then qs else case rev qs of
       PData b # rs \<Rightarrow> rev rs @ [PData (b @ d)] | _ \<Rightarrow> qs @ [PData d])"

lemma norm_snoc_Cons: "qs \<noteq> [] \<Longrightarrow> norm_snoc (q # qs) d = q # norm_snoc qs d"
  by (auto simp: norm_snoc_def rev_eq_Cons_iff split: list.splits piece.splits)

lemma norm_PData_snoc: "norm (ps @ [PData d]) = norm_snoc (norm ps) d"
proof (induction ps rule: norm.induct)
  case 1
  then show ?case by (simp add: norm_snoc_def)
next
  case (2 oid ps)
  then show ?case by (cases "norm ps") (auto simp: norm_snoc_Cons, simp_all add: norm_snoc_def)
next
  case (3 a ps)
  show ?case
  proof (cases "a = []")
    case True
    then show ?thesis using 3 by simp
  next
    case False
    show ?thesis
    proof (cases "norm ps")
      case Nil
      then show ?thesis using 3 False by (simp add: norm_snoc_def)
    next
      case (Cons q qs)
      have "norm (ps @ [PData d]) = norm_snoc (q # qs) d" using 3 False Cons by simp
      then show ?thesis using False Cons
        by (cases qs; cases q) (auto simp: norm_snoc_Cons, simp_all add: norm_snoc_def)
    qed
  qed
qed

section \<open>What a writer has written\<close>

definition piece_of :: "bytes list \<Rightarrow> chunk \<Rightarrow> piece" where
  "piece_of oids c = (case c of Data d \<Rightarrow> PData d | Ref i \<Rightarrow> PRef (oids ! i))"

definition op_piece :: "(bytes \<Rightarrow> bytes) \<Rightarrow> stream_op \<Rightarrow> piece" where
  "op_piece D p = (case p of WInline d \<Rightarrow> PData d | WExternal d \<Rightarrow> PRef (D d))"

definition buffered :: "writer \<Rightarrow> piece list" where
  "buffered w = (if inline_buffer w = [] then [] else [PData (inline_buffer w)])"

definition wrote :: "writer \<Rightarrow> piece list \<Rightarrow> bool" where
  "wrote w ps \<longleftrightarrow> uv_ok (w_object_refs w) \<and> (\<exists>cs. encoder w = encode_chunks cs \<and>
     (\<forall>c \<in> set cs. chunk_ok (length (items (w_object_refs w))) c) \<and>
     (cs = [] \<or> (\<exists>i. last cs = Ref i)) \<and>
     map (piece_of (items (w_object_refs w))) cs @ buffered w = norm ps)"

lemma wrote_new: "wrote (writer_new ct) []"
  unfolding wrote_def by (intro conjI exI [of _ "[]"]) (simp_all add: writer_new_def buffered_def encode_chunks_def)

lemma norm_snoc_buffered:
  assumes "cs = [] \<or> (\<exists>i. last cs = Ref i)"
  shows "norm_snoc (map (piece_of oids) cs @ (if b = [] then [] else [PData b])) d =
    map (piece_of oids) cs @ (if b @ d = [] then [] else [PData (b @ d)])"
proof (cases "b = []")
  case True
  show ?thesis
  proof (cases cs rule: rev_cases)
    case Nil
    then show ?thesis using True by (simp add: norm_snoc_def)
  next
    case (snoc ys y)
    then obtain i where "y = Ref i" using assms by auto
    then show ?thesis using True snoc by (simp add: norm_snoc_def piece_of_def)
  qed
qed (simp add: norm_snoc_def)

lemma wrote_inline: "wrote w ps \<Longrightarrow> wrote (write_inline d w) (ps @ [PData d])"
proof -
  assume "wrote w ps"
  then obtain cs where cs: "uv_ok (w_object_refs w)" "encoder w = encode_chunks cs"
    "\<forall>c \<in> set cs. chunk_ok (length (items (w_object_refs w))) c" "cs = [] \<or> (\<exists>i. last cs = Ref i)"
    "map (piece_of (items (w_object_refs w))) cs @ buffered w = norm ps"
    by (auto simp: wrote_def)
  have "norm (ps @ [PData d]) = map (piece_of (items (w_object_refs w))) cs @ buffered (write_inline d w)"
    unfolding norm_PData_snoc cs(5) [symmetric]
    using norm_snoc_buffered [OF cs(4)] by (simp add: buffered_def write_inline_def)
  then show ?thesis using cs(1-4) unfolding wrote_def write_inline_def
    by (intro conjI exI [of _ cs]) simp_all
qed

lemma piece_of_append:
  "chunk_ok (length oids) c \<Longrightarrow> piece_of (oids @ xs) c = piece_of oids c"
  by (auto simp: chunk_ok_def piece_of_def nth_append split: chunk.splits)

lemma wrote_reference:
  assumes w: "wrote w ps" and r: "write_reference oid w = Some w'"
  shows "wrote w' (ps @ [PRef oid])" "inline_buffer w' = []"
proof -
  obtain cs where cs: "encoder w = encode_chunks cs" "\<forall>c \<in> set cs. chunk_ok (length (items (w_object_refs w))) c"
    "map (piece_of (items (w_object_refs w))) cs @ buffered w = norm ps" and uv: "uv_ok (w_object_refs w)"
    using w by (auto simp: wrote_def)
  obtain w1 where w1: "flush_inline w = Some w1" using r by (cases "flush_inline w") (simp_all add: write_reference_def)
  define cs1 where "cs1 = cs @ (if inline_buffer w = [] then [] else [Data (inline_buffer w)])"
  have f: "encoder w1 = encode_chunks cs1" "inline_buffer w1 = []" "w_object_refs w1 = w_object_refs w"
    "\<forall>c \<in> set cs1. chunk_ok (length (items (w_object_refs w))) c"
    "map (piece_of (items (w_object_refs w))) cs1 = norm ps"
    using w1 cs by (auto simp: cs1_def flush_inline_def Let_def encode_chunks_snoc encode_chunk_def chunk_ok_def
        buffered_def piece_of_def split: if_splits)
  obtain i u where e: "uv_ensure (w_object_refs w) oid = (i, u)" by fastforce
  have w': "w' = w1\<lparr>w_object_refs := u, encoder := encoder w1 @ encode_chunk (Ref i)\<rparr>" "i \<le> I64_MAX"
    using r w1 e f(3) by (auto simp: write_reference_def add_object_ref_def encode_chunk_def split: if_splits)
  note en = uv_ensure_ok [OF uv e]
  obtain xs where xs: "items u = items (w_object_refs w) @ xs" using en(4) by auto
  have "piece_of (items u) c = piece_of (items (w_object_refs w)) c \<and> chunk_ok (length (items u)) c"
    if "c \<in> set cs1" for c
    using f(4) that piece_of_append [of "items (w_object_refs w)" c xs] xs chunk_ok_mono by auto
  then have "map (piece_of (items u)) cs1 = norm ps" "\<forall>c \<in> set cs1. chunk_ok (length (items u)) c"
    using f(5) by (auto cong: map_cong)
  moreover have "chunk_ok (length (items u)) (Ref i)" "piece_of (items u) (Ref i) = PRef oid"
    using en(2,3) w'(2) by (simp_all add: chunk_ok_def piece_of_def)
  ultimately show "wrote w' (ps @ [PRef oid])"
    using w' f en(1) unfolding wrote_def norm_PRef_snoc buffered_def
    by (intro conjI exI [of _ "cs1 @ [Ref i]"]) (auto simp: encode_chunks_snoc)
  show "inline_buffer w' = []" using w' f by simp
qed

lemma wrote_size [simp]: "wrote (w\<lparr>w_total_size := n\<rparr>) ps = wrote w ps"
  by (simp add: wrote_def buffered_def)

lemma replay_wrote:
  "wrote w qs \<Longrightarrow> rfold replay w (map (op_entry D) ps) = Inr w' \<Longrightarrow> wrote w' (qs @ map (op_piece D) ps)"
proof (induction ps arbitrary: w qs)
  case (Cons p ps)
  obtain w1 where w1: "replay w (op_entry D p) = Inr w1" "rfold replay w1 (map (op_entry D) ps) = Inr w'"
    using Cons.prems(2) by (auto simp: rbind_eq_Inr_iff)
  have "wrote w1 (qs @ [op_piece D p])"
  proof (cases p)
    case (WInline d)
    then show ?thesis using w1(1) wrote_inline [OF Cons.prems(1), of d] by (auto simp: replay_def op_entry_def op_piece_def)
  next
    case (WExternal d)
    then have "write_reference (D d) (add_external_size (of_nat (length d)) w) = Some w1"
      using w1(1) by (simp add: replay_def op_entry_def)
    moreover have "wrote (add_external_size (of_nat (length d)) w) qs"
      using Cons.prems(1) by (simp add: add_external_size_def)
    ultimately show ?thesis using wrote_reference(1) WExternal by (simp add: op_piece_def)
  qed
  then show ?case using Cons.IH [OF _ w1(2), of "qs @ [op_piece D p]"] by simp
qed simp

section \<open>What a reader has yet to read\<close>

definition at :: "reader \<Rightarrow> piece list \<Rightarrow> bool" where
  "at r ps \<longleftrightarrow> (\<exists>cs. (\<forall>c \<in> set cs. chunk_ok (length (r_object_refs r)) c) \<and>
     (inline_bytes r = 0 \<and> decoder r = (encode_chunks cs, True) \<and> map (piece_of (r_object_refs r)) cs = norm ps \<or>
      (\<exists>d. d \<noteq> [] \<and> inline_bytes r = length d \<and> decoder r = (d @ encode_chunks cs, True) \<and>
         PData d # map (piece_of (r_object_refs r)) cs = norm ps)))"

lemma opened_at:
  assumes "wrote w ps" "flush_inline w = Some w1"
  shows "at (opened w1) ps"
proof -
  obtain cs where cs: "encoder w = encode_chunks cs" "\<forall>c \<in> set cs. chunk_ok (length (items (w_object_refs w))) c"
    "map (piece_of (items (w_object_refs w))) cs @ buffered w = norm ps"
    using assms(1) by (auto simp: wrote_def)
  define cs1 where "cs1 = cs @ (if inline_buffer w = [] then [] else [Data (inline_buffer w)])"
  have "encoder w1 = encode_chunks cs1" "w_object_refs w1 = w_object_refs w"
    "\<forall>c \<in> set cs1. chunk_ok (length (items (w_object_refs w))) c"
    "map (piece_of (items (w_object_refs w))) cs1 = norm ps"
    using assms(2) cs by (auto simp: cs1_def flush_inline_def Let_def encode_chunks_snoc encode_chunk_def chunk_ok_def
        buffered_def piece_of_def split: if_splits)
  then show ?thesis unfolding at_def by (intro exI [of _ cs1]) (simp add: opened_def)
qed

lemma at_end: "at r [] \<Longrightarrow> read_inline_exact r n = Inr (None, r)"
  by (auto simp: at_def read_inline_exact_def ensure_chunk_eof encode_chunks_def)

lemma at_ref:
  assumes "at r (PRef oid # ps)"
  shows "\<exists>r1. ensure_chunk r e True k = Inr (CExternal oid, r1) \<and> at r1 ps"
proof -
  obtain cs where cs: "\<forall>c \<in> set cs. chunk_ok (length (r_object_refs r)) c" "inline_bytes r = 0"
    "decoder r = (encode_chunks cs, True)" "map (piece_of (r_object_refs r)) cs = PRef oid # norm ps"
    using assms unfolding at_def norm.simps by (metis list.inject piece.distinct(1))
  then obtain c cs' where c: "cs = c # cs'" "piece_of (r_object_refs r) c = PRef oid"
    "map (piece_of (r_object_refs r)) cs' = norm ps" by auto
  then obtain i where i: "c = Ref i" "r_object_refs r ! i = oid" by (cases c) (auto simp: piece_of_def)
  have "decoder r = (encode_chunk (Ref i) @ encode_chunks cs', True)"
    using cs(3) c(1) i(1) by (simp add: encode_chunks_def)
  from ensure_chunk_ref [OF cs(2) this] show ?thesis
    using cs(1) c i by (intro exI [of _ "r\<lparr>decoder := (encode_chunks cs', True)\<rparr>"]) (auto simp: at_def cs(2))
qed

text \<open>At data, a chunk is open that begins with it.\<close>

lemma at_data:
  assumes a: "at r (PData h # ps)" and h: "h \<noteq> []" "k \<le> length h"
  shows "\<exists>b cs r1. ensure_chunk r e x k = Inr (CInline, r1) \<and> inline_bytes r1 = length (h @ b) \<and>
    decoder r1 = (h @ b @ encode_chunks cs, True) \<and> (\<forall>c \<in> set cs. chunk_ok (length (r_object_refs r1)) c) \<and>
    norm ps = (if b = [] then [] else [PData b]) @ map (piece_of (r_object_refs r1)) cs \<and>
    norm (PData h # ps) = PData (h @ b) # map (piece_of (r_object_refs r1)) cs"
proof -
  obtain b where b: "norm (PData h # ps) = PData (h @ b) # (if b = [] then norm ps else tl (norm ps))"
    "b \<noteq> [] \<Longrightarrow> norm ps = PData b # tl (norm ps)"
    using norm_PData_cases [OF h(1)] by blast
  have n: "norm ps = (if b = [] then [] else [PData b]) @ (if b = [] then norm ps else tl (norm ps))"
    using b(2) by auto
  obtain cs where cs: "\<forall>c \<in> set cs. chunk_ok (length (r_object_refs r)) c"
    and alt: "inline_bytes r = 0 \<and> decoder r = (encode_chunks cs, True) \<and> map (piece_of (r_object_refs r)) cs = norm (PData h # ps) \<or>
      (\<exists>d. d \<noteq> [] \<and> inline_bytes r = length d \<and> decoder r = (d @ encode_chunks cs, True) \<and>
         PData d # map (piece_of (r_object_refs r)) cs = norm (PData h # ps))"
    using a unfolding at_def by blast
  from alt show ?thesis
  proof (elim disjE conjE exE)
    assume r: "inline_bytes r = 0" "decoder r = (encode_chunks cs, True)"
      and m: "map (piece_of (r_object_refs r)) cs = norm (PData h # ps)"
    then obtain c cs' where c: "cs = c # cs'" "piece_of (r_object_refs r) c = PData (h @ b)"
      "map (piece_of (r_object_refs r)) cs' = (if b = [] then norm ps else tl (norm ps))"
      unfolding b(1) by auto
    then have cd: "c = Data (h @ b)" by (cases c) (simp_all add: piece_of_def)
    have "decoder r = (encode_chunk (Data (h @ b)) @ encode_chunks cs', True)"
      using r(2) c(1) cd by (simp add: encode_chunks_def)
    from ensure_chunk_data [OF r(1) this, of "length (r_object_refs r)" k e x]
    show ?thesis using cs c cd h n b(1)
      by (intro exI [of _ b] exI [of _ cs']
          exI [of _ "r\<lparr>decoder := ((h @ b) @ encode_chunks cs', True), inline_bytes := length (h @ b)\<rparr>"]) auto
  next
    fix d
    assume r: "d \<noteq> []" "inline_bytes r = length d" "decoder r = (d @ encode_chunks cs, True)"
      and m: "PData d # map (piece_of (r_object_refs r)) cs = norm (PData h # ps)"
    have "d = h @ b" "map (piece_of (r_object_refs r)) cs = (if b = [] then norm ps else tl (norm ps))"
      using m unfolding b(1) by simp_all
    then show ?thesis using r cs h n b(1)
      by (intro exI [of _ b] exI [of _ cs] exI [of _ r]) (auto simp: ensure_chunk_def)
  qed
qed

lemma at_rest:
  assumes "\<forall>c \<in> set cs. chunk_ok (length (r_object_refs r)) c"
    "norm ps = (if b = [] then [] else [PData b]) @ map (piece_of (r_object_refs r)) cs"
  shows "at (r\<lparr>inline_bytes := length b, decoder := (b @ encode_chunks cs, True)\<rparr>) ps"
  using assms unfolding at_def by (intro exI [of _ cs]) auto

lemma at_swap [simp]: "at (r\<lparr>decoder := d, inline_bytes := n\<rparr>) ps = at (r\<lparr>inline_bytes := n, decoder := d\<rparr>) ps"
  by (simp add: at_def)

lemma at_read_inline:
  assumes a: "at r (PData h # ps)" and h: "length h = n" "0 < n"
  shows "\<exists>r1. read_inline_exact r n = Inr (Some h, r1) \<and> at r1 ps"
proof -
  obtain b cs r1 where d: "ensure_chunk r True False n = Inr (CInline, r1)" "inline_bytes r1 = length (h @ b)"
    "decoder r1 = (h @ b @ encode_chunks cs, True)" "\<forall>c \<in> set cs. chunk_ok (length (r_object_refs r1)) c"
    "norm ps = (if b = [] then [] else [PData b]) @ map (piece_of (r_object_refs r1)) cs"
    using at_data [OF a, of n True False] h by auto
  then show ?thesis using h at_rest [OF d(4,5)]
    by (simp add: read_inline_exact_def dec_read_exact_def)
qed

lemma at_read_data:
  assumes a: "at r (PData h # ps)" and h: "length h = n" "0 < n"
  shows "\<exists>r1. read_exact r m n = Inr (DInline (take m h), r1) \<and> at r1 ps"
proof -
  obtain b cs r1 where d: "ensure_chunk r False True n = Inr (CInline, r1)" "inline_bytes r1 = length (h @ b)"
    "decoder r1 = (h @ b @ encode_chunks cs, True)" "\<forall>c \<in> set cs. chunk_ok (length (r_object_refs r1)) c"
    "norm ps = (if b = [] then [] else [PData b]) @ map (piece_of (r_object_refs r1)) cs"
    using at_data [OF a, of n False True] h by auto
  then show ?thesis using h at_rest [OF d(4,5)]
    by (simp add: read_exact_def dec_read_exact_def)
qed

text \<open>An entry without data needs an open chunk: some data has to follow.\<close>

lemma at_read_nothing:
  assumes a: "at r (PData h # ps)" and h: "h \<noteq> []"
  shows "\<exists>r1. read_exact r 0 0 = Inr (DInline [], r1) \<and> at r1 (PData h # ps)"
proof -
  obtain b cs r1 where d: "ensure_chunk r False True 0 = Inr (CInline, r1)" "inline_bytes r1 = length (h @ b)"
    "decoder r1 = (h @ b @ encode_chunks cs, True)" "\<forall>c \<in> set cs. chunk_ok (length (r_object_refs r1)) c"
    "norm (PData h # ps) = PData (h @ b) # map (piece_of (r_object_refs r1)) cs"
    using at_data [OF a h, of 0 False True] by auto
  then have "at (r1\<lparr>inline_bytes := length (h @ b), decoder := ((h @ b) @ encode_chunks cs, True)\<rparr>) (PData h # ps)"
    using h by (intro at_rest) simp_all
  moreover have "r1\<lparr>inline_bytes := length (h @ b), decoder := ((h @ b) @ encode_chunks cs, True)\<rparr> = r1"
    using d(2,3) by (cases r1) simp
  ultimately have "at r1 (PData h # ps)" by simp
  moreover have "read_exact r 0 0 = Inr (DInline [], r1)" using d(1-3) by (simp add: read_exact_def dec_read_exact_def)
  ultimately show ?thesis by blast
qed

lemma at_read_external:
  assumes a: "at r (PRef oid # PData pad # ps)" and p: "length pad = n - m" "m \<le> n" "n - m \<le> 512"
  shows "\<exists>r1. read_exact r m n = Inr (DExternal oid, r1) \<and> at r1 ps"
proof -
  obtain r1 where r1: "ensure_chunk r False True n = Inr (CExternal oid, r1)" "at r1 (PData pad # ps)"
    using at_ref [OF a] by blast
  show ?thesis
  proof (cases "m < n")
    case False
    then have "at r1 ps" using r1(2) p by (simp add: at_def)
    then show ?thesis using r1(1) False by (simp add: read_exact_def)
  next
    case True
    then have "pad \<noteq> []" using p(1) by auto
    then obtain b cs r2 where d: "ensure_chunk r1 False False (n - m) = Inr (CInline, r2)" "inline_bytes r2 = length (pad @ b)"
      "decoder r2 = (pad @ b @ encode_chunks cs, True)" "\<forall>c \<in> set cs. chunk_ok (length (r_object_refs r2)) c"
      "norm ps = (if b = [] then [] else [PData b]) @ map (piece_of (r_object_refs r2)) cs"
      using at_data [OF r1(2), of "n - m" False False] p by auto
    have "discard_padding r1 (n - m) = Inr (r2\<lparr>decoder := (b @ encode_chunks cs, True), inline_bytes := length b\<rparr>)"
      using d p by (simp add: discard_padding_def dec_read_exact_def)
    moreover have "at (r2\<lparr>decoder := (b @ encode_chunks cs, True), inline_bytes := length b\<rparr>) ps"
      using at_rest [OF d(4,5)] by (simp add: at_def)
    ultimately show ?thesis using r1(1) True by (simp add: read_exact_def)
  qed
qed

section \<open>Reading entries from the archive itself\<close>

text \<open>The reference: the entries of a sequence of blocks, where \<open>D\<close> names the contents of a large
  file.\<close>

definition block_step :: "tar_crate \<Rightarrow> (bytes \<Rightarrow> bytes) \<Rightarrow> bytes \<Rightarrow> u64 \<Rightarrow> bytes \<Rightarrow> extensions \<Rightarrow> tar_error + step" where
  "block_step T D h n d x = (if is_external T h n
     then Inr (Item (TarLeaf (Regular (External (D (take (unat n) d)) n))))
     else inline_item T h (take (unat n) d) x)"

fun archive_entry :: "tar_crate \<Rightarrow> (bytes \<Rightarrow> bytes) \<Rightarrow> tar_block list \<Rightarrow> extensions \<Rightarrow>
    tar_error + (tar_entry option \<times> tar_block list)" where
  "archive_entry T D [] x = Inr (None, [])"
| "archive_entry T D (ZeroBlock # bs) x = Inr (None, bs)"
| "archive_entry T D (Block h n d # bs) x = rbind (block_step T D h n d x) (\<lambda>st. case st of
     Continue x' \<Rightarrow> archive_entry T D bs x'
   | Item i \<Rightarrow> rbind (finish_entry T h x i) (\<lambda>e. Inr (Some e, bs)))"

lemma archive_entry_shorter:
  "archive_entry T D bs x = Inr (Some e, bs') \<Longrightarrow> length bs' < length bs"
proof (induction T D bs x rule: archive_entry.induct)
  case (3 T D h n d bs x)
  then obtain st where st: "block_step T D h n d x = Inr st" by (auto simp: rbind_eq_Inr_iff)
  show ?case
  proof (cases st)
    case (Item i)
    then show ?thesis using 3 st by (auto simp: rbind_eq_Inr_iff)
  next
    case (Continue x')
    then show ?thesis using 3 st by fastforce
  qed
qed simp_all

function archive_entries :: "tar_crate \<Rightarrow> (bytes \<Rightarrow> bytes) \<Rightarrow> tar_block list \<Rightarrow> tar_error + tar_entry list" where
  "archive_entries T D bs = (case archive_entry T D bs no_extensions of
       Inl e \<Rightarrow> Inl e
     | Inr (None, _) \<Rightarrow> Inr []
     | Inr (Some e, bs') \<Rightarrow> rbind (archive_entries T D bs') (\<lambda>es. Inr (e # es)))"
  by pat_completeness auto
termination
  by (relation "measure (\<lambda>(T, D, bs). length bs)") (auto dest: archive_entry_shorter)

declare archive_entries.simps [simp del]

section \<open>The two readers agree\<close>

definition pieces :: "tar_crate \<Rightarrow> (bytes \<Rightarrow> bytes) \<Rightarrow> tar_block list \<Rightarrow> piece list" where
  "pieces T D bs = map (op_piece D) (concat (map (block_ops T) bs))"

text \<open>An archive whose last block is an end block: data follows every entry.\<close>

definition terminated :: "tar_block list \<Rightarrow> bool" where
  "terminated bs \<longleftrightarrow> (bs = [] \<or> last bs = ZeroBlock)"

lemma pieces_simps [simp]:
  "pieces T D [] = []" "pieces T D (ZeroBlock # bs) = PData zero_block # pieces T D bs"
  "is_external T h n \<Longrightarrow> pieces T D (Block h n d # bs) =
     PData h # PRef (D (take (unat n) d)) # PData (drop (unat n) d) # pieces T D bs"
  "\<not> is_external T h n \<Longrightarrow> pieces T D (Block h n d # bs) = PData h # PData d # pieces T D bs"
  by (simp_all add: pieces_def block_ops_def op_piece_def)

lemma zero_block_not_Nil [simp]: "zero_block \<noteq> []"
  by (simp add: zero_block_def)

lemma pieces_head:
  assumes "bs \<noteq> []" "\<forall>b \<in> set bs. block_ok T b"
  shows "\<exists>h ps. pieces T D bs = PData h # ps \<and> h \<noteq> []"
proof -
  obtain b bs' where b: "bs = b # bs'" using assms(1) by (cases bs) auto
  show ?thesis
  proof (cases b)
    case (Block h n d)
    then have "h \<noteq> []" using assms b by (auto simp: block_ok_def)
    then show ?thesis using b Block by (cases "is_external T h n") auto
  qed (use b in simp)
qed

lemma next_multiple_bound: "next_multiple n = Some m \<Longrightarrow> unat n \<le> m \<and> m - unat n \<le> 512 \<and> (m = 0 \<longrightarrow> unat n = 0)"
proof -
  assume n: "next_multiple n = Some m"
  then have m: "m = (unat n + 511) div 512 * 512" by (simp add: next_multiple_def Let_def split: if_splits)
  have "m \<le> unat n + 511" unfolding m by (rule div_times_less_eq_dividend)
  then show ?thesis using next_multiple_ge [OF n] by linarith
qed

lemma read_block:
  assumes a: "at r (pieces T D (Block h n d # bs))" and ok: "block_ok T (Block h n d)"
    and follow: "d \<noteq> [] \<or> (\<exists>g ps. pieces T D bs = PData g # ps \<and> g \<noteq> [])"
  shows "\<exists>r1 r2. read_inline_exact r 512 = Inr (Some h, r1) \<and>
    read_exact r1 (unat n) (length d) =
      Inr (if is_external T h n then DExternal (D (take (unat n) d)) else DInline (take (unat n) d), r2) \<and>
    at r2 (pieces T D bs)"
proof -
  have h: "length h = 512" and nm: "next_multiple n = Some (length d)" using ok by (simp_all add: block_ok_def)
  note b = next_multiple_bound [OF nm]
  show ?thesis
  proof (cases "is_external T h n")
    case True
    then obtain r1 where r1: "read_inline_exact r 512 = Inr (Some h, r1)"
      "at r1 (PRef (D (take (unat n) d)) # PData (drop (unat n) d) # pieces T D bs)"
      using a at_read_inline [OF _ h] by auto
    then show ?thesis using at_read_external [OF r1(2), of "length d" "unat n"] b True by auto
  next
    case False
    then obtain r1 where r1: "read_inline_exact r 512 = Inr (Some h, r1)" "at r1 (PData d # pieces T D bs)"
      using a at_read_inline [OF _ h] by auto
    show ?thesis
    proof (cases "d = []")
      case True
      then obtain g ps where g: "pieces T D bs = PData g # ps" "g \<noteq> []" using follow by auto
      have "at r1 (PData g # ps)" using r1(2) True g(1) by (simp add: at_def)
      then show ?thesis using at_read_nothing [OF _ g(2)] r1(1) True False g(1) b by fastforce
    next
      case d: False
      then show ?thesis using at_read_data [OF r1(2) refl, of "unat n"] r1(1) False by auto
    qed
  qed
qed

lemma write_reference_frame:
  assumes "write_reference oid w = Some w'"
  shows "set (items (w_object_refs w')) \<subseteq> Set.insert oid (set (items (w_object_refs w)))"
    "w_stream_refs w' = w_stream_refs w" "w_named_refs w' = w_named_refs w" "w_content_type w' = w_content_type w"
  using assms
  by (cases "flush_inline w"; auto simp: write_reference_def flush_inline_def add_object_ref_def uv_ensure_def Let_def
      split: if_splits option.splits)+

lemma replay_wf:
  assumes D: "\<And>d. length (D d) = size_of H"
  shows "writer_wf H w \<Longrightarrow> rfold replay w (map (op_entry D) ps) = Inr w' \<Longrightarrow>
    writer_wf H w' \<and> w_content_type w' = w_content_type w"
proof (induction ps arbitrary: w)
  case (Cons p ps)
  obtain w1 where w1: "replay w (op_entry D p) = Inr w1" "rfold replay w1 (map (op_entry D) ps) = Inr w'"
    using Cons.prems(2) by (auto simp: rbind_eq_Inr_iff)
  have "writer_wf H w1 \<and> w_content_type w1 = w_content_type w"
  proof (cases p)
    case (WInline d)
    then show ?thesis using w1(1) Cons.prems(1) by (auto simp: replay_def op_entry_def writer_wf_def write_inline_def)
  next
    case (WExternal d)
    then have "write_reference (D d) (add_external_size (of_nat (length d)) w) = Some w1"
      using w1(1) by (simp add: replay_def op_entry_def)
    note fr = write_reference_frame [OF this]
    show ?thesis using fr Cons.prems(1) D by (auto simp: writer_wf_def add_external_size_def)
  qed
  then show ?case using Cons.IH [OF _ w1(2)] by simp
qed simp

lemma writer_wf_new [simp]: "writer_wf H (writer_new ct)"
  by (simp add: writer_wf_def writer_new_def named_ok_def bt_wf_def)

lemma external_item_step:
  "is_external T h n \<Longrightarrow> external_item T h oid n = Inr (Item (TarLeaf (Regular (External oid n))))"
  by (simp add: is_external_def external_item_def)

definition reads_blocks :: "tar_crate \<Rightarrow> (bytes \<Rightarrow> bytes) \<Rightarrow> reader \<Rightarrow> tar_block list \<Rightarrow> bool" where
  "reads_blocks T D r bs \<longleftrightarrow> at r (pieces T D bs) \<and> terminated bs \<and> (\<forall>b \<in> set bs. block_ok T b)"

lemma get_entry_loop_refines:
  assumes "reads_blocks T D r bs"
  shows "case archive_entry T D bs x of
      Inl e \<Rightarrow> get_entry_loop T r x = Inl e
    | Inr (e, bs') \<Rightarrow> \<exists>r'. get_entry_loop T r x = Inr (e, r') \<and> (e \<noteq> None \<longrightarrow> reads_blocks T D r' bs')"
  using assms
proof (induction T D bs x arbitrary: r rule: archive_entry.induct)
  case (1 T D x)
  then show ?case using at_end [of r 512] by (simp add: get_entry_loop.simps [of T r] reads_blocks_def)
next
  case (2 T D bs x)
  then obtain r1 where "read_inline_exact r 512 = Inr (Some zero_block, r1)"
    using at_read_inline [of r zero_block _ 512] by (auto simp: reads_blocks_def)
  then show ?case by (simp add: get_entry_loop.simps [of T r])
next
  case (3 T D h n d bs x)
  have ok: "block_ok T (Block h n d)" "\<forall>b \<in> set bs. block_ok T b" and t: "bs \<noteq> []" "terminated bs"
    using "3.prems" by (auto simp: reads_blocks_def terminated_def split: if_splits)
  have hd: "h \<noteq> zero_block" "entry_size T h = Some n" "next_multiple n = Some (length d)"
    using ok(1) by (simp_all add: block_ok_def)
  have "\<exists>g ps. pieces T D bs = PData g # ps \<and> g \<noteq> []" by (rule pieces_head [OF t(1) ok(2)])
  then obtain r1 r2 where r: "read_inline_exact r 512 = Inr (Some h, r1)"
    "read_exact r1 (unat n) (length d) =
      Inr (if is_external T h n then DExternal (D (take (unat n) d)) else DInline (take (unat n) d), r2)"
    "at r2 (pieces T D bs)"
    using read_block [OF _ ok(1)] "3.prems" unfolding reads_blocks_def by blast
  have rb: "reads_blocks T D r2 bs" using r(3) t(2) ok(2) by (simp add: reads_blocks_def)
  have step: "get_entry_loop T r x = (case block_step T D h n d x of
       Inl e \<Rightarrow> Inl e
     | Inr (Continue x') \<Rightarrow> get_entry_loop T r2 x'
     | Inr (Item i) \<Rightarrow> rbind (finish_entry T h x i) (\<lambda>e. Inr (Some e, r2)))"
    using r(1,2) hd by (simp add: get_entry_loop.simps [of T r] block_step_def external_item_step)
  show ?case
  proof (cases "block_step T D h n d x")
    case (Inl e)
    then show ?thesis using step by simp
  next
    case (Inr st)
    show ?thesis
    proof (cases st)
      case (Item i)
      then show ?thesis using step Inr rb by (cases "finish_entry T h x i") auto
    next
      case (Continue x')
      then have eq: "get_entry_loop T r x = get_entry_loop T r2 x'" using step Inr by simp
      show ?thesis using "3.IH" [OF Inr Continue rb] Inr Continue unfolding eq by simp
    qed
  qed
qed

lemma layer_entries_refine:
  "reads_blocks T D r bs \<Longrightarrow> layer_entries T r = archive_entries T D bs"
proof (induction T D bs arbitrary: r rule: archive_entries.induct)
  case (1 T D bs)
  note g = get_entry_loop_refines [OF "1.prems", of no_extensions]
  show ?case
  proof (cases "archive_entry T D bs no_extensions")
    case (Inl e)
    then show ?thesis using g
      by (simp add: layer_entries.simps [of T r] archive_entries.simps [of T D bs] get_entry_def)
  next
    case (Inr y)
    obtain e bs' where y: "y = (e, bs')" by (cases y)
    then obtain r' where r': "get_entry_loop T r no_extensions = Inr (e, r')" "e \<noteq> None \<longrightarrow> reads_blocks T D r' bs'"
      using g Inr by auto
    show ?thesis
    proof (cases e)
      case None
      then show ?thesis using r' Inr y
        by (simp add: layer_entries.simps [of T r] archive_entries.simps [of T D bs] get_entry_def)
    next
      case (Some x)
      then show ?thesis using r' Inr y "1.IH" [OF Inr y [symmetric] Some, of r']
        by (simp add: layer_entries.simps [of T r] archive_entries.simps [of T D bs] get_entry_def)
    qed
  qed
qed

text \<open> C24: Importing a layer and reading it back gives the entries of the archive: after \<open>split\<close> and
  \<open>done\<close>, the loop over \<open>get_entry\<close> returns what reading the archive's own blocks returns, errors
  included, with every file of more than 64 bytes replaced by the fs-verity digest of its contents.
  The archive has to end with an end block. \<close>

theorem layer_reads_archive:
  assumes env: "env_ok hx K H" "store_inv hx H s" and Z: "zstd_laws Z" and H: "stream_alg H"
    and split: "tar_split T (ensure_object hx K H) archive (writer_new ct) s = Some (Inr w, s1)"
    and blocks: "tar_blocks T archive = Inr (bs @ [ZeroBlock])"
    and fl: "file_of Z H w = Some file" "length file < 2 ^ 64"
  shows "\<exists>r. reader_new Z H file (Some ct) = Inr r \<and>
    layer_entries T r = archive_entries T (fsverity_digest H 12) (bs @ [ZeroBlock])"
proof -
  let ?D = "fsverity_digest H 12"
  have ops: "run_ops (ensure_object hx K H) (writer_new ct) (tar_ops T archive) s = Some (Inr w, s1)"
    using tar_split_ops [OF split] by blast
  have rp: "rfold replay (writer_new ct) (map (op_entry ?D) (tar_ops T archive)) = Inr w"
    using run_ops_replay [of "store_inv hx H" "ensure_object hx K H" ?D, OF _ env(2) ops]
      ensure_object_result(1,3) [OF env(1)] by blast
  have "wrote w (map (op_piece ?D) (tar_ops T archive))" using replay_wrote [OF wrote_new rp] by simp
  then have wr: "wrote w (pieces T ?D (bs @ [ZeroBlock]))" using blocks by (simp add: tar_ops_def pieces_def)
  have wf: "writer_wf H w" "w_content_type w = ct"
    using replay_wf [of ?D H, OF _ writer_wf_new rp] length_fsverity_digest [OF env_ok_simps(3) [OF env(1)]]
    by (simp_all add: writer_new_def)
  obtain w1 where w1: "flush_inline w = Some w1" "reader_new Z H file (Some ct) = Inr (opened w1)"
    using file_of_opens [OF Z H wf(1) fl] wf(2) by auto
  have "reads_blocks T ?D (opened w1) (bs @ [ZeroBlock])"
    using opened_at [OF wr w1(1)] tar_blocks_data [OF blocks] by (simp add: reads_blocks_def terminated_def)
  then show ?thesis using layer_entries_refine w1(2) by blast
qed

lemma layer_reads_archive_witness:
  "\<exists>buf r es. reader_new plain_zstd toy_H buf (Some 7) = Inr r \<and> layer_entries toy_tar r = Inr es \<and>
     map te_item es = [TarLeaf (Regular (External (fsverity_digest toy_H 12 toy_content) 100))]"
proof -
  obtain s1 buf where s: "ensure_object hex_codec toy_K toy_H toy_content empty_repo = Some (Inr (fsverity_digest toy_H 12 toy_content), s1)"
    "file_of plain_zstd toy_H toy_writer = Some buf" "length buf = 1604"
    using toy_done by blast
  let ?b = "Block toy_header 100 (toy_content @ toy_padding)"
  have b: "tar_blocks toy_tar toy_archive = Inr ([?b] @ [ZeroBlock])" by (simp add: toy_blocks)
  obtain r where r: "reader_new plain_zstd toy_H buf (Some 7) = Inr r"
    "layer_entries toy_tar r = archive_entries toy_tar (fsverity_digest toy_H 12) ([?b] @ [ZeroBlock])"
    using layer_reads_archive [OF toy_env empty_repo_ok(1) plain_zstd_ok toy_tar_split [OF s(1)] b s(2)] s(3) by auto
  obtain es where "archive_entries toy_tar (fsverity_digest toy_H 12) ([?b] @ [ZeroBlock]) = Inr es"
      "map te_item es = [TarLeaf (Regular (External (fsverity_digest toy_H 12 toy_content) 100))]"
    by (simp add: archive_entries.simps [of _ _ "[?b, ZeroBlock]"] archive_entries.simps [of _ _ "[ZeroBlock]"]
        block_step_def is_external_def INLINE_CONTENT_MAX_def finish_entry_def toy_tar_def)
  then show ?thesis using r by (intro exI [of _ buf] exI [of _ r] exI [of _ es]) simp
qed

text \<open> A contiguous file (type 7) of more than 64 bytes does not survive: \<open>split\<close> stores its
  contents inline, and \<open>get_entry\<close> rejects the large inline file. \<close>

theorem continuous_file_rejected:
  assumes "reads_blocks T D r (Block h n d # bs)" and "entry_type T h = TContinuous" and "INLINE_CONTENT_MAX < unat n"
  shows "get_entry T r = Inl (LargeInline (unat n))"
proof -
  have "unat n \<le> length d"
    using assms(1) next_multiple_ge by (auto simp: reads_blocks_def block_ok_def)
  then have "block_step T D h n d no_extensions = Inl (LargeInline (unat n))"
    using assms(2,3) by (simp add: block_step_def is_external_def inline_item_def ensure_r_def)
  then show ?thesis using get_entry_loop_refines [OF assms(1), of no_extensions] by (simp add: get_entry_def)
qed

definition toy_reader :: reader where
  "toy_reader = \<lparr>decoder = (encode_chunks [Data (toy_header @ toy_content @ toy_padding @ zero_block)], True),
     inline_bytes = 0, r_content_type = 7, r_total_size = 1536, r_object_refs = [], r_named_refs = []\<rparr>"

lemma continuous_file_rejected_witness:
  "get_entry (toy_tar\<lparr>entry_type := (\<lambda>h. TContinuous)\<rparr>) toy_reader = Inl (LargeInline 100)"
proof -
  let ?T = "toy_tar\<lparr>entry_type := (\<lambda>h. TContinuous)\<rparr>" and ?b = "Block toy_header 100 (toy_content @ toy_padding)"
  have "next_multiple 100 = Some 512" by (simp add: next_multiple_def)
  then have ok: "block_ok ?T ?b" by (simp add: block_ok_def toy_tar_def)
  have "toy_content \<noteq> []" "toy_padding \<noteq> []" by (simp_all add: toy_content_def toy_padding_def)
  then have n: "norm (pieces ?T D [?b, ZeroBlock]) = [PData (toy_header @ toy_content @ toy_padding @ zero_block)]" for D
    by (simp add: is_external_def)
  have "reads_blocks ?T D toy_reader [?b, ZeroBlock]" for D
    using ok unfolding reads_blocks_def at_def n
    by (auto simp: toy_reader_def terminated_def chunk_ok_def piece_of_def I64_MAX_def block_ok_def
        intro!: exI [of _ "[Data (toy_header @ toy_content @ toy_padding @ zero_block)]"])
  from continuous_file_rejected [OF this [of "\<lambda>d. []"]] show ?thesis
    by (simp add: INLINE_CONTENT_MAX_def)
qed

end
