(* ===== verification/Repo_Links.thy ===== *)
theory Repo_Links
  imports Object_Store Rust_Path
begin

text \<open>
  The directories of symbolic links of a repository (\<open>images/\<close> and \<open>streams/\<close> of
  \<open>crates/composefs/src/repository.rs\<close>), the system calls that the code makes on them, and
  \<open>Repository::symlink\<close> with \<open>replace_symlinkat\<close> of \<open>util.rs\<close>.

  A path of the repository is a list of names. \<open>objects/\<close> is the map of the object store, seen
  as directories; everything else is the tree \<open>links\<close>. Paths are resolved as the kernel does: a
  link is followed from the directory that holds it, at most 40 times. What lies outside of the
  repository is not modelled, and a path that leads there is the error \<open>OutsideLinks\<close>.
\<close>

section \<open>Directories and links\<close>

datatype node = NLink bytes | NDir "(bytes \<times> node) list" | NOther

record link_repo = repo +
  links :: "(bytes \<times> node) list"

datatype errno = ENOENT | ENOTDIR | ELOOP | EEXIST | EISDIR | EINVAL

datatype path_error = Errno errno | OutsideLinks

datatype entry_kind = KDir | KFile | KLink bytes | KOther

fun find_node :: "(bytes \<times> node) list \<Rightarrow> bytes list \<Rightarrow> node option" where
  "find_node es [] = Some (NDir es)"
| "find_node es (n # p) = (case bt_get es n of
       Some (NDir ds) \<Rightarrow> find_node ds p
     | x \<Rightarrow> if p = [] then x else None)"

fun put_node :: "(bytes \<times> node) list \<Rightarrow> bytes list \<Rightarrow> bytes \<Rightarrow> node \<Rightarrow> (bytes \<times> node) list" where
  "put_node es [] n x = bt_insert n x es"
| "put_node es (m # d) n x = (case bt_get es m of
       Some (NDir ds) \<Rightarrow> bt_insert m (NDir (put_node ds d n x)) es
     | _ \<Rightarrow> es)"

fun del_node :: "(bytes \<times> node) list \<Rightarrow> bytes list \<Rightarrow> bytes \<Rightarrow> (bytes \<times> node) list" where
  "del_node es [] n = bt_remove n es"
| "del_node es (m # d) n = (case bt_get es m of
       Some (NDir ds) \<Rightarrow> bt_insert m (NDir (del_node ds d n)) es
     | _ \<Rightarrow> es)"

definition node_kind :: "node \<Rightarrow> entry_kind" where
  "node_kind x = (case x of NLink l \<Rightarrow> KLink l | NDir _ \<Rightarrow> KDir | NOther \<Rightarrow> KOther)"

definition OBJECTS :: bytes where "OBJECTS = ''objects''"

definition objects_kind :: "'z link_repo_scheme \<Rightarrow> bytes list \<Rightarrow> entry_kind option" where
  "objects_kind s q = (case q of
       [] \<Rightarrow> Some KDir
     | [d] \<Rightarrow> if list_ex (\<lambda>(p, f). starts_with (d @ ''/'') p) (objects s) then Some KDir else None
     | [d, b] \<Rightarrow> (if bt_get (objects s) (d @ ''/'' @ b) = None then None else Some KFile)
     | _ \<Rightarrow> None)"

definition entry_kind :: "'z link_repo_scheme \<Rightarrow> bytes list \<Rightarrow> entry_kind option" where
  "entry_kind s p = (case p of
       n # q \<Rightarrow> if n = OBJECTS then objects_kind s q else map_option node_kind (find_node (links s) p)
     | [] \<Rightarrow> Some KDir)"

section \<open>Resolving paths\<close>

definition MAXSYMLINKS :: nat where "MAXSYMLINKS = 40"

function resolve :: "nat \<Rightarrow> 'z link_repo_scheme \<Rightarrow> bytes list \<Rightarrow> component list \<Rightarrow> path_error + bytes list" where
  "resolve k s cur [] = Inr cur"
| "resolve k s cur (RootDir # cs) = Inl OutsideLinks"
| "resolve k s cur (CurDir # cs) = resolve k s cur cs"
| "resolve k s cur (ParentDir # cs) = (if cur = [] then Inl OutsideLinks else resolve k s (butlast cur) cs)"
| "resolve k s cur (Normal n # cs) = (case entry_kind s (cur @ [n]) of
       None \<Rightarrow> Inl (Errno ENOENT)
     | Some (KLink l) \<Rightarrow> (case k of 0 \<Rightarrow> Inl (Errno ELOOP) | Suc j \<Rightarrow> resolve j s cur (components l @ cs))
     | Some KDir \<Rightarrow> resolve k s (cur @ [n]) cs
     | Some _ \<Rightarrow> if cs = [] then Inr (cur @ [n]) else Inl (Errno ENOTDIR))"
  by pat_completeness auto
termination
  by (relation "measures [\<lambda>(k, s, cur, cs). k, \<lambda>(k, s, cur, cs). length cs]") auto

definition lookup_path :: "'z link_repo_scheme \<Rightarrow> bytes \<Rightarrow> path_error + bytes list" where
  "lookup_path s path = resolve MAXSYMLINKS s [] (components path)"

text \<open>The directory and the name that a call acts on when it does not follow the last component.\<close>

definition lookup_name :: "'z link_repo_scheme \<Rightarrow> bytes \<Rightarrow> path_error + (bytes list \<times> bytes)" where
  "lookup_name s path = (case rev (components path) of
       Normal n # ds \<Rightarrow> rbind (resolve MAXSYMLINKS s [] (rev ds)) (\<lambda>d.
         if entry_kind s d = Some KDir then Inr (d, n) else Inl (Errno ENOTDIR))
     | _ \<Rightarrow> Inl (Errno EINVAL))"

section \<open>System calls\<close>

definition dir_nodes :: "'z link_repo_scheme \<Rightarrow> bytes list \<Rightarrow> (bytes \<times> node) list" where
  "dir_nodes s d = (case find_node (links s) d of Some (NDir es) \<Rightarrow> es | _ \<Rightarrow> [])"

definition set_links :: "(bytes \<times> node) list \<Rightarrow> 'z link_repo_scheme \<Rightarrow> 'z link_repo_scheme" where
  "set_links es s = s\<lparr>links := es\<rparr>"

definition readlinkat :: "'z link_repo_scheme \<Rightarrow> bytes \<Rightarrow> path_error + bytes" where
  "readlinkat s path = rbind (lookup_name s path) (\<lambda>(d, n). case entry_kind s (d @ [n]) of
       Some (KLink l) \<Rightarrow> Inr l | Some _ \<Rightarrow> Inl (Errno EINVAL) | None \<Rightarrow> Inl (Errno ENOENT))"

text \<open>\<open>mkdirat\<close>; a path that ends in \<open>.\<close> or \<open>..\<close> names a directory that exists.\<close>

definition mkdirat :: "'z link_repo_scheme \<Rightarrow> bytes \<Rightarrow> path_error + 'z link_repo_scheme" where
  "mkdirat s path = (case lookup_name s path of
       Inr (d, n) \<Rightarrow> (if entry_kind s (d @ [n]) \<noteq> None then Inl (Errno EEXIST)
         else if d \<noteq> [] \<and> hd d = OBJECTS then Inl OutsideLinks
         else Inr (set_links (put_node (links s) d n (NDir [])) s))
     | Inl (Errno EINVAL) \<Rightarrow> rbind (lookup_path s path) (\<lambda>_. Inl (Errno EEXIST))
     | Inl e \<Rightarrow> Inl e)"

definition ensure_dir :: "'z link_repo_scheme \<Rightarrow> bytes \<Rightarrow> path_error + 'z link_repo_scheme" where
  "ensure_dir s dir = (case mkdirat s dir of Inl (Errno EEXIST) \<Rightarrow> Inr s | r \<Rightarrow> r)"

text \<open>
  \<open>replace_symlinkat\<close>: the new link takes the place of whatever has the name, in one step, unless that is a
  directory. The names that it tries for the temporary link are taken to be free.
\<close>

definition replace_symlinkat :: "'z link_repo_scheme \<Rightarrow> bytes \<Rightarrow> bytes \<Rightarrow> path_error + 'z link_repo_scheme" where
  "replace_symlinkat s target name = rbind (lookup_name s name) (\<lambda>(d, n).
     if d \<noteq> [] \<and> hd d = OBJECTS then Inl OutsideLinks
     else case entry_kind s (d @ [n]) of
         Some (KLink l) \<Rightarrow> if l = target then Inr s else Inr (set_links (put_node (links s) d n (NLink target)) s)
       | Some KDir \<Rightarrow> Inl (Errno EISDIR)
       | _ \<Rightarrow> Inr (set_links (put_node (links s) d n (NLink target)) s))"

section \<open>\<open>Repository::symlink\<close>\<close>

text \<open>The loop that removes common leading components; it panics when both run out together.\<close>

fun strip_common :: "bytes \<Rightarrow> component list \<Rightarrow> component list \<Rightarrow> (bytes \<times> component list \<times> component list) option" where
  "strip_common anc [] [] = None"
| "strip_common anc (a # as) (b # bs) =
     (if a = b then strip_common (push anc (component_bytes a)) as bs else Some (anc, a # as, b # bs))"
| "strip_common anc as bs = Some (anc, as, bs)"

definition relative_target :: "component list \<Rightarrow> component list \<Rightarrow> bytes" where
  "relative_target as bs = fold (\<lambda>c p. push p (component_bytes c)) bs (fold (\<lambda>c p. push p ''..'') as [])"

datatype link_error =
    Path path_error
  | LinkPanic

definition io_path :: "('s \<Rightarrow> path_error + 's) \<Rightarrow> (link_error, 's, unit) io" where
  "io_path f = (\<lambda>s. case f s of Inl e \<Rightarrow> Some (Inl (Path e), s) | Inr s' \<Rightarrow> Some (Inr (), s'))"

fun ensure_ancestors :: "bytes \<Rightarrow> component list \<Rightarrow> (link_error, 'z link_repo_scheme, unit) io" where
  "ensure_ancestors anc [] = io_return ()"
| "ensure_ancestors anc (c # cs) = (let anc' = push anc (component_bytes c) in
     io_bind (io_path (\<lambda>s. ensure_dir s anc')) (\<lambda>_. ensure_ancestors anc' cs))"

definition symlink :: "bytes \<Rightarrow> bytes \<Rightarrow> (link_error, 'z link_repo_scheme, unit) io" where
  "symlink name target =
     io_bind (io_lift (ok_or (Rust_Path.parent name) LinkPanic)) (\<lambda>par.
     io_bind (io_lift (ok_or (strip_common [] (components par) (components target)) LinkPanic)) (\<lambda>(anc, as, bs).
     io_bind (ensure_ancestors anc as) (\<lambda>_.
       io_path (\<lambda>s. replace_symlinkat s (relative_target as bs) name))))"

section \<open>Lemmas on trees\<close>

lemma bt_get_insert_any: "bt_get (bt_insert k v m) j = (if j = k then Some v else bt_get m j)"
  by (induction k v m rule: bt_insert.induct) (auto simp: bt_get_def)

definition is_dir_path :: "(bytes \<times> node) list \<Rightarrow> bytes list \<Rightarrow> bool" where
  "is_dir_path es d \<longleftrightarrow> (\<exists>ds. find_node es d = Some (NDir ds))"

lemma bt_get_Nil [simp]: "bt_get [] n = None"
  by (simp add: bt_get_def)

lemma is_dir_path_Nil [simp]: "is_dir_path es []"
  by (simp add: is_dir_path_def)

lemma is_dir_path_Cons [simp]: "is_dir_path es (m # d) \<longleftrightarrow> (\<exists>ds. bt_get es m = Some (NDir ds) \<and> is_dir_path ds d)"
proof (cases "bt_get es m")
  case (Some x)
  then show ?thesis by (cases x) (simp_all add: is_dir_path_def)
qed (simp add: is_dir_path_def)

lemma find_put_same: "is_dir_path es d \<Longrightarrow> find_node (put_node es d n x) (d @ [n]) = Some x"
  by (induction d arbitrary: es) (auto simp: bt_get_insert_any split: node.split)

text \<open>A leaf, or an empty directory, that replaces something other than a directory changes its own path only.\<close>

definition bare :: "node \<Rightarrow> bool" where
  "bare x \<longleftrightarrow> (\<forall>es. x = NDir es \<longrightarrow> es = [])"

lemma find_put_other:
  "is_dir_path es d \<Longrightarrow> bare x \<Longrightarrow> \<not> is_dir_path es (d @ [n]) \<Longrightarrow> p \<noteq> d @ [n] \<Longrightarrow>
     map_option node_kind (find_node (put_node es d n x) p) = map_option node_kind (find_node es p)"
proof (induction d arbitrary: es p)
  case Nil
  show ?case
  proof (cases p)
    case (Cons m q)
    show ?thesis
    proof (cases "m = n")
      case True
      then have "q \<noteq> []" using Nil.prems(4) Cons by simp
      then have "find_node (put_node es [] n x) p = None"
        using Nil.prems(2) Cons True by (cases x; cases q) (auto simp: bt_get_insert_any bare_def)
      moreover have "find_node es p = None"
        using Nil.prems(3) \<open>q \<noteq> []\<close> Cons True by (cases q) (auto split: option.split node.split)
      ultimately show ?thesis by simp
    qed (simp add: Cons bt_get_insert_any)
  qed (simp add: node_kind_def)
next
  case (Cons m d)
  then obtain ds where ds: "bt_get es m = Some (NDir ds)" "is_dir_path ds d" by auto
  show ?case
  proof (cases p)
    case (Cons m' q)
    show ?thesis
    proof (cases "m' = m")
      case True
      then have "q \<noteq> d @ [n]" using Cons.prems(4) Cons by simp
      moreover have "\<not> is_dir_path ds (d @ [n])" using Cons.prems(3) ds(1) by auto
      ultimately show ?thesis using Cons.IH [OF ds(2) Cons.prems(2)] ds(1) Cons True
        by (simp add: bt_get_insert_any)
    qed (simp add: Cons ds bt_get_insert_any)
  qed (simp add: ds node_kind_def)
qed

section \<open>Lemmas on states\<close>

definition in_links :: "bytes list \<Rightarrow> bool" where "in_links d \<longleftrightarrow> d = [] \<or> hd d \<noteq> OBJECTS"

lemma links_set_links [simp]: "links (set_links es s) = es" "objects (set_links es s) = objects s" "insecure (set_links es s) = insecure s"
  by (simp_all add: set_links_def)

lemma objects_kind_set_links [simp]: "objects_kind (set_links es s) q = objects_kind s q"
  by (auto simp: objects_kind_def split: list.split)

lemma entry_kind_links: "in_links p \<Longrightarrow> entry_kind s p = map_option node_kind (find_node (links s) p)"
  by (cases p) (simp_all add: entry_kind_def in_links_def node_kind_def)

lemma kind_dir_iff: "map_option node_kind x = Some KDir \<longleftrightarrow> (\<exists>ds. x = Some (NDir ds))"
  by (cases x) (auto simp: node_kind_def split: node.splits)

lemma entry_dir_iff: "in_links p \<Longrightarrow> entry_kind s p = Some KDir \<longleftrightarrow> is_dir_path (links s) p"
  by (simp only: entry_kind_links kind_dir_iff is_dir_path_def)

lemma in_links_snoc: "in_links (d @ [n]) \<Longrightarrow> in_links d"
  by (cases d) (auto simp: in_links_def)

lemma entry_kind_put:
  assumes "entry_kind s d = Some KDir" "in_links (d @ [n])" "bare x" "entry_kind s (d @ [n]) \<noteq> Some KDir"
  shows "entry_kind (set_links (put_node (links s) d n x) s) p = (if p = d @ [n] then Some (node_kind x) else entry_kind s p)"
proof -
  have d: "is_dir_path (links s) d" "\<not> is_dir_path (links s) (d @ [n])"
    using assms entry_dir_iff in_links_snoc [OF assms(2)] by blast+
  show ?thesis
  proof (cases "in_links p")
    case True
    show ?thesis
      using True find_put_same [OF d(1), of n x] find_put_other [OF d(1) assms(3) d(2), of p]
      by (auto simp: entry_kind_links)
  next
    case False
    then obtain q where "p = OBJECTS # q" by (cases p) (auto simp: in_links_def)
    then show ?thesis using assms(2) by (cases d) (auto simp: entry_kind_def in_links_def)
  qed
qed

lemma is_dir_path_append: "is_dir_path es (p @ q) \<Longrightarrow> is_dir_path es p"
  by (induction p arbitrary: es) auto

lemma entry_dir_append: "entry_kind s (p @ q) = Some KDir \<Longrightarrow> entry_kind s p = Some KDir"
proof (cases "in_links (p @ q)")
  case True
  moreover from True have "in_links p" by (cases p) (auto simp: in_links_def)
  moreover assume "entry_kind s (p @ q) = Some KDir"
  ultimately show ?thesis by (simp add: entry_dir_iff is_dir_path_append)
next
  case False
  assume k: "entry_kind s (p @ q) = Some KDir"
  show ?thesis
  proof (cases p)
    case (Cons m r)
    then have m: "m = OBJECTS" using False by (simp add: in_links_def)
    show ?thesis
    proof (cases r)
      case (Cons a t)
      then have "objects_kind s (a # t @ q) = Some KDir" using k \<open>p = m # r\<close> m by (simp add: entry_kind_def)
      then have "t = [] \<and> q = []" by (auto simp: objects_kind_def split: list.splits if_splits)
      then show ?thesis using k by simp
    qed (simp add: \<open>p = m # r\<close> m entry_kind_def objects_kind_def)
  qed (simp add: entry_kind_def)
qed

text \<open>Resolution looks at the kinds of entries only.\<close>

lemma resolve_cong: "(\<And>p. entry_kind s p = entry_kind s' p) \<Longrightarrow> resolve k s cur cs = resolve k s' cur cs"
  by (induction k s cur cs rule: resolve.induct) (auto split: option.split entry_kind.split nat.split)

lemma resolve_down: "entry_kind s (cur @ ns) = Some KDir \<Longrightarrow> resolve k s cur (map Normal ns @ cs) = resolve k s (cur @ ns) cs"
proof (induction ns arbitrary: cur)
  case (Cons n ns)
  then have "entry_kind s (cur @ [n]) = Some KDir" using entry_dir_append [of s "cur @ [n]" ns] by simp
  then show ?case using Cons.IH [of "cur @ [n]"] Cons.prems by simp
qed simp

lemma resolve_up: "j \<le> length cur \<Longrightarrow> resolve k s cur (replicate j ParentDir @ cs) = resolve k s (take (length cur - j) cur) cs"
proof (induction j arbitrary: cur)
  case (Suc j)
  then have "cur \<noteq> []" "j \<le> length (butlast cur)" by auto
  then show ?case using Suc.IH [of "butlast cur"] by (simp add: take_butlast)
qed simp

section \<open>Relative paths of names\<close>

abbreviation path_of :: "bytes list \<Rightarrow> bytes" where "path_of ns \<equiv> join_char SLASH ns"

definition plain_names :: "bytes list \<Rightarrow> bool" where "plain_names ns \<longleftrightarrow> (\<forall>n \<in> set ns. valid_name n)"

lemma components_pieces:
  assumes "\<forall>s \<in> set ps. s \<noteq> [] \<and> s \<noteq> ''.'' \<and> SLASH \<notin> set s"
  shows "components (path_of ps) = map parse_component ps"
proof -
  have "rebuild [] ps = path_of ps" by (simp add: rebuild_def)
  moreover have "filter real_piece ps = ps" using assms by (simp add: real_piece_def filter_id_conv)
  ultimately show ?thesis using components_rebuild [of ps "[]"] assms by (cases ps) auto
qed

lemma components_path_of: "plain_names ns \<Longrightarrow> components (path_of ns) = map Normal ns"
  by (subst components_pieces) (auto simp: plain_names_def valid_name_def parse_component_def)

lemma path_of_snoc: "xs \<noteq> [] \<Longrightarrow> path_of (xs @ [y]) = path_of xs @ SLASH # y"
proof (induction xs)
  case (Cons x xs)
  then show ?case by (cases xs) simp_all
qed simp

lemma push_path_of:
  assumes "\<forall>s \<in> set xs. s \<noteq> [] \<and> SLASH \<notin> set s" "\<not> has_root y"
  shows "push (path_of xs) y = path_of (xs @ [y])"
proof (cases xs rule: rev_cases)
  case (snoc ys z)
  have z: "z \<noteq> []" "SLASH \<notin> set z" using assms(1) snoc by auto
  have "path_of xs \<noteq> [] \<and> last (path_of xs) = last z"
  proof (cases "ys = []")
    case False
    then show ?thesis using snoc z by (simp add: path_of_snoc)
  qed (use snoc z in simp)
  moreover have "last z \<noteq> SLASH" using z by (metis last_in_set)
  ultimately show ?thesis using assms(2) path_of_snoc [of xs y] snoc by (simp add: push_def)
qed (use assms(2) in \<open>simp add: push_def\<close>)

lemma relative_target_components:
  assumes "plain_names as" "plain_names bs"
  shows "components (relative_target (map Normal as) (map Normal bs)) = replicate (length as) ParentDir @ map Normal bs"
proof -
  have up: "fold (\<lambda>c p. push p ''..'') cs (path_of (replicate k ''..'')) = path_of (replicate (k + length cs) ''..'')" for cs :: "component list" and k
  proof (induction cs arbitrary: k)
    case (Cons c cs)
    have "push (path_of (replicate k ''..'')) ''..'' = path_of (replicate k ''..'' @ [''..''])"
      by (rule push_path_of) (auto simp: has_root_def)
    then have "push (path_of (replicate k ''..'')) ''..'' = path_of (replicate (Suc k) ''..'')"
      using replicate_append_same [of k "''..''"] by (simp only: replicate_Suc)
    then show ?case using Cons.IH [of "Suc k"] by (simp del: replicate_Suc)
  qed simp
  have down: "fold (\<lambda>c p. push p (component_bytes c)) (map Normal ns) (path_of xs) = path_of (xs @ ns)"
    if "\<forall>s \<in> set xs. s \<noteq> [] \<and> SLASH \<notin> set s" "plain_names ns" for xs ns
    using that
  proof (induction ns arbitrary: xs)
    case (Cons n ns)
    have v: "valid_name n" using Cons.prems(2) by (simp add: plain_names_def)
    then have n: "n \<noteq> [] \<and> SLASH \<notin> set n" by (simp add: valid_name_def)
    then have "\<not> has_root n" by (metis has_root_def list.set_sel(1))
    note n = n this
    have "push (path_of xs) n = path_of (xs @ [n])" by (rule push_path_of [OF Cons.prems(1) n(2)])
    then show ?case using Cons.IH [of "xs @ [n]"] Cons.prems n by (simp add: component_bytes_def plain_names_def)
  qed simp
  have "relative_target (map Normal as) (map Normal bs) = path_of (replicate (length as) ''..'' @ bs)"
    using up [where k = 0 and cs = "map Normal as"] down [OF _ assms(2), where xs = "replicate (length as) ''..''"]
    by (simp add: relative_target_def)
  moreover have "s \<noteq> [] \<and> s \<noteq> ''.'' \<and> SLASH \<notin> set s" if "s \<in> set (replicate (length as) ''..'' @ bs)" for s
  proof (cases "s \<in> set bs")
    case True
    then show ?thesis using assms(2) by (simp add: plain_names_def valid_name_def)
  next
    case False
    then have "s = ''..''" using that by (simp add: in_set_replicate)
    then show ?thesis by simp
  qed
  then have "components (path_of (replicate (length as) ''..'' @ bs)) = map parse_component (replicate (length as) ''..'' @ bs)"
    by (intro components_pieces) blast
  moreover have "map parse_component bs = map Normal bs" using assms(2) by (simp add: plain_names_def)
  ultimately show ?thesis by (simp add: parse_component_def)
qed

lemma strip_common_names:
  assumes "strip_common anc (map Normal as) (map Normal bs) = Some (anc', cs, ds)"
  obtains c as' bs' where "as = c @ as'" "bs = c @ bs'" "cs = map Normal as'" "ds = map Normal bs'"
proof -
  have "\<exists>c as' bs'. as = c @ as' \<and> bs = c @ bs' \<and> cs = map Normal as' \<and> ds = map Normal bs'"
    using assms
  proof (induction as arbitrary: anc bs)
    case (Cons a as)
    show ?case
    proof (cases "\<exists>bs'. bs = a # bs'")
      case True
      then obtain bs' where bs: "bs = a # bs'" by blast
      then obtain c as' bs'' where "as = c @ as'" "bs' = c @ bs''" "cs = map Normal as'" "ds = map Normal bs''"
        using Cons.IH [of "push anc (component_bytes (Normal a))" bs'] Cons.prems by auto
      then show ?thesis unfolding bs by (metis append_Cons)
    next
      case False
      then have "cs = map Normal (a # as)" "ds = map Normal bs" using Cons.prems by (cases bs; auto split: if_splits)+
      then show ?thesis by (metis append_Nil)
    qed
  next
    case Nil
    then show ?case by (cases bs) auto
  qed
  then show ?thesis using that by blast
qed

lemma parent_path_of: "plain_names ns \<Longrightarrow> valid_name n \<Longrightarrow> \<exists>p. Rust_Path.parent (path_of (ns @ [n])) = Some p \<and> components p = map Normal ns"
proof -
  assume v: "plain_names ns" "valid_name n"
  then have c: "components (path_of (ns @ [n])) = map Normal (ns @ [n])" by (intro components_path_of) (simp add: plain_names_def)
  then have "file_name (path_of (ns @ [n])) = Some n" by (simp add: file_name_Some)
  from parent_of_file [OF this] show ?thesis using c by auto
qed

section \<open>What a link leads to\<close>

lemma in_links_prefix: "in_links (p @ q) \<Longrightarrow> in_links p"
  by (cases p) (auto simp: in_links_def)

lemma replace_symlinkat_Inr:
  assumes "replace_symlinkat s target name = Inr s'"
  obtains d n where "lookup_name s name = Inr (d, n)" "entry_kind s d = Some KDir" "in_links d"
    "d @ [n] \<noteq> [OBJECTS]" "entry_kind s (d @ [n]) \<noteq> Some KDir"
    "\<And>p. entry_kind s' p = (if p = d @ [n] then Some (KLink target) else entry_kind s p)"
proof -
  obtain d n where dn: "lookup_name s name = Inr (d, n)" using assms
    by (cases "lookup_name s name") (auto simp: replace_symlinkat_def)
  then have d: "entry_kind s d = Some KDir"
    by (auto simp: lookup_name_def rbind_def split: list.splits component.splits sum.splits if_splits)
  have r: "(if d \<noteq> [] \<and> hd d = OBJECTS then Inl OutsideLinks
     else case entry_kind s (d @ [n]) of
         Some (KLink l) \<Rightarrow> if l = target then Inr s else Inr (set_links (put_node (links s) d n (NLink target)) s)
       | Some KDir \<Rightarrow> Inl (Errno EISDIR)
       | _ \<Rightarrow> Inr (set_links (put_node (links s) d n (NLink target)) s)) = Inr s'"
    using assms dn by (simp add: replace_symlinkat_def)
  have il: "in_links d" using r by (auto simp: in_links_def split: if_splits)
  have nd: "entry_kind s (d @ [n]) \<noteq> Some KDir" using r by (auto split: if_splits)
  then have no: "d @ [n] \<noteq> [OBJECTS]" by (auto simp: entry_kind_def objects_kind_def)
  then have il2: "in_links (d @ [n])" using il by (cases d) (auto simp: in_links_def)
  have "s' = s \<and> entry_kind s (d @ [n]) = Some (KLink target) \<or> s' = set_links (put_node (links s) d n (NLink target)) s"
    using r by (auto split: if_splits option.splits entry_kind.splits)
  then have "entry_kind s' p = (if p = d @ [n] then Some (KLink target) else entry_kind s p)" for p
    using entry_kind_put [OF d il2 _ nd, of "NLink target" p] by (auto simp: bare_def node_kind_def)
  then show ?thesis using that dn d il no nd by blast
qed

lemma io_path_Inr: "io_path f s = Some (Inr (), s') \<longleftrightarrow> f s = Inr s'"
  by (simp add: io_path_def split: sum.split)

lemma symlink_Inr:
  assumes "symlink name target s = Some (Inr (), s')"
  obtains par anc as bs s1 where "Rust_Path.parent name = Some par"
    "strip_common [] (components par) (components target) = Some (anc, as, bs)"
    "ensure_ancestors anc as s = Some (Inr (), s1)" "replace_symlinkat s1 (relative_target as bs) name = Inr s'"
  using assms unfolding symlink_def io_bind_Inr_iff
  by (auto simp: io_lift_def ok_or_def io_path_Inr io_bind_Inr_iff split: option.splits)

text \<open>The directories of the name must not be links themselves: the relative path is computed from names alone.\<close>

lemma symlink_resolve:
  assumes v: "plain_names ns" "valid_name n" "plain_names ts"
    and run: "symlink (path_of (ns @ [n])) (path_of ts) s = Some (Inr (), s')" and dir: "entry_kind s' ns = Some KDir"
  shows "resolve (Suc k) s' [] (map Normal (ns @ [n]) @ cs) = resolve k s' [] (map Normal ts @ cs)"
    and "entry_kind s' (ns @ [n]) \<noteq> None"
proof -
  obtain par anc as bs s1 where par: "Rust_Path.parent (path_of (ns @ [n])) = Some par"
    and sc: "strip_common [] (components par) (components (path_of ts)) = Some (anc, as, bs)"
    and r: "replace_symlinkat s1 (relative_target as bs) (path_of (ns @ [n])) = Inr s'" by (rule symlink_Inr [OF run])
  have cp: "components par = map Normal ns" using parent_path_of [OF v(1,2)] par by simp
  obtain c as' bs' where c: "ns = c @ as'" "ts = c @ bs'" "as = map Normal as'" "bs = map Normal bs'"
    by (rule strip_common_names [OF sc [unfolded cp components_path_of [OF v(3)]]])
  obtain d m where d: "lookup_name s1 (path_of (ns @ [n])) = Inr (d, m)"
    and k': "\<And>p. entry_kind s' p = (if p = d @ [m] then Some (KLink (relative_target as bs)) else entry_kind s1 p)"
    using replace_symlinkat_Inr [OF r] by metis
  have comps: "components (path_of (ns @ [n])) = map Normal ns @ [Normal n]"
    using v(1,2) components_path_of [of "ns @ [n]"] by (simp add: plain_names_def)
  have "entry_kind s1 ns = Some KDir" using dir k' [of ns] by (auto split: if_splits)
  then have dm: "d = ns" "m = n"
    using d resolve_down [of s1 "[]" ns MAXSYMLINKS "[]"] by (auto simp: lookup_name_def comps)
  have link: "entry_kind s' (ns @ [n]) = Some (KLink (relative_target as bs))" using k' dm by simp
  then show "entry_kind s' (ns @ [n]) \<noteq> None" by simp
  have rel: "components (relative_target as bs) = replicate (length as') ParentDir @ map Normal bs'"
    unfolding c by (rule relative_target_components) (use v c in \<open>auto simp: plain_names_def\<close>)
  have "resolve (Suc k) s' [] (map Normal (ns @ [n]) @ cs) = resolve (Suc k) s' ns (Normal n # cs)"
    using resolve_down [of s' "[]" ns "Suc k" "Normal n # cs"] dir by simp
  also have "\<dots> = resolve k s' ns (replicate (length as') ParentDir @ map Normal bs' @ cs)" using link rel by simp
  also have "\<dots> = resolve k s' c (map Normal bs' @ cs)"
    using resolve_up [of "length as'" ns k s' "map Normal bs' @ cs"] c(1) by simp
  also have "\<dots> = resolve k s' [] (map Normal ts @ cs)"
    using resolve_down [of s' "[]" c k "map Normal bs' @ cs"] entry_dir_append [of s' c as'] dir c(1,2) by simp
  finally show "resolve (Suc k) s' [] (map Normal (ns @ [n]) @ cs) = resolve k s' [] (map Normal ts @ cs)" .
qed

end
