(* ===== verification/Oci_Image.thy ===== *)
theory Oci_Image
  imports Oci_Layer Repo_Links
begin

text \<open>
  Models \<open>process_entry\<close> of \<open>crates/composefs-oci/src/image.rs\<close>: applying one entry of a layer to the
  filesystem tree, with the whiteouts of the layer format. The properties compare the tree with a
  map from paths to nodes, on which a layer acts as the OCI image specification says.
\<close>

section \<open>Processing an entry\<close>

datatype layer_error =
    Image image_error
  | NotADirectoryEntry bytes

definition tar_inode :: "regular_file filesystem \<Rightarrow> tar_entry \<Rightarrow> layer_error + inode \<times> regular_file leaf list" where
  "tar_inode fs e = (case te_item e of
       TarDirectory \<Rightarrow> Inr (IDirectory (directory_new (te_stat e)), heap fs)
     | TarLeaf c \<Rightarrow> Inr (ILeaf (length (heap fs)), heap fs @ [\<lparr>leaf_stat = te_stat e, content = c\<rparr>])
     | TarHardlink target \<Rightarrow>
         rbind (map_err Image (Generic_Tree.split (root fs) target)) (\<lambda>(dir, filename).
         rbind (map_err Image (ref_leaf dir filename)) (\<lambda>r. Inr (ILeaf r, heap fs))))"

definition place_entry :: "bytes \<Rightarrow> inode \<Rightarrow> directory \<Rightarrow> directory" where
  "place_entry filename inode dir = (case strip_prefix ''.wh.'' filename of
       Some whiteout \<Rightarrow> if whiteout = ''.wh..opq'' then clear dir else remove whiteout dir
     | None \<Rightarrow> merge filename inode dir)"

definition process_entry :: "regular_file filesystem \<Rightarrow> tar_entry \<Rightarrow> layer_error + regular_file filesystem" where
  "process_entry fs e =
     (if file_name (te_path e) = None then
        rbind (ensure_r (te_item e = TarDirectory) (NotADirectoryEntry (te_path e))) (\<lambda>_.
          Inr (set_root_stat (te_stat e) fs))
      else rbind (tar_inode fs e) (\<lambda>(inode, h).
        rbind (map_err Image (split_mut (root fs) (te_path e))) (\<lambda>((dir, put), filename).
          Inr (fs\<lparr>root := put (place_entry filename inode dir), heap := h\<rparr>))))"

fun process_entries :: "regular_file filesystem \<Rightarrow> tar_entry list \<Rightarrow> layer_error + regular_file filesystem" where
  "process_entries fs [] = Inr fs"
| "process_entries fs (e # es) = rbind (process_entry fs e) (\<lambda>fs'. process_entries fs' es)"

section \<open>Layers on a map of paths\<close>

text \<open>
  What a path leads to: the metadata of a directory, or a leaf. A path is the list of its names, and the
  map has a value for every prefix of a path that has one.
\<close>

datatype fnode = DirNode stat | LeafNode rc

type_synonym path_map = "bytes list \<Rightarrow> fnode option"

fun node_at :: "directory \<Rightarrow> path_map" where
  "node_at d [] = Some (DirNode (dstat d))"
| "node_at d (n # ns) = (case bt_get (entries d) n of
       Some (IDirectory s) \<Rightarrow> node_at s ns
     | Some (ILeaf r) \<Rightarrow> if ns = [] then Some (LeafNode r) else None
     | None \<Rightarrow> None)"

definition path_names :: "component list \<Rightarrow> bytes list option" where
  "path_names cs = (if CurDir \<in> set cs \<or> ParentDir \<in> set cs then None else Some (normals cs))"

definition is_dir_node :: "fnode option \<Rightarrow> bool" where
  "is_dir_node x \<longleftrightarrow> (case x of Some (DirNode _) \<Rightarrow> True | _ \<Rightarrow> False)"

lemma is_dir_node_iff: "is_dir_node x \<longleftrightarrow> (\<exists>st. x = Some (DirNode st))"
  by (auto simp: is_dir_node_def split: option.splits fnode.splits)

definition drop_tree :: "bytes list \<Rightarrow> path_map \<Rightarrow> path_map" where
  "drop_tree p m = (\<lambda>q. if prefix p q then None else m q)"

definition drop_below :: "bytes list \<Rightarrow> path_map \<Rightarrow> path_map" where
  "drop_below p m = (\<lambda>q. if strict_prefix p q then None else m q)"

text \<open>Placing a node in a directory: a directory keeps what an old one holds, everything else replaces.\<close>

definition put_at :: "bytes list \<Rightarrow> fnode \<Rightarrow> path_map \<Rightarrow> path_map" where
  "put_at p x m = (if is_dir_node (Some x) \<and> is_dir_node (m p) then m(p \<mapsto> x) else (drop_tree p m)(p \<mapsto> x))"

definition layer_node :: "path_map \<Rightarrow> nat \<Rightarrow> tar_entry \<Rightarrow> fnode option" where
  "layer_node m fresh e = (case te_item e of
       TarDirectory \<Rightarrow> Some (DirNode (te_stat e))
     | TarLeaf _ \<Rightarrow> Some (LeafNode fresh)
     | TarHardlink target \<Rightarrow> (case file_name target of
         None \<Rightarrow> None
       | Some _ \<Rightarrow> (case Option.bind (path_names (components target)) m of
           Some (LeafNode r) \<Rightarrow> Some (LeafNode r) | _ \<Rightarrow> None)))"

definition layer_step :: "path_map \<Rightarrow> nat \<Rightarrow> tar_entry \<Rightarrow> path_map option" where
  "layer_step m fresh e = (case file_name (te_path e) of
       None \<Rightarrow> if te_item e = TarDirectory then Some (m([] \<mapsto> DirNode (te_stat e))) else None
     | Some n \<Rightarrow> (case (layer_node m fresh e, path_names (components (te_path e))) of
         (Some x, Some p) \<Rightarrow>
           if \<not> is_dir_node (m (butlast p)) then None
           else (case strip_prefix ''.wh.'' n of
               Some w \<Rightarrow> Some (if w = ''.wh..opq'' then drop_below (butlast p) m else drop_tree (butlast p @ [w]) m)
             | None \<Rightarrow> Some (put_at p x m))
       | _ \<Rightarrow> None))"

section \<open>Paths into the tree\<close>

lemma path_names_Cons: "path_names (c # cs) = (case c of Normal n \<Rightarrow> map_option (Cons n) (path_names cs)
    | RootDir \<Rightarrow> path_names cs | _ \<Rightarrow> None)"
  by (cases c) (auto simp: path_names_def)

lemma path_names_Nil [simp]: "path_names [] = Some []"
  by (simp add: path_names_def)

lemma path_names_append: "path_names (cs @ [Normal n]) = map_option (\<lambda>ns. ns @ [n]) (path_names cs)"
  by (induction cs) (auto simp: path_names_Cons option.map_comp comp_def split: component.split)

text \<open>The directory at a list of names, with the function that puts it back.\<close>

lemma node_at_append: "node_at d ps = Some (DirNode st) \<Longrightarrow> \<exists>s. dstat s = st \<and> (\<forall>q. node_at d (ps @ q) = node_at s q)"
  by (induction d ps rule: node_at.induct) (auto split: option.splits inode_of.splits if_splits)

lemma walk_opt_names:
  "walk_opt p cs d = Inr (Some s) \<Longrightarrow> \<exists>ns. path_names cs = Some ns \<and> (\<forall>q. node_at d (ns @ q) = node_at s q)"
proof (induction p cs d rule: walk_opt.induct)
  case (5 p n cs d)
  then show ?case by (auto simp: path_names_Cons split: option.splits inode_of.splits)
qed (auto simp: path_names_Cons)

lemma names_walk_opt:
  "path_names cs = Some ns \<Longrightarrow> node_at d ns = Some (DirNode st) \<Longrightarrow> \<exists>s. walk_opt p cs d = Inr (Some s)"
proof (induction p cs d arbitrary: ns rule: walk_opt.induct)
  case (5 p n cs d)
  then obtain ms where ms: "path_names cs = Some ms" "ns = n # ms" by (auto simp: path_names_Cons)
  then obtain x where x: "bt_get (entries d) n = Some x" using "5.prems"(2) by (auto split: option.splits)
  show ?case
  proof (cases x)
    case (IDirectory s)
    then show ?thesis using "5.IH" [OF x IDirectory ms(1)] "5.prems"(2) ms x by simp
  next
    case (ILeaf r)
    then show ?thesis using "5.prems"(2) ms x by (simp split: if_splits)
  qed
qed (auto simp: path_names_Cons)

lemma walk_opt_mut: "walk_opt p cs d = Inr (Some s) \<Longrightarrow> \<exists>put. walk_mut p cs d = Inr (s, put)"
  by (induction p cs d rule: walk_opt.induct) (auto split: option.splits inode_of.splits)

lemma node_at_put:
  "walk_mut p cs d = Inr (s, put) \<Longrightarrow> path_names cs = Some ns \<Longrightarrow>
     node_at (put s') q = (if prefix ns q then node_at s' (drop (length ns) q) else node_at d q)"
proof (induction p cs d arbitrary: s put ns q rule: walk_mut.induct)
  case (5 p f cs d)
  obtain sub put' where b: "bt_get (entries d) f = Some (IDirectory sub)" "walk_mut p cs sub = Inr (s, put')"
    "put = (\<lambda>s'. set_entries (bt_insert f (IDirectory (put' s')) (entries d)) d)"
    using "5.prems"(1) by (rule walk_mut_NormalE)
  obtain ms where ms: "path_names cs = Some ms" "ns = f # ms" using "5.prems"(2) by (auto simp: path_names_Cons)
  show ?case
  proof (cases q)
    case (Cons g qs)
    show ?thesis using "5.IH" [OF b(1) refl b(2) ms(1), of qs] b ms Cons by (auto simp: bt_get_insert_any)
  qed (simp add: b(3) ms(2))
qed (auto simp: path_names_Cons)

lemma get_directory_names:
  "get_directory d p = Inr s \<Longrightarrow> \<exists>ns. path_names (components p) = Some ns \<and> (\<forall>q. node_at d (ns @ q) = node_at s q)"
  using walk_opt_names [of p "components p" d s]
  by (auto simp: get_directory_def get_directory_opt_def rbind_eq_Inr_iff split: option.splits)

lemma names_get_directory:
  "path_names (components p) = Some ns \<Longrightarrow> is_dir_node (node_at d ns) \<Longrightarrow> \<exists>s. get_directory d p = Inr s"
  using names_walk_opt [of "components p" ns d _ p]
  by (auto simp: is_dir_node_iff get_directory_def get_directory_opt_def)

lemma node_at_parent: "node_at d (ps @ [n]) \<noteq> None \<Longrightarrow> is_dir_node (node_at d ps)"
  by (induction d ps rule: node_at.induct) (auto simp: is_dir_node_iff split: option.splits inode_of.splits)

section \<open>One directory\<close>

fun node_of :: "inode \<Rightarrow> fnode" where
  "node_of (IDirectory d) = DirNode (dstat d)"
| "node_of (ILeaf r) = LeafNode r"

definition fresh_inode :: "inode \<Rightarrow> bool" where
  "fresh_inode i \<longleftrightarrow> (\<forall>d. i = IDirectory d \<longrightarrow> entries d = [])"

lemma node_at_single: "node_at d [n] = map_option node_of (bt_get (entries d) n)"
  by (auto split: option.split inode_of.split)

lemma node_at_empty: "entries d = [] \<Longrightarrow> node_at d q = (if q = [] then Some (DirNode (dstat d)) else None)"
  by (cases q) simp_all

lemma node_at_set_stat: "node_at (set_stat st d) = (node_at d)([] \<mapsto> DirNode st)"
proof
  fix q show "node_at (set_stat st d) q = ((node_at d)([] \<mapsto> DirNode st)) q" by (cases q) auto
qed

lemma node_at_clear: "node_at (clear d) = drop_below [] (node_at d)"
proof
  fix q show "node_at (clear d) q = drop_below [] (node_at d) q"
    by (cases q) (simp_all add: clear_def drop_below_def node_at_empty)
qed

lemma node_at_remove: "bt_wf (entries d) \<Longrightarrow> node_at (remove w d) = drop_tree [w] (node_at d)"
proof
  fix q assume "bt_wf (entries d)"
  then show "node_at (remove w d) q = drop_tree [w] (node_at d) q"
    by (cases q) (auto simp: remove_def drop_tree_def bt_get_remove)
qed

lemma node_at_insert:
  assumes "fresh_inode i"
  shows "node_at (insert n i d) = (drop_tree [n] (node_at d))([n] \<mapsto> node_of i)"
proof
  fix q show "node_at (insert n i d) q = ((drop_tree [n] (node_at d))([n] \<mapsto> node_of i)) q"
  proof (cases q)
    case (Cons m qs)
    show ?thesis
      using assms by (cases i; cases qs) (auto simp: insert_def drop_tree_def Cons bt_get_insert_any fresh_inode_def)
  qed (simp add: drop_tree_def insert_def)
qed

lemma node_at_merge:
  assumes "fresh_inode i"
  shows "node_at (merge n i d) = put_at [n] (node_of i) (node_at d)"
proof (cases "\<exists>new old. i = IDirectory new \<and> bt_get (entries d) n = Some (IDirectory old)")
  case True
  then obtain new old where i: "i = IDirectory new" "bt_get (entries d) n = Some (IDirectory old)" by blast
  have "node_at (merge n i d) q = ((node_at d)([n] \<mapsto> node_of i)) q" for q
  proof (cases q)
    case (Cons m qs)
    show ?thesis using i by (cases qs) (auto simp: merge_def Cons bt_get_insert_any node_at_set_stat)
  qed (simp add: merge_def i)
  moreover have "put_at [n] (node_of i) (node_at d) = (node_at d)([n] \<mapsto> node_of i)"
    using i by (simp add: put_at_def is_dir_node_iff node_at_single)
  ultimately show ?thesis by auto
next
  case False
  then have "merge n i d = insert n i d"
    by (auto simp: merge_def split: inode_of.splits option.splits)
  moreover have "put_at [n] (node_of i) (node_at d) = (drop_tree [n] (node_at d))([n] \<mapsto> node_of i)"
    using False by (cases i) (auto simp: put_at_def is_dir_node_iff node_at_single simp del: node_at.simps elim!: node_of.elims)
  ultimately show ?thesis using node_at_insert [OF assms] by simp
qed

text \<open>An operation at a directory of the tree, seen from the root.\<close>

definition at_dir :: "bytes list \<Rightarrow> (path_map \<Rightarrow> path_map) \<Rightarrow> path_map \<Rightarrow> path_map" where
  "at_dir ds f m = (\<lambda>q. if prefix ds q then f (\<lambda>q'. m (ds @ q')) (drop (length ds) q) else m q)"

lemma at_dir_ops:
  "at_dir ds (drop_below []) m = drop_below ds m"
  "at_dir ds (drop_tree [w]) m = drop_tree (ds @ [w]) m"
  "at_dir ds (put_at [n] x) m = put_at (ds @ [n]) x m"
proof -
  have p: "prefix ds q \<longleftrightarrow> (\<exists>q'. q = ds @ q')" for q :: "bytes list" by (auto simp: prefix_def)
  show "at_dir ds (drop_below []) m = drop_below ds m"
    by (rule ext) (auto simp: at_dir_def drop_below_def p strict_prefix_def)
  show t: "at_dir ds (drop_tree [w]) m = drop_tree (ds @ [w]) m" for w
    by (rule ext) (auto simp: at_dir_def drop_tree_def p prefix_def)
  show "at_dir ds (put_at [n] x) m = put_at (ds @ [n]) x m"
  proof
    fix q
    show "at_dir ds (put_at [n] x) m q = put_at (ds @ [n]) x m q"
      using fun_cong [OF t [of n], of q] by (auto simp: put_at_def at_dir_def p drop_tree_def)
  qed
qed

section \<open>The tree refines the map\<close>

lemma node_at_place:
  assumes "bt_wf (entries d)" "fresh_inode i"
  shows "node_at (place_entry n i d) = (case strip_prefix ''.wh.'' n of
     Some w \<Rightarrow> if w = ''.wh..opq'' then drop_below [] (node_at d) else drop_tree [w] (node_at d)
   | None \<Rightarrow> put_at [n] (node_of i) (node_at d))"
  using assms by (simp add: place_entry_def node_at_clear node_at_remove node_at_merge split: option.split)

lemma tar_inode_names:
  shows "tar_inode fs e = Inr (i, h) \<Longrightarrow> fresh_inode i \<and> layer_node (node_at (root fs)) (length (heap fs)) e = Some (node_of i) \<and>
      length h = length (heap fs) + (case te_item e of TarLeaf _ \<Rightarrow> 1 | _ \<Rightarrow> 0)"
    and "tar_inode fs e = Inl err \<Longrightarrow> layer_node (node_at (root fs)) (length (heap fs)) e = None"
proof -
  let ?m = "node_at (root fs)"
  have link: "(case file_name t of None \<Rightarrow> None | Some _ \<Rightarrow> (case Option.bind (path_names (components t)) ?m of
           Some (LeafNode r) \<Rightarrow> Some (LeafNode r) | _ \<Rightarrow> None)) =
       (case rbind (Generic_Tree.split (root fs) t) (\<lambda>(dir, f). ref_leaf dir f) of Inr r \<Rightarrow> Some (LeafNode r) | Inl _ \<Rightarrow> None)" for t
  proof (cases "file_name t")
    case (Some f)
    obtain p where p: "parent t = Some p" "components t = components p @ [Normal f]" using parent_of_file [OF Some] by blast
    show ?thesis
    proof (cases "get_directory (root fs) p")
      case (Inr dir)
      then obtain ns where ns: "path_names (components p) = Some ns" "\<forall>q. ?m (ns @ q) = node_at dir q"
        using get_directory_names by blast
      have "?m (ns @ [f]) = map_option node_of (bt_get (entries dir) f)" using ns(2) node_at_single [of dir f] by simp
      then show ?thesis using Some p Inr ns(1)
        by (auto simp: Generic_Tree.split_def path_names_append ref_leaf_def split: option.split inode_of.split)
    next
      case (Inl x)
      have "\<not> is_dir_node (?m ns)" if "path_names (components p) = Some ns" for ns
        using names_get_directory [OF that] Inl by fastforce
      then have "?m (ns @ [f]) = None" if "path_names (components p) = Some ns" for ns
        using node_at_parent [of "root fs" ns f] that by blast
      then show ?thesis using Some p Inl
        by (cases "path_names (components p)") (auto simp: Generic_Tree.split_def path_names_append)
    qed
  qed (simp add: Generic_Tree.split_def)
  show "tar_inode fs e = Inr (i, h) \<Longrightarrow> fresh_inode i \<and> layer_node ?m (length (heap fs)) e = Some (node_of i) \<and>
      length h = length (heap fs) + (case te_item e of TarLeaf _ \<Rightarrow> 1 | _ \<Rightarrow> 0)"
    using link by (auto simp: tar_inode_def layer_node_def fresh_inode_def directory_new_def rbind_eq_Inr_iff split: tar_item.splits)
  assume err: "tar_inode fs e = Inl err"
  then obtain t where t: "te_item e = TarHardlink t" by (cases "te_item e") (simp_all add: tar_inode_def)
  show "layer_node ?m (length (heap fs)) e = None"
  proof (cases "rbind (Generic_Tree.split (root fs) t) (\<lambda>(dir, f). ref_leaf dir f)")
    case (Inr r)
    then show ?thesis using err t by (auto simp: tar_inode_def rbind_eq_Inr_iff)
  qed (use link [of t] t in \<open>simp add: layer_node_def\<close>)
qed

lemma tar_inode_wf:
  assumes "tar_inode fs e = Inr (i, h)" "dir_wf (length (heap fs)) (root fs)" "bt_wf (xattrs (te_stat e))"
  shows "inode_wf (length h) i"
proof (cases "te_item e")
  case (TarHardlink t)
  then obtain dir f r where d: "Generic_Tree.split (root fs) t = Inr (dir, f)" "ref_leaf dir f = Inr r" "i = ILeaf r" "h = heap fs"
    using assms(1) by (auto simp: tar_inode_def rbind_eq_Inr_iff)
  then have "bt_get (entries dir) f = Some (ILeaf r)" by (auto simp: ref_leaf_def split: option.splits inode_of.splits)
  moreover obtain p where "dir = root fs \<or> get_directory (root fs) p = Inr dir"
    using d(1) by (auto simp: Generic_Tree.split_def rbind_eq_Inr_iff split: option.splits)
  then have "dir_wf (length h) dir" using assms(2) d(4) dir_wf_walk_opt
    by (auto simp: get_directory_def get_directory_opt_def rbind_eq_Inr_iff split: option.splits)
  ultimately show ?thesis using dir_wf_get d(3) by blast
qed (use assms in \<open>auto simp: tar_inode_def\<close>)

lemma put_at_dir:
  assumes "walk_mut p cs d = Inr (s, put)" "path_names cs = Some ns" "node_at s' = f (node_at s)"
  shows "node_at (put s') = at_dir ns f (node_at d)"
proof -
  have "walk_opt p cs d = Inr (Some s)" by (rule walk_mut_opt [OF assms(1)])
  then have "(\<lambda>q. node_at d (ns @ q)) = node_at s" using walk_opt_names assms(2) by fastforce
  then show ?thesis using node_at_put [OF assms(1,2), of s'] assms(3) by (auto simp: at_dir_def fun_eq_iff)
qed

lemma split_mut_names:
  assumes f: "file_name path = Some n"
  shows "split_mut d path = Inr ((s, put), n') \<Longrightarrow> n' = n \<and> (\<exists>ds cs. path_names (components path) = Some (ds @ [n]) \<and>
      path_names cs = Some ds \<and> (\<exists>p. walk_mut p cs d = Inr (s, put)) \<and> is_dir_node (node_at d ds))"
    and "split_mut d path = Inl err \<Longrightarrow> path_names (components path) = Some ps \<Longrightarrow> \<not> is_dir_node (node_at d (butlast ps))"
proof -
  obtain p where p: "Rust_Path.parent path = Some p" "components path = components p @ [Normal n]" using parent_of_file [OF f] by blast
  show "n' = n \<and> (\<exists>ds cs. path_names (components path) = Some (ds @ [n]) \<and>
      path_names cs = Some ds \<and> (\<exists>p. walk_mut p cs d = Inr (s, put)) \<and> is_dir_node (node_at d ds))"
    if "split_mut d path = Inr ((s, put), n')"
  proof -
    have w: "walk_mut p (components p) d = Inr (s, put)" "n' = n"
      using that p f by (auto simp: split_mut_def get_directory_mut_def rbind_eq_Inr_iff)
    obtain ds where ds: "path_names (components p) = Some ds" "\<forall>q. node_at d (ds @ q) = node_at s q"
      using walk_opt_names [OF walk_mut_opt [OF w(1)]] by blast
    then have "is_dir_node (node_at d ds)" using ds(2) [rule_format, of "[]"] by (simp add: is_dir_node_iff)
    then show ?thesis using ds(1) p(2) w path_names_append by auto
  qed
  show "\<not> is_dir_node (node_at d (butlast ps))" if e: "split_mut d path = Inl err" and ps: "path_names (components path) = Some ps"
  proof
    assume dir: "is_dir_node (node_at d (butlast ps))"
    obtain ds where ds: "path_names (components p) = Some ds" "ps = ds @ [n]"
      using ps p(2) by (auto simp: path_names_append)
    then obtain st where "node_at d ds = Some (DirNode st)" using dir by (auto simp: is_dir_node_iff)
    from names_walk_opt [OF ds(1) this, of p] obtain s put where "walk_mut p (components p) d = Inr (s, put)"
      using walk_opt_mut by blast
    then show False using e p f by (simp add: split_mut_def get_directory_mut_def)
  qed
qed

definition new_leaves :: "tar_entry \<Rightarrow> nat" where
  "new_leaves e = (case te_item e of TarLeaf _ \<Rightarrow> 1 | _ \<Rightarrow> 0)"

lemma process_entry_step:
  assumes wf: "dir_wf (length (heap fs)) (root fs)" and st: "bt_wf (xattrs (te_stat e))"
  shows "process_entry fs e = Inr fs' \<Longrightarrow> layer_step (node_at (root fs)) (length (heap fs)) e = Some (node_at (root fs')) \<and>
      length (heap fs') = length (heap fs) + new_leaves e \<and> dir_wf (length (heap fs')) (root fs')"
    and "process_entry fs e = Inl err \<Longrightarrow> layer_step (node_at (root fs)) (length (heap fs)) e = None"
proof -
  let ?m = "node_at (root fs)" and ?k = "length (heap fs)"
  show "process_entry fs e = Inr fs' \<Longrightarrow> layer_step ?m ?k e = Some (node_at (root fs')) \<and>
      length (heap fs') = ?k + new_leaves e \<and> dir_wf (length (heap fs')) (root fs')"
  proof (cases "file_name (te_path e)")
    case None
    then show "process_entry fs e = Inr fs' \<Longrightarrow> ?thesis"
      using wf st by (auto simp: process_entry_def layer_step_def new_leaves_def set_root_stat_def node_at_set_stat
          rbind_eq_Inr_iff dir_wf_set_stat)
  next
    case (Some n)
    assume r: "process_entry fs e = Inr fs'"
    then obtain i h dir put n' where i: "tar_inode fs e = Inr (i, h)"
      and s: "split_mut (root fs) (te_path e) = Inr ((dir, put), n')"
      and fs': "fs' = fs\<lparr>root := put (place_entry n' i dir), heap := h\<rparr>"
      using Some by (auto simp: process_entry_def rbind_eq_Inr_iff)
    note t = tar_inode_names(1) [OF i]
    obtain ds cs p where n: "n' = n" "path_names (components (te_path e)) = Some (ds @ [n])" "path_names cs = Some ds"
      "walk_mut p cs (root fs) = Inr (dir, put)" "is_dir_node (?m ds)"
      using split_mut_names(1) [OF Some s] by blast
    have dwf: "dir_wf ?k dir" using dir_wf_walk_opt [OF walk_mut_opt [OF n(4)] wf] .
    note place = node_at_place [OF dir_wf_entries [OF dwf], of i n]
    have "layer_step ?m ?k e = Some (node_at (put (place_entry n i dir)))"
    proof (cases "strip_prefix ''.wh.'' n")
      case None
      then show ?thesis using t n put_at_dir [OF n(4,3), of "place_entry n i dir" "put_at [n] (node_of i)"] place
        by (simp add: layer_step_def Some at_dir_ops)
    next
      case (Some w)
      show ?thesis
      proof (cases "w = ''.wh..opq''")
        case True
        then show ?thesis using t n Some put_at_dir [OF n(4,3), of "place_entry n i dir" "drop_below []"] place
            \<open>file_name (te_path e) = Some n\<close> by (simp add: layer_step_def at_dir_ops)
      next
        case False
        then show ?thesis using t n Some put_at_dir [OF n(4,3), of "place_entry n i dir" "drop_tree [w]"] place
            \<open>file_name (te_path e) = Some n\<close> by (simp add: layer_step_def at_dir_ops)
      qed
    qed
    moreover have hl: "length h = ?k + new_leaves e" using t by (simp add: new_leaves_def)
    moreover have "dir_wf (length h) (put (place_entry n i dir))"
    proof (rule walk_mut_back_wf [OF n(4)])
      show "dir_wf (length h) (root fs)" using inode_wf_mono(1) [OF wf] hl by simp
      have d: "dir_wf (length h) dir" using inode_wf_mono(1) [OF dwf] hl by simp
      have "inode_wf (length h) i" by (rule tar_inode_wf [OF i wf st])
      then show "dir_wf (length h) (place_entry n i dir)"
        using d by (simp add: place_entry_def dir_wf_clear dir_wf_remove dir_wf_merge split: option.split)
    qed
    ultimately show ?thesis using fs' n(1) by simp
  qed
  show "layer_step ?m ?k e = None" if err: "process_entry fs e = Inl err"
  proof (cases "file_name (te_path e)")
    case (Some n)
    show ?thesis
    proof (cases "tar_inode fs e")
      case (Inl x)
      then show ?thesis using tar_inode_names(2) [OF Inl] Some by (simp add: layer_step_def)
    next
      case (Inr ih)
      then obtain x where "split_mut (root fs) (te_path e) = Inl x"
        using err Some by (cases "split_mut (root fs) (te_path e)"; cases ih) (auto simp: process_entry_def)
      then show ?thesis using split_mut_names(2) [OF Some] Some
        by (auto simp: layer_step_def split: option.split)
    qed
  qed (use err in \<open>auto simp: process_entry_def layer_step_def rbind_eq_Inl_iff ensure_r_def\<close>)
qed

fun apply_layer :: "path_map \<Rightarrow> nat \<Rightarrow> tar_entry list \<Rightarrow> path_map option" where
  "apply_layer m k [] = Some m"
| "apply_layer m k (e # es) = Option.bind (layer_step m k e) (\<lambda>m'. apply_layer m' (k + new_leaves e) es)"

lemma process_entries_apply:
  assumes "dir_wf (length (heap fs)) (root fs)" "\<forall>e \<in> set es. bt_wf (xattrs (te_stat e))"
  shows "case process_entries fs es of
      Inr fs' \<Rightarrow> apply_layer (node_at (root fs)) (length (heap fs)) es = Some (node_at (root fs')) \<and>
        dir_wf (length (heap fs')) (root fs')
    | Inl _ \<Rightarrow> apply_layer (node_at (root fs)) (length (heap fs)) es = None"
  using assms
proof (induction es arbitrary: fs)
  case (Cons e es)
  show ?case
  proof (cases "process_entry fs e")
    case (Inl x)
    then show ?thesis using process_entry_step(2) [OF Cons.prems(1) _ Inl] Cons.prems(2) by simp
  next
    case (Inr fs1)
    have "bt_wf (xattrs (te_stat e))" using Cons.prems(2) by simp
    note step = process_entry_step(1) [OF Cons.prems(1) this Inr]
    have "case process_entries fs1 es of
      Inr fs' \<Rightarrow> apply_layer (node_at (root fs1)) (length (heap fs1)) es = Some (node_at (root fs')) \<and>
        dir_wf (length (heap fs')) (root fs')
    | Inl _ \<Rightarrow> apply_layer (node_at (root fs1)) (length (heap fs1)) es = None"
      by (rule Cons.IH [OF step [THEN conjunct2, THEN conjunct2]]) (use Cons.prems(2) in simp)
    then show ?thesis using step Cons.prems(2) Inr by (cases "process_entries fs1 es") simp_all
  qed
qed simp

section \<open>Layers as the image specification has them\<close>

text \<open>
  The specification lets a whiteout act on lower layers only: what the markers of a layer hide is taken from the
  lower layers first, and then the other entries are added. \<open>hides\<close> is what one marker hides.
\<close>

definition is_marker :: "tar_entry \<Rightarrow> bool" where
  "is_marker e = (case file_name (te_path e) of None \<Rightarrow> False | Some n \<Rightarrow> strip_prefix ''.wh.'' n \<noteq> None)"

definition hides :: "tar_entry \<Rightarrow> bytes list \<Rightarrow> bool" where
  "hides e q = (case (file_name (te_path e), path_names (components (te_path e))) of
       (Some n, Some p) \<Rightarrow> (case strip_prefix ''.wh.'' n of
           Some w \<Rightarrow> if w = ''.wh..opq'' then strict_prefix (butlast p) q else prefix (butlast p @ [w]) q
         | None \<Rightarrow> False)
     | _ \<Rightarrow> False)"

definition hide_lower :: "tar_entry list \<Rightarrow> path_map \<Rightarrow> path_map" where
  "hide_lower es m = (\<lambda>q. if list_ex (\<lambda>e. hides e q) es then None else m q)"

fun add_entries :: "path_map \<Rightarrow> nat \<Rightarrow> tar_entry list \<Rightarrow> path_map option" where
  "add_entries m k [] = Some m"
| "add_entries m k (e # es) = (if is_marker e then add_entries m (k + new_leaves e) es
     else Option.bind (layer_step m k e) (\<lambda>m'. add_entries m' (k + new_leaves e) es))"

definition oci_layer :: "path_map \<Rightarrow> nat \<Rightarrow> tar_entry list \<Rightarrow> path_map option" where
  "oci_layer m k es = add_entries (hide_lower es m) k es"

text \<open>The paths that an entry needs: its own, and the target of a hardlink.\<close>

definition entry_paths :: "tar_entry \<Rightarrow> bytes list list" where
  "entry_paths e = List.map_filter (\<lambda>p. path_names (components p))
     (te_path e # (case te_item e of TarHardlink t \<Rightarrow> [t] | _ \<Rightarrow> []))"

text \<open>No marker stands after an entry of its layer that it would hide.\<close>

fun markers_first :: "tar_entry list \<Rightarrow> bool" where
  "markers_first [] = True"
| "markers_first (e # es) = ((\<not> is_marker e \<longrightarrow> list_all (\<lambda>e'. list_all (\<lambda>q. \<not> hides e' q) (entry_paths e)) es) \<and> markers_first es)"

lemma hides_longer: "hides e q \<Longrightarrow> prefix q q' \<Longrightarrow> hides e q'"
  unfolding hides_def
  by (auto split: option.splits if_splits intro: prefix_order.trans prefix_order.less_le_trans)

lemma hides_Nil: "\<not> hides e []"
  by (auto simp: hides_def split: option.splits)

lemma marker_step:
  assumes "is_marker e" "layer_step m k e = Some m'"
  shows "m' = (\<lambda>q. if hides e q then None else m q)"
  using assms by (auto simp: is_marker_def layer_step_def hides_def drop_below_def drop_tree_def split: option.splits if_splits)

text \<open>An entry is added to a map without the hidden paths as to the whole map, when it needs none of them.\<close>

lemma entry_step_hidden:
  assumes e: "\<not> is_marker e" and r: "layer_step m k e = Some m'"
    and up: "\<And>q q'. q \<in> S \<Longrightarrow> prefix q q' \<Longrightarrow> q' \<in> S" and nil: "[] \<notin> S"
    and free: "\<forall>q \<in> set (entry_paths e). q \<notin> S"
  shows "layer_step (\<lambda>q. if q \<in> S then None else m q) k e = Some (\<lambda>q. if q \<in> S then None else m' q)"
proof (cases "file_name (te_path e)")
  case None
  then show ?thesis using r nil by (auto simp: layer_step_def fun_eq_iff split: if_splits)
next
  case (Some n)
  let ?h = "\<lambda>(m :: path_map) q. if q \<in> S then None else m q"
  obtain x p where x: "layer_node m k e = Some x" and p: "path_names (components (te_path e)) = Some p"
    and d: "is_dir_node (m (butlast p))" and m': "m' = put_at p x m"
    using r Some e by (auto simp: layer_step_def is_marker_def split: option.splits if_splits)
  have ps: "p \<in> set (entry_paths e)" using p by (simp add: entry_paths_def map_filter_simps)
  have pS: "p \<notin> S" using free ps by blast
  have "prefix (butlast p) p" by (metis append_butlast_last_id butlast.simps(1) prefixI prefix_order.refl)
  then have bS: "butlast p \<notin> S" using up pS by blast
  have node: "layer_node (?h m) k e = Some x"
  proof (cases "te_item e")
    case (TarHardlink t)
    then obtain q r' where q: "path_names (components t) = Some q" "m q = Some (LeafNode r')"
      using x by (auto simp: layer_node_def bind_eq_Some_conv split: option.splits fnode.splits)
    then have "q \<in> set (entry_paths e)" using TarHardlink p by (simp add: entry_paths_def map_filter_simps)
    then have "q \<notin> S" using free by blast
    then show ?thesis using x q TarHardlink by (simp add: layer_node_def split: option.splits)
  qed (use x in \<open>simp_all add: layer_node_def\<close>)
  have "put_at p x (?h m) = ?h (put_at p x m)"
    using pS by (auto simp: put_at_def drop_tree_def fun_eq_iff)
  then show ?thesis unfolding m' using Some p node d bS e by (simp add: layer_step_def is_marker_def)
qed

lemma markers_first_paths:
  "markers_first (e # es) \<Longrightarrow> \<not> is_marker e \<Longrightarrow> \<forall>q \<in> set (entry_paths e). q \<notin> {q. list_ex (\<lambda>e. hides e q) es}"
  by (auto simp: list_all_iff list_ex_iff)

lemma apply_layer_oci:
  "apply_layer m k es = Some m' \<Longrightarrow> markers_first es \<Longrightarrow> oci_layer m k es = Some m'"
proof (induction es arbitrary: m k)
  case Nil
  then show ?case by (simp add: oci_layer_def hide_lower_def)
next
  case (Cons e es)
  obtain m1 where m1: "layer_step m k e = Some m1" "apply_layer m1 (k + new_leaves e) es = Some m'"
    using Cons.prems(1) by (auto split: Option.bind_splits)
  have IH: "add_entries (hide_lower es m1) (k + new_leaves e) es = Some m'"
    using Cons.IH [OF m1(2)] Cons.prems(2) by (simp add: oci_layer_def)
  show ?case
  proof (cases "is_marker e")
    case True
    have "hide_lower (e # es) m = hide_lower es m1"
      unfolding marker_step [OF True m1(1)] by (auto simp: hide_lower_def)
    then show ?thesis using IH True by (simp add: oci_layer_def)
  next
    case False
    let ?S = "{q. list_ex (\<lambda>e. hides e q) es}"
    have no: "\<not> hides e q" for q
      using False by (auto simp: hides_def is_marker_def split: option.splits)
    have "layer_step (\<lambda>q. if q \<in> ?S then None else m q) k e = Some (\<lambda>q. if q \<in> ?S then None else m1 q)"
    proof (rule entry_step_hidden [OF False m1(1)])
      show "q' \<in> ?S" if "q \<in> ?S" "prefix q q'" for q q'
        using that hides_longer by (auto simp: list_ex_iff)
      show "[] \<notin> ?S" using hides_Nil by (simp add: list_ex_iff)
      show "\<forall>q \<in> set (entry_paths e). q \<notin> ?S" by (rule markers_first_paths [OF Cons.prems(2) False])
    qed
    moreover have "hide_lower (e # es) m = (\<lambda>q. if q \<in> ?S then None else m q)"
      "hide_lower es m1 = (\<lambda>q. if q \<in> ?S then None else m1 q)"
      using no by (simp_all add: hide_lower_def)
    ultimately show ?thesis using IH False by (simp add: oci_layer_def)
  qed
qed

text \<open>
  C3: Unpacking a layer acts on the map from paths to nodes entry by entry: an entry replaces what its path held,
  unless both are directories, which keeps the contents; a whiteout removes the entry that it names with all below
  it; an opaque whiteout empties its directory; a hardlink is a second name for a leaf that exists. Both fail on the
  same entries, and the tree stays well-formed. When no marker comes after an entry of its own layer that it would hide,
  the outcome is that of the OCI image specification, in which the markers hide what lower layers have and
  the other entries are added to the rest. (A marker that comes later also hides entries of its own layer, which the
  specification forbids: lemma \<open>whiteout_hides_own_layer\<close>.)
\<close>

theorem process_entries_refines:
  assumes "dir_wf (length (heap fs)) (root fs)" "\<forall>e \<in> set es. bt_wf (xattrs (te_stat e))"
  shows "case process_entries fs es of
      Inr fs' \<Rightarrow> apply_layer (node_at (root fs)) (length (heap fs)) es = Some (node_at (root fs')) \<and>
        dir_wf (length (heap fs')) (root fs') \<and>
        (markers_first es \<longrightarrow> oci_layer (node_at (root fs)) (length (heap fs)) es = Some (node_at (root fs')))
    | Inl _ \<Rightarrow> apply_layer (node_at (root fs)) (length (heap fs)) es = None"
  using process_entries_apply [OF assms] apply_layer_oci by (auto split: sum.splits)

definition demo_entry :: "bytes \<Rightarrow> tar_item \<Rightarrow> tar_entry" where
  "demo_entry p i = \<lparr>te_path = p, te_stat = stat_uninitialized, te_item = i\<rparr>"

text \<open>A first layer with a directory of two names for one file, and a second that hides one name and then adds a file.\<close>

definition demo_lower :: "tar_entry list" where
  "demo_lower = [demo_entry ''/a'' TarDirectory, demo_entry ''/a/b'' (TarLeaf Fifo), demo_entry ''/a/c'' (TarHardlink ''/a/b'')]"

definition demo_upper :: "tar_entry list" where
  "demo_upper = [demo_entry ''/a/.wh.b'' (TarLeaf (Regular (Inline []))), demo_entry ''/a/d'' (TarHardlink ''/a/c'')]"

definition demo_base :: "regular_file filesystem" where
  "demo_base = (case process_entries (filesystem_new stat_uninitialized) demo_lower of Inr fs \<Rightarrow> fs | Inl _ \<Rightarrow> filesystem_new stat_uninitialized)"

lemma process_entries_refines_witness:
  "\<exists>fs m. process_entries demo_base demo_upper = Inr fs \<and>
     oci_layer (node_at (root demo_base)) (length (heap demo_base)) demo_upper = Some m \<and> node_at (root fs) = m \<and>
     m [''a'', ''b''] = None \<and> m [''a'', ''d''] = Some (LeafNode 0)"
proof -
  have wf: "dir_wf (length (heap demo_base)) (root demo_base)" "\<forall>e \<in> set demo_upper. bt_wf (xattrs (te_stat e))"
    by code_simp+
  have "case process_entries demo_base demo_upper of Inl _ \<Rightarrow> False | Inr _ \<Rightarrow> True" by code_simp
  then obtain fs where fs: "process_entries demo_base demo_upper = Inr fs" by (cases "process_entries demo_base demo_upper") auto
  have "markers_first demo_upper" by code_simp
  then have "oci_layer (node_at (root demo_base)) (length (heap demo_base)) demo_upper = Some (node_at (root fs))"
    using process_entries_refines [OF wf] fs by simp
  moreover have "map_option (\<lambda>m. (m [''a'', ''b''], m [''a'', ''d''])) (oci_layer (node_at (root demo_base)) (length (heap demo_base)) demo_upper) =
      Some (None, Some (LeafNode 0))" by code_simp
  ultimately show ?thesis using fs by (intro exI [of _ fs] exI [of _ "node_at (root fs)"]) simp
qed

text \<open>The code removes a file of the same layer when the whiteout comes after it; the specification keeps it.\<close>

definition demo_layer :: "tar_entry list" where
  "demo_layer = demo_lower @ [demo_entry ''/a/.wh.b'' (TarLeaf (Regular (Inline [])))]"

lemma whiteout_hides_own_layer:
  "case process_entries (filesystem_new stat_uninitialized) demo_layer of
     Inr fs \<Rightarrow> node_at (root fs) [''a'', ''b''] = None | Inl _ \<Rightarrow> False"
  "map_option (\<lambda>m. m [''a'', ''b'']) (oci_layer (node_at (root (filesystem_new stat_uninitialized :: regular_file filesystem))) 0 demo_layer) =
     Some (Some (LeafNode 0))"
  by code_simp+

section \<open>The transformation for OCI images\<close>

text \<open>
  C19: \<open>transform_for_oci\<close> gives the root directory the whole stat of /usr, and an existing /run loses everything below
  it and takes the modification time of /usr; every other node stays under its path, the files stay as they are, and
  doing it again changes nothing. It fails exactly when /usr is missing, or /usr or /run is no directory, with the error that
  names it.
\<close>

theorem transform_for_oci_tree:
  assumes "dir_wf (length (heap fs)) (root fs)"
  shows "case transform_for_oci fs of
      Inr fs' \<Rightarrow> heap fs' = heap fs \<and> transform_for_oci fs' = Inr fs' \<and>
        (\<exists>usr. node_at (root fs) [''usr''] = Some (DirNode usr) \<and> (\<nexists>r. node_at (root fs) [''run''] = Some (LeafNode r)) \<and>
          (\<forall>ns. node_at (root fs') ns =
            (if ns = [] then Some (DirNode usr)
             else if ns = [''run''] then (case node_at (root fs) ns of
               Some (DirNode st) \<Rightarrow> Some (DirNode (st\<lparr>st_mtim_sec := st_mtim_sec usr\<rparr>)) | x \<Rightarrow> x)
             else if hd ns = ''run'' then None
             else node_at (root fs) ns)))
    | Inl e \<Rightarrow> e = NotFound ''usr'' \<and> node_at (root fs) [''usr''] = None \<or>
        e = NotADirectory ''usr'' \<and> (\<exists>r. node_at (root fs) [''usr''] = Some (LeafNode r)) \<or>
        e = NotADirectory ''run'' \<and> is_dir_node (node_at (root fs) [''usr'']) \<and> (\<exists>r. node_at (root fs) [''run''] = Some (LeafNode r))"
proof (cases "oci_root (root fs)")
  case (Inl e)
  then show ?thesis
    by (auto simp: transform_for_oci_root oci_root_def lookup_def is_dir_node_def split: option.splits inode_of.splits)
next
  case (Inr d)
  have wf: "bt_wf (entries (root fs))" using assms by (rule dir_wf_entries)
  obtain usr where u: "bt_get (entries (root fs)) ''usr'' = Some (IDirectory usr)"
    and nr: "\<nexists>r. bt_get (entries (root fs)) ''run'' = Some (ILeaf r)"
    and d: "d = (case bt_get (entries (root fs)) ''run'' of
        Some (IDirectory run) \<Rightarrow> Directory (dstat usr) (bt_insert ''run''
          (IDirectory (Directory ((dstat run)\<lparr>st_mtim_sec := st_mtim_sec (dstat usr)\<rparr>) [])) (entries (root fs)))
      | _ \<Rightarrow> Directory (dstat usr) (entries (root fs)))"
    using Inr by (auto simp: oci_root_def lookup_def split: option.splits inode_of.splits)
  have t: "transform_for_oci fs = Inr (fs\<lparr>root := d\<rparr>)" using Inr by (simp add: transform_for_oci_root)
  have "transform_for_oci (fs\<lparr>root := d\<rparr>) = Inr (fs\<lparr>root := d\<rparr>)"
    using transform_for_oci_idempotent [OF assms] t by simp
  moreover have "node_at d ns = (if ns = [] then Some (DirNode (dstat usr))
      else if ns = [''run''] then (case node_at (root fs) ns of
        Some (DirNode st) \<Rightarrow> Some (DirNode (st\<lparr>st_mtim_sec := st_mtim_sec (dstat usr)\<rparr>)) | x \<Rightarrow> x)
      else if hd ns = ''run'' then None else node_at (root fs) ns)" for ns
  proof (cases ns)
    case (Cons m ms)
    show ?thesis
    proof (cases "bt_get (entries (root fs)) ''run''")
      case None
      then show ?thesis using Cons by (simp add: d)
    next
      case (Some i)
      then obtain run where "i = IDirectory run" using nr by (cases i) auto
      then show ?thesis using Some Cons wf by (cases ms) (simp_all add: d bt_get_insert)
    qed
  qed (simp add: d split: option.split inode_of.split)
  moreover have "\<nexists>r. node_at (root fs) [''run''] = Some (LeafNode r)" using nr by (auto split: option.splits inode_of.splits)
  ultimately show ?thesis using t u by auto
qed

definition demo_oci :: "regular_file filesystem" where
  "demo_oci = \<lparr>root = Directory stat_uninitialized
     [(''run'', IDirectory (Directory stat_uninitialized [(''secrets'', ILeaf 0)])),
      (''usr'', IDirectory (Directory (stat_uninitialized\<lparr>st_mtim_sec := 7\<rparr>) []))],
     heap = [\<lparr>leaf_stat = stat_uninitialized, content = Fifo\<rparr>]\<rparr>"

lemma transform_for_oci_tree_witness:
  "\<exists>fs. transform_for_oci demo_oci = Inr fs \<and> node_at (root fs) [] = Some (DirNode (stat_uninitialized\<lparr>st_mtim_sec := 7\<rparr>)) \<and>
     node_at (root fs) [''run''] = Some (DirNode (stat_uninitialized\<lparr>st_mtim_sec := 7\<rparr>)) \<and> node_at (root fs) [''run'', ''secrets''] = None"
proof -
  have wf: "dir_wf (length (heap demo_oci)) (root demo_oci)" by code_simp
  have n: "node_at (root demo_oci) [''usr''] = Some (DirNode (stat_uninitialized\<lparr>st_mtim_sec := 7\<rparr>))"
    "node_at (root demo_oci) [''run''] = Some (DirNode stat_uninitialized)"
    by (simp_all add: demo_oci_def bt_get_def)
  have "case transform_for_oci demo_oci of Inr fs \<Rightarrow> True | Inl _ \<Rightarrow> False" by code_simp
  then obtain fs where fs: "transform_for_oci demo_oci = Inr fs" by (cases "transform_for_oci demo_oci") auto
  show ?thesis using transform_for_oci_tree [OF wf] n unfolding fs by (simp del: node_at.simps)
qed

end
