(* ===== verification/Boot_Selabel.thy ===== *)
theory Boot_Selabel
  imports Boot_Entries Oci_Image "HOL-Library.Code_Target_Nat"
begin

text \<open>
  Models \<open>crates/composefs-boot/src/selabel.rs\<close>: reading the SELinux policy of an image and labelling its
  tree. The regular expressions belong to the regex-automata crate: building the automaton for a list of expressions
  is the parameter \<open>dfa_crate\<close>, its search returns the index of an expression.
\<close>

section \<open>The automaton\<close>

record dfa_crate =
  build_many :: "bytes list \<Rightarrow> (bytes \<Rightarrow> nat option) option"
  regex_matches :: "bytes \<Rightarrow> bytes \<Rightarrow> bool"

text \<open>The search finds the first expression of the list that matches, if one does.\<close>

definition dfa_laws :: "dfa_crate \<Rightarrow> bool" where
  "dfa_laws D \<longleftrightarrow> (\<forall>rs search key. build_many D rs = Some search \<longrightarrow>
     (case search key of
        Some i \<Rightarrow> i < length rs \<and> regex_matches D (rs ! i) key \<and> (\<forall>j < i. \<not> regex_matches D (rs ! j) key)
      | None \<Rightarrow> (\<forall>r \<in> set rs. \<not> regex_matches D r key)))"

section \<open>Policy files\<close>

definition XATTR_SECURITY_SELINUX :: bytes where "XATTR_SECURITY_SELINUX = ''security.selinux''"

datatype selabel_error =
    SeImage image_error
  | SeRepo repo_error
  | SeUtf8
  | MissingOriginal nat
  | TrailingData nat
  | MissingSeparator nat
  | InvalidTypeCode nat bytes
  | MissingContext nat
  | NoFileContexts
  | BadRegex

text \<open>\<open>split_whitespace\<close>: the words between runs of white space.\<close>

fun words_of :: "bytes list \<Rightarrow> bytes \<Rightarrow> bytes list" where
  "words_of [] w = (if w = [] then [] else [w])"
| "words_of (u # us) w = (if is_whitespace u then (if w = [] then words_of us [] else w # words_of us [])
     else words_of us (w @ u))"

definition split_whitespace :: "bytes \<Rightarrow> bytes list" where
  "split_whitespace s = words_of (utf8_chars s) []"

definition subs_line :: "nat \<Rightarrow> bytes \<Rightarrow> (bytes \<times> bytes) list \<Rightarrow> selabel_error + (bytes \<times> bytes) list" where
  "subs_line line_nr line aliases = (case split_whitespace line of
       [] \<Rightarrow> Inr aliases
     | alias # rest \<Rightarrow> if starts_with ''#'' alias then Inr aliases
         else (case rest of
             [] \<Rightarrow> Inl (MissingOriginal line_nr)
           | [original] \<Rightarrow> Inr (bt_insert alias original aliases)
           | _ \<Rightarrow> Inl (TrailingData line_nr)))"

definition type_codes :: "bytes list" where
  "type_codes = [''b'', ''c'', ''d'', ''p'', ''l'', ''s'', ''-'']"

definition spec_line :: "nat \<Rightarrow> bytes \<Rightarrow> bytes list \<times> bytes list \<Rightarrow> selabel_error + (bytes list \<times> bytes list)" where
  "spec_line line_nr line rc = (case rc of (regexps, contexts) \<Rightarrow> (case split_whitespace line of
       [] \<Rightarrow> Inr rc
     | regex # rest \<Rightarrow> if starts_with ''#'' regex then Inr rc
         else (case rest of
             [] \<Rightarrow> Inl (MissingSeparator line_nr)
           | word # rest \<Rightarrow> (case strip_prefix ''-'' word of
                 Some ifmt \<Rightarrow> if ifmt \<notin> set type_codes then Inl (InvalidTypeCode line_nr ifmt)
                   else (case rest of
                       [] \<Rightarrow> Inl (MissingContext line_nr)
                     | con # rest \<Rightarrow> if rest \<noteq> [] then Inl (TrailingData line_nr)
                         else Inr (regexps @ [''^('' @ regex @ '')'' @ ifmt @ ''$''], contexts @ [con]))
               | None \<Rightarrow> if rest \<noteq> [] then Inl (TrailingData line_nr)
                   else Inr (regexps @ [''^('' @ regex @ '').$''], contexts @ [word])))))"

text \<open>The loop over the numbered lines of a file; a line that is not UTF-8 is an error when it is read.\<close>

fun each_line :: "(nat \<Rightarrow> bytes \<Rightarrow> 's \<Rightarrow> selabel_error + 's) \<Rightarrow> nat \<Rightarrow> bytes list \<Rightarrow> 's \<Rightarrow> selabel_error + 's" where
  "each_line f n [] s = Inr s"
| "each_line f n (l # ls) s = rbind (ensure_r (utf8_valid l) SeUtf8) (\<lambda>_. rbind (f n l s) (\<lambda>s'. each_line f (Suc n) ls s'))"

definition process_subs_file :: "bytes \<Rightarrow> (bytes \<times> bytes) list \<Rightarrow> selabel_error + (bytes \<times> bytes) list" where
  "process_subs_file text aliases = each_line subs_line 0 (lines text) aliases"

definition process_spec_file :: "bytes \<Rightarrow> bytes list \<times> bytes list \<Rightarrow> selabel_error + (bytes list \<times> bytes list)" where
  "process_spec_file text rc = each_line spec_line 0 (lines text) rc"

section \<open>The policy\<close>

record policy =
  aliases :: "(bytes \<times> bytes) list"
  dfa :: "bytes \<Rightarrow> nat option"
  contexts :: "bytes list"

text \<open>The contents of a file of a directory, or None when there is none.\<close>

definition se_openat :: "hex_crate \<Rightarrow> kernel \<Rightarrow> hash_alg \<Rightarrow> regular_file leaf list \<Rightarrow> directory \<Rightarrow> bytes \<Rightarrow>
    (selabel_error, 'z repo_scheme, bytes option) io" where
  "se_openat hx K H h dir filename = io_bind (io_lift (map_err SeImage (get_file_opt h dir filename))) (\<lambda>f. case f of
       None \<Rightarrow> io_return None
     | Some (Inline d) \<Rightarrow> io_return (Some d)
     | Some (External oid _) \<Rightarrow> (\<lambda>s. map_option (\<lambda>(r, s'). (map_err SeRepo (rbind r (\<lambda>d. Inr (Some d))), s')) (read_object hx K H oid s)))"

fun read_specs :: "hex_crate \<Rightarrow> kernel \<Rightarrow> hash_alg \<Rightarrow> regular_file leaf list \<Rightarrow> directory \<Rightarrow> bytes list \<Rightarrow> bytes list \<times> bytes list \<Rightarrow>
    (selabel_error, 'z repo_scheme, bytes list \<times> bytes list) io" where
  "read_specs hx K H h dir [] rc = io_return rc"
| "read_specs hx K H h dir (suffx # ss) rc = io_bind (se_openat hx K H h dir (''file_contexts'' @ suffx)) (\<lambda>f. case f of
       Some text \<Rightarrow> io_bind (io_lift (process_spec_file text rc)) (read_specs hx K H h dir ss)
     | None \<Rightarrow> if suffx = [] then io_fail NoFileContexts else read_specs hx K H h dir ss rc)"

fun read_subs :: "hex_crate \<Rightarrow> kernel \<Rightarrow> hash_alg \<Rightarrow> regular_file leaf list \<Rightarrow> directory \<Rightarrow> bytes list \<Rightarrow> (bytes \<times> bytes) list \<Rightarrow>
    (selabel_error, 'z repo_scheme, (bytes \<times> bytes) list) io" where
  "read_subs hx K H h dir [] al = io_return al"
| "read_subs hx K H h dir (suffx # ss) al = io_bind (se_openat hx K H h dir (''file_contexts'' @ suffx)) (\<lambda>f. case f of
       Some text \<Rightarrow> io_bind (io_lift (process_subs_file text al)) (read_subs hx K H h dir ss)
     | None \<Rightarrow> read_subs hx K H h dir ss al)"

definition build_policy :: "dfa_crate \<Rightarrow> bytes list \<times> bytes list \<Rightarrow> (bytes \<times> bytes) list \<Rightarrow> selabel_error + policy" where
  "build_policy D rc al = rbind (ok_or (build_many D (rev (fst rc))) BadRegex) (\<lambda>search.
     Inr \<lparr>aliases = al, dfa = search, contexts = rev (snd rc)\<rparr>)"

definition policy_build :: "dfa_crate \<Rightarrow> hex_crate \<Rightarrow> kernel \<Rightarrow> hash_alg \<Rightarrow> regular_file leaf list \<Rightarrow> directory \<Rightarrow>
    (selabel_error, 'z repo_scheme, policy) io" where
  "policy_build D hx K H h dir =
     io_bind (read_specs hx K H h dir ['''', ''.local'', ''.homedirs''] ([], [])) (\<lambda>rc.
     io_bind (read_subs hx K H h dir [''.subs'', ''.subs_dist''] []) (\<lambda>al.
       io_lift (build_policy D rc al)))"

definition check_aliased :: "policy \<Rightarrow> bytes \<Rightarrow> bytes option" where
  "check_aliased P filename = bt_get (aliases P) filename"

definition policy_lookup :: "policy \<Rightarrow> bytes \<Rightarrow> byte \<Rightarrow> bytes option" where
  "policy_lookup P filename ifmt = (case dfa P (filename @ [ifmt]) of
       Some i \<Rightarrow> (let con = contexts P ! i in if con = ''<<none>>'' then None else Some con)
     | None \<Rightarrow> None)"

section \<open>Labelling\<close>

definition relabel :: "policy \<Rightarrow> bytes \<Rightarrow> byte \<Rightarrow> stat \<Rightarrow> stat" where
  "relabel P path ifmt st = st\<lparr>xattrs := (case policy_lookup P path ifmt of
       Some label \<Rightarrow> bt_insert XATTR_SECURITY_SELINUX label (xattrs st)
     | None \<Rightarrow> bt_remove XATTR_SECURITY_SELINUX (xattrs st))\<rparr>"

definition leaf_ifmt :: "'t leaf_content \<Rightarrow> byte" where
  "leaf_ifmt c = (case c of Regular _ \<Rightarrow> CHR ''-'' | Fifo \<Rightarrow> CHR ''p'' | Socket \<Rightarrow> CHR ''s'' | Symlink _ \<Rightarrow> CHR ''l''
     | BlockDevice _ \<Rightarrow> CHR ''b'' | CharacterDevice _ \<Rightarrow> CHR ''c'')"

definition relabel_leaf :: "policy \<Rightarrow> bytes \<Rightarrow> rc \<Rightarrow> 't leaf list \<Rightarrow> 't leaf list" where
  "relabel_leaf P path r h = h[r := (h ! r)\<lparr>leaf_stat := relabel P path (leaf_ifmt (content (h ! r))) (leaf_stat (h ! r))\<rparr>]"

text \<open>
  The path that an entry is labelled by: its own, or what the policy substitutes for it. The names of a tree are
  single components, so the code's \<open>path.pop()\<close> undoes its \<open>path.push(name)\<close> and each
  entry starts from the path of its directory.
\<close>

definition label_path :: "policy \<Rightarrow> bytes \<Rightarrow> bytes \<Rightarrow> bytes" where
  "label_path P path name = (case check_aliased P (push path name) of Some original \<Rightarrow> original | None \<Rightarrow> push path name)"

function relabel_dir :: "policy \<Rightarrow> bytes \<Rightarrow> directory \<Rightarrow> 't leaf list \<Rightarrow> directory \<times> 't leaf list"
  and relabel_entries :: "policy \<Rightarrow> bytes \<Rightarrow> (bytes \<times> inode) list \<Rightarrow> 't leaf list \<Rightarrow> (bytes \<times> inode) list \<times> 't leaf list" where
  "relabel_dir P path (Directory st es) h =
     (let (es', h') = relabel_entries P path es h in (Directory (relabel P path CHR ''d'' st) es', h'))"
| "relabel_entries P path [] h = ([], h)"
| "relabel_entries P path ((name, IDirectory d) # es) h =
     (let (d', h1) = relabel_dir P (label_path P path name) d h; (es', h2) = relabel_entries P path es h1
      in ((name, IDirectory d') # es', h2))"
| "relabel_entries P path ((name, ILeaf r) # es) h =
     (let (es', h2) = relabel_entries P path es (relabel_leaf P (label_path P path name) r h) in ((name, ILeaf r) # es', h2))"
  by pat_completeness auto
termination
  by (relation "measure (case_sum (\<lambda>(P, p, d, h). size d)
    (\<lambda>(P, p, es, h). size_list (size_prod (\<lambda>_. 0) (size_inode_of size)) es))") auto

fun config_lines :: "bytes list \<Rightarrow> selabel_error + bytes option" where
  "config_lines [] = Inr None"
| "config_lines (l # ls) = rbind (ensure_r (utf8_valid l) SeUtf8) (\<lambda>_. case split_once CHR ''='' l of
       Some (key, v) \<Rightarrow> if map ascii_lower (trim key) = map ascii_lower ''SELINUXTYPE'' then Inr (Some (trim v)) else config_lines ls
     | None \<Rightarrow> config_lines ls)"

definition parse_config :: "bytes \<Rightarrow> selabel_error + bytes option" where
  "parse_config text = config_lines (lines text)"

definition strip_selinux_labels :: "'t filesystem \<Rightarrow> 't filesystem" where
  "strip_selinux_labels fs = for_each_stat (\<lambda>st. st\<lparr>xattrs := bt_remove XATTR_SECURITY_SELINUX (xattrs st)\<rparr>) fs"

definition selabel :: "dfa_crate \<Rightarrow> hex_crate \<Rightarrow> kernel \<Rightarrow> hash_alg \<Rightarrow> regular_file filesystem \<Rightarrow>
    (selabel_error, 'z repo_scheme, bool \<times> regular_file filesystem) io" where
  "selabel D hx K H fs = io_bind (io_lift (map_err SeImage (get_directory_opt (root fs) ''etc/selinux''))) (\<lambda>d. case d of
       None \<Rightarrow> io_return (False, strip_selinux_labels fs)
     | Some etc_selinux \<Rightarrow> io_bind (se_openat hx K H (heap fs) etc_selinux ''config'') (\<lambda>f. case f of
         None \<Rightarrow> io_return (False, strip_selinux_labels fs)
       | Some config \<Rightarrow> io_bind (io_lift (parse_config config)) (\<lambda>t. case t of
           None \<Rightarrow> io_return (False, strip_selinux_labels fs)
         | Some policy \<Rightarrow>
             io_bind (io_lift (map_err SeImage (rbind (get_directory etc_selinux policy) (\<lambda>p. get_directory p ''contexts/files'')))) (\<lambda>dir.
             io_bind (policy_build D hx K H (heap fs) dir) (\<lambda>P.
               case relabel_dir P ''/'' (root fs) (heap fs) of (r, h) \<Rightarrow> io_return (True, fs\<lparr>root := r, heap := h\<rparr>))))))"

section \<open>The last specification that matches wins\<close>

lemma spec_line_lengths:
  "spec_line n l (rs, cs) = Inr (rs', cs') \<Longrightarrow> length rs = length cs \<Longrightarrow> length rs' = length cs'"
  by (auto simp: spec_line_def split: list.splits option.splits if_splits)

lemma spec_file_lengths:
  "process_spec_file text rc = Inr rc' \<Longrightarrow> length (fst rc) = length (snd rc) \<Longrightarrow> length (fst rc') = length (snd rc')"
proof -
  have "each_line spec_line n ls rc = Inr rc' \<Longrightarrow> length (fst rc) = length (snd rc) \<Longrightarrow> length (fst rc') = length (snd rc')" for n ls rc
  proof (induction ls arbitrary: n rc)
    case (Cons l ls)
    then obtain rc1 where rc1: "spec_line n l rc = Inr rc1" "each_line spec_line (Suc n) ls rc1 = Inr rc'"
      by (auto simp: rbind_eq_Inr_iff)
    then have "length (fst rc1) = length (snd rc1)"
      using spec_line_lengths [of n l "fst rc" "snd rc" "fst rc1" "snd rc1"] Cons.prems(2) by simp
    then show ?case by (rule Cons.IH [OF rc1(2)])
  qed simp
  then show "process_spec_file text rc = Inr rc' \<Longrightarrow> length (fst rc) = length (snd rc) \<Longrightarrow> length (fst rc') = length (snd rc')"
    unfolding process_spec_file_def by blast
qed

lemma read_specs_lengths:
  "read_specs hx K H h dir ss rc s = Some (Inr rc', s') \<Longrightarrow> length (fst rc) = length (snd rc) \<Longrightarrow> length (fst rc') = length (snd rc')"
proof (induction ss arbitrary: rc s)
  case (Cons suffx ss)
  then obtain f s1 where f: "se_openat hx K H h dir (''file_contexts'' @ suffx) s = Some (Inr f, s1)"
    and r: "(case f of Some text \<Rightarrow> io_bind (io_lift (process_spec_file text rc)) (read_specs hx K H h dir ss)
      | None \<Rightarrow> if suffx = [] then io_fail NoFileContexts else read_specs hx K H h dir ss rc) s1 = Some (Inr rc', s')"
    by (auto simp: io_bind_Inr_iff)
  show ?case
  proof (cases f)
    case None
    then show ?thesis using r Cons.IH Cons.prems(2) by (auto simp: io_fail_def split: if_splits)
  next
    case (Some txt1)
    then obtain rc1 where rc1: "process_spec_file txt1 rc = Inr rc1" "read_specs hx K H h dir ss rc1 s1 = Some (Inr rc', s')"
      using r by (auto simp: io_bind_Inr_iff io_lift_def)
    show ?thesis by (rule Cons.IH [OF rc1(2) spec_file_lengths [OF rc1(1) Cons.prems(2)]])
  qed
qed (auto simp: io_return_def)

definition last_match :: "dfa_crate \<Rightarrow> (bytes \<times> bytes) list \<Rightarrow> bytes \<Rightarrow> bytes option" where
  "last_match D specs key = (case List.find (\<lambda>(r, c). regex_matches D r key) (rev specs) of
       Some (r, c) \<Rightarrow> if c = ''<<none>>'' then None else Some c | None \<Rightarrow> None)"

lemma find_index:
  "i < length xs \<Longrightarrow> P (xs ! i) \<Longrightarrow> \<forall>j < i. \<not> P (xs ! j) \<Longrightarrow> List.find P xs = Some (xs ! i)"
  unfolding find_Some_iff by blast

lemma policy_lookup_last:
  assumes D: "dfa_laws D" and len: "length rs = length cs" and P: "build_policy D (rs, cs) al = Inr P"
  shows "policy_lookup P f t = last_match D (zip rs cs) (f @ [t])"
proof -
  obtain search where b: "build_many D (rev rs) = Some search" and P': "P = \<lparr>aliases = al, dfa = search, contexts = rev cs\<rparr>"
    using P by (auto simp: build_policy_def rbind_eq_Inr_iff ok_or_def split: option.splits)
  let ?xs = "rev (zip rs cs)"
  have xs: "?xs = zip (rev rs) (rev cs)" using len by (simp add: zip_rev)
  have law: "case search (f @ [t]) of
      Some i \<Rightarrow> i < length (rev rs) \<and> regex_matches D (rev rs ! i) (f @ [t]) \<and> (\<forall>j < i. \<not> regex_matches D (rev rs ! j) (f @ [t]))
    | None \<Rightarrow> (\<forall>r \<in> set (rev rs). \<not> regex_matches D r (f @ [t]))"
    using D b unfolding dfa_laws_def by blast
  show ?thesis
  proof (cases "search (f @ [t])")
    case None
    then have "\<forall>r \<in> set rs. \<not> regex_matches D r (f @ [t])" using law by simp
    then have "List.find (\<lambda>(r, c). regex_matches D r (f @ [t])) ?xs = None"
      unfolding find_None_iff by (auto dest: set_zip_leftD)
    then show ?thesis using None P' by (simp add: policy_lookup_def last_match_def)
  next
    case (Some i)
    then have i: "i < length (rev rs)" "regex_matches D (rev rs ! i) (f @ [t])" "\<forall>j < i. \<not> regex_matches D (rev rs ! j) (f @ [t])"
      using law by simp_all
    have n: "?xs ! j = (rev rs ! j, rev cs ! j)" if "j \<le> i" for j unfolding xs using i(1) len that by simp
    have "List.find (\<lambda>(r, c). regex_matches D r (f @ [t])) ?xs = Some (?xs ! i)"
      using i n len by (intro find_index) simp_all
    then show ?thesis using Some P' n [of i] by (simp add: policy_lookup_def last_match_def Let_def)
  qed
qed

section \<open>What is labelled\<close>

text \<open>The labels as a function of the tree alone, and the leaves in the order in which they are labelled.\<close>

function label_dir :: "policy \<Rightarrow> bytes \<Rightarrow> directory \<Rightarrow> directory"
  and label_entries :: "policy \<Rightarrow> bytes \<Rightarrow> (bytes \<times> inode) list \<Rightarrow> (bytes \<times> inode) list" where
  "label_dir P path (Directory st es) = Directory (relabel P path CHR ''d'' st) (label_entries P path es)"
| "label_entries P path [] = []"
| "label_entries P path ((n, IDirectory d) # es) = (n, IDirectory (label_dir P (label_path P path n) d)) # label_entries P path es"
| "label_entries P path ((n, ILeaf r) # es) = (n, ILeaf r) # label_entries P path es"
  by pat_completeness auto
termination
  by (relation "measure (case_sum (\<lambda>(P, p, d). size d)
    (\<lambda>(P, p, es). size_list (size_prod (\<lambda>_. 0) (size_inode_of size)) es))") auto

function visits :: "policy \<Rightarrow> bytes \<Rightarrow> directory \<Rightarrow> (bytes \<times> rc) list"
  and entry_visits :: "policy \<Rightarrow> bytes \<Rightarrow> (bytes \<times> inode) list \<Rightarrow> (bytes \<times> rc) list" where
  "visits P path (Directory st es) = entry_visits P path es"
| "entry_visits P path [] = []"
| "entry_visits P path ((n, IDirectory d) # es) = visits P (label_path P path n) d @ entry_visits P path es"
| "entry_visits P path ((n, ILeaf r) # es) = (label_path P path n, r) # entry_visits P path es"
  by pat_completeness auto
termination
  by (relation "measure (case_sum (\<lambda>(P, p, d). size d)
    (\<lambda>(P, p, es). size_list (size_prod (\<lambda>_. 0) (size_inode_of size)) es))") auto

lemma relabel_dir_eq:
  "relabel_dir P path d h = (label_dir P path d, fold (\<lambda>(p, r) h. relabel_leaf P p r h) (visits P path d) h)"
  "relabel_entries P path es h = (label_entries P path es, fold (\<lambda>(p, r) h. relabel_leaf P p r h) (entry_visits P path es) h)"
  by (induction P path d h and P path es h rule: relabel_dir_relabel_entries.induct) simp_all

lemma visits_refs:
  "map snd (visits P path d) = refs d"
  "map snd (entry_visits P path es) = concat (map (\<lambda>e. inode_refs (snd e)) es)"
  by (induction P path d and P path es rule: visits_entry_visits.induct) simp_all


definition se_path :: "policy \<Rightarrow> bytes \<Rightarrow> bytes list \<Rightarrow> bytes" where
  "se_path P path ns = fold (\<lambda>n p. label_path P p n) ns path"

lemma se_path_simps [simp]:
  "se_path P path [] = path" "se_path P path (n # ns) = se_path P (label_path P path n) ns"
  by (simp_all add: se_path_def)

fun label_inode :: "policy \<Rightarrow> bytes \<Rightarrow> inode \<Rightarrow> inode" where
  "label_inode P p (IDirectory d) = IDirectory (label_dir P p d)"
| "label_inode P p (ILeaf r) = ILeaf r"

lemma label_entries_map: "label_entries P path es = map (\<lambda>(n, i). (n, label_inode P (label_path P path n) i)) es"
proof (induction es)
  case (Cons e es)
  then show ?case by (cases e; cases "snd e") auto
qed simp

lemma get_label_entries:
  "bt_get (label_entries P path es) n = map_option (label_inode P (label_path P path n)) (bt_get es n)"
  unfolding label_entries_map bt_get_def by (induction es) auto

lemma label_dir_parts:
  "dstat (label_dir P path d) = relabel P path CHR ''d'' (dstat d)"
  "entries (label_dir P path d) = label_entries P path (entries d)"
  by (cases d, simp)+

lemma node_label_dir:
  "node_at (label_dir P path d) ns = (case node_at d ns of
     Some (DirNode st) \<Rightarrow> Some (DirNode (relabel P (se_path P path ns) CHR ''d'' st)) | x \<Rightarrow> x)"
proof (induction ns arbitrary: path d)
  case (Cons n ns)
  show ?case
  proof (cases "bt_get (entries d) n")
    case (Some i)
    then show ?thesis by (cases i) (auto simp: label_dir_parts get_label_entries Cons.IH split: list.splits option.splits fnode.splits)
  qed (simp add: label_dir_parts get_label_entries)
qed (simp add: label_dir_parts)

lemma entry_visits_mem:
  "(n, ILeaf r) \<in> set es \<Longrightarrow> (label_path P path n, r) \<in> set (entry_visits P path es)"
  "(n, IDirectory d) \<in> set es \<Longrightarrow> set (visits P (label_path P path n) d) \<subseteq> set (entry_visits P path es)"
proof (induction es)
  case (Cons e es)
  { case 1 then show ?case using Cons.IH(1) by (cases e; cases "snd e") auto }
  { case 2 then show ?case using Cons.IH(2) by (cases e; cases "snd e") auto }
qed simp_all

lemma visits_entries: "visits P path d = entry_visits P path (entries d)"
  by (cases d) simp

lemma node_visits:
  "node_at d ns = Some (LeafNode r) \<Longrightarrow> (se_path P path ns, r) \<in> set (visits P path d)"
proof (induction ns arbitrary: path d)
  case (Cons n ns)
  then obtain i where i: "bt_get (entries d) n = Some i" by (auto split: option.splits)
  show ?case
  proof (cases i)
    case (IDirectory d')
    then have "(se_path P (label_path P path n) ns, r) \<in> set (visits P (label_path P path n) d')"
      using Cons.prems i by (intro Cons.IH) simp
    then show ?thesis using entry_visits_mem(2) [of n d' "entries d" P path] bt_get_SomeD [OF i] IDirectory
      by (auto simp: visits_entries [of P path d])
  next
    case (ILeaf q)
    then have "ns = [] \<and> q = r" using Cons.prems i by (simp split: if_splits)
    then show ?thesis using entry_visits_mem(1) [of n r "entries d" P path] bt_get_SomeD [OF i] ILeaf
      by (simp add: visits_entries [of P path d])
  qed
qed simp

lemma length_relabel_leaves [simp]: "length (fold (\<lambda>(p, r). relabel_leaf P p r) vs h) = length h"
  by (induction vs arbitrary: h) (auto simp: relabel_leaf_def)

lemma relabel_leaves_other:
  "r \<notin> snd ` set vs \<Longrightarrow> fold (\<lambda>(p, r). relabel_leaf P p r) vs h ! r = h ! r"
proof (induction vs arbitrary: h)
  case (Cons v vs)
  then show ?case by (cases v) (simp add: relabel_leaf_def)
qed simp

text \<open>
  The labels that a tree should have, stated without the code's functions: the path of a node after the substitutions
  of the policy, the type letters of selabel_file(5), and what one stat may become.
\<close>

fun subst_path :: "(bytes \<times> bytes) list \<Rightarrow> bytes \<Rightarrow> bytes list \<Rightarrow> bytes" where
  "subst_path subs path [] = path"
| "subst_path subs path (n # ns) =
     subst_path subs (case map_of subs (push path n) of Some original \<Rightarrow> original | None \<Rightarrow> push path n) ns"

fun type_letter :: "'t leaf_content \<Rightarrow> byte" where
  "type_letter (Regular _) = CHR ''-''"
| "type_letter (BlockDevice _) = CHR ''b''"
| "type_letter (CharacterDevice _) = CHR ''c''"
| "type_letter Fifo = CHR ''p''"
| "type_letter Socket = CHR ''s''"
| "type_letter (Symlink _) = CHR ''l''"

definition labelled :: "bytes option \<Rightarrow> stat \<Rightarrow> stat \<Rightarrow> bool" where
  "labelled label st st' \<longleftrightarrow> st_mode st' = st_mode st \<and> st_uid st' = st_uid st \<and> st_gid st' = st_gid st \<and>
     st_mtim_sec st' = st_mtim_sec st \<and>
     (\<forall>k. bt_get (xattrs st') k = (if k = ''security.selinux'' then label else bt_get (xattrs st) k))"

text \<open>
  A tree with new labels: the same nodes under the same paths, each directory with the label of its path, and each file with
  the label of one of its paths. Files that the tree does not reach do not change.
\<close>

definition tree_labelled :: "(bytes list \<Rightarrow> byte \<Rightarrow> bytes option) \<Rightarrow> 't filesystem \<Rightarrow> 't filesystem \<Rightarrow> bool" where
  "tree_labelled label fs fs' \<longleftrightarrow>
     (\<forall>ns. case node_at (root fs) ns of
        Some (DirNode st) \<Rightarrow> (\<exists>st'. node_at (root fs') ns = Some (DirNode st') \<and> labelled (label ns CHR ''d'') st st')
      | x \<Rightarrow> node_at (root fs') ns = x) \<and>
     length (heap fs') = length (heap fs) \<and>
     (\<forall>r < length (heap fs). content (heap fs' ! r) = content (heap fs ! r) \<and>
        (if r \<in> set (refs (root fs))
         then \<exists>ns. node_at (root fs) ns = Some (LeafNode r) \<and>
           labelled (label ns (type_letter (content (heap fs ! r)))) (leaf_stat (heap fs ! r)) (leaf_stat (heap fs' ! r))
         else heap fs' ! r = heap fs ! r))"

lemma se_path_subst: "se_path P path ns = subst_path (aliases P) path ns"
  by (induction ns arbitrary: path) (simp_all add: label_path_def check_aliased_def bt_get_def)

lemma leaf_ifmt_letter: "leaf_ifmt c = type_letter c"
  by (cases c) (simp_all add: leaf_ifmt_def)

lemma labelled_relabel:
  assumes "bt_wf (xattrs st)"
  shows "labelled (policy_lookup P p t) st (relabel P p t st)" "bt_wf (xattrs (relabel P p t st))"
  using assms
  by (auto simp: labelled_def relabel_def XATTR_SECURITY_SELINUX_def bt_get_insert bt_get_remove bt_wf_insert bt_wf_remove
      split: option.splits)

lemma labelled_trans: "labelled l st st1 \<Longrightarrow> labelled l' st1 st2 \<Longrightarrow> labelled l' st st2"
  by (simp add: labelled_def)

lemma node_xattrs_wf: "dir_wf n d \<Longrightarrow> node_at d ns = Some (DirNode st) \<Longrightarrow> bt_wf (xattrs st)"
proof (induction ns arbitrary: d)
  case (Cons m ns)
  then obtain s where s: "bt_get (entries d) m = Some (IDirectory s)" "node_at s ns = Some (DirNode st)"
    by (auto split: option.splits inode_of.splits if_splits)
  then show ?case using dir_wf_get [OF Cons.prems(1) s(1)] by (intro Cons.IH [of s]) simp_all
qed (simp add: dir_wf_iff)

text \<open>Every visit is to a leaf of the tree, with the path that leads to it.\<close>

lemma visits_node:
  "dir_wf k d \<Longrightarrow> (p, r) \<in> set (visits P path d) \<Longrightarrow> \<exists>ns. node_at d ns = Some (LeafNode r) \<and> p = se_path P path ns"
  "\<forall>e \<in> set es. inode_wf k (snd e) \<Longrightarrow> (p, r) \<in> set (entry_visits P path es) \<Longrightarrow>
     \<exists>m i ns. (m, i) \<in> set es \<and> p = se_path P (label_path P path m) ns \<and>
       (case i of IDirectory d \<Rightarrow> node_at d ns = Some (LeafNode r) | ILeaf q \<Rightarrow> ns = [] \<and> q = r)"
proof (induction P path d and P path es rule: visits_entry_visits.induct)
  case (1 P path st es)
  then obtain m i ns where i: "(m, i) \<in> set es" "p = se_path P (label_path P path m) ns"
    "case i of IDirectory d \<Rightarrow> node_at d ns = Some (LeafNode r) | ILeaf q \<Rightarrow> ns = [] \<and> q = r"
    by auto
  have "bt_get es m = Some i" using i(1) "1.prems"(1) bt_get_mem [of es m i] by simp
  then have "node_at (Directory st es) (m # ns) = Some (LeafNode r)" using i(3) by (auto split: inode_of.splits)
  then show ?case using i(2) by (intro exI [of _ "m # ns"]) simp
next
  case (3 P path n d es)
  then consider "(p, r) \<in> set (visits P (label_path P path n) d)" | "(p, r) \<in> set (entry_visits P path es)" by auto
  then show ?case
  proof cases
    case 1
    then obtain ns where "node_at d ns = Some (LeafNode r)" "p = se_path P (label_path P path n) ns"
      using "3.IH"(1) "3.prems"(1) by auto
    then show ?thesis by (intro exI [of _ n] exI [of _ "IDirectory d"] exI [of _ ns]) simp
  next
    case 2
    then show ?thesis using "3.IH"(2) "3.prems"(1) by fastforce
  qed
next
  case (4 P path n q es)
  then consider "p = label_path P path n" "r = q" | "(p, r) \<in> set (entry_visits P path es)" by auto
  then show ?case
  proof cases
    case 1
    then show ?thesis by (intro exI [of _ n] exI [of _ "ILeaf q"] exI [of _ "[]"]) simp
  next
    case 2
    then show ?thesis using "4.IH" "4.prems"(1) by fastforce
  qed
qed simp_all

text \<open>A leaf that is visited has the label of its last visit.\<close>

lemma relabel_leaves_labelled:
  assumes wf: "\<forall>l \<in> set h. bt_wf (xattrs (leaf_stat l))" and r: "r < length h"
  shows "content (fold (\<lambda>(p, r). relabel_leaf P p r) vs h ! r) = content (h ! r) \<and>
    bt_wf (xattrs (leaf_stat (fold (\<lambda>(p, r). relabel_leaf P p r) vs h ! r))) \<and>
    (r \<in> snd ` set vs \<longrightarrow> (\<exists>p. (p, r) \<in> set vs \<and> labelled (policy_lookup P p (type_letter (content (h ! r))))
       (leaf_stat (h ! r)) (leaf_stat (fold (\<lambda>(p, r). relabel_leaf P p r) vs h ! r))))"
proof (induction vs rule: rev_induct)
  case Nil
  then show ?case using wf r by simp
next
  case (snoc v vs)
  obtain p q where v: "v = (p, q)" by (cases v)
  define h1 where "h1 = fold (\<lambda>(p, r). relabel_leaf P p r) vs h"
  define t where "t = type_letter (content (h ! r))"
  have IH: "content (h1 ! r) = content (h ! r)" "bt_wf (xattrs (leaf_stat (h1 ! r)))"
    "r \<in> snd ` set vs \<Longrightarrow> \<exists>p. (p, r) \<in> set vs \<and> labelled (policy_lookup P p t) (leaf_stat (h ! r)) (leaf_stat (h1 ! r))"
    using snoc unfolding h1_def t_def by blast+
  have len: "length h1 = length h" by (simp add: h1_def)
  have f: "fold (\<lambda>(p, r). relabel_leaf P p r) (vs @ [v]) h = relabel_leaf P p q h1" by (simp add: v h1_def)
  show ?case unfolding f t_def [symmetric]
  proof (cases "q = r")
    case True
    have e: "relabel_leaf P p q h1 ! r = (h1 ! r)\<lparr>leaf_stat := relabel P p t (leaf_stat (h1 ! r))\<rparr>"
      using True r len by (simp add: relabel_leaf_def leaf_ifmt_letter IH(1) t_def)
    have "labelled (policy_lookup P p t) (leaf_stat (h ! r)) (relabel P p t (leaf_stat (h1 ! r)))"
    proof (cases "r \<in> snd ` set vs")
      case True
      then show ?thesis using IH(3) labelled_trans [OF _ labelled_relabel(1) [OF IH(2)]] by blast
    next
      case False
      then have "h1 ! r = h ! r" unfolding h1_def by (rule relabel_leaves_other)
      then show ?thesis using labelled_relabel(1) [OF IH(2), of P p t] by simp
    qed
    then show "content (relabel_leaf P p q h1 ! r) = content (h ! r) \<and> bt_wf (xattrs (leaf_stat (relabel_leaf P p q h1 ! r))) \<and>
      (r \<in> snd ` set (vs @ [v]) \<longrightarrow> (\<exists>p'. (p', r) \<in> set (vs @ [v]) \<and>
        labelled (policy_lookup P p' t) (leaf_stat (h ! r)) (leaf_stat (relabel_leaf P p q h1 ! r))))"
      unfolding e using IH(1) labelled_relabel(2) [OF IH(2)] v True by auto
  next
    case False
    then have "relabel_leaf P p q h1 ! r = h1 ! r" by (simp add: relabel_leaf_def)
    moreover have "r \<in> snd ` set (vs @ [v]) \<longleftrightarrow> r \<in> snd ` set vs" using v False by auto
    ultimately show "content (relabel_leaf P p q h1 ! r) = content (h ! r) \<and> bt_wf (xattrs (leaf_stat (relabel_leaf P p q h1 ! r))) \<and>
      (r \<in> snd ` set (vs @ [v]) \<longrightarrow> (\<exists>p'. (p', r) \<in> set (vs @ [v]) \<and>
        labelled (policy_lookup P p' t) (leaf_stat (h ! r)) (leaf_stat (relabel_leaf P p q h1 ! r))))"
      using IH by auto
  qed
qed

lemma relabel_dir_labelled:
  assumes r: "relabel_dir P ''/'' (root fs) (heap fs) = (d', h')" and wf: "dir_wf (length (heap fs)) (root fs)"
    and hwf: "\<forall>l \<in> set (heap fs). bt_wf (xattrs (leaf_stat l))"
  shows "tree_labelled (\<lambda>ns t. policy_lookup P (subst_path (aliases P) ''/'' ns) t) fs (fs\<lparr>root := d', heap := h'\<rparr>)"
proof -
  let ?vs = "visits P ''/'' (root fs)"
  have eq: "d' = label_dir P ''/'' (root fs)" "h' = fold (\<lambda>(p, r). relabel_leaf P p r) ?vs (heap fs)"
    using r by (simp_all add: relabel_dir_eq)
  have dirs: "case node_at (root fs) ns of
      Some (DirNode st) \<Rightarrow> (\<exists>st'. node_at d' ns = Some (DirNode st') \<and>
        labelled (policy_lookup P (subst_path (aliases P) ''/'' ns) CHR ''d'') st st')
    | x \<Rightarrow> node_at d' ns = x" for ns
    unfolding eq(1) node_label_dir se_path_subst
    using labelled_relabel(1) node_xattrs_wf [OF wf, of ns] by (auto split: option.splits fnode.splits)
  have vs: "r \<in> snd ` set ?vs \<longleftrightarrow> r \<in> set (refs (root fs))" for r
    using visits_refs(1) [of P "''/''" "root fs"] by (metis set_map)
  have leaf: "content (h' ! r) = content (heap fs ! r) \<and> (if r \<in> set (refs (root fs))
      then \<exists>ns. node_at (root fs) ns = Some (LeafNode r) \<and>
        labelled (policy_lookup P (subst_path (aliases P) ''/'' ns) (type_letter (content (heap fs ! r)))) (leaf_stat (heap fs ! r)) (leaf_stat (h' ! r))
      else h' ! r = heap fs ! r)" if len: "r < length (heap fs)" for r
  proof (cases "r \<in> set (refs (root fs))")
    case True
    then obtain p where p: "(p, r) \<in> set ?vs"
      "labelled (policy_lookup P p (type_letter (content (heap fs ! r)))) (leaf_stat (heap fs ! r)) (leaf_stat (h' ! r))"
      using relabel_leaves_labelled [OF hwf len, of P ?vs] vs unfolding eq(2) by blast
    obtain ns where "node_at (root fs) ns = Some (LeafNode r)" "p = se_path P ''/'' ns"
      using visits_node(1) [OF wf p(1)] by blast
    then show ?thesis using p(2) True relabel_leaves_labelled [OF hwf len, of P ?vs] unfolding eq(2) se_path_subst by auto
  next
    case False
    then have "h' ! r = heap fs ! r" unfolding eq(2) using vs by (intro relabel_leaves_other) blast
    then show ?thesis using False by simp
  qed
  have fs: "root (fs\<lparr>root := d', heap := h'\<rparr>) = d'" "heap (fs\<lparr>root := d', heap := h'\<rparr>) = h'" by simp_all
  have "length h' = length (heap fs)" by (simp add: eq(2))
  then show ?thesis unfolding tree_labelled_def fs using dirs leaf by blast
qed

section \<open>The whole operation\<close>

lemma selabel_False:
  "selabel D hx K H fs s = Some (Inr (False, fs'), s') \<Longrightarrow> fs' = strip_selinux_labels fs"
  unfolding selabel_def
  by (auto simp: io_bind_Inr_iff io_lift_def io_return_def case_prod_beta split: option.splits)

lemma selabel_True:
  assumes "selabel D hx K H fs s = Some (Inr (True, fs'), s')"
  obtains dir P s1 d' h' where "policy_build D hx K H (heap fs) dir s1 = Some (Inr P, s')"
    "relabel_dir P ''/'' (root fs) (heap fs) = (d', h')" "fs' = fs\<lparr>root := d', heap := h'\<rparr>"
  using assms unfolding selabel_def
  by (fastforce simp: io_bind_Inr_iff io_lift_def io_return_def case_prod_beta split: option.splits)

text \<open>
  C37: when a policy was built from the specification files of a directory, the label it gives to a path is the
  context of the last specification, in the order file_contexts, .local, .homedirs, whose expression matches the path
  and its type; none when nothing matches or the context is \<open><<none>>\<close>.
\<close>

theorem selabel_last_match:
  assumes D: "dfa_laws D" and P: "policy_build D hx K H h dir s = Some (Inr P, s')"
  shows "\<exists>rc s1. read_specs hx K H h dir ['''', ''.local'', ''.homedirs''] ([], []) s = Some (Inr rc, s1) \<and>
    policy_lookup P filename ifmt = last_match D (zip (fst rc) (snd rc)) (filename @ [ifmt])"
proof -
  obtain rc s1 al where rc: "read_specs hx K H h dir ['''', ''.local'', ''.homedirs''] ([], []) s = Some (Inr rc, s1)"
    and b: "build_policy D rc al = Inr P"
    using P unfolding policy_build_def by (auto simp: io_bind_Inr_iff io_lift_def)
  have "length (fst rc) = length (snd rc)" by (rule read_specs_lengths [OF rc]) simp
  then have "policy_lookup P filename ifmt = last_match D (zip (fst rc) (snd rc)) (filename @ [ifmt])"
    using b by (intro policy_lookup_last [OF D, where al = al]) simp_all
  then show ?thesis using rc by blast
qed

definition unlabelled :: "stat \<Rightarrow> stat" where
  "unlabelled st = st\<lparr>xattrs := bt_remove XATTR_SECURITY_SELINUX (xattrs st)\<rparr>"

lemma unlabelled_idem:
  "bt_wf (xattrs st) \<Longrightarrow> bt_wf (xattrs (unlabelled st)) \<and> unlabelled (unlabelled st) = unlabelled st"
proof (intro conjI)
  assume wf: "bt_wf (xattrs st)"
  then show "bt_wf (xattrs (unlabelled st))" by (simp add: unlabelled_def bt_wf_remove)
  have "bt_remove k (bt_remove k m) = bt_remove k m" if "bt_wf m" for k and m :: "(bytes \<times> bytes) list"
    by (rule bt_get_ext) (simp_all add: that bt_wf_remove bt_get_remove)
  then show "unlabelled (unlabelled st) = unlabelled st" using wf by (simp add: unlabelled_def)
qed

lemma unlabelled_leaves:
  "r < length h \<Longrightarrow> \<forall>l \<in> set h. bt_wf (xattrs (leaf_stat l)) \<Longrightarrow>
     leaf_stat (fold (update_leaf unlabelled) rs h ! r) = (if r \<in> set rs then unlabelled (leaf_stat (h ! r)) else leaf_stat (h ! r))"
proof (induction rs arbitrary: h)
  case (Cons q rs)
  have "\<forall>l \<in> set (update_leaf unlabelled q h). bt_wf (xattrs (leaf_stat l))"
  proof (cases "q < length h")
    case True
    then show ?thesis using Cons.prems(2) unlabelled_idem [of "leaf_stat (h ! q)"] set_update_subset_insert [of h q]
      unfolding update_leaf_def by fastforce
  qed (use Cons.prems(2) in \<open>simp add: update_leaf_def list_update_beyond\<close>)
  moreover have "bt_wf (xattrs (leaf_stat (h ! r)))" using Cons.prems by simp
  ultimately show ?case using Cons.IH [of "update_leaf unlabelled q h"] Cons.prems(1) unlabelled_idem [of "leaf_stat (h ! r)"]
    by (simp add: leaf_stat_update_leaf)
qed simp

lemma node_at_map_stats:
  "node_at (map_stats f d) ns = (case node_at d ns of Some (DirNode st) \<Rightarrow> Some (DirNode (f st)) | x \<Rightarrow> x)"
proof (induction ns arbitrary: d)
  case Nil
  then show ?case by (cases d) simp
next
  case (Cons n ns)
  obtain st es where d: "d = Directory st es" by (cases d)
  have get: "bt_get (map (\<lambda>e. (fst e, map_inode f (snd e))) es) n = map_option (map_inode f) (bt_get es n)"
    unfolding bt_get_def by (induction es) auto
  show ?case
  proof (cases "bt_get es n")
    case (Some i)
    then show ?thesis using get Cons.IH by (cases i) (auto simp: d)
  qed (simp add: d get)
qed

lemma labelled_unlabelled: "bt_wf (xattrs st) \<Longrightarrow> labelled None st (unlabelled st)"
  by (simp add: labelled_def unlabelled_def XATTR_SECURITY_SELINUX_def bt_get_remove)

lemma refs_node:
  "dir_wf k d \<Longrightarrow> r \<in> set (refs d) \<Longrightarrow> \<exists>ns. node_at d ns = Some (LeafNode r)"
proof -
  assume wf: "dir_wf k d" and r: "r \<in> set (refs d)"
  define P :: policy where "P = \<lparr>aliases = [], dfa = (\<lambda>_. None), contexts = []\<rparr>"
  have "r \<in> snd ` set (visits P [] d)" using r visits_refs(1) [of P "[]" d] by (metis set_map)
  then obtain p where "(p, r) \<in> set (visits P [] d)" by auto
  then show ?thesis using visits_node(1) [OF wf] by blast
qed

lemma strip_selinux_labels_labelled:
  assumes wf: "dir_wf (length (heap fs)) (root fs)" and hwf: "\<forall>l \<in> set (heap fs). bt_wf (xattrs (leaf_stat l))"
  shows "tree_labelled (\<lambda>ns t. None) fs (strip_selinux_labels fs)"
proof -
  define fs' where "fs' = strip_selinux_labels fs"
  have f: "root fs' = map_stats unlabelled (root fs)" "heap fs' = fold (update_leaf unlabelled) (refs (root fs)) (heap fs)"
    unfolding fs'_def strip_selinux_labels_def unlabelled_def [abs_def, symmetric] by (simp_all add: for_each_stat_def visit_eq)
  have dirs: "case node_at (root fs) ns of
      Some (DirNode st) \<Rightarrow> (\<exists>st'. node_at (root fs') ns = Some (DirNode st') \<and> labelled None st st')
    | x \<Rightarrow> node_at (root fs') ns = x" for ns
    using labelled_unlabelled node_xattrs_wf [OF wf, of ns] by (auto simp: f node_at_map_stats split: option.splits fnode.splits)
  have leaf: "content (heap fs' ! r) = content (heap fs ! r) \<and> (if r \<in> set (refs (root fs))
      then \<exists>ns. node_at (root fs) ns = Some (LeafNode r) \<and> labelled None (leaf_stat (heap fs ! r)) (leaf_stat (heap fs' ! r))
      else heap fs' ! r = heap fs ! r)" if len: "r < length (heap fs)" for r
  proof -
    have "labelled None (leaf_stat (heap fs ! r)) (unlabelled (leaf_stat (heap fs ! r)))"
      using hwf len by (intro labelled_unlabelled) simp
    then show ?thesis unfolding f(2) using refs_node [OF wf, of r] len
      by (simp add: content_fold_update unlabelled_leaves [OF _ hwf] fold_update_other)
  qed
  have "length (heap fs') = length (heap fs)" by (simp add: f)
  then show ?thesis unfolding tree_labelled_def fs'_def [symmetric] using dirs leaf by blast
qed

lemma selabel_tree:
  assumes s: "selabel D hx K H fs s = Some (Inr (found, fs'), s')"
    and wf: "dir_wf (length (heap fs)) (root fs)" "\<forall>l \<in> set (heap fs). bt_wf (xattrs (leaf_stat l))"
  shows "\<exists>label. tree_labelled label fs fs' \<and>
    (if found then \<exists>dir P s1. policy_build D hx K H (heap fs) dir s1 = Some (Inr P, s') \<and>
       label = (\<lambda>ns t. policy_lookup P (subst_path (aliases P) ''/'' ns) t)
     else label = (\<lambda>ns t. None))"
proof (cases found)
  case True
  then have s: "selabel D hx K H fs s = Some (Inr (True, fs'), s')" using s by simp
  obtain dir P s1 d' h' where P: "policy_build D hx K H (heap fs) dir s1 = Some (Inr P, s')"
    and r: "relabel_dir P ''/'' (root fs) (heap fs) = (d', h')" and fs': "fs' = fs\<lparr>root := d', heap := h'\<rparr>"
    by (rule selabel_True [OF s])
  show ?thesis using P True relabel_dir_labelled [OF r wf] unfolding fs' by auto
next
  case False
  then have "fs' = strip_selinux_labels fs" using s by (intro selabel_False [of D hx K H fs s fs' s']) simp
  then show ?thesis using False strip_selinux_labels_labelled [OF wf] by auto
qed

text \<open>
  C36: labelling keeps the nodes of the tree and their paths, owners, modes, times, contents and other attributes. When the
  image has a policy, the label of a directory is what the policy says of its path, with the policy's substitutions
  applied at every step from the root, and the type letter d; that of a file is what the policy says of one of its paths
  and the letter of its type. A node for which the policy has no label loses the one it had, and without a policy every node
  does.
\<close>

theorem selabel_labels:
  assumes "selabel D hx K H fs s = Some (Inr (found, fs'), s')"
    and "dir_wf (length (heap fs)) (root fs)" "\<forall>l \<in> set (heap fs). bt_wf (xattrs (leaf_stat l))"
  shows "\<exists>label. tree_labelled label fs fs' \<and>
    (if found then \<exists>dir P s1. policy_build D hx K H (heap fs) dir s1 = Some (Inr P, s') \<and>
       label = (\<lambda>ns t. policy_lookup P (subst_path (aliases P) ''/'' ns) t)
     else label = (\<lambda>ns t. None))"
  by (rule selabel_tree [OF assms])

section \<open>An example policy\<close>

text \<open>An automaton for the expressions that are plain strings; it satisfies \<^const>\<open>dfa_laws\<close>.\<close>

fun find_index :: "nat \<Rightarrow> ('a \<Rightarrow> bool) \<Rightarrow> 'a list \<Rightarrow> nat option" where
  "find_index n P [] = None"
| "find_index n P (x # xs) = (if P x then Some n else find_index (Suc n) P xs)"

lemma find_index_spec:
  "case find_index n P xs of
     Some i \<Rightarrow> n \<le> i \<and> i < n + length xs \<and> P (xs ! (i - n)) \<and> (\<forall>j < i - n. \<not> P (xs ! j))
   | None \<Rightarrow> (\<forall>x \<in> set xs. \<not> P x)"
proof (induction xs arbitrary: n)
  case (Cons x xs)
  show ?case
  proof (cases "P x")
    case False
    show ?thesis
    proof (cases "find_index (Suc n) P xs")
      case (Some i)
      then have i: "Suc n \<le> i" "i < Suc n + length xs" "P (xs ! (i - Suc n))" "\<forall>j < i - Suc n. \<not> P (xs ! j)"
        using Cons.IH [of "Suc n"] by simp_all
      have "\<not> P ((x # xs) ! j)" if "j < i - n" for j using that i(1,4) False by (cases j) simp_all
      moreover have "(x # xs) ! (i - n) = xs ! (i - Suc n)" using i(1) by (simp add: nth_Cons')
      ultimately show ?thesis using Some False i by simp
    qed (use Cons.IH [of "Suc n"] False in simp)
  qed simp
qed simp

definition plain_matches :: "bytes \<Rightarrow> bytes \<Rightarrow> bool" where
  "plain_matches r key \<longleftrightarrow> r = ''^('' @ butlast key @ '').$'' \<or> r = ''^('' @ butlast key @ '')'' @ [last key] @ ''$''"

definition plain_dfa :: dfa_crate where
  "plain_dfa = \<lparr>build_many = (\<lambda>rs. Some (\<lambda>key. find_index 0 (\<lambda>r. plain_matches r key) rs)), regex_matches = plain_matches\<rparr>"

lemma plain_dfa_laws: "dfa_laws plain_dfa"
  unfolding dfa_laws_def
proof (intro allI impI)
  fix rs search key
  assume "build_many plain_dfa rs = Some search"
  then have "search key = find_index 0 (\<lambda>r. plain_matches r key) rs" by (auto simp: plain_dfa_def)
  then show "case search key of
      Some i \<Rightarrow> i < length rs \<and> regex_matches plain_dfa (rs ! i) key \<and> (\<forall>j < i. \<not> regex_matches plain_dfa (rs ! j) key)
    | None \<Rightarrow> (\<forall>r \<in> set rs. \<not> regex_matches plain_dfa r key)"
    using find_index_spec [where n = 0 and P = "\<lambda>r. plain_matches r key" and xs = rs] by (simp add: plain_dfa_def split: option.splits)
qed

definition plain_dir :: "(bytes \<times> inode) list \<Rightarrow> directory" where "plain_dir es = Directory stat_uninitialized es"

definition plain_file :: "bytes \<Rightarrow> regular_file leaf" where
  "plain_file d = \<lparr>leaf_stat = stat_uninitialized, content = Regular (Inline d)\<rparr>"

definition selinux_dir :: directory where
  "selinux_dir = plain_dir [(''config'', ILeaf 0), (''mls'', IDirectory (plain_dir [(''contexts'', IDirectory (plain_dir
     [(''files'', IDirectory (plain_dir [(''file_contexts'', ILeaf 1)]))]))]))]"

definition selinux_fs :: "regular_file filesystem" where
  "selinux_fs = \<lparr>root = plain_dir [(''bin'', ILeaf 2), (''etc'', IDirectory (plain_dir [(''selinux'', IDirectory selinux_dir)]))],
     heap = [plain_file ''SELINUXTYPE=mls'', plain_file (''/bin a_t'' @ [CHR 0x0A] @ ''/bin -- b_t''), plain_file ''binary'']\<rparr>"

lemma selinux_fs_wf: "dir_wf (length (heap selinux_fs)) (root selinux_fs)" "\<forall>l \<in> set (heap selinux_fs). bt_wf (xattrs (leaf_stat l))"
  by code_simp+

text \<open>The later specification of /bin, for regular files only, gives the label of the binary.\<close>

lemma selinux_fs_labelled:
  "\<exists>fs' s. selabel plain_dfa hex_codec toy_K toy_H selinux_fs empty_repo = Some (Inr (True, fs'), s) \<and>
     bt_get (xattrs (leaf_stat (heap fs' ! 2))) XATTR_SECURITY_SELINUX = Some ''b_t''"
proof -
  have "case selabel plain_dfa hex_codec toy_K toy_H selinux_fs empty_repo of Some (Inr (b, fs), s) \<Rightarrow>
     b \<and> bt_get (xattrs (leaf_stat (heap fs ! 2))) XATTR_SECURITY_SELINUX = Some ''b_t'' | _ \<Rightarrow> False"
    by code_simp
  then show ?thesis by (auto split: option.splits sum.splits prod.splits)
qed

lemma selabel_labels_witness:
  "\<exists>fs' s label. selabel plain_dfa hex_codec toy_K toy_H selinux_fs empty_repo = Some (Inr (True, fs'), s) \<and>
     tree_labelled label selinux_fs fs' \<and>
     (\<exists>dir P s1. policy_build plain_dfa hex_codec toy_K toy_H (heap selinux_fs) dir (s1 :: repo) = Some (Inr P, s)) \<and>
     bt_get (xattrs (leaf_stat (heap fs' ! 2))) XATTR_SECURITY_SELINUX = Some ''b_t''"
proof -
  obtain fs' s where r: "selabel plain_dfa hex_codec toy_K toy_H selinux_fs empty_repo = Some (Inr (True, fs'), s)"
    and l: "bt_get (xattrs (leaf_stat (heap fs' ! 2))) XATTR_SECURITY_SELINUX = Some ''b_t''"
    using selinux_fs_labelled by blast
  obtain label where "tree_labelled label selinux_fs fs'"
    "\<exists>dir P s1. policy_build plain_dfa hex_codec toy_K toy_H (heap selinux_fs) dir (s1 :: repo) = Some (Inr P, s)"
    using selabel_labels [OF r selinux_fs_wf] unfolding if_True by blast
  then show ?thesis using r l by blast
qed

lemma selabel_last_match_witness:
  "\<exists>P s. policy_build plain_dfa hex_codec toy_K toy_H (heap selinux_fs)
      (plain_dir [(''file_contexts'', ILeaf 1)]) empty_repo = Some (Inr P, s) \<and>
    (\<exists>rc. policy_lookup P ''/bin'' CHR ''-'' = last_match plain_dfa (zip (fst rc) (snd rc)) ''/bin-'')"
proof -
  have "case policy_build plain_dfa hex_codec toy_K toy_H (heap selinux_fs)
      (plain_dir [(''file_contexts'', ILeaf 1)]) empty_repo of Some (Inr P, s) \<Rightarrow> True | _ \<Rightarrow> False"
    by code_simp
  then obtain P s where P: "policy_build plain_dfa hex_codec toy_K toy_H (heap selinux_fs)
      (plain_dir [(''file_contexts'', ILeaf 1)]) empty_repo = Some (Inr P, s)"
    by (auto split: option.splits sum.splits prod.splits)
  show ?thesis using P selabel_last_match [OF plain_dfa_laws P, of "''/bin''" "CHR ''-''"] by auto
qed

end
