(* ===== verification/Erofs_Format.thy ===== *)
theory Erofs_Format
  imports Verity_Digest Ordered_Map
begin

text \<open>
  Models \<open>crates/composefs/src/erofs/format.rs\<close> and \<open>erofs/composefs.rs\<close>: the structures of an
  EROFS image, their encoding in bytes (zerocopy's \<open>as_bytes\<close>) and decoding
  (\<open>ref_from_bytes\<close>), and the overlayfs metacopy attribute. Fields keep their width.
\<close>

unbundle bit_operations_syntax

definition field :: "nat \<Rightarrow> nat \<Rightarrow> bytes \<Rightarrow> bytes" where
  "field k n b = take n (drop k b)"

lemma field_append:
  "length a = k \<Longrightarrow> length x = n \<Longrightarrow> field k n (a @ x @ rest) = x"
  by (simp add: field_def)

definition zeros :: "nat \<Rightarrow> bytes" where "zeros n = replicate n CHR 0x00"

lemma length_zeros [simp]: "length (zeros n) = n"
  by (simp add: zeros_def)

definition get8 :: "nat \<Rightarrow> bytes \<Rightarrow> u8" where "get8 k b = byte_u8 (b ! k)"

text \<open>The slices \<open>b[k..]\<close> and \<open>b[k..][..n]\<close>; out of range they panic. An assertion that fails panics
  as well, and a panic is \<open>None\<close>.\<close>

definition slice_from :: "nat \<Rightarrow> bytes \<Rightarrow> bytes option" where
  "slice_from k b = (if k \<le> length b then Some (drop k b) else None)"

definition slice :: "nat \<Rightarrow> nat \<Rightarrow> bytes \<Rightarrow> bytes option" where
  "slice k n b = (if k + n \<le> length b then Some (field k n b) else None)"

definition assert_p :: "bool \<Rightarrow> unit option" where
  "assert_p b = (if b then Some () else None)"

lemma assert_p_simps [simp]: "assert_p True = Some ()" "assert_p False = None"
  by (simp_all add: assert_p_def)

lemma assert_p_eq_Some [simp]: "assert_p b = Some u \<longleftrightarrow> b"
  by (simp add: assert_p_def)

section \<open>Constants\<close>

definition BLOCK_BITS :: nat where "BLOCK_BITS = 12"
definition BLOCK_SIZE :: nat where "BLOCK_SIZE = 2 ^ BLOCK_BITS"
definition COMPOSEFS_MAGIC :: u32 where "COMPOSEFS_MAGIC = 0xd078629a"
definition VERSION :: u32 where "VERSION = 1"
definition COMPOSEFS_VERSION :: u32 where "COMPOSEFS_VERSION = 2"
definition MAGIC_V1 :: u32 where "MAGIC_V1 = 0xE0F5E1E2"
definition FEATURE_COMPAT_MTIME :: u32 where "FEATURE_COMPAT_MTIME = 2"
definition FEATURE_COMPAT_XATTR_FILTER :: u32 where "FEATURE_COMPAT_XATTR_FILTER = 4"
definition XATTR_FILTER_SEED :: u32 where "XATTR_FILTER_SEED = 0x25BBE08F"

definition XATTR_PREFIXES :: "bytes list" where
  "XATTR_PREFIXES = [[], ''user.'', ''system.posix_acl_access'', ''system.posix_acl_default'',
     ''trusted.'', ''lustre.'', ''security.'']"

lemma BLOCK_SIZE_eq [simp]: "BLOCK_SIZE = 4096"
  by (simp add: BLOCK_SIZE_def BLOCK_BITS_def)

section \<open>Formats, types and modes\<close>

datatype inode_layout = Compact | Extended
datatype data_layout = FlatPlain | FlatInline | ChunkBased

definition layout_bits :: "inode_layout \<Rightarrow> u16" where
  "layout_bits l = (case l of Compact \<Rightarrow> 0 | Extended \<Rightarrow> 1)"

definition data_bits :: "data_layout \<Rightarrow> u16" where
  "data_bits l = (case l of FlatPlain \<Rightarrow> 0 | FlatInline \<Rightarrow> 4 | ChunkBased \<Rightarrow> 8)"

definition format_field :: "inode_layout \<Rightarrow> data_layout \<Rightarrow> u16" where
  "format_field l d = layout_bits l OR data_bits d"

definition INODE_LAYOUT_MASK :: u16 where "INODE_LAYOUT_MASK = 1"
definition INODE_DATALAYOUT_MASK :: u16 where "INODE_DATALAYOUT_MASK = 14"

definition inode_layout_of :: "u16 \<Rightarrow> inode_layout" where
  "inode_layout_of f = (if f AND INODE_LAYOUT_MASK = 0 then Compact else Extended)"

definition data_layout_of :: "u16 \<Rightarrow> data_layout option" where
  "data_layout_of f = (let m = f AND INODE_DATALAYOUT_MASK in
     if m = 0 then Some FlatPlain else if m = 4 then Some FlatInline else if m = 8 then Some ChunkBased else None)"

datatype file_type = FUnknown | FRegular | FDirectory | FCharacterDevice | FBlockDevice | FFifo | FSocket | FSymlink

definition file_type_field :: "file_type \<Rightarrow> u8" where
  "file_type_field t = (case t of FUnknown \<Rightarrow> 0 | FRegular \<Rightarrow> 1 | FDirectory \<Rightarrow> 2 | FCharacterDevice \<Rightarrow> 3
     | FBlockDevice \<Rightarrow> 4 | FFifo \<Rightarrow> 5 | FSocket \<Rightarrow> 6 | FSymlink \<Rightarrow> 7)"

definition file_type_of :: "u8 \<Rightarrow> file_type" where
  "file_type_of b = (if b = 1 then FRegular else if b = 2 then FDirectory else if b = 3 then FCharacterDevice
     else if b = 4 then FBlockDevice else if b = 5 then FFifo else if b = 6 then FSocket
     else if b = 7 then FSymlink else FUnknown)"

definition S_IFMT :: u16 where "S_IFMT = 0xf000"
definition S_IFDIR :: u16 where "S_IFDIR = 0x4000"

text \<open>The mode bits of a file type; \<open>None\<close> is unreachable in the code.\<close>

definition ifmt :: "file_type \<Rightarrow> u16 option" where
  "ifmt t = (case t of FRegular \<Rightarrow> Some 0x8000 | FCharacterDevice \<Rightarrow> Some 0x2000 | FDirectory \<Rightarrow> Some S_IFDIR
     | FBlockDevice \<Rightarrow> Some 0x6000 | FFifo \<Rightarrow> Some 0x1000 | FSymlink \<Rightarrow> Some 0xa000 | FSocket \<Rightarrow> Some 0xc000
     | FUnknown \<Rightarrow> None)"

definition mode_field :: "file_type \<Rightarrow> u32 \<Rightarrow> u16 option" where
  "mode_field t permissions = map_option (\<lambda>m. m OR ucast permissions) (ifmt t)"

definition is_dir :: "u16 \<Rightarrow> bool" where
  "is_dir mode \<longleftrightarrow> mode AND S_IFMT = S_IFDIR"

section \<open>Structures\<close>

record composefs_header =
  ch_magic :: u32
  ch_version :: u32
  ch_flags :: u32
  ch_composefs_version :: u32

definition composefs_header_bytes :: "composefs_header \<Rightarrow> bytes" where
  "composefs_header_bytes h = le32 (ch_magic h) @ le32 (ch_version h) @ le32 (ch_flags h)
     @ le32 (ch_composefs_version h) @ zeros 16"

definition read_composefs_header :: "bytes \<Rightarrow> composefs_header option" where
  "read_composefs_header b = (if length b < 32 then None else Some
     \<lparr>ch_magic = get32 (field 0 4 b), ch_version = get32 (field 4 4 b), ch_flags = get32 (field 8 4 b),
      ch_composefs_version = get32 (field 12 4 b)\<rparr>)"

record superblock =
  sb_magic :: u32
  sb_checksum :: u32
  feature_compat :: u32
  blkszbits :: u8
  extslots :: u8
  root_nid :: u16
  inos :: u64
  build_time :: u64
  build_time_nsec :: u32
  sb_blocks :: u32
  meta_blkaddr :: u32
  xattr_blkaddr :: u32
  uuid_to_end :: bytes

text \<open>The last field holds the 80 bytes from \<open>uuid\<close> on, which the writer leaves zero and the reader
  does not use.\<close>

definition superblock_bytes :: "superblock \<Rightarrow> bytes" where
  "superblock_bytes s = le32 (sb_magic s) @ le32 (sb_checksum s) @ le32 (feature_compat s)
     @ [u8_byte (blkszbits s), u8_byte (extslots s)] @ le16 (root_nid s)
     @ le64 (inos s) @ le64 (build_time s)
     @ le32 (build_time_nsec s) @ le32 (sb_blocks s) @ le32 (meta_blkaddr s) @ le32 (xattr_blkaddr s)
     @ uuid_to_end s"

definition read_superblock :: "bytes \<Rightarrow> superblock option" where
  "read_superblock b = (if length b < 128 then None else Some
     \<lparr>sb_magic = get32 (field 0 4 b), sb_checksum = get32 (field 4 4 b), feature_compat = get32 (field 8 4 b),
      blkszbits = get8 12 b, extslots = get8 13 b, root_nid = get16 (field 14 2 b),
      inos = get64 (field 16 8 b), build_time = get64 (field 24 8 b),
      build_time_nsec = get32 (field 32 4 b), sb_blocks = get32 (field 36 4 b),
      meta_blkaddr = get32 (field 40 4 b), xattr_blkaddr = get32 (field 44 4 b), uuid_to_end = field 48 80 b\<rparr>)"

text \<open>The two inode headers have the fields that \<open>InodeHeader\<close> reads, at their widths.\<close>

record compact_header =
  c_format :: u16
  c_xattr_icount :: u16
  c_mode :: u16
  c_size :: u32
  c_u :: u32

definition read_compact_header :: "bytes \<Rightarrow> compact_header option" where
  "read_compact_header b = (if length b \<noteq> 32 then None else Some
     \<lparr>c_format = get16 (field 0 2 b), c_xattr_icount = get16 (field 2 2 b), c_mode = get16 (field 4 2 b),
      c_size = get32 (field 8 4 b), c_u = get32 (field 16 4 b)\<rparr>)"

record extended_header =
  x_format :: u16
  x_xattr_icount :: u16
  x_mode :: u16
  x_size :: u64
  x_u :: u32
  x_ino :: u32
  x_uid :: u32
  x_gid :: u32
  x_mtime :: u64
  x_mtime_nsec :: u32
  x_nlink :: u32

definition extended_header_bytes :: "extended_header \<Rightarrow> bytes" where
  "extended_header_bytes h = le16 (x_format h) @ le16 (x_xattr_icount h) @ le16 (x_mode h) @ zeros 2
     @ le64 (x_size h) @ le32 (x_u h) @ le32 (x_ino h) @ le32 (x_uid h) @ le32 (x_gid h)
     @ le64 (x_mtime h) @ le32 (x_mtime_nsec h) @ le32 (x_nlink h) @ zeros 16"

definition read_extended_header :: "bytes \<Rightarrow> extended_header option" where
  "read_extended_header b = (if length b \<noteq> 64 then None else Some
     \<lparr>x_format = get16 (field 0 2 b), x_xattr_icount = get16 (field 2 2 b), x_mode = get16 (field 4 2 b),
      x_size = get64 (field 8 8 b), x_u = get32 (field 16 4 b), x_ino = get32 (field 20 4 b),
      x_uid = get32 (field 24 4 b), x_gid = get32 (field 28 4 b), x_mtime = get64 (field 32 8 b),
      x_mtime_nsec = get32 (field 40 4 b), x_nlink = get32 (field 44 4 b)\<rparr>)"

record inode_xattr_header =
  name_filter :: u32
  shared_count :: u8

definition inode_xattr_header_bytes :: "inode_xattr_header \<Rightarrow> bytes" where
  "inode_xattr_header_bytes h = le32 (name_filter h) @ [u8_byte (shared_count h)] @ zeros 7"

definition read_inode_xattr_header :: "bytes \<Rightarrow> inode_xattr_header option" where
  "read_inode_xattr_header b = (if length b < 12 then None else Some
     \<lparr>name_filter = get32 (field 0 4 b), shared_count = get8 4 b\<rparr>)"

record xattr_header =
  name_len :: u8
  name_index :: u8
  value_size :: u16

definition xattr_header_bytes :: "xattr_header \<Rightarrow> bytes" where
  "xattr_header_bytes h = [u8_byte (name_len h), u8_byte (name_index h)] @ le16 (value_size h)"

definition read_xattr_header :: "bytes \<Rightarrow> xattr_header option" where
  "read_xattr_header b = (if length b < 4 then None else Some
     \<lparr>name_len = get8 0 b, name_index = get8 1 b, value_size = get16 (field 2 2 b)\<rparr>)"

record dirent_header =
  inode_offset :: u64
  name_offset :: u16
  de_file_type :: u8

definition dirent_header_bytes :: "dirent_header \<Rightarrow> bytes" where
  "dirent_header_bytes h = le64 (inode_offset h) @ le16 (name_offset h) @ [u8_byte (de_file_type h), CHR 0x00]"

definition read_dirent_header :: "bytes \<Rightarrow> dirent_header option" where
  "read_dirent_header b = (if length b \<noteq> 12 then None else Some
     \<lparr>inode_offset = get64 (field 0 8 b), name_offset = get16 (field 8 2 b), de_file_type = get8 10 b\<rparr>)"

section \<open>The metacopy attribute\<close>

definition metacopy_bytes :: "hash_alg \<Rightarrow> bytes \<Rightarrow> bytes" where
  "metacopy_bytes H d = [CHR 0x00, char_of (4 + size_of H), CHR 0x00, char_of (ALGORITHM H)] @ d"

text \<open>\<open>OverlayMetacopy::read_from_bytes\<close> and \<open>valid\<close>: the digest of a valid attribute.\<close>

definition metacopy_digest :: "hash_alg \<Rightarrow> bytes \<Rightarrow> bytes option" where
  "metacopy_digest H b = (if length b = 4 + size_of H \<and> b ! 0 = CHR 0x00 \<and> b ! 1 = char_of (4 + size_of H)
     \<and> b ! 2 = CHR 0x00 \<and> b ! 3 = char_of (ALGORITHM H) then Some (drop 4 b) else None)"

section \<open>The structures read back\<close>

lemma metacopy_digest_bytes: "length d = size_of H \<Longrightarrow> metacopy_digest H (metacopy_bytes H d) = Some d"
  by (simp add: metacopy_digest_def metacopy_bytes_def)

lemma length_structs [simp, byte_simps]:
  "length (composefs_header_bytes c) = 32" "length (extended_header_bytes h) = 64"
  "length (inode_xattr_header_bytes x) = 12" "length (xattr_header_bytes a) = 4" "length (dirent_header_bytes d) = 12"
  by (simp_all add: composefs_header_bytes_def extended_header_bytes_def inode_xattr_header_bytes_def
      xattr_header_bytes_def dirent_header_bytes_def)

lemma read_composefs_header_bytes [simp]: "read_composefs_header (composefs_header_bytes h @ rest) = Some h"
  by (simp add: read_composefs_header_def) (simp add: composefs_header_bytes_def field_def)

lemma length_superblock [simp]: "length (uuid_to_end s) = 80 \<Longrightarrow> length (superblock_bytes s) = 128"
  by (simp add: superblock_bytes_def)

lemma read_extended_header_bytes [simp]: "read_extended_header (extended_header_bytes h) = Some h"
  by (simp add: read_extended_header_def) (simp add: extended_header_bytes_def field_def)

lemma read_superblock_bytes: "length (uuid_to_end s) = 80 \<Longrightarrow> read_superblock (superblock_bytes s @ rest) = Some s"
  by (simp add: read_superblock_def) (simp add: superblock_bytes_def field_def get8_def nth_append)

lemma read_inode_xattr_header_bytes [simp]: "read_inode_xattr_header (inode_xattr_header_bytes h @ rest) = Some h"
  by (simp add: read_inode_xattr_header_def) (simp add: inode_xattr_header_bytes_def field_def get8_def nth_append)

lemma read_xattr_header_bytes [simp]: "read_xattr_header (xattr_header_bytes h @ rest) = Some h"
  by (simp add: read_xattr_header_def) (simp add: xattr_header_bytes_def field_def get8_def)

lemma read_dirent_header_bytes [simp]: "read_dirent_header (dirent_header_bytes h) = Some h"
  by (simp add: read_dirent_header_def) (simp add: dirent_header_bytes_def field_def get8_def nth_append)

lemma layout_format [simp]:
  "inode_layout_of (format_field l d) = l" "data_layout_of (format_field l d) = Some d"
  by (cases l; cases d; simp add: inode_layout_of_def data_layout_of_def format_field_def layout_bits_def
      data_bits_def INODE_LAYOUT_MASK_def INODE_DATALAYOUT_MASK_def)+

lemma file_type_field_inverse [simp]: "file_type_of (file_type_field t) = t"
  by (cases t) (simp_all add: file_type_field_def file_type_of_def)

lemma is_dir_mode_field:
  assumes "mode_field t p = Some m" "ucast p AND S_IFMT = 0"
  shows "is_dir m \<longleftrightarrow> t = FDirectory"
proof -
  obtain k where k: "ifmt t = Some k" "m = k OR ucast p" using assms(1) by (auto simp: mode_field_def)
  have "m AND S_IFMT = (k AND S_IFMT) OR (ucast p AND S_IFMT)" by (simp add: k(2) bit.conj_disj_distrib2)
  then have "m AND S_IFMT = k AND S_IFMT" using assms(2) by simp
  then show ?thesis using k(1)
    by (cases t) (auto simp: is_dir_def ifmt_def S_IFMT_def S_IFDIR_def)
qed

end
