(* ===== verification/Erofs_Reader.thy ===== *)
theory Erofs_Reader
  imports Erofs_Format "HOL-Library.Monad_Syntax"
begin

text \<open>
  Models \<open>crates/composefs/src/erofs/reader.rs\<close>: the view of an image as inodes, extended
  attributes and directory blocks, and \<open>collect_objects\<close>, which the garbage collector runs on every
  image. The code indexes slices and unwraps, so it panics on a malformed image: \<open>None\<close> is a
  panic. Offsets are \<open>nat\<close>: an offset that overflows \<open>usize\<close> is past the end of every slice.
  No function of the file returns an \<open>ErofsReaderError\<close>, so \<open>ReadResult\<close> is its \<open>Ok\<close> value.
\<close>

section \<open>Rounding up\<close>

text \<open>On \<open>usize\<close>, as the code has it, and on the offsets of the model.\<close>

definition round_up_usize :: "u64 \<Rightarrow> u64 \<Rightarrow> u64" where
  "round_up_usize n to = (n + to - 1) AND NOT (to - 1)"

definition round_up :: "nat \<Rightarrow> nat \<Rightarrow> nat" where
  "round_up n to = (n + to - 1) div to * to"

section \<open>Inodes\<close>

datatype inode_header = CompactHeader compact_header | ExtendedHeader extended_header

definition data_layout :: "inode_header \<Rightarrow> data_layout option" where
  "data_layout h = data_layout_of (case h of CompactHeader c \<Rightarrow> c_format c | ExtendedHeader x \<Rightarrow> x_format x)"

definition xattr_icount :: "inode_header \<Rightarrow> u16" where
  "xattr_icount h = (case h of CompactHeader c \<Rightarrow> c_xattr_icount c | ExtendedHeader x \<Rightarrow> x_xattr_icount x)"

definition inode_mode :: "inode_header \<Rightarrow> u16" where
  "inode_mode h = (case h of CompactHeader c \<Rightarrow> c_mode c | ExtendedHeader x \<Rightarrow> x_mode x)"

definition inode_size :: "inode_header \<Rightarrow> u64" where
  "inode_size h = (case h of CompactHeader c \<Rightarrow> ucast (c_size c) | ExtendedHeader x \<Rightarrow> x_size x)"

definition inode_u :: "inode_header \<Rightarrow> u32" where
  "inode_u h = (case h of CompactHeader c \<Rightarrow> c_u c | ExtendedHeader x \<Rightarrow> x_u x)"

definition xattr_size :: "inode_header \<Rightarrow> nat" where
  "xattr_size h = (if xattr_icount h = 0 then 0 else (unat (xattr_icount h) - 1) * 4 + 12)"

definition additional_bytes :: "inode_header \<Rightarrow> u8 \<Rightarrow> nat option" where
  "additional_bytes h bits = do {
     layout \<leftarrow> data_layout h;
     Some (xattr_size h + (case layout of
         FlatPlain \<Rightarrow> 0
       | FlatInline \<Rightarrow> unat (inode_size h) mod 2 ^ unat bits
       | ChunkBased \<Rightarrow> 4))
   }"

text \<open>\<open>InodeType\<close>: the header of either kind and the bytes after it.\<close>

record inode_type =
  header :: inode_header
  data :: bytes

record inode_xattrs =
  ix_header :: inode_xattr_header
  ix_data :: bytes

definition inode_xattrs :: "inode_type \<Rightarrow> inode_xattrs option option" where
  "inode_xattrs i = (let n = xattr_size (header i) in
     if n = 0 then Some None
     else do {
       b \<leftarrow> slice 0 n (data i);
       h \<leftarrow> read_inode_xattr_header b;
       Some (Some \<lparr>ix_header = h, ix_data = drop 12 b\<rparr>)
     })"

definition inline :: "inode_type \<Rightarrow> bytes option option" where
  "inline i = do {
     d \<leftarrow> slice_from (xattr_size (header i)) (data i);
     Some (if d = [] then None else Some d)
   }"

definition div_ceil :: "nat \<Rightarrow> nat \<Rightarrow> nat" where
  "div_ceil a b = (a + b - 1) div b"

text \<open>The range of block numbers, as a list; a sum that overflows \<open>u64\<close> panics.\<close>

definition blocks :: "inode_type \<Rightarrow> u8 \<Rightarrow> nat list option" where
  "blocks i bits = (let size = unat (inode_size (header i)); block_size = 2 ^ unat bits;
       start = unat (inode_u (header i)) in do {
     layout \<leftarrow> data_layout (header i);
     end \<leftarrow> Some (case layout of
         FlatPlain \<Rightarrow> start + div_ceil size block_size
       | FlatInline \<Rightarrow> start + size div block_size
       | ChunkBased \<Rightarrow> start);
     assert_p (end < 2 ^ 64);
     Some [start..<end]
   })"

section \<open>Extended attributes\<close>

record xattr_ref =
  xa_header :: xattr_header
  xa_data :: bytes

definition calculate_n_elems :: "xattr_header \<Rightarrow> nat" where
  "calculate_n_elems h = round_up (unat (name_len h) + unat (value_size h)) 4"

definition from_prefix :: "bytes \<Rightarrow> (xattr_ref \<times> bytes) option" where
  "from_prefix b = do {
     p \<leftarrow> slice 0 4 b;
     h \<leftarrow> read_xattr_header p;
     d \<leftarrow> slice 4 (calculate_n_elems h) b;
     Some (\<lparr>xa_header = h, xa_data = d\<rparr>, drop (4 + calculate_n_elems h) b)
   }"

definition suffix :: "xattr_ref \<Rightarrow> bytes" where
  "suffix x = take (unat (name_len (xa_header x))) (xa_data x)"

definition xattr_value :: "xattr_ref \<Rightarrow> bytes" where
  "xattr_value x = field (unat (name_len (xa_header x))) (unat (value_size (xa_header x))) (xa_data x)"

definition padding :: "xattr_ref \<Rightarrow> bytes" where
  "padding x = drop (unat (name_len (xa_header x)) + unat (value_size (xa_header x))) (xa_data x)"

definition shared :: "inode_xattrs \<Rightarrow> u32 list option" where
  "shared x = (let n = unat (shared_count (ix_header x)) in do {
     b \<leftarrow> slice 0 (4 * n) (ix_data x);
     Some (map (\<lambda>k. get32 (field (4 * k) 4 b)) [0..<n])
   })"

lemma from_prefix_shorter: "from_prefix b = Some (x, rest) \<Longrightarrow> length rest < length b"
  by (auto simp: from_prefix_def slice_def bind_eq_Some_conv split: if_splits)

text \<open>\<open>XAttrIter\<close>, run to its end.\<close>

function xattr_iter :: "bytes \<Rightarrow> xattr_ref list option" where
  "xattr_iter b = (if b = [] then Some [] else
     (case from_prefix b of None \<Rightarrow> None
      | Some (x, rest) \<Rightarrow> map_option ((#) x) (xattr_iter rest)))"
  by pat_completeness auto
termination
  by (relation "measure length") (auto dest: from_prefix_shorter)

declare xattr_iter.simps [simp del]

definition local_xattrs :: "inode_xattrs \<Rightarrow> xattr_ref list option" where
  "local_xattrs x = do {
     b \<leftarrow> slice_from (unat (shared_count (ix_header x)) * 4) (ix_data x);
     xattr_iter b
   }"

section \<open>Images\<close>

record image =
  im_image :: bytes
  im_header :: composefs_header
  im_blkszbits :: u8
  im_block_size :: nat
  im_sb :: superblock
  im_inodes :: bytes
  im_xattrs :: bytes

definition image_open :: "bytes \<Rightarrow> image option" where
  "image_open img = do {
     h \<leftarrow> read_composefs_header img;
     b \<leftarrow> slice_from 1024 img;
     sb \<leftarrow> read_superblock b;
     assert_p (unat (blkszbits sb) < 64);
     block_size \<leftarrow> Some (2 ^ unat (blkszbits sb));
     ns \<leftarrow> slice_from (unat (meta_blkaddr sb) * block_size) img;
     xs \<leftarrow> slice_from (unat (xattr_blkaddr sb) * block_size) img;
     Some \<lparr>im_image = img, im_header = h, im_blkszbits = blkszbits sb, im_block_size = block_size, im_sb = sb,
       im_inodes = ns, im_xattrs = xs\<rparr>
   }"

text \<open>An offset beyond the image, and one that \<open>usize\<close> cannot hold, are panics, as they are with overflow checks.\<close>

definition get_inode :: "image \<Rightarrow> u64 \<Rightarrow> inode_type option" where
  "get_inode img nid = do {
     inode_data \<leftarrow> slice_from (unat nid * 32) (im_inodes img);
     assert_p (inode_data \<noteq> []);
     (h, k) \<leftarrow> (if get8 0 inode_data AND 1 \<noteq> 0
       then do { b \<leftarrow> slice 0 64 inode_data; x \<leftarrow> read_extended_header b; Some (ExtendedHeader x, 64) }
       else do { b \<leftarrow> slice 0 32 inode_data; c \<leftarrow> read_compact_header b; Some (CompactHeader c, 32) });
     n \<leftarrow> additional_bytes h (im_blkszbits img);
     d \<leftarrow> slice k n inode_data;
     Some \<lparr>header = h, data = d\<rparr>
   }"

definition shared_xattr :: "image \<Rightarrow> u32 \<Rightarrow> xattr_ref option" where
  "shared_xattr img xid = do {
     b \<leftarrow> slice_from (unat xid * 4) (im_xattrs img);
     (x, rest) \<leftarrow> from_prefix b;
     Some x
   }"

definition block :: "image \<Rightarrow> nat \<Rightarrow> bytes option" where
  "block img k = slice (k * im_block_size img) (im_block_size img) (im_image img)"

definition root_inode :: "image \<Rightarrow> inode_type option" where
  "root_inode img = get_inode img (ucast (root_nid (im_sb img)))"

section \<open>Directory blocks\<close>

definition get_entry_header :: "bytes \<Rightarrow> nat \<Rightarrow> dirent_header option" where
  "get_entry_header b n = do { e \<leftarrow> slice (n * 12) 12 b; read_dirent_header e }"

definition n_entries :: "bytes \<Rightarrow> nat option" where
  "n_entries b = do {
     first \<leftarrow> get_entry_header b 0;
     offset \<leftarrow> Some (unat (name_offset first));
     assert_p (offset \<noteq> 0);
     assert_p (offset mod 12 = 0);
     Some (offset div 12)
   }"

text \<open>\<open>DirectoryEntries::next\<close> at a position below the length; \<open>partition_point\<close> finds the first zero
  byte when the name is followed by zeros only, as the standard library documents; on other blocks, which the writer
  does not make, its result is unspecified, and this definition takes the first zero byte.\<close>

definition entry_at :: "bytes \<Rightarrow> nat \<Rightarrow> nat \<Rightarrow> (dirent_header \<times> bytes) option" where
  "entry_at b n position = do {
     h \<leftarrow> get_entry_header b position;
     name \<leftarrow> (if position + 1 = n
       then do { with_padding \<leftarrow> slice_from (unat (name_offset h)) b;
                 Some (takeWhile (\<lambda>c. c \<noteq> CHR 0x00) with_padding) }
       else do { next_h \<leftarrow> get_entry_header b (position + 1);
                 assert_p (name_offset h \<le> name_offset next_h);
                 slice (unat (name_offset h)) (unat (name_offset next_h) - unat (name_offset h)) b });
     Some (h, name)
   }"

fun map_opt :: "('a \<Rightarrow> 'b option) \<Rightarrow> 'a list \<Rightarrow> 'b list option" where
  "map_opt f [] = Some []"
| "map_opt f (x # xs) = do { y \<leftarrow> f x; ys \<leftarrow> map_opt f xs; Some (y # ys) }"

definition dir_entries :: "bytes \<Rightarrow> (dirent_header \<times> bytes) list option" where
  "dir_entries b = do { n \<leftarrow> n_entries b; map_opt (entry_at b n) [0..<n] }"

section \<open>Collecting the objects\<close>

text \<open>The sets of the collector: \<open>nids_to_visit\<close>, a \<open>BTreeSet\<close>, is a sorted list.\<close>

record collector =
  visited_nids :: "u64 set"
  nids_to_visit :: "u64 list"
  objects :: "bytes set"

definition visit_xattr :: "hash_alg \<Rightarrow> xattr_ref \<Rightarrow> collector \<Rightarrow> collector" where
  "visit_xattr H attr st =
     (if name_index (xa_header attr) \<noteq> 4 then st
      else if suffix attr \<noteq> ''overlay.metacopy'' then st
      else (case metacopy_digest H (xattr_value attr) of
          None \<Rightarrow> st | Some d \<Rightarrow> st\<lparr>objects := insert d (objects st)\<rparr>))"

definition visit_xattrs :: "hash_alg \<Rightarrow> image \<Rightarrow> inode_xattrs \<Rightarrow> collector \<Rightarrow> collector option" where
  "visit_xattrs H img x st = do {
     ids \<leftarrow> shared x;
     as \<leftarrow> map_opt (shared_xattr img) ids;
     ls \<leftarrow> local_xattrs x;
     Some (fold (visit_xattr H) (as @ ls) st)
   }"

definition visit_entry :: "dirent_header \<times> bytes \<Rightarrow> collector \<Rightarrow> collector" where
  "visit_entry e st = (let nid = inode_offset (fst e) in
     if snd e \<noteq> ''.'' \<and> snd e \<noteq> ''..'' \<and> nid \<notin> visited_nids st
     then st\<lparr>nids_to_visit := insort_insert nid (nids_to_visit st)\<rparr> else st)"

definition visit_directory_block :: "bytes \<Rightarrow> collector \<Rightarrow> collector option" where
  "visit_directory_block b st = do { es \<leftarrow> dir_entries b; Some (fold visit_entry es st) }"

fun visit_blocks :: "image \<Rightarrow> nat list \<Rightarrow> collector \<Rightarrow> collector option" where
  "visit_blocks img [] st = Some st"
| "visit_blocks img (k # ks) st = do {
     b \<leftarrow> block img k; st' \<leftarrow> visit_directory_block b st; visit_blocks img ks st' }"

definition visit_directory :: "image \<Rightarrow> inode_type \<Rightarrow> collector \<Rightarrow> collector option" where
  "visit_directory img i st = do {
     ks \<leftarrow> blocks i (blkszbits (im_sb img));
     st' \<leftarrow> visit_blocks img ks st;
     d \<leftarrow> inline i;
     (case d of None \<Rightarrow> Some st' | Some d \<Rightarrow> visit_directory_block d st')
   }"

definition visit_nid :: "hash_alg \<Rightarrow> image \<Rightarrow> u64 \<Rightarrow> collector \<Rightarrow> collector option" where
  "visit_nid H img nid st = do {
     assert_p (nid \<notin> visited_nids st);
     i \<leftarrow> get_inode img nid;
     x \<leftarrow> inode_xattrs i;
     st' \<leftarrow> (let st0 = st\<lparr>visited_nids := insert nid (visited_nids st)\<rparr> in
       case x of None \<Rightarrow> Some st0 | Some x \<Rightarrow> visit_xattrs H img x st0);
     if is_dir (inode_mode (header i)) then visit_directory img i st' else Some st'
   }"

text \<open>What a visit leaves alone: the visited inodes, apart from the one that it adds.\<close>

lemma visit_entry_visited [simp]: "visited_nids (visit_entry e st) = visited_nids st"
  by (simp add: visit_entry_def Let_def)

lemma visit_xattr_visited [simp]: "visited_nids (visit_xattr H a st) = visited_nids st"
  by (simp add: visit_xattr_def split: option.split)

lemma fold_keeps: "(\<And>x st. g (f x st) = g st) \<Longrightarrow> g (fold f xs st) = g st"
  by (induction xs arbitrary: st) simp_all

lemma visit_xattrs_visited: "visit_xattrs H img x st = Some st' \<Longrightarrow> visited_nids st' = visited_nids st"
  by (auto simp: visit_xattrs_def bind_eq_Some_conv fold_keeps)

lemma visit_directory_block_visited: "visit_directory_block b st = Some st' \<Longrightarrow> visited_nids st' = visited_nids st"
  by (auto simp: visit_directory_block_def bind_eq_Some_conv fold_keeps)

lemma visit_blocks_visited: "visit_blocks img ks st = Some st' \<Longrightarrow> visited_nids st' = visited_nids st"
  by (induction ks arbitrary: st) (auto simp: bind_eq_Some_conv dest!: visit_directory_block_visited)

lemma visit_directory_visited:
  assumes "visit_directory img i st = Some st'"
  shows "visited_nids st' = visited_nids st"
proof -
  obtain ks st1 d where "visit_blocks img ks st = Some st1"
    "(case d of None \<Rightarrow> Some st1 | Some d \<Rightarrow> visit_directory_block d st1) = Some st'"
    using assms by (auto simp: visit_directory_def bind_eq_Some_conv)
  then show ?thesis
    by (cases d) (auto dest: visit_directory_block_visited visit_blocks_visited)
qed

lemma visit_nid_visited:
  assumes "visit_nid H img nid st = Some st'"
  shows "nid \<notin> visited_nids st \<and> visited_nids st' = insert nid (visited_nids st)"
proof -
  let ?st = "st\<lparr>visited_nids := insert nid (visited_nids st)\<rparr>"
  obtain i x st1 where n: "nid \<notin> visited_nids st"
    and x: "(case x of None \<Rightarrow> Some ?st | Some x \<Rightarrow> visit_xattrs H img x ?st) = Some st1"
    and d: "(if is_dir (inode_mode (header i)) then visit_directory img i st1 else Some st1) = Some st'"
    using assms by (auto simp: visit_nid_def bind_eq_Some_conv Let_def)
  have "visited_nids st1 = visited_nids ?st"
    using x by (cases x) (auto dest: visit_xattrs_visited)
  moreover have "visited_nids st' = visited_nids st1"
    using d by (auto split: if_splits dest: visit_directory_visited)
  ultimately show ?thesis using n by simp
qed

function collect_loop :: "hash_alg \<Rightarrow> image \<Rightarrow> collector \<Rightarrow> collector option" where
  "collect_loop H img st = (case nids_to_visit st of
       [] \<Rightarrow> Some st
     | nid # rest \<Rightarrow>
         (case visit_nid H img nid (st\<lparr>nids_to_visit := rest\<rparr>) of
            None \<Rightarrow> None | Some st' \<Rightarrow> collect_loop H img st'))"
  by pat_completeness auto
termination
proof (relation "measure (\<lambda>(H, img, st). card (- visited_nids st))")
  fix H img st nid rest st'
  assume "visit_nid H img nid (st\<lparr>nids_to_visit := rest\<rparr>) = Some st'"
  then have "nid \<notin> visited_nids st" "visited_nids st' = insert nid (visited_nids st)"
    using visit_nid_visited by fastforce+
  then have "- visited_nids st' \<subset> - visited_nids st" by auto
  then show "((H, img, st'), H, img, st) \<in> measure (\<lambda>(H, img, st). card (- visited_nids st))"
    by (simp add: psubset_card_mono)
qed simp

declare collect_loop.simps [simp del]

definition collect_objects :: "hash_alg \<Rightarrow> bytes \<Rightarrow> bytes set option" where
  "collect_objects H b = do {
     img \<leftarrow> image_open b;
     st \<leftarrow> collect_loop H img
       \<lparr>visited_nids = {}, nids_to_visit = [ucast (root_nid (im_sb img))], objects = {}\<rparr>;
     Some (objects st)
   }"

end
