(* ===== verification/Erofs_Collect.thy ===== *)
theory Erofs_Collect
  imports Erofs_Reader
begin

text \<open>
  What \<open>collect_objects\<close> of \<open>erofs/reader.rs\<close> computes: the worklist loop visits exactly the inodes
  that the directory entries reach from the root, whatever the image holds. \<open>scan\<close> is what one
  inode contributes, and \<open>reachable\<close> is the closure under its children.
\<close>

section \<open>What one inode contributes\<close>

definition xattr_objects :: "hash_alg \<Rightarrow> xattr_ref \<Rightarrow> bytes set" where
  "xattr_objects H a = (if name_index (xa_header a) = 4 \<and> suffix a = ''overlay.metacopy''
     then set_option (metacopy_digest H (xattr_value a)) else {})"

definition inode_attrs :: "image \<Rightarrow> inode_type \<Rightarrow> xattr_ref list option" where
  "inode_attrs img i = do {
     x \<leftarrow> inode_xattrs i;
     (case x of None \<Rightarrow> Some []
      | Some x \<Rightarrow> do { ids \<leftarrow> shared x; as \<leftarrow> map_opt (shared_xattr img) ids; ls \<leftarrow> local_xattrs x; Some (as @ ls) })
   }"

definition entry_nids :: "(dirent_header \<times> bytes) list \<Rightarrow> u64 set" where
  "entry_nids es = {inode_offset h | h n. (h, n) \<in> set es \<and> n \<noteq> ''.'' \<and> n \<noteq> ''..''}"

fun blocks_entries :: "image \<Rightarrow> nat list \<Rightarrow> (dirent_header \<times> bytes) list option" where
  "blocks_entries img [] = Some []"
| "blocks_entries img (k # ks) = do {
     b \<leftarrow> block img k; es \<leftarrow> dir_entries b; rest \<leftarrow> blocks_entries img ks; Some (es @ rest) }"

definition inode_entries :: "image \<Rightarrow> inode_type \<Rightarrow> (dirent_header \<times> bytes) list option" where
  "inode_entries img i = (if is_dir (inode_mode (header i)) then do {
       ks \<leftarrow> blocks i (blkszbits (im_sb img));
       es \<leftarrow> blocks_entries img ks;
       d \<leftarrow> inline i;
       (case d of None \<Rightarrow> Some es | Some d \<Rightarrow> do { more \<leftarrow> dir_entries d; Some (es @ more) })
     } else Some [])"

definition scan :: "hash_alg \<Rightarrow> image \<Rightarrow> u64 \<Rightarrow> (bytes set \<times> u64 set) option" where
  "scan H img nid = do {
     i \<leftarrow> get_inode img nid;
     as \<leftarrow> inode_attrs img i;
     es \<leftarrow> inode_entries img i;
     Some (\<Union> (xattr_objects H ` set as), entry_nids es)
   }"

lemma entry_nids_simps [simp]:
  "entry_nids [] = {}" "entry_nids (es @ es') = entry_nids es \<union> entry_nids es'"
  by (auto simp: entry_nids_def)

section \<open>A visit adds what the inode contributes\<close>

definition grown :: "bytes set \<Rightarrow> u64 set \<Rightarrow> collector \<Rightarrow> collector \<Rightarrow> bool" where
  "grown os ks st st' \<longleftrightarrow> visited_nids st' = visited_nids st \<and> objects st' = objects st \<union> os \<and>
     set (nids_to_visit st') = set (nids_to_visit st) \<union> (ks - visited_nids st) \<and>
     (distinct (nids_to_visit st) \<longrightarrow> distinct (nids_to_visit st'))"

lemma grown_refl [simp]: "grown {} {} st st"
  by (simp add: grown_def)

lemma grown_trans: "grown os ks st st1 \<Longrightarrow> grown os' ks' st1 st2 \<Longrightarrow> grown (os \<union> os') (ks \<union> ks') st st2"
  by (auto simp: grown_def)

lemma grown_visit_xattr: "grown (xattr_objects H a) {} st (visit_xattr H a st)"
  by (simp add: grown_def visit_xattr_def xattr_objects_def split: option.split)

lemma grown_visit_entry: "grown {} (entry_nids [e]) st (visit_entry e st)"
  by (cases e) (auto simp: grown_def visit_entry_def entry_nids_def Let_def set_insort_insert
      distinct_insort_insert)

lemma grown_attrs: "grown (\<Union> (xattr_objects H ` set as)) {} st (fold (visit_xattr H) as st)"
proof (induction as arbitrary: st)
  case (Cons a as)
  then show ?case using grown_trans [OF grown_visit_xattr Cons] by simp
qed simp

lemma grown_entries: "grown {} (entry_nids es) st (fold visit_entry es st)"
proof (induction es arbitrary: st)
  case (Cons e es)
  then show ?case using grown_trans [OF grown_visit_entry Cons] entry_nids_simps(2) [of "[e]" es] by simp
qed simp

text \<open>\<open>visits f r\<close>: the visitor \<open>f\<close> panics where \<open>r\<close> is \<open>None\<close> and adds \<open>r\<close> elsewhere.\<close>

definition visits :: "(collector \<Rightarrow> collector option) \<Rightarrow> (bytes set \<times> u64 set) option \<Rightarrow> bool" where
  "visits f r \<longleftrightarrow> (\<forall>st. case r of None \<Rightarrow> f st = None
     | Some (os, ks) \<Rightarrow> \<exists>st'. f st = Some st' \<and> grown os ks st st')"

lemma visits_return [simp]: "visits Some (Some ({}, {}))"
  by (simp add: visits_def)

lemma visits_fold: "(\<And>st. grown os ks st (f st)) \<Longrightarrow> visits (\<lambda>st. Some (f st)) (Some (os, ks))"
  by (simp add: visits_def)

lemma visits_seq:
  assumes "visits f r" "visits g q"
  shows "visits (\<lambda>st. do { st' \<leftarrow> f st; g st' })
    (do { (os, ks) \<leftarrow> r; (os', ks') \<leftarrow> q; Some (os \<union> os', ks \<union> ks') })"
  unfolding visits_def
proof
  fix st
  show "case (do { (os, ks) \<leftarrow> r; (os', ks') \<leftarrow> q; Some (os \<union> os', ks \<union> ks') }) of
      None \<Rightarrow> (do { st' \<leftarrow> f st; g st' }) = None
    | Some (os, ks) \<Rightarrow> \<exists>st'. (do { st' \<leftarrow> f st; g st' }) = Some st' \<and> grown os ks st st'"
  proof (cases r)
    case None
    then show ?thesis using assms(1) by (simp add: visits_def)
  next
    case (Some p)
    then obtain os ks st1 where f: "r = Some (os, ks)" "f st = Some st1" "grown os ks st st1"
      using assms(1) by (cases p) (force simp: visits_def)
    show ?thesis
    proof (cases q)
      case None
      then show ?thesis using assms(2) f by (simp add: visits_def)
    next
      case (Some p')
      then obtain os' ks' st2 where "q = Some (os', ks')" "g st1 = Some st2" "grown os' ks' st1 st2"
        using assms(2) by (cases p') (force simp: visits_def)
      then show ?thesis using f grown_trans by fastforce
    qed
  qed
qed

lemma visits_bind:
  "(\<And>x. m = Some x \<Longrightarrow> visits (f x) (r x)) \<Longrightarrow> visits (\<lambda>st. Option.bind m (\<lambda>x. f x st)) (Option.bind m r)"
  by (cases m) (auto simp: visits_def)

lemma visits_block:
  "visits (visit_directory_block b) (do { es \<leftarrow> dir_entries b; Some ({}, entry_nids es) })"
  unfolding visit_directory_block_def
  by (intro visits_bind visits_fold grown_entries)

lemma visits_blocks:
  "visits (visit_blocks img ks) (do { es \<leftarrow> blocks_entries img ks; Some ({}, entry_nids es) })"
proof (induction ks)
  case (Cons k ks)
  have "visits (\<lambda>st. do { b \<leftarrow> block img k; do { st' \<leftarrow> visit_directory_block b st; visit_blocks img ks st' } })
    (do { b \<leftarrow> block img k; do { (os, ns) \<leftarrow> do { es \<leftarrow> dir_entries b; Some ({}, entry_nids es) };
       (os', ns') \<leftarrow> do { es \<leftarrow> blocks_entries img ks; Some ({}, entry_nids es) };
       Some (os \<union> os', ns \<union> ns') } })"
    by (intro visits_bind visits_seq visits_block Cons.IH)
  then show ?case by (simp add: Option.bind_assoc cong: Option.bind_cong)
qed simp


lemma visits_directory:
  "visits (visit_directory img i) (do {
     ks \<leftarrow> blocks i (blkszbits (im_sb img)); es \<leftarrow> blocks_entries img ks; d \<leftarrow> inline i;
     (case d of None \<Rightarrow> Some ({}, entry_nids es)
      | Some d \<Rightarrow> do { more \<leftarrow> dir_entries d; Some ({}, entry_nids (es @ more)) }) })"
proof -
  have last: "visits (\<lambda>st. do { d \<leftarrow> inline i; (case d of None \<Rightarrow> Some st | Some d \<Rightarrow> visit_directory_block d st) })
    (do { d \<leftarrow> inline i; (case d of None \<Rightarrow> Some ({}, {})
      | Some d \<Rightarrow> do { more \<leftarrow> dir_entries d; Some ({}, entry_nids more) }) })"
    by (rule visits_bind) (auto intro: visits_block split: option.split)
  have "visits (\<lambda>st. do { ks \<leftarrow> blocks i (blkszbits (im_sb img)); do { st' \<leftarrow> visit_blocks img ks st;
      do { d \<leftarrow> inline i; (case d of None \<Rightarrow> Some st' | Some d \<Rightarrow> visit_directory_block d st') } } })
    (do { ks \<leftarrow> blocks i (blkszbits (im_sb img)); do {
      (os, ns) \<leftarrow> do { es \<leftarrow> blocks_entries img ks; Some ({}, entry_nids es) };
      (os', ns') \<leftarrow> do { d \<leftarrow> inline i; (case d of None \<Rightarrow> Some ({}, {})
        | Some d \<Rightarrow> do { more \<leftarrow> dir_entries d; Some ({}, entry_nids more) }) };
      Some (os \<union> os', ns \<union> ns') } })"
    by (intro visits_bind visits_seq visits_blocks last)
  moreover have "(do { ks \<leftarrow> blocks i (blkszbits (im_sb img)); do {
      (os, ns) \<leftarrow> do { es \<leftarrow> blocks_entries img ks; Some ({} :: bytes set, entry_nids es) };
      (os', ns') \<leftarrow> do { d \<leftarrow> inline i; (case d of None \<Rightarrow> Some ({} :: bytes set, {})
        | Some d \<Rightarrow> do { more \<leftarrow> dir_entries d; Some ({} :: bytes set, entry_nids more) }) };
      Some (os \<union> os', ns \<union> ns') } }) = (do {
     ks \<leftarrow> blocks i (blkszbits (im_sb img)); es \<leftarrow> blocks_entries img ks; d \<leftarrow> inline i;
     (case d of None \<Rightarrow> Some ({} :: bytes set, entry_nids es)
      | Some d \<Rightarrow> do { more \<leftarrow> dir_entries d; Some ({} :: bytes set, entry_nids (es @ more)) }) })"
    by (auto simp: Option.bind_assoc intro!: Option.bind_cong split: option.split)
  ultimately show ?thesis unfolding visit_directory_def [abs_def] by (simp only:)
qed

lemma visits_attrs:
  "visits (\<lambda>st. case x of None \<Rightarrow> Some st | Some x \<Rightarrow> visit_xattrs H img x st)
    (case x of None \<Rightarrow> Some ({}, {})
     | Some x \<Rightarrow> do { ids \<leftarrow> shared x; as \<leftarrow> map_opt (shared_xattr img) ids; ls \<leftarrow> local_xattrs x;
         Some (\<Union> (xattr_objects H ` set (as @ ls)), {}) })"
  unfolding visit_xattrs_def
  by (cases x) (simp_all, intro visits_bind visits_fold grown_attrs [of _ "_ @ _", simplified])

lemma visits_scan:
  "visits (\<lambda>st. do { i \<leftarrow> get_inode img nid; x \<leftarrow> inode_xattrs i;
       st' \<leftarrow> (case x of None \<Rightarrow> Some st | Some x \<Rightarrow> visit_xattrs H img x st);
       if is_dir (inode_mode (header i)) then visit_directory img i st' else Some st' })
     (scan H img nid)"
proof -
  have dir: "visits (\<lambda>st. if is_dir (inode_mode (header i)) then visit_directory img i st else Some st)
      (do { es \<leftarrow> inode_entries img i; Some ({}, entry_nids es) })" for i
  proof (cases "is_dir (inode_mode (header i))")
    case True
    have "(do { es \<leftarrow> inode_entries img i; Some ({}, entry_nids es) }) = (do {
       ks \<leftarrow> blocks i (blkszbits (im_sb img)); es \<leftarrow> blocks_entries img ks; d \<leftarrow> inline i;
       (case d of None \<Rightarrow> Some ({}, entry_nids es)
        | Some d \<Rightarrow> do { more \<leftarrow> dir_entries d; Some ({} :: bytes set, entry_nids (es @ more)) }) })"
      using True by (auto simp: inode_entries_def Option.bind_assoc intro!: Option.bind_cong split: option.split)
    then show ?thesis using visits_directory True by simp
  qed (simp add: inode_entries_def)
  let ?attrs = "\<lambda>x. case x of None \<Rightarrow> Some ({}, {})
     | Some x \<Rightarrow> do { ids \<leftarrow> shared x; as \<leftarrow> map_opt (shared_xattr img) ids; ls \<leftarrow> local_xattrs x;
         Some (\<Union> (xattr_objects H ` set (as @ ls)), {} :: u64 set) }"
  have "visits (\<lambda>st. do { i \<leftarrow> get_inode img nid; do { x \<leftarrow> inode_xattrs i; do {
       st' \<leftarrow> (case x of None \<Rightarrow> Some st | Some x \<Rightarrow> visit_xattrs H img x st);
       if is_dir (inode_mode (header i)) then visit_directory img i st' else Some st' } } })
     (do { i \<leftarrow> get_inode img nid; do { x \<leftarrow> inode_xattrs i; do { (os, ks) \<leftarrow> ?attrs x;
       (os', ks') \<leftarrow> do { es \<leftarrow> inode_entries img i; Some ({}, entry_nids es) };
       Some (os \<union> os', ks \<union> ks') } } })"
    by (intro visits_bind visits_seq visits_attrs dir)
  moreover have "(do { i \<leftarrow> get_inode img nid; do { x \<leftarrow> inode_xattrs i; do { (os, ks) \<leftarrow> ?attrs x;
       (os', ks') \<leftarrow> do { es \<leftarrow> inode_entries img i; Some ({}, entry_nids es) };
       Some (os \<union> os', ks \<union> ks') } } }) = scan H img nid"
    by (auto simp: scan_def inode_attrs_def Option.bind_assoc intro!: Option.bind_cong split: option.split)
  ultimately show ?thesis by (simp only:)
qed

lemma visit_nid_scan:
  assumes "nid \<notin> visited_nids st"
  shows "case scan H img nid of None \<Rightarrow> visit_nid H img nid st = None
    | Some (os, ks) \<Rightarrow> \<exists>st'. visit_nid H img nid st = Some st' \<and>
        grown os ks (st\<lparr>visited_nids := insert nid (visited_nids st)\<rparr>) st'"
proof -
  have "visit_nid H img nid st = do { i \<leftarrow> get_inode img nid; x \<leftarrow> inode_xattrs i;
       st' \<leftarrow> (case x of None \<Rightarrow> Some (st\<lparr>visited_nids := insert nid (visited_nids st)\<rparr>)
         | Some x \<Rightarrow> visit_xattrs H img x (st\<lparr>visited_nids := insert nid (visited_nids st)\<rparr>));
       if is_dir (inode_mode (header i)) then visit_directory img i st' else Some st' }"
    using assms by (simp add: visit_nid_def Let_def)
  then show ?thesis
    using spec [OF visits_scan [of img nid H, unfolded visits_def],
      of "st\<lparr>visited_nids := insert nid (visited_nids st)\<rparr>"] by (simp only:)
qed

section \<open>The loop visits what is reachable\<close>

inductive reachable :: "hash_alg \<Rightarrow> image \<Rightarrow> u64 \<Rightarrow> u64 \<Rightarrow> bool" for H img r where
  root: "reachable H img r r"
| child: "reachable H img r n \<Longrightarrow> scan H img n = Some (os, ks) \<Longrightarrow> k \<in> ks \<Longrightarrow> reachable H img r k"

definition loop_inv :: "hash_alg \<Rightarrow> image \<Rightarrow> u64 \<Rightarrow> collector \<Rightarrow> bool" where
  "loop_inv H img r st \<longleftrightarrow> distinct (nids_to_visit st) \<and> set (nids_to_visit st) \<inter> visited_nids st = {} \<and>
     r \<in> visited_nids st \<union> set (nids_to_visit st) \<and>
     (\<forall>n \<in> visited_nids st \<union> set (nids_to_visit st). reachable H img r n) \<and>
     (\<forall>n \<in> visited_nids st. \<exists>os ks. scan H img n = Some (os, ks) \<and>
        ks \<subseteq> visited_nids st \<union> set (nids_to_visit st)) \<and>
     objects st = \<Union> {os. \<exists>n \<in> visited_nids st. \<exists>ks. scan H img n = Some (os, ks)}"

definition reachable_objects :: "hash_alg \<Rightarrow> image \<Rightarrow> u64 \<Rightarrow> bytes set" where
  "reachable_objects H img r = \<Union> {os. \<exists>n ks. reachable H img r n \<and> scan H img n = Some (os, ks)}"

lemma loop_inv_step:
  assumes inv: "loop_inv H img r st" and t: "nids_to_visit st = nid # rest"
    and v: "visit_nid H img nid (st\<lparr>nids_to_visit := rest\<rparr>) = Some st'"
  shows "loop_inv H img r st'"
proof -
  have nid: "nid \<notin> visited_nids st" "reachable H img r nid" using inv t by (auto simp: loop_inv_def)
  obtain os ks where sc: "scan H img nid = Some (os, ks)"
    and g: "grown os ks (st\<lparr>nids_to_visit := rest, visited_nids := insert nid (visited_nids st)\<rparr>) st'"
    using visit_nid_scan [of nid "st\<lparr>nids_to_visit := rest\<rparr>" H img] nid v
    by (auto split: option.splits prod.splits)
  have v': "visited_nids st' = insert nid (visited_nids st)"
    and t': "set (nids_to_visit st') = set rest \<union> (ks - insert nid (visited_nids st))"
    and o': "objects st' = objects st \<union> os"
    using g by (simp_all add: grown_def)
  have d: "distinct (nids_to_visit st')" using g inv t by (simp add: grown_def loop_inv_def)
  have "\<forall>n \<in> visited_nids st \<union> set rest. reachable H img r n"
    using inv t by (simp add: loop_inv_def)
  then have re: "\<forall>n \<in> visited_nids st' \<union> set (nids_to_visit st'). reachable H img r n"
    using nid child [OF nid(2) sc] by (auto simp: v' t')
  have cl: "\<exists>os ks. scan H img n = Some (os, ks) \<and> ks \<subseteq> visited_nids st' \<union> set (nids_to_visit st')"
    if "n \<in> visited_nids st'" for n
  proof (cases "n = nid")
    case True
    then show ?thesis using sc by (auto simp: v' t')
  next
    case False
    then have "n \<in> visited_nids st" using that v' by simp
    then obtain os' ks' where "scan H img n = Some (os', ks')" "ks' \<subseteq> visited_nids st \<union> set (nids_to_visit st)"
      using inv unfolding loop_inv_def by blast
    then show ?thesis by (auto simp: v' t' t)
  qed
  have "objects st' = \<Union> {os. \<exists>n \<in> visited_nids st'. \<exists>ks. scan H img n = Some (os, ks)}"
    using inv sc by (auto simp: loop_inv_def v' o')
  then show ?thesis using inv t d re cl
    by (auto simp: loop_inv_def v' t')
qed

lemma collect_loop_objects:
  assumes "loop_inv H img r st"
  shows "(case collect_loop H img st of
      None \<Rightarrow> \<exists>n. reachable H img r n \<and> scan H img n = None
    | Some st' \<Rightarrow> (\<forall>n. reachable H img r n \<longrightarrow> scan H img n \<noteq> None) \<and> objects st' = reachable_objects H img r)"
  using assms
proof (induction H img st rule: collect_loop.induct)
  case (1 H img st)
  show ?case
  proof (cases "nids_to_visit st")
    case Nil
    have "n \<in> visited_nids st" if "reachable H img r n" for n
      using that
    proof induction
      case (child n os ks k)
      then show ?case using "1.prems" Nil by (fastforce simp: loop_inv_def)
    qed (use "1.prems" Nil in \<open>simp add: loop_inv_def\<close>)
    then have "reachable H img r n \<longleftrightarrow> n \<in> visited_nids st" for n
      using "1.prems" by (auto simp: loop_inv_def)
    moreover have "objects st = \<Union> {os. \<exists>n \<in> visited_nids st. \<exists>ks. scan H img n = Some (os, ks)}"
      and "\<forall>n \<in> visited_nids st. scan H img n \<noteq> None"
      using "1.prems" by (auto simp: loop_inv_def)
    moreover have "collect_loop H img st = Some st" using Nil by (subst collect_loop.simps) simp
    ultimately show ?thesis by (simp add: reachable_objects_def Bex_def)
  next
    case (Cons nid rest)
    have nid: "nid \<notin> visited_nids st" "reachable H img r nid"
      using "1.prems" Cons by (auto simp: loop_inv_def)
    show ?thesis
    proof (cases "visit_nid H img nid (st\<lparr>nids_to_visit := rest\<rparr>)")
      case None
      then have "scan H img nid = None"
        using visit_nid_scan [of nid "st\<lparr>nids_to_visit := rest\<rparr>" H img] nid by (auto split: option.splits)
      then show ?thesis using None Cons nid by (subst collect_loop.simps) auto
    next
      case (Some st')
      have "loop_inv H img r st'" by (rule loop_inv_step [OF "1.prems" Cons Some])
      then show ?thesis using "1.IH" [OF Cons Some] Cons Some by (subst collect_loop.simps) simp
    qed
  qed
qed


text \<open>
  C25: Whatever bytes \<open>collect_objects\<close> is given: it returns exactly when the headers can be read
  and every inode that directory entries reach from the root can be read, and then it returns exactly
  the digests of the metacopy attributes of those inodes. So cycles and shared children end the loop
  and repeat nothing, and the order of the worklist does not matter.
\<close>

theorem collect_objects_reachable:
  "collect_objects H b = (case image_open b of None \<Rightarrow> None
     | Some img \<Rightarrow> (let r = ucast (root_nid (im_sb img)) in
         if \<exists>n. reachable H img r n \<and> scan H img n = None then None
         else Some (reachable_objects H img r)))"
proof (cases "image_open b")
  case (Some img)
  let ?r = "ucast (root_nid (im_sb img)) :: u64"
  have "loop_inv H img ?r \<lparr>visited_nids = {}, nids_to_visit = [?r], objects = {}\<rparr>"
    by (simp add: loop_inv_def root)
  from collect_loop_objects [OF this] show ?thesis
    using Some by (auto simp: collect_objects_def Let_def split: option.splits)
qed (simp add: collect_objects_def)

end
