(* ===== verification/Repository.thy ===== *)
theory Repository
  imports Repo_Links Splitstream Erofs_Collect
begin

text \<open>
  Models the streams and images of \<open>crates/composefs/src/repository.rs\<close>: writing a split stream or an
  image and giving it a name, finding it again, and opening it. The kernel does not fail for other
  reasons than those of \<open>Repo_Links\<close>, \<open>sync\<close> has no effect on the state, and names are UTF-8.
\<close>

section \<open>Errors and names\<close>

datatype op_error =
    Link link_error
  | Store repo_error
  | Stream stream_error
  | BadPrefix
  | BadName from_hex_error
  | NotAnObject
  | UnexpectedFileType
  | NonSymlink
  | VerityMismatch
  | CallbackFailed

definition io_err :: "('e \<Rightarrow> 'f) \<Rightarrow> ('e, 's, 'a) io \<Rightarrow> ('f, 's, 'a) io" where
  "io_err g m = (\<lambda>s. map_option (\<lambda>(r, s'). (map_err g r, s')) (m s))"

definition format_object_path :: "hex_crate \<Rightarrow> bytes \<Rightarrow> bytes" where
  "format_object_path hx oid = ''objects/'' @ to_object_pathname hx oid"

definition format_stream_path :: "bytes \<Rightarrow> bytes" where
  "format_stream_path cid = ''streams/'' @ cid"

section \<open>Streams\<close>

definition create_stream :: "u64 \<Rightarrow> writer" where
  "create_stream ctype = writer_new ctype"

definition has_stream :: "hex_crate \<Rightarrow> hash_alg \<Rightarrow> bytes \<Rightarrow> (op_error, 'z link_repo_scheme, bytes option) io" where
  "has_stream hx H cid = (\<lambda>s. Some (case readlinkat s (format_stream_path cid) of
       Inr target \<Rightarrow> (if starts_with ''../'' target
         then rbind (map_err BadName (from_object_pathname hx H target)) (\<lambda>oid. Inr (Some oid)) else Inl BadPrefix)
     | Inl (Errno ENOENT) \<Rightarrow> Inr None
     | Inl e \<Rightarrow> Inl (Link (Path e)), s))"

text \<open>The end of \<open>write_stream\<close>, \<open>write_stream_async\<close> and \<open>register_stream\<close>.\<close>

definition name_reference :: "bytes \<Rightarrow> bytes option \<Rightarrow> (op_error, 'z link_repo_scheme, unit) io" where
  "name_reference stream_path ref = (case ref of
       None \<Rightarrow> io_return ()
     | Some name \<Rightarrow> io_err Link (symlink (''streams/refs/'' @ name) stream_path))"

definition register_stream :: "hex_crate \<Rightarrow> bytes \<Rightarrow> bytes \<Rightarrow> bytes option \<Rightarrow> (op_error, 'z link_repo_scheme, unit) io" where
  "register_stream hx oid cid ref =
     io_bind (io_err Link (symlink (format_stream_path cid) (format_object_path hx oid))) (\<lambda>_.
       name_reference (format_stream_path cid) ref)"

definition write_stream :: "zstd \<Rightarrow> hex_crate \<Rightarrow> kernel \<Rightarrow> hash_alg \<Rightarrow> writer \<Rightarrow> bytes \<Rightarrow> bytes option \<Rightarrow>
    (op_error, 'z link_repo_scheme, bytes) io" where
  "write_stream Z hx K H w cid ref =
     io_bind (io_err Stream (writer_done Z hx K H w)) (\<lambda>oid.
     io_bind (io_err Link (symlink (format_stream_path cid) (format_object_path hx oid))) (\<lambda>_.
     io_bind (name_reference (format_stream_path cid) ref) (\<lambda>_. io_return oid)))"

definition done_async :: "zstd \<Rightarrow> hex_crate \<Rightarrow> kernel \<Rightarrow> hash_alg \<Rightarrow> writer \<Rightarrow> (stream_error, 'z repo_scheme, bytes) io" where
  "done_async = writer_done"

definition write_stream_async :: "zstd \<Rightarrow> hex_crate \<Rightarrow> kernel \<Rightarrow> hash_alg \<Rightarrow> writer \<Rightarrow> bytes \<Rightarrow> bytes option \<Rightarrow>
    (op_error, 'z link_repo_scheme, bytes) io" where
  "write_stream_async Z hx K H w cid ref =
     io_bind (io_err Stream (done_async Z hx K H w)) (\<lambda>oid.
     io_bind (io_err Link (symlink (format_stream_path cid) (format_object_path hx oid))) (\<lambda>_.
     io_bind (name_reference (format_stream_path cid) ref) (\<lambda>_. io_return oid)))"

text \<open>\<open>statat\<close> without flags follows the link and reports what it leads to.\<close>

definition has_named_stream :: "bytes \<Rightarrow> (op_error, 'z link_repo_scheme, bool) io" where
  "has_named_stream name = (\<lambda>s. Some (case lookup_path s (''streams/refs/'' @ name) of
       Inr p \<Rightarrow> Inr (case entry_kind s p of Some (KLink _) \<Rightarrow> True | _ \<Rightarrow> False)
     | Inl (Errno ENOENT) \<Rightarrow> Inr False
     | Inl e \<Rightarrow> Inl (Link (Path e)), s))"

definition name_stream :: "bytes \<Rightarrow> bytes \<Rightarrow> (op_error, 'z link_repo_scheme, unit) io" where
  "name_stream cid name = io_err Link (symlink (''streams/refs/'' @ name) (format_stream_path cid))"

definition ensure_stream :: "zstd \<Rightarrow> hex_crate \<Rightarrow> kernel \<Rightarrow> hash_alg \<Rightarrow> bytes \<Rightarrow> u64 \<Rightarrow>
    (writer \<Rightarrow> (op_error, 'z link_repo_scheme, writer) io) \<Rightarrow> bytes option \<Rightarrow> (op_error, 'z link_repo_scheme, bytes) io" where
  "ensure_stream Z hx K H cid ctype callback ref =
     io_bind (has_stream hx H cid) (\<lambda>found.
     io_bind (case found of
         Some oid \<Rightarrow> io_return oid
       | None \<Rightarrow> io_bind (callback (create_stream ctype)) (\<lambda>w. write_stream Z hx K H w cid ref)) (\<lambda>oid.
     io_bind (name_reference (format_stream_path cid) ref) (\<lambda>_. io_return oid)))"

text \<open>Opening a path: only objects have contents.\<close>

definition open_file :: "'z link_repo_scheme \<Rightarrow> bytes \<Rightarrow> op_error + verity_file" where
  "open_file s path = rbind (map_err (\<lambda>e. Link (Path e)) (lookup_path s path)) (\<lambda>p. case p of
       [d, b, n] \<Rightarrow> if d = OBJECTS then ok_or (bt_get (repo.objects s) (b @ ''/'' @ n)) NotAnObject else Inl NotAnObject
     | _ \<Rightarrow> Inl NotAnObject)"

definition open_stream :: "zstd \<Rightarrow> hex_crate \<Rightarrow> kernel \<Rightarrow> hash_alg \<Rightarrow> bytes \<Rightarrow> bytes option \<Rightarrow> u64 option \<Rightarrow>
    (op_error, 'z link_repo_scheme, reader) io" where
  "open_stream Z hx K H cid verity expected =
     io_bind (case verity of
         Some oid \<Rightarrow> io_err Store (open_object hx K H oid)
       | None \<Rightarrow> (\<lambda>s. Some (open_file s (format_stream_path cid), s))) (\<lambda>f.
       io_lift (map_err Stream (reader_new Z H (file_data f) expected)))"

definition merge_splitstream :: "zstd \<Rightarrow> hex_crate \<Rightarrow> kernel \<Rightarrow> hash_alg \<Rightarrow> bytes \<Rightarrow> bytes option \<Rightarrow> u64 option \<Rightarrow>
    (op_error, 'z link_repo_scheme, bytes) io" where
  "merge_splitstream Z hx K H cid verity expected =
     io_bind (open_stream Z hx K H cid verity expected) (\<lambda>r. io_err Stream (cat hx K H r))"

section \<open>Images\<close>

definition write_image :: "hex_crate \<Rightarrow> kernel \<Rightarrow> hash_alg \<Rightarrow> bytes option \<Rightarrow> bytes \<Rightarrow> (op_error, 'z link_repo_scheme, bytes) io" where
  "write_image hx K H name blob =
     io_bind (io_err Store (ensure_object hx K H blob)) (\<lambda>oid.
       let image_path = ''images/'' @ to_hex hx oid in
     io_bind (io_err Link (symlink image_path (format_object_path hx oid))) (\<lambda>_.
     io_bind (case name of
         None \<Rightarrow> io_return ()
       | Some reference \<Rightarrow> io_err Link (symlink (''images/refs/'' @ reference) image_path)) (\<lambda>_. io_return oid)))"

definition import_image :: "hex_crate \<Rightarrow> kernel \<Rightarrow> hash_alg \<Rightarrow> bytes \<Rightarrow> bytes \<Rightarrow> (op_error, 'z link_repo_scheme, bytes) io" where
  "import_image hx K H name blob = write_image hx K H (Some name) blob"

text \<open>The flag says whether a mount should require fs-verity.\<close>

definition open_image :: "hex_crate \<Rightarrow> kernel \<Rightarrow> hash_alg \<Rightarrow> bytes \<Rightarrow> (op_error, 'z link_repo_scheme, verity_file \<times> bool) io" where
  "open_image hx K H name = (\<lambda>s. Some (rbind (open_file s (''images/'' @ name)) (\<lambda>f.
     if SLASH \<in> set name then Inr (f, True)
     else (case measure_verity K H f of
         Inr found \<Rightarrow> rbind (map_err BadName (from_hex hx H name)) (\<lambda>expected.
           if found = expected then Inr (f, True) else Inl VerityMismatch)
       | Inl e \<Rightarrow> if (e = VerityMissing \<or> e = MeasureNotSupported) \<and> insecure s then Inr (f, False)
           else Inl (Store (MeasureFailed e)))), s))"

text \<open>The reader of images has no errors: on an image that it cannot read it panics.\<close>

definition objects_for_image :: "hex_crate \<Rightarrow> kernel \<Rightarrow> hash_alg \<Rightarrow> bytes \<Rightarrow> (op_error, 'z link_repo_scheme, bytes set) io" where
  "objects_for_image hx K H name = io_bind (open_image hx K H name) (\<lambda>(f, _).
     case collect_objects H (file_data f) of None \<Rightarrow> (\<lambda>_. None) | Some os \<Rightarrow> io_return os)"

end
