(* ===== verification/Repo_Gc.thy ===== *)
theory Repo_Gc
  imports Repository
begin

text \<open>
  Models the garbage collection of \<open>crates/composefs/src/repository.rs\<close>: finding the roots among the
  links, walking images and streams to the live objects, removing the others, and pruning links
  that lead nowhere. The order in which the code walks a hash set is taken to be that of the
  directory; locks are not modelled: the collector runs alone.
\<close>

section \<open>The links of a category\<close>

datatype walk_mode = RefsOnly | AllEntries

text \<open>A set that remembers the order of insertion.\<close>

definition add_new :: "'a \<Rightarrow> 'a list \<Rightarrow> 'a list" where
  "add_new x xs = (if x \<in> set xs then xs else xs @ [x])"

function walk_symlinkdir :: "(bytes \<times> node) list \<Rightarrow> bytes list \<Rightarrow> op_error + bytes list"
  and walk_node :: "node \<Rightarrow> bytes list \<Rightarrow> op_error + bytes list" where
  "walk_symlinkdir [] acc = Inr acc"
| "walk_symlinkdir ((n, x) # es) acc = rbind (walk_node x acc) (walk_symlinkdir es)"
| "walk_node (NDir es) acc = walk_symlinkdir es acc"
| "walk_node (NLink l) acc = (case file_name l of Some n \<Rightarrow> Inr (add_new n acc) | None \<Rightarrow> Inr acc)"
| "walk_node NOther acc = Inl UnexpectedFileType"
  by pat_completeness auto
termination
  by (relation "measure (case_sum (\<lambda>(es, _). size_list (size_prod (\<lambda>_. 0) size) es) (\<lambda>(x, _). size x))") auto

text \<open>Opening a directory of the repository; \<open>None\<close> when there is none.\<close>

definition open_dir :: "'z link_repo_scheme \<Rightarrow> bytes \<Rightarrow> op_error + bytes list option" where
  "open_dir s path = (case lookup_path s path of
       Inr p \<Rightarrow> (if entry_kind s p = Some KDir then Inr (Some p) else Inl (Link (Path (Errno ENOTDIR))))
     | Inl (Errno ENOENT) \<Rightarrow> Inr None
     | Inl e \<Rightarrow> Inl (Link (Path e)))"

definition open_subdir :: "'z link_repo_scheme \<Rightarrow> bytes list \<Rightarrow> bytes \<Rightarrow> op_error + bytes list option" where
  "open_subdir s d n = (case resolve MAXSYMLINKS s d [Normal n] of
       Inr p \<Rightarrow> (if entry_kind s p = Some KDir then Inr (Some p) else Inl (Link (Path (Errno ENOTDIR))))
     | Inl (Errno ENOENT) \<Rightarrow> Inr None
     | Inl e \<Rightarrow> Inl (Link (Path e)))"

fun entry_names :: "(bytes \<times> node) list \<Rightarrow> op_error + bytes list" where
  "entry_names [] = Inr []"
| "entry_names ((n, x) # es) = (if n = ''refs'' then entry_names es
     else (case x of NLink _ \<Rightarrow> rbind (entry_names es) (\<lambda>ns. Inr (n # ns)) | _ \<Rightarrow> Inl NonSymlink))"

definition read_symlink_hashvalue :: "hex_crate \<Rightarrow> hash_alg \<Rightarrow> 'z link_repo_scheme \<Rightarrow> bytes list \<Rightarrow> bytes \<Rightarrow> op_error + bytes" where
  "read_symlink_hashvalue hx H s d n = (case entry_kind s (d @ [n]) of
       Some (KLink l) \<Rightarrow> map_err BadName (from_object_pathname hx H l)
     | Some _ \<Rightarrow> Inl (Link (Path (Errno EINVAL)))
     | None \<Rightarrow> Inl (Link (Path (Errno ENOENT))))"

definition gc_category :: "hex_crate \<Rightarrow> hash_alg \<Rightarrow> 'z link_repo_scheme \<Rightarrow> bytes \<Rightarrow> walk_mode \<Rightarrow>
    op_error + (bytes \<times> bytes) list" where
  "gc_category hx H s category mode = rbind (open_dir s category) (\<lambda>dir. case dir of
       None \<Rightarrow> Inr []
     | Some d \<Rightarrow>
         rbind (case mode of
             RefsOnly \<Rightarrow> rbind (open_subdir s d ''refs'') (\<lambda>sub. case sub of
               None \<Rightarrow> Inr [] | Some r \<Rightarrow> walk_symlinkdir (dir_nodes s r) [])
           | AllEntries \<Rightarrow> entry_names (dir_nodes s d)) (\<lambda>names.
         rmap (\<lambda>n. rbind (read_symlink_hashvalue hx H s d n) (\<lambda>oid. Inr (oid, n))) names))"

section \<open>Pruning broken links\<close>

text \<open>
  The entries are those that the directory had when it was opened; the loop removes only the entry that it
  is at.
\<close>

definition unlink :: "bytes list \<Rightarrow> bytes \<Rightarrow> 'z link_repo_scheme \<Rightarrow> 'z link_repo_scheme" where
  "unlink d n s = set_links (del_node (links s) d n) s"

function cleanup_broken_links :: "bool \<Rightarrow> bool \<Rightarrow> bytes list \<Rightarrow> (bytes \<times> node) list \<Rightarrow> (op_error, 'z link_repo_scheme, nat) io"
  and cleanup_entry :: "bool \<Rightarrow> bool \<Rightarrow> bytes list \<Rightarrow> bytes \<Rightarrow> node \<Rightarrow> (op_error, 'z link_repo_scheme, nat) io" where
  "cleanup_broken_links recursive dry_run d [] = io_return 0"
| "cleanup_broken_links recursive dry_run d ((n, x) # es) =
     io_bind (cleanup_entry recursive dry_run d n x) (\<lambda>c.
     io_bind (cleanup_broken_links recursive dry_run d es) (\<lambda>c'. io_return (c + c')))"
| "cleanup_entry recursive dry_run d n (NDir es) =
     (if recursive then cleanup_broken_links recursive dry_run (d @ [n]) es else io_return 0)"
| "cleanup_entry recursive dry_run d n (NLink l) = (\<lambda>s. case resolve MAXSYMLINKS s d [Normal n] of
       Inr _ \<Rightarrow> Some (Inr 0, s)
     | Inl (Errno ENOENT) \<Rightarrow> Some (Inr 1, if dry_run then s else unlink d n s)
     | Inl e \<Rightarrow> Some (Inl (Link (Path e)), s))"
| "cleanup_entry recursive dry_run d n NOther = io_fail UnexpectedFileType"
  by pat_completeness auto
termination
  by (relation "measure (case_sum (\<lambda>(_, _, _, es). size_list (size_prod (\<lambda>_. 0) size) es) (\<lambda>(_, _, _, _, x). size x))") auto

definition io_state :: "('s \<Rightarrow> ('e, 's, 'a) io) \<Rightarrow> ('e, 's, 'a) io" where
  "io_state f = (\<lambda>s. f s s)"

definition cleanup_gc_category :: "bytes \<Rightarrow> bool \<Rightarrow> (op_error, 'z link_repo_scheme, nat) io" where
  "cleanup_gc_category category dry_run =
     io_bind (io_state (\<lambda>s. io_lift (open_dir s category))) (\<lambda>dir. case dir of
       None \<Rightarrow> io_return 0
     | Some d \<Rightarrow>
         io_bind (io_state (\<lambda>s. cleanup_broken_links False dry_run d (dir_nodes s d))) (\<lambda>count.
         io_bind (io_state (\<lambda>s. io_lift (open_subdir s d ''refs''))) (\<lambda>sub. case sub of
             None \<Rightarrow> io_return count
           | Some r \<Rightarrow> io_bind (io_state (\<lambda>s. cleanup_broken_links True dry_run r (dir_nodes s r))) (\<lambda>c.
               io_return (count + c)))))"

section \<open>Walking the streams\<close>

text \<open>
  The recursion follows references between streams, which may form cycles; the set of walked streams
  ends it. The first argument bounds the depth, and \<open>None\<close> says that it was too small.
\<close>

type_synonym walk_state = "bytes set \<times> bytes set"

fun walk_streams :: "nat \<Rightarrow> zstd \<Rightarrow> hash_alg \<Rightarrow> 'z link_repo_scheme \<Rightarrow> (bytes \<Rightarrow> bytes option) \<Rightarrow> bytes \<Rightarrow> walk_state \<Rightarrow>
    (op_error + walk_state) option"
  and walk_refs :: "nat \<Rightarrow> zstd \<Rightarrow> hash_alg \<Rightarrow> 'z link_repo_scheme \<Rightarrow> (bytes \<Rightarrow> bytes option) \<Rightarrow> (bytes \<times> bytes) list \<Rightarrow> walk_state \<Rightarrow>
    (op_error + walk_state) option" where
  "walk_streams 0 Z H s names name st = None"
| "walk_streams (Suc fuel) Z H s names name (walked, live) =
     (if name \<in> walked then Some (Inr (walked, live))
      else (case rbind (open_file s (format_stream_path name)) (\<lambda>f. map_err Stream (reader_new Z H (file_data f) None)) of
          Inl e \<Rightarrow> Some (Inl e)
        | Inr r \<Rightarrow> walk_refs fuel Z H s names (iter_named_refs r)
            (Set.insert name walked, live \<union> set (get_object_refs r))))"
| "walk_refs fuel Z H s names [] st = Some (Inr st)"
| "walk_refs fuel Z H s names ((table_name, oid) # rs) (walked, live) =
     (case (case names oid of
         Some name \<Rightarrow> walk_streams fuel Z H s names name (walked, Set.insert oid live)
       | None \<Rightarrow> Some (Inr (walked, Set.insert oid live))) of
        Some (Inr st) \<Rightarrow> walk_refs fuel Z H s names rs st
      | r \<Rightarrow> r)"

section \<open>The collection\<close>

record gc_result =
  objects_removed :: nat
  objects_bytes :: nat
  images_pruned :: nat
  streams_pruned :: nat

fun image_roots :: "hex_crate \<Rightarrow> kernel \<Rightarrow> hash_alg \<Rightarrow> (bytes \<times> bytes) list \<Rightarrow> bytes set \<Rightarrow> (op_error, 'z link_repo_scheme, bytes set) io" where
  "image_roots hx K H [] live = io_return live"
| "image_roots hx K H ((oid, name) # rs) live =
     io_bind (objects_for_image hx K H name) (\<lambda>os. image_roots hx K H rs (Set.insert oid live \<union> os))"

fun stream_roots :: "nat \<Rightarrow> zstd \<Rightarrow> hash_alg \<Rightarrow> 'z link_repo_scheme \<Rightarrow> (bytes \<Rightarrow> bytes option) \<Rightarrow> (bytes \<times> bytes) list \<Rightarrow> walk_state \<Rightarrow>
    (op_error + walk_state) option" where
  "stream_roots fuel Z H s names [] st = Some (Inr st)"
| "stream_roots fuel Z H s names ((oid, name) # rs) (walked, live) =
     (case walk_streams fuel Z H s names name (walked, Set.insert oid live) of
        Some (Inr st) \<Rightarrow> stream_roots fuel Z H s names rs st
      | r \<Rightarrow> r)"

text \<open>Collecting pairs into a map: the last one for a key counts.\<close>

definition stream_name_map :: "(bytes \<times> bytes) list \<Rightarrow> bytes \<Rightarrow> bytes option" where
  "stream_name_map xs = map_of (rev xs)"

definition with_extra :: "bytes list \<Rightarrow> (bytes \<times> bytes) list \<Rightarrow> (bytes \<times> bytes) list \<Rightarrow> (bytes \<times> bytes) list" where
  "with_extra extra refs all = refs @ filter (\<lambda>(_, name). name \<in> set extra) all"

text \<open>The part of \<open>gc_impl\<close> that computes \<open>live_objects\<close>.\<close>

definition gc_live :: "zstd \<Rightarrow> hex_crate \<Rightarrow> kernel \<Rightarrow> hash_alg \<Rightarrow> bytes list \<Rightarrow> (op_error, 'z link_repo_scheme, bytes set) io" where
  "gc_live Z hx K H extra =
     io_bind (io_state (\<lambda>s. io_lift (gc_category hx H s ''images'' AllEntries))) (\<lambda>all_images.
     io_bind (io_state (\<lambda>s. io_lift (gc_category hx H s ''images'' RefsOnly))) (\<lambda>image_refs.
     io_bind (image_roots hx K H (with_extra extra image_refs all_images) {}) (\<lambda>live.
     io_bind (io_state (\<lambda>s. io_lift (gc_category hx H s ''streams'' AllEntries))) (\<lambda>all_streams.
     io_bind (io_state (\<lambda>s. io_lift (gc_category hx H s ''streams'' RefsOnly))) (\<lambda>stream_refs.
     io_bind (io_state (\<lambda>s. case stream_roots (length all_streams + 2) Z H s (stream_name_map all_streams)
          (with_extra extra stream_refs all_streams) ({}, live) of
         None \<Rightarrow> (\<lambda>_. None) | Some r \<Rightarrow> io_lift r)) (\<lambda>(walked, live'). io_return live'))))))"

text \<open>The objects of \<open>objects/xx/\<close>, and the loop over them.\<close>

definition object_entries :: "byte \<Rightarrow> (bytes \<times> verity_file) list \<Rightarrow> (bytes \<times> verity_file) list" where
  "object_entries b os = filter (\<lambda>(p, f). starts_with (hex2 b @ ''/'') p) os"

definition remove_object :: "bytes \<Rightarrow> 'z repo_scheme \<Rightarrow> 'z repo_scheme" where
  "remove_object p s = s\<lparr>repo.objects := bt_remove p (repo.objects s)\<rparr>"

fun gc_objects :: "hex_crate \<Rightarrow> hash_alg \<Rightarrow> bytes set \<Rightarrow> bool \<Rightarrow> (byte \<times> bytes \<times> verity_file) list \<Rightarrow> (op_error, 'z link_repo_scheme, nat \<times> nat) io" where
  "gc_objects hx H live dry_run [] = io_return (0, 0)"
| "gc_objects hx H live dry_run ((b, p, f) # es) = (case from_object_dir_and_basename hx H b (drop 3 p) of
       Inl e \<Rightarrow> io_fail (BadName e)
     | Inr oid \<Rightarrow>
         if oid \<in> live then gc_objects hx H live dry_run es
         else io_bind (\<lambda>s. Some (Inr (), if dry_run then s else remove_object p s)) (\<lambda>_.
           io_bind (gc_objects hx H live dry_run es) (\<lambda>(n, k). io_return (n + 1, k + length (file_data f)))))"

definition gc_impl :: "zstd \<Rightarrow> hex_crate \<Rightarrow> kernel \<Rightarrow> hash_alg \<Rightarrow> bytes list \<Rightarrow> bool \<Rightarrow> (op_error, 'z link_repo_scheme, gc_result) io" where
  "gc_impl Z hx K H extra dry_run =
     io_bind (gc_live Z hx K H extra) (\<lambda>live.
     io_bind (io_state (\<lambda>s. gc_objects hx H live dry_run
       (concat (map (\<lambda>b. map (Pair (char_of b)) (object_entries (char_of b) (repo.objects s))) [0..<256])))) (\<lambda>(n, k).
     io_bind (cleanup_gc_category ''images'' dry_run) (\<lambda>ip.
     io_bind (cleanup_gc_category ''streams'' dry_run) (\<lambda>sp.
       io_return \<lparr>objects_removed = n, objects_bytes = k, images_pruned = ip, streams_pruned = sp\<rparr>))))"

definition gc :: "zstd \<Rightarrow> hex_crate \<Rightarrow> kernel \<Rightarrow> hash_alg \<Rightarrow> bytes list \<Rightarrow> (op_error, 'z link_repo_scheme, gc_result) io" where
  "gc Z hx K H additional_roots = gc_impl Z hx K H additional_roots False"

definition gc_dry_run :: "zstd \<Rightarrow> hex_crate \<Rightarrow> kernel \<Rightarrow> hash_alg \<Rightarrow> bytes list \<Rightarrow> (op_error, 'z link_repo_scheme, gc_result) io" where
  "gc_dry_run Z hx K H additional_roots = gc_impl Z hx K H additional_roots True"

end
