(* ===== verification/Repo_Example.thy ===== *)
theory Repo_Example
  imports Repo_Gc "HOL-Library.Code_Target_Nat"
begin

text \<open>
  A small repository on which the properties of the collector are evaluated: a split stream with one object and
  one named reference, a link to it with a reference, and a stale stream.
\<close>

lemma walk_streams_code [code]:
  "walk_streams fuel Z H s names name (walked, live) = (if fuel = 0 then None
     else if name \<in> walked then Some (Inr (walked, live))
     else (case rbind (open_file s (format_stream_path name)) (\<lambda>f. map_err Stream (reader_new Z H (file_data f) None)) of
          Inl e \<Rightarrow> Some (Inl e)
        | Inr r \<Rightarrow> walk_refs (fuel - 1) Z H s names (iter_named_refs r)
            (Set.insert name walked, live \<union> set (get_object_refs r))))"
  by (cases fuel) (simp_all only: walk_streams.simps diff_Suc_1 nat.simps if_False if_True refl)

definition tiny_H :: hash_alg where
  "tiny_H = \<lparr>ALGORITHM = 1, size_of = 8, ID = ''tiny'', Digest = (\<lambda>x. replicate 7 CHR ''#'' @ [char_of (length x)])\<rparr>"

definition demo_id :: "byte \<Rightarrow> bytes" where "demo_id c = replicate 8 c"

definition demo_writer :: writer where
  "demo_writer = add_named_stream_ref ''other'' (demo_id CHR ''B'') (snd (add_object_ref (demo_id CHR ''A'') (writer_new 7)))"

definition demo_stream :: bytes where
  "demo_stream = (case file_of plain_zstd tiny_H demo_writer of Some b \<Rightarrow> b | None \<Rightarrow> [])"

definition demo_state :: "bytes \<Rightarrow> link_repo" where
  "demo_state strm = \<lparr>repo.objects = [(to_object_pathname hex_codec (demo_id CHR ''A''), fresh_file ''a''),
      (to_object_pathname hex_codec (demo_id CHR ''C''), fresh_file ''garbage''),
      (to_object_pathname hex_codec (demo_id CHR ''S''), fresh_file strm)],
     insecure = False, ioctl_calls = 0,
     links = [(''streams'', NDir [(''layer'', NLink (''../'' @ format_object_path hex_codec (demo_id CHR ''S''))),
       (''refs'', NDir [(''mine'', NLink ''../layer'')]),
       (''stale'', NLink (''../'' @ format_object_path hex_codec (demo_id CHR ''C'')))])]\<rparr>"

definition demo_collected :: "bytes \<Rightarrow> link_repo" where
  "demo_collected strm = \<lparr>repo.objects = [(to_object_pathname hex_codec (demo_id CHR ''A''), fresh_file ''a''),
      (to_object_pathname hex_codec (demo_id CHR ''S''), fresh_file strm)],
     insecure = False, ioctl_calls = 0,
     links = [(''streams'', NDir [(''layer'', NLink (''../'' @ format_object_path hex_codec (demo_id CHR ''S''))),
       (''refs'', NDir [(''mine'', NLink ''../layer'')])])]\<rparr>"

abbreviation demo_repo :: link_repo where "demo_repo \<equiv> demo_state demo_stream"

definition tiny_K :: kernel where "tiny_K = model_kernel tiny_H (\<lambda>n. 1 \<le> n)"

lemma demo_reader:
  "\<exists>r. reader_new plain_zstd tiny_H demo_stream None = Inr r \<and> get_object_refs r = [demo_id CHR ''A''] \<and>
     iter_named_refs r = [(''other'', demo_id CHR ''B'')]"
proof (intro exI conjI)
  have w: "w_stream_refs demo_writer = \<lparr>items = [demo_id CHR ''B''], uindex = [demo_id CHR ''B'' \<mapsto> 0]\<rparr>"
    "w_object_refs demo_writer = \<lparr>items = [demo_id CHR ''A''], uindex = [demo_id CHR ''A'' \<mapsto> 0]\<rparr>"
    "w_named_refs demo_writer = [(''other'', 0)]" "inline_buffer demo_writer = []"
    by (simp_all add: demo_writer_def add_named_stream_ref_def add_object_ref_def writer_new_def uv_ensure_def uv_get_def uv_new_def Let_def)
  have u: "utf8_valid ''other''" by code_simp
  have H: "stream_alg tiny_H" by (simp add: stream_alg_def tiny_H_def)
  have wf: "writer_wf tiny_H demo_writer"
    by (simp add: writer_wf_def w demo_id_def tiny_H_def named_ok_def u bt_wf_def)
  have f: "layout tiny_H demo_writer (zcompress plain_zstd (encoder demo_writer))
      (write_named_refs plain_zstd (w_named_refs demo_writer)) = Some demo_stream"
  proof -
    obtain fl where "layout tiny_H demo_writer (zcompress plain_zstd (encoder demo_writer))
      (write_named_refs plain_zstd (w_named_refs demo_writer)) = Some fl" using layout_no_panic [OF H wf] by blast
    then show ?thesis using w(4) by (simp add: demo_stream_def file_of_def flush_inline_def)
  qed
  show "reader_new plain_zstd tiny_H demo_stream None = Inr (opened demo_writer)"
    by (rule layout_opened [OF _ H wf f]) (simp add: zstd_laws_def plain_zstd_def | code_simp)+
  show "get_object_refs (opened demo_writer) = [demo_id CHR ''A'']"
    "iter_named_refs (opened demo_writer) = [(''other'', demo_id CHR ''B'')]"
    by (simp_all add: opened_def w get_object_refs_def iter_named_refs_def resolve_named_def)
qed

lemma demo_categories:
  "gc_category hex_codec tiny_H (demo_state b) ''images'' m = Inr []"
  "gc_category hex_codec tiny_H (demo_state b) ''streams'' RefsOnly = Inr [(demo_id CHR ''S'', ''layer'')]"
  "gc_category hex_codec tiny_H (demo_state b) ''streams'' AllEntries = Inr [(demo_id CHR ''S'', ''layer''), (demo_id CHR ''C'', ''stale'')]"
  by (cases m; code_simp) code_simp+

lemma demo_open: "open_file (demo_state b) (format_stream_path ''layer'') = Inr (fresh_file b)"
  by code_simp

lemma demo_gc_live:
  "gc_live plain_zstd hex_codec tiny_K tiny_H [] demo_repo =
    Some (Inr {demo_id CHR ''S'', demo_id CHR ''A'', demo_id CHR ''B''}, demo_repo)"
proof -
  obtain r where r: "reader_new plain_zstd tiny_H demo_stream None = Inr r" "get_object_refs r = [demo_id CHR ''A'']"
    "iter_named_refs r = [(''other'', demo_id CHR ''B'')]"
    using demo_reader by blast
  have inj: "demo_id a = demo_id b \<longleftrightarrow> a = b" for a b by (simp add: demo_id_def)
  let ?all = "[(demo_id CHR ''S'', ''layer''), (demo_id CHR ''C'', ''stale'')]"
  from inj have "stream_roots (length ?all + 2) plain_zstd tiny_H demo_repo (stream_name_map ?all)
      (with_extra [] [(demo_id CHR ''S'', ''layer'')] ?all) ({}, {}) =
     Some (Inr ({''layer''}, {demo_id CHR ''S'', demo_id CHR ''A'', demo_id CHR ''B''}))"
    by (simp add: walk_streams_code demo_open r stream_name_map_def insert_commute with_extra_def)
  moreover have "with_extra [] [] [] = []" by (simp add: with_extra_def)
  ultimately show ?thesis
    by (simp only: gc_live_def io_bind_def io_state_def io_lift_def io_return_def demo_categories image_roots.simps
        option.case prod.case sum.case)
qed

lemma demo_path: "starts_with (hex2 b @ ''/'') (to_object_pathname hex_codec (demo_id c)) \<longleftrightarrow> b = c"
proof -
  have "take 3 (to_object_pathname hex_codec (demo_id c)) = hex2 c @ ''/''"
    by (simp add: to_object_pathname_def demo_id_def hex2_def)
  moreover have "length (hex2 b @ ''/'') = 3" by (simp add: hex2_def)
  ultimately show ?thesis by (simp only: starts_with_def) (auto simp: hex2_inj)
qed

lemma char_of_small: "b < 256 \<Longrightarrow> char_of (b :: nat) = c \<longleftrightarrow> b = of_char c"
  by (simp add: char_of_eq_iff take_bit_nat_eq_self)

lemma demo_objects:
  "concat (map (\<lambda>b. map (Pair (char_of b)) (object_entries (char_of b) (repo.objects demo_repo))) [0..<256]) =
     map (\<lambda>(c, f). (c, to_object_pathname hex_codec (demo_id c), f))
       [(CHR ''A'', fresh_file ''a''), (CHR ''C'', fresh_file ''garbage''), (CHR ''S'', fresh_file demo_stream)]"
proof -
  let ?f = "\<lambda>b::nat. map (Pair (char_of b :: byte)) (object_entries (char_of b) (repo.objects demo_repo))"
  have upt: "[0..<256] = [0..<65] @ 65 # [66..<67] @ 67 # [68..<83] @ 83 # [84..<256::nat]"
  proof -
    have "[0..<256] = [0..<65] @ [65..<256::nat]" using upt_add_eq_append [of 0 65 191] by simp
    moreover have "[66..<256] = [66..<67] @ [67..<256::nat]" using upt_add_eq_append [of 66 67 189] by simp
    moreover have "[68..<256] = [68..<83] @ [83..<256::nat]" using upt_add_eq_append [of 68 83 173] by simp
    ultimately show ?thesis using upt_conv_Cons [of 65 256] upt_conv_Cons [of 67 256] upt_conv_Cons [of 83 256] by simp
  qed
  have none: "concat (map ?f xs) = []" if "set xs \<subseteq> {0..<256} - {65, 67, 83}" for xs
    using that by (auto simp: object_entries_def demo_state_def demo_path char_of_small dest: subsetD)
  have one: "?f 65 = [(CHR ''A'', to_object_pathname hex_codec (demo_id CHR ''A''), fresh_file ''a'')]"
    "?f 67 = [(CHR ''C'', to_object_pathname hex_codec (demo_id CHR ''C''), fresh_file ''garbage'')]"
    "?f 83 = [(CHR ''S'', to_object_pathname hex_codec (demo_id CHR ''S''), fresh_file demo_stream)]"
    by (simp_all add: object_entries_def demo_state_def demo_path char_of_small)
  have gaps: "concat (map ?f [0..<65]) = []" "concat (map ?f [66..<67]) = []" "concat (map ?f [68..<83]) = []"
    "concat (map ?f [84..<256]) = []" by (rule none, simp only: set_upt, fastforce)+
  show ?thesis unfolding upt map_append concat_append list.map concat.simps one gaps
    by (simp only: append.simps prod.case)
qed

lemma demo_gc_objects:
  "gc_objects hex_codec tiny_H {demo_id CHR ''S'', demo_id CHR ''A'', demo_id CHR ''B''} dry
     (map (\<lambda>(c, f). (c, to_object_pathname hex_codec (demo_id c), f))
       [(CHR ''A'', fresh_file ''a''), (CHR ''C'', fresh_file ''garbage''), (CHR ''S'', fresh_file demo_stream)]) s =
     Some (Inr (1, 7), if dry then s else remove_object (to_object_pathname hex_codec (demo_id CHR ''C'')) s)"
proof -
  have "from_object_dir_and_basename hex_codec tiny_H c (drop 3 (to_object_pathname hex_codec (demo_id c))) = Inr (demo_id c)"
    if "c \<in> {CHR ''A'', CHR ''C'', CHR ''S''}" for c
    using that by (elim insertE emptyE; hypsubst; code_simp)
  moreover have "demo_id a = demo_id b \<longleftrightarrow> a = b" for a b by (simp add: demo_id_def)
  ultimately show ?thesis by (simp add: io_bind_def io_return_def fresh_file_def)
qed

lemma demo_gc: "gc plain_zstd hex_codec tiny_K tiny_H [] demo_repo = Some (Inr \<lparr>objects_removed = 1, objects_bytes = 7,
    images_pruned = 0, streams_pruned = 1\<rparr>, demo_collected demo_stream)"
proof -
  let ?s = "\<lambda>b. remove_object (to_object_pathname hex_codec (demo_id CHR ''C'')) (demo_state b)"
  have i: "cleanup_gc_category ''images'' False (?s b) = Some (Inr 0, ?s b)" for b by code_simp
  have t: "cleanup_gc_category ''streams'' False (?s b) = Some (Inr 1, demo_collected b)" for b by code_simp
  show ?thesis 
    by (simp only: gc_def gc_impl_def io_bind_def io_state_def io_return_def demo_gc_live demo_objects demo_gc_objects if_False if_True i t
        option.case prod.case sum.case)
qed

lemma demo_dry_run: "gc_dry_run plain_zstd hex_codec tiny_K tiny_H [] demo_repo = Some (Inr \<lparr>objects_removed = 1, objects_bytes = 7,
    images_pruned = 0, streams_pruned = 0\<rparr>, demo_repo)"
proof -
  have i: "cleanup_gc_category ''images'' True (demo_state b) = Some (Inr 0, demo_state b)" for b by code_simp
  have t: "cleanup_gc_category ''streams'' True (demo_state b) = Some (Inr 0, demo_state b)" for b by code_simp
  show ?thesis 
    by (simp only: gc_dry_run_def gc_impl_def io_bind_def io_state_def io_return_def demo_gc_live demo_objects demo_gc_objects if_False if_True i t
        option.case prod.case sum.case)
qed

end
