(* ===== verification/Repo_Live.thy ===== *)
theory Repo_Live
  imports Repo_Example
begin

text \<open>
  What the garbage collector of \<open>repository.rs\<close> takes to be live: the walk over streams ends, whatever
  references the streams hold, and finds exactly the closure of the roots.
\<close>

section \<open>The walk ends\<close>

definition stream_at :: "zstd \<Rightarrow> hash_alg \<Rightarrow> 'z link_repo_scheme \<Rightarrow> bytes \<Rightarrow> op_error + reader" where
  "stream_at Z H s name =
     rbind (open_file s (format_stream_path name)) (\<lambda>f. map_err Stream (reader_new Z H (file_data f) None))"

lemma walk_streams_Suc: "walk_streams (Suc fuel) Z H s names name (walked, live) =
     (if name \<in> walked then Some (Inr (walked, live))
      else (case stream_at Z H s name of
          Inl e \<Rightarrow> Some (Inl e)
        | Inr r \<Rightarrow> walk_refs fuel Z H s names (iter_named_refs r)
            (Set.insert name walked, live \<union> set (get_object_refs r))))"
  by (simp add: stream_at_def)

declare walk_streams.simps(2) [simp del]

definition keeps_walked :: "walk_state \<Rightarrow> op_error + walk_state \<Rightarrow> bool" where
  "keeps_walked st r \<longleftrightarrow> (\<forall>st'. r = Inr st' \<longrightarrow> fst st \<subseteq> fst st')"

lemma walk_returns:
  assumes "finite A" "ran names \<subseteq> A"
  shows "card (Set.insert name A - fst st) < fuel \<Longrightarrow> \<exists>r. walk_streams fuel Z H s names name st = Some r \<and> keeps_walked st r"
    and "card (A - fst st) < fuel \<Longrightarrow> \<exists>r. walk_refs fuel Z H s names rs st = Some r \<and> keeps_walked st r"
  using assms
proof (induction fuel Z H s names name st and fuel Z H s names rs st rule: walk_streams_walk_refs.induct)
  case (2 fuel Z H s names name walked live)
  show ?case
  proof (cases "name \<in> walked \<or> (\<exists>e. stream_at Z H s name = Inl e)")
    case False
    then obtain r where r: "stream_at Z H s name = Inr r" "name \<notin> walked" by (cases "stream_at Z H s name") auto
    have "A - Set.insert name walked \<subset> Set.insert name A - walked" using r(2) by auto
    then have "card (A - Set.insert name walked) < card (Set.insert name A - walked)"
      using "2.prems"(2) by (intro psubset_card_mono) simp_all
    then have "card (A - fst (Set.insert name walked, live \<union> set (get_object_refs r))) < fuel" using "2.prems"(1) by simp
    from "2.IH" [OF r(2) r(1) [unfolded stream_at_def] this "2.prems"(2,3)] obtain q where
      "walk_refs fuel Z H s names (iter_named_refs r) (Set.insert name walked, live \<union> set (get_object_refs r)) = Some q"
      "keeps_walked (Set.insert name walked, live \<union> set (get_object_refs r)) q" by blast
    then show ?thesis using r by (simp add: walk_streams_Suc keeps_walked_def)
  qed (auto simp: walk_streams_Suc keeps_walked_def)
next
  case (4 fuel Z H s names t oid rs walked live)
  let ?first = "case names oid of Some name \<Rightarrow> walk_streams fuel Z H s names name (walked, Set.insert oid live)
       | None \<Rightarrow> Some (Inr (walked, Set.insert oid live))"
  have "\<exists>r. ?first = Some r \<and> keeps_walked (walked, live) r"
  proof (cases "names oid")
    case (Some name)
    then have "name \<in> A" using "4.prems"(3) by (auto simp: ran_def)
    then have "card (Set.insert name A - fst (walked, Set.insert oid live)) < fuel" using "4.prems"(1) by (simp add: insert_absorb)
    from "4.IH"(1) [OF Some this "4.prems"(2,3)] show ?thesis using Some by (simp add: keeps_walked_def)
  qed (simp add: keeps_walked_def)
  then obtain r where r: "?first = Some r" "keeps_walked (walked, live) r" by blast
  show ?case
  proof (cases r)
    case (Inr st')
    then have sub: "walked \<subseteq> fst st'" using r(2) by (simp add: keeps_walked_def)
    then have "A - fst st' \<subseteq> A - walked" by auto
    then have "card (A - fst st') \<le> card (A - walked)" using "4.prems"(2) by (intro card_mono) simp_all
    then have "card (A - fst st') < fuel" using "4.prems"(1) by simp
    from "4.IH"(2) [OF r(1) Inr this "4.prems"(2,3)] obtain q where "walk_refs fuel Z H s names rs st' = Some q" "keeps_walked st' q" by blast
    moreover from this sub have "keeps_walked (walked, live) q" by (auto simp: keeps_walked_def)
    ultimately show ?thesis using r(1) Inr by simp
  qed (use r in \<open>simp add: keeps_walked_def\<close>)
qed (auto simp: keeps_walked_def)

lemma ran_name_map: "ran (stream_name_map xs) \<subseteq> snd ` set xs"
  by (auto simp: stream_name_map_def ran_def dest!: map_of_SomeD) (metis imageI snd_conv)

lemma stream_roots_return:
  "\<exists>r. stream_roots (length xs + 2) Z H s (stream_name_map xs) rs st = Some r"
proof (induction rs arbitrary: st)
  case (Cons p rs)
  obtain oid name where p: "p = (oid, name)" by (cases p)
  obtain walked live where st: "st = (walked, live)" by (cases st)
  let ?A = "snd ` set xs"
  have "card (Set.insert name ?A - fst (walked, Set.insert oid live)) \<le> card (Set.insert name ?A)"
    by (intro card_mono) auto
  also have "\<dots> \<le> Suc (card ?A)" by (rule card_insert_le_m1) simp_all
  also have "card ?A \<le> length xs" by (meson card_image_le card_length finite_set le_trans)
  finally have "card (Set.insert name ?A - fst (walked, Set.insert oid live)) < length xs + 2" by simp
  from walk_returns(1) [OF _ ran_name_map this] obtain r where
    r: "walk_streams (length xs + 2) Z H s (stream_name_map xs) name (walked, Set.insert oid live) = Some r" by blast
  show ?case
  proof (cases r)
    case (Inr st')
    then show ?thesis using Cons.IH [of st'] r by (simp add: p st del: add_2_eq_Suc')
  qed (use r in \<open>simp add: p st del: add_2_eq_Suc'\<close>)
qed simp

section \<open>The walk finds the closure\<close>

definition stream_objects :: "reader \<Rightarrow> bytes set" where
  "stream_objects r = set (get_object_refs r) \<union> snd ` set (iter_named_refs r)"

definition contributes :: "zstd \<Rightarrow> hash_alg \<Rightarrow> 'z link_repo_scheme \<Rightarrow> bytes \<Rightarrow> bytes set" where
  "contributes Z H s name = (case stream_at Z H s name of Inr r \<Rightarrow> stream_objects r | Inl _ \<Rightarrow> {})"

definition next_streams :: "zstd \<Rightarrow> hash_alg \<Rightarrow> 'z link_repo_scheme \<Rightarrow> (bytes \<Rightarrow> bytes option) \<Rightarrow> bytes \<Rightarrow> bytes set" where
  "next_streams Z H s names name = (case stream_at Z H s name of
       Inr r \<Rightarrow> {m. \<exists>(t, oid) \<in> set (iter_named_refs r). names oid = Some m} | Inl _ \<Rightarrow> {})"

inductive stream_reached :: "zstd \<Rightarrow> hash_alg \<Rightarrow> 'z link_repo_scheme \<Rightarrow> (bytes \<Rightarrow> bytes option) \<Rightarrow> bytes set \<Rightarrow> bytes \<Rightarrow> bool"
  for Z H s names roots where
  start: "name \<in> roots \<Longrightarrow> stream_reached Z H s names roots name"
| step: "stream_reached Z H s names roots name \<Longrightarrow> m \<in> next_streams Z H s names name \<Longrightarrow> stream_reached Z H s names roots m"

text \<open>What a walk adds: streams that can be opened, reached from where it starts, closed under references.\<close>

definition walked_to :: "zstd \<Rightarrow> hash_alg \<Rightarrow> 'z link_repo_scheme \<Rightarrow> (bytes \<Rightarrow> bytes option) \<Rightarrow> bytes set \<Rightarrow> walk_state \<Rightarrow> walk_state \<Rightarrow> bool" where
  "walked_to Z H s names roots st st' \<longleftrightarrow> fst st \<subseteq> fst st' \<and> roots \<subseteq> fst st' \<and>
     snd st' = snd st \<union> (\<Union>n \<in> fst st' - fst st. contributes Z H s n) \<and>
     (\<forall>n \<in> fst st' - fst st. (\<exists>r. stream_at Z H s n = Inr r) \<and> next_streams Z H s names n \<subseteq> fst st' \<and>
        stream_reached Z H s names roots n)"

lemma reached_mono: "stream_reached Z H s names A n \<Longrightarrow> (\<And>m. m \<in> A \<Longrightarrow> stream_reached Z H s names B m) \<Longrightarrow> stream_reached Z H s names B n"
  by (induction rule: stream_reached.induct) (auto intro: stream_reached.step)

lemma walked_to_trans:
  assumes "walked_to Z H s names A a b" "walked_to Z H s names B b c"
  shows "walked_to Z H s names (A \<union> B) a c"
proof -
  have reach: "stream_reached Z H s names (A \<union> B) n" if "stream_reached Z H s names A n \<or> stream_reached Z H s names B n" for n
    using that by (auto elim!: reached_mono intro: stream_reached.start)
  have sub: "fst a \<subseteq> fst b" "fst b \<subseteq> fst c" "A \<subseteq> fst b" "B \<subseteq> fst c" using assms by (simp_all add: walked_to_def)
  then have d: "fst c - fst a = (fst b - fst a) \<union> (fst c - fst b)" by auto
  have live: "snd b = snd a \<union> (\<Union>n \<in> fst b - fst a. contributes Z H s n)" "snd c = snd b \<union> (\<Union>n \<in> fst c - fst b. contributes Z H s n)"
    using assms by (simp_all add: walked_to_def)
  have all: "(\<exists>r. stream_at Z H s n = Inr r) \<and> next_streams Z H s names n \<subseteq> fst c \<and> stream_reached Z H s names (A \<union> B) n"
    if "n \<in> fst c - fst a" for n
  proof (cases "n \<in> fst b")
    case True
    then have "(\<exists>r. stream_at Z H s n = Inr r) \<and> next_streams Z H s names n \<subseteq> fst b \<and> stream_reached Z H s names A n"
      using assms(1) that by (simp add: walked_to_def)
    then show ?thesis using sub reach by blast
  next
    case False
    then have "(\<exists>r. stream_at Z H s n = Inr r) \<and> next_streams Z H s names n \<subseteq> fst c \<and> stream_reached Z H s names B n"
      using assms(2) that by (simp add: walked_to_def)
    then show ?thesis using reach by blast
  qed
  have 3: "snd c = snd a \<union> (\<Union>n \<in> fst c - fst a. contributes Z H s n)" unfolding live d by blast
  have 1: "fst a \<subseteq> fst c" and 2: "A \<union> B \<subseteq> fst c" using sub by blast+
  have 4: "\<forall>n \<in> fst c - fst a. (\<exists>r. stream_at Z H s n = Inr r) \<and> next_streams Z H s names n \<subseteq> fst c \<and>
      stream_reached Z H s names (A \<union> B) n" by (rule ballI) (rule all)
  show ?thesis unfolding walked_to_def by (rule conjI [OF 1 conjI [OF 2 conjI [OF 3 4]]])
qed

lemma walk_result:
  shows "walk_streams fuel Z H s names name st = Some (Inr st') \<Longrightarrow> walked_to Z H s names {name} st st'"
    and "walk_refs fuel Z H s names rs st = Some (Inr st') \<Longrightarrow>
      \<exists>live. live = snd st \<union> snd ` set rs \<and> walked_to Z H s names {m. \<exists>(t, oid) \<in> set rs. names oid = Some m} (fst st, live) st'"
proof (induction fuel Z H s names name st and fuel Z H s names rs st arbitrary: st' and st' rule: walk_streams_walk_refs.induct)
  case (2 fuel Z H s names name walked live)
  show ?case
  proof (cases "name \<in> walked")
    case True
    then have "st' = (walked, live)" using "2.prems" by (simp add: walk_streams_Suc)
    then show ?thesis using True by (simp add: walked_to_def)
  next
    case False
    then obtain r where r: "stream_at Z H s name = Inr r"
      and w: "walk_refs fuel Z H s names (iter_named_refs r) (Set.insert name walked, live \<union> set (get_object_refs r)) = Some (Inr st')"
      using "2.prems" by (auto simp: walk_streams_Suc split: sum.splits)
    let ?new = "{m. \<exists>(t, oid) \<in> set (iter_named_refs r). names oid = Some m}"
    have t: "walked_to Z H s names ?new (Set.insert name walked, live \<union> set (get_object_refs r) \<union> snd ` set (iter_named_refs r)) st'"
      using "2.IH" [OF False r [unfolded stream_at_def] w] by simp
    have nx: "next_streams Z H s names name = ?new" by (simp add: next_streams_def r)
    have c: "contributes Z H s name = set (get_object_refs r) \<union> snd ` set (iter_named_refs r)"
      by (simp add: contributes_def r stream_objects_def)
    have reach: "stream_reached Z H s names {name} n" if "stream_reached Z H s names ?new n" for n
      by (rule reached_mono [OF that], rule stream_reached.step [of Z H s names "{name}" name])
        (auto intro: stream_reached.start simp: nx)
    have d: "fst st' - walked = Set.insert name (fst st' - Set.insert name walked)" using t False by (auto simp: walked_to_def)
    show ?thesis unfolding walked_to_def
    proof (intro conjI)
      show "\<forall>n \<in> fst st' - fst (walked, live). (\<exists>r. stream_at Z H s n = Inr r) \<and> next_streams Z H s names n \<subseteq> fst st' \<and>
          stream_reached Z H s names {name} n"
        using t reach r nx d by (auto simp: walked_to_def intro: stream_reached.start)
      show "snd st' = snd (walked, live) \<union> (\<Union>n \<in> fst st' - fst (walked, live). contributes Z H s n)"
        using t by (simp add: walked_to_def d c Un_assoc)
    qed (use t in \<open>auto simp: walked_to_def\<close>)
  qed
next
  case (3 fuel Z H s names st)
  then show ?case by (simp add: walked_to_def)
next
  case (4 fuel Z H s names t oid rs walked live)
  let ?first = "case names oid of Some name \<Rightarrow> walk_streams fuel Z H s names name (walked, Set.insert oid live)
       | None \<Rightarrow> Some (Inr (walked, Set.insert oid live))"
  obtain st1 where f: "?first = Some (Inr st1)" and w: "walk_refs fuel Z H s names rs st1 = Some (Inr st')"
    using "4.prems" by (auto split: option.splits sum.splits)
  have first: "walked_to Z H s names (set_option (names oid)) (walked, Set.insert oid live) st1"
  proof (cases "names oid")
    case None
    then show ?thesis using f by (auto simp: walked_to_def)
  next
    case (Some name)
    then show ?thesis using "4.IH"(1) [OF Some] f by simp
  qed
  let ?m = "\<lambda>rs. {m. \<exists>(t, oid) \<in> set rs. names oid = Some m}"
  have rest: "walked_to Z H s names (?m rs) (fst st1, snd st1 \<union> snd ` set rs) st'"
    using "4.IH"(2) [OF f refl w] by simp
  have grow: "walked_to Z H s names A (w, l \<union> X) (w', l' \<union> X)" if "walked_to Z H s names A (w, l) (w', l')" for A w l w' l' X
    using that by (auto simp: walked_to_def)
  have "walked_to Z H s names (set_option (names oid)) (walked, Set.insert oid live \<union> snd ` set rs) (fst st1, snd st1 \<union> snd ` set rs)"
    using grow [of _ walked "Set.insert oid live" "fst st1" "snd st1" "snd ` set rs"] first by simp
  from walked_to_trans [OF this rest]
  have "walked_to Z H s names (set_option (names oid) \<union> ?m rs) (walked, Set.insert oid live \<union> snd ` set rs) st'" .
  moreover have "set_option (names oid) \<union> ?m rs = ?m ((t, oid) # rs)" by (cases "names oid") auto
  ultimately show ?case by simp
qed simp

lemma stream_roots_result:
  "stream_roots fuel Z H s names rs st = Some (Inr st') \<Longrightarrow>
     walked_to Z H s names (snd ` set rs) (fst st, snd st \<union> fst ` set rs) st'"
proof (induction fuel Z H s names rs st rule: stream_roots.induct)
  case (2 fuel Z H s names oid name rs walked live)
  then obtain st1 where f: "walk_streams fuel Z H s names name (walked, Set.insert oid live) = Some (Inr st1)"
    and r: "stream_roots fuel Z H s names rs st1 = Some (Inr st')"
    by (auto split: option.splits sum.splits)
  have grow: "walked_to Z H s names A (w, l \<union> X) (w', l' \<union> X)" if "walked_to Z H s names A (w, l) (w', l')" for A w l w' l' X
    using that by (auto simp: walked_to_def)
  have "walked_to Z H s names {name} (walked, Set.insert oid live \<union> fst ` set rs) (fst st1, snd st1 \<union> fst ` set rs)"
    using grow [of _ walked "Set.insert oid live" "fst st1" "snd st1" "fst ` set rs"] walk_result(1) [OF f] by simp
  from walked_to_trans [OF this "2.IH" [OF f refl r]] show ?case by simp
qed (simp add: walked_to_def)

section \<open>The live objects\<close>

definition image_objects :: "hex_crate \<Rightarrow> kernel \<Rightarrow> hash_alg \<Rightarrow> 'z link_repo_scheme \<Rightarrow> bytes \<Rightarrow> bytes set" where
  "image_objects hx K H s name = (case objects_for_image hx K H name s of Some (Inr os, _) \<Rightarrow> os | _ \<Rightarrow> {})"

text \<open>The roots of a category, and the entries of its first level.\<close>

definition gc_roots :: "hex_crate \<Rightarrow> hash_alg \<Rightarrow> 'z link_repo_scheme \<Rightarrow> bytes \<Rightarrow> bytes list \<Rightarrow>
    op_error + (bytes \<times> bytes) list \<times> (bytes \<times> bytes) list" where
  "gc_roots hx H s category extra = rbind (gc_category hx H s category AllEntries) (\<lambda>all.
     rbind (gc_category hx H s category RefsOnly) (\<lambda>refs. Inr (all, with_extra extra refs all)))"

definition live_closure :: "zstd \<Rightarrow> hex_crate \<Rightarrow> kernel \<Rightarrow> hash_alg \<Rightarrow> 'z link_repo_scheme \<Rightarrow>
    (bytes \<times> bytes) list \<Rightarrow> (bytes \<times> bytes) list \<Rightarrow> (bytes \<times> bytes) list \<Rightarrow> bytes set" where
  "live_closure Z hx K H s images all_streams streams =
     fst ` set images \<union> (\<Union>name \<in> snd ` set images. image_objects hx K H s name) \<union> fst ` set streams \<union>
     (\<Union>name \<in> Collect (stream_reached Z H s (stream_name_map all_streams) (snd ` set streams)). contributes Z H s name)"

lemma objects_for_image_state: "objects_for_image hx K H name s = Some (r, s') \<Longrightarrow> s' = s"
  by (auto simp: objects_for_image_def open_image_def io_bind_def io_return_def split: sum.splits prod.splits option.splits)

lemma image_roots_result:
  "image_roots hx K H rs live s = Some (Inr live', s') \<Longrightarrow> s' = s \<and>
     live' = live \<union> fst ` set rs \<union> (\<Union>name \<in> snd ` set rs. image_objects hx K H s name) \<and>
     (\<forall>name \<in> snd ` set rs. objects_for_image hx K H name s = Some (Inr (image_objects hx K H s name), s))"
proof (induction hx K H rs live rule: image_roots.induct)
  case (2 hx K H oid name rs live)
  then obtain os s1 where o: "objects_for_image hx K H name s = Some (Inr os, s1)"
    and r: "image_roots hx K H rs (Set.insert oid live \<union> os) s1 = Some (Inr live', s')"
    by (auto simp: io_bind_Inr_iff)
  have s1: "s1 = s" by (rule objects_for_image_state [OF o])
  have os: "image_objects hx K H s name = os" by (simp add: image_objects_def o)
  from "2.IH" [OF r [unfolded s1]] show ?case using o os s1 by auto
qed simp

lemma stream_closure:
  assumes "walked_to Z H s names roots ({}, live) st'"
  shows "fst st' = Collect (stream_reached Z H s names roots)"
    and "snd st' = live \<union> (\<Union>n \<in> Collect (stream_reached Z H s names roots). contributes Z H s n)"
proof -
  have "n \<in> fst st'" if "stream_reached Z H s names roots n" for n
    using that by induction (use assms in \<open>auto simp: walked_to_def\<close>)
  then show e: "fst st' = Collect (stream_reached Z H s names roots)" using assms by (auto simp: walked_to_def)
  show "snd st' = live \<union> (\<Union>n \<in> Collect (stream_reached Z H s names roots). contributes Z H s n)"
    using assms e by (simp add: walked_to_def)
qed

lemma gc_live_Inr:
  assumes "gc_live Z hx K H extra s = Some (Inr live, s')"
  obtains all_images images all_streams streams where "s' = s"
    "gc_roots hx H s ''images'' extra = Inr (all_images, images)" "gc_roots hx H s ''streams'' extra = Inr (all_streams, streams)"
    "live = live_closure Z hx K H s images all_streams streams"
    "\<forall>name \<in> snd ` set images. objects_for_image hx K H name s = Some (Inr (image_objects hx K H s name), s)"
    "\<forall>name \<in> Collect (stream_reached Z H s (stream_name_map all_streams) (snd ` set streams)). \<exists>r. stream_at Z H s name = Inr r"
proof -
  obtain ai ri li s1 as rs w where
    i: "gc_category hx H s ''images'' AllEntries = Inr ai" "gc_category hx H s ''images'' RefsOnly = Inr ri"
    and il: "image_roots hx K H (with_extra extra ri ai) {} s = Some (Inr li, s1)"
    and t: "gc_category hx H s1 ''streams'' AllEntries = Inr as" "gc_category hx H s1 ''streams'' RefsOnly = Inr rs"
    and w: "stream_roots (length as + 2) Z H s1 (stream_name_map as) (with_extra extra rs as) ({}, li) = Some (Inr (w, live))"
    and s': "s' = s1"
    using assms by (auto simp: gc_live_def io_bind_Inr_iff io_state_def io_lift_def split: option.splits prod.splits)
  note im = image_roots_result [OF il]
  have s1: "s1 = s" using im by simp
  have wt: "walked_to Z H s (stream_name_map as) (snd ` set (with_extra extra rs as)) ({}, li \<union> fst ` set (with_extra extra rs as)) (w, live)"
    using stream_roots_result [OF w] s1 by simp
  have "live = live_closure Z hx K H s (with_extra extra ri ai) as (with_extra extra rs as)"
    using stream_closure(2) [OF wt] im by (simp add: live_closure_def Un_assoc)
  moreover have "\<forall>name \<in> Collect (stream_reached Z H s (stream_name_map as) (snd ` set (with_extra extra rs as))). \<exists>r. stream_at Z H s name = Inr r"
    using wt stream_closure(1) [OF wt] by (simp add: walked_to_def)
  ultimately show ?thesis using that [of ai "with_extra extra ri ai" as "with_extra extra rs as"] i t s' s1 im
    by (simp add: gc_roots_def)
qed

text \<open>
  C27: What the garbage collector keeps is exactly what the roots reach: the objects of the images and streams
  that have a reference or are asked for, every object that such an image names, and every object and
  named stream of the streams that their references lead to, however far and through whatever
  cycles. All of these could be read.
\<close>

theorem gc_live_exact:
  assumes "gc_live Z hx K H extra s = Some (Inr live, s')"
  shows "s' = s \<and> (\<exists>all_images images all_streams streams.
     gc_roots hx H s ''images'' extra = Inr (all_images, images) \<and> gc_roots hx H s ''streams'' extra = Inr (all_streams, streams) \<and>
     live = live_closure Z hx K H s images all_streams streams)"
  by (rule gc_live_Inr [OF assms]) blast

lemma gc_live_exact_witness:
  "\<exists>all_images images all_streams streams.
     gc_roots hex_codec tiny_H demo_repo ''images'' [] = Inr (all_images, images) \<and>
     gc_roots hex_codec tiny_H demo_repo ''streams'' [] = Inr (all_streams, streams) \<and>
     {demo_id CHR ''S'', demo_id CHR ''A'', demo_id CHR ''B''} =
       live_closure plain_zstd hex_codec tiny_K tiny_H demo_repo images all_streams streams"
  using gc_live_exact [OF demo_gc_live] by blast

end
