(* ===== verification/Repo_Sweep.thy ===== *)
theory Repo_Sweep
  imports Repo_Live
begin

text \<open>
  What a garbage collection of \<open>repository.rs\<close> does to the repository: it returns unless the reader of
  images panics on a root, a dry run changes nothing, the objects that are not live go and no others, and only broken links are pruned.
\<close>

section \<open>When it returns, and that a dry run changes nothing\<close>

definition returns :: "('e, 's, 'a) io \<Rightarrow> bool" where
  "returns m \<longleftrightarrow> (\<forall>s. \<exists>r s'. m s = Some (r, s'))"

definition keeps_state :: "('e, 's, 'a) io \<Rightarrow> bool" where
  "keeps_state m \<longleftrightarrow> (\<forall>s r s'. m s = Some (r, s') \<longrightarrow> s' = s)"

named_theorems io_intros

lemma returns_bind [io_intros]:
  assumes "returns m" "\<And>x. returns (f x)"
  shows "returns (io_bind m f)"
  unfolding returns_def
proof
  fix s
  obtain r s1 where m: "m s = Some (r, s1)" using assms(1) unfolding returns_def by blast
  show "\<exists>r s'. io_bind m f s = Some (r, s')"
  proof (cases r)
    case (Inr x)
    then show ?thesis using assms(2) [of x] m by (simp add: io_bind_def returns_def)
  qed (use m in \<open>simp add: io_bind_def\<close>)
qed

lemma keeps_bind [io_intros]:
  assumes "keeps_state m" "\<And>x. keeps_state (f x)"
  shows "keeps_state (io_bind m f)"
  using assms unfolding keeps_state_def io_bind_def by (auto split: option.splits prod.splits sum.splits) fastforce+

lemma io_basic [io_intros]:
  "returns (io_return x)" "returns (io_fail e)" "returns (io_lift r)"
  "keeps_state (io_return x)" "keeps_state (io_fail e)" "keeps_state (io_lift r)"
  by (simp_all add: returns_def keeps_state_def io_return_def io_fail_def io_lift_def)

lemma io_some [io_intros]: "returns (\<lambda>s. Some (r, g s))" "keeps_state (\<lambda>s. Some (r, s))"
  by (simp_all add: returns_def keeps_state_def)

lemma returns_state [io_intros]: "(\<And>s. returns (f s)) \<Longrightarrow> returns (io_state f)"
  by (simp add: returns_def io_state_def)

lemma keeps_state_state [io_intros]: "(\<And>s. keeps_state (f s)) \<Longrightarrow> keeps_state (io_state f)"
  by (simp add: keeps_state_def io_state_def)

lemma io_open_image [io_intros]: "returns (open_image hx K H name)" "keeps_state (open_image hx K H name)"
  by (simp_all add: returns_def keeps_state_def open_image_def)

lemma io_prod [io_intros]:
  "(\<And>a b. returns (f a b)) \<Longrightarrow> returns (case p of (a, b) \<Rightarrow> f a b)"
  "(\<And>a b. keeps_state (g a b)) \<Longrightarrow> keeps_state (case p of (a, b) \<Rightarrow> g a b)"
  by (simp_all split: prod.split)

lemma returnsD: "returns m \<Longrightarrow> m s \<noteq> None"
  by (fastforce simp: returns_def)

lemma keeps_panic [io_intros]: "keeps_state (\<lambda>_. None)"
  by (simp add: keeps_state_def)

lemma io_objects_for_image [io_intros]: "keeps_state (objects_for_image hx K H name)"
  unfolding objects_for_image_def by (auto intro!: io_intros split: prod.splits option.splits)

lemma io_image_roots [io_intros]: "keeps_state (image_roots hx K H rs live)"
  by (induction hx K H rs live rule: image_roots.induct) (auto intro!: io_intros)

text \<open>The walk over the streams, the last part of \<open>gc_live\<close>.\<close>

lemma io_stream_walk [io_intros]:
  "returns (case stream_roots (length all + 2) Z H s (stream_name_map all) (with_extra extra refs all) ({}, live) of
     None \<Rightarrow> (\<lambda>_. None) | Some r \<Rightarrow> io_lift r)"
  "keeps_state (case stream_roots (length all + 2) Z H s (stream_name_map all) (with_extra extra refs all) ({}, live) of
     None \<Rightarrow> (\<lambda>_. None) | Some r \<Rightarrow> io_lift r)"
  using stream_roots_return [of all Z H s "with_extra extra refs all" "({}, live)"] by (auto intro: io_basic)

lemma io_gc_live [io_intros]: "keeps_state (gc_live Z hx K H extra)"
  unfolding gc_live_def by (intro io_intros)




lemma io_gc_objects [io_intros]: "returns (gc_objects hx H live dry es)"
  by (induction hx H live dry es rule: gc_objects.induct) (auto intro!: io_intros split: sum.splits prod.splits)

lemma io_gc_objects_dry: "dry \<Longrightarrow> keeps_state (gc_objects hx H live dry es)"
  by (induction hx H live dry es rule: gc_objects.induct) (auto intro!: io_intros split: sum.splits prod.splits)

lemma io_cleanup [io_intros]:
  "returns (cleanup_broken_links rec dry d es :: (op_error, 'z link_repo_scheme, nat) io)"
  "returns (cleanup_entry rec dry d n x :: (op_error, 'z link_repo_scheme, nat) io)"
proof (induction rec dry d es and rec dry d n x rule: cleanup_broken_links_cleanup_entry.induct)
  case (4 rec dry d n l)
  then show ?case by (auto simp: returns_def split: sum.split path_error.split errno.split)
qed (auto intro!: io_intros)

lemma io_cleanup_dry:
  "dry \<Longrightarrow> keeps_state (cleanup_broken_links rec dry d es :: (op_error, 'z link_repo_scheme, nat) io)"
  "dry \<Longrightarrow> keeps_state (cleanup_entry rec dry d n x :: (op_error, 'z link_repo_scheme, nat) io)"
proof (induction rec dry d es and rec dry d n x rule: cleanup_broken_links_cleanup_entry.induct)
  case (4 rec dry d n l)
  then show ?case by (auto simp: keeps_state_def split: sum.splits path_error.splits errno.splits)
qed (auto intro!: io_intros)

lemma io_cleanup_category [io_intros]: "returns (cleanup_gc_category c dry)" "keeps_state (cleanup_gc_category c True)"
  unfolding cleanup_gc_category_def by (auto intro!: io_intros io_cleanup_dry split: option.splits)

lemma io_gc_impl [io_intros]: "keeps_state (gc_impl Z hx K H extra True)"
  unfolding gc_impl_def by (auto intro!: io_intros io_gc_objects_dry split: prod.splits)

text \<open>After the live objects are known, nothing stops the collection.\<close>

lemma gc_impl_None: "gc_impl Z hx K H extra dry s = None \<longleftrightarrow> gc_live Z hx K H extra s = None"
proof -
  let ?rest = "\<lambda>live. io_bind (io_state (\<lambda>s. gc_objects hx H live dry
       (concat (map (\<lambda>b. map (Pair (char_of b)) (object_entries (char_of b) (repo.objects s))) [0..<256])))) (\<lambda>(n, k).
     io_bind (cleanup_gc_category ''images'' dry) (\<lambda>ip.
     io_bind (cleanup_gc_category ''streams'' dry) (\<lambda>sp.
       io_return \<lparr>objects_removed = n, objects_bytes = k, images_pruned = ip, streams_pruned = sp\<rparr>)))"
  have "returns (?rest live :: (op_error, 'a link_repo_scheme, gc_result) io)" for live
    by (intro io_intros)
  then have "?rest live s' \<noteq> None" for live and s' :: "'a link_repo_scheme" by (rule returnsD)
  then show ?thesis unfolding gc_impl_def io_bind_def [of "gc_live Z hx K H extra"]
    by (auto split: option.splits sum.splits prod.splits)
qed




section \<open>Objects\<close>

text \<open>The counts do not depend on the state, nor on whether the objects are removed.\<close>

lemma gc_objects_counts:
  "\<exists>r. \<forall>dry (s :: 'z link_repo_scheme). \<exists>s'. gc_objects hx H live dry es s = Some (r, s')"
proof (induction es)
  case (Cons e es)
  obtain b p f where e: "e = (b, p, f)" by (cases e)
  from Cons obtain r where r: "\<forall>dry (s :: 'z link_repo_scheme). \<exists>s'. gc_objects hx H live dry es s = Some (r, s')" ..
  show ?case
  proof (cases "from_object_dir_and_basename hx H b (drop 3 p)")
    case (Inr oid)
    show ?thesis
    proof (cases "oid \<in> live")
      case False
      have "\<exists>s'. gc_objects hx H live dry (e # es) s = Some (map_sum (\<lambda>x. x) (\<lambda>(n, k). (n + 1, k + length (file_data f))) r, s')"
        for dry and s :: "'z link_repo_scheme"
      proof -
        obtain s' where "gc_objects hx H live dry es (if dry then s else remove_object p s) = Some (r, s')" using r by blast
        then show ?thesis using e Inr False by (cases r) (auto simp: io_bind_def io_return_def)
      qed
      then show ?thesis by blast
    qed (use r e Inr in \<open>simp, blast\<close>)
  qed (simp add: e io_fail_def)
qed (simp add: io_return_def)

lemma gc_objects_result:
  "gc_objects hx H live False es s = Some (Inr c, s') \<Longrightarrow> links s' = links s \<and> insecure s' = insecure s \<and>
     (bt_wf (repo.objects s) \<longrightarrow> bt_wf (repo.objects s') \<and> (\<forall>q. bt_get (repo.objects s') q =
       (if \<exists>(b, p, f) \<in> set es. q = p \<and> (\<forall>oid. from_object_dir_and_basename hx H b (drop 3 p) = Inr oid \<longrightarrow> oid \<notin> live)
        then None else bt_get (repo.objects s) q)))"
proof (induction hx H live False es arbitrary: s c rule: gc_objects.induct)
  case (2 hx H live b p f es)
  obtain oid where oid: "from_object_dir_and_basename hx H b (drop 3 p) = Inr oid"
    using "2.prems" by (cases "from_object_dir_and_basename hx H b (drop 3 p)") auto
  show ?case
  proof (cases "oid \<in> live")
    case True
    then show ?thesis using "2.hyps"(1) [OF oid True, of s c] "2.prems" oid by auto
  next
    case False
    then obtain c' where r: "gc_objects hx H live False es (remove_object p s) = Some (Inr c', s')"
      using "2.prems" oid by (auto simp: io_bind_Inr_iff)
    have l: "links (remove_object p s) = links s" "insecure (remove_object p s) = insecure s"
      "repo.objects (remove_object p s) = bt_remove p (repo.objects s)" by (simp_all add: remove_object_def)
    show ?thesis using "2.hyps"(2) [OF oid False r] oid False l by (auto simp: bt_wf_remove bt_get_remove)
  qed
qed simp

lemma object_dirname:
  assumes "hex_laws hx" "length oid = size_of H" "0 < size_of H"
  shows "from_object_dir_and_basename hx H b (drop 3 (to_object_pathname hx oid)) = Inr (b # tl oid)"
    "starts_with (hex2 b @ ''/'') (to_object_pathname hx oid) \<longleftrightarrow> b = hd oid" "oid \<noteq> []"
proof -
  show ne: "oid \<noteq> []" using assms by auto
  have "to_object_pathname hx oid = (hex2 (hd oid) @ ''/'') @ hex_encode hx (tl oid)" by (simp add: to_object_pathname_def)
  then have d: "drop 3 (to_object_pathname hx oid) = hex_encode hx (tl oid)" by (simp only: append_eq_conv_conj) simp
  have "length (tl oid) = size_of H - 1" using assms by simp
  then show "from_object_dir_and_basename hx H b (drop 3 (to_object_pathname hx oid)) = Inr (b # tl oid)"
    using assms(1) by (simp add: from_object_dir_and_basename_def d)
  have "take 3 (to_object_pathname hx oid) = hex2 (hd oid) @ ''/''" by (simp add: to_object_pathname_def)
  then show "starts_with (hex2 b @ ''/'') (to_object_pathname hx oid) \<longleftrightarrow> b = hd oid"
    by (auto simp: starts_with_def hex2_inj)
qed

section \<open>What is left\<close>

lemma gc_Inr:
  assumes "gc_impl Z hx K H extra dry s = Some (Inr r, s')"
  obtains live n k s1 s2 ip sp where "gc_live Z hx K H extra s = Some (Inr live, s)"
    "gc_objects hx H live dry (concat (map (\<lambda>b. map (Pair (char_of b)) (object_entries (char_of b) (repo.objects s))) [0..<256])) s
       = Some (Inr (n, k), s1)"
    "cleanup_gc_category ''images'' dry s1 = Some (Inr ip, s2)" "cleanup_gc_category ''streams'' dry s2 = Some (Inr sp, s')"
    "r = \<lparr>objects_removed = n, objects_bytes = k, images_pruned = ip, streams_pruned = sp\<rparr>"
proof -
  obtain live s0 where l: "gc_live Z hx K H extra s = Some (Inr live, s0)"
    using assms by (auto simp: gc_impl_def io_bind_Inr_iff)
  have "s0 = s" using io_gc_live [of Z hx K H extra] l by (auto simp: keeps_state_def)
  then show ?thesis using that l assms by (auto simp: gc_impl_def io_bind_Inr_iff io_state_def io_return_def)
qed

text \<open>
  C30: A dry run changes nothing, and when both succeed it reports the number and the size of the objects
  that the collection removes.
\<close>

theorem dry_run_predicts_objects:
  assumes "gc Z hx K H extra s = Some (Inr r, s1)"
  shows "\<exists>q. gc_dry_run Z hx K H extra s = Some (q, s) \<and>
    (\<forall>r'. q = Inr r' \<longrightarrow> objects_removed r' = objects_removed r \<and> objects_bytes r' = objects_bytes r)"
proof -
  let ?es = "concat (map (\<lambda>b. map (Pair (char_of b)) (object_entries (char_of b) (repo.objects s))) [0..<256])"
  obtain live n k s' where l: "gc_live Z hx K H extra s = Some (Inr live, s)"
    and g: "gc_objects hx H live False ?es s = Some (Inr (n, k), s')" and r: "objects_removed r = n" "objects_bytes r = k"
    using assms unfolding gc_def by (elim gc_Inr) auto
  obtain q s2 where q: "gc_impl Z hx K H extra True s = Some (q, s2)"
    using gc_impl_None [of Z hx K H extra True s] l by fastforce
  then have s2: "s2 = s" using io_gc_impl [of Z hx K H extra] by (auto simp: keeps_state_def)
  have "objects_removed r' = n \<and> objects_bytes r' = k" if "q = Inr r'" for r'
  proof -
    have "gc_impl Z hx K H extra True s = Some (Inr r', s2)" using q that by simp
    then obtain live' n' k' s'' where l': "gc_live Z hx K H extra s = Some (Inr live', s)"
      and g': "gc_objects hx H live' True ?es s = Some (Inr (n', k'), s'')" and r': "objects_removed r' = n'" "objects_bytes r' = k'"
      by (elim gc_Inr) auto
    have "live' = live" using l l' by simp
    obtain c :: "op_error + nat \<times> nat" where
      "\<forall>dry (s :: 'a link_repo_scheme). \<exists>s'. gc_objects hx H live dry ?es s = Some (c, s')"
      using gc_objects_counts [where hx = hx and H = H and live = live and es = ?es] by blast
    then obtain a b where "gc_objects hx H live False ?es s = Some (c, a)" "gc_objects hx H live True ?es s = Some (c, b)"
      by blast
    then have "c = Inr (n, k)" "live' = live \<longrightarrow> c = Inr (n', k')" using g g' by auto
    with \<open>live' = live\<close> r' show ?thesis by simp
  qed
  then show ?thesis using q s2 r by (auto simp: gc_dry_run_def)
qed

lemma dry_run_predicts_objects_witness:
  "gc plain_zstd hex_codec tiny_K tiny_H [] demo_repo = Some (Inr \<lparr>objects_removed = 1, objects_bytes = 7,
     images_pruned = 0, streams_pruned = 1\<rparr>, demo_collected demo_stream) \<and>
   (\<exists>q. gc_dry_run plain_zstd hex_codec tiny_K tiny_H [] demo_repo = Some (q, demo_repo) \<and>
     (\<forall>r'. q = Inr r' \<longrightarrow> objects_removed r' = 1 \<and> objects_bytes r' = 7))"
  using dry_run_predicts_objects [OF demo_gc] demo_gc by simp

text \<open>Pruning leaves the objects alone.\<close>

definition keeps_objects :: "('e, 'z link_repo_scheme, 'a) io \<Rightarrow> bool" where
  "keeps_objects m \<longleftrightarrow> (\<forall>s r s'. m s = Some (r, s') \<longrightarrow> repo.objects s' = repo.objects s \<and> insecure s' = insecure s)"

lemma keeps_objects_basic [io_intros]:
  "keeps_objects (io_return x)" "keeps_objects (io_fail e)" "keeps_objects (io_lift r)"
  "keeps_objects (\<lambda>s. Some (q, s))"
  by (simp_all add: keeps_objects_def io_return_def io_fail_def io_lift_def)

lemma keeps_objects_bind [io_intros]:
  "keeps_objects m \<Longrightarrow> (\<And>x. keeps_objects (f x)) \<Longrightarrow> keeps_objects (io_bind m f)"
  unfolding keeps_objects_def io_bind_def by (auto split: option.splits prod.splits sum.splits)

lemma keeps_objects_state [io_intros]: "(\<And>s. keeps_objects (f s)) \<Longrightarrow> keeps_objects (io_state f)"
  by (simp add: keeps_objects_def io_state_def)

lemma keeps_objects_cleanup [io_intros]:
  "keeps_objects (cleanup_broken_links rec dry d es :: (op_error, 'z link_repo_scheme, nat) io)"
  "keeps_objects (cleanup_entry rec dry d n x :: (op_error, 'z link_repo_scheme, nat) io)"
proof (induction rec dry d es and rec dry d n x rule: cleanup_broken_links_cleanup_entry.induct)
  case (4 rec dry d n l)
  then show ?case by (auto simp: keeps_objects_def unlink_def split: sum.splits path_error.splits errno.splits if_splits)
qed (auto intro!: io_intros)

lemma keeps_objects_category [io_intros]: "keeps_objects (cleanup_gc_category c dry)"
  unfolding cleanup_gc_category_def by (auto intro!: io_intros split: option.splits)

text \<open>The objects that the loop sees are those that the names of hash values lead to.\<close>

definition all_objects :: "(bytes \<times> verity_file) list \<Rightarrow> (byte \<times> bytes \<times> verity_file) list" where
  "all_objects os = concat (map (\<lambda>b. map (Pair (char_of b)) (object_entries (char_of b) os)) [0..<256])"

lemma set_all_objects: "set (all_objects os) = {(b, p, f). (p, f) \<in> set os \<and> starts_with (hex2 b @ ''/'') p}"
proof -
  have "(b, p, f) \<in> set (all_objects os)" if "(p, f) \<in> set os" "starts_with (hex2 b @ ''/'') p" for b p f
    using that by (auto simp: all_objects_def object_entries_def image_iff intro!: bexI [where x = "of_char b :: nat"])
  moreover have "(p, f) \<in> set os \<and> starts_with (hex2 b @ ''/'') p" if "(b, p, f) \<in> set (all_objects os)" for b p f
    using that by (auto simp: all_objects_def object_entries_def)
  ultimately show ?thesis by blast
qed

lemma gc_objects_live:
  assumes hx: "hex_laws hx" "0 < size_of H" and wf: "bt_wf (repo.objects s)" and len: "length oid = size_of H"
    and g: "gc_objects hx H live False (all_objects (repo.objects s)) s = Some (Inr c, s')"
  shows "bt_get (repo.objects s') (to_object_pathname hx oid) =
    (if oid \<in> live then bt_get (repo.objects s) (to_object_pathname hx oid) else None)"
proof -
  let ?q = "to_object_pathname hx oid"
  note dn = object_dirname [OF hx(1) len hx(2)]
  have "(\<exists>(b, p, f) \<in> set (all_objects (repo.objects s)). ?q = p \<and>
       (\<forall>i. from_object_dir_and_basename hx H b (drop 3 p) = Inr i \<longrightarrow> i \<notin> live)) \<longleftrightarrow>
     (\<exists>f. (?q, f) \<in> set (repo.objects s)) \<and> oid \<notin> live"
    using dn by (auto simp: set_all_objects)
  moreover have "bt_get (repo.objects s) ?q = None" if "\<nexists>f. (?q, f) \<in> set (repo.objects s)"
    using that by (metis bt_get_SomeD not_Some_eq)
  ultimately show ?thesis using gc_objects_result [OF g] wf by auto
qed

lemma gc_result_objects:
  assumes "hex_laws hx" "0 < size_of H" "bt_wf (repo.objects s)" "gc Z hx K H extra s = Some (Inr r, s')"
    "gc_live Z hx K H extra s = Some (Inr live, s)" "length oid = size_of H"
  shows "bt_get (repo.objects s') (to_object_pathname hx oid) =
    (if oid \<in> live then bt_get (repo.objects s) (to_object_pathname hx oid) else None)"
proof -
  obtain n k s1 s2 ip sp where g: "gc_objects hx H live False (all_objects (repo.objects s)) s = Some (Inr (n, k), s1)"
    and c: "cleanup_gc_category ''images'' False s1 = Some (Inr ip, s2)" "cleanup_gc_category ''streams'' False s2 = Some (Inr sp, s')"
    using assms(4,5) unfolding gc_def all_objects_def by (elim gc_Inr) auto
  have "repo.objects s' = repo.objects s1"
    using keeps_objects_category c unfolding keeps_objects_def by metis
  then show ?thesis using gc_objects_live [OF assms(1-3,6) g] by simp
qed

text \<open>
  C28: After a collection, an object is there exactly when it was there and is live; then its file is the same.
  Nothing else happens to the object store.
\<close>

theorem gc_keeps_exactly_live:
  assumes "hex_laws hx" "0 < size_of H" "bt_wf (repo.objects s)" "gc Z hx K H extra s = Some (Inr r, s')"
  shows "\<exists>live. gc_live Z hx K H extra s = Some (Inr live, s) \<and> (\<forall>oid. length oid = size_of H \<longrightarrow>
    bt_get (repo.objects s') (to_object_pathname hx oid) =
      (if oid \<in> live then bt_get (repo.objects s) (to_object_pathname hx oid) else None))"
proof -
  obtain live where l: "gc_live Z hx K H extra s = Some (Inr live, s)"
    using assms(4) unfolding gc_def by (elim gc_Inr) auto
  then show ?thesis using gc_result_objects [OF assms l] by blast
qed

lemma gc_keeps_exactly_live_witness:
  "bt_get (repo.objects (demo_collected demo_stream)) (to_object_pathname hex_codec (demo_id CHR ''A'')) = Some (fresh_file ''a'') \<and>
   bt_get (repo.objects (demo_collected demo_stream)) (to_object_pathname hex_codec (demo_id CHR ''C'')) = None"
proof -
  have wf: "bt_wf (repo.objects (demo_state b))" for b by code_simp
  have len: "length (demo_id c) = size_of tiny_H" for c by (simp add: demo_id_def tiny_H_def)
  obtain live where live: "gc_live plain_zstd hex_codec tiny_K tiny_H [] demo_repo = Some (Inr live, demo_repo)"
    "\<forall>oid. length oid = size_of tiny_H \<longrightarrow> bt_get (repo.objects (demo_collected demo_stream)) (to_object_pathname hex_codec oid) =
      (if oid \<in> live then bt_get (repo.objects demo_repo) (to_object_pathname hex_codec oid) else None)"
    using gc_keeps_exactly_live [OF hex_laws_hex_codec _ wf demo_gc] by (auto simp: tiny_H_def)
  have "live = {demo_id CHR ''S'', demo_id CHR ''A'', demo_id CHR ''B''}" using live(1) demo_gc_live by simp
  then have "demo_id CHR ''A'' \<in> live" "demo_id CHR ''C'' \<notin> live" by (simp_all add: demo_id_def)
  then show ?thesis using live(2) len by (simp add: bt_get_def demo_state_def)
qed

end
