(* ===== verification/Repo_Keep.thy ===== *)
theory Repo_Keep
  imports Repo_Sweep
begin

text \<open>
  What a garbage collection of \<open>repository.rs\<close> leaves: streams and images that the roots reach can be opened and
  read as before. The repository must have the layout that \<open>gc_category\<close> assumes (its comment asks for a check
  of it): first-level entries of a category are links into \<open>objects/\<close>.
\<close>

section \<open>The layout of a repository\<close>

definition category_shape :: "'z link_repo_scheme \<Rightarrow> bytes \<Rightarrow> bool" where
  "category_shape s c \<longleftrightarrow> (\<forall>x. bt_get (links s) c = Some x \<longrightarrow> (\<exists>es. x = NDir es \<and>
     (\<forall>y. (''refs'', y) \<in> set es \<longrightarrow> (\<exists>fs. y = NDir fs))))"

definition object_link :: "hex_crate \<Rightarrow> bytes \<Rightarrow> bytes" where
  "object_link hx oid = ''../'' @ format_object_path hx oid"

definition entries_ok :: "hex_crate \<Rightarrow> hash_alg \<Rightarrow> 'z link_repo_scheme \<Rightarrow> bytes \<Rightarrow> bool" where
  "entries_ok hx H s c \<longleftrightarrow> (\<forall>(n, x) \<in> set (dir_nodes s [c]). valid_name n \<and>
     (n \<noteq> ''refs'' \<longrightarrow> (\<exists>oid. length oid = size_of H \<and> x = NLink (object_link hx oid))))"

definition repo_layout :: "hex_crate \<Rightarrow> hash_alg \<Rightarrow> 'z link_repo_scheme \<Rightarrow> bool" where
  "repo_layout hx H s \<longleftrightarrow> bt_wf (repo.objects s) \<and>
     (\<forall>c \<in> {''images'', ''streams''}. category_shape s c \<and> entries_ok hx H s c)"

section \<open>Links into the object store\<close>

definition held :: "hex_crate \<Rightarrow> 'z link_repo_scheme \<Rightarrow> bytes \<Rightarrow> bytes \<Rightarrow> bytes \<Rightarrow> bool" where
  "held hx s c n oid \<longleftrightarrow> find_node (links s) [c, n] = Some (NLink (object_link hx oid)) \<and>
     bt_get (repo.objects s) (to_object_pathname hx oid) \<noteq> None"

lemma object_names:
  assumes "hex_laws hx" "1 < length oid"
  shows "plain_names [OBJECTS, hex2 (hd oid), hex_encode hx (tl oid)]"
    "format_object_path hx oid = path_of [OBJECTS, hex2 (hd oid), hex_encode hx (tl oid)]"
proof -
  have dot: "digit_char d \<noteq> CHR ''.''" "digit_char d \<noteq> SLASH" if "d < 16" for d
  proof -
    have "to_digit 16 (digit_char d) = Some d" using that by simp
    moreover have "to_digit 16 CHR ''.'' = None" "to_digit 16 SLASH = None" by code_simp+
    ultimately show "digit_char d \<noteq> CHR ''.''" "digit_char d \<noteq> SLASH" by force+
  qed
  have div16: "(of_char c :: nat) div 16 < 16" for c :: byte
    using of_char_lt_256 [of c] by (simp add: less_mult_imp_div_less)
  have "hex_encode hx (tl oid) = concat (map hex2 (tl oid))" using assms(1) by (simp add: hex_laws_def)
  moreover obtain a b where "tl oid = a # b" using assms(2) by (cases oid; cases "tl oid") auto
  ultimately have "hex_encode hx (tl oid) = hex2 a @ concat (map hex2 b)" by simp
  then have "valid_name (hex_encode hx (tl oid))"
    using dot [of "of_char a mod 16"] hex_encode_no_slash [OF assms(1), of "tl oid"] by (simp add: valid_name_def hex2_def)
  moreover have "valid_name (hex2 (hd oid))" using dot [of "of_char (hd oid) div 16"] dot [of "of_char (hd oid) mod 16"]
    by (auto simp: valid_name_def hex2_def div16)
  ultimately show "plain_names [OBJECTS, hex2 (hd oid), hex_encode hx (tl oid)]" by (simp add: plain_names_def OBJECTS_def valid_name_def)
  show "format_object_path hx oid = path_of [OBJECTS, hex2 (hd oid), hex_encode hx (tl oid)]"
    by (simp add: format_object_path_def to_object_pathname_def OBJECTS_def)
qed

lemma components_object_link:
  assumes "hex_laws hx" "1 < length oid"
  shows "components (object_link hx oid) = ParentDir # map Normal [OBJECTS, hex2 (hd oid), hex_encode hx (tl oid)]"
proof -
  note o = object_names [OF assms]
  have "object_link hx oid = path_of (''..'' # [OBJECTS, hex2 (hd oid), hex_encode hx (tl oid)])"
    unfolding object_link_def o(2) by simp
  also have "components \<dots> = map parse_component (''..'' # [OBJECTS, hex2 (hd oid), hex_encode hx (tl oid)])"
    using o(1) by (intro components_pieces) (auto simp: plain_names_def valid_name_def)
  finally show ?thesis using o(1) by (simp add: plain_names_def parse_component_def [of "''..''"])
qed

lemma objects_kinds:
  assumes "bt_get (repo.objects s) (b @ ''/'' @ n) \<noteq> None"
  shows "entry_kind s [OBJECTS] = Some KDir" "entry_kind s [OBJECTS, b] = Some KDir" "entry_kind s [OBJECTS, b, n] = Some KFile"
proof -
  obtain f where "(b @ ''/'' @ n, f) \<in> set (repo.objects s)" using assms bt_get_SomeD by fast
  then have "list_ex (\<lambda>(p, f). starts_with (b @ ''/'') p) (repo.objects s)"
    by (auto simp: list_ex_iff starts_with_def intro!: bexI)
  then show "entry_kind s [OBJECTS] = Some KDir" "entry_kind s [OBJECTS, b] = Some KDir" "entry_kind s [OBJECTS, b, n] = Some KFile"
    using assms by (simp_all add: entry_kind_def objects_kind_def)
qed

lemma held_resolves:
  assumes "hex_laws hx" "1 < length oid" "held hx s c n oid" "c \<noteq> OBJECTS"
  shows "resolve (Suc k) s [c] [Normal n] = Inr [OBJECTS, hex2 (hd oid), hex_encode hx (tl oid)]"
proof -
  have "entry_kind s [c, n] = Some (KLink (object_link hx oid))"
    using assms(3,4) by (simp add: entry_kind_links in_links_def held_def node_kind_def)
  moreover note objects_kinds [of s "hex2 (hd oid)" "hex_encode hx (tl oid)"]
  ultimately show ?thesis using assms(3)
    by (simp add: components_object_link [OF assms(1,2)] held_def to_object_pathname_def)
qed

section \<open>Pruning keeps them\<close>

lemma bt_get_remove_other: "j \<noteq> k \<Longrightarrow> bt_get (bt_remove k m) j = bt_get m j"
  by (induction k m rule: bt_remove.induct) (auto simp: bt_get_def)

lemma find_del_other:
  assumes "d \<noteq> []" "d @ [m] \<noteq> [c, n]" "find_node es [c, n] = Some (NLink l)"
  shows "find_node (del_node es d m) [c, n] = Some (NLink l)"
proof -
  obtain a d' where d: "d = a # d'" using assms(1) by (cases d) auto
  obtain fs where fs: "bt_get es c = Some (NDir fs)" "bt_get fs n = Some (NLink l)"
    using assms(3) by (auto split: option.splits node.splits)
  show ?thesis
  proof (cases "a = c")
    case True
    show ?thesis
    proof (cases d')
      case Nil
      then have "m \<noteq> n" using assms(2) d True by simp
      then show ?thesis using d Nil True fs by (simp add: bt_get_insert_any bt_get_remove_other)
    next
      case (Cons b d'')
      then show ?thesis using d True fs by (auto simp: bt_get_insert_any split: option.split node.split)
    qed
  next
    case False
    then show ?thesis using d fs by (auto simp: bt_get_insert_any split: option.split node.split)
  qed
qed

lemma shape_del:
  assumes "d \<noteq> []" "category_shape s c"
  shows "category_shape (unlink d m s) c"
proof -
  obtain a d' where d: "d = a # d'" using assms(1) by (cases d) auto
  show ?thesis
  proof (cases "a = c \<and> bt_get (links s) c \<noteq> None")
    case True
    then obtain es where es: "bt_get (links s) c = Some (NDir es)" "\<forall>y. (''refs'', y) \<in> set es \<longrightarrow> (\<exists>fs. y = NDir fs)"
      using assms(2) by (auto simp: category_shape_def)
    have "\<exists>fs. y = NDir fs" if "(''refs'', y) \<in> set (del_node es d' m)" for y
      using that es(2) set_bt_remove [of m es] set_bt_insert_subset
      by (cases d') (fastforce split: option.splits node.splits)+
    then show ?thesis using True d es(1) by (simp add: category_shape_def unlink_def bt_get_insert_any)
  next
    case False
    then have "bt_get (del_node (links s) d m) c = bt_get (links s) c"
      using d by (auto simp: bt_get_insert_any split: option.split node.split)
    then show ?thesis using assms(2) by (simp add: category_shape_def unlink_def)
  qed
qed

text \<open>The invariant of pruning: given links and what they lead to stay, and the categories stay directories.\<close>

definition kept :: "hex_crate \<Rightarrow> (bytes \<times> bytes \<times> bytes) set \<Rightarrow> 'z link_repo_scheme \<Rightarrow> bool" where
  "kept hx T s \<longleftrightarrow> (\<forall>(c, n, oid) \<in> T. c \<noteq> OBJECTS \<and> 1 < length oid \<and> held hx s c n oid) \<and>
     category_shape s ''images'' \<and> category_shape s ''streams''"

lemma kept_unlink:
  assumes "hex_laws hx" "kept hx T s" "d \<noteq> []" "resolve MAXSYMLINKS s d [Normal m] = Inl e"
  shows "kept hx T (unlink d m s)"
proof -
  have "held hx (unlink d m s) c n oid" if "(c, n, oid) \<in> T" for c n oid
  proof -
    have h: "held hx s c n oid" "c \<noteq> OBJECTS" "1 < length oid" using assms(2) that by (auto simp: kept_def)
    have "d @ [m] \<noteq> [c, n]"
      using held_resolves [OF assms(1) h(3,1,2), of 39] assms(4) by (auto simp: MAXSYMLINKS_def append_eq_Cons_conv)
    then show ?thesis using find_del_other [OF assms(3)] h(1) by (simp add: held_def unlink_def)
  qed
  then show ?thesis using assms(2) shape_del [OF assms(3)] by (auto simp: kept_def)
qed

lemma kept_cleanup:
  "cleanup_broken_links rec False d es s = Some (q, s') \<Longrightarrow> hex_laws hx \<Longrightarrow> d \<noteq> [] \<Longrightarrow> kept hx T s \<Longrightarrow> kept hx T s'"
  "cleanup_entry rec False d n x s = Some (q', s') \<Longrightarrow> hex_laws hx \<Longrightarrow> d \<noteq> [] \<Longrightarrow> kept hx T s \<Longrightarrow> kept hx T s'"
proof (induction rec "False" d es and rec "False" d n x arbitrary: s q s' and s q' s'
    rule: cleanup_broken_links_cleanup_entry.induct)
  case (2 rec d n x es)
  then show ?case by (auto simp: io_bind_def split: option.splits prod.splits sum.splits)
next
  case (4 rec d n l)
  then show ?case using kept_unlink [of hx T s d n] by (auto split: sum.splits path_error.splits errno.splits)
qed (auto split: if_splits)

lemma io_bind_Some: "io_bind m f s = Some (q, s') \<longleftrightarrow>
    (\<exists>e. m s = Some (Inl e, s') \<and> q = Inl e) \<or> (\<exists>x s1. m s = Some (Inr x, s1) \<and> f x s1 = Some (q, s'))"
  by (auto simp: io_bind_def split: option.splits sum.splits prod.splits)

lemma kept_category:
  assumes "cleanup_gc_category c False s = Some (q, s')" "c \<in> {''images'', ''streams''}" "hex_laws hx" "kept hx T s"
  shows "kept hx T s'"
proof -
  have c: "valid_name c" "c \<noteq> OBJECTS" using assms(2) by (auto simp: valid_name_def OBJECTS_def)
  have comps: "components c = [Normal c]"
    using components_path_of [of "[c]"] c(1) by (simp add: plain_names_def)
  have shape: "category_shape t c" if "kept hx T t" for t :: "'a link_repo_scheme" using that assms(2) by (auto simp: kept_def)
  have dir: "d = [c]" if "open_dir t c = Inr (Some d)" "kept hx T t" for t :: "'a link_repo_scheme" and d
    using that(1) shape [OF that(2)] c(2)
    by (auto simp: open_dir_def lookup_path_def comps entry_kind_links in_links_def node_kind_def category_shape_def
        split: option.splits sum.splits path_error.splits errno.splits if_splits node.splits)
  have sub: "r \<noteq> []" if "open_subdir t [c] ''refs'' = Inr (Some r)" "kept hx T t" for t :: "'a link_repo_scheme" and r
  proof -
    have "r = [c, ''refs'']" using that(1) shape [OF that(2)] c(2)
      by (auto simp: open_subdir_def entry_kind_links in_links_def node_kind_def category_shape_def dest!: bt_get_SomeD
        split: option.splits sum.splits path_error.splits errno.splits if_splits node.splits entry_kind.splits)
    then show ?thesis by simp
  qed
  note assms(1) [unfolded cleanup_gc_category_def io_bind_Some io_state_def io_lift_def io_return_def]
  then consider "s' = s" | d q1 s1 where "open_dir s c = Inr (Some d)"
      "cleanup_broken_links False False d (dir_nodes s d) s = Some (q1, s1)" "s' = s1"
    | d q1 s1 r q2 where "open_dir s c = Inr (Some d)" "cleanup_broken_links False False d (dir_nodes s d) s = Some (q1, s1)"
      "open_subdir s1 d ''refs'' = Inr (Some r)" "cleanup_broken_links True False r (dir_nodes s1 r) s1 = Some (q2, s')"
    by (auto simp: io_bind_Some split: option.splits)
  then show ?thesis
  proof cases
    case 2
    then show ?thesis using kept_cleanup(1) [OF 2(2) assms(3) _ assms(4)] dir [OF 2(1) assms(4)] by simp
  next
    case 3
    have d: "d = [c]" using dir [OF 3(1) assms(4)] .
    then have k: "kept hx T s1" using kept_cleanup(1) [OF 3(2) assms(3) _ assms(4)] by simp
    show ?thesis using kept_cleanup(1) [OF 3(4) assms(3) sub [OF 3(3) [unfolded d] k] k] .
  qed (use assms(4) in simp)
qed

section \<open>What the links of a category lead to\<close>

definition linked :: "hex_crate \<Rightarrow> 'z link_repo_scheme \<Rightarrow> bytes \<Rightarrow> bytes \<Rightarrow> bytes \<Rightarrow> bool" where
  "linked hx s c n oid \<longleftrightarrow> valid_name n \<and> find_node (links s) [c, n] = Some (NLink (object_link hx oid))"

lemma open_linked:
  assumes hx: "hex_laws hx" "1 < length oid" and l: "linked hx s c n oid" and c: "valid_name c" "c \<noteq> OBJECTS"
  shows "open_file s (path_of [c, n]) = Inr f \<longleftrightarrow> bt_get (repo.objects s) (to_object_pathname hx oid) = Some f"
proof -
  let ?b = "hex2 (hd oid)" and ?r = "hex_encode hx (tl oid)"
  have n: "valid_name n" "find_node (links s) [c, n] = Some (NLink (object_link hx oid))" using l by (simp_all add: linked_def)
  then have nk: "entry_kind s [c, n] = Some (KLink (object_link hx oid))"
    using c by (simp add: entry_kind_links in_links_def node_kind_def)
  have ck: "entry_kind s [c] = Some KDir"
    using n(2) c by (auto simp: entry_kind_links in_links_def node_kind_def split: option.splits node.splits)
  have comps: "components (path_of [c, n]) = map Normal [c, n]"
    using c n by (intro components_path_of) (simp add: plain_names_def)
  have path: "to_object_pathname hx oid = ?b @ ''/'' @ ?r" by (simp add: to_object_pathname_def)
  obtain k where k: "MAXSYMLINKS = Suc k" by (simp add: MAXSYMLINKS_def)
  have res: "lookup_path s (path_of [c, n]) = resolve k s [] (map Normal [OBJECTS, ?b, ?r])"
    unfolding lookup_path_def comps k using ck nk by (simp add: components_object_link [OF hx])
  show ?thesis
  proof
    assume o: "open_file s (path_of [c, n]) = Inr f"
    then obtain p where p: "resolve k s [] (map Normal [OBJECTS, ?b, ?r]) = Inr p"
      unfolding open_file_def res rbind_eq_Inr_iff map_err_eq_Inr_iff by blast
    then have pe: "p = [OBJECTS, ?b, ?r]"
      by (auto simp: entry_kind_def objects_kind_def split: option.splits entry_kind.splits if_splits)
    then show "bt_get (repo.objects s) (to_object_pathname hx oid) = Some f"
      using o unfolding open_file_def res p pe by (simp add: path)
  next
    assume f: "bt_get (repo.objects s) (to_object_pathname hx oid) = Some f"
    have "lookup_path s (path_of [c, n]) = Inr [OBJECTS, ?b, ?r]"
      unfolding res using objects_kinds [of s ?b ?r] f by (simp add: path)
    then show "open_file s (path_of [c, n]) = Inr f" using f by (simp add: open_file_def path)
  qed
qed

lemma kind_link_iff: "map_option node_kind x = Some (KLink l) \<longleftrightarrow> x = Some (NLink l)"
  by (cases x) (auto simp: node_kind_def split: node.splits)

lemma rmap_Inr: "rmap f xs = Inr ys \<Longrightarrow> y \<in> set ys \<Longrightarrow> \<exists>x \<in> set xs. f x = Inr y"
  by (induction xs arbitrary: ys) (auto simp: rbind_eq_Inr_iff)

lemma parse_object_link:
  assumes "hex_laws hx" "0 < size_of H" "length oid = size_of H"
  shows "from_object_pathname hx H (object_link hx oid) = Inr oid"
proof -
  have "oid \<noteq> []" using assms by auto
  then have "length (to_object_pathname hx oid) = 2 * size_of H + 1"
    using assms(3) length_to_object_pathname [OF assms(1), of oid] by simp
  moreover have "ascii_lower SLASH = SLASH" by (simp add: ascii_lower_def)
  then have "map ascii_lower (to_object_pathname hx oid) = to_object_pathname hx oid"
    using assms(1) by (simp add: to_object_pathname_def)
  ultimately show ?thesis
    using from_object_pathname_trailing [OF assms(1,2), of "to_object_pathname hx oid" "''../objects/''" oid] assms(3)
    by (simp add: object_link_def format_object_path_def)
qed

lemma category_links:
  assumes hx: "hex_laws hx" "0 < size_of H" and lay: "repo_layout hx H s" and c: "c \<in> {''images'', ''streams''}"
    and g: "gc_category hx H s c mode = Inr rs" and m: "(oid, n) \<in> set rs"
  shows "linked hx s c n oid \<and> length oid = size_of H"
proof -
  have cn: "valid_name c" "c \<noteq> OBJECTS" using c by (auto simp: valid_name_def OBJECTS_def)
  have comps: "components c = [Normal c]" using components_path_of [of "[c]"] cn(1) by (simp add: plain_names_def)
  have shape: "category_shape s c" "entries_ok hx H s c" using lay c by (auto simp: repo_layout_def)
  obtain d names where d: "open_dir s c = Inr (Some d)" and
    r: "rmap (\<lambda>n. rbind (read_symlink_hashvalue hx H s d n) (\<lambda>oid. Inr (oid, n))) names = Inr rs"
    using g m by (auto simp: gc_category_def rbind_eq_Inr_iff split: option.splits)
  have dc: "d = [c]"
    using d shape(1) cn(2)
    by (auto simp: open_dir_def lookup_path_def comps entry_kind_links in_links_def node_kind_def category_shape_def
        split: option.splits sum.splits path_error.splits errno.splits if_splits node.splits)
  have "read_symlink_hashvalue hx H s [c] n = Inr oid"
    using rmap_Inr [OF r m] dc by (auto simp: rbind_eq_Inr_iff)
  then obtain l where l: "entry_kind s [c, n] = Some (KLink l)" "from_object_pathname hx H l = Inr oid"
    by (auto simp: read_symlink_hashvalue_def split: option.splits entry_kind.splits)
  have fl: "find_node (links s) [c, n] = Some (NLink l)"
    using l(1) cn(2) entry_kind_links [of "[c, n]" s] by (simp only: in_links_def kind_link_iff list.sel simp_thms)
  then obtain es where es: "bt_get (links s) c = Some (NDir es)" "(n, NLink l) \<in> set es"
    by (auto dest: bt_get_SomeD split: option.splits node.splits)
  then have dn: "(n, NLink l) \<in> set (dir_nodes s [c])" by (simp add: dir_nodes_def)
  have "n \<noteq> ''refs''" using es shape(1) by (auto simp: category_shape_def)
  then obtain oid' where "valid_name n" "length oid' = size_of H" "l = object_link hx oid'"
    using dn shape(2) by (fastforce simp: entries_ok_def)
  moreover from this have "oid' = oid" using parse_object_link [OF hx] l(2) by simp
  ultimately show ?thesis using fl by (simp add: linked_def)
qed

section \<open>Streams and images after a collection\<close>

lemma read_object_cong:
  assumes "bt_get (repo.objects s') (to_object_pathname hx oid) = bt_get (repo.objects s) (to_object_pathname hx oid)"
    "insecure s' = insecure s"
  shows "\<exists>q. read_object hx K H oid s = Some (q, s) \<and> read_object hx K H oid s' = Some (q, s')"
  using assms by (auto simp: read_object_def open_object_def io_bind_def Let_def io_return_def split: option.splits sum.splits)

text \<open>What \<open>cat\<close> writes depends on the contents of the objects that the reader names.\<close>

lemma ensure_chunk_refs:
  assumes "ensure_chunk r a b n = Inr (ch, r')"
  shows "r_object_refs r' = r_object_refs r" "ch = CExternal oid \<Longrightarrow> oid \<in> set (r_object_refs r)"
  using assms
  by (auto simp: ensure_chunk_def read_exactish_def Let_def result_simps split: if_splits prod.splits option.splits)

lemma cat_loop_cong:
  assumes "\<forall>oid \<in> set (r_object_refs r). \<exists>q. read oid s = Some (q, s) \<and> read oid s' = Some (q, s')"
  shows "\<exists>q. cat_loop read r out s = Some (q, s) \<and> cat_loop read r out s' = Some (q, s')"
  using assms
proof (induction read r out rule: cat_loop.induct)
  case (1 read r out)
  show ?case
  proof (cases "ensure_chunk r True True 0")
    case (Inr y)
    obtain ch r1 where y: "y = (ch, r1)" by (cases y)
    note refs = ensure_chunk_refs [OF Inr [unfolded y]]
    show ?thesis
    proof (cases ch)
      case CInline
      show ?thesis
      proof (cases "dec_read_exact (decoder r1) (inline_bytes r1)")
        case (Inr z)
        obtain b dec where z: "z = (b, dec)" by (cases z)
        show ?thesis
          using "1.IH"(1) [OF \<open>ensure_chunk r True True 0 = Inr y\<close> y [symmetric] CInline Inr z [symmetric]] "1.prems" refs(1) Inr y z CInline
            \<open>ensure_chunk r True True 0 = Inr y\<close> by (subst (1 2) cat_loop.simps) simp
      qed (use Inr y CInline in \<open>simp add: cat_loop.simps [of read r out] io_fail_def\<close>)
    next
      case (CExternal oid)
      then obtain q where q: "read oid s = Some (q, s)" "read oid s' = Some (q, s')" using "1.prems" refs(2) by blast
      show ?thesis
      proof (cases q)
        case (Inr d)
        show ?thesis
          using "1.IH"(2) [OF \<open>ensure_chunk r True True 0 = Inr y\<close> y [symmetric] CExternal, of d] "1.prems" refs(1) q Inr y CExternal
            \<open>ensure_chunk r True True 0 = Inr y\<close>
          by (subst (1 2) cat_loop.simps) (simp add: io_bind_def repo_step_def)
      qed (use q Inr y CExternal in \<open>simp add: cat_loop.simps [of read r out] io_bind_def repo_step_def\<close>)
    qed (use Inr y in \<open>simp add: cat_loop.simps [of read r out] io_return_def\<close>)
  qed (simp add: cat_loop.simps [of read r out] io_fail_def)
qed

lemma chunks_full: "0 < n \<Longrightarrow> n dvd length xs \<Longrightarrow> c \<in> set (chunks n xs) \<Longrightarrow> length c = n"
proof (induction n xs rule: chunks.induct)
  case (1 n xs)
  show ?case
  proof (cases "xs = []")
    case False
    then have "n \<le> length xs" using 1(3) by (simp add: dvd_imp_le)
    moreover have "n dvd length (drop n xs)" using 1(3) \<open>n \<le> length xs\<close> by (simp add: dvd_diff_nat)
    ultimately show ?thesis using 1 False by (auto simp: chunks.simps [of n xs])
  qed (use 1 in simp)
qed

lemma reader_new_refs:
  assumes "reader_new Z H buf ct = Inr r" "oid \<in> set (r_object_refs r)" "0 < size_of H"
  shows "length oid = size_of H"
proof -
  have "length x = size_of H" if "hash_slice H b = Some xs" "x \<in> set xs" for b xs x
    using that assms(3) by (auto simp: hash_slice_def mod_eq_0_iff_dvd intro: chunks_full split: if_splits)
  then show ?thesis using assms by (auto simp: reader_new_def rbind_eq_Inr_iff Let_def split: if_splits prod.splits)
qed

lemma reader_new_any: "reader_new Z H buf ct = Inr r \<Longrightarrow> reader_new Z H buf None = Inr r"
  by (auto simp: reader_new_def rbind_eq_Inr_iff Let_def)

lemma gc_roots_links:
  assumes hx: "hex_laws hx" "0 < size_of H" and lay: "repo_layout hx H s" and c: "c \<in> {''images'', ''streams''}"
    and g: "gc_roots hx H s c extra = Inr (all, roots)" and m: "(oid, n) \<in> set all \<union> set roots"
  shows "linked hx s c n oid \<and> length oid = size_of H"
proof -
  obtain refs where "gc_category hx H s c AllEntries = Inr all" "gc_category hx H s c RefsOnly = Inr refs"
    "roots = with_extra extra refs all"
    using g by (auto simp: gc_roots_def rbind_eq_Inr_iff)
  moreover from this have "(oid, n) \<in> set all \<or> (oid, n) \<in> set refs" using m by (auto simp: with_extra_def)
  ultimately show ?thesis using category_links [OF hx lay c] by blast
qed

lemma reached_linked:
  assumes hx: "hex_laws hx" "0 < size_of H" and lay: "repo_layout hx H s"
    and g: "gc_roots hx H s ''streams'' extra = Inr (all, streams)"
    and r: "stream_reached Z H s (stream_name_map all) (snd ` set streams) n"
  shows "\<exists>oid \<in> live_closure Z hx K H s images all streams. linked hx s ''streams'' n oid \<and> length oid = size_of H"
  using r
proof cases
  case start
  then obtain oid where o: "(oid, n) \<in> set streams" by auto
  then have "oid \<in> live_closure Z hx K H s images all streams" by (force simp: live_closure_def)
  then show ?thesis using gc_roots_links [OF hx lay _ g] o by blast
next
  case (step m)
  then obtain r t oid where m: "stream_at Z H s m = Inr r" "(t, oid) \<in> set (iter_named_refs r)" "stream_name_map all oid = Some n"
    by (auto simp: next_streams_def split: sum.splits)
  then have "(oid, n) \<in> set all" by (auto simp: stream_name_map_def dest: map_of_SomeD)
  moreover have "oid \<in> contributes Z H s m" using m by (force simp: contributes_def stream_objects_def)
  then have "oid \<in> live_closure Z hx K H s images all streams" using step(1) by (auto simp: live_closure_def)
  ultimately show ?thesis using gc_roots_links [OF hx lay _ g] by blast
qed

lemma format_stream_path_of: "format_stream_path n = path_of [''streams'', n]"
  by (simp add: format_stream_path_def)

lemma category_names: "c \<in> {''images'', ''streams''} \<Longrightarrow> valid_name c \<and> c \<noteq> OBJECTS"
  by (auto simp: valid_name_def OBJECTS_def)

text \<open>What a successful collection keeps: links to live objects that could be opened open the same file.\<close>

lemma gc_keeps_links:
  assumes hx: "hex_laws hx" "1 < size_of H" and lay: "repo_layout hx H s" and gc: "gc Z hx K H extra s = Some (Inr r, s')"
    and live: "gc_live Z hx K H extra s = Some (Inr live, s)"
    and l: "linked hx s c n oid" "c \<in> {''images'', ''streams''}" "oid \<in> live" "length oid = size_of H"
    and f: "open_file s (path_of [c, n]) = Inr f"
  shows "open_file s' (path_of [c, n]) = Inr f"
proof -
  have len: "1 < length oid" "0 < size_of H" using l(4) hx(2) by simp_all
  note ol = open_linked [OF hx(1) len(1)]
  have bf: "bt_get (repo.objects s) (to_object_pathname hx oid) = Some f" using ol [OF l(1)] category_names [OF l(2)] f by simp
  have wf: "bt_wf (repo.objects s)" using lay by (simp add: repo_layout_def)
  obtain k m s1 s2 ip sp where g: "gc_objects hx H live False (all_objects (repo.objects s)) s = Some (Inr (k, m), s1)"
    and cl: "cleanup_gc_category ''images'' False s1 = Some (Inr ip, s2)" "cleanup_gc_category ''streams'' False s2 = Some (Inr sp, s')"
    using gc live unfolding gc_def all_objects_def by (elim gc_Inr) auto
  have s1: "links s1 = links s" "bt_get (repo.objects s1) (to_object_pathname hx oid) = Some f"
    using gc_objects_result [OF g] gc_objects_live [OF hx(1) len(2) wf l(4) g] l(3) bf by simp_all
  have "kept hx {(c, n, oid)} s1"
    using l lay category_names [OF l(2)] len(1) s1 by (simp add: kept_def held_def linked_def repo_layout_def category_shape_def)
  then have "kept hx {(c, n, oid)} s'"
    using kept_category [OF cl(1) _ hx(1)] kept_category [OF cl(2) _ hx(1)] by blast
  then have "linked hx s' c n oid" using l(1) by (simp add: kept_def held_def linked_def)
  moreover have "bt_get (repo.objects s') (to_object_pathname hx oid) = Some f"
    using gc_result_objects [OF hx(1) len(2) wf gc live l(4)] l(3) bf by simp
  ultimately show ?thesis using ol [of s' c n f] category_names [OF l(2)] by simp
qed

lemma gc_insecure:
  assumes "gc Z hx K H extra s = Some (Inr r, s')"
  shows "insecure s' = insecure s"
proof -
  obtain live k m s1 s2 ip sp where g: "gc_objects hx H live False (all_objects (repo.objects s)) s = Some (Inr (k, m), s1)"
    and cl: "cleanup_gc_category ''images'' False s1 = Some (Inr ip, s2)" "cleanup_gc_category ''streams'' False s2 = Some (Inr sp, s')"
    using assms unfolding gc_def all_objects_def by (elim gc_Inr) auto
  have "insecure s2 = insecure s1" "insecure s' = insecure s2"
    using keeps_objects_category cl unfolding keeps_objects_def by metis+
  then show ?thesis using gc_objects_result [OF g] by simp
qed

text \<open>
  C5: A garbage collection loses nothing that a root reaches: every stream that the references, the additional roots and
  the named references of streams lead to has the same contents as before, with all its objects, and every
  image that is a root opens as before.
\<close>

theorem gc_keeps_reachable:
  assumes hx: "hex_laws hx" "1 < size_of H" and lay: "repo_layout hx H s" and gc: "gc Z hx K H extra s = Some (Inr r, s')"
  shows "\<exists>all streams all_images images. gc_roots hx H s ''streams'' extra = Inr (all, streams) \<and>
    gc_roots hx H s ''images'' extra = Inr (all_images, images) \<and>
    (\<forall>n ct. stream_reached Z H s (stream_name_map all) (snd ` set streams) n \<longrightarrow>
      (\<exists>q. merge_splitstream Z hx K H n None ct s = Some (q, s) \<and> merge_splitstream Z hx K H n None ct s' = Some (q, s'))) \<and>
    (\<forall>n \<in> snd ` set images. \<exists>q. open_image hx K H n s = Some (Inr q, s) \<and> open_image hx K H n s' = Some (Inr q, s'))"
proof -
  have h0: "0 < size_of H" using hx(2) by simp
  have wf: "bt_wf (repo.objects s)" using lay by (simp add: repo_layout_def)
  obtain live where live: "gc_live Z hx K H extra s = Some (Inr live, s)" using gc unfolding gc_def by (elim gc_Inr) auto
  obtain all_images images all streams where roots: "gc_roots hx H s ''images'' extra = Inr (all_images, images)"
      "gc_roots hx H s ''streams'' extra = Inr (all, streams)"
    and lc: "live = live_closure Z hx K H s images all streams"
    and im: "\<forall>name \<in> snd ` set images. objects_for_image hx K H name s = Some (Inr (image_objects hx K H s name), s)"
    and st: "\<forall>name \<in> Collect (stream_reached Z H s (stream_name_map all) (snd ` set streams)). \<exists>r. stream_at Z H s name = Inr r"
    by (rule gc_live_Inr [OF live]) blast
  note keeps = gc_keeps_links [OF hx lay gc live]
  have stream: "\<exists>q. merge_splitstream Z hx K H n None ct s = Some (q, s) \<and> merge_splitstream Z hx K H n None ct s' = Some (q, s')"
    if n: "stream_reached Z H s (stream_name_map all) (snd ` set streams) n" for n ct
  proof -
    obtain oid where oid: "oid \<in> live" "linked hx s ''streams'' n oid" "length oid = size_of H"
      using reached_linked [OF hx(1) h0 lay roots(2) n] lc by blast
    obtain r0 where "stream_at Z H s n = Inr r0" using st n by blast
    then obtain f where f: "open_file s (format_stream_path n) = Inr f" and r0: "reader_new Z H (file_data f) None = Inr r0"
      by (auto simp: stream_at_def rbind_eq_Inr_iff)
    have f': "open_file s' (format_stream_path n) = Inr f"
      using keeps [OF oid(2) _ oid(1,3)] f by (simp add: format_stream_path_of)
    show ?thesis
    proof (cases "reader_new Z H (file_data f) ct")
      case (Inr rd)
      then have rd: "rd = r0" using reader_new_any r0 by fastforce
      have "\<exists>q. read_object hx K H i s = Some (q, s) \<and> read_object hx K H i s' = Some (q, s')" if "i \<in> set (r_object_refs rd)" for i
      proof (rule read_object_cong)
        have "i \<in> live" using that n \<open>stream_at Z H s n = Inr r0\<close> rd
          by (auto simp: lc live_closure_def contributes_def stream_objects_def get_object_refs_def)
        then show "bt_get (repo.objects s') (to_object_pathname hx i) = bt_get (repo.objects s) (to_object_pathname hx i)"
          using gc_result_objects [OF hx(1) h0 wf gc live reader_new_refs [OF Inr that h0]] by simp
      qed (rule gc_insecure [OF gc])
      then obtain q where "cat hx K H rd s = Some (q, s)" "cat hx K H rd s' = Some (q, s')"
        using cat_loop_cong [of rd "read_object hx K H" s s' "[]"] unfolding cat_def by blast
      then show ?thesis using f f' Inr
        by (simp add: merge_splitstream_def open_stream_def io_bind_def io_lift_def io_err_def)
    qed (use f f' in \<open>simp add: merge_splitstream_def open_stream_def io_bind_def io_lift_def io_err_def\<close>)
  qed
  have image: "\<exists>q. open_image hx K H n s = Some (Inr q, s) \<and> open_image hx K H n s' = Some (Inr q, s')" if n: "n \<in> snd ` set images" for n
  proof -
    obtain oid where o: "(oid, n) \<in> set images" using n by auto
    then have oid: "oid \<in> live" "linked hx s ''images'' n oid" "length oid = size_of H"
      using gc_roots_links [OF hx(1) h0 lay _ roots(1)] by (force simp: lc live_closure_def)+
    obtain q where q: "open_image hx K H n s = Some (Inr q, s)"
      using im n unfolding objects_for_image_def by (fastforce simp: io_bind_Inr_iff open_image_def)
    then obtain f where f: "open_file s (path_of [''images'', n]) = Inr f"
      by (auto simp: open_image_def rbind_eq_Inr_iff)
    have "open_file s' (path_of [''images'', n]) = Inr f" using keeps [OF oid(2) _ oid(1,3) f] by simp
    then show ?thesis using q f unfolding open_image_def gc_insecure [OF gc] by simp
  qed
  show ?thesis using roots stream image by blast
qed

lemma demo_layout: "repo_layout hex_codec tiny_H (demo_state b)"
proof -
  have "bt_wf (repo.objects (demo_state b))" by code_simp
  moreover have "length (demo_id c) = size_of tiny_H" for c by (simp add: demo_id_def tiny_H_def)
  moreover have "valid_name ''layer''" "valid_name ''stale''" "valid_name ''refs''" by code_simp+
  ultimately show ?thesis
    by (auto simp: repo_layout_def category_shape_def entries_ok_def dir_nodes_def demo_state_def object_link_def bt_get_def)
qed

lemma gc_keeps_reachable_witness:
  "\<exists>q. merge_splitstream plain_zstd hex_codec tiny_K tiny_H ''layer'' None (Some 7) demo_repo = Some (q, demo_repo) \<and>
     merge_splitstream plain_zstd hex_codec tiny_K tiny_H ''layer'' None (Some 7) (demo_collected demo_stream) =
       Some (q, demo_collected demo_stream)"
proof -
  have size: "1 < size_of tiny_H" by (simp add: tiny_H_def)
  obtain all streams where r: "gc_roots hex_codec tiny_H demo_repo ''streams'' [] = Inr (all, streams)"
    and k: "\<forall>n ct. stream_reached plain_zstd tiny_H demo_repo (stream_name_map all) (snd ` set streams) n \<longrightarrow>
      (\<exists>q. merge_splitstream plain_zstd hex_codec tiny_K tiny_H n None ct demo_repo = Some (q, demo_repo) \<and>
        merge_splitstream plain_zstd hex_codec tiny_K tiny_H n None ct (demo_collected demo_stream) = Some (q, demo_collected demo_stream))"
    using gc_keeps_reachable [OF hex_laws_hex_codec size demo_layout demo_gc] by blast
  have "''layer'' \<in> snd ` set streams" using r by (auto simp: gc_roots_def demo_categories with_extra_def)
  then show ?thesis using k stream_reached.start by blast
qed

end
