(* ===== verification/Erofs_Writer.thy ===== *)
theory Erofs_Writer
  imports Erofs_Reader Generic_Tree Hash_Value
begin

text \<open>
  Models \<open>crates/composefs/src/erofs/writer.rs\<close>: collecting a tree into a table of inodes, sharing
  extended attributes, and the two passes that lay an image out and write it. The trait
  \<open>Output\<close> is a record of functions on the state of an output; \<open>None\<close> is a panic (a failed assertion,
  an index out of range, an \<open>unwrap\<close>). The hash function of the xxhash crate is the parameter
  \<open>xxh32\<close>; it decides the bits of the attribute filter and nothing else.
\<close>

section \<open>Outputs\<close>

datatype offset = OHeader | OSuperblock | OInode | OXAttr | OBlock | OEnd

definition offset_index :: "offset \<Rightarrow> nat" where
  "offset_index t = (case t of OHeader \<Rightarrow> 0 | OSuperblock \<Rightarrow> 1 | OInode \<Rightarrow> 2 | OXAttr \<Rightarrow> 3 | OBlock \<Rightarrow> 4 | OEnd \<Rightarrow> 5)"

record 's Output =
  note_offset :: "offset \<Rightarrow> 's \<Rightarrow> 's option"
  get_offset :: "'s \<Rightarrow> offset \<Rightarrow> nat \<Rightarrow> nat option"
  out_write :: "bytes \<Rightarrow> 's \<Rightarrow> 's"
  out_pad :: "nat \<Rightarrow> 's \<Rightarrow> 's"
  out_len :: "'s \<Rightarrow> nat"

text \<open>The provided methods \<open>get_div\<close>, \<open>get_nid\<close> and \<open>get_xattr\<close>, of what \<open>get\<close> returns.\<close>

type_synonym offset_getter = "offset \<Rightarrow> nat \<Rightarrow> nat option"

definition get_div :: "offset_getter \<Rightarrow> offset \<Rightarrow> nat \<Rightarrow> nat \<Rightarrow> nat option" where
  "get_div g t i n = do { k \<leftarrow> g t i; assert_p (k mod n = 0); Some (k div n) }"

definition get_nid :: "offset_getter \<Rightarrow> nat \<Rightarrow> u64 option" where
  "get_nid g i = do { k \<leftarrow> get_div g OInode i 32; Some (of_nat k) }"

definition get_xattr :: "offset_getter \<Rightarrow> nat \<Rightarrow> u32 option" where
  "get_xattr g i = do { k \<leftarrow> get_div g OXAttr i 4; assert_p (k < 2 ^ 32); Some (of_nat k) }"

record out_layout =
  offset_types :: "nat list"
  offsets :: "nat list"

record first_pass =
  fp_offset :: nat
  fp_layout :: out_layout

record second_pass =
  sp_output :: bytes
  sp_layout :: out_layout

definition empty_layout :: out_layout where "empty_layout = \<lparr>offset_types = [], offsets = []\<rparr>"

definition fp_note :: "offset \<Rightarrow> first_pass \<Rightarrow> first_pass option" where
  "fp_note t s = (let l = fp_layout s;
       types = offset_types l @ replicate (Suc (offset_index t) - length (offset_types l)) (length (offsets l)) in do {
     assert_p (length types = Suc (offset_index t));
     Some (s\<lparr>fp_layout := \<lparr>offset_types = types, offsets = offsets l @ [fp_offset s]\<rparr>\<rparr>)
   })"

definition FirstPass :: "first_pass Output" where
  "FirstPass = \<lparr>note_offset = fp_note, get_offset = (\<lambda>s t i. Some 0),
     out_write = (\<lambda>b s. s\<lparr>fp_offset := fp_offset s + length b\<rparr>),
     out_pad = (\<lambda>a s. s\<lparr>fp_offset := round_up (fp_offset s) a\<rparr>),
     out_len = fp_offset\<rparr>"

definition nth_opt :: "'a list \<Rightarrow> nat \<Rightarrow> 'a option" where
  "nth_opt xs i = (if i < length xs then Some (xs ! i) else None)"

definition layout_get :: "out_layout \<Rightarrow> offset \<Rightarrow> nat \<Rightarrow> nat option" where
  "layout_get l t i = do { start \<leftarrow> nth_opt (offset_types l) (offset_index t); nth_opt (offsets l) (start + i) }"

definition SecondPass :: "second_pass Output" where
  "SecondPass = \<lparr>note_offset = (\<lambda>t s. Some s), get_offset = (\<lambda>s. layout_get (sp_layout s)),
     out_write = (\<lambda>b s. s\<lparr>sp_output := sp_output s @ b\<rparr>),
     out_pad = (\<lambda>a s. s\<lparr>sp_output := sp_output s @ zeros (round_up (length (sp_output s)) a - length (sp_output s))\<rparr>),
     out_len = (\<lambda>s. length (sp_output s))\<rparr>"

fun fold_opt :: "('a \<Rightarrow> 's \<Rightarrow> 's option) \<Rightarrow> 'a list \<Rightarrow> 's \<Rightarrow> 's option" where
  "fold_opt f [] s = Some s"
| "fold_opt f (x # xs) s = do { s' \<leftarrow> f x s; fold_opt f xs s' }"

section \<open>Extended attributes\<close>

datatype xattr = XAttr (attr_prefix: u8) (attr_suffix: bytes) (attr_value: bytes)

text \<open>\<open>derive(PartialOrd, Ord)\<close>: the fields in order.\<close>

instantiation xattr :: linorder
begin

definition less_xattr :: "xattr \<Rightarrow> xattr \<Rightarrow> bool" where
  "less_xattr a b \<longleftrightarrow> attr_prefix a < attr_prefix b \<or> attr_prefix a = attr_prefix b \<and>
     (attr_suffix a < attr_suffix b \<or> attr_suffix a = attr_suffix b \<and> attr_value a < attr_value b)"

definition less_eq_xattr :: "xattr \<Rightarrow> xattr \<Rightarrow> bool" where
  "less_eq_xattr a b \<longleftrightarrow> a < b \<or> a = b"

instance
proof
  fix a b c :: xattr
  show "a < b \<longleftrightarrow> a \<le> b \<and> \<not> b \<le> a"
    by (cases a; cases b) (auto simp: less_xattr_def less_eq_xattr_def)
  show "a \<le> a" by (simp add: less_eq_xattr_def)
  show "a \<le> b \<Longrightarrow> b \<le> c \<Longrightarrow> a \<le> c"
    by (cases a; cases b; cases c) (auto simp: less_xattr_def less_eq_xattr_def)
  show "a \<le> b \<Longrightarrow> b \<le> a \<Longrightarrow> a = b"
    by (cases a; cases b) (auto simp: less_xattr_def less_eq_xattr_def)
  show "a \<le> b \<or> b \<le> a"
    by (cases a; cases b) (auto simp: less_xattr_def less_eq_xattr_def)
qed

end

record attr_set =
  shared_ids :: "nat list"
  local_attrs :: "xattr list"
  attr_filter :: u32

definition no_attrs :: attr_set where
  "no_attrs = \<lparr>shared_ids = [], local_attrs = [], attr_filter = 0\<rparr>"

definition xattr_write :: "'s Output \<Rightarrow> xattr \<Rightarrow> 's \<Rightarrow> 's" where
  "xattr_write W x s =
     out_pad W 4 (out_write W (attr_value x) (out_write W (attr_suffix x)
       (out_write W (xattr_header_bytes \<lparr>name_len = of_nat (length (attr_suffix x)),
          name_index = attr_prefix x, value_size = of_nat (length (attr_value x))\<rparr>) s)))"

fun add_loop :: "(bytes \<Rightarrow> u32 \<Rightarrow> u32) \<Rightarrow> (nat \<times> bytes) list \<Rightarrow> bytes \<Rightarrow> bytes \<Rightarrow> attr_set \<Rightarrow> attr_set option" where
  "add_loop xxh32 [] name v a = None"
| "add_loop xxh32 ((idx, p) # ps) name v a =
     (case strip_prefix p name of
        Some sfx \<Rightarrow> Some (a\<lparr>attr_filter := attr_filter a OR push_bit (unat (xxh32 sfx (XATTR_FILTER_SEED + of_nat idx) mod 32)) 1,
          local_attrs := local_attrs a @ [XAttr (of_nat idx) sfx v]\<rparr>)
      | None \<Rightarrow> add_loop xxh32 ps name v a)"

definition add_attr :: "(bytes \<Rightarrow> u32 \<Rightarrow> u32) \<Rightarrow> bytes \<Rightarrow> bytes \<Rightarrow> attr_set \<Rightarrow> attr_set option" where
  "add_attr xxh32 = add_loop xxh32 (rev (List.enumerate 0 XATTR_PREFIXES))"

definition write_attrs :: "'s Output \<Rightarrow> attr_set \<Rightarrow> 's \<Rightarrow> 's option" where
  "write_attrs W a s = (if attr_filter a \<noteq> 0 then do {
       s1 \<leftarrow> Some (out_write W (inode_xattr_header_bytes \<lparr>name_filter = NOT (attr_filter a),
         shared_count = of_nat (length (shared_ids a))\<rparr>) s);
       s2 \<leftarrow> fold_opt (\<lambda>i s. do { k \<leftarrow> get_xattr (get_offset W s) i; Some (out_write W (le32 k) s) }) (shared_ids a) s1;
       Some (fold (xattr_write W) (local_attrs a) s2)
     } else Some s)"

section \<open>Directories\<close>

record dirent =
  de_name :: bytes
  de_inode :: nat
  de_type :: file_type

record dir_data =
  dir_blocks :: "dirent list list"
  dir_inline :: "dirent list"
  dir_size :: nat
  dir_links :: nat

definition dirent_size :: "dirent \<Rightarrow> nat" where
  "dirent_size e = 12 + length (de_name e)"

text \<open>The loop of \<open>from_entries\<close> carries \<open>blocks\<close>, \<open>rest\<close>, \<open>nbytes\<close> and \<open>nlink\<close>.\<close>

fun entries_loop :: "dirent list \<Rightarrow> dirent list list \<Rightarrow> dirent list \<Rightarrow> nat \<Rightarrow> nat \<Rightarrow>
    (dirent list list \<times> dirent list \<times> nat \<times> nat) option" where
  "entries_loop [] bs rest nbytes nlink = Some (bs, rest, nbytes, nlink)"
| "entries_loop (e # es) bs rest nbytes nlink = do {
     assert_p (dirent_size e \<le> 4096);
     nlink' \<leftarrow> Some (if de_type e = FDirectory then nlink + 1 else nlink);
     if nbytes + dirent_size e \<le> 4096
     then entries_loop es bs (rest @ [e]) (nbytes + dirent_size e) nlink'
     else entries_loop es (bs @ [rest]) [e] (dirent_size e) nlink'
   }"

definition from_entries :: "dirent list \<Rightarrow> dir_data option" where
  "from_entries es = do {
     (bs, rest, nbytes, nlink) \<leftarrow> entries_loop es [] [] 0 0;
     (bs, rest, nbytes) \<leftarrow> Some (if 2048 < nbytes then (bs @ [rest], [], 0) else (bs, rest, nbytes));
     Some \<lparr>dir_blocks = bs, dir_inline = rest, dir_size = BLOCK_SIZE * length bs + nbytes, dir_links = nlink\<rparr>
   }"

fun write_dirents :: "'s Output \<Rightarrow> dirent list \<Rightarrow> nat \<Rightarrow> 's \<Rightarrow> 's option" where
  "write_dirents W [] nameofs s = Some s"
| "write_dirents W (e # es) nameofs s = do {
     nid \<leftarrow> get_nid (get_offset W s) (de_inode e);
     write_dirents W es (nameofs + length (de_name e)) (out_write W (dirent_header_bytes
       \<lparr>inode_offset = nid, name_offset = of_nat nameofs, de_file_type = file_type_field (de_type e)\<rparr>) s)
   }"

definition write_block :: "'s Output \<Rightarrow> dirent list \<Rightarrow> 's \<Rightarrow> 's option" where
  "write_block W b s = do {
     s1 \<leftarrow> write_dirents W b (12 * length b) s;
     Some (fold (\<lambda>e. out_write W (de_name e)) b s1)
   }"

definition write_dir_blocks :: "'s Output \<Rightarrow> dir_data \<Rightarrow> 's \<Rightarrow> 's option" where
  "write_dir_blocks W d s = fold_opt (\<lambda>b s. do {
     assert_p (out_len W s mod BLOCK_SIZE = 0);
     s1 \<leftarrow> write_block W b s;
     Some (out_pad W BLOCK_SIZE s1)
   }) (dir_blocks d) s"

type_synonym inode_meta = "data_layout \<times> u32 \<times> nat \<times> nat"

definition dir_inode_meta :: "dir_data \<Rightarrow> nat \<Rightarrow> inode_meta" where
  "dir_inode_meta d block_offset =
     (let (l, u) = (if dir_inline d = [] then (FlatPlain, of_nat block_offset div 4096)
        else if dir_blocks d \<noteq> [] then (FlatInline, of_nat block_offset div 4096) else (FlatInline, 0))
      in (l, u, dir_size d, dir_links d))"

section \<open>Inodes\<close>

datatype inode_content =
    DirContent dir_data
  | LeafContent "regular_file leaf_content" nat

record inode_rec =
  i_stat :: stat
  i_xattrs :: attr_set
  i_content :: inode_content

definition leaf_inode_meta :: "regular_file leaf_content \<Rightarrow> nat \<Rightarrow> inode_meta" where
  "leaf_inode_meta c nlink =
     (let (l, u, sz) = (case c of
         Regular (Inline d) \<Rightarrow> if d = [] then (FlatPlain, 0, length d) else (FlatInline, 0, length d)
       | Regular (External oid sz) \<Rightarrow> (ChunkBased, 31, unat sz)
       | CharacterDevice rdev \<Rightarrow> (FlatPlain, ucast rdev, 0)
       | BlockDevice rdev \<Rightarrow> (FlatPlain, ucast rdev, 0)
       | Fifo \<Rightarrow> (FlatPlain, 0, 0)
       | Socket \<Rightarrow> (FlatPlain, 0, 0)
       | Symlink target \<Rightarrow> (FlatInline, 0, length target))
      in (l, u, sz, nlink))"

definition leaf_inline :: "regular_file leaf_content \<Rightarrow> bytes" where
  "leaf_inline c = (case c of
       Regular (Inline d) \<Rightarrow> d
     | Regular (External _ _) \<Rightarrow> replicate 4 CHR 0xFF
     | Symlink target \<Rightarrow> target
     | _ \<Rightarrow> [])"

definition file_type :: "inode_content \<Rightarrow> file_type" where
  "file_type c = (case c of
       DirContent _ \<Rightarrow> FDirectory
     | LeafContent (Regular _) _ \<Rightarrow> FRegular
     | LeafContent (CharacterDevice _) _ \<Rightarrow> FCharacterDevice
     | LeafContent (BlockDevice _) _ \<Rightarrow> FBlockDevice
     | LeafContent Fifo _ \<Rightarrow> FFifo
     | LeafContent Socket _ \<Rightarrow> FSocket
     | LeafContent (Symlink _) _ \<Rightarrow> FSymlink)"

text \<open>The size of the attribute area comes from a first pass over it alone.\<close>

definition attrs_size :: "attr_set \<Rightarrow> nat option" where
  "attrs_size a = map_option fp_offset (write_attrs FirstPass a \<lparr>fp_offset = 0, fp_layout = empty_layout\<rparr>)"

definition inline_pad :: "'s Output \<Rightarrow> nat \<Rightarrow> nat \<Rightarrow> 's \<Rightarrow> 's" where
  "inline_pad W xsize sz s =
     (let inline_start = out_len W s + (64 + xsize);
          end_of_metadata = inline_start - 1;
          inline_end = inline_start + sz mod BLOCK_SIZE
      in if end_of_metadata div BLOCK_SIZE \<noteq> inline_end div BLOCK_SIZE
         then out_pad W 32 (out_write W (zeros (BLOCK_SIZE - end_of_metadata mod BLOCK_SIZE)) s) else s)"

definition icount :: "nat \<Rightarrow> u16" where
  "icount xsize = (if xsize = 0 then 0 else of_nat (1 + (xsize - 12) div 4))"

definition write_inode :: "'s Output \<Rightarrow> inode_rec \<Rightarrow> nat \<Rightarrow> 's \<Rightarrow> 's option" where
  "write_inode W i idx s = do {
     (l, u, sz, nlink) \<leftarrow> (case i_content i of
         DirContent d \<Rightarrow> do { k \<leftarrow> get_offset W s OBlock idx; Some (dir_inode_meta d k) }
       | LeafContent c nlink \<Rightarrow> Some (leaf_inode_meta c nlink));
     xsize \<leftarrow> attrs_size (i_xattrs i);
     s1 \<leftarrow> Some (out_pad W 32 s);
     s2 \<leftarrow> Some (if l = FlatInline then inline_pad W xsize sz s1 else s1);
     s3 \<leftarrow> note_offset W OInode s2;
     mode \<leftarrow> mode_field (file_type (i_content i)) (st_mode (i_stat i));
     s4 \<leftarrow> Some (out_write W (extended_header_bytes
       \<lparr>x_format = format_field Extended l, x_xattr_icount = icount xsize, x_mode = mode,
        x_size = of_nat sz, x_u = u, x_ino = of_nat (out_len W s3 div 32),
        x_uid = st_uid (i_stat i), x_gid = st_gid (i_stat i), x_mtime = st_mtim_sec (i_stat i),
        x_mtime_nsec = 0, x_nlink = of_nat nlink\<rparr>) s3);
     s5 \<leftarrow> write_attrs W (i_xattrs i) s4;
     s6 \<leftarrow> (case i_content i of DirContent d \<Rightarrow> write_block W (dir_inline d) s5
       | LeafContent c _ \<Rightarrow> Some (out_write W (leaf_inline c) s5));
     Some (out_pad W 32 s6)
   }"

definition write_blocks :: "'s Output \<Rightarrow> inode_rec \<Rightarrow> 's \<Rightarrow> 's option" where
  "write_blocks W i s = (case i_content i of DirContent d \<Rightarrow> write_dir_blocks W d s | LeafContent _ _ \<Rightarrow> Some s)"

section \<open>Collecting the inodes\<close>

record inode_collector =
  inodes :: "inode_rec list"
  hardlinks :: "rc \<Rightarrow> nat option"

definition escape_attr :: "bytes \<Rightarrow> bytes" where
  "escape_attr name = (case strip_prefix ''trusted.overlay.'' name of
       Some escapee \<Rightarrow> ''trusted.overlay.overlay.'' @ escapee | None \<Rightarrow> name)"

definition overlay_attrs :: "hex_crate \<Rightarrow> hash_alg \<Rightarrow> (bytes \<Rightarrow> u32 \<Rightarrow> u32) \<Rightarrow> inode_content \<Rightarrow> attr_set option" where
  "overlay_attrs hx H xxh32 c = (case c of
       LeafContent (Regular (External oid _)) _ \<Rightarrow> do {
         a \<leftarrow> add_attr xxh32 ''trusted.overlay.metacopy'' (metacopy_bytes H oid) no_attrs;
         add_attr xxh32 ''trusted.overlay.redirect'' (CHR ''/'' # to_object_pathname hx oid) a }
     | _ \<Rightarrow> Some no_attrs)"

definition push_inode :: "hex_crate \<Rightarrow> hash_alg \<Rightarrow> (bytes \<Rightarrow> u32 \<Rightarrow> u32) \<Rightarrow> stat \<Rightarrow> inode_content \<Rightarrow>
    inode_collector \<Rightarrow> (nat \<times> inode_collector) option" where
  "push_inode hx H xxh32 st c col = do {
     a \<leftarrow> overlay_attrs hx H xxh32 c;
     a' \<leftarrow> fold_opt (\<lambda>(n, v) a. add_attr xxh32 (escape_attr n) v a) (xattrs st) a;
     Some (length (inodes col), col\<lparr>inodes := inodes col @ [\<lparr>i_stat = st, i_xattrs = a', i_content = c\<rparr>]\<rparr>)
   }"

definition collect_leaf :: "hex_crate \<Rightarrow> hash_alg \<Rightarrow> (bytes \<Rightarrow> u32 \<Rightarrow> u32) \<Rightarrow> regular_file leaf list \<Rightarrow> (rc \<Rightarrow> nat) \<Rightarrow>
    rc \<Rightarrow> inode_collector \<Rightarrow> (nat \<times> inode_collector) option" where
  "collect_leaf hx H xxh32 h count r col = (let nlink = count r in
     case (if 1 < nlink then hardlinks col r else None) of
       Some i \<Rightarrow> Some (i, col)
     | None \<Rightarrow> do {
         (i, col') \<leftarrow> push_inode hx H xxh32 (leaf_stat (h ! r)) (LeafContent (content (h ! r)) nlink) col;
         Some (i, if 1 < nlink then col'\<lparr>hardlinks := (hardlinks col')(r \<mapsto> i)\<rparr> else col')
       })"

text \<open>\<open>partition_point\<close> on sorted entries is the number of smaller ones at the front.\<close>

definition insert_sorted :: "dirent \<Rightarrow> dirent list \<Rightarrow> dirent list" where
  "insert_sorted e es = takeWhile (\<lambda>x. de_name x < de_name e) es @ [e] @ dropWhile (\<lambda>x. de_name x < de_name e) es"

definition empty_dir :: dir_data where
  "empty_dir = \<lparr>dir_blocks = [], dir_inline = [], dir_size = 0, dir_links = 0\<rparr>"

definition set_content :: "nat \<Rightarrow> inode_content \<Rightarrow> inode_collector \<Rightarrow> inode_collector" where
  "set_content i c col = col\<lparr>inodes := (inodes col)[i := (inodes col ! i)\<lparr>i_content := c\<rparr>]\<rparr>"

definition child_entry :: "bytes \<Rightarrow> nat \<Rightarrow> inode_collector \<Rightarrow> dirent" where
  "child_entry n i col = \<lparr>de_name = n, de_inode = i, de_type = file_type (i_content (inodes col ! i))\<rparr>"

definition close_dir :: "nat \<Rightarrow> nat \<Rightarrow> dirent list \<Rightarrow> inode_collector \<Rightarrow> inode_collector option" where
  "close_dir me par es col = do {
     d \<leftarrow> from_entries
       (insert_sorted \<lparr>de_name = ''..'', de_inode = par, de_type = FDirectory\<rparr>
         (insert_sorted \<lparr>de_name = ''.'', de_inode = me, de_type = FDirectory\<rparr> es));
     Some (set_content me (DirContent d) col)
   }"

function collect_dir :: "hex_crate \<Rightarrow> hash_alg \<Rightarrow> (bytes \<Rightarrow> u32 \<Rightarrow> u32) \<Rightarrow> regular_file leaf list \<Rightarrow> (rc \<Rightarrow> nat) \<Rightarrow>
    directory \<Rightarrow> nat \<Rightarrow> inode_collector \<Rightarrow> (nat \<times> inode_collector) option"
  and collect_entries :: "hex_crate \<Rightarrow> hash_alg \<Rightarrow> (bytes \<Rightarrow> u32 \<Rightarrow> u32) \<Rightarrow> regular_file leaf list \<Rightarrow> (rc \<Rightarrow> nat) \<Rightarrow>
    nat \<Rightarrow> (bytes \<times> inode) list \<Rightarrow> inode_collector \<Rightarrow> (dirent list \<times> inode_collector) option" where
  "collect_dir hx H xxh32 h count (Directory st es) par col =
     (case push_inode hx H xxh32 st (DirContent empty_dir) col of
        None \<Rightarrow> None
      | Some (me, col1) \<Rightarrow>
          (case collect_entries hx H xxh32 h count me es col1 of
             None \<Rightarrow> None
           | Some (ds, col2) \<Rightarrow> map_option (\<lambda>col3. (me, col3)) (close_dir me par ds col2)))"
| "collect_entries hx H xxh32 h count me [] col = Some ([], col)"
| "collect_entries hx H xxh32 h count me ((n, IDirectory d) # es) col =
     (case collect_dir hx H xxh32 h count d me col of
        None \<Rightarrow> None
      | Some (i, col1) \<Rightarrow> map_option (\<lambda>(ds, col2). (child_entry n i col1 # ds, col2))
          (collect_entries hx H xxh32 h count me es col1))"
| "collect_entries hx H xxh32 h count me ((n, ILeaf r) # es) col =
     (case collect_leaf hx H xxh32 h count r col of
        None \<Rightarrow> None
      | Some (i, col1) \<Rightarrow> map_option (\<lambda>(ds, col2). (child_entry n i col1 # ds, col2))
          (collect_entries hx H xxh32 h count me es col1))"
  by pat_completeness auto
termination
  by (relation "measure (case_sum (\<lambda>(hx, H, x, h, c, d, p, col). size d)
    (\<lambda>(hx, H, x, h, c, me, es, col). size_list (size_prod (\<lambda>_. 0) (size_inode_of size)) es))") auto

definition collect :: "hex_crate \<Rightarrow> hash_alg \<Rightarrow> (bytes \<Rightarrow> u32 \<Rightarrow> u32) \<Rightarrow> regular_file filesystem \<Rightarrow> inode_rec list option" where
  "collect hx H xxh32 fs = do {
     (root_inode, col) \<leftarrow> collect_dir hx H xxh32 (heap fs) (strong_count (root fs)) (root fs) 0
       \<lparr>inodes = [], hardlinks = (\<lambda>_. None)\<rparr>;
     assert_p (root_inode = 0);
     Some (inodes col)
   }"

section \<open>Sharing attributes\<close>

definition count_attr :: "xattr \<Rightarrow> (xattr \<times> nat) list \<Rightarrow> (xattr \<times> nat) list" where
  "count_attr a m = (case bt_get m a of Some k \<Rightarrow> bt_insert a (k + 1) m | None \<Rightarrow> bt_insert a 1 m)"

definition share_inode :: "(xattr \<times> nat) list \<Rightarrow> inode_rec \<Rightarrow> inode_rec" where
  "share_inode m i = (let a = i_xattrs i in
     i\<lparr>i_xattrs := a\<lparr>shared_ids := shared_ids a @ List.map_filter (bt_get m) (local_attrs a),
       local_attrs := filter (\<lambda>x. bt_get m x = None) (local_attrs a)\<rparr>\<rparr>)"

definition share_xattrs :: "inode_rec list \<Rightarrow> inode_rec list \<times> xattr list" where
  "share_xattrs ns =
     (let counts = fold (\<lambda>i m. fold count_attr (local_attrs (i_xattrs i)) m) ns [];
          kept = bt_retain (\<lambda>k v. 1 < v) counts;
          table = map (\<lambda>(idx, k, v). (k, idx)) (List.enumerate 0 kept)
      in (map (share_inode table) ns, map fst table))"

section \<open>The image\<close>

definition write_erofs :: "'s Output \<Rightarrow> inode_rec list \<Rightarrow> xattr list \<Rightarrow> 's \<Rightarrow> 's option" where
  "write_erofs W ns xs s = do {
     s \<leftarrow> note_offset W OHeader s;
     s \<leftarrow> Some (out_write W (composefs_header_bytes \<lparr>ch_magic = COMPOSEFS_MAGIC, ch_version = VERSION,
       ch_flags = 0, ch_composefs_version = COMPOSEFS_VERSION\<rparr>) s);
     s \<leftarrow> Some (out_pad W 1024 s);
     s \<leftarrow> note_offset W OSuperblock s;
     root \<leftarrow> get_nid (get_offset W s) 0;
     e \<leftarrow> get_offset W s OEnd 0;
     s \<leftarrow> Some (out_write W (superblock_bytes \<lparr>sb_magic = MAGIC_V1, sb_checksum = 0,
       feature_compat = FEATURE_COMPAT_MTIME OR FEATURE_COMPAT_XATTR_FILTER, blkszbits = of_nat BLOCK_BITS,
       extslots = 0, root_nid = ucast root, inos = of_nat (length ns), build_time = 0, build_time_nsec = 0,
       sb_blocks = of_nat (e div BLOCK_SIZE), meta_blkaddr = 0, xattr_blkaddr = 0, uuid_to_end = zeros 80\<rparr>) s);
     s \<leftarrow> fold_opt (\<lambda>(idx, i). write_inode W i idx) (List.enumerate 0 ns) s;
     s \<leftarrow> fold_opt (\<lambda>x s. do { s1 \<leftarrow> note_offset W OXAttr s; Some (xattr_write W x s1) }) xs s;
     s \<leftarrow> Some (out_pad W 4096 s);
     s \<leftarrow> fold_opt (\<lambda>i s. do { s1 \<leftarrow> note_offset W OBlock s; write_blocks W i s1 }) ns s;
     note_offset W OEnd s
   }"

definition mkfs_erofs :: "hex_crate \<Rightarrow> hash_alg \<Rightarrow> (bytes \<Rightarrow> u32 \<Rightarrow> u32) \<Rightarrow> regular_file filesystem \<Rightarrow> bytes option" where
  "mkfs_erofs hx H xxh32 fs = do {
     ns \<leftarrow> collect hx H xxh32 fs;
     (ns, xs) \<leftarrow> Some (share_xattrs ns);
     first \<leftarrow> write_erofs FirstPass ns xs \<lparr>fp_offset = 0, fp_layout = empty_layout\<rparr>;
     second \<leftarrow> write_erofs SecondPass ns xs \<lparr>sp_output = [], sp_layout = fp_layout first\<rparr>;
     Some (sp_output second)
   }"

end
