(* ===== verification/Oci_Config.thy ===== *)
theory Oci_Config
  imports Oci_Image Repo_Keep Erofs_Writer
begin

text \<open>
  Models \<open>crates/composefs-oci/src/lib.rs\<close>, \<open>create_filesystem\<close> of \<open>image.rs\<close> and the image digest of
  \<open>crates/composefs/src/filesystem_ops.rs\<close>: importing and listing layers, writing and opening image
  configurations, building the filesystem of an image, and sealing it.

  The type of configurations and its JSON form belong to the oci-spec crate: they are the parameter
  \<open>oci_spec\<close>. SHA-256 and xxHash are parameters too.
\<close>

section \<open>Parameters and errors\<close>

record 'c oci_spec =
  from_reader :: "bytes \<Rightarrow> 'c option"
  to_json :: "'c \<Rightarrow> bytes option"
  diff_ids :: "'c \<Rightarrow> bytes list"
  config_labels :: "'c \<Rightarrow> (bytes \<times> bytes) list option option"
  set_labels :: "(bytes \<times> bytes) list \<Rightarrow> 'c \<Rightarrow> 'c"

text \<open>A configuration that was written to JSON reads back.\<close>

definition spec_laws :: "'c oci_spec \<Rightarrow> bool" where
  "spec_laws S \<longleftrightarrow> (\<forall>c j. to_json S c = Some j \<longrightarrow> from_reader S j = Some c)"

record oci_env =
  env_zstd :: zstd
  env_hex :: hex_crate
  env_kernel :: kernel
  env_alg :: hash_alg
  env_tar :: tar_crate
  sha256 :: "bytes \<Rightarrow> bytes"
  xxh32 :: "bytes \<Rightarrow> u32 \<Rightarrow> u32"

datatype oci_error =
    Repository op_error
  | Tar tar_error
  | Layer layer_error
  | Transform image_error
  | BadConfig
  | DataIntegrity
  | MissingLayerRef bytes
  | LayerChecksum
  | NoConfig
  | ImagePanic

definition TAR_LAYER_CONTENT_TYPE :: u64 where "TAR_LAYER_CONTENT_TYPE = get64 ''ocilayer''"
definition OCI_CONFIG_CONTENT_TYPE :: u64 where "OCI_CONFIG_CONTENT_TYPE = get64 ''ociconfg''"

definition layer_identifier :: "bytes \<Rightarrow> bytes" where
  "layer_identifier diff_id = ''oci-layer-'' @ diff_id"

definition config_identifier :: "bytes \<Rightarrow> bytes" where
  "config_identifier config = ''oci-config-'' @ config"

definition hash :: "oci_env \<Rightarrow> bytes \<Rightarrow> bytes" where
  "hash E blob = ''sha256:'' @ hex_encode (env_hex E) (sha256 E blob)"

section \<open>Layers\<close>

abbreviation env_ensure :: "oci_env \<Rightarrow> bytes \<Rightarrow> (repo_error, 'z repo_scheme, bytes) io" where
  "env_ensure E \<equiv> ensure_object (env_hex E) (env_kernel E) (env_alg E)"

abbreviation env_open :: "oci_env \<Rightarrow> bytes \<Rightarrow> bytes option \<Rightarrow> u64 option \<Rightarrow> (op_error, 'z link_repo_scheme, reader) io" where
  "env_open E \<equiv> open_stream (env_zstd E) (env_hex E) (env_kernel E) (env_alg E)"

definition import_layer :: "oci_env \<Rightarrow> bytes \<Rightarrow> bytes option \<Rightarrow> bytes \<Rightarrow> (op_error, 'z link_repo_scheme, bytes) io" where
  "import_layer E diff_id name tar_stream =
     ensure_stream (env_zstd E) (env_hex E) (env_kernel E) (env_alg E) (layer_identifier diff_id) TAR_LAYER_CONTENT_TYPE
       (\<lambda>writer. io_err (\<lambda>_. CallbackFailed) (tar_split (env_tar E) (env_ensure E) tar_stream writer)) name"

text \<open>The lines that \<open>ls_layer\<close> prints when it does not fail.\<close>

definition ls_layer :: "oci_env \<Rightarrow> bytes \<Rightarrow> (oci_error, 'z link_repo_scheme, bytes list) io" where
  "ls_layer E diff_id =
     io_bind (io_err Repository (env_open E (layer_identifier diff_id) None (Some TAR_LAYER_CONTENT_TYPE))) (\<lambda>split_stream.
       io_lift (map_err Tar (rbind (layer_entries (env_tar E) split_stream) (\<lambda>es.
         Inr (map (show_tar_entry (env_hex E)) es)))))"

section \<open>Configurations\<close>

text \<open>\<open>read_to_end\<close> of the standard library on a stream; the size of its buffer does not matter.\<close>

lemma reader_read_decreases:
  assumes "reader_read r n = Inr (b, r')" "b \<noteq> []"
  shows "length (fst (decoder r')) < length (fst (decoder r))"
proof -
  obtain c r1 where c: "ensure_chunk r True False 1 = Inr (c, r1)" using assms(1)
    by (cases "ensure_chunk r True False 1") (auto simp: reader_read_def)
  show ?thesis
  proof (cases c)
    case CInline
    let ?n = "min n (inline_bytes r1)"
    have "rbind (dec_read_exact (decoder r1) ?n) (\<lambda>(b, dec).
        Inr (b, r1\<lparr>decoder := dec, inline_bytes := inline_bytes r1 - ?n\<rparr>)) = Inr (b, r')"
      using assms(1) by (simp only: reader_read_def c rbind_Inr CInline Let_def split_conv chunk_type.case)
    then obtain dec where d: "dec_read_exact (decoder r1) ?n = Inr (b, dec)"
      "r' = r1\<lparr>decoder := dec, inline_bytes := inline_bytes r1 - ?n\<rparr>"
      unfolding rbind_eq_Inr_iff by (elim exE conjE) (simp split: prod.splits)
    have "?n \<noteq> 0" using d(1) assms(2) by (cases "decoder r1"; cases "?n = 0") (simp_all add: dec_read_exact_def del: min_less_iff_conj)
    then have "length (fst dec) < length (fst (decoder r1))" using dec_read_exact_decreases [OF d(1)] by linarith
    then show ?thesis using ensure_chunk_decreases(1) [OF c] d(2) by simp
  qed (use assms c in \<open>auto simp: reader_read_def\<close>)
qed

function read_to_end :: "reader \<Rightarrow> bytes \<Rightarrow> stream_error + (bytes \<times> reader)" where
  "read_to_end r blob = (case reader_read r 8192 of
       Inl e \<Rightarrow> Inl e
     | Inr (b, r') \<Rightarrow> if b = [] then Inr (blob, r') else read_to_end r' (blob @ b))"
  by pat_completeness auto
termination
  by (relation "measure (\<lambda>(r, blob). length (fst (decoder r)))") (auto dest: reader_read_decreases)

declare read_to_end.simps [simp del]

definition into_named_refs :: "reader \<Rightarrow> (bytes \<times> bytes) list" where
  "into_named_refs r = r_named_refs r"

definition open_config :: "'c oci_spec \<Rightarrow> oci_env \<Rightarrow> bytes \<Rightarrow> bytes option \<Rightarrow>
    (oci_error, 'z link_repo_scheme, 'c \<times> (bytes \<times> bytes) list) io" where
  "open_config S E config_digest verity =
     io_bind (io_err Repository (env_open E (config_identifier config_digest) verity (Some OCI_CONFIG_CONTENT_TYPE))) (\<lambda>stream.
       io_lift (rbind (map_err (\<lambda>e. Repository (Stream e)) (read_to_end stream [])) (\<lambda>(blob, stream').
         rbind (ensure_r (verity \<noteq> None \<or> config_digest = hash E blob) DataIntegrity) (\<lambda>_.
         rbind (ok_or (from_reader S blob) BadConfig) (\<lambda>config.
           Inr (config, into_named_refs stream'))))))"

text \<open>The map of references is given as the list of its entries, in the order in which the map is walked.\<close>

definition write_config :: "'c oci_spec \<Rightarrow> oci_env \<Rightarrow> 'c \<Rightarrow> (bytes \<times> bytes) list \<Rightarrow>
    (oci_error, 'z link_repo_scheme, bytes \<times> bytes) io" where
  "write_config S E config named =
     io_bind (io_lift (ok_or (to_json S config) BadConfig)) (\<lambda>json.
       let config_digest = hash E json;
           stream = fold (\<lambda>(name, value). add_named_stream_ref name value) named (create_stream OCI_CONFIG_CONTENT_TYPE) in
       io_bind (io_err Repository (write_stream (env_zstd E) (env_hex E) (env_kernel E) (env_alg E)
           (write_inline json stream) (config_identifier config_digest) None)) (\<lambda>oid.
         io_return (config_digest, oid)))"

section \<open>The filesystem of an image\<close>

function unpack_layer :: "tar_crate \<Rightarrow> reader \<Rightarrow> regular_file filesystem \<Rightarrow> oci_error + regular_file filesystem" where
  "unpack_layer T layer_stream filesystem = (case get_entry T layer_stream of
       Inl e \<Rightarrow> Inl (Tar e)
     | Inr (None, _) \<Rightarrow> Inr filesystem
     | Inr (Some entry, r') \<Rightarrow> (case process_entry filesystem entry of
           Inl e \<Rightarrow> Inl (Layer e)
         | Inr fs' \<Rightarrow> unpack_layer T r' fs'))"
  by pat_completeness auto
termination
  by (relation "measure (\<lambda>(T, r, fs). length (fst (decoder r)))") (auto dest: get_entry_decreases)

declare unpack_layer.simps [simp del]

text \<open>Without a trusted digest of the configuration, the contents of a layer are hashed first.\<close>

definition check_layer :: "oci_env \<Rightarrow> bytes \<Rightarrow> bytes \<Rightarrow> (oci_error, 'z link_repo_scheme, unit) io" where
  "check_layer E diff_id layer_verity =
     io_bind (io_err Repository (env_open E '''' (Some layer_verity) (Some TAR_LAYER_CONTENT_TYPE))) (\<lambda>stream.
     io_bind (io_err (\<lambda>e. Repository (Stream e)) (cat (env_hex E) (env_kernel E) (env_alg E) stream)) (\<lambda>blob.
       io_lift (ensure_r (hash E blob = diff_id) LayerChecksum)))"

fun unpack_layers :: "oci_env \<Rightarrow> bool \<Rightarrow> (bytes \<times> bytes) list \<Rightarrow> bytes list \<Rightarrow> regular_file filesystem \<Rightarrow>
    (oci_error, 'z link_repo_scheme, regular_file filesystem) io" where
  "unpack_layers E trusted named [] fs = io_return fs"
| "unpack_layers E trusted named (diff_id # ds) fs =
     io_bind (io_lift (ok_or (bt_get named diff_id) (MissingLayerRef diff_id))) (\<lambda>layer_verity.
     io_bind (if trusted then io_return () else check_layer E diff_id layer_verity) (\<lambda>_.
     io_bind (io_err Repository (env_open E '''' (Some layer_verity) (Some TAR_LAYER_CONTENT_TYPE))) (\<lambda>stream.
     io_bind (io_lift (unpack_layer (env_tar E) stream fs)) (unpack_layers E trusted named ds))))"

definition create_filesystem :: "'c oci_spec \<Rightarrow> oci_env \<Rightarrow> bytes \<Rightarrow> bytes option \<Rightarrow>
    (oci_error, 'z link_repo_scheme, regular_file filesystem) io" where
  "create_filesystem S E config_name config_verity =
     io_bind (open_config S E config_name config_verity) (\<lambda>(config, named).
     io_bind (unpack_layers E (config_verity \<noteq> None) named (diff_ids S config) (filesystem_new stat_uninitialized)) (\<lambda>fs.
       io_lift (map_err Transform (transform_for_oci fs))))"

section \<open>Sealing\<close>

definition compute_image_id :: "oci_env \<Rightarrow> regular_file filesystem \<Rightarrow> bytes option" where
  "compute_image_id E fs = Option.bind (mkfs_erofs (env_hex E) (env_alg E) (xxh32 E) fs) (compute_verity (env_alg E))"

definition commit_image :: "oci_env \<Rightarrow> regular_file filesystem \<Rightarrow> bytes option \<Rightarrow> (oci_error, 'z link_repo_scheme, bytes) io" where
  "commit_image E fs image_name =
     io_bind (io_lift (ok_or (mkfs_erofs (env_hex E) (env_alg E) (xxh32 E) fs) ImagePanic)) (\<lambda>image.
       io_err Repository (write_image (env_hex E) (env_kernel E) (env_alg E) image_name image))"

definition seal :: "'c oci_spec \<Rightarrow> oci_env \<Rightarrow> bytes \<Rightarrow> bytes option \<Rightarrow> (oci_error, 'z link_repo_scheme, bytes \<times> bytes) io" where
  "seal S E config_name config_verity =
     io_bind (open_config S E config_name config_verity) (\<lambda>(config, named).
     io_bind (io_lift (ok_or (config_labels S config) NoConfig)) (\<lambda>myconfig.
     io_bind (create_filesystem S E config_name config_verity) (\<lambda>fs.
     io_bind (io_lift (ok_or (compute_image_id E fs) ImagePanic)) (\<lambda>oid.
     let labels = bt_insert ''containers.composefs.fsverity'' (to_hex (env_hex E) oid) (case myconfig of None \<Rightarrow> [] | Some l \<Rightarrow> l) in
       write_config S E (set_labels S labels config) named))))"

section \<open>Reading a configuration stream\<close>

lemma read_to_end_inline:
  "decoder r = (rest, True) \<Longrightarrow> inline_bytes r = length rest \<Longrightarrow>
    \<exists>r'. read_to_end r acc = Inr (acc @ rest, r') \<and> r_named_refs r' = r_named_refs r"
proof (induction "length rest" arbitrary: r rest acc rule: less_induct)
  case less
  show ?case
  proof (cases rest)
    case Nil
    then have "reader_read r 8192 = Inr ([], r)" using less.prems
      by (simp add: reader_read_def ensure_chunk_def read_exactish_def)
    then show ?thesis using Nil by (subst read_to_end.simps) simp
  next
    case (Cons x xs)
    define k where "k = min 8192 (length rest)"
    let ?n = k
    let ?r1 = "r\<lparr>decoder := (drop ?n rest, True), inline_bytes := length rest - ?n\<rparr>"
    have n: "k \<noteq> 0" "k \<le> length rest" "take ?n rest \<noteq> []" "length (drop ?n rest) < length rest" using Cons by (auto simp: k_def)
    have "reader_read r 8192 = Inr (take ?n rest, ?r1)" using less.prems n(1,2) k_def
      by (simp add: reader_read_def ensure_chunk_def dec_read_exact_def Let_def)
    then have s: "read_to_end r acc = read_to_end ?r1 (acc @ take ?n rest)" using n(3) by (subst read_to_end.simps) simp
    have "inline_bytes ?r1 = length (drop ?n rest)" by simp
    from less.hyps [OF n(4) _ this, of "acc @ take ?n rest"]
    obtain r' where r': "read_to_end ?r1 (acc @ take ?n rest) = Inr ((acc @ take ?n rest) @ drop ?n rest, r')"
      "r_named_refs r' = r_named_refs r" by auto
    have "(acc @ take ?n rest) @ drop ?n rest = acc @ rest" by (simp only: append_assoc append_take_drop_id)
    then show ?thesis using r' unfolding s by (metis (lifting))
  qed
qed

lemma read_to_end_opened:
  assumes "flush_inline w = Some w1" "encoder w = []" "inline_buffer w = j"
  shows "\<exists>r'. read_to_end (opened w1) [] = Inr (j, r') \<and> r_named_refs r' = r_named_refs (opened w1)"
proof (cases "j = []")
  case True
  then have "w1 = w" using assms by (simp add: flush_inline_def)
  then show ?thesis using read_to_end_inline [of "opened w1" "[]" "[]"] assms True by (simp add: opened_def)
next
  case False
  then have w1: "w1 = w\<lparr>encoder := le64 (- of_nat (length j)) @ j, inline_buffer := []\<rparr>" and len: "length j \<le> I64_MAX"
    using assms by (simp_all add: flush_inline_def Let_def split: if_splits)
  let ?r = "(opened w1)\<lparr>decoder := (j, True), inline_bytes := length j\<rparr>"
  have v: "nat (- sint (- of_nat (length j) :: u64)) = length j" "sint (- of_nat (length j) :: u64) < 0"
    using len False by (simp_all add: sint_neg_small)
  have "ensure_chunk (opened w1) True False 1 = ensure_chunk ?r True False 1"
    using v False by (simp add: ensure_chunk_def opened_def w1 read_exactish_def Let_def)
  then have "read_to_end (opened w1) [] = read_to_end ?r []"
    by (subst (1 2) read_to_end.simps) (simp add: reader_read_def)
  then show ?thesis using read_to_end_inline [of ?r j "[]"] by simp
qed

section \<open>A stream that was written opens\<close>

lemma symlink_keeps:
  assumes "symlink n t s = Some (r, s')"
  shows "repo.objects s' = repo.objects s" "insecure s' = insecure s"
proof -
  let ?P = "\<lambda>s s' :: 'a link_repo_scheme. repo.objects s' = repo.objects s \<and> insecure s' = insecure s"
  have e: "?P s s'" if "ensure_dir s d = Inr s'" for s s' :: "'a link_repo_scheme" and d
    using that by (auto simp: ensure_dir_def mkdirat_def rbind_def split: sum.splits path_error.splits errno.splits if_splits prod.splits)
  have m: "?P s s'" if "replace_symlinkat s t d = Inr s'" for s s' :: "'a link_repo_scheme" and t d
    using that by (auto simp: replace_symlinkat_def rbind_def split: sum.splits if_splits prod.splits option.splits entry_kind.splits)
  have p: "?P s s'" if "io_path f s = Some (r, s')" "\<And>t. f s = Inr t \<Longrightarrow> ?P s t" for s s' :: "'a link_repo_scheme" and f r
    using that by (auto simp: io_path_def split: sum.splits)
  have a: "?P s s'" if "ensure_ancestors anc as s = Some (r, s')" for anc as r and s s' :: "'a link_repo_scheme"
    using that
  proof (induction as arbitrary: anc s)
    case (Cons c as)
    obtain q s1 where q: "io_path (\<lambda>s. ensure_dir s (push anc (component_bytes c))) s = Some (q, s1)"
      and r: "(\<exists>e. q = Inl e \<and> s' = s1) \<or> ensure_ancestors (push anc (component_bytes c)) as s1 = Some (r, s')"
      using Cons.prems by (auto simp: io_bind_def Let_def split: option.splits prod.splits sum.splits)
    have "?P s s1" by (rule p [OF q]) (rule e)
    then show ?case using r Cons.IH by auto
  qed (simp add: io_return_def)
  have "?P s s'" using assms unfolding symlink_def
    by (auto simp: io_bind_def io_lift_def ok_or_def split: option.splits prod.splits sum.splits dest!: a p [OF _ m])
  then show "repo.objects s' = repo.objects s" "insecure s' = insecure s" by auto
qed

lemma holds_object_cong:
  "repo.objects s' = repo.objects s \<Longrightarrow> insecure s' = insecure s \<Longrightarrow> holds_object hx K H s' oid d \<longleftrightarrow> holds_object hx K H s oid d"
  by (simp add: holds_object_def)

lemma write_stream_opens:
  assumes env: "env_ok hx K H" "store_inv hx H s" "1 < size_of H"
    and run: "write_stream Z hx K H w cid None s = Some (Inr oid, s')"
    and f: "file_of Z H w = Some blob" "no_collision H blob s"
    and cid: "valid_name cid" "entry_kind s' [''streams''] = Some KDir"
  shows "open_stream Z hx K H cid (Some oid) ct s' = Some (map_err Stream (reader_new Z H blob ct), s')"
    "open_stream Z hx K H cid None ct s' = Some (map_err Stream (reader_new Z H blob ct), s')"
proof -
  let ?link = "symlink (format_stream_path cid) (format_object_path hx oid)"
  obtain s1 where e: "ensure_object hx K H blob s = Some (Inr oid, s1)" and l: "?link s1 = Some (Inr (), s')"
    using run unfolding write_stream_def io_bind_Inr_iff
    by (auto simp: name_reference_def io_err_def writer_done_def f(1) repo_step_def io_return_def io_bind_def)
  note res = ensure_object_result [OF env(1,2) e]
  have hx: "hex_laws hx" using env(1) by (simp add: env_ok_def)
  have oid: "1 < length oid" using res(3) [of oid] env(3) length_fsverity_digest env_ok_simps(3) [OF env(1)] by fastforce
  have h: "holds_object hx K H s' oid blob" using res(4) [of oid] f(2) holds_object_cong [OF symlink_keeps [OF l]] by simp
  then obtain vf where vf: "bt_get (repo.objects s') (to_object_pathname hx oid) = Some vf" "file_data vf = blob"
    "verify_open hx K H vf oid (insecure s') = Inr ()" by (auto simp: holds_object_def)
  then show "open_stream Z hx K H cid (Some oid) ct s' = Some (map_err Stream (reader_new Z H blob ct), s')"
    by (simp add: open_stream_def open_object_def io_bind_def io_err_def io_lift_def Let_def)
  let ?ts = "[OBJECTS, hex2 (hd oid), hex_encode hx (tl oid)]"
  note n = object_names [OF hx oid]
  have names: "plain_names [''streams'']" by (simp add: plain_names_def valid_name_def)
  have fp: "format_stream_path cid = path_of ([''streams''] @ [cid])" by (simp add: format_stream_path_def)
  note l' = l [unfolded fp n(2)]
  obtain k where k: "MAXSYMLINKS = Suc k" by (simp add: MAXSYMLINKS_def)
  have "components (path_of ([''streams''] @ [cid])) = map Normal ([''streams''] @ [cid])"
    using names cid(1) by (intro components_path_of) (simp add: plain_names_def)
  then have "lookup_path s' (format_stream_path cid) = resolve k s' [] (map Normal ?ts @ [])"
    using symlink_resolve(1) [OF names cid(1) n(1) l' cid(2), of k "[]"] by (simp add: lookup_path_def fp k)
  also have "\<dots> = Inr ?ts"
    using objects_kinds [of s' "hex2 (hd oid)" "hex_encode hx (tl oid)"] vf(1) by (simp add: to_object_pathname_def)
  finally have "open_file s' (format_stream_path cid) = Inr vf"
    using vf(1) by (simp add: open_file_def to_object_pathname_def)
  then show "open_stream Z hx K H cid None ct s' = Some (map_err Stream (reader_new Z H blob ct), s')"
    using vf(2) by (simp add: open_stream_def io_bind_def io_lift_def)
qed

section \<open>Configurations read back\<close>

definition config_writer :: "bytes \<Rightarrow> (bytes \<times> bytes) list \<Rightarrow> writer" where
  "config_writer json named = write_inline json (named_writer OCI_CONFIG_CONTENT_TYPE named)"

lemma write_config_writer: "write_inline json (fold (\<lambda>(name, value). add_named_stream_ref name value) named
    (create_stream OCI_CONFIG_CONTENT_TYPE)) = config_writer json named"
  by (simp add: config_writer_def named_writer_def create_stream_def)

lemma config_writer_fields:
  "w_content_type (config_writer json named) = OCI_CONFIG_CONTENT_TYPE" "encoder (config_writer json named) = []"
  "inline_buffer (config_writer json named) = json"
  "w_stream_refs (config_writer json named) = w_stream_refs (named_writer OCI_CONFIG_CONTENT_TYPE named)"
  "w_named_refs (config_writer json named) = w_named_refs (named_writer OCI_CONFIG_CONTENT_TYPE named)"
  "w_object_refs (config_writer json named) = uv_new"
  using named_writer_invariant [of OCI_CONFIG_CONTENT_TYPE named] by (simp_all add: config_writer_def write_inline_def)

lemma config_reader:
  assumes Z: "zstd_laws Z" and H: "stream_alg H" and named: "refs_ok H named"
    and f: "file_of Z H (config_writer json named) = Some blob" "length blob < 2 ^ 64"
  shows "\<exists>r r'. reader_new Z H blob (Some OCI_CONFIG_CONTENT_TYPE) = Inr r \<and> read_to_end r [] = Inr (json, r') \<and>
    into_named_refs r' = named_table named"
proof -
  let ?w = "config_writer json named"
  note c = config_writer_fields [of json named]
  have "writer_wf H ?w" using c by (intro named_writer_wf [OF named]) (simp_all add: uv_new_def)
  then obtain w1 where w1: "flush_inline ?w = Some w1" and r: "reader_new Z H blob (Some OCI_CONFIG_CONTENT_TYPE) = Inr (opened w1)"
    using file_of_opens [OF Z H _ f] c(1) by metis
  obtain r' where "read_to_end (opened w1) [] = Inr (json, r')" "r_named_refs r' = r_named_refs (opened w1)"
    using read_to_end_opened [OF w1 c(2,3)] by blast
  moreover have "r_named_refs (opened w1) = named_table named"
  proof -
    have "w_stream_refs w1 = w_stream_refs ?w" "w_named_refs w1 = w_named_refs ?w"
      using w1 by (auto simp: flush_inline_def Let_def split: if_splits)
    then show ?thesis using named_writer_invariant [of OCI_CONFIG_CONTENT_TYPE named] by (simp add: opened_def c)
  qed
  ultimately show ?thesis using r by (auto simp: into_named_refs_def)
qed

lemma config_identifier_valid:
  assumes "hex_laws (env_hex E)"
  shows "valid_name (config_identifier (hash E json))"
  using hex_encode_no_slash [OF assms] by (simp add: valid_name_def config_identifier_def hash_def)

text \<open>
  C11: A configuration that was written reads back with the references of its layers, whether it is opened by
  the verity digest or by its name and the hash of its contents. The stream must not be larger than a \<open>u64\<close>
  can count, and \<open>streams\<close> must be a directory.
\<close>

theorem config_roundtrip:
  assumes env: "env_ok (env_hex E) (env_kernel E) (env_alg E)" "store_inv (env_hex E) (env_alg E) s" "1 < size_of (env_alg E)"
    and laws: "zstd_laws (env_zstd E)" "stream_alg (env_alg E)" "spec_laws S" and named: "refs_ok (env_alg E) named"
    and json: "to_json S config = Some json"
    and blob: "file_of (env_zstd E) (env_alg E) (config_writer json named) = Some blob" "length blob < 2 ^ 64"
      "no_collision (env_alg E) blob s"
    and run: "write_config S E config named s = Some (Inr (config_digest, oid), s')"
    and dir: "entry_kind s' [''streams''] = Some KDir"
  shows "open_config S E config_digest (Some oid) s' = Some (Inr (config, named_table named), s') \<and>
    open_config S E config_digest None s' = Some (Inr (config, named_table named), s')"
proof -
  have d: "config_digest = hash E json" and w: "write_stream (env_zstd E) (env_hex E) (env_kernel E) (env_alg E)
      (config_writer json named) (config_identifier config_digest) None s = Some (Inr oid, s')"
    using run unfolding write_config_def json Let_def
    by (auto simp: write_config_writer ok_or_def io_bind_Inr_iff io_err_def io_return_def)
  have hx: "hex_laws (env_hex E)" using env(1) by (simp add: env_ok_def)
  note o = write_stream_opens [OF env w blob(1,3) _ dir, of "Some OCI_CONFIG_CONTENT_TYPE"]
  obtain r r' where r: "reader_new (env_zstd E) (env_alg E) blob (Some OCI_CONFIG_CONTENT_TYPE) = Inr r"
    "read_to_end r [] = Inr (json, r')" "into_named_refs r' = named_table named"
    using config_reader [OF laws(1,2) named blob(1,2)] by blast
  have "from_reader S json = Some config" using laws(3) json by (simp add: spec_laws_def)
  then show ?thesis using o config_identifier_valid [OF hx] r d
    by (simp add: open_config_def io_bind_def io_err_def io_lift_def ensure_r_def ok_or_def)
qed

section \<open>An example\<close>

lemma ensure_object_links:
  assumes "ensure_object hx K H d (s :: 'z link_repo_scheme) = Some (r, s')"
  shows "links s' = links s"
proof -
  have m: "repo.more s' = repo.more s"
    using assms by (auto simp: ensure_object_def io_bind_def io_lift_def io_return_def ok_or_def store_object_with_id_def
        store_existing_def store_new_def link_object_def Let_def
        split: option.splits sum.splits prod.splits if_splits enabled.splits)
  then show ?thesis by (cases s; cases s') simp
qed

lemma symlink_flat:
  assumes c: "valid_name c" "c \<noteq> OBJECTS" "valid_name n" "plain_names ts" "ts \<noteq> []" "hd ts \<noteq> c"
    and k: "entry_kind s [c] = Some KDir" "entry_kind s [c, n] = None"
  shows "symlink (path_of [c, n]) (path_of ts) s =
    Some (Inr (), set_links (put_node (links s) [c] n (NLink (relative_target [Normal c] (map Normal ts)))) s)"
proof -
  define p where "p = path_of [c, n]"
  have names: "plain_names [c]" "plain_names [c, n]" using c by (simp_all add: plain_names_def)
  obtain par where par: "Rust_Path.parent p = Some par" "components par = [Normal c]"
    using parent_path_of [OF names(1) c(3)] by (auto simp: p_def)
  have strip: "strip_common [] [Normal c] (map Normal ts) = Some ([], [Normal c], map Normal ts)"
    using c(5,6) by (cases ts) auto
  have cc: "components c = [Normal c]" using components_path_of [OF names(1)] by simp
  have push: "push [] c = c" using c(1) by (cases c) (auto simp: push_def valid_name_def has_root_def)
  have root: "entry_kind s [] = Some KDir" by (simp add: entry_kind_def node_kind_def)
  have dir: "ensure_dir s c = Inr s" using k(1) by (simp add: ensure_dir_def mkdirat_def lookup_name_def cc root)
  have name: "lookup_name s p = Inr ([c], n)"
    using components_path_of [OF names(2)] k(1) by (simp add: lookup_name_def p_def)
  have "ensure_ancestors [] [Normal c] s = Some (Inr (), s)"
    by (simp add: component_bytes_def push dir io_path_def io_bind_def io_return_def)
  moreover have "replace_symlinkat s t p = Inr (set_links (put_node (links s) [c] n (NLink t)) s)" for t
    using c(2) k(2) by (simp add: replace_symlinkat_def name del: put_node.simps)
  ultimately have "symlink p (path_of ts) s =
      Some (Inr (), set_links (put_node (links s) [c] n (NLink (relative_target [Normal c] (map Normal ts)))) s)"
    unfolding symlink_def by (simp add: par strip components_path_of [OF c(4)] ok_or_def io_bind_def io_path_def io_lift_def
        del: put_node.simps)
  then show ?thesis unfolding p_def .
qed

definition plain_spec :: "bytes oci_spec" where
  "plain_spec = \<lparr>from_reader = Some, to_json = Some, diff_ids = (\<lambda>c. [c]), config_labels = (\<lambda>_. None), set_labels = (\<lambda>_ c. c)\<rparr>"

definition toy_oci :: oci_env where
  "toy_oci = \<lparr>env_zstd = plain_zstd, env_hex = hex_codec, env_kernel = toy_K, env_alg = toy_H, env_tar = toy_tar,
     sha256 = (\<lambda>b. [char_of (length b)]), xxh32 = (\<lambda>_ _. 0)\<rparr>"

definition fresh_repo :: link_repo where
  "fresh_repo = \<lparr>repo.objects = [], insecure = False, ioctl_calls = 0, links = [(''streams'', NDir [])]\<rparr>"

lemma config_roundtrip_witness:
  "\<exists>oid s'. write_config plain_spec toy_oci ''layer'' [(''layer'', replicate 32 CHR ''x'')] fresh_repo = Some (Inr (''sha256:05'', oid), s') \<and>
     open_config plain_spec toy_oci ''sha256:05'' None s' = Some (Inr (''layer'', [(''layer'', replicate 32 CHR ''x'')]), s')"
proof -
  let ?named = "[(''layer'', replicate 32 CHR ''x'')] :: (bytes \<times> bytes) list" and ?E = toy_oci
  let ?w = "config_writer ''layer'' ?named"
  have E: "env_zstd ?E = plain_zstd" "env_hex ?E = hex_codec" "env_kernel ?E = toy_K" "env_alg ?E = toy_H"
    by (simp_all add: toy_oci_def)
  have h: "size_of toy_H = 32" "ALGORITHM toy_H = 1" by (simp_all add: toy_H_def Sha256HashValue_def)
  have hash: "hash ?E ''layer'' = ''sha256:05''" unfolding hash_def toy_oci_def by code_simp
  have "utf8_valid ''layer''" by code_simp
  then have refs: "refs_ok toy_H ?named" using h by (simp add: refs_ok_def)
  have z: "zstd_laws plain_zstd" "stream_alg toy_H" "spec_laws plain_spec" "store_inv hex_codec toy_H fresh_repo"
    using h by (simp_all add: zstd_laws_def plain_zstd_def stream_alg_def spec_laws_def plain_spec_def store_inv_def fresh_repo_def bt_wf_def)
  have dec0: "show_dec 0 = ''0''" by code_simp
  obtain blob where blob: "file_of plain_zstd toy_H ?w = Some blob" "length blob < 2 ^ 64"
    using h by (simp add: file_of_def config_writer_def named_writer_def add_named_stream_ref_def write_inline_def
        uv_ensure_def uv_get_def flush_inline_def I64_MAX_def Let_def layout_def writer_new_def
        uv_bytes_def uv_new_def write_named_refs_def plain_zstd_def length_header_info SPLITSTREAM_MAGIC_def dec0)
  obtain oid s1 where e: "ensure_object hex_codec toy_K toy_H blob fresh_repo = Some (Inr oid, s1)"
    using toy_store_new [of fresh_repo blob] by (auto simp: fresh_repo_def bt_get_def)
  have nc: "no_collision toy_H blob fresh_repo" by (simp add: no_collision_def fresh_repo_def)
  have hx: "hex_laws hex_codec" by (rule hex_laws_hex_codec)
  have len: "1 < length oid" using ensure_object_result(3) [OF toy_env z(4) e, of oid] h
      length_fsverity_digest env_ok_simps(3) [OF toy_env] by fastforce
  let ?id = "config_identifier ''sha256:05''" and ?ts = "[OBJECTS, hex2 (hd oid), hex_encode hex_codec (tl oid)]"
  have l1: "links s1 = [(''streams'', NDir [])]" using ensure_object_links [OF e] by (simp add: fresh_repo_def)
  have k1: "entry_kind s1 [''streams''] = Some KDir" "entry_kind s1 [''streams'', ?id] = None"
    using l1 by (simp_all add: entry_kind_def OBJECTS_def node_kind_def bt_get_def)
  have valid: "valid_name ''streams''" "valid_name ?id" "''streams'' \<noteq> OBJECTS" "OBJECTS \<noteq> ''streams''"
    by (simp_all add: valid_name_def config_identifier_def OBJECTS_def)
  note n = object_names [OF hx len]
  obtain s2 where sy: "symlink (format_stream_path ?id) (format_object_path hex_codec oid) s1 = Some (Inr (), s2)"
    and dir: "entry_kind s2 [''streams''] = Some KDir"
    using symlink_flat [OF valid(1,3,2) n(1) _ _ k1] valid(4) unfolding n(2) format_stream_path_of
    by (simp add: l1 entry_kind_def OBJECTS_def node_kind_def bt_get_def)
  have "write_stream plain_zstd hex_codec toy_K toy_H ?w ?id None fresh_repo = Some (Inr oid, s2)"
    using e sy by (simp add: write_stream_def writer_done_def blob(1) ok_or_def io_bind_def io_err_def repo_step_def
        name_reference_def io_return_def)
  then have run: "write_config plain_spec ?E ''layer'' ?named fresh_repo = Some (Inr (''sha256:05'', oid), s2)"
    unfolding write_config_def write_config_writer hash E Let_def
    by (simp add: plain_spec_def ok_or_def hash Let_def io_bind_def io_err_def io_return_def)
  have json: "to_json plain_spec ''layer'' = Some ''layer''" by (simp add: plain_spec_def)
  have size: "1 < size_of toy_H" using h by simp
  note r = config_roundtrip [where E = ?E, unfolded E, OF toy_env z(4) size z(1-3) refs json blob nc run dir]
  have "named_table ?named = ?named" by (simp add: named_table_def)
  then show ?thesis using r run by auto
qed

end
