(* ===== verification/Oci_Create.thy ===== *)
theory Oci_Create
  imports Oci_Config
begin

text \<open>
  What \<open>create_filesystem\<close> of \<open>crates/composefs-oci/src/image.rs\<close> guarantees: without a trusted digest, the
  configuration and every layer are checked against their SHA-256 digests, and the tree is what the
  entries of the layers build, one layer after the other.
\<close>

section \<open>Nothing is written\<close>

lemma io_err_Inr_iff: "io_err g m s = Some (Inr x, s') \<longleftrightarrow> m s = Some (Inr x, s')"
  by (auto simp: io_err_def)

lemma io_lift_Inr_iff: "io_lift r s = Some (Inr x, s') \<longleftrightarrow> r = Inr x \<and> s' = s"
  by (auto simp: io_lift_def)

lemma keepsD: "keeps_state m \<Longrightarrow> m s = Some (r, s') \<Longrightarrow> s' = s"
  by (simp add: keeps_state_def)

lemma keeps_pure [io_intros]: "keeps_state (\<lambda>s. Some (h s, s))"
  by (simp add: keeps_state_def)

lemma keeps_io_err [io_intros]: "keeps_state m \<Longrightarrow> keeps_state (io_err g m)"
  by (auto simp: keeps_state_def io_err_def)

lemma keeps_repo_step [io_intros]: "keeps_state m \<Longrightarrow> keeps_state (repo_step m)"
  by (auto simp: keeps_state_def repo_step_def)

lemma keeps_read [io_intros]:
  "keeps_state (open_object hx K H oid)" "keeps_state (read_object hx K H oid)" "keeps_state (open_stream Z hx K H cid v ct)"
proof -
  show o: "keeps_state (open_object hx K H oid)" for oid
    by (auto simp: keeps_state_def open_object_def Let_def split: option.splits)
  then show "keeps_state (read_object hx K H oid)" unfolding read_object_def by (auto intro!: io_intros)
  show "keeps_state (open_stream Z hx K H cid v ct)"
    unfolding open_stream_def using o by (auto intro!: io_intros keeps_pure split: option.splits)
qed

lemma keeps_cat_loop: "(\<And>oid. keeps_state (read oid)) \<Longrightarrow> keeps_state (cat_loop read r out)"
proof (induction read r out rule: cat_loop.induct)
  case (1 read r out)
  then show ?case
    by (subst cat_loop.simps) (auto intro!: io_intros split: sum.split prod.split chunk_type.split)
qed

lemma keeps_cat [io_intros]: "keeps_state (cat hx K H r)"
  unfolding cat_def by (intro keeps_cat_loop keeps_read)

lemma keeps_open_config [io_intros]: "keeps_state (open_config S E name verity)"
  unfolding open_config_def by (intro io_intros)

lemma keeps_unpack_layers [io_intros]: "keeps_state (unpack_layers E trusted named ds fs)"
  by (induction E trusted named ds fs rule: unpack_layers.induct) (auto intro!: io_intros simp: check_layer_def)

lemma keeps_create_filesystem [io_intros]: "keeps_state (create_filesystem S E name verity)"
  unfolding create_filesystem_def by (auto intro!: io_intros)

section \<open>Layers one after the other\<close>

lemma unpack_layer_entries:
  "unpack_layer T r fs = Inr fs' \<longleftrightarrow> (\<exists>es. layer_entries T r = Inr es \<and> process_entries fs es = Inr fs')"
proof (induction T r fs rule: unpack_layer.induct)
  case (1 T r fs)
  show ?case
  proof (cases "get_entry T r")
    case (Inr x)
    obtain e r' where x: "x = (e, r')" by (cases x)
    show ?thesis
    proof (cases e)
      case None
      then show ?thesis using Inr x by (simp add: unpack_layer.simps [of T r] layer_entries.simps [of T r])
    next
      case (Some entry)
      show ?thesis
      proof (cases "process_entry fs entry")
        case (Inl er)
        then show ?thesis using Inr x Some
          by (auto simp: unpack_layer.simps [of T r] layer_entries.simps [of T r] rbind_eq_Inr_iff)
      next
        case pe: (Inr fs1)
        have "unpack_layer T r' fs1 = Inr fs' \<longleftrightarrow> (\<exists>es. layer_entries T r' = Inr es \<and> process_entries fs1 es = Inr fs')"
          using "1.IH" [OF Inr x [symmetric] Some pe] by simp
        then show ?thesis using Inr x Some pe
          by (auto simp: unpack_layer.simps [of T r] layer_entries.simps [of T r] rbind_eq_Inr_iff)
      qed
    qed
  qed (simp add: unpack_layer.simps [of T r] layer_entries.simps [of T r])
qed

lemma process_entries_append:
  "process_entries fs (a @ b) = rbind (process_entries fs a) (\<lambda>fs'. process_entries fs' b)"
proof (induction a arbitrary: fs)
  case (Cons e a)
  then show ?case by (cases "process_entry fs e") simp_all
qed simp

text \<open>The stream that a layer is read from, its entries, and the check of its contents.\<close>

definition layer_stream :: "oci_env \<Rightarrow> 'z link_repo_scheme \<Rightarrow> (bytes \<times> bytes) list \<Rightarrow> bytes \<Rightarrow> reader \<Rightarrow> bool" where
  "layer_stream E s named diff_id r \<longleftrightarrow> (\<exists>oid. bt_get named diff_id = Some oid \<and>
     env_open E '''' (Some oid) (Some TAR_LAYER_CONTENT_TYPE) s = Some (Inr r, s))"

definition layer_verified :: "oci_env \<Rightarrow> 'z link_repo_scheme \<Rightarrow> bytes \<Rightarrow> reader \<Rightarrow> bool" where
  "layer_verified E s diff_id r \<longleftrightarrow> (\<exists>blob. cat (env_hex E) (env_kernel E) (env_alg E) r s = Some (Inr blob, s) \<and> hash E blob = diff_id)"

lemma unpack_layers_Inr:
  assumes "unpack_layers E trusted named ds fs s = Some (Inr fs', s')"
  shows "s' = s \<and> (\<exists>ess. list_all2 (\<lambda>d es. \<exists>r. layer_stream E s named d r \<and> (trusted \<or> layer_verified E s d r) \<and>
    layer_entries (env_tar E) r = Inr es) ds ess \<and> process_entries fs (concat ess) = Inr fs')"
  using assms
proof (induction ds arbitrary: fs)
  case Nil
  then show ?case by (auto intro: exI [of _ "[]"])
next
  case (Cons d ds)
  obtain oid r fs1 s1 s2 where oid: "bt_get named d = Some oid"
    and c: "(if trusted then io_return () else check_layer E d oid) s = Some (Inr (), s1)"
    and r: "env_open E '''' (Some oid) (Some TAR_LAYER_CONTENT_TYPE) s1 = Some (Inr r, s2)"
    and u: "unpack_layer (env_tar E) r fs = Inr fs1" and rest: "unpack_layers E trusted named ds fs1 s2 = Some (Inr fs', s')"
    using Cons.prems by (auto simp: io_bind_Inr_iff io_lift_Inr_iff io_err_Inr_iff ok_or_def split: option.splits)
  have "keeps_state (if trusted then io_return () else check_layer E d oid)"
    unfolding check_layer_def by (auto intro!: io_intros)
  from keepsD [OF this] c have "s1 = s" by blast
  then have s12: "s1 = s" "s2 = s" using keepsD [OF keeps_read(3) r] by auto
  obtain es where es: "layer_entries (env_tar E) r = Inr es" "process_entries fs es = Inr fs1"
    using u unpack_layer_entries by blast
  have v: "trusted \<or> layer_verified E s d r"
  proof (cases trusted)
    case False
    then obtain ra blob sa sb where ra: "env_open E '''' (Some oid) (Some TAR_LAYER_CONTENT_TYPE) s = Some (Inr ra, sa)"
      "cat (env_hex E) (env_kernel E) (env_alg E) ra sa = Some (Inr blob, sb)" "hash E blob = d"
      using c unfolding check_layer_def
      by (auto simp: io_bind_Inr_iff io_lift_Inr_iff io_err_Inr_iff ensure_r_def split: if_splits)
    have "sa = s" "sb = sa" using keepsD [OF keeps_read(3) ra(1)] keepsD [OF keeps_cat ra(2)] by auto
    moreover have "ra = r" using ra(1) r unfolding s12 by simp
    ultimately show ?thesis using ra by (auto simp: layer_verified_def)
  qed simp
  note ih = Cons.IH [OF rest [unfolded s12]]
  then obtain ess where ess: "list_all2 (\<lambda>d es. \<exists>r. layer_stream E s named d r \<and> (trusted \<or> layer_verified E s d r) \<and>
    layer_entries (env_tar E) r = Inr es) ds ess" "process_entries fs1 (concat ess) = Inr fs'" "s' = s" by blast
  have "layer_stream E s named d r" using oid r s12 by (auto simp: layer_stream_def)
  then have "list_all2 (\<lambda>d es. \<exists>r. layer_stream E s named d r \<and> (trusted \<or> layer_verified E s d r) \<and>
    layer_entries (env_tar E) r = Inr es) (d # ds) (es # ess)" using ess(1) v es(1) by auto
  moreover have "process_entries fs (concat (es # ess)) = Inr fs'" using es(2) ess(2) by (simp add: process_entries_append)
  ultimately show ?case using ess(3) by blast
qed

section \<open>The filesystem of an image\<close>

definition config_stream :: "oci_env \<Rightarrow> 'z link_repo_scheme \<Rightarrow> bytes \<Rightarrow> bytes option \<Rightarrow> reader \<Rightarrow> bool" where
  "config_stream E s name verity r \<longleftrightarrow>
     env_open E (config_identifier name) verity (Some OCI_CONFIG_CONTENT_TYPE) s = Some (Inr r, s)"

lemma open_config_Inr:
  assumes "open_config S E name verity s = Some (Inr (config, named), s')"
  shows "s' = s \<and> (\<exists>r json r'. config_stream E s name verity r \<and> read_to_end r [] = Inr (json, r') \<and>
    named = into_named_refs r' \<and> (verity = None \<longrightarrow> hash E json = name) \<and> from_reader S json = Some config)"
proof -
  obtain r s1 where r: "env_open E (config_identifier name) verity (Some OCI_CONFIG_CONTENT_TYPE) s = Some (Inr r, s1)"
    and c: "s' = s1 \<and> (\<exists>json r'. read_to_end r [] = Inr (json, r') \<and> (verity \<noteq> None \<or> name = hash E json) \<and>
      from_reader S json = Some config \<and> named = into_named_refs r')"
    using assms unfolding open_config_def
    by (fastforce simp: io_bind_Inr_iff io_lift_Inr_iff io_err_Inr_iff rbind_eq_Inr_iff ensure_r_def ok_or_def
        split: if_splits option.splits)
  have "s1 = s" by (rule keepsD [OF keeps_read(3) r])
  then show ?thesis using r c by (auto simp: config_stream_def)
qed

text \<open>
  C4: The filesystem of an image that is named by the digest of its configuration is built from checked
  contents: the configuration hashes to the name, every layer stream that is unpacked writes out a blob that
  hashes to its diff id, and the tree is what the entries of those streams make, in order, from
  an empty tree, with the metadata of the root taken from \<open>/usr\<close>. Nothing is written.
\<close>

theorem create_filesystem_verified:
  assumes "create_filesystem S E name None s = Some (Inr fs, s')"
  shows "s' = s \<and> (\<exists>r json r' config ess tree.
    config_stream E s name None r \<and> read_to_end r [] = Inr (json, r') \<and> hash E json = name \<and> from_reader S json = Some config \<and>
    list_all2 (\<lambda>diff_id es. \<exists>lr. layer_stream E s (into_named_refs r') diff_id lr \<and> layer_verified E s diff_id lr \<and>
      layer_entries (env_tar E) lr = Inr es) (diff_ids S config) ess \<and>
    process_entries (filesystem_new stat_uninitialized) (concat ess) = Inr tree \<and> transform_for_oci tree = Inr fs)"
proof -
  obtain config named s1 tree s2 where c: "open_config S E name None s = Some (Inr (config, named), s1)"
    and u: "unpack_layers E False named (diff_ids S config) (filesystem_new stat_uninitialized) s1 = Some (Inr tree, s2)"
    and t: "transform_for_oci tree = Inr fs" "s' = s2"
    using assms unfolding create_filesystem_def
    by (auto simp: io_bind_Inr_iff io_lift_Inr_iff)
  obtain r json r' where r: "s1 = s" "config_stream E s name None r" "read_to_end r [] = Inr (json, r')"
    "named = into_named_refs r'" "hash E json = name" "from_reader S json = Some config" using open_config_Inr [OF c] by blast
  obtain ess where ess: "s2 = s" "list_all2 (\<lambda>diff_id es. \<exists>lr. layer_stream E s named diff_id lr \<and>
      layer_verified E s diff_id lr \<and> layer_entries (env_tar E) lr = Inr es) (diff_ids S config) ess"
    "process_entries (filesystem_new stat_uninitialized) (concat ess) = Inr tree"
    using unpack_layers_Inr [OF u] r(1) by auto
  show ?thesis
    by (intro conjI exI [of _ r] exI [of _ json] exI [of _ r'] exI [of _ config] exI [of _ ess] exI [of _ tree])
      (use r ess t in simp_all)
qed

section \<open>An example: an image of one layer that holds \<open>/usr\<close>\<close>

definition usr_tar :: tar_crate where
  "usr_tar = toy_tar\<lparr>entry_size := (\<lambda>h. Some 0), entry_type := (\<lambda>h. TDirectory), path_bytes := (\<lambda>h. ''usr'')\<rparr>"

definition usr_entry :: tar_entry where
  "usr_entry = \<lparr>te_path = ''/usr'', te_stat = \<lparr>st_mode = 420, st_uid = 0, st_gid = 0, st_mtim_sec = 7, xattrs = []\<rparr>, te_item = TarDirectory\<rparr>"

definition usr_writer :: writer where
  "usr_writer = write_inline (toy_header @ zero_block) (writer_new TAR_LAYER_CONTENT_TYPE)"

definition image_oci :: oci_env where "image_oci = toy_oci\<lparr>env_tar := usr_tar\<rparr>"

definition image_repo :: "bytes \<Rightarrow> bytes \<Rightarrow> link_repo" where
  "image_repo config_blob layer_blob = \<lparr>repo.objects = [(to_object_pathname hex_codec (replicate 32 CHR ''C''), fresh_file config_blob),
       (to_object_pathname hex_codec (replicate 32 CHR ''L''), fresh_file layer_blob)],
     insecure = True, ioctl_calls = 0,
     links = [(''streams'', NDir [(''oci-config-sha256:09'', NLink (''../'' @ format_object_path hex_codec (replicate 32 CHR ''C'')))])]\<rparr>"

lemma image_config_open: "open_file (image_repo c l) (format_stream_path (config_identifier ''sha256:09'')) = Inr (fresh_file c)"
  by code_simp

lemma image_layer_object: "bt_get (repo.objects (image_repo c l)) (to_object_pathname hex_codec (replicate 32 CHR ''L'')) = Some (fresh_file l)"
  by code_simp

lemma usr_tree: "case process_entry (filesystem_new stat_uninitialized) usr_entry of Inl _ \<Rightarrow> False
    | Inr t \<Rightarrow> (case transform_for_oci t of Inl _ \<Rightarrow> False | Inr _ \<Rightarrow> True)"
  by code_simp

lemma usr_stream:
  assumes "flush_inline usr_writer = Some w1"
  shows "layer_entries usr_tar (opened w1) = Inr [usr_entry]" "cat hx K H (opened w1) s = Some (Inr (toy_header @ zero_block), s)"
proof -
  have z: "length zero_block = 512" by (simp add: zero_block_def)
  have w1: "encoder w1 = le64 (- 1024) @ toy_header @ zero_block"
    using assms by (auto simp: usr_writer_def write_inline_def writer_new_def flush_inline_def Let_def I64_MAX_def z)
  have v: "sint (- 1024 :: u64) = - 1024" using sint_neg_small [of 1024] by (simp add: I64_MAX_def)
  let ?r = "opened w1" and ?r1 = "(opened w1)\<lparr>decoder := (zero_block, True), inline_bytes := 512\<rparr>"
  have ec: "ensure_chunk ?r x e n = Inr (CInline, ?r\<lparr>decoder := (toy_header @ zero_block, True), inline_bytes := 1024\<rparr>)"
    if "n \<le> 1024" for x e n
    using that by (simp add: ensure_chunk_def opened_def w1 read_exactish_def Let_def v)
  have T: "entry_size usr_tar h = Some 0" "entry_type usr_tar h = TDirectory" "path_bytes usr_tar h = ''usr''"
    "header_uid usr_tar h = Some 0" "header_gid usr_tar h = Some 0" "header_mode usr_tar h = Some 420"
    "header_mtime usr_tar h = Some 7" for h by (simp_all add: usr_tar_def toy_tar_def)
  have "read_inline_exact ?r 512 = Inr (Some toy_header, ?r1)"
    by (simp add: read_inline_exact_def ec dec_read_exact_def z)
  moreover have "read_exact ?r1 0 0 = Inr (DInline [], ?r1)"
    by (simp add: read_exact_def ensure_chunk_def dec_read_exact_def)
  moreover have "next_multiple 0 = Some 0" by (simp add: next_multiple_def)
  ultimately have g: "get_entry usr_tar ?r = Inr (Some usr_entry, ?r1)"
    by (simp add: get_entry_def get_entry_loop.simps [of usr_tar ?r] T inline_item_def finish_entry_def
        no_extensions_def path_from_tar_def usr_entry_def ok_or_def pop_if_def)
  have "\<exists>r2. read_inline_exact ?r1 512 = Inr (Some zero_block, r2)"
    by (simp add: read_inline_exact_def ensure_chunk_def dec_read_exact_def z)
  then have "\<exists>r2. get_entry usr_tar ?r1 = Inr (None, r2)"
    by (auto simp: get_entry_def get_entry_loop.simps [of usr_tar ?r1])
  then show "layer_entries usr_tar (opened w1) = Inr [usr_entry]" using g
    by (auto simp: layer_entries.simps [of usr_tar ?r] layer_entries.simps [of usr_tar ?r1])
  let ?e = "?r\<lparr>decoder := ([], True), inline_bytes := 0\<rparr>"
  have "ensure_chunk ?e True True 0 = Inr (CEof, ?e)" by (simp add: ensure_chunk_def read_exactish_def)
  then show "cat hx K H (opened w1) s = Some (Inr (toy_header @ zero_block), s)"
    by (simp add: cat_def cat_loop.simps [of _ ?r] cat_loop.simps [of _ ?e] ec dec_read_exact_def z io_return_def)
qed

lemma create_filesystem_verified_witness:
  "\<exists>(s :: link_repo) fs config_r layer_r json. create_filesystem plain_spec image_oci ''sha256:09'' None s = Some (Inr fs, s) \<and>
     config_stream image_oci s ''sha256:09'' None config_r \<and> hash image_oci json = ''sha256:09'' \<and> layer_verified image_oci s json layer_r"
proof -
  let ?E = image_oci and ?named = "[(''sha256:00'', replicate 32 CHR ''L'')] :: (bytes \<times> bytes) list"
  let ?w = "config_writer ''sha256:00'' ?named"
  have E: "env_zstd ?E = plain_zstd" "env_hex ?E = hex_codec" "env_kernel ?E = toy_K" "env_alg ?E = toy_H" "env_tar ?E = usr_tar"
    by (simp_all add: image_oci_def toy_oci_def)
  have h: "size_of toy_H = 32" "ALGORITHM toy_H = 1" by (simp_all add: toy_H_def Sha256HashValue_def)
  have hs: "hash ?E b = ''sha256:'' @ hex_encode hex_codec [char_of (length b)]" for b by (simp add: hash_def image_oci_def toy_oci_def)
  have z: "length zero_block = 512" by (simp add: zero_block_def)
  have hex0: "hex_encode hex_codec [CHR 0x00] = ''00''" "hex_encode hex_codec [CHR 0x09] = ''09''" by code_simp+
  have c: "char_of (1024 :: nat) = CHR 0x00" "char_of (9 :: nat) = CHR 0x09" by code_simp+
  have hl: "hash ?E (toy_header @ zero_block) = ''sha256:00''" and hc: "hash ?E ''sha256:00'' = ''sha256:09''"
  proof -
    have n: "length (toy_header @ zero_block) = 1024" "length ''sha256:00'' = 9" by (simp_all add: z)
    show "hash ?E (toy_header @ zero_block) = ''sha256:00''" "hash ?E ''sha256:00'' = ''sha256:09''"
      unfolding hs n c hex0 by simp_all
  qed
  have zs: "zstd_laws plain_zstd" "stream_alg toy_H" using h by (simp_all add: zstd_laws_def plain_zstd_def stream_alg_def)
  have "utf8_valid ''sha256:00''" by code_simp
  then have refs: "refs_ok toy_H ?named" using h by (simp add: refs_ok_def)
  have dec0: "show_dec 0 = ''0''" by code_simp
  obtain cb where cb: "file_of plain_zstd toy_H ?w = Some cb" "length cb < 2 ^ 64"
    using h by (simp add: file_of_def config_writer_def named_writer_def add_named_stream_ref_def write_inline_def
        uv_ensure_def uv_get_def flush_inline_def I64_MAX_def Let_def layout_def writer_new_def
        uv_bytes_def uv_new_def write_named_refs_def plain_zstd_def length_header_info SPLITSTREAM_MAGIC_def dec0)
  obtain lb where lb: "file_of plain_zstd toy_H usr_writer = Some lb" "length lb < 2 ^ 64"
    using h by (simp add: file_of_def usr_writer_def write_inline_def flush_inline_def I64_MAX_def Let_def layout_def writer_new_def
        uv_bytes_def uv_new_def write_named_refs_def plain_zstd_def length_header_info SPLITSTREAM_MAGIC_def z)
  let ?s = "image_repo cb lb"
  obtain r r' where r: "reader_new plain_zstd toy_H cb (Some OCI_CONFIG_CONTENT_TYPE) = Inr r"
    "read_to_end r [] = Inr (''sha256:00'', r')" "into_named_refs r' = ?named"
    using config_reader [OF zs refs cb] by (auto simp: named_table_def)
  have oc: "open_config plain_spec ?E ''sha256:09'' None ?s = Some (Inr (''sha256:00'', ?named), ?s)"
    using r hc by (simp add: open_config_def open_stream_def E image_config_open io_bind_def io_err_def io_lift_def ensure_r_def
        ok_or_def plain_spec_def)
  have ww: "writer_wf toy_H usr_writer" "w_content_type usr_writer = TAR_LAYER_CONTENT_TYPE"
    using writer_wf_new [of toy_H] by (simp_all add: usr_writer_def write_inline_def writer_wf_def writer_new_def)
  obtain w1 where w1: "flush_inline usr_writer = Some w1"
    "reader_new plain_zstd toy_H lb (Some TAR_LAYER_CONTENT_TYPE) = Inr (opened w1)"
    using file_of_opens [OF zs ww(1) lb] ww(2) by auto
  note us = usr_stream [OF w1(1)]
  have ol: "env_open ?E '''' (Some (replicate 32 CHR ''L'')) (Some TAR_LAYER_CONTENT_TYPE) ?s = Some (Inr (opened w1), ?s)"
  proof -
    have "kernel_laws toy_K toy_H" using toy_env by (simp add: env_ok_def)
    then have "verify_open hex_codec toy_K toy_H (fresh_file lb) (replicate 32 CHR ''L'') (insecure ?s) = Inr ()"
      using verify_fresh by (simp add: image_repo_def)
    then have "open_object hex_codec toy_K toy_H (replicate 32 CHR ''L'') ?s = Some (Inr (fresh_file lb), ?s)"
      by (simp only: open_object_def image_layer_object Let_def option.case rbind_Inr)
    then show ?thesis using w1(2) by (simp add: open_stream_def E io_bind_def io_err_def io_lift_def)
  qed
  obtain t fs where t: "process_entry (filesystem_new stat_uninitialized) usr_entry = Inr t" "transform_for_oci t = Inr fs"
    using usr_tree by (auto split: sum.splits)
  have "unpack_layer usr_tar (opened w1) (filesystem_new stat_uninitialized) = Inr t"
    using us(1) t(1) by (simp add: unpack_layer_entries)
  moreover have "check_layer ?E ''sha256:00'' (replicate 32 CHR ''L'') ?s = Some (Inr (), ?s)"
    using ol us(2) [of hex_codec toy_K toy_H ?s] hl
    by (simp add: check_layer_def io_bind_def io_err_def io_lift_def ensure_r_def E)
  moreover have "bt_get ?named ''sha256:00'' = Some (replicate 32 CHR ''L'')" by (simp add: bt_get_def)
  ultimately have "unpack_layers ?E False ?named [''sha256:00''] (filesystem_new stat_uninitialized) ?s = Some (Inr t, ?s)"
    using ol by (simp add: E io_bind_def io_err_def io_lift_def io_return_def ok_or_def)
  then have run: "create_filesystem plain_spec ?E ''sha256:09'' None ?s = Some (Inr fs, ?s)"
    using oc t(2) by (simp add: create_filesystem_def io_bind_def io_lift_def plain_spec_def)
  have p: "diff_ids plain_spec j = [j]" "from_reader plain_spec j = Some j" for j by (simp_all add: plain_spec_def)
  obtain cr json cr' config ess where v: "config_stream ?E ?s ''sha256:09'' None cr" "hash ?E json = ''sha256:09''"
    "from_reader plain_spec json = Some config" and l: "list_all2 (\<lambda>diff_id es. \<exists>lr. layer_stream ?E ?s (into_named_refs cr') diff_id lr \<and>
      layer_verified ?E ?s diff_id lr \<and> layer_entries (env_tar ?E) lr = Inr es) (diff_ids plain_spec config) ess"
    using create_filesystem_verified [OF run] by blast
  have "config = json" using v(3) by (simp add: p)
  then obtain lr where "layer_verified ?E ?s json lr" using l by (cases ess) (auto simp: p)
  then show ?thesis using run v(1,2) by blast
qed

end
