(* ===== verification/Boot_Transform.thy ===== *)
theory Boot_Transform
  imports Boot_Selabel Oci_Create
begin

text \<open>
  Models \<open>crates/composefs-boot/src/lib.rs\<close>: the transformation of the tree of an image for booting, which
  collects the boot entries, empties the directories that the running system mounts over, and labels the rest.
\<close>

section \<open>The transformation\<close>

datatype transform_error = TfBoot boot_error | TfImage image_error | TfSelabel selabel_error

definition REQUIRED_TOPLEVEL_TO_EMPTY_DIRS :: "bytes list" where
  "REQUIRED_TOPLEVEL_TO_EMPTY_DIRS = [''boot'', ''sysroot'']"

fun empty_dirs :: "u64 \<Rightarrow> bytes list \<Rightarrow> directory \<Rightarrow> image_error + directory" where
  "empty_dirs m [] r = Inr r"
| "empty_dirs m (d # ds) r = rbind (get_directory_mut r d) (\<lambda>(dir, put).
     empty_dirs m ds (put (clear (set_stat ((dstat dir)\<lparr>st_mtim_sec := m\<rparr>) dir))))"

definition transform_for_boot :: "dfa_crate \<Rightarrow> hex_crate \<Rightarrow> kernel \<Rightarrow> hash_alg \<Rightarrow> regular_file filesystem \<Rightarrow>
    (transform_error, 'z repo_scheme, boot_entry list \<times> regular_file filesystem) io" where
  "transform_for_boot D hx K H fs =
     io_bind (io_err TfBoot (get_boot_resources hx K H fs)) (\<lambda>boot_entries.
     io_bind (io_lift (map_err TfImage (get_directory (root fs) ''usr''))) (\<lambda>usr.
     io_bind (io_lift (map_err TfImage (empty_dirs (st_mtim_sec (dstat usr)) REQUIRED_TOPLEVEL_TO_EMPTY_DIRS (root fs)))) (\<lambda>r.
     io_bind (io_err TfSelabel (selabel D hx K H (fs\<lparr>root := r\<rparr>))) (\<lambda>(_, fs').
       io_return (boot_entries, fs')))))"

section \<open>The nodes of the emptied tree\<close>

lemma get_directory_mut_name:
  assumes "get_directory_mut r n = Inr (s, put)" "components n = [Normal n]"
  shows "bt_get (entries r) n = Some (IDirectory s)" "put s' = set_entries (bt_insert n (IDirectory s') (entries r)) r"
  using assms by (auto simp: get_directory_mut_def rbind_eq_Inr_iff split: option.splits inode_of.splits)

lemma node_at_put_name:
  "bt_wf (entries r) \<Longrightarrow> node_at (set_entries (bt_insert n (IDirectory s) (entries r)) r) ns =
     (case ns of [] \<Rightarrow> Some (DirNode (dstat r)) | m # ms \<Rightarrow> if m = n then node_at s ms else node_at r ns)"
  by (cases ns) (simp_all add: bt_get_insert)

lemma node_at_cleared: "node_at (clear d) ns = (if ns = [] then Some (DirNode (dstat d)) else None)"
  by (cases d; cases ns) (simp_all add: clear_def bt_get_def)

lemma node_at_dir: "bt_get (entries r) n = Some (IDirectory s) \<Longrightarrow> node_at r (n # ns) = node_at s ns"
  by simp

definition emptied :: "u64 \<Rightarrow> bytes list \<Rightarrow> path_map \<Rightarrow> path_map" where
  "emptied m ds f = (\<lambda>ns. case ns of [] \<Rightarrow> f []
     | d # ms \<Rightarrow> if d \<notin> set ds then f ns
         else if ms = [] then (case f [d] of Some (DirNode st) \<Rightarrow> Some (DirNode (st\<lparr>st_mtim_sec := m\<rparr>)) | x \<Rightarrow> x)
         else None)"

lemma emptied_Nil [simp]: "emptied m [] f = f"
  by (rule ext) (simp add: emptied_def split: list.splits)

lemma emptied_step:
  assumes "d \<notin> set ds" "f [d] = Some (DirNode st)"
    and "\<And>ns. g ns = (case ns of [] \<Rightarrow> f [] | m' # ms \<Rightarrow>
      if m' = d then (if ms = [] then Some (DirNode (st\<lparr>st_mtim_sec := m\<rparr>)) else None) else f ns)"
  shows "emptied m ds g = emptied m (d # ds) f"
  using assms(1,2) by (auto simp: emptied_def assms(3) fun_eq_iff split: list.splits)

lemma empty_dirs_nodes:
  "empty_dirs m ds r = Inr r' \<Longrightarrow> dir_wf n r \<Longrightarrow> distinct ds \<Longrightarrow> \<forall>d \<in> set ds. components d = [Normal d] \<Longrightarrow>
     dir_wf n r' \<and> (\<forall>d \<in> set ds. is_dir_node (node_at r [d])) \<and> node_at r' = emptied m ds (node_at r)"
proof (induction ds arbitrary: r)
  case (Cons d ds)
  then obtain s put where p: "get_directory_mut r d = Inr (s, put)"
    and e: "empty_dirs m ds (put (clear (set_stat ((dstat s)\<lparr>st_mtim_sec := m\<rparr>) s))) = Inr r'"
    by (auto simp: rbind_eq_Inr_iff)
  let ?s = "clear (set_stat ((dstat s)\<lparr>st_mtim_sec := m\<rparr>) s)"
  have c: "components d = [Normal d]" using Cons.prems(4) by simp
  note b = get_directory_mut_name(1) [OF p c] and pt = get_directory_mut_name(2) [OF p c]
  have wfs: "dir_wf n s" using dir_wf_get [OF Cons.prems(2) b] by simp
  have wf: "dir_wf n (put ?s)"
    unfolding pt using Cons.prems(2) wfs
    by (intro dir_wf_bt_insert) (cases s, auto simp: clear_def dir_wf_iff)
  have IH: "dir_wf n r'" "\<forall>d \<in> set ds. is_dir_node (node_at (put ?s) [d])" "node_at r' = emptied m ds (node_at (put ?s))"
    using Cons.IH [OF e wf] Cons.prems by simp_all
  have nd: "d \<notin> set ds" using Cons.prems(3) by simp
  have at: "node_at (put ?s) ns = (case ns of [] \<Rightarrow> Some (DirNode (dstat r))
      | m' # ms \<Rightarrow> if m' = d then (if ms = [] then Some (DirNode ((dstat s)\<lparr>st_mtim_sec := m\<rparr>)) else None) else node_at r ns)" for ns
    unfolding pt node_at_put_name [OF dir_wf_entries [OF Cons.prems(2)]] node_at_cleared by (cases s) (simp split: list.splits)
  have "is_dir_node (node_at r [e])" if "e \<in> set (d # ds)" for e
  proof (cases "e = d")
    case True then show ?thesis using b by (simp add: is_dir_node_def)
  next
    case False
    then have "is_dir_node (node_at (put ?s) [e])" using that IH(2) by simp
    then show ?thesis unfolding at using False by simp
  qed
  moreover have "node_at r' = emptied m (d # ds) (node_at r)"
    unfolding IH(3) by (rule emptied_step [OF nd]) (use b in \<open>simp, unfold at, simp split: list.splits\<close>)
  ultimately show ?case using IH(1) by blast
qed simp

lemma components_boot_sysroot:
  "components ''boot'' = [Normal ''boot'']" "components ''sysroot'' = [Normal ''sysroot'']"
  by code_simp+

text \<open>A stat that differs at most in its label.\<close>

definition same_but_label :: "stat \<Rightarrow> stat \<Rightarrow> bool" where
  "same_but_label st st' \<longleftrightarrow> (\<exists>l. labelled l st st')"

lemma same_but_label_refl: "same_but_label st st"
  unfolding same_but_label_def by (rule exI [of _ "bt_get (xattrs st) ''security.selinux''"]) (simp add: labelled_def)

lemma tree_labelled_same:
  assumes "tree_labelled label fs fs'"
  shows "case node_at (root fs) ns of
      Some (DirNode st) \<Rightarrow> (\<exists>st'. node_at (root fs') ns = Some (DirNode st') \<and> same_but_label st st')
    | x \<Rightarrow> node_at (root fs') ns = x"
    and "length (heap fs') = length (heap fs)"
    and "r < length (heap fs) \<Longrightarrow> content (heap fs' ! r) = content (heap fs ! r) \<and>
      same_but_label (leaf_stat (heap fs ! r)) (leaf_stat (heap fs' ! r))"
proof -
  have "case node_at (root fs) ns of
      Some (DirNode st) \<Rightarrow> (\<exists>st'. node_at (root fs') ns = Some (DirNode st') \<and> labelled (label ns CHR ''d'') st st')
    | x \<Rightarrow> node_at (root fs') ns = x"
    using assms unfolding tree_labelled_def by blast
  then show "case node_at (root fs) ns of
      Some (DirNode st) \<Rightarrow> (\<exists>st'. node_at (root fs') ns = Some (DirNode st') \<and> same_but_label st st')
    | x \<Rightarrow> node_at (root fs') ns = x"
    unfolding same_but_label_def by (auto split: option.splits fnode.splits)
  show "length (heap fs') = length (heap fs)" using assms unfolding tree_labelled_def by blast
  assume "r < length (heap fs)"
  then have "content (heap fs' ! r) = content (heap fs ! r)" "if r \<in> set (refs (root fs))
      then \<exists>ns. node_at (root fs) ns = Some (LeafNode r) \<and>
        labelled (label ns (type_letter (content (heap fs ! r)))) (leaf_stat (heap fs ! r)) (leaf_stat (heap fs' ! r))
      else heap fs' ! r = heap fs ! r"
    using assms unfolding tree_labelled_def by blast+
  then show "content (heap fs' ! r) = content (heap fs ! r) \<and> same_but_label (leaf_stat (heap fs ! r)) (leaf_stat (heap fs' ! r))"
    using same_but_label_refl unfolding same_but_label_def by (auto split: if_splits)
qed

text \<open>
  C38: transforming a tree for booting returns the boot entries of the tree as it was and leaves /boot and /sysroot as
  empty directories with their own owner, mode and attributes and the modification time of /usr. Every other node stays
  under its path: directories keep their owner, mode, time and attributes, and so do files, with their contents, except
  for the attribute security.selinux.
\<close>

theorem transform_for_boot_tree:
  assumes t: "transform_for_boot D hx K H fs s = Some (Inr (boot_entries, fs'), s')"
    and wf: "dir_wf (length (heap fs)) (root fs)" and hwf: "\<forall>l \<in> set (heap fs). bt_wf (xattrs (leaf_stat l))"
  shows "\<exists>usr s1. get_boot_resources hx K H fs s = Some (Inr boot_entries, s1) \<and> get_directory (root fs) ''usr'' = Inr usr \<and>
    is_dir_node (node_at (root fs) [''boot'']) \<and> is_dir_node (node_at (root fs) [''sysroot'']) \<and>
    (\<forall>ns. case emptied (st_mtim_sec (dstat usr)) [''boot'', ''sysroot''] (node_at (root fs)) ns of
        Some (DirNode st) \<Rightarrow> (\<exists>st'. node_at (root fs') ns = Some (DirNode st') \<and> same_but_label st st')
      | x \<Rightarrow> node_at (root fs') ns = x) \<and>
    length (heap fs') = length (heap fs) \<and>
    (\<forall>r < length (heap fs). content (heap fs' ! r) = content (heap fs ! r) \<and>
      same_but_label (leaf_stat (heap fs ! r)) (leaf_stat (heap fs' ! r)))"
proof -
  obtain usr r s1 s2 found where b: "get_boot_resources hx K H fs s = Some (Inr boot_entries, s1)"
    and u: "get_directory (root fs) ''usr'' = Inr usr"
    and r: "empty_dirs (st_mtim_sec (dstat usr)) REQUIRED_TOPLEVEL_TO_EMPTY_DIRS (root fs) = Inr r"
    and l: "selabel D hx K H (fs\<lparr>root := r\<rparr>) s1 = Some (Inr (found, fs'), s2)"
    using t unfolding transform_for_boot_def
    by (auto simp: io_bind_Inr_iff io_lift_def io_err_Inr_iff io_return_def)
  have n: "dir_wf (length (heap fs)) r" "is_dir_node (node_at (root fs) [''boot''])" "is_dir_node (node_at (root fs) [''sysroot''])"
    "node_at r = emptied (st_mtim_sec (dstat usr)) [''boot'', ''sysroot''] (node_at (root fs))"
    using empty_dirs_nodes [OF r wf] by (simp_all add: REQUIRED_TOPLEVEL_TO_EMPTY_DIRS_def components_boot_sysroot)
  obtain label where "tree_labelled label (fs\<lparr>root := r\<rparr>) fs'"
    using selabel_tree [OF l] n(1) hwf by auto
  note sm = tree_labelled_same [OF this, simplified]
  show ?thesis using b u n(2,3) sm(2,3) sm(1) [unfolded n(4)] by (intro exI [of _ usr] exI [of _ s1]) blast
qed

definition boot_fs :: "regular_file filesystem" where
  "boot_fs = \<lparr>root = plain_dir [(''boot'', IDirectory (plain_dir [(''vmlinuz'', ILeaf 0)])), (''sysroot'', IDirectory (plain_dir [])),
     (''usr'', IDirectory (Directory (stat_uninitialized\<lparr>st_mtim_sec := 7\<rparr>) []))], heap = [plain_file ''kernel'']\<rparr>"

lemma boot_fs_transformed:
  "\<exists>fs' s. transform_for_boot plain_dfa hex_codec toy_K toy_H boot_fs empty_repo = Some (Inr ([], fs'), s)"
proof -
  have "case transform_for_boot plain_dfa hex_codec toy_K toy_H boot_fs empty_repo of Some (Inr (es, fs), s) \<Rightarrow> es = [] | _ \<Rightarrow> False"
    by code_simp
  then show ?thesis by (auto split: option.splits sum.splits prod.splits)
qed

lemma transform_for_boot_tree_witness:
  "\<exists>fs' s st. transform_for_boot plain_dfa hex_codec toy_K toy_H boot_fs empty_repo = Some (Inr ([], fs'), s) \<and>
     node_at (root fs') [''boot''] = Some (DirNode st) \<and> st_mtim_sec st = 7 \<and>
     node_at (root fs') [''boot'', ''vmlinuz''] = None"
proof -
  obtain fs' s where t: "transform_for_boot plain_dfa hex_codec toy_K toy_H boot_fs empty_repo = Some (Inr ([], fs'), s)"
    using boot_fs_transformed by blast
  have wf: "dir_wf (length (heap boot_fs)) (root boot_fs)" "\<forall>l \<in> set (heap boot_fs). bt_wf (xattrs (leaf_stat l))"
    by code_simp+
  have u: "get_directory (root boot_fs) ''usr'' = Inr (Directory (stat_uninitialized\<lparr>st_mtim_sec := 7\<rparr>) [])"
    by (simp add: get_directory_def get_directory_opt_def components_usr_run boot_fs_def plain_dir_def bt_get_def)
  have b: "node_at (root boot_fs) [''boot''] = Some (DirNode stat_uninitialized)"
    by (simp add: boot_fs_def plain_dir_def bt_get_def)
  have e: "emptied 7 [''boot'', ''sysroot''] (node_at (root boot_fs)) [''boot''] = Some (DirNode (stat_uninitialized\<lparr>st_mtim_sec := 7\<rparr>))"
    "emptied 7 [''boot'', ''sysroot''] (node_at (root boot_fs)) [''boot'', ''vmlinuz''] = None"
    using b by (simp_all add: emptied_def del: node_at.simps)
  have n: "case emptied 7 [''boot'', ''sysroot''] (node_at (root boot_fs)) ns of
        Some (DirNode st) \<Rightarrow> (\<exists>st'. node_at (root fs') ns = Some (DirNode st') \<and> same_but_label st st')
      | x \<Rightarrow> node_at (root fs') ns = x" for ns
    using transform_for_boot_tree [OF t wf] u by auto
  obtain st where "node_at (root fs') [''boot''] = Some (DirNode st)" "same_but_label (stat_uninitialized\<lparr>st_mtim_sec := 7\<rparr>) st"
    using n [of "[''boot'']"] unfolding e by auto
  then show ?thesis using t n [of "[''boot'', ''vmlinuz'']"] unfolding e same_but_label_def labelled_def
    by (auto simp del: node_at.simps)
qed

end
