(* ===== verification/Boot_Os_Release.thy ===== *)
theory Boot_Os_Release
  imports Boot_Cmdline Ordered_Map
begin

text \<open>
  Models \<open>crates/composefs-boot/src/os_release.rs\<close>: the quoting of values, the assignments of an os-release
  file, and the label of a boot entry. The loops over characters are loops over bytes: what they test is ASCII.
\<close>

section \<open>Quoting\<close>

definition APOS :: byte where "APOS = CHR 0x27"
definition ESCAPE :: byte where "ESCAPE = CHR 0x5C"

fun dequote_plain :: "bytes \<Rightarrow> bytes option" and dequote_double :: "bytes \<Rightarrow> bytes option"
  and dequote_single :: "bytes \<Rightarrow> bytes option" where
  "dequote_plain [] = Some []"
| "dequote_plain (c # cs) = (if c = QUOTE then dequote_double cs
     else if c = APOS then dequote_single cs
     else map_option (Cons c) (dequote_plain cs))"
| "dequote_double [] = None"
| "dequote_double (c # cs) = (if c = ESCAPE then (case cs of [] \<Rightarrow> None | d # ds \<Rightarrow> map_option (Cons d) (dequote_double ds))
     else if c = QUOTE then dequote_plain cs
     else map_option (Cons c) (dequote_double cs))"
| "dequote_single [] = None"
| "dequote_single (c # cs) = (if c = APOS then dequote_plain cs else map_option (Cons c) (dequote_single cs))"

definition dequote :: "bytes \<Rightarrow> bytes option" where
  "dequote v = dequote_plain (trim v)"

section \<open>Files\<close>

record os_release_info =
  os_map :: "(bytes \<times> bytes) list"

definition os_release_parse :: "bytes \<Rightarrow> os_release_info" where
  "os_release_parse text = \<lparr>os_map = fold (\<lambda>(k, v). bt_insert k v)
     (List.map_filter (split_once CHR ''='') (filter (\<lambda>line. \<not> starts_with ''#'' (trim line)) (lines text))) []\<rparr>"

definition os_get_value :: "os_release_info \<Rightarrow> bytes list \<Rightarrow> bytes option" where
  "os_get_value info keys = find_map (\<lambda>key. Option.bind (bt_get (os_map info) key) dequote) keys"

definition get_pretty_name :: "os_release_info \<Rightarrow> bytes option" where
  "get_pretty_name info = os_get_value info [''PRETTY_NAME'', ''NAME'', ''ID'']"

definition get_version :: "os_release_info \<Rightarrow> bytes option" where
  "get_version info = os_get_value info [''VERSION_ID'', ''VERSION'']"

definition os_boot_label :: "os_release_info \<Rightarrow> bytes option" where
  "os_boot_label info = Option.bind (get_pretty_name info) (\<lambda>result. Some (case get_version info of
       Some version \<Rightarrow> result @ '' '' @ version | None \<Rightarrow> result))"

section \<open>Whole characters\<close>

definition whole :: "bytes \<Rightarrow> bool" where
  "whole s \<longleftrightarrow> (\<forall>u \<in> set (utf8_chars s). length u = utf8_width (hd u))"

lemma utf8_chars_append: "whole s \<Longrightarrow> utf8_chars (s @ t) = utf8_chars s @ utf8_chars t"
proof (induction s rule: utf8_chars.induct)
  case (2 c cs)
  let ?n = "utf8_width c - 1"
  have "length (c # take ?n cs) = utf8_width c" using "2.prems" by (simp add: whole_def)
  then have n: "?n \<le> length cs" by simp
  have "whole (drop ?n cs)" using "2.prems" by (simp add: whole_def)
  then show ?case using "2.IH" n by simp
qed simp

lemma whole_append: "whole s \<Longrightarrow> whole t \<Longrightarrow> whole (s @ t)"
  by (auto simp: whole_def utf8_chars_append)

lemma whole_Nil [simp]: "whole []"
  by (simp add: whole_def)

lemma whole_ascii: "is_ascii s \<Longrightarrow> whole s"
  by (auto simp: whole_def utf8_chars_ascii is_ascii_def utf8_width_def)

lemma trim_fixed:
  assumes "whole s" "is_ascii a" "is_ascii b" "a \<noteq> []" "b \<noteq> []" "\<not> is_whitespace [hd a]" "\<not> is_whitespace [last b]"
  shows "trim (a @ s @ b) = a @ s @ b"
proof -
  have chars: "utf8_chars (a @ s @ b) = map (\<lambda>c. [c]) a @ utf8_chars s @ map (\<lambda>c. [c]) b"
    unfolding utf8_chars_append [OF whole_ascii [OF assms(2)]] utf8_chars_append [OF assms(1)]
    by (simp only: utf8_chars_ascii [OF assms(2)] utf8_chars_ascii [OF assms(3)])
  obtain x xs where a: "a = x # xs" using assms(4) by (cases a) auto
  obtain y ys where b: "b = ys @ [y]" using assms(5) by (cases b rule: rev_cases) auto
  have "concat (utf8_chars (a @ s @ b)) = a @ s @ b" by (rule concat_utf8_chars)
  moreover have "dropWhile is_whitespace (utf8_chars (a @ s @ b)) = utf8_chars (a @ s @ b)"
    using assms(6) unfolding chars by (simp add: a)
  moreover have "dropWhile is_whitespace (rev (utf8_chars (a @ s @ b))) = rev (utf8_chars (a @ s @ b))"
    using assms(7) unfolding chars by (simp add: b)
  ultimately show ?thesis by (simp add: trim_def)
qed

section \<open>Quoted values read back\<close>

text \<open>Double quotes, with the escapes that a shell needs.\<close>

definition escape_byte :: "byte \<Rightarrow> bytes" where
  "escape_byte c = (if c \<in> {QUOTE, ESCAPE, CHR ''$'', CHR 0x60} then [ESCAPE, c] else [c])"

definition quote_value :: "bytes \<Rightarrow> bytes" where
  "quote_value v = QUOTE # concat (map escape_byte v) @ [QUOTE]"

lemma dequote_escaped: "dequote_double (concat (map escape_byte v) @ QUOTE # r) = map_option (\<lambda>x. v @ x) (dequote_plain r)"
proof (induction v)
  case Nil
  then show ?case by (simp add: ESCAPE_def QUOTE_def option.map_ident)
next
  case (Cons c v)
  have "QUOTE \<noteq> ESCAPE" by (simp add: ESCAPE_def QUOTE_def)
  then show ?case using Cons by (auto simp: escape_byte_def option.map_comp comp_def)
qed

lemma cont_byte_escape: "cont_byte c \<Longrightarrow> escape_byte c = [c]"
  by (auto simp: cont_byte_def escape_byte_def QUOTE_def ESCAPE_def)

lemma escape_ascii: "(of_char c :: nat) < 128 \<Longrightarrow> is_ascii (escape_byte c)"
  by (auto simp: escape_byte_def ESCAPE_def)

lemma utf8_valid_Cons:
  "utf8_valid (c # cs) \<longleftrightarrow> utf8_lead_ok c (take (utf8_width c - 1) cs) \<and> list_all cont_byte (take (utf8_width c - 1) cs) \<and>
    utf8_valid (drop (utf8_width c - 1) cs)"
  by (simp add: utf8_valid_def)

lemma lead_length: "utf8_lead_ok c r \<Longrightarrow> length r \<le> utf8_width c - 1 \<Longrightarrow> length r = utf8_width c - 1"
  by (auto simp: utf8_lead_ok_def Let_def utf8_width_def split: if_splits)

lemma valid_whole: "utf8_valid s \<Longrightarrow> whole s"
proof (induction s rule: utf8_chars.induct)
  case (2 c cs)
  then have v: "utf8_lead_ok c (take (utf8_width c - 1) cs)" "utf8_valid (drop (utf8_width c - 1) cs)"
    unfolding utf8_valid_Cons by auto
  have "length (take (utf8_width c - 1) cs) = utf8_width c - 1" by (rule lead_length [OF v(1)]) simp
  moreover have "0 < utf8_width c" by (simp add: utf8_width_def)
  ultimately show ?case using "2.IH" [OF v(2)] by (simp add: whole_def)
qed simp

lemma utf8_valid_append: "utf8_valid s \<Longrightarrow> utf8_valid t \<Longrightarrow> utf8_valid (s @ t)"
  by (simp add: utf8_valid_def utf8_chars_append valid_whole [unfolded utf8_valid_def])

lemma utf8_valid_ascii: "is_ascii s \<Longrightarrow> utf8_valid s"
  by (auto simp: utf8_valid_def utf8_chars_ascii list_all_iff is_ascii_def utf8_lead_ok_def Let_def)

lemma valid_escaped: "utf8_valid v \<Longrightarrow> utf8_valid (concat (map escape_byte v))"
proof (induction v rule: utf8_chars.induct)
  case (2 c cs)
  let ?r = "take (utf8_width c - 1) cs" and ?s = "drop (utf8_width c - 1) cs"
  have v: "utf8_lead_ok c ?r" "list_all cont_byte ?r" "utf8_valid ?s" using "2.prems" unfolding utf8_valid_Cons by auto
  have len: "length ?r = utf8_width c - 1" by (rule lead_length [OF v(1)]) simp
  note ih = "2.IH" [OF v(3)]
  have "map escape_byte ?r = map (\<lambda>c. [c]) ?r" using v(2) by (auto simp: list_all_iff cont_byte_escape)
  then have e: "concat (map escape_byte ?r) = ?r" by (simp only: concat_map_singleton) simp
  have cs: "concat (map escape_byte cs) = concat (map escape_byte ?r) @ concat (map escape_byte ?s)"
    by (metis append_take_drop_id concat_append map_append)
  have all: "concat (map escape_byte (c # cs)) = escape_byte c @ ?r @ concat (map escape_byte ?s)"
    unfolding list.map concat.simps cs e by simp
  show ?case
  proof (cases "(of_char c :: nat) < 128")
    case True
    then have r: "?r = []" by (simp add: utf8_width_def)
    show ?thesis unfolding all r append_Nil by (rule utf8_valid_append [OF utf8_valid_ascii [OF escape_ascii [OF True]] ih])
  next
    case False
    then have c: "escape_byte c = [c]" by (auto simp: escape_byte_def QUOTE_def ESCAPE_def)
    have td: "take n (r @ x) = r" "drop n (r @ x) = x" if "length r = n" for n and r x :: bytes using that by simp_all
    note td [OF len, of "concat (map escape_byte ?s)"]
    then show ?thesis unfolding all c append_Cons append_Nil utf8_valid_Cons using v(1,2) ih by (simp only: simp_thms)
  qed
qed simp

lemma whole_escaped: "utf8_valid v \<Longrightarrow> whole (concat (map escape_byte v))"
  by (rule valid_whole [OF valid_escaped])

lemma dequote_quote:
  assumes "utf8_valid v"
  shows "dequote (quote_value v) = Some v"
proof -
  have q: "is_ascii [QUOTE]" "\<not> is_whitespace [QUOTE]"
    by (simp_all add: QUOTE_def is_whitespace_def code_point_def)
  have "trim (quote_value v) = quote_value v"
    using trim_fixed [OF whole_escaped [OF assms] q(1) q(1)] q(2) by (simp add: quote_value_def)
  then show ?thesis using dequote_escaped [of v "[]"] by (simp add: dequote_def quote_value_def)
qed

section \<open>Files read back\<close>

definition assignment :: "bytes \<times> bytes \<Rightarrow> bytes" where
  "assignment kv = fst kv @ ''='' @ quote_value (snd kv)"

definition os_release_text :: "(bytes \<times> bytes) list \<Rightarrow> bytes" where
  "os_release_text kvs = concat (map (\<lambda>kv. assignment kv @ [CHR 0x0A]) kvs)"

definition key_ok :: "bytes \<Rightarrow> bool" where
  "key_ok k \<longleftrightarrow> k \<noteq> [] \<and> is_ascii k \<and> hd k \<noteq> CHR ''#'' \<and> \<not> is_whitespace [hd k] \<and> CHR ''='' \<notin> set k \<and> CHR 0x0A \<notin> set k"

definition value_ok :: "bytes \<Rightarrow> bool" where
  "value_ok v \<longleftrightarrow> utf8_valid v \<and> CHR 0x0A \<notin> set v"

lemma assignment_line:
  assumes "key_ok k" "value_ok v"
  shows "CHR 0x0A \<notin> set (assignment (k, v))" "strip_cr (assignment (k, v)) = assignment (k, v)"
    "\<not> starts_with ''#'' (trim (assignment (k, v)))" "split_once CHR ''='' (assignment (k, v)) = Some (k, quote_value v)"
proof -
  have n: "CHR 0x0A \<notin> set (escape_byte c)" if "c \<noteq> CHR 0x0A" for c
    using that by (auto simp: escape_byte_def ESCAPE_def)
  have "CHR 0x0A \<notin> set (escape_byte c)" if "c \<in> set v" for c
    using n [of c] that assms(2) unfolding value_ok_def by blast
  then have "CHR 0x0A \<notin> set (concat (map escape_byte v))" by simp
  then show "CHR 0x0A \<notin> set (assignment (k, v))" using assms(1)
    by (simp add: assignment_def quote_value_def key_ok_def QUOTE_def)
  show "strip_cr (assignment (k, v)) = assignment (k, v)"
    by (simp add: strip_cr_def assignment_def quote_value_def QUOTE_def)
  show "split_once CHR ''='' (assignment (k, v)) = Some (k, quote_value v)"
    using assms(1) by (simp add: assignment_def key_ok_def)
  have q: "is_ascii [QUOTE]" "\<not> is_whitespace [QUOTE]"
    by (simp_all add: QUOTE_def is_whitespace_def code_point_def)
  have "trim ((k @ ''='' @ [QUOTE]) @ concat (map escape_byte v) @ [QUOTE]) = (k @ ''='' @ [QUOTE]) @ concat (map escape_byte v) @ [QUOTE]"
    using assms q by (intro trim_fixed whole_escaped) (auto simp: key_ok_def value_ok_def)
  then have t: "trim (assignment (k, v)) = assignment (k, v)" by (simp add: assignment_def quote_value_def)
  obtain x xs where "k = x # xs" using assms(1) by (cases k) (auto simp: key_ok_def)
  then show "\<not> starts_with ''#'' (trim (assignment (k, v)))" unfolding t
    using assms(1) by (auto simp: assignment_def key_ok_def starts_with_def)
qed

lemma lines_concat:
  assumes "\<forall>l \<in> set ls. CHR 0x0A \<notin> set l \<and> strip_cr l = l"
  shows "lines (concat (map (\<lambda>l. l @ [CHR 0x0A]) ls)) = ls"
proof -
  have "split_char CHR 0x0A (concat (map (\<lambda>l. l @ [CHR 0x0A]) ls)) = ls @ [[]]"
    using assms by (induction ls) (simp_all add: split_char_append)
  moreover have "map strip_cr ls = ls" using assms by (intro map_idI) auto
  ultimately show ?thesis by (simp add: lines_def Let_def)
qed

lemma fold_insert_get: "bt_get (fold (\<lambda>(k, v). bt_insert k v) kvs m) j = (case map_of (rev kvs) j of Some v \<Rightarrow> Some v | None \<Rightarrow> bt_get m j)"
proof (induction kvs arbitrary: m)
  case (Cons kv kvs)
  have g: "bt_get (bt_insert k v m) j = (if j = k then Some v else bt_get m j)" for k v
    by (induction k v m rule: bt_insert.induct) (auto simp: bt_get_def)
  show ?case using Cons by (cases kv) (auto simp: g map_add_def split: option.splits)
qed simp

lemma os_release_reads:
  assumes "\<forall>(k, v) \<in> set kvs. key_ok k \<and> value_ok v"
  shows "os_get_value (os_release_parse (os_release_text kvs)) keys = find_map (map_of (rev kvs)) keys \<and>
    os_boot_label (os_release_parse (os_release_text kvs)) =
      Option.bind (find_map (map_of (rev kvs)) [''PRETTY_NAME'', ''NAME'', ''ID'']) (\<lambda>name.
        Some (case find_map (map_of (rev kvs)) [''VERSION_ID'', ''VERSION''] of Some version \<Rightarrow> name @ '' '' @ version | None \<Rightarrow> name))"
proof -
  have ln: "CHR 0x0A \<notin> set (assignment kv) \<and> strip_cr (assignment kv) = assignment kv \<and> \<not> starts_with ''#'' (trim (assignment kv)) \<and>
    split_once CHR ''='' (assignment kv) = Some (fst kv, quote_value (snd kv))" if "kv \<in> set kvs" for kv
    using assms that assignment_line [of "fst kv" "snd kv"] by (cases kv) auto
  have "os_release_text kvs = concat (map (\<lambda>l. l @ [CHR 0x0A]) (map assignment kvs))"
    by (simp add: os_release_text_def comp_def)
  then have "lines (os_release_text kvs) = map assignment kvs" using lines_concat [of "map assignment kvs"] ln by auto
  moreover have "filter (\<lambda>line. \<not> starts_with ''#'' (trim line)) (map assignment kvs) = map assignment kvs"
    using ln by (intro filter_True) auto
  moreover have "List.map_filter (split_once CHR ''='') (map assignment kvs) = map (\<lambda>(k, v). (k, quote_value v)) kvs"
    using ln by (induction kvs) (auto simp: List.map_filter_def)
  ultimately have m: "os_map (os_release_parse (os_release_text kvs)) =
      fold (\<lambda>(k, v). bt_insert k v) (map (\<lambda>(k, v). (k, quote_value v)) kvs) []"
    by (simp add: os_release_parse_def)
  have "rev (map (\<lambda>(k, v). (k, quote_value v)) kvs) = map (\<lambda>(k, v). (k, quote_value v)) (rev kvs)" by (simp add: rev_map)
  then have g: "bt_get (os_map (os_release_parse (os_release_text kvs))) j = map_option quote_value (map_of (rev kvs) j)" for j
    unfolding m fold_insert_get by (simp add: map_of_map bt_get_def split: option.split)
  have d: "Option.bind (bt_get (os_map (os_release_parse (os_release_text kvs))) j) dequote = map_of (rev kvs) j" for j
  proof (cases "map_of (rev kvs) j")
    case (Some v)
    then have "(j, v) \<in> set kvs" using map_of_SomeD by fastforce
    then show ?thesis using assms Some g dequote_quote [of v] by (auto simp: value_ok_def)
  qed (simp add: g)
  have "os_get_value (os_release_parse (os_release_text kvs)) ks = find_map (map_of (rev kvs)) ks" for ks
    unfolding os_get_value_def d by simp
  then show ?thesis by (simp add: os_boot_label_def get_pretty_name_def get_version_def)
qed

lemma valid_os_release_text: "\<forall>(k, v) \<in> set kvs. key_ok k \<and> value_ok v \<Longrightarrow> utf8_valid (os_release_text kvs)"
proof (induction kvs)
  case (Cons kv kvs)
  obtain k v where kv: "kv = (k, v)" by (cases kv)
  have "utf8_valid ''=''" "utf8_valid [QUOTE]" "utf8_valid [CHR 0x0A]" by (rule utf8_valid_ascii, simp add: QUOTE_def)+
  moreover have "utf8_valid k" "utf8_valid (concat (map escape_byte v))" using Cons.prems utf8_valid_ascii valid_escaped
    by (auto simp: kv key_ok_def value_ok_def)
  ultimately have "utf8_valid (k @ ''='' @ [QUOTE] @ concat (map escape_byte v) @ [QUOTE] @ [CHR 0x0A] @ os_release_text kvs)"
    using Cons by (intro utf8_valid_append) simp_all
  then show ?case by (simp add: kv os_release_text_def assignment_def quote_value_def)
qed (simp add: os_release_text_def utf8_valid_def)

text \<open>
  C32: An os-release file that assigns quoted values reads back: a lookup gives the value of the first key that is
  assigned, its last assignment, whatever quotes, backslashes or UTF-8 it holds, and the label is the name followed by the version.
\<close>

theorem os_release_roundtrip:
  assumes "\<forall>(k, v) \<in> set kvs. key_ok k \<and> value_ok v"
  shows "os_get_value (os_release_parse (os_release_text kvs)) keys = find_map (map_of (rev kvs)) keys \<and>
    os_boot_label (os_release_parse (os_release_text kvs)) =
      Option.bind (find_map (map_of (rev kvs)) [''PRETTY_NAME'', ''NAME'', ''ID'']) (\<lambda>name.
        Some (case find_map (map_of (rev kvs)) [''VERSION_ID'', ''VERSION''] of Some version \<Rightarrow> name @ '' '' @ version | None \<Rightarrow> name))"
  using os_release_reads [OF assms] .

lemma os_release_roundtrip_witness:
  "os_boot_label (os_release_parse (os_release_text [(''NAME'', ''a'' @ [QUOTE, CHR 0xC3, CHR 0xA9]), (''VERSION'', ''4'')])) =
    Some (''a'' @ [QUOTE, CHR 0xC3, CHR 0xA9] @ '' 4'')"
proof -
  let ?kvs = "[(''NAME'', ''a'' @ [QUOTE, CHR 0xC3, CHR 0xA9]), (''VERSION'', ''4'')]"
  have "list_all (\<lambda>(k, v). key_ok k \<and> value_ok v) ?kvs" by code_simp
  then have "\<forall>(k, v) \<in> set ?kvs. key_ok k \<and> value_ok v" by (simp only: list_all_iff)
  from os_release_roundtrip [OF this, of "[]"] show ?thesis by simp
qed

end
