(* ===== verification/Boot_Uki.thy ===== *)
theory Boot_Uki
  imports Boot_Os_Release
begin

text \<open>
  Models \<open>crates/composefs-boot/src/uki.rs\<close>: finding a section of a Unified Kernel Image, and reading the
  boot label and the command line from it.
\<close>

section \<open>The format\<close>

record coff_file_header =
  machine :: u16
  number_of_sections :: u16
  time_date_stamp :: u32
  pointer_to_symbol_table :: u32
  number_of_symbols :: u32
  size_of_optional_header :: u16
  coff_characteristics :: u16

record pe_header =
  pe_magic :: bytes
  coff :: coff_file_header

definition PE_MAGIC :: bytes where "PE_MAGIC = ''PE'' @ [CHR 0x00, CHR 0x00]"

record section_header =
  section_name :: bytes
  virtual_size :: u32
  virtual_address :: u32
  size_of_raw_data :: u32
  pointer_to_raw_data :: u32
  pointer_to_relocations :: u32
  pointer_to_line_numbers :: u32
  number_of_relocations :: u16
  number_of_line_numbers :: u16
  section_characteristics :: u32

abbreviation at :: "bytes \<Rightarrow> nat \<Rightarrow> nat \<Rightarrow> bytes" where "at b off n \<equiv> take n (drop off b)"

text \<open>\<open>ref_from_prefix\<close> of the three structures: they have no padding, and fail on a short slice.\<close>

definition dos_stub_pe_offset :: "bytes \<Rightarrow> u32 option" where
  "dos_stub_pe_offset b = (if length b < 64 then None else Some (get32 (at b 60 4)))"

definition read_pe_header :: "bytes \<Rightarrow> (pe_header \<times> bytes) option" where
  "read_pe_header b = (if length b < 24 then None else Some (\<lparr>pe_magic = at b 0 4,
     coff = \<lparr>machine = get16 (at b 4 2), number_of_sections = get16 (at b 6 2), time_date_stamp = get32 (at b 8 4),
       pointer_to_symbol_table = get32 (at b 12 4), number_of_symbols = get32 (at b 16 4),
       size_of_optional_header = get16 (at b 20 2), coff_characteristics = get16 (at b 22 2)\<rparr>\<rparr>, drop 24 b))"

definition read_section_header :: "bytes \<Rightarrow> section_header" where
  "read_section_header b = \<lparr>section_name = at b 0 8, virtual_size = get32 (at b 8 4), virtual_address = get32 (at b 12 4),
     size_of_raw_data = get32 (at b 16 4), pointer_to_raw_data = get32 (at b 20 4), pointer_to_relocations = get32 (at b 24 4),
     pointer_to_line_numbers = get32 (at b 28 4), number_of_relocations = get16 (at b 32 2),
     number_of_line_numbers = get16 (at b 34 2), section_characteristics = get32 (at b 36 4)\<rparr>"

fun read_sections :: "nat \<Rightarrow> bytes \<Rightarrow> section_header list option" where
  "read_sections 0 b = Some []"
| "read_sections (Suc n) b = (if length b < 40 then None
     else map_option (Cons (read_section_header (take 40 b))) (read_sections n (drop 40 b)))"

section \<open>Sections\<close>

datatype uki_error = PortableExecutableError | MissingSection bytes | UnicodeError bytes | NoName

text \<open>
  The function returns an option of a result; a name of more than 8 bytes makes it panic.
\<close>

datatype section_result = PePanic | PeNone | PeSome "uki_error + bytes"

text \<open>\<open>slice.get(a..)\<close> and \<open>slice.get(..n)\<close>.\<close>

definition get_from :: "bytes \<Rightarrow> nat \<Rightarrow> bytes option" where
  "get_from b a = (if a \<le> length b then Some (drop a b) else None)"

definition get_to :: "bytes \<Rightarrow> nat \<Rightarrow> bytes option" where
  "get_to b n = (if n \<le> length b then Some (take n b) else None)"

fun find_section :: "bytes \<Rightarrow> bytes \<Rightarrow> bytes \<Rightarrow> section_header list \<Rightarrow> section_result" where
  "find_section uki name key [] = PeSome (Inl (MissingSection name))"
| "find_section uki name key (h # hs) = (if section_name h = key then
       (case Option.bind (get_from uki (unat (pointer_to_raw_data h))) (\<lambda>b. get_to b (unat (virtual_size h))) of
          None \<Rightarrow> PeNone | Some bs \<Rightarrow> PeSome (Inr bs))
     else find_section uki name key hs)"

definition get_section :: "bytes \<Rightarrow> bytes \<Rightarrow> section_result" where
  "get_section uki name = (if 8 < length name then PePanic else
     let section_key = name @ replicate (8 - length name) CHR 0x00 in
     case Option.bind (dos_stub_pe_offset uki) (\<lambda>pe_offset.
       Option.bind (get_from uki (unat pe_offset)) (\<lambda>rest.
       Option.bind (read_pe_header rest) (\<lambda>(pe_header, rest).
         if pe_magic pe_header \<noteq> PE_MAGIC then None
         else Option.bind (get_from rest (unat (size_of_optional_header (coff pe_header)))) (\<lambda>rest.
           read_sections (unat (number_of_sections (coff pe_header))) rest)))) of
       None \<Rightarrow> PeNone
     | Some sections \<Rightarrow> find_section uki name section_key sections)"

text \<open>None: a panic.\<close>

definition get_text_section :: "bytes \<Rightarrow> bytes \<Rightarrow> (uki_error + bytes) option" where
  "get_text_section uki name = (case get_section uki name of
       PePanic \<Rightarrow> None
     | PeNone \<Rightarrow> Some (Inl PortableExecutableError)
     | PeSome r \<Rightarrow> Some (rbind r (\<lambda>b. if utf8_valid b then Inr b else Inl (UnicodeError name))))"

definition uki_boot_label :: "bytes \<Rightarrow> (uki_error + bytes) option" where
  "uki_boot_label uki = map_option (\<lambda>r. rbind r (\<lambda>osrel. ok_or (os_boot_label (os_release_parse osrel)) NoName))
     (get_text_section uki ''.osrel'')"

definition uki_cmdline :: "bytes \<Rightarrow> (uki_error + bytes) option" where
  "uki_cmdline uki = get_text_section uki ''.cmdline''"

section \<open>Images that have sections\<close>

definition header_of :: "bytes \<Rightarrow> nat \<Rightarrow> nat \<Rightarrow> bytes" where
  "header_of name n off = name @ replicate (8 - length name) CHR 0x00 @ le32 (of_nat n) @ le32 0 @ le32 (of_nat n) @ le32 (of_nat off) @
     replicate 16 CHR 0x00"

fun headers_of :: "nat \<Rightarrow> (bytes \<times> bytes) list \<Rightarrow> bytes" where
  "headers_of off [] = []"
| "headers_of off ((name, d) # ss) = header_of name (length d) off @ headers_of (off + length d) ss"

text \<open>An image with an optional header, the sections' headers, and their contents one after the other.\<close>

definition uki_image :: "bytes \<Rightarrow> (bytes \<times> bytes) list \<Rightarrow> bytes" where
  "uki_image opt ss = replicate 60 CHR 0x00 @ le32 64 @
     PE_MAGIC @ le16 0 @ le16 (of_nat (length ss)) @ replicate 12 CHR 0x00 @ le16 (of_nat (length opt)) @ le16 0 @ opt @
     headers_of (88 + length opt + 40 * length ss) ss @ concat (map snd ss)"

definition section_name_ok :: "bytes \<Rightarrow> bool" where
  "section_name_ok n \<longleftrightarrow> length n \<le> 8 \<and> CHR 0x00 \<notin> set n"

lemma length_header_of [simp]: "length name \<le> 8 \<Longrightarrow> length (header_of name n off) = 40"
  by (simp add: header_of_def)

lemma read_header_of:
  assumes "length name \<le> 8"
  shows "read_section_header (header_of name n off) = \<lparr>section_name = name @ replicate (8 - length name) CHR 0x00,
    virtual_size = of_nat n, virtual_address = 0, size_of_raw_data = of_nat n, pointer_to_raw_data = of_nat off,
    pointer_to_relocations = 0, pointer_to_line_numbers = 0, number_of_relocations = 0, number_of_line_numbers = 0,
    section_characteristics = 0\<rparr>"
proof -
  define key where "key = name @ replicate (8 - length name) CHR 0x00"
  have k: "length key = 8" using assms by (simp add: key_def)
  have z: "get32 (replicate 4 CHR 0x00) = 0" "get16 (replicate 2 CHR 0x00) = 0" by (simp_all add: get32_def get16_def eval_nat_numeral)
  have h: "header_of name n off = key @ le32 (of_nat n) @ le32 0 @ le32 (of_nat n) @ le32 (of_nat off) @ replicate 16 CHR 0x00"
    by (simp add: header_of_def key_def)
  show ?thesis unfolding read_section_header_def h key_def [symmetric]
    by (simp add: k z min_def)
qed

abbreviation section_key :: "bytes \<Rightarrow> bytes" where
  "section_key name \<equiv> name @ replicate (8 - length name) CHR 0x00"

lemma section_key_eq: "section_name_ok a \<Longrightarrow> section_name_ok b \<Longrightarrow> section_key a = section_key b \<longleftrightarrow> a = b"
proof
  assume ok: "section_name_ok a" "section_name_ok b" and "section_key a = section_key b"
  then have "takeWhile (\<lambda>c. c \<noteq> CHR 0x00) (section_key a) = takeWhile (\<lambda>c. c \<noteq> CHR 0x00) (section_key b)" by simp
  moreover have "takeWhile (\<lambda>c. c \<noteq> CHR 0x00) (section_key n) = n" if "section_name_ok n" for n
    using that by (auto simp: section_name_ok_def takeWhile_append takeWhile_replicate)
  ultimately show "a = b" using ok by simp
qed simp

fun sections_at :: "nat \<Rightarrow> (bytes \<times> bytes) list \<Rightarrow> section_header list" where
  "sections_at off [] = []"
| "sections_at off ((name, d) # ss) = read_section_header (header_of name (length d) off) # sections_at (off + length d) ss"

lemma read_sections_headers:
  "\<forall>(n, d) \<in> set ss. length n \<le> 8 \<Longrightarrow> read_sections (length ss) (headers_of off ss @ rest) = Some (sections_at off ss)"
proof (induction off ss rule: headers_of.induct)
  case (2 off name d ss)
  then have n: "length name \<le> 8" and ih: "read_sections (length ss) (headers_of (off + length d) ss @ rest) = Some (sections_at (off + length d) ss)"
    by auto
  have l: "length (header_of name (length d) off) = 40" using n by simp
  show ?case using ih by (simp add: l)
qed simp

lemma find_section_at:
  assumes "section_name_ok name" "\<forall>(n, d) \<in> set ss. section_name_ok n"
    "length pre + length (concat (map snd ss)) < 2 ^ 32" "uki = pre @ concat (map snd ss)"
  shows "find_section uki name (section_key name) (sections_at (length pre) ss) =
    PeSome (case map_of ss name of Some d \<Rightarrow> Inr d | None \<Rightarrow> Inl (MissingSection name))"
  using assms(2-)
proof (induction ss arbitrary: pre)
  case (Cons s ss)
  obtain n d where s: "s = (n, d)" by (cases s)
  have ok: "section_name_ok n" "length n \<le> 8" using Cons.prems(1) by (simp_all add: s section_name_ok_def)
  have small: "unat (of_nat (length pre) :: u32) = length pre" "unat (of_nat (length d) :: u32) = length d"
    using Cons.prems(2) by (simp_all add: s unat_of_nat)
  note h = read_header_of [OF ok(2), of "length d" "length pre"]
  show ?case
  proof (cases "n = name")
    case True
    note h' = h [unfolded True]
    show ?thesis using Cons.prems(3) by (simp add: s True h' small get_from_def get_to_def)
  next
    case False
    then have k: "section_key n \<noteq> section_key name" using section_key_eq [OF ok(1) assms(1)] by simp
    have ih: "find_section uki name (section_key name) (sections_at (length (pre @ d)) ss) =
        PeSome (case map_of ss name of Some d \<Rightarrow> Inr d | None \<Rightarrow> Inl (MissingSection name))"
      using Cons.prems by (intro Cons.IH) (auto simp: s)
    then show ?thesis using k False by (simp add: s h)
  qed
qed simp

lemma get_section_image:
  assumes names: "section_name_ok name" "\<forall>(n, d) \<in> set ss. section_name_ok n" and opt: "length opt < 2 ^ 16"
    and ss: "length ss < 2 ^ 16" "length (uki_image opt ss) < 2 ^ 32"
  shows "get_section (uki_image opt ss) name = PeSome (case map_of ss name of Some d \<Rightarrow> Inr d | None \<Rightarrow> Inl (MissingSection name))"
proof -
  let ?u = "uki_image opt ss"
  let ?off = "88 + length opt + 40 * length ss"
  define tail where "tail = opt @ headers_of ?off ss @ concat (map snd ss)"
  define hd24 where "hd24 = PE_MAGIC @ le16 0 @ le16 (of_nat (length ss)) @ replicate 12 CHR 0x00 @ le16 (of_nat (length opt)) @ le16 0"
  have l24: "length hd24 = 24" by (simp add: hd24_def PE_MAGIC_def)
  have u: "?u = (replicate 60 CHR 0x00 @ le32 64) @ hd24 @ tail" by (simp add: uki_image_def hd24_def tail_def)
  have lu: "64 \<le> length ?u" by (simp add: u)
  have stub: "dos_stub_pe_offset ?u = Some 64" using lu by (simp add: dos_stub_pe_offset_def u)
  have rest: "get_from ?u 64 = Some (hd24 @ tail)" using lu by (simp add: get_from_def u)
  obtain ph where ph: "read_pe_header (hd24 @ tail) = Some (ph, tail)" "pe_magic ph = PE_MAGIC"
    "number_of_sections (coff ph) = of_nat (length ss)" "size_of_optional_header (coff ph) = of_nat (length opt)"
  proof -
    have "at (hd24 @ tail) 0 4 = PE_MAGIC" "at (hd24 @ tail) 6 2 = le16 (of_nat (length ss))"
      "at (hd24 @ tail) 20 2 = le16 (of_nat (length opt))"
      by (simp_all add: hd24_def PE_MAGIC_def)
    then show ?thesis using that l24 by (auto simp: read_pe_header_def)
  qed
  have n: "unat (of_nat (length ss) :: u16) = length ss" "unat (of_nat (length opt) :: u16) = length opt"
    using ss(1) opt by (simp_all add: unat_of_nat)
  have ro: "get_from tail (length opt) = Some (headers_of ?off ss @ concat (map snd ss))"
    by (simp add: get_from_def tail_def)
  have len8: "\<forall>(n, d) \<in> set ss. length n \<le> 8" using names(2) by (auto simp: section_name_ok_def)
  note rs = read_sections_headers [OF len8, of ?off "concat (map snd ss)"]
  have lh: "length (headers_of off ss) = 40 * length ss" for off using len8 by (induction off ss rule: headers_of.induct) auto
  define pre where "pre = (replicate 60 CHR 0x00 @ le32 64) @ hd24 @ opt @ headers_of ?off ss"
  have pre: "?u = pre @ concat (map snd ss)" "length pre = ?off"
    by (simp_all add: pre_def u tail_def l24 lh)
  have f: "find_section ?u name (section_key name) (sections_at (length pre) ss) =
      PeSome (case map_of ss name of Some d \<Rightarrow> Inr d | None \<Rightarrow> Inl (MissingSection name))"
    using ss(2) pre(1) by (intro find_section_at names) auto
  have "\<not> 8 < length name" using names(1) by (simp add: section_name_ok_def)
  then show ?thesis
    using stub rest ph n ro rs f unfolding get_section_def Let_def pre(2) by simp
qed

definition label_of :: "(bytes \<times> bytes) list \<Rightarrow> bytes option" where
  "label_of kvs = Option.bind (find_map (map_of (rev kvs)) [''PRETTY_NAME'', ''NAME'', ''ID'']) (\<lambda>name.
     Some (case find_map (map_of (rev kvs)) [''VERSION_ID'', ''VERSION''] of Some version \<Rightarrow> name @ '' '' @ version | None \<Rightarrow> name))"

text \<open>
  C33: A section of an image is found by its name, however the optional header and the other sections look, and a missing one
  is reported; the boot label is made of the name and the version that \<open>.osrel\<close> assigns, and the command line is what \<open>.cmdline\<close> holds.
\<close>

theorem uki_sections_roundtrip:
  assumes "\<forall>(n, d) \<in> set ss. section_name_ok n" "length opt < 2 ^ 16" "length ss < 2 ^ 16" "length (uki_image opt ss) < 2 ^ 32"
    and "section_name_ok name" and "map_of ss ''.osrel'' = Some (os_release_text kvs)" "\<forall>(k, v) \<in> set kvs. key_ok k \<and> value_ok v"
  shows "get_section (uki_image opt ss) name = PeSome (case map_of ss name of Some d \<Rightarrow> Inr d | None \<Rightarrow> Inl (MissingSection name)) \<and>
    uki_boot_label (uki_image opt ss) = Some (ok_or (label_of kvs) NoName) \<and>
    uki_cmdline (uki_image opt ss) = Some (case map_of ss ''.cmdline'' of None \<Rightarrow> Inl (MissingSection ''.cmdline'')
      | Some d \<Rightarrow> if utf8_valid d then Inr d else Inl (UnicodeError ''.cmdline''))"
proof -
  note g = get_section_image [OF _ assms(1-4)]
  have "section_name_ok ''.osrel''" "section_name_ok ''.cmdline''" by (simp_all add: section_name_ok_def)
  then have n: "get_section (uki_image opt ss) ''.osrel'' = PeSome (Inr (os_release_text kvs))"
    "get_section (uki_image opt ss) ''.cmdline'' = PeSome (case map_of ss ''.cmdline'' of Some d \<Rightarrow> Inr d | None \<Rightarrow> Inl (MissingSection ''.cmdline''))"
    using g assms(6) by simp_all
  have "uki_boot_label (uki_image opt ss) = Some (ok_or (label_of kvs) NoName)"
    using n(1) valid_os_release_text [OF assms(7)] os_release_reads [OF assms(7), of "[]"]
    by (simp add: uki_boot_label_def get_text_section_def label_of_def)
  moreover have "uki_cmdline (uki_image opt ss) = Some (case map_of ss ''.cmdline'' of None \<Rightarrow> Inl (MissingSection ''.cmdline'')
      | Some d \<Rightarrow> if utf8_valid d then Inr d else Inl (UnicodeError ''.cmdline''))"
    using n(2) by (simp add: uki_cmdline_def get_text_section_def split: option.splits)
  ultimately show ?thesis using g [OF assms(5)] by blast
qed

lemma uki_sections_roundtrip_witness:
  "uki_boot_label (uki_image ''opt'' [(''.text'', ''code''), (''.osrel'', os_release_text [(''ID'', ''demo'')])]) = Some (Inr ''demo'') \<and>
   uki_cmdline (uki_image ''opt'' [(''.text'', ''code''), (''.osrel'', os_release_text [(''ID'', ''demo'')])]) = Some (Inl (MissingSection ''.cmdline''))"
proof -
  let ?kvs = "[(''ID'', ''demo'')]" and ?ss = "[(''.text'', ''code''), (''.osrel'', os_release_text [(''ID'', ''demo'')])]"
  have k: "list_all (\<lambda>(k, v). key_ok k \<and> value_ok v) ?kvs" by code_simp
  then have kvs: "\<forall>(k, v) \<in> set ?kvs. key_ok k \<and> value_ok v" by (simp only: list_all_iff)
  have n: "\<forall>(n, d) \<in> set ?ss. section_name_ok n" "section_name_ok ''.text''" by (simp_all add: section_name_ok_def)
  have len: "length (uki_image ''opt'' ?ss) < 2 ^ 32"
    by (simp add: uki_image_def PE_MAGIC_def header_of_def os_release_text_def assignment_def quote_value_def escape_byte_def QUOTE_def ESCAPE_def)
  show ?thesis using uki_sections_roundtrip [OF n(1) _ _ len n(2) _ kvs] by (simp add: label_of_def ok_or_def)
qed

end
