(* ===== verification/Boot_Write.thy ===== *)
theory Boot_Write
  imports Boot_Transform Boot_Uki
begin

text \<open>
  Models \<open>crates/composefs-boot/src/write_boot.rs\<close>: writing a boot entry to the boot partition. The partition
  belongs to the host: the operations on it are recorded in the order in which they complete, and whether one fails is a
  parameter that may depend on everything that was done before. Of an operation that fails the log has nothing: on the
  disk, \<open>create_dir_all\<close> may have made some of the directories, and \<open>write\<close> a part of the file.
\<close>

section \<open>The host\<close>

datatype host_op = CreateDirAll bytes | WriteFile bytes bytes

type_synonym host = "host_op list \<Rightarrow> host_op \<Rightarrow> Fsverity.errno option"

datatype write_error =
    WriteRead boot_error
  | HostError Fsverity.errno
  | NotBelowRoot bytes
  | WrongComposefs bytes bytes
  | CmdlineForUki
  | WriteUki uki_error
  | WriteCmdline cmdline_error

type_synonym ('z, 'a) boot_io = "(write_error, 'z repo_scheme \<times> host_op list, 'a) io"

definition host_call :: "host \<Rightarrow> host_op \<Rightarrow> ('z, unit) boot_io" where
  "host_call W op = (\<lambda>(s, ops). case W ops op of
       Some e \<Rightarrow> Some (Inl (HostError e), (s, ops))
     | None \<Rightarrow> Some (Inr (), (s, ops @ [op])))"

definition repo_call :: "(boot_error, 'z repo_scheme, 'a) io \<Rightarrow> ('z, 'a) boot_io" where
  "repo_call m = (\<lambda>(s, ops). case m s of None \<Rightarrow> None | Some (r, s') \<Rightarrow> Some (map_err WriteRead r, (s', ops)))"

text \<open>None is a panic.\<close>

definition io_panic :: "('e, 's, 'a) io" where "io_panic = (\<lambda>s. None)"

text \<open>
  \<open>Path::strip_prefix("/")\<close>: the rest of an absolute path, without the separators and "." components at its ends.
\<close>

definition strip_root :: "bytes \<Rightarrow> bytes option" where
  "strip_root p = (if has_root p then Some (join_char SLASH (dropWhile (\<lambda>s. \<not> real_piece s) (trim_right (path_body p)))) else None)"

section \<open>Writing\<close>

fun write_files :: "host \<Rightarrow> hex_crate \<Rightarrow> kernel \<Rightarrow> hash_alg \<Rightarrow> bytes \<Rightarrow> (bytes \<times> regular_file) list \<Rightarrow> ('z, unit) boot_io" where
  "write_files W hx K H bootdir [] = io_return ()"
| "write_files W hx K H bootdir ((filename, f) # fs) =
     io_bind (io_lift (ok_or (strip_root filename) (NotBelowRoot filename))) (\<lambda>rel.
       let file_path = push bootdir rel in
       case Rust_Path.parent file_path of
         None \<Rightarrow> io_panic
       | Some dir \<Rightarrow>
           io_bind (host_call W (CreateDirAll dir)) (\<lambda>_.
           io_bind (repo_call (boot_read_file hx K H f)) (\<lambda>d.
           io_bind (host_call W (WriteFile file_path d)) (\<lambda>_.
             write_files W hx K H bootdir fs))))"

definition t1_bootdir :: "bytes \<Rightarrow> bytes option \<Rightarrow> bytes" where
  "t1_bootdir bootdir boot_subdir = (case boot_subdir of
       Some subdir \<Rightarrow> push bootdir (case strip_root subdir of Some p \<Rightarrow> p | None \<Rightarrow> subdir)
     | None \<Rightarrow> bootdir)"

definition conf_text :: "boot_entry_file \<Rightarrow> bytes" where
  "conf_text e = join_char CHR 0x0A (entry_lines e) @ [CHR 0x0A]"

definition write_t1_simple :: "host \<Rightarrow> hex_crate \<Rightarrow> kernel \<Rightarrow> hash_alg \<Rightarrow> type1_entry \<Rightarrow> bytes \<Rightarrow> bytes option \<Rightarrow> bytes \<Rightarrow> bool \<Rightarrow>
    bytes list \<Rightarrow> ('z, unit) boot_io" where
  "write_t1_simple W hx K H t1 bootdir boot_subdir root_id ins cmdline_extra =
     (let dir = t1_bootdir bootdir boot_subdir;
          entry = adjust_cmdline (t1_entry t1) (Some (to_hex hx root_id)) ins cmdline_extra;
          loader_entries = push dir ''loader/entries'' in
      io_bind (write_files W hx K H dir (t1_files t1)) (\<lambda>_.
      io_bind (host_call W (CreateDirAll loader_entries)) (\<lambda>_.
        host_call W (WriteFile (push loader_entries (t1_filename t1)) (conf_text entry)))))"

definition write_t2_simple :: "host \<Rightarrow> hex_crate \<Rightarrow> kernel \<Rightarrow> hash_alg \<Rightarrow> type2_entry \<Rightarrow> bytes \<Rightarrow> bytes \<Rightarrow> ('z, unit) boot_io" where
  "write_t2_simple W hx K H t2 bootdir root_id =
     (let efi_linux = push bootdir ''EFI/Linux'' in
      io_bind (host_call W (CreateDirAll efi_linux)) (\<lambda>_.
      let filename = push efi_linux (file_path t2) in
      io_bind (repo_call (boot_read_file hx K H (t2_file t2))) (\<lambda>d.
      case uki_cmdline d of None \<Rightarrow> io_panic | Some c \<Rightarrow>
      io_bind (io_lift (map_err WriteUki c)) (\<lambda>cmdline.
      io_bind (io_lift (map_err WriteCmdline (get_cmdline_composefs hx H cmdline))) (\<lambda>(composefs, _).
      io_bind (io_lift (ensure_r (composefs = root_id) (WrongComposefs composefs root_id))) (\<lambda>_.
        host_call W (WriteFile filename d)))))))"

definition write_boot_simple :: "host \<Rightarrow> hex_crate \<Rightarrow> kernel \<Rightarrow> hash_alg \<Rightarrow> boot_entry \<Rightarrow> bytes \<Rightarrow> bool \<Rightarrow> bytes \<Rightarrow> bytes option \<Rightarrow>
    bytes option \<Rightarrow> bytes list \<Rightarrow> ('z, unit) boot_io" where
  "write_boot_simple W hx K H entry root_id ins boot_partition boot_subdir entry_id cmdline_extra = (case entry of
       Type1 t1 \<Rightarrow> (let t1 = (case entry_id of Some name \<Rightarrow> relocate boot_subdir name t1 | None \<Rightarrow> t1) in
         write_t1_simple W hx K H t1 boot_partition boot_subdir root_id ins cmdline_extra)
     | Type2 t2 \<Rightarrow> (let t2 = (case entry_id of Some name \<Rightarrow> type2_rename name t2 | None \<Rightarrow> t2) in
         io_bind (io_lift (ensure_r (cmdline_extra = []) CmdlineForUki)) (\<lambda>_. write_t2_simple W hx K H t2 boot_partition root_id))
     | UsrLibModulesVmLinuz v \<Rightarrow> (case into_type1 entry_id v of None \<Rightarrow> io_panic | Some t1 \<Rightarrow>
         let t1 = (case entry_id of Some name \<Rightarrow> relocate boot_subdir name t1 | None \<Rightarrow> t1) in
         write_t1_simple W hx K H t1 boot_partition boot_subdir root_id ins cmdline_extra))"

section \<open>What is written\<close>

text \<open>The contents of a file of the tree, in a repository in the state \<open>s\<close>.\<close>

definition has_contents :: "hex_crate \<Rightarrow> kernel \<Rightarrow> hash_alg \<Rightarrow> 'z repo_scheme \<Rightarrow> regular_file \<Rightarrow> bytes \<Rightarrow> bool" where
  "has_contents hx K H s f d = (case f of
       Inline x \<Rightarrow> d = x
     | External oid sz \<Rightarrow> holds_object hx K H s oid d \<and> sz = of_nat (length d))"

lemma boot_read_cases:
  "boot_read_file hx K H f s = Some (r, s') \<Longrightarrow> s' = s \<and> (\<forall>d. r = Inr d \<longrightarrow> has_contents hx K H s f d)"
  by (auto simp: boot_read_file_def has_contents_def read_holds read_object_def open_object_def io_bind_def Let_def
      rbind_eq_Inr_iff map_err_def rbind_def ensure_r_def split: regular_file.splits option.splits sum.splits prod.splits if_splits)

lemma io_bind_cases:
  assumes "io_bind m f s = Some (r, s2)"
  obtains (Err) e where "m s = Some (Inl e, s2)" "r = Inl e" | (Ok) x s1 where "m s = Some (Inr x, s1)" "f x s1 = Some (r, s2)"
  using assms by (auto simp: io_bind_def split: option.splits prod.splits sum.splits)

lemma host_call_cases:
  assumes "host_call W op (s, ops) = Some (r, (s', ops'))"
  shows "s' = s \<and> (r = Inr () \<and> ops' = ops @ [op] \<or> (\<exists>e. r = Inl e) \<and> ops' = ops)"
  using assms by (auto simp: host_call_def split: option.splits)

definition file_ops :: "bytes \<Rightarrow> bytes \<times> bytes \<Rightarrow> host_op list" where
  "file_ops dir = (\<lambda>(filename, d). let p = push dir (the (strip_root filename)) in [CreateDirAll (the (Rust_Path.parent p)), WriteFile p d])"

definition files_ops :: "bytes \<Rightarrow> (bytes \<times> regular_file) list \<Rightarrow> bytes list \<Rightarrow> host_op list" where
  "files_ops dir fs ds = concat (map (file_ops dir) (zip (map fst fs) ds))"

lemma files_ops_simps [simp]:
  "files_ops dir [] ds = []" "files_ops dir ((n, f) # fs) (d # ds) = file_ops dir (n, d) @ files_ops dir fs ds"
  by (simp_all add: files_ops_def)

text \<open>
  The operations that were done, and for whose files: those of the files \<open>fs1\<close>, and at most the directory of one
  more.
\<close>

definition files_written :: "hex_crate \<Rightarrow> kernel \<Rightarrow> hash_alg \<Rightarrow> 'z repo_scheme \<Rightarrow> bytes \<Rightarrow> (bytes \<times> regular_file) list \<Rightarrow> host_op list \<Rightarrow> host_op list \<Rightarrow> bool" where
  "files_written hx K H s dir fs new rest \<longleftrightarrow>
     (\<exists>ds. list_all2 (\<lambda>e d. has_contents hx K H s (snd e) d) fs ds \<and> new = files_ops dir fs ds @ rest)"

lemma files_written_Nil: "files_written hx K H s dir [] rest rest"
  by (simp add: files_written_def)

lemma files_written_Cons:
  assumes "files_written hx K H s dir fs new rest" "has_contents hx K H s f d" "strip_root n = Some rel"
    "Rust_Path.parent (push dir rel) = Some q"
  shows "files_written hx K H s dir ((n, f) # fs) ([CreateDirAll q, WriteFile (push dir rel) d] @ new) rest"
proof -
  obtain ds where ds: "list_all2 (\<lambda>e d. has_contents hx K H s (snd e) d) fs ds" "new = files_ops dir fs ds @ rest"
    using assms(1) by (auto simp: files_written_def)
  then show ?thesis using assms(2-4) unfolding files_written_def
    by (intro exI [of _ "d # ds"]) (simp add: file_ops_def)
qed

definition only_directory :: "host_op list \<Rightarrow> bool" where
  "only_directory rest \<longleftrightarrow> rest = [] \<or> (\<exists>y. rest = [CreateDirAll y])"

lemma write_files_result:
  "write_files W hx K H dir fs (s, ops) = Some (r, (s', ops')) \<Longrightarrow>
     s' = s \<and> (\<exists>fs1 new rest. prefix fs1 fs \<and> files_written hx K H s dir fs1 new rest \<and> ops' = ops @ new \<and>
       (case r of Inr _ \<Rightarrow> fs1 = fs \<and> rest = [] | Inl _ \<Rightarrow> only_directory rest))"
proof (induction fs arbitrary: ops)
  case Nil
  then show ?case by (auto simp: io_return_def intro!: exI [of _ "[]"] files_written_Nil)
next
  case (Cons e fs)
  obtain n f where e: "e = (n, f)" by (cases e)
  have stop: ?case if "s' = s" "r = Inl x" "ops' = ops @ rest" "only_directory rest" for x rest
    using that by (auto intro!: exI [of _ "[]"] exI [of _ rest] files_written_Nil)
  show ?case
  proof (cases "strip_root n")
    case None
    then show ?thesis using Cons.prems e by (intro stop [where rest = "[]"]) (auto simp: only_directory_def)
  next
    case (Some rel)
    show ?thesis
    proof (cases "Rust_Path.parent (push dir rel)")
      case None
      then show ?thesis using Cons.prems e Some by (simp add: io_panic_def)
    next
      case q: (Some q)
      let ?rest = "\<lambda>_. io_bind (repo_call (boot_read_file hx K H f)) (\<lambda>d.
           io_bind (host_call W (WriteFile (push dir rel) d)) (\<lambda>_. write_files W hx K H dir fs))"
      have "io_bind (host_call W (CreateDirAll q)) ?rest (s, ops) = Some (r, (s', ops'))"
        using Cons.prems e Some q by (simp add: Let_def)
      then show ?thesis
      proof (cases rule: io_bind_cases)
        case (Err x)
        then show ?thesis using host_call_cases [OF Err(1)] by (intro stop [where rest = "[]"]) (auto simp: only_directory_def)
      next
        case (Ok u s1)
        then have s1: "s1 = (s, ops @ [CreateDirAll q])" using host_call_cases by (cases s1) fastforce
        from Ok(2) show ?thesis
        proof (cases rule: io_bind_cases)
          case (Err x)
          then show ?thesis using s1 boot_read_cases [of hx K H f s]
            by (intro stop [where rest = "[CreateDirAll q]"]) (auto simp: repo_call_def only_directory_def split: option.splits prod.splits)
        next
          case rd: (Ok d s2)
          then have s2: "s2 = (s, ops @ [CreateDirAll q])" and d: "has_contents hx K H s f d"
            using s1 boot_read_cases [of hx K H f s] by (auto simp: repo_call_def map_err_def split: option.splits prod.splits sum.splits)
          from rd(2) show ?thesis
          proof (cases rule: io_bind_cases)
            case (Err x)
            then show ?thesis using s2 host_call_cases [of W "WriteFile (push dir rel) d" s "ops @ [CreateDirAll q]"]
              by (intro stop [where rest = "[CreateDirAll q]"]) (auto simp: only_directory_def)
          next
            case wr: (Ok v s3)
            then have s3: "s3 = (s, ops @ [CreateDirAll q, WriteFile (push dir rel) d])"
              using s2 host_call_cases by (cases s3) fastforce
            obtain fs1 new rest where w: "s' = s" "prefix fs1 fs" "files_written hx K H s dir fs1 new rest"
              "ops' = (ops @ [CreateDirAll q, WriteFile (push dir rel) d]) @ new"
              "case r of Inr _ \<Rightarrow> fs1 = fs \<and> rest = [] | Inl _ \<Rightarrow> only_directory rest"
              using Cons.IH [OF wr(2) [unfolded s3]] by blast
            show ?thesis using w files_written_Cons [OF w(3) d Some q] e
              by (intro conjI exI [of _ "(n, f) # fs1"] exI [of _ "[CreateDirAll q, WriteFile (push dir rel) d] @ new"] exI [of _ rest])
                (auto split: sum.splits)
          qed
        qed
      qed
    qed
  qed
qed

section \<open>The text of an entry\<close>

definition single_lines :: "boot_entry_file \<Rightarrow> bool" where
  "single_lines e \<longleftrightarrow> (\<forall>l \<in> set (entry_lines e). CHR 0x0A \<notin> set l)"

lemma set_replace_range: "set (replace_range s a b new) \<subseteq> set s \<union> set new"
  by (auto simp: replace_range_def dest: in_set_takeD in_set_dropD)

lemma edit_lines_single:
  "edit_lines key arg ls = Some ls' \<Longrightarrow> \<forall>l \<in> set ls. NL \<notin> set l \<Longrightarrow> NL \<notin> set arg \<Longrightarrow> NL \<noteq> CHR '' '' \<Longrightarrow>
     \<forall>l \<in> set ls'. NL \<notin> set l"
proof (induction ls arbitrary: ls')
  case (Cons line ls)
  show ?case
  proof (cases "strip_ble_key line ''options''")
    case (Some c)
    have "NL \<notin> set (edit_options key arg line c)"
      using Cons.prems(2-4) set_replace_range [of line _ _ arg] by (auto simp: edit_options_def Let_def split: option.splits)
    then show ?thesis using Cons.prems Some by auto
  qed (use Cons in auto)
qed simp

lemma add_cmdline_single: "single_lines e \<Longrightarrow> CHR 0x0A \<notin> set arg \<Longrightarrow> single_lines (add_cmdline e arg)"
  using edit_lines_single [of "arg_key arg" arg "entry_lines e" _ "CHR 0x0A"]
  by (auto simp: single_lines_def add_cmdline_def split: option.splits)

lemma add_all_single: "single_lines e \<Longrightarrow> \<forall>x \<in> set xs. CHR 0x0A \<notin> set x \<Longrightarrow> single_lines (fold (\<lambda>x e. add_cmdline e x) xs e)"
  by (induction xs arbitrary: e) (simp_all add: add_cmdline_single)

lemma plain_arg_line: "plain_arg a \<Longrightarrow> CHR 0x0A \<notin> set a"
  by (auto simp: plain_arg_def is_ascii_whitespace_def)

lemma join_terminated: "ls \<noteq> [] \<Longrightarrow> join_char d ls @ [d] = join_char d (ls @ [[]])"
  by (induction d ls rule: join_char.induct) auto

lemma entry_new_content:
  assumes "single_lines e" "entry_lines e \<noteq> []"
  shows "entry_new (conf_text e) = e"
proof -
  have "split_char CHR 0x0A (conf_text e) = entry_lines e @ [[]]"
    unfolding conf_text_def join_terminated [OF assms(2)]
    using assms(1) by (intro split_char_join) (auto simp: single_lines_def)
  then show ?thesis by (simp add: entry_new_def split_terminator_def)
qed

lemma adjusted_text_reads:
  assumes hx: "hex_laws hx" "length oid = size_of H" and e: "Boot_Cmdline.entry_ok e" "single_lines e"
    and extra: "\<forall>x \<in> set extra. plain_arg x \<and> \<not> starts_with (arg_key x) (make_cmdline_composefs (to_hex hx oid) ins) \<and>
      strip_prefix ''composefs='' x = None"
  shows "\<exists>v. get_value (entry_new (conf_text (adjust_cmdline e (Some (to_hex hx oid)) ins extra))) ''options'' = Some v \<and>
    get_cmdline_composefs hx H v = Inr (oid, ins)"
proof -
  let ?e = "adjust_cmdline e (Some (to_hex hx oid)) ins extra"
  obtain v where v: "get_value ?e ''options'' = Some v" "get_cmdline_composefs hx H v = Inr (oid, ins)"
    using adjust_cmdline_reads_back [OF hx e(1) extra] by blast
  have "single_lines ?e"
    unfolding adjust_cmdline_def Let_def using e(2) extra plain_arg_line composefs_plain [OF hx(1), of oid ins]
    by (auto intro!: add_all_single add_cmdline_single)
  moreover have "entry_lines ?e \<noteq> []" using v(1) by (auto simp: get_value_def)
  ultimately show ?thesis using v by (simp add: entry_new_content)
qed

section \<open>The order of the operations\<close>

text \<open>
  C39: writing a boot entry of type 1 leaves the repository as it was and writes the files of the entry first, each with the
  contents that the tree gives it and after the directory it lies in. The loader entry is the last operation and
  is written only when every file was; its text reads back with the digest of the root as its composefs argument. After an
  error neither the loader entry nor anything else but files of the entry was written.
\<close>

theorem write_t1_order:
  assumes w: "write_t1_simple W hx K H t1 bootdir boot_subdir root_id ins extra (s, ops) = Some (r, (s', ops'))"
    and hx: "hex_laws hx" "length root_id = size_of H" and e: "Boot_Cmdline.entry_ok (t1_entry t1)" "single_lines (t1_entry t1)"
    and extra: "\<forall>x \<in> set extra. plain_arg x \<and> \<not> starts_with (arg_key x) (make_cmdline_composefs (to_hex hx root_id) ins) \<and>
      strip_prefix ''composefs='' x = None"
  shows "s' = s \<and> (\<exists>fs1 new rest. prefix fs1 (t1_files t1) \<and> ops' = ops @ new \<and>
    files_written hx K H s (t1_bootdir bootdir boot_subdir) fs1 new rest \<and>
    (case r of
       Inl _ \<Rightarrow> only_directory rest
     | Inr _ \<Rightarrow> fs1 = t1_files t1 \<and> (\<exists>entry_text v. rest = [CreateDirAll (push (t1_bootdir bootdir boot_subdir) ''loader/entries''),
           WriteFile (push (push (t1_bootdir bootdir boot_subdir) ''loader/entries'') (t1_filename t1)) entry_text] \<and>
         get_value (entry_new entry_text) ''options'' = Some v \<and> get_cmdline_composefs hx H v = Inr (root_id, ins))))"
proof -
  let ?dir = "t1_bootdir bootdir boot_subdir"
  let ?le = "push ?dir ''loader/entries''"
  define txt1 where "txt1 = conf_text (adjust_cmdline (t1_entry t1) (Some (to_hex hx root_id)) ins extra)"
  let ?w = "WriteFile (push ?le (t1_filename t1)) txt1"
  obtain v where v: "get_value (entry_new txt1) ''options'' = Some v" "get_cmdline_composefs hx H v = Inr (root_id, ins)"
    using adjusted_text_reads [OF hx e extra] unfolding txt1_def by blast
  have add: "files_written hx K H s ?dir fs1 (new @ rest) rest" if "files_written hx K H s ?dir fs1 new []" for fs1 new rest
    using that by (auto simp: files_written_def)
  have "io_bind (write_files W hx K H ?dir (t1_files t1)) (\<lambda>_. io_bind (host_call W (CreateDirAll ?le)) (\<lambda>_. host_call W ?w)) (s, ops)
      = Some (r, (s', ops'))"
    using w by (simp add: write_t1_simple_def Let_def txt1_def)
  then show ?thesis
  proof (cases rule: io_bind_cases)
    case (Err x)
    then show ?thesis using write_files_result [OF Err(1)] by auto
  next
    case (Ok u s1)
    obtain s1' ops1 where s1: "s1 = (s1', ops1)" by (cases s1)
    obtain new where n: "s1' = s" "ops1 = ops @ new" "files_written hx K H s ?dir (t1_files t1) new []"
      using write_files_result [OF Ok(1) [unfolded s1]] by auto
    from Ok(2) show ?thesis
    proof (cases rule: io_bind_cases)
      case (Err x)
      have "s' = s \<and> ops' = ops @ new" using host_call_cases [OF Err(1) [unfolded s1 n]] by auto
      then show ?thesis using Err(2) n(3) by (auto simp: only_directory_def)
    next
      case c: (Ok u2 s2)
      then have s2: "s2 = (s, ops @ new @ [CreateDirAll ?le])" using s1 n host_call_cases by (cases s2) fastforce
      consider (Ok) "r = Inr ()" "s' = s" "ops' = ops @ new @ [CreateDirAll ?le, ?w]"
        | (Err) x where "r = Inl x" "s' = s" "ops' = ops @ new @ [CreateDirAll ?le]"
        using host_call_cases [OF c(2) [unfolded s2]] by auto
      then show ?thesis
      proof cases
        case Ok
        show ?thesis using Ok v add [OF n(3), of "[CreateDirAll ?le, ?w]"]
          by (intro conjI exI [of _ "t1_files t1"] exI [of _ "new @ [CreateDirAll ?le, ?w]"] exI [of _ "[CreateDirAll ?le, ?w]"]) simp_all
      next
        case Err
        show ?thesis using Err add [OF n(3), of "[CreateDirAll ?le]"]
          by (intro conjI exI [of _ "t1_files t1"] exI [of _ "new @ [CreateDirAll ?le]"] exI [of _ "[CreateDirAll ?le]"])
            (simp_all add: only_directory_def)
      qed
    qed
  qed
qed

text \<open>What can be written for a UKI: its contents, when the digest on its command line is that of the root.\<close>

definition uki_names_root :: "hex_crate \<Rightarrow> hash_alg \<Rightarrow> bytes \<Rightarrow> bytes \<Rightarrow> bool" where
  "uki_names_root hx H root_id d \<longleftrightarrow> (\<exists>c ins. uki_cmdline d = Some (Inr c) \<and> get_cmdline_composefs hx H c = Inr (root_id, ins))"

lemma write_t2_result:
  assumes w: "write_t2_simple W hx K H t2 bootdir root_id (s, ops) = Some (r, (s', ops'))"
  shows "s' = s \<and> (case r of
      Inl _ \<Rightarrow> \<exists>rest. only_directory rest \<and> ops' = ops @ rest
    | Inr _ \<Rightarrow> \<exists>d. has_contents hx K H s (t2_file t2) d \<and> uki_names_root hx H root_id d \<and>
        ops' = ops @ [CreateDirAll (push bootdir ''EFI/Linux''), WriteFile (push (push bootdir ''EFI/Linux'') (file_path t2)) d])"
proof -
  let ?efi = "push bootdir ''EFI/Linux''"
  have stop: ?thesis if "s' = s" "r = Inl x" "ops' = ops @ rest" "only_directory rest" for x rest
    using that by auto
  from w show ?thesis unfolding write_t2_simple_def Let_def
  proof (cases rule: io_bind_cases)
    case (Err x)
    then show ?thesis using host_call_cases [OF Err(1)] by (intro stop [where rest = "[]"]) (auto simp: only_directory_def)
  next
    case (Ok u s1)
    then have s1: "s1 = (s, ops @ [CreateDirAll ?efi])" using host_call_cases by (cases s1) fastforce
    from Ok(2) show ?thesis
    proof (cases rule: io_bind_cases)
      case (Err x)
      then show ?thesis using s1 boot_read_cases [of hx K H "t2_file t2" s]
        by (intro stop [where rest = "[CreateDirAll ?efi]"]) (auto simp: repo_call_def only_directory_def split: option.splits prod.splits)
    next
      case rd: (Ok d s2)
      then have s2: "s2 = (s, ops @ [CreateDirAll ?efi])" and d: "has_contents hx K H s (t2_file t2) d"
        using s1 boot_read_cases [of hx K H "t2_file t2" s]
        by (auto simp: repo_call_def map_err_def split: option.splits prod.splits sum.splits)
      obtain c where c: "uki_cmdline d = Some c" using rd(2) by (cases "uki_cmdline d") (simp_all add: io_panic_def)
      show ?thesis
      proof (cases "uki_names_root hx H root_id d")
        case True
        then obtain cl ins where n: "c = Inr cl" "get_cmdline_composefs hx H cl = Inr (root_id, ins)"
          using c by (auto simp: uki_names_root_def)
        then have "host_call W (WriteFile (push ?efi (file_path t2)) d) s2 = Some (r, (s', ops'))"
          using rd(2) c by (simp add: ensure_r_def)
        from host_call_cases [OF this [unfolded s2]] show ?thesis using d True by (auto simp: only_directory_def)
      next
        case False
        have "s' = s \<and> ops' = ops @ [CreateDirAll ?efi] \<and> (\<exists>x. r = Inl x)"
          using rd(2) False unfolding c s2
          by (auto simp: uki_names_root_def c ensure_r_def map_err_def split: sum.splits prod.splits if_splits)
        then show ?thesis by (elim conjE exE) (rule stop [where rest = "[CreateDirAll ?efi]"], simp_all add: only_directory_def)
      qed
    qed
  qed
qed

text \<open>
  C40: a UKI reaches the boot partition only when the composefs argument that is linked into it is the digest of the root,
  only as the last operation, with the contents that the tree gives it, and only when no further arguments were asked for;
  on any error nothing was written.
\<close>

theorem write_boot_uki:
  assumes w: "write_boot_simple W hx K H (Type2 t2) root_id ins boot_partition boot_subdir entry_id extra (s, ops) = Some (r, (s', ops'))"
  shows "s' = s \<and> (case r of
      Inl _ \<Rightarrow> \<exists>rest. only_directory rest \<and> ops' = ops @ rest
    | Inr _ \<Rightarrow> extra = [] \<and> (\<exists>d. has_contents hx K H s (t2_file t2) d \<and> uki_names_root hx H root_id d \<and>
        ops' = ops @ [CreateDirAll (push boot_partition ''EFI/Linux''), WriteFile (push (push boot_partition ''EFI/Linux'')
          (file_path (case entry_id of Some name \<Rightarrow> type2_rename name t2 | None \<Rightarrow> t2))) d]))"
proof (cases "extra = []")
  case True
  let ?t2 = "case entry_id of Some name \<Rightarrow> type2_rename name t2 | None \<Rightarrow> t2"
  have "write_t2_simple W hx K H ?t2 boot_partition root_id (s, ops) = Some (r, (s', ops'))"
    using w True by (simp add: write_boot_simple_def ensure_r_def Let_def)
  moreover have "t2_file ?t2 = t2_file t2" by (simp add: type2_rename_def split: option.splits)
  ultimately show ?thesis using write_t2_result [of W hx K H ?t2 boot_partition root_id s ops r s' ops'] True by (auto split: sum.splits)
next
  case False
  then show ?thesis using w by (auto simp: write_boot_simple_def ensure_r_def Let_def only_directory_def intro: exI [of _ "[]"])
qed

section \<open>Examples\<close>

definition demo_t1 :: type1_entry where
  "demo_t1 = \<lparr>t1_filename = ''demo.conf'', t1_entry = grub_entry, t1_files = [(''/demo/linux'', Inline ''kernel'')]\<rparr>"

definition all_well :: host where "all_well ops op = None"

lemma all_well_call [simp]: "host_call all_well op = (\<lambda>(s, ops). Some (Inr (), (s, ops @ [op])))"
  by (simp add: host_call_def all_well_def)

lemma write_demo_t1:
  "\<exists>entry_text. write_t1_simple all_well hex_codec toy_K toy_H demo_t1 ''/boot'' None root_id True [''quiet''] (empty_repo, []) =
     Some (Inr (), (empty_repo, [CreateDirAll ''/boot/demo'', WriteFile ''/boot/demo/linux'' ''kernel'',
       CreateDirAll ''/boot/loader/entries'', WriteFile ''/boot/loader/entries/demo.conf'' entry_text]))"
proof -
  have p: "strip_root ''/demo/linux'' = Some ''demo/linux''" "push ''/boot'' ''demo/linux'' = ''/boot/demo/linux''"
    "Rust_Path.parent ''/boot/demo/linux'' = Some ''/boot/demo''" "push ''/boot'' ''loader/entries'' = ''/boot/loader/entries''"
    "push ''/boot/loader/entries'' ''demo.conf'' = ''/boot/loader/entries/demo.conf''"
    by code_simp+
  show ?thesis
    by (simp add: write_t1_simple_def demo_t1_def t1_bootdir_def p Let_def boot_read_file_def repo_call_def io_bind_def
        map_err_def io_return_def)
qed

lemma grub_entry_ok: "Boot_Cmdline.entry_ok grub_entry" "single_lines grub_entry"
proof -
  have "get_value grub_entry ''options'' = Some ''root=/dev/sda1 composefs=old rw''" by code_simp
  moreover have "options_ok ''root=/dev/sda1 composefs=old rw''" by code_simp
  moreover have "list_all is_ascii (entry_lines grub_entry)" by code_simp
  ultimately show "Boot_Cmdline.entry_ok grub_entry" by (simp add: Boot_Cmdline.entry_ok_def list_all_iff)
  have "list_all (\<lambda>l. CHR 0x0A \<notin> set l) (entry_lines grub_entry)" by code_simp
  then show "single_lines grub_entry" by (simp add: single_lines_def list_all_iff)
qed

lemma write_t1_order_witness:
  "\<exists>entry_text v. write_t1_simple all_well hex_codec toy_K toy_H demo_t1 ''/boot'' None (replicate 32 CHR ''x'') True [''quiet''] (empty_repo, []) =
     Some (Inr (), (empty_repo, [CreateDirAll ''/boot/demo'', WriteFile ''/boot/demo/linux'' ''kernel'',
       CreateDirAll ''/boot/loader/entries'', WriteFile ''/boot/loader/entries/demo.conf'' entry_text])) \<and>
   get_value (entry_new entry_text) ''options'' = Some v \<and> get_cmdline_composefs hex_codec toy_H v = Inr (replicate 32 CHR ''x'', True)"
proof -
  define rid where "rid = replicate 32 CHR ''x''"
  obtain entry_text where w: "write_t1_simple all_well hex_codec toy_K toy_H demo_t1 ''/boot'' None rid True [''quiet''] (empty_repo, []) =
     Some (Inr (), (empty_repo, [CreateDirAll ''/boot/demo'', WriteFile ''/boot/demo/linux'' ''kernel'',
       CreateDirAll ''/boot/loader/entries'', WriteFile ''/boot/loader/entries/demo.conf'' entry_text]))"
    using write_demo_t1 by blast
  have len: "length rid = size_of toy_H" by (simp add: rid_def toy_H_def Sha256HashValue_def)
  have e: "Boot_Cmdline.entry_ok (t1_entry demo_t1)" "single_lines (t1_entry demo_t1)"
    using grub_entry_ok by (simp_all add: demo_t1_def)
  have x: "\<forall>x \<in> set [''quiet'']. plain_arg x \<and> \<not> starts_with (arg_key x) (make_cmdline_composefs (to_hex hex_codec rid) True) \<and>
    strip_prefix ''composefs='' x = None"
    by (simp add: plain_arg_def is_ascii_whitespace_def QUOTE_def arg_key_def make_cmdline_composefs_def starts_with_def strip_prefix_def)
  obtain new rest t2 v where n: "[CreateDirAll ''/boot/demo'', WriteFile ''/boot/demo/linux'' ''kernel'',
       CreateDirAll ''/boot/loader/entries'', WriteFile ''/boot/loader/entries/demo.conf'' entry_text] = new"
    "files_written hex_codec toy_K toy_H empty_repo (t1_bootdir ''/boot'' None) (t1_files demo_t1) new rest"
    "rest = [CreateDirAll (push (t1_bootdir ''/boot'' None) ''loader/entries''),
           WriteFile (push (push (t1_bootdir ''/boot'' None) ''loader/entries'') (t1_filename demo_t1)) t2]"
    "get_value (entry_new t2) ''options'' = Some v" "get_cmdline_composefs hex_codec toy_H v = Inr (rid, True)"
    using write_t1_order [OF w hex_laws_hex_codec len e x] by auto
  have "last new = WriteFile (push (push (t1_bootdir ''/boot'' None) ''loader/entries'') (t1_filename demo_t1)) t2"
    using n(2,3) by (auto simp: files_written_def)
  then have "t2 = entry_text" using n(1) by auto
  then show ?thesis using w n(4,5) unfolding rid_def by blast
qed

definition demo_uki :: "bytes \<Rightarrow> bytes" where
  "demo_uki oid = uki_image [] [(''.cmdline'', make_cmdline_composefs (to_hex hex_codec oid) True)]"

lemma demo_uki_names_root:
  assumes "length oid = 32"
  shows "uki_names_root hex_codec toy_H oid (demo_uki oid)"
proof -
  let ?c = "make_cmdline_composefs (to_hex hex_codec oid) True"
  note c = composefs_plain [OF hex_laws_hex_codec, of oid True]
  have len: "length ?c = 75" using assms by (simp add: make_cmdline_composefs_def to_hex_def hex_codec_def)
  have "length (uki_image [] [(''.cmdline'', ?c)]) < 2 ^ 32"
    using len by (simp add: uki_image_def PE_MAGIC_def header_of_def)
  then have "get_section (demo_uki oid) ''.cmdline'' = PeSome (Inr ?c)"
    unfolding demo_uki_def by (subst get_section_image) (simp_all add: section_name_ok_def)
  moreover have "utf8_valid ?c" using plain_arg_simps(2) [OF c(1)] by (rule utf8_valid_ascii)
  ultimately have u: "uki_cmdline (demo_uki oid) = Some (Inr ?c)" by (simp add: uki_cmdline_def get_text_section_def)
  have h: "from_hex hex_codec toy_H (to_hex hex_codec oid) = Inr oid"
    using hex_laws_hex_codec assms by (simp add: from_hex_def to_hex_def toy_H_def Sha256HashValue_def)
  have m: "?c = ''composefs='' @ CHR ''?'' # to_hex hex_codec oid" by (simp add: make_cmdline_composefs_def)
  have sp: "strip_prefix ''composefs='' (''composefs='' @ x) = Some x" "strip_prefix ''?'' (CHR ''?'' # y) = Some y" for x y
    by (simp_all only: strip_prefix_append strip_prefix_Some_iff append_Cons append_Nil)
  have "get_cmdline_value ?c ''composefs='' = Some (CHR ''?'' # to_hex hex_codec oid)"
    unfolding get_cmdline_value_def split_cmdline_def plain_arg_simps(4) [OF c(1)] unfolding m find_map.simps sp by (simp only: option.case)
  then show ?thesis using u h sp(2) unfolding uki_names_root_def
    by (intro exI [of _ ?c] exI [of _ True]) (simp add: get_cmdline_composefs_def ok_or_def)
qed

definition demo_t2 :: "bytes \<Rightarrow> type2_entry" where
  "demo_t2 oid = \<lparr>kver = None, file_path = ''demo.efi'', t2_file = Inline (demo_uki oid), t2_type = Uki\<rparr>"

lemma write_boot_uki_witness:
  "\<exists>d. write_boot_simple all_well hex_codec toy_K toy_H (Type2 (demo_t2 (replicate 32 CHR ''x''))) (replicate 32 CHR ''x'') False ''/boot'' None None []
      (empty_repo, []) = Some (Inr (), (empty_repo, [CreateDirAll ''/boot/EFI/Linux'', WriteFile ''/boot/EFI/Linux/demo.efi'' d])) \<and>
    uki_names_root hex_codec toy_H (replicate 32 CHR ''x'') d"
proof -
  define rid where "rid = replicate 32 CHR ''x''"
  obtain c ins where c: "uki_cmdline (demo_uki rid) = Some (Inr c)" "get_cmdline_composefs hex_codec toy_H c = Inr (rid, ins)"
    using demo_uki_names_root [of rid] by (auto simp: uki_names_root_def rid_def)
  have p: "push ''/boot'' ''EFI/Linux'' = ''/boot/EFI/Linux''" "push ''/boot/EFI/Linux'' ''demo.efi'' = ''/boot/EFI/Linux/demo.efi''"
    by code_simp+
  have w: "write_boot_simple all_well hex_codec toy_K toy_H (Type2 (demo_t2 rid)) rid False ''/boot'' None None [] (empty_repo, []) =
      Some (Inr (), (empty_repo, [CreateDirAll ''/boot/EFI/Linux'', WriteFile ''/boot/EFI/Linux/demo.efi'' (demo_uki rid)]))"
    by (simp add: write_boot_simple_def write_t2_simple_def Let_def ensure_r_def demo_t2_def p boot_read_file_def repo_call_def io_bind_def
        map_err_def c io_return_def)
  obtain d where "uki_names_root hex_codec toy_H rid d"
    "[CreateDirAll ''/boot/EFI/Linux'', WriteFile ''/boot/EFI/Linux/demo.efi'' (demo_uki rid)] =
      [CreateDirAll (push ''/boot'' ''EFI/Linux''), WriteFile (push (push ''/boot'' ''EFI/Linux'') (file_path (demo_t2 rid))) d]"
    using write_boot_uki [OF w] by auto
  then show ?thesis using w unfolding rid_def by auto
qed

end
