(* ===== verification/Erofs_Script.thy ===== *)
theory Erofs_Script
  imports Erofs_Writer
begin

text \<open>
  What the two outputs of \<open>erofs/writer.rs\<close> share. A \<open>script\<close> is the bytes that a writing function
  appends and the offsets that it notes, as a function of what \<open>get\<close> answers and of the position.
  The locale \<open>byte_output\<close> is the contract of the trait \<open>Output\<close>; in it, every writing function
  is shown once to follow its script, and both passes are interpretations.
\<close>

type_synonym note_log = "(offset \<times> nat) list"
type_synonym script = "offset_getter \<Rightarrow> nat \<Rightarrow> (bytes \<times> note_log) option"

section \<open>Scripts\<close>

definition sp_skip :: script where "sp_skip g pos = Some ([], [])"

definition sp_put :: "(offset_getter \<Rightarrow> nat \<Rightarrow> bytes option) \<Rightarrow> script" where
  "sp_put e g pos = map_option (\<lambda>b. (b, [])) (e g pos)"

definition sp_write :: "bytes \<Rightarrow> script" where "sp_write b = sp_put (\<lambda>g pos. Some b)"

definition pad_bytes :: "nat \<Rightarrow> nat \<Rightarrow> bytes" where "pad_bytes pos a = zeros (round_up pos a - pos)"

definition sp_pad :: "nat \<Rightarrow> script" where "sp_pad a = sp_put (\<lambda>g pos. Some (pad_bytes pos a))"

definition sp_note :: "offset \<Rightarrow> script" where "sp_note t g pos = Some ([], [(t, pos)])"

definition sp_check :: "(nat \<Rightarrow> bool) \<Rightarrow> script" where
  "sp_check P g pos = (if P pos then Some ([], []) else None)"

definition sp_at :: "(nat \<Rightarrow> script) \<Rightarrow> script" where "sp_at k g pos = k pos g pos"

definition sp_seq :: "script \<Rightarrow> script \<Rightarrow> script" where
  "sp_seq p q g pos = do {
     (b, ns) \<leftarrow> p g pos; (c, ms) \<leftarrow> q g (pos + length b); Some (b @ c, ns @ ms) }"

fun sp_list :: "('a \<Rightarrow> script) \<Rightarrow> 'a list \<Rightarrow> script" where
  "sp_list f [] = sp_skip"
| "sp_list f (x # xs) = sp_seq (f x) (sp_list f xs)"

text \<open>The length and the notes of a script do not depend on what \<open>get\<close> answers.\<close>

definition oblivious :: "script \<Rightarrow> bool" where
  "oblivious p \<longleftrightarrow> (\<forall>g g' pos b ns b' ns'. p g pos = Some (b, ns) \<longrightarrow> p g' pos = Some (b', ns') \<longrightarrow>
     length b = length b' \<and> ns = ns')"

lemma obliviousD:
  "oblivious p \<Longrightarrow> p g pos = Some (b, ns) \<Longrightarrow> p g' pos = Some (b', ns') \<Longrightarrow> length b = length b' \<and> ns = ns'"
  unfolding oblivious_def by blast

named_theorems oblivious_intros

lemma oblivious_put [oblivious_intros]:
  "(\<And>g g' pos b b'. e g pos = Some b \<Longrightarrow> e g' pos = Some b' \<Longrightarrow> length b = length b') \<Longrightarrow> oblivious (sp_put e)"
  unfolding oblivious_def sp_put_def map_option_eq_Some by blast

lemma oblivious_fixed [oblivious_intros]: "oblivious (sp_write b)" "oblivious (sp_pad a)"
  unfolding sp_write_def sp_pad_def by (simp_all add: oblivious_def sp_put_def)

lemma oblivious_prims [oblivious_intros]: "oblivious sp_skip" "oblivious (sp_note t)"
  by (simp_all add: oblivious_def sp_skip_def sp_note_def)

lemma oblivious_check [oblivious_intros]: "oblivious (sp_check P)"
  unfolding oblivious_def sp_check_def by (metis Pair_inject option.distinct(1) option.inject)

lemma oblivious_at [oblivious_intros]: "(\<And>n. oblivious (k n)) \<Longrightarrow> oblivious (sp_at k)"
  unfolding oblivious_def sp_at_def by blast

lemma oblivious_seq [oblivious_intros]:
  assumes "oblivious p" "oblivious q"
  shows "oblivious (sp_seq p q)"
  unfolding oblivious_def
proof (intro allI impI)
  fix g g' pos b ns b' ns'
  assume "sp_seq p q g pos = Some (b, ns)" "sp_seq p q g' pos = Some (b', ns')"
  then obtain b1 n1 b2 n2 b1' n1' b2' n2' where
    p: "p g pos = Some (b1, n1)" "p g' pos = Some (b1', n1')"
    and q: "q g (pos + length b1) = Some (b2, n2)" "q g' (pos + length b1') = Some (b2', n2')"
    and b: "b = b1 @ b2" "ns = n1 @ n2" "b' = b1' @ b2'" "ns' = n1' @ n2'"
    by (auto simp: sp_seq_def bind_eq_Some_conv)
  have "length b1 = length b1'" "n1 = n1'" using obliviousD [OF assms(1) p] by simp_all
  moreover from this have "length b2 = length b2'" "n2 = n2'" using obliviousD [OF assms(2) q(1)] q(2) by simp_all
  ultimately show "length b = length b' \<and> ns = ns'" by (simp add: b)
qed

lemma oblivious_list [oblivious_intros]: "(\<And>x. oblivious (f x)) \<Longrightarrow> oblivious (sp_list f xs)"
  by (induction xs) (auto intro: oblivious_intros)

text \<open>An element of a list is written at some position inside what the list writes.\<close>

lemma sp_seq_Some:
  "sp_seq p q g pos = Some (b, ns) \<longleftrightarrow> (\<exists>b1 n1 b2 n2. p g pos = Some (b1, n1) \<and>
     q g (pos + length b1) = Some (b2, n2) \<and> b = b1 @ b2 \<and> ns = n1 @ n2)"
  by (auto simp: sp_seq_def bind_eq_Some_conv)

lemma sp_seq_assoc: "sp_seq (sp_seq p q) r = sp_seq p (sp_seq q r)"
proof (intro ext)
  fix g pos
  show "sp_seq (sp_seq p q) r g pos = sp_seq p (sp_seq q r) g pos"
  proof (cases "p g pos")
    case (Some x)
    then obtain b ns where p: "p g pos = Some (b, ns)" by (cases x) simp
    show ?thesis
    proof (cases "q g (pos + length b)")
      case (Some y)
      then obtain c ms where q: "q g (pos + length b) = Some (c, ms)" by (cases y) simp
      show ?thesis
        by (cases "r g (pos + length b + length c)") (auto simp: sp_seq_def p q add.assoc)
    qed (simp add: sp_seq_def p)
  qed (simp add: sp_seq_def)
qed

lemma sp_seq_skip: "sp_seq sp_skip p = p"
proof (intro ext)
  fix g pos
  show "sp_seq sp_skip p g pos = p g pos"
    by (cases "p g pos") (auto simp: sp_seq_def sp_skip_def)
qed

lemma sp_list_append: "sp_list f (xs @ ys) = sp_seq (sp_list f xs) (sp_list f ys)"
  by (induction xs) (simp_all add: sp_seq_skip sp_seq_assoc)

lemma sp_list_nth:
  assumes "sp_list f xs g pos = Some (b, ns)" "i < length xs"
  obtains b1 n1 bi ni b2 n2 where "sp_list f (take i xs) g pos = Some (b1, n1)"
    "f (xs ! i) g (pos + length b1) = Some (bi, ni)" "b = b1 @ bi @ b2" "ns = n1 @ ni @ n2"
proof -
  have "sp_list f (take i xs @ xs ! i # drop (Suc i) xs) g pos = Some (b, ns)"
    using assms by (simp add: id_take_nth_drop [symmetric])
  then show ?thesis using that by (auto simp: sp_list_append sp_seq_Some)
qed

section \<open>The contract of an output\<close>

text \<open>\<open>f\<close> follows the script \<open>p\<close>; \<open>emit b ns\<close> is the effect of writing \<open>b\<close> and noting \<open>ns\<close>.\<close>

definition follows :: "'s Output \<Rightarrow> (bytes \<Rightarrow> note_log \<Rightarrow> 's \<Rightarrow> 's option) \<Rightarrow> ('s \<Rightarrow> 's option) \<Rightarrow> script \<Rightarrow> bool" where
  "follows W emit f p \<longleftrightarrow> (\<forall>s. f s = (case p (get_offset W s) (out_len W s) of
     None \<Rightarrow> None | Some (b, ns) \<Rightarrow> emit b ns s))"

lemma followsD:
  "follows W emit f p \<Longrightarrow> f s = (case p (get_offset W s) (out_len W s) of None \<Rightarrow> None | Some (b, ns) \<Rightarrow> emit b ns s)"
  by (simp add: follows_def)

named_theorems follows_intros

locale byte_output =
  fixes W :: "'s Output" and emit :: "bytes \<Rightarrow> note_log \<Rightarrow> 's \<Rightarrow> 's option"
  assumes emit_Nil: "emit [] [] s = Some s"
    and emit_append: "emit (b @ c) (ns @ ms) s = Option.bind (emit b ns s) (emit c ms)"
    and write_emit: "Some (out_write W b s) = emit b [] s"
    and pad_emit: "0 < a \<Longrightarrow> Some (out_pad W a s) = emit (pad_bytes (out_len W s) a) [] s"
    and note_emit: "note_offset W t s = emit [] [(t, out_len W s)] s"
    and emit_len: "emit b ns s = Some s' \<Longrightarrow> out_len W s' = out_len W s + length b"
    and emit_get: "emit b ns s = Some s' \<Longrightarrow> get_offset W s' = get_offset W s"
begin

lemma follows_skip [follows_intros]: "follows W emit Some sp_skip"
  by (simp add: follows_def sp_skip_def emit_Nil)

lemma follows_put:
  "(\<And>s. f s = (case e (get_offset W s) (out_len W s) of None \<Rightarrow> None | Some b \<Rightarrow> Some (out_write W b s))) \<Longrightarrow>
    follows W emit f (sp_put e)"
  by (auto simp: follows_def sp_put_def write_emit split: option.split)

lemma follows_write [follows_intros]: "follows W emit (\<lambda>s. Some (out_write W b s)) (sp_write b)"
  unfolding sp_write_def by (rule follows_put) simp

lemma follows_pad [follows_intros]: "0 < a \<Longrightarrow> follows W emit (\<lambda>s. Some (out_pad W a s)) (sp_pad a)"
  by (simp add: follows_def sp_pad_def sp_put_def pad_emit)

lemma follows_note [follows_intros]: "follows W emit (note_offset W t) (sp_note t)"
  by (simp add: follows_def sp_note_def note_emit)

lemma follows_check [follows_intros]:
  "follows W emit f p \<Longrightarrow> follows W emit (\<lambda>s. do { assert_p (P (out_len W s)); f s }) (sp_seq (sp_check P) p)"
  by (auto simp: follows_def sp_seq_def sp_check_def split: option.split)

lemma follows_at: "(\<And>n. follows W emit (f n) (k n)) \<Longrightarrow> follows W emit (\<lambda>s. f (out_len W s) s) (sp_at k)"
  by (simp add: follows_def sp_at_def)

lemma follows_seq [follows_intros]:
  assumes "follows W emit f p" "follows W emit f' q"
  shows "follows W emit (\<lambda>s. Option.bind (f s) f') (sp_seq p q)"
  unfolding follows_def
proof
  fix s
  show "Option.bind (f s) f' = (case sp_seq p q (get_offset W s) (out_len W s) of
      None \<Rightarrow> None | Some (b, ns) \<Rightarrow> emit b ns s)"
  proof (cases "p (get_offset W s) (out_len W s)")
    case (Some r)
    then obtain b ns where r: "p (get_offset W s) (out_len W s) = Some (b, ns)" by (cases r) simp
    show ?thesis
    proof (cases "emit b ns s")
      case None
      then have "emit (b @ c) (ns @ ms) s = None" for c ms by (simp add: emit_append)
      then show ?thesis using r followsD [OF assms(1), of s] None
        by (cases "q (get_offset W s) (out_len W s + length b)") (auto simp: sp_seq_def)
    next
      case (Some s')
      then show ?thesis using r followsD [OF assms(1), of s] followsD [OF assms(2), of s']
        by (auto simp: sp_seq_def emit_append emit_len [OF Some] emit_get [OF Some] bind_eq_Some_conv
            split: option.split prod.splits)
    qed
  qed (use followsD [OF assms(1), of s] in \<open>simp add: sp_seq_def\<close>)
qed

lemma follows_list [follows_intros]:
  "(\<And>x. follows W emit (f x) (k x)) \<Longrightarrow> follows W emit (fold_opt f xs) (sp_list k xs)"
proof (induction xs)
  case (Cons x xs)
  have "follows W emit (\<lambda>s. Option.bind (f x s) (fold_opt f xs)) (sp_seq (k x) (sp_list k xs))"
    using Cons by (intro follows_intros) simp_all
  then show ?case by simp
next
  case Nil
  have "fold_opt f [] = Some" by (simp add: fun_eq_iff)
  then show ?case by (simp only: follows_skip sp_list.simps)
qed

lemma follows_fold [follows_intros]:
  assumes "\<And>x. follows W emit (\<lambda>s. Some (f x s)) (k x)"
  shows "follows W emit (\<lambda>s. Some (fold f xs s)) (sp_list k xs)"
proof -
  have "fold_opt (\<lambda>x s. Some (f x s)) xs s = Some (fold f xs s)" for s
    by (induction xs arbitrary: s) auto
  then have "fold_opt (\<lambda>x s. Some (f x s)) xs = (\<lambda>s. Some (fold f xs s))" by (rule ext)
  then show ?thesis using follows_list [of "\<lambda>x s. Some (f x s)" k xs, OF assms] by simp
qed

end

end
