(* ===== verification/Erofs_Passes.thy ===== *)
theory Erofs_Passes
  imports Erofs_Script
begin

text \<open>
  The scripts of the writing functions of \<open>erofs/writer.rs\<close>, proved in the locale of the outputs, and
  the two passes: the first notes exactly the offsets at which the second writes.
\<close>

section \<open>The script of each writing function\<close>

definition xattr_bytes :: "xattr \<Rightarrow> bytes" where
  "xattr_bytes x = xattr_header_bytes \<lparr>name_len = of_nat (length (attr_suffix x)),
     name_index = attr_prefix x, value_size = of_nat (length (attr_value x))\<rparr> @ attr_suffix x @ attr_value x"

definition xattr_script :: "xattr \<Rightarrow> script" where
  "xattr_script x = sp_seq (sp_write (xattr_bytes x)) (sp_pad 4)"

definition attrs_script :: "attr_set \<Rightarrow> script" where
  "attrs_script a = (if attr_filter a \<noteq> 0 then
     sp_seq (sp_write (inode_xattr_header_bytes \<lparr>name_filter = NOT (attr_filter a),
         shared_count = of_nat (length (shared_ids a))\<rparr>))
       (sp_seq (sp_list (\<lambda>i. sp_put (\<lambda>g pos. map_option le32 (get_xattr g i))) (shared_ids a))
         (sp_list xattr_script (local_attrs a)))
     else sp_skip)"

definition dirent_script :: "dirent \<Rightarrow> nat \<Rightarrow> script" where
  "dirent_script e nameofs = sp_put (\<lambda>g pos. map_option (\<lambda>nid. dirent_header_bytes
     \<lparr>inode_offset = nid, name_offset = of_nat nameofs, de_file_type = file_type_field (de_type e)\<rparr>)
     (get_nid g (de_inode e)))"

fun dirents_script :: "dirent list \<Rightarrow> nat \<Rightarrow> script" where
  "dirents_script [] nameofs = sp_skip"
| "dirents_script (e # es) nameofs = sp_seq (dirent_script e nameofs) (dirents_script es (nameofs + length (de_name e)))"

definition block_script :: "dirent list \<Rightarrow> script" where
  "block_script b = sp_seq (dirents_script b (12 * length b)) (sp_list (\<lambda>e. sp_write (de_name e)) b)"

definition dir_block_script :: "dirent list \<Rightarrow> script" where
  "dir_block_script b = sp_seq (sp_check (\<lambda>pos. pos mod BLOCK_SIZE = 0)) (sp_seq (block_script b) (sp_pad BLOCK_SIZE))"

definition blocks_script :: "inode_rec \<Rightarrow> script" where
  "blocks_script i = (case i_content i of DirContent d \<Rightarrow> sp_list dir_block_script (dir_blocks d)
     | LeafContent _ _ \<Rightarrow> sp_skip)"

definition inline_script :: "inode_content \<Rightarrow> script" where
  "inline_script c = (case c of DirContent d \<Rightarrow> block_script (dir_inline d) | LeafContent l _ \<Rightarrow> sp_write (leaf_inline l))"

definition inline_pad_script :: "nat \<Rightarrow> nat \<Rightarrow> script" where
  "inline_pad_script xsize sz = sp_at (\<lambda>pos.
     (let inline_start = pos + (64 + xsize); end_of_metadata = inline_start - 1;
          inline_end = inline_start + sz mod BLOCK_SIZE
      in if end_of_metadata div BLOCK_SIZE \<noteq> inline_end div BLOCK_SIZE
         then sp_seq (sp_write (zeros (BLOCK_SIZE - end_of_metadata mod BLOCK_SIZE))) (sp_pad 32) else sp_skip))"

text \<open>The layout and the size of an inode do not depend on where its blocks are; \<open>u\<close> does.\<close>

definition content_layout :: "inode_content \<Rightarrow> data_layout" where
  "content_layout c = (case c of DirContent d \<Rightarrow> if dir_inline d = [] then FlatPlain else FlatInline
     | LeafContent l n \<Rightarrow> fst (leaf_inode_meta l n))"

definition content_size :: "inode_content \<Rightarrow> nat" where
  "content_size c = (case c of DirContent d \<Rightarrow> dir_size d | LeafContent l n \<Rightarrow> fst (snd (snd (leaf_inode_meta l n))))"

definition content_links :: "inode_content \<Rightarrow> nat" where
  "content_links c = (case c of DirContent d \<Rightarrow> dir_links d | LeafContent l n \<Rightarrow> n)"

definition content_u :: "offset_getter \<Rightarrow> nat \<Rightarrow> inode_content \<Rightarrow> u32 option" where
  "content_u g idx c = (case c of
       DirContent d \<Rightarrow> map_option (\<lambda>k. fst (snd (dir_inode_meta d k))) (g OBlock idx)
     | LeafContent l n \<Rightarrow> Some (fst (snd (leaf_inode_meta l n))))"

definition header_of :: "inode_rec \<Rightarrow> nat \<Rightarrow> u16 \<Rightarrow> u32 \<Rightarrow> nat \<Rightarrow> extended_header" where
  "header_of i xsize mode u pos =
     \<lparr>x_format = format_field Extended (content_layout (i_content i)), x_xattr_icount = icount xsize, x_mode = mode,
        x_size = of_nat (content_size (i_content i)), x_u = u, x_ino = of_nat (pos div 32),
        x_uid = st_uid (i_stat i), x_gid = st_gid (i_stat i), x_mtime = st_mtim_sec (i_stat i),
        x_mtime_nsec = 0, x_nlink = of_nat (content_links (i_content i))\<rparr>"

definition inode_script :: "inode_rec \<Rightarrow> nat \<Rightarrow> nat \<Rightarrow> u16 \<Rightarrow> script" where
  "inode_script i idx xsize mode =
     sp_seq (sp_pad 32)
    (sp_seq (if content_layout (i_content i) = FlatInline then inline_pad_script xsize (content_size (i_content i)) else sp_skip)
    (sp_seq (sp_note OInode)
    (sp_seq (sp_put (\<lambda>g pos. map_option (\<lambda>u. extended_header_bytes (header_of i xsize mode u pos)) (content_u g idx (i_content i))))
    (sp_seq (attrs_script (i_xattrs i))
    (sp_seq (inline_script (i_content i)) (sp_pad 32))))))"

lemma oblivious_xattr [oblivious_intros]: "oblivious (xattr_script x)"
  unfolding xattr_script_def by (intro oblivious_intros)

lemma oblivious_attrs [oblivious_intros]: "oblivious (attrs_script a)"
  unfolding attrs_script_def by (auto intro!: oblivious_intros)

lemma oblivious_dirents [oblivious_intros]: "oblivious (dirents_script es n)"
  by (induction es n rule: dirents_script.induct) (auto intro!: oblivious_intros simp: dirent_script_def)

lemma oblivious_block [oblivious_intros]: "oblivious (block_script b)"
  unfolding block_script_def by (intro oblivious_intros)

lemma oblivious_blocks [oblivious_intros]: "oblivious (blocks_script i)"
  unfolding blocks_script_def dir_block_script_def by (cases "i_content i") (auto intro!: oblivious_intros)

lemma oblivious_inode [oblivious_intros]: "oblivious (inode_script i idx xsize mode)"
  unfolding inode_script_def inline_script_def inline_pad_script_def Let_def
  by (cases "i_content i") (auto intro!: oblivious_intros)

section \<open>Every writing function follows its script\<close>

context byte_output
begin

lemma write_append: "out_write W (b @ c) s = out_write W c (out_write W b s)"
proof -
  have "Some (out_write W (b @ c) s) = emit (b @ c) ([] @ []) s" by (simp add: write_emit)
  also have "\<dots> = Option.bind (emit b [] s) (emit c [])" by (rule emit_append)
  finally show ?thesis by (simp add: write_emit [symmetric])
qed

lemma follows_xattr [follows_intros]: "follows W emit (\<lambda>s. Some (xattr_write W x s)) (xattr_script x)"
proof -
  have "follows W emit (\<lambda>s. Option.bind (Some (out_write W (xattr_bytes x) s)) (\<lambda>s. Some (out_pad W 4 s))) (xattr_script x)"
    unfolding xattr_script_def by (intro follows_intros) simp
  then show ?thesis by (simp add: xattr_write_def xattr_bytes_def write_append)
qed

lemma follows_attrs [follows_intros]: "follows W emit (write_attrs W a) (attrs_script a)"
proof (cases "attr_filter a = 0")
  case True
  then have "write_attrs W a = Some" by (simp add: write_attrs_def fun_eq_iff)
  then show ?thesis using True by (simp add: attrs_script_def follows_skip)
next
  case False
  have ids: "follows W emit (\<lambda>s. do { k \<leftarrow> get_xattr (get_offset W s) i; Some (out_write W (le32 k) s) })
      (sp_put (\<lambda>g pos. map_option le32 (get_xattr g i)))" for i
    by (rule follows_put) (auto split: option.split)
  have "follows W emit (\<lambda>s. Option.bind (Some (out_write W (inode_xattr_header_bytes
      \<lparr>name_filter = NOT (attr_filter a), shared_count = of_nat (length (shared_ids a))\<rparr>) s))
      (\<lambda>s. Option.bind (fold_opt (\<lambda>i s. do { k \<leftarrow> get_xattr (get_offset W s) i; Some (out_write W (le32 k) s) }) (shared_ids a) s)
        (\<lambda>s. Some (fold (xattr_write W) (local_attrs a) s)))) (attrs_script a)"
    using False by (simp only: attrs_script_def if_True simp_thms not_False_eq_True) (intro follows_intros ids)
  moreover have "write_attrs W a = (\<lambda>s. Option.bind (Some (out_write W (inode_xattr_header_bytes
      \<lparr>name_filter = NOT (attr_filter a), shared_count = of_nat (length (shared_ids a))\<rparr>) s))
      (\<lambda>s. Option.bind (fold_opt (\<lambda>i s. do { k \<leftarrow> get_xattr (get_offset W s) i; Some (out_write W (le32 k) s) }) (shared_ids a) s)
        (\<lambda>s. Some (fold (xattr_write W) (local_attrs a) s))))"
    using False by (simp add: write_attrs_def fun_eq_iff)
  ultimately show ?thesis by (simp only:)
qed

lemma follows_dirents [follows_intros]: "follows W emit (write_dirents W es nameofs) (dirents_script es nameofs)"
proof (induction es arbitrary: nameofs)
  case Nil
  have "write_dirents W [] nameofs = Some" by (simp add: fun_eq_iff)
  then show ?case by (simp only: dirents_script.simps follows_skip)
next
  case (Cons e es)
  let ?h = "\<lambda>nid. dirent_header_bytes
     \<lparr>inode_offset = nid, name_offset = of_nat nameofs, de_file_type = file_type_field (de_type e)\<rparr>"
  have "follows W emit (\<lambda>s. do { nid \<leftarrow> get_nid (get_offset W s) (de_inode e); Some (out_write W (?h nid) s) })
      (dirent_script e nameofs)"
    unfolding dirent_script_def by (rule follows_put) (auto split: option.split)
  from follows_seq [OF this Cons] show ?case by (simp add: Option.bind_assoc)
qed

lemma follows_block [follows_intros]: "follows W emit (write_block W b) (block_script b)"
  unfolding write_block_def [abs_def] block_script_def by (intro follows_intros)

lemma follows_dir_blocks [follows_intros]: "follows W emit (write_blocks W i) (blocks_script i)"
proof (cases "i_content i")
  case (DirContent d)
  have "follows W emit (\<lambda>s. do { assert_p (out_len W s mod BLOCK_SIZE = 0);
      s1 \<leftarrow> write_block W b s; Some (out_pad W BLOCK_SIZE s1) }) (dir_block_script b)" for b
    unfolding dir_block_script_def by (intro follows_intros follows_check) simp
  then have "follows W emit (write_dir_blocks W d) (sp_list dir_block_script (dir_blocks d))"
    unfolding write_dir_blocks_def [abs_def] by (intro follows_intros)
  then show ?thesis using DirContent by (simp add: write_blocks_def [abs_def] blocks_script_def)
next
  case (LeafContent c n)
  then have "write_blocks W i = Some" by (simp add: write_blocks_def fun_eq_iff)
  then show ?thesis using LeafContent by (simp add: blocks_script_def follows_skip)
qed

lemma follows_inline: "follows W emit (\<lambda>s. case c of DirContent d \<Rightarrow> write_block W (dir_inline d) s
    | LeafContent l _ \<Rightarrow> Some (out_write W (leaf_inline l) s)) (inline_script c)"
  by (cases c) (simp_all add: inline_script_def follows_intros)

lemma follows_inline_pad: "follows W emit (\<lambda>s. Some (inline_pad W xsize sz s)) (inline_pad_script xsize sz)"
proof -
  let ?c = "\<lambda>n. (n + (64 + xsize) - 1) div BLOCK_SIZE \<noteq> (n + (64 + xsize) + sz mod BLOCK_SIZE) div BLOCK_SIZE"
  let ?z = "\<lambda>n. zeros (BLOCK_SIZE - (n + (64 + xsize) - 1) mod BLOCK_SIZE)"
  have "follows W emit (\<lambda>s. if ?c n then Option.bind (Some (out_write W (?z n) s)) (\<lambda>s. Some (out_pad W 32 s)) else Some s)
    (if ?c n then sp_seq (sp_write (?z n)) (sp_pad 32) else sp_skip)" for n
  proof (cases "?c n")
    case True
    then show ?thesis by (simp only: if_True True simp_thms) (intro follows_intros; simp)
  next
    case False
    then show ?thesis by (simp only: if_False False simp_thms) (rule follows_skip)
  qed
  from follows_at [OF this] show ?thesis
    by (simp add: inline_pad_def inline_pad_script_def Let_def if_distrib cong: if_cong)
qed

end


section \<open>The two passes are outputs\<close>

fun log_note :: "offset \<times> nat \<Rightarrow> out_layout \<Rightarrow> out_layout option" where
  "log_note (t, k) l = map_option fp_layout (fp_note t \<lparr>fp_offset = k, fp_layout = l\<rparr>)"

definition fp_emit :: "bytes \<Rightarrow> note_log \<Rightarrow> first_pass \<Rightarrow> first_pass option" where
  "fp_emit b ns s = map_option (\<lambda>l. \<lparr>fp_offset = fp_offset s + length b, fp_layout = l\<rparr>)
     (fold_opt log_note ns (fp_layout s))"

definition sp_emit :: "bytes \<Rightarrow> note_log \<Rightarrow> second_pass \<Rightarrow> second_pass option" where
  "sp_emit b ns s = Some (s\<lparr>sp_output := sp_output s @ b\<rparr>)"

lemma fold_opt_append: "fold_opt f (xs @ ys) s = Option.bind (fold_opt f xs s) (fold_opt f ys)"
proof (induction xs arbitrary: s)
  case (Cons x xs)
  then show ?case by (cases "f x s") auto
qed simp

lemma round_up_ge: "0 < a \<Longrightarrow> n \<le> round_up n a"
proof -
  assume "0 < a"
  then have "n + a - 1 < (n + a - 1) div a * a + a" by (metis add.commute dividend_less_div_times mult.commute)
  then show ?thesis using \<open>0 < a\<close> by (simp add: round_up_def)
qed

lemma length_pad_bytes [simp]: "0 < a \<Longrightarrow> length (pad_bytes n a) = round_up n a - n"
  by (simp add: pad_bytes_def)

interpretation first: byte_output FirstPass fp_emit
proof unfold_locales
  fix b c ns ms s t a s'
  show "fp_emit [] [] s = Some s" by (simp add: fp_emit_def)
  show "fp_emit (b @ c) (ns @ ms) s = Option.bind (fp_emit b ns s) (fp_emit c ms)"
    by (cases "fold_opt log_note ns (fp_layout s)") (simp_all add: fp_emit_def fold_opt_append add.assoc)
  show "Some (out_write FirstPass b s) = fp_emit b [] s" by (simp add: FirstPass_def fp_emit_def)
  show "0 < a \<Longrightarrow> Some (out_pad FirstPass a s) = fp_emit (pad_bytes (out_len FirstPass s) a) [] s"
    using round_up_ge [of a "fp_offset s"] by (simp add: FirstPass_def fp_emit_def)
  show "note_offset FirstPass t s = fp_emit [] [(t, out_len FirstPass s)] s"
    by (simp add: FirstPass_def fp_emit_def fp_note_def Let_def assert_p_def)
  show "fp_emit b ns s = Some s' \<Longrightarrow> out_len FirstPass s' = out_len FirstPass s + length b"
    by (auto simp: FirstPass_def fp_emit_def)
  show "fp_emit b ns s = Some s' \<Longrightarrow> get_offset FirstPass s' = get_offset FirstPass s"
    by (simp add: FirstPass_def)
qed

interpretation second: byte_output SecondPass sp_emit
proof unfold_locales
  fix b c ns ms s t a s'
  show "sp_emit [] [] s = Some s" by (simp add: sp_emit_def)
  show "sp_emit (b @ c) (ns @ ms) s = Option.bind (sp_emit b ns s) (sp_emit c ms)" by (simp add: sp_emit_def)
  show "Some (out_write SecondPass b s) = sp_emit b [] s" by (simp add: SecondPass_def sp_emit_def)
  show "0 < a \<Longrightarrow> Some (out_pad SecondPass a s) = sp_emit (pad_bytes (out_len SecondPass s) a) [] s"
    by (simp add: SecondPass_def sp_emit_def pad_bytes_def)
  show "note_offset SecondPass t s = sp_emit [] [(t, out_len SecondPass s)] s"
    by (simp add: SecondPass_def sp_emit_def)
  show "sp_emit b ns s = Some s' \<Longrightarrow> out_len SecondPass s' = out_len SecondPass s + length b"
    by (auto simp: SecondPass_def sp_emit_def)
  show "sp_emit b ns s = Some s' \<Longrightarrow> get_offset SecondPass s' = get_offset SecondPass s"
    by (auto simp: SecondPass_def sp_emit_def)
qed

section \<open>The size of the attribute area\<close>

abbreviation no_offsets :: offset_getter where "no_offsets \<equiv> \<lambda>t i. Some 0"

lemma get_no_offsets [simp]: "get_nid no_offsets i = Some 0" "get_xattr no_offsets i = Some 0"
  by (simp_all add: get_nid_def get_xattr_def get_div_def)

text \<open>A script that only writes: it notes nothing, and it answers when \<open>get\<close> does.\<close>

definition silent :: "script \<Rightarrow> bool" where
  "silent p \<longleftrightarrow> (\<forall>g pos b ns. p g pos = Some (b, ns) \<longrightarrow> ns = []) \<and> (\<forall>pos. p no_offsets pos \<noteq> None)"

lemma silent_put: "(\<And>pos. e no_offsets pos \<noteq> None) \<Longrightarrow> silent (sp_put e)"
  by (auto simp: silent_def sp_put_def)

lemma silent_fixed: "silent (sp_write b)" "silent (sp_pad a)" "silent sp_skip"
  by (auto simp: silent_def sp_put_def sp_write_def sp_pad_def sp_skip_def)

lemma silent_seq:
  assumes "silent p" "silent q"
  shows "silent (sp_seq p q)"
proof -
  have "sp_seq p q no_offsets pos \<noteq> None" for pos
  proof -
    obtain b ns where p: "p no_offsets pos = Some (b, ns)" using assms(1) by (fastforce simp: silent_def)
    obtain c ms where "q no_offsets (pos + length b) = Some (c, ms)" using assms(2) by (fastforce simp: silent_def)
    with p show ?thesis by (simp add: sp_seq_def)
  qed
  moreover have "ns = []" if "sp_seq p q g pos = Some (b, ns)" for g pos b ns
    using that assms unfolding sp_seq_Some silent_def by blast
  ultimately show ?thesis by (simp add: silent_def)
qed

lemma silent_list: "(\<And>x. silent (f x)) \<Longrightarrow> silent (sp_list f xs)"
  by (induction xs) (auto intro: silent_fixed silent_seq)

lemma silent_attrs: "silent (attrs_script a)"
  unfolding attrs_script_def xattr_script_def
  by (auto intro!: silent_fixed silent_seq silent_list silent_put)

lemma silent_dirents: "silent (dirents_script es n)"
  by (induction es n rule: dirents_script.induct) (auto simp: dirent_script_def intro!: silent_fixed silent_seq silent_put)

lemma silent_block: "silent (block_script b)"
  unfolding block_script_def by (intro silent_seq silent_list silent_fixed silent_dirents)

definition attrs_len :: "attr_set \<Rightarrow> nat" where
  "attrs_len a = (case attrs_script a no_offsets 0 of Some (b, ns) \<Rightarrow> length b | None \<Rightarrow> 0)"

lemma attrs_size_len: "attrs_size a = Some (attrs_len a)"
proof -
  obtain b where b: "attrs_script a no_offsets 0 = Some (b, [])"
    using silent_attrs [of a] by (fastforce simp: silent_def)
  have "get_offset FirstPass s = no_offsets" "out_len FirstPass s = fp_offset s" for s
    by (simp_all add: FirstPass_def)
  then have "write_attrs FirstPass a \<lparr>fp_offset = 0, fp_layout = empty_layout\<rparr> = fp_emit b [] \<lparr>fp_offset = 0, fp_layout = empty_layout\<rparr>"
    using followsD [OF first.follows_attrs, of a "\<lparr>fp_offset = 0, fp_layout = empty_layout\<rparr>"] b by simp
  then show ?thesis using b by (simp add: attrs_size_def attrs_len_def fp_emit_def)
qed

lemma mode_field_total: "\<exists>m. mode_field (file_type c) p = Some m"
  by (auto simp: mode_field_def ifmt_def file_type_def split: inode_content.split leaf_content.split)

definition mode_of :: "inode_rec \<Rightarrow> u16" where
  "mode_of i = the (mode_field (file_type (i_content i)) (st_mode (i_stat i)))"

lemma mode_of: "mode_field (file_type (i_content i)) (st_mode (i_stat i)) = Some (mode_of i)"
  using mode_field_total [of "i_content i" "st_mode (i_stat i)"] by (auto simp: mode_of_def)

section \<open>Writing an inode and an image\<close>

definition sp_get :: "(offset_getter \<Rightarrow> 'a option) \<Rightarrow> ('a \<Rightarrow> script) \<Rightarrow> script" where
  "sp_get e k g pos = do { x \<leftarrow> e g; k x g pos }"

lemma sp_put_get: "sp_put (\<lambda>g pos. map_option (\<lambda>x. f x pos) (e g)) = sp_get e (\<lambda>x. sp_put (\<lambda>g pos. Some (f x pos)))"
proof (intro ext)
  fix g pos
  show "sp_put (\<lambda>g pos. map_option (\<lambda>x. f x pos) (e g)) g pos = sp_get e (\<lambda>x. sp_put (\<lambda>g pos. Some (f x pos))) g pos"
    by (cases "e g") (simp_all add: sp_put_def sp_get_def)
qed

lemma sp_seq_get_left: "sp_seq (sp_get e k) p = sp_get e (\<lambda>x. sp_seq (k x) p)"
proof (intro ext)
  fix g pos
  show "sp_seq (sp_get e k) p g pos = sp_get e (\<lambda>x. sp_seq (k x) p) g pos"
    by (cases "e g") (simp_all add: sp_seq_def sp_get_def)
qed

lemma sp_seq_get_right: "sp_seq p (sp_get e k) = sp_get e (\<lambda>x. sp_seq p (k x))"
proof (intro ext)
  fix g pos
  show "sp_seq p (sp_get e k) g pos = sp_get e (\<lambda>x. sp_seq p (k x)) g pos"
    by (cases "e g"; cases "p g pos") (auto simp: sp_seq_def sp_get_def)
qed

definition whole_inode_script :: "nat \<times> inode_rec \<Rightarrow> script" where
  "whole_inode_script = (\<lambda>(idx, i). inode_script i idx (attrs_len (i_xattrs i)) (mode_of i))"

definition noted :: "offset \<Rightarrow> script \<Rightarrow> script" where "noted t p = sp_seq (sp_note t) p"

definition magic_bytes :: bytes where
  "magic_bytes = composefs_header_bytes \<lparr>ch_magic = COMPOSEFS_MAGIC, ch_version = VERSION,
       ch_flags = 0, ch_composefs_version = COMPOSEFS_VERSION\<rparr>"

definition the_superblock :: "nat \<Rightarrow> u64 \<Rightarrow> nat \<Rightarrow> superblock" where
  "the_superblock n nid e = \<lparr>sb_magic = MAGIC_V1, sb_checksum = 0,
       feature_compat = FEATURE_COMPAT_MTIME OR FEATURE_COMPAT_XATTR_FILTER, blkszbits = of_nat BLOCK_BITS,
       extslots = 0, root_nid = ucast nid, inos = of_nat n, build_time = 0, build_time_nsec = 0,
       sb_blocks = of_nat (e div BLOCK_SIZE), meta_blkaddr = 0, xattr_blkaddr = 0, uuid_to_end = zeros 80\<rparr>"

definition superblock_script :: "nat \<Rightarrow> script" where
  "superblock_script n = sp_put (\<lambda>g pos. do { nid \<leftarrow> get_nid g 0; e \<leftarrow> g OEnd 0; Some (superblock_bytes (the_superblock n nid e)) })"

definition image_script :: "inode_rec list \<Rightarrow> xattr list \<Rightarrow> script" where
  "image_script ns xs =
     sp_seq (noted OHeader (sp_write magic_bytes))
    (sp_seq (sp_pad 1024)
    (sp_seq (noted OSuperblock (superblock_script (length ns)))
    (sp_seq (sp_list whole_inode_script (List.enumerate 0 ns))
    (sp_seq (sp_list (\<lambda>x. noted OXAttr (xattr_script x)) xs)
    (sp_seq (sp_pad 4096)
    (sp_seq (sp_list (\<lambda>i. noted OBlock (blocks_script i)) ns)
    (sp_note OEnd)))))))"

context byte_output
begin

lemma follows_get: "(\<And>x. follows W emit (f x) (k x)) \<Longrightarrow>
    follows W emit (\<lambda>s. Option.bind (e (get_offset W s)) (\<lambda>x. f x s)) (sp_get e k)"
  by (auto simp: follows_def sp_get_def split: bind_split)

lemma follows_inode: "follows W emit (write_inode W i idx) (whole_inode_script (idx, i))"
proof -
  let ?c = "i_content i" and ?x = "attrs_len (i_xattrs i)"
  let ?header = "\<lambda>u n. extended_header_bytes (header_of i ?x (mode_of i) u n)"
  let ?pad = "if content_layout ?c = FlatInline then inline_pad_script ?x (content_size ?c) else sp_skip"
  let ?wpad = "\<lambda>s. if content_layout ?c = FlatInline then Some (inline_pad W ?x (content_size ?c) s) else Some s"
  let ?inl = "\<lambda>s. case ?c of DirContent d \<Rightarrow> write_block W (dir_inline d) s | LeafContent l _ \<Rightarrow> Some (out_write W (leaf_inline l) s)"
  have pad: "follows W emit ?wpad ?pad"
    using follows_inline_pad [of ?x "content_size ?c"] follows_skip by simp
  have put: "follows W emit (\<lambda>s. Some (out_write W (?header u (out_len W s)) s)) (sp_put (\<lambda>g pos. Some (?header u pos)))" for u
    by (rule follows_put) simp
  have f: "follows W emit (\<lambda>s. Option.bind (content_u (get_offset W s) idx ?c)
       (\<lambda>u. Option.bind (Some (out_pad W 32 s)) (\<lambda>s. Option.bind (?wpad s) (\<lambda>s. Option.bind (note_offset W OInode s)
         (\<lambda>s. Option.bind (Some (out_write W (?header u (out_len W s)) s))
         (\<lambda>s. Option.bind (write_attrs W (i_xattrs i) s) (\<lambda>s. Option.bind (?inl s) (\<lambda>s. Some (out_pad W 32 s)))))))))
      (sp_get (\<lambda>g. content_u g idx ?c) (\<lambda>u. sp_seq (sp_pad 32) (sp_seq ?pad (sp_seq (sp_note OInode)
         (sp_seq (sp_put (\<lambda>g pos. Some (?header u pos)))
         (sp_seq (attrs_script (i_xattrs i)) (sp_seq (inline_script ?c) (sp_pad 32))))))))"
    by (intro follows_get follows_seq follows_note follows_attrs follows_inline pad put follows_pad) simp_all
  have w: "write_inode W i idx s = Option.bind (content_u (get_offset W s) idx ?c)
       (\<lambda>u. Option.bind (Some (out_pad W 32 s)) (\<lambda>s. Option.bind (?wpad s) (\<lambda>s. Option.bind (note_offset W OInode s)
         (\<lambda>s. Option.bind (Some (out_write W (?header u (out_len W s)) s))
         (\<lambda>s. Option.bind (write_attrs W (i_xattrs i) s) (\<lambda>s. Option.bind (?inl s) (\<lambda>s. Some (out_pad W 32 s))))))))" for s
  proof -
    have meta: "(case ?c of DirContent d \<Rightarrow> do { k \<leftarrow> get_offset W s OBlock idx; Some (dir_inode_meta d k) }
       | LeafContent c nlink \<Rightarrow> Some (leaf_inode_meta c nlink)) =
      map_option (\<lambda>u. (content_layout ?c, u, content_size ?c, content_links ?c)) (content_u (get_offset W s) idx ?c)"
    proof (cases ?c)
      case (DirContent d)
      then show ?thesis
        by (cases "get_offset W s OBlock idx") (simp_all add: content_u_def content_layout_def content_size_def
            content_links_def dir_inode_meta_def Let_def)
    next
      case (LeafContent l n)
      then show ?thesis by (simp add: content_u_def content_layout_def content_size_def content_links_def
            leaf_inode_meta_def Let_def split: prod.splits)
    qed
    show ?thesis
      unfolding write_inode_def meta
      by (cases "content_u (get_offset W s) idx ?c") (simp_all add: attrs_size_len mode_of header_of_def)
  qed
  have "whole_inode_script (idx, i) = sp_get (\<lambda>g. content_u g idx ?c) (\<lambda>u. sp_seq (sp_pad 32) (sp_seq ?pad (sp_seq (sp_note OInode)
         (sp_seq (sp_put (\<lambda>g pos. Some (?header u pos)))
         (sp_seq (attrs_script (i_xattrs i)) (sp_seq (inline_script ?c) (sp_pad 32)))))))"
    by (simp only: whole_inode_script_def inode_script_def prod.case sp_put_get sp_seq_get_left sp_seq_get_right)
  then show ?thesis using f by (simp only: w [abs_def] ext [OF w])
qed

lemma follows_noted: "follows W emit f p \<Longrightarrow> follows W emit (\<lambda>s. Option.bind (note_offset W t s) f) (noted t p)"
  unfolding noted_def by (intro follows_intros)

lemma follows_superblock:
  "follows W emit (\<lambda>s. do { nid \<leftarrow> get_nid (get_offset W s) 0; e \<leftarrow> get_offset W s OEnd 0;
     Some (out_write W (superblock_bytes (the_superblock n nid e)) s) }) (superblock_script n)"
  unfolding superblock_script_def by (rule follows_put) (auto split: option.split bind_split)

lemma follows_image: "follows W emit (write_erofs W ns xs) (image_script ns xs)"
proof -
  have f: "follows W emit (\<lambda>s. Option.bind (Option.bind (note_offset W OHeader s) (\<lambda>s. Some (out_write W magic_bytes s)))
     (\<lambda>s. Option.bind (Some (out_pad W 1024 s))
     (\<lambda>s. Option.bind (Option.bind (note_offset W OSuperblock s) (\<lambda>s. do { nid \<leftarrow> get_nid (get_offset W s) 0;
        e \<leftarrow> get_offset W s OEnd 0; Some (out_write W (superblock_bytes (the_superblock (length ns) nid e)) s) }))
     (\<lambda>s. Option.bind (fold_opt (\<lambda>ii. write_inode W (snd ii) (fst ii)) (List.enumerate 0 ns) s)
     (\<lambda>s. Option.bind (fold_opt (\<lambda>x s. Option.bind (note_offset W OXAttr s) (\<lambda>s. Some (xattr_write W x s))) xs s)
     (\<lambda>s. Option.bind (Some (out_pad W 4096 s))
     (\<lambda>s. Option.bind (fold_opt (\<lambda>i s. Option.bind (note_offset W OBlock s) (write_blocks W i)) ns s)
       (note_offset W OEnd)))))))) (image_script ns xs)"
    unfolding image_script_def
    by (intro follows_seq follows_noted follows_superblock follows_list follows_xattr follows_pad follows_write follows_note
        follows_dir_blocks) (auto simp: follows_inode)
  have "write_erofs W ns xs = (\<lambda>s. Option.bind (Option.bind (note_offset W OHeader s) (\<lambda>s. Some (out_write W magic_bytes s)))
     (\<lambda>s. Option.bind (Some (out_pad W 1024 s))
     (\<lambda>s. Option.bind (Option.bind (note_offset W OSuperblock s) (\<lambda>s. do { nid \<leftarrow> get_nid (get_offset W s) 0;
        e \<leftarrow> get_offset W s OEnd 0; Some (out_write W (superblock_bytes (the_superblock (length ns) nid e)) s) }))
     (\<lambda>s. Option.bind (fold_opt (\<lambda>ii. write_inode W (snd ii) (fst ii)) (List.enumerate 0 ns) s)
     (\<lambda>s. Option.bind (fold_opt (\<lambda>x s. Option.bind (note_offset W OXAttr s) (\<lambda>s. Some (xattr_write W x s))) xs s)
     (\<lambda>s. Option.bind (Some (out_pad W 4096 s))
     (\<lambda>s. Option.bind (fold_opt (\<lambda>i s. Option.bind (note_offset W OBlock s) (write_blocks W i)) ns s)
       (note_offset W OEnd))))))))"
    by (rule ext) (simp add: write_erofs_def magic_bytes_def the_superblock_def case_prod_beta' Option.bind_assoc
        del: superblock.simps)
  with f show ?thesis by (simp only:)
qed

end

end
