(* ===== verification/Erofs_Layout.thy ===== *)
theory Erofs_Layout
  imports Erofs_Passes
begin

text \<open>
  Where the two passes of \<open>erofs/writer.rs\<close> put things: the layout that the first pass leaves answers
  \<open>get\<close> with the positions at which the second pass writes, and these are aligned as \<open>get_nid\<close>,
  \<open>get_xattr\<close> and \<open>write_blocks\<close> assert.
\<close>

section \<open>The layout that the first pass leaves\<close>

definition offset_order :: "offset list" where
  "offset_order = [OHeader, OSuperblock, OInode, OXAttr, OBlock, OEnd]"

definition log_of :: "(offset \<Rightarrow> nat list) \<Rightarrow> nat \<Rightarrow> note_log" where
  "log_of G k = concat (map (\<lambda>t. map (Pair t) (G t)) (take k offset_order))"

definition laid :: "(offset \<Rightarrow> nat list) \<Rightarrow> nat \<Rightarrow> out_layout \<Rightarrow> bool" where
  "laid G k l \<longleftrightarrow> length (offset_types l) \<le> k \<and> offsets l = concat (map G (take k offset_order)) \<and>
     (\<forall>j < length (offset_types l). offset_types l ! j = length (concat (map G (take j offset_order)))) \<and>
     (\<forall>j < k. length (offset_types l) \<le> j \<longrightarrow> G (offset_order ! j) = [])"

lemma log_group:
  assumes "length (offset_types l) \<le> Suc (offset_index t)" "ps \<noteq> []"
  shows "fold_opt log_note (map (Pair t) ps) l =
     Some \<lparr>offset_types = offset_types l @ replicate (Suc (offset_index t) - length (offset_types l)) (length (offsets l)),
           offsets = offsets l @ ps\<rparr>"
  using assms
proof (induction ps arbitrary: l)
  case (Cons p ps)
  show ?case
  proof (cases "ps = []")
    case False
    then show ?thesis using Cons by (simp add: fp_note_def Let_def)
  qed (use Cons in \<open>simp add: fp_note_def Let_def\<close>)
qed simp

lemma offset_order_nth: "k < 6 \<Longrightarrow> offset_index (offset_order ! k) = k"
  by (simp add: offset_order_def offset_index_def less_Suc_eq numeral_eq_Suc) (elim disjE; simp)

lemma length_offset_order [simp]: "length offset_order = 6"
  by (simp add: offset_order_def)

lemma concat_take_empty:
  "i \<le> j \<Longrightarrow> (\<And>n. i \<le> n \<Longrightarrow> n < j \<Longrightarrow> G (xs ! n) = []) \<Longrightarrow> j \<le> length xs \<Longrightarrow>
     concat (map G (take j xs)) = concat (map G (take i xs))"
proof (induction j)
  case (Suc j)
  show ?case
  proof (cases "i = Suc j")
    case False
    then have "concat (map G (take j xs)) = concat (map G (take i xs))" "G (xs ! j) = []" using Suc by simp_all
    then show ?thesis using Suc.prems(3) by (simp add: take_Suc_conv_app_nth)
  qed simp
qed simp

lemma laid_log: "k \<le> 6 \<Longrightarrow> \<exists>l. fold_opt log_note (log_of G k) empty_layout = Some l \<and> laid G k l"
proof (induction k)
  case 0
  then show ?case by (simp add: log_of_def laid_def empty_layout_def)
next
  case (Suc k)
  then obtain l where l: "fold_opt log_note (log_of G k) empty_layout = Some l" "laid G k l" by auto
  let ?t = "offset_order ! k"
  have t: "take (Suc k) offset_order = take k offset_order @ [?t]" "offset_index ?t = k"
    using Suc.prems by (simp_all add: take_Suc_conv_app_nth offset_order_nth)
  have run: "fold_opt log_note (log_of G (Suc k)) empty_layout = fold_opt log_note (map (Pair ?t) (G ?t)) l"
    using l(1) by (simp add: log_of_def t(1) fold_opt_append)
  show ?case
  proof (cases "G ?t = []")
    case True
    then show ?thesis using l run by (auto simp: laid_def t(1) less_Suc_eq)
  next
    case False
    have len: "length (offset_types l) \<le> k" using l(2) by (simp add: laid_def)
    let ?l' = "\<lparr>offset_types = offset_types l @ replicate (Suc k - length (offset_types l)) (length (offsets l)),
       offsets = offsets l @ G ?t\<rparr>"
    have "fold_opt log_note (log_of G (Suc k)) empty_layout = Some ?l'"
      using run log_group [of l ?t "G ?t"] False len t(2) by simp
    moreover have "laid G (Suc k) ?l'"
    proof -
      have "length (offsets l) = length (concat (map G (take j offset_order)))"
        if "length (offset_types l) \<le> j" "j \<le> k" for j
        using that l(2) Suc.prems concat_take_empty [of j k G offset_order] by (auto simp: laid_def)
      note starts = this
      have old: "offset_types l ! j = length (concat (map G (take j offset_order)))" if "j < length (offset_types l)" for j
        using l(2) that by (simp add: laid_def)
      have "offset_types ?l' ! j = length (concat (map G (take j offset_order)))" if "j < Suc k" for j
      proof (cases "j < length (offset_types l)")
        case True
        then show ?thesis using old by (simp add: nth_append)
      next
        case False
        then show ?thesis using starts [of j] that len by (simp add: nth_append)
      qed
      moreover have "offsets ?l' = concat (map G (take (Suc k) offset_order))" using l(2) by (simp add: laid_def t(1))
      ultimately show ?thesis using len unfolding laid_def by simp
    qed
    ultimately show ?thesis by blast
  qed
qed

lemma layout_get_log:
  assumes "G OEnd \<noteq> []" "fold_opt log_note (log_of G 6) empty_layout = Some l" "i < length (G t)"
  shows "layout_get l t i = Some (G t ! i)"
proof -
  have l: "laid G 6 l" using laid_log [of 6 G] assms(2) by auto
  have "\<not> length (offset_types l) \<le> 5"
  proof
    assume "length (offset_types l) \<le> 5"
    then have "G (offset_order ! 5) = []" using l by (simp add: laid_def)
    then show False using assms(1) by (simp add: offset_order_def)
  qed
  then have len: "length (offset_types l) = 6" using l by (simp add: laid_def)
  have k: "offset_index t < 6" "offset_order ! offset_index t = t"
    by (cases t; simp add: offset_index_def offset_order_def)+
  have "offset_order = take (offset_index t) offset_order @ t # drop (Suc (offset_index t)) offset_order"
    using id_take_nth_drop [of "offset_index t" offset_order] k by simp
  then have "concat (map G offset_order) = concat (map G (take (offset_index t) offset_order)) @ G t @
      concat (map G (drop (Suc (offset_index t)) offset_order))"
    by (metis append_Cons append_Nil concat.simps(2) concat_append list.simps(9) map_append)
  moreover have "offsets l = concat (map G offset_order)" using l by (simp add: laid_def)
  moreover have "offset_types l ! offset_index t = length (concat (map G (take (offset_index t) offset_order)))"
    using l len k by (simp add: laid_def)
  ultimately show ?thesis using assms(3) len k by (simp add: layout_get_def nth_opt_def nth_append)
qed


section \<open>The notes of a list\<close>

definition one_note :: "offset \<Rightarrow> script \<Rightarrow> bool" where
  "one_note t p \<longleftrightarrow> (\<forall>g pos b ns. p g pos = Some (b, ns) \<longrightarrow> (\<exists>k. ns = [(t, k)]))"

lemma sp_list_notes:
  assumes "\<And>x. one_note t (f x)" "sp_list f xs g pos = Some (b, ns)"
  shows "\<exists>ps. ns = map (Pair t) ps \<and> length ps = length xs"
  using assms(2)
proof (induction xs arbitrary: pos b ns)
  case (Cons x xs)
  then obtain b1 n1 b2 n2 where x: "f x g pos = Some (b1, n1)"
    and xs: "sp_list f xs g (pos + length b1) = Some (b2, n2)" "ns = n1 @ n2"
    by (auto simp: sp_seq_Some)
  obtain k ps where "n1 = [(t, k)]" "n2 = map (Pair t) ps" "length ps = length xs"
    using assms(1) x Cons.IH [OF xs(1)] unfolding one_note_def by blast
  then have "ns = map (Pair t) (k # ps)" "length (k # ps) = length (x # xs)" using xs(2) by simp_all
  then show ?case by blast
qed (simp add: sp_skip_def)

lemma sp_list_at:
  assumes one: "\<And>x. one_note t (f x)" and run: "sp_list f xs g pos = Some (b, map (Pair t) ps)" and i: "i < length xs"
  obtains b1 bi b2 n1 where "sp_list f (take i xs) g pos = Some (b1, n1)"
    "f (xs ! i) g (pos + length b1) = Some (bi, [(t, ps ! i)])" "b = b1 @ bi @ b2"
proof -
  obtain b1 n1 bi ni b2 n2 where d: "sp_list f (take i xs) g pos = Some (b1, n1)"
    "f (xs ! i) g (pos + length b1) = Some (bi, ni)" "b = b1 @ bi @ b2" "map (Pair t) ps = n1 @ ni @ n2"
    using sp_list_nth [OF run i] .
  obtain k where k: "ni = [(t, k)]" using one d(2) unfolding one_note_def by blast
  have "length n1 = i" using sp_list_notes [OF one d(1)] i by auto
  then have "map (Pair t) ps ! i = (t, k)" using d(4) k by (simp add: nth_append)
  moreover have "i < length ps" using arg_cong [OF d(4), of length] k \<open>length n1 = i\<close> by simp
  ultimately have "ps ! i = k" by simp
  then show ?thesis using that d k by blast
qed

lemma silent_pair: "silent p \<Longrightarrow> p g pos = Some (b, ns) \<Longrightarrow> ns = []"
  unfolding silent_def by blast

lemma one_note_noted: "silent p \<Longrightarrow> one_note t (noted t p)"
  unfolding one_note_def noted_def sp_seq_Some by (auto simp: sp_note_def dest: silent_pair)

lemma silent_xattr: "silent (xattr_script x)"
  unfolding xattr_script_def by (intro silent_seq silent_fixed)

text \<open>Writes only, whether or not \<open>get\<close> answers.\<close>

definition quiet :: "script \<Rightarrow> bool" where
  "quiet p \<longleftrightarrow> (\<forall>g pos b ns. p g pos = Some (b, ns) \<longrightarrow> ns = [])"

lemma quiet_seq: "quiet p \<Longrightarrow> quiet q \<Longrightarrow> quiet (sp_seq p q)"
  unfolding quiet_def sp_seq_Some by blast

lemma quiet_silent: "silent p \<Longrightarrow> quiet p"
  unfolding quiet_def silent_def by blast

lemma quiet_list: "(\<And>x. quiet (f x)) \<Longrightarrow> quiet (sp_list f xs)"
  by (induction xs) (auto intro: quiet_seq quiet_silent silent_fixed)

lemma quiet_blocks: "quiet (blocks_script i)"
proof -
  have "quiet (sp_check P)" for P by (auto simp: quiet_def sp_check_def)
  then have "quiet (dir_block_script b)" for b unfolding dir_block_script_def
    by (intro quiet_seq quiet_silent [OF silent_block] quiet_silent [OF silent_fixed(2)])
  then show ?thesis unfolding blocks_script_def
    by (cases "i_content i") (simp_all add: quiet_list quiet_silent [OF silent_fixed(3)])
qed

lemma one_note_blocks: "one_note OBlock (noted OBlock (blocks_script i))"
  using quiet_blocks [of i] unfolding one_note_def noted_def sp_seq_Some quiet_def by (auto simp: sp_note_def)

section \<open>What an inode script writes\<close>

lemma round_up_mod [simp]: "round_up n a mod a = 0"
  by (simp add: round_up_def)

lemma round_up_id: "0 < a \<Longrightarrow> n mod a = 0 \<Longrightarrow> round_up n a = n"
proof -
  assume a: "0 < a" "n mod a = 0"
  then obtain k where k: "n = a * k" by (auto simp: mod_eq_0_iff_dvd elim: dvdE)
  have "(a * k + a - 1) div a = k" using a(1) by (intro div_nat_eqI) simp_all
  then show ?thesis by (simp add: round_up_def k mult.commute)
qed

lemma round_up_less: "0 < a \<Longrightarrow> round_up n a < n + a"
  using div_times_less_eq_dividend [of "n + a - 1" a] unfolding round_up_def by linarith

lemma mod_pad: "0 < a \<Longrightarrow> (pos + length (pad_bytes pos a)) mod a = 0"
  using round_up_ge [of a pos] by simp

lemma sp_pad_Some: "sp_pad a g pos = Some (b, ns) \<longleftrightarrow> b = pad_bytes pos a \<and> ns = []"
  by (auto simp: sp_pad_def sp_put_def)

lemma sp_write_Some: "sp_write c g pos = Some (b, ns) \<longleftrightarrow> b = c \<and> ns = []"
  by (auto simp: sp_write_def sp_put_def)

lemma sp_note_Some: "sp_note t g pos = Some (b, ns) \<longleftrightarrow> b = [] \<and> ns = [(t, pos)]"
  by (auto simp: sp_note_def)

lemma sp_skip_Some: "sp_skip g pos = Some (b, ns) \<longleftrightarrow> b = [] \<and> ns = []"
  by (auto simp: sp_skip_def)

lemma inline_pad_Some:
  assumes "inline_pad_script xsize sz g pos = Some (b, ns)" "pos mod 32 = 0"
  shows "ns = [] \<and> (pos + length b) mod 32 = 0"
proof -
  let ?k = "BLOCK_SIZE - (pos + (64 + xsize) - 1) mod BLOCK_SIZE"
  have "b = [] \<and> ns = [] \<or> b = zeros ?k @ pad_bytes (pos + length (zeros ?k)) 32 \<and> ns = []"
    using assms(1) unfolding inline_pad_script_def sp_at_def Let_def
    by (simp only: sp_seq_Some sp_write_Some sp_pad_Some sp_skip_Some split: if_splits) blast+
  moreover have "(pos + length (z @ pad_bytes (pos + length z) 32)) mod 32 = 0" for z
    using mod_pad [of 32 "pos + length z"] by (simp add: add.assoc)
  ultimately show ?thesis using assms(2) by (metis add.right_neutral list.size(3))
qed

text \<open>The bytes of an inode: its header, its attributes and its inline data, at an aligned position.\<close>

lemma whole_inode_Some:
  assumes "whole_inode_script (idx, i) g pos = Some (b, ns)"
  obtains pre p u a inl where "b = pre @ extended_header_bytes (header_of i (attrs_len (i_xattrs i)) (mode_of i) u p) @
      a @ inl @ pad_bytes (p + 64 + length a + length inl) 32" "p = pos + length pre" "p mod 32 = 0" "ns = [(OInode, p)]"
    "content_u g idx (i_content i) = Some u" "attrs_script (i_xattrs i) g (p + 64) = Some (a, [])"
    "inline_script (i_content i) g (p + 64 + length a) = Some (inl, [])" "(pos + length b) mod 32 = 0"
proof -
  let ?x = "attrs_len (i_xattrs i)" and ?p0 = "pos + length (pad_bytes pos 32)"
  obtain pre n0 u a na inl ni where
    pre: "(if content_layout (i_content i) = FlatInline then inline_pad_script ?x (content_size (i_content i)) else sp_skip)
       g ?p0 = Some (pre, n0)"
    and u: "content_u g idx (i_content i) = Some u"
    and a: "attrs_script (i_xattrs i) g (?p0 + length pre + 64) = Some (a, na)"
    and inl: "inline_script (i_content i) g (?p0 + length pre + 64 + length a) = Some (inl, ni)"
    and b: "b = pad_bytes pos 32 @ pre @ extended_header_bytes (header_of i ?x (mode_of i) u (?p0 + length pre)) @ a @ inl @
      pad_bytes (?p0 + length pre + 64 + length a + length inl) 32"
    and ns: "ns = n0 @ [(OInode, ?p0 + length pre)] @ na @ ni"
    using assms unfolding whole_inode_script_def inode_script_def prod.case sp_seq_Some
    by (auto simp: sp_pad_Some sp_note_Some sp_put_def simp del: length_pad_bytes)
  have al: "?p0 mod 32 = 0" by (rule mod_pad) simp
  have n: "n0 = [] \<and> (?p0 + length pre) mod 32 = 0"
    using pre al inline_pad_Some by (auto simp: sp_skip_Some split: if_splits simp del: length_pad_bytes)
  have na: "na = []" by (rule silent_pair [OF silent_attrs a])
  have ni: "ni = []" using inl
    by (cases "i_content i") (auto simp: inline_script_def sp_write_Some dest: silent_pair [OF silent_block])
  have "(?p0 + length pre + 64 + length a + length inl + length (pad_bytes (?p0 + length pre + 64 + length a + length inl) 32)) mod 32 = 0"
    by (rule mod_pad) simp
  then have "(pos + length b) mod 32 = 0" unfolding b by (simp add: add.assoc del: length_pad_bytes)
  then show ?thesis
    by (intro that [of "pad_bytes pos 32 @ pre" u "?p0 + length pre" a inl])
      (use n na ni u a inl b ns in \<open>simp_all add: add.assoc del: length_pad_bytes\<close>)
qed

lemma one_note_inode: "one_note OInode (whole_inode_script ii)"
  unfolding one_note_def by (cases ii) (auto elim!: whole_inode_Some)


section \<open>The parts of an image\<close>

definition placed :: "bytes \<Rightarrow> nat \<Rightarrow> bytes \<Rightarrow> bool" where
  "placed img p b \<longleftrightarrow> (\<exists>a c. img = a @ b @ c \<and> length a = p)"

lemma placed_append: "placed img p (b @ c) \<Longrightarrow> placed img p b \<and> placed img (p + length b) c"
  unfolding placed_def by (metis append.assoc length_append)

lemma placed_inside: "placed img p b \<Longrightarrow> placed b q c \<Longrightarrow> placed img (p + q) c"
  unfolding placed_def by (metis append.assoc length_append)

lemma placed_field: "placed img p b \<Longrightarrow> field p (length b) img = b \<and> p + length b \<le> length img"
  by (auto simp: placed_def field_def)

lemma placed_drop: "placed img p b \<Longrightarrow> \<exists>rest. drop p img = b @ rest \<and> p + length b \<le> length img"
  by (auto simp: placed_def)

definition block_start :: "bytes \<Rightarrow> bytes \<Rightarrow> nat" where
  "block_start bi bx = round_up (1152 + length bi + length bx) 4096"

text \<open>The whole image with the positions of its inodes, shared attributes and blocks.\<close>

definition image_parts :: "inode_rec list \<Rightarrow> xattr list \<Rightarrow> offset_getter \<Rightarrow> bytes \<Rightarrow> nat list \<Rightarrow> nat list \<Rightarrow> nat list \<Rightarrow> bool" where
  "image_parts ns xs g img ips xps bps \<longleftrightarrow> (\<exists>nid e bi bx bb.
     get_nid g 0 = Some nid \<and> g OEnd 0 = Some e \<and>
     sp_list whole_inode_script (List.enumerate 0 ns) g 1152 = Some (bi, map (Pair OInode) ips) \<and>
     sp_list (\<lambda>x. noted OXAttr (xattr_script x)) xs g (1152 + length bi) = Some (bx, map (Pair OXAttr) xps) \<and>
     sp_list (\<lambda>i. noted OBlock (blocks_script i)) ns g (block_start bi bx) = Some (bb, map (Pair OBlock) bps) \<and>
     img = magic_bytes @ zeros 992 @ superblock_bytes (the_superblock (length ns) nid e) @ bi @ bx @
       pad_bytes (1152 + length bi + length bx) 4096 @ bb \<and>
     length ips = length ns \<and> length xps = length xs \<and> length bps = length ns)"

definition positions :: "nat list \<Rightarrow> nat list \<Rightarrow> nat list \<Rightarrow> nat \<Rightarrow> offset \<Rightarrow> nat list" where
  "positions ips xps bps e t = (case t of OHeader \<Rightarrow> [0] | OSuperblock \<Rightarrow> [1024] | OInode \<Rightarrow> ips
     | OXAttr \<Rightarrow> xps | OBlock \<Rightarrow> bps | OEnd \<Rightarrow> [e])"

lemma length_magic [simp]: "length magic_bytes = 32"
  by (simp add: magic_bytes_def)

lemma length_the_superblock [simp]: "length (superblock_bytes (the_superblock n nid e)) = 128"
  by (simp add: the_superblock_def)

lemma image_script_parts:
  assumes "image_script ns xs g 0 = Some (img, log)"
  obtains ips xps bps where "image_parts ns xs g img ips xps bps" "log = log_of (positions ips xps bps (length img)) 6"
proof -
  obtain nid e bi ni bx nx bb nb where
    g: "get_nid g 0 = Some nid" "g OEnd 0 = Some e"
    and i: "sp_list whole_inode_script (List.enumerate 0 ns) g 1152 = Some (bi, ni)"
    and x: "sp_list (\<lambda>x. noted OXAttr (xattr_script x)) xs g (1152 + length bi) = Some (bx, nx)"
    and b: "sp_list (\<lambda>i. noted OBlock (blocks_script i)) ns g (block_start bi bx) = Some (bb, nb)"
    and img: "img = magic_bytes @ pad_bytes 32 1024 @ superblock_bytes (the_superblock (length ns) nid e) @ bi @ bx @
       pad_bytes (1152 + length bi + length bx) 4096 @ bb"
    and log: "log = (OHeader, 0) # (OSuperblock, 1024) # ni @ nx @ nb @ [(OEnd, length img)]"
  proof -
    obtain h0 n0 p0 n1 s0 n2 bi ni bx nx p1 n3 bb nb l0 n4 where
      h: "noted OHeader (sp_write magic_bytes) g 0 = Some (h0, n0)"
      and p0: "sp_pad 1024 g (length h0) = Some (p0, n1)"
      and s0: "noted OSuperblock (superblock_script (length ns)) g (length h0 + length p0) = Some (s0, n2)"
      and i: "sp_list whole_inode_script (List.enumerate 0 ns) g (length h0 + length p0 + length s0) = Some (bi, ni)"
      and x: "sp_list (\<lambda>x. noted OXAttr (xattr_script x)) xs g (length h0 + length p0 + length s0 + length bi) = Some (bx, nx)"
      and p1: "sp_pad 4096 g (length h0 + length p0 + length s0 + length bi + length bx) = Some (p1, n3)"
      and b: "sp_list (\<lambda>i. noted OBlock (blocks_script i)) ns g
        (length h0 + length p0 + length s0 + length bi + length bx + length p1) = Some (bb, nb)"
      and l: "sp_note OEnd g (length h0 + length p0 + length s0 + length bi + length bx + length p1 + length bb) = Some (l0, n4)"
      and all: "img = h0 @ p0 @ s0 @ bi @ bx @ p1 @ bb @ l0" "log = n0 @ n1 @ n2 @ ni @ nx @ n3 @ nb @ n4"
      using assms unfolding image_script_def sp_seq_Some by (auto simp: add.assoc)
    have h': "h0 = magic_bytes" "n0 = [(OHeader, 0)]"
      using h by (auto simp: noted_def sp_seq_Some sp_note_Some sp_write_Some)
    have p0': "p0 = pad_bytes 32 1024" "n1 = []" "length p0 = 992"
      using p0 h' by (auto simp: sp_pad_Some round_up_def)
    obtain nid e where g: "get_nid g 0 = Some nid" "g OEnd 0 = Some e"
      and s': "s0 = superblock_bytes (the_superblock (length ns) nid e)" "n2 = [(OSuperblock, 1024)]"
      using s0 h' p0'(3) by (auto simp: noted_def sp_seq_Some sp_note_Some superblock_script_def sp_put_def bind_eq_Some_conv)
    have p1': "p1 = pad_bytes (1152 + length bi + length bx) 4096" "n3 = []"
      using p1 h' p0'(3) s' by (simp_all add: sp_pad_Some)
    have bs: "1152 + length bi + length bx + length p1 = block_start bi bx"
      using round_up_ge [of 4096 "1152 + length bi + length bx"] by (simp add: p1' block_start_def)
    have l': "l0 = []" "n4 = [(OEnd, length img)]"
      using l by (simp_all add: sp_note_Some all)
    show ?thesis
      by (rule that [of nid e bi ni bx nx bb nb])
        (use g i x b all h' p0' s' p1' l' bs in \<open>simp_all add: add.assoc\<close>)
  qed
  obtain ips where ips: "ni = map (Pair OInode) ips" "length ips = length ns"
    using sp_list_notes [OF one_note_inode i] by auto
  obtain xps where xps: "nx = map (Pair OXAttr) xps" "length xps = length xs"
    using sp_list_notes [OF one_note_noted [OF silent_xattr] x] by auto
  obtain bps where bps: "nb = map (Pair OBlock) bps" "length bps = length ns"
    using sp_list_notes [OF one_note_blocks b] by auto
  have "pad_bytes 32 1024 = zeros 992" by (simp add: pad_bytes_def round_up_def)
  then have "image_parts ns xs g img ips xps bps"
    unfolding image_parts_def using g i x b img ips xps bps by blast
  moreover have "log = log_of (positions ips xps bps (length img)) 6"
    by (simp add: log ips xps bps log_of_def offset_order_def positions_def)
  ultimately show ?thesis by (rule that)
qed


section \<open>Alignment\<close>

definition keeps_aligned :: "nat \<Rightarrow> script \<Rightarrow> bool" where
  "keeps_aligned a p \<longleftrightarrow> (\<forall>g pos b ns. p g pos = Some (b, ns) \<longrightarrow> pos mod a = 0 \<longrightarrow> (pos + length b) mod a = 0)"

lemma keeps_alignedD: "keeps_aligned a p \<Longrightarrow> p g pos = Some (b, ns) \<Longrightarrow> pos mod a = 0 \<Longrightarrow> (pos + length b) mod a = 0"
  unfolding keeps_aligned_def by metis

lemma aligned_list: "(\<And>x. keeps_aligned a (f x)) \<Longrightarrow> keeps_aligned a (sp_list f xs)"
proof (induction xs)
  case (Cons x xs)
  show ?case unfolding keeps_aligned_def
  proof (intro allI impI)
    fix g pos b ns
    assume "sp_list f (x # xs) g pos = Some (b, ns)" "pos mod a = 0"
    then obtain b1 n1 b2 n2 where "f x g pos = Some (b1, n1)" "sp_list f xs g (pos + length b1) = Some (b2, n2)"
      "b = b1 @ b2" "pos mod a = 0" by (auto simp: sp_seq_Some)
    then show "(pos + length b) mod a = 0"
      using keeps_alignedD [OF Cons.prems] keeps_alignedD [OF Cons.IH [OF Cons.prems]]
      by (metis add.assoc length_append)
  qed
qed (simp add: keeps_aligned_def sp_skip_def)

lemma aligned_end: "0 < a \<Longrightarrow> keeps_aligned a (sp_seq p (sp_pad a))"
proof -
  assume a: "0 < a"
  have "(pos + length (b @ pad_bytes (pos + length b) a)) mod a = 0" for pos b
    using mod_pad [OF a, of "pos + length b"] by (simp add: add.assoc)
  then show ?thesis unfolding keeps_aligned_def sp_seq_Some sp_pad_Some by metis
qed

lemma aligned_noted: "keeps_aligned a p \<Longrightarrow> keeps_aligned a (noted t p)"
  unfolding keeps_aligned_def noted_def sp_seq_Some by (auto simp: sp_note_def)

lemma aligned_inode: "keeps_aligned 32 (whole_inode_script ii)"
  unfolding keeps_aligned_def by (cases ii) (auto elim!: whole_inode_Some simp del: length_append)

lemma aligned_xattr: "keeps_aligned 4 (xattr_script x)"
  unfolding xattr_script_def by (rule aligned_end) simp

lemma sp_check_seq_Some: "sp_seq (sp_check P) p g pos = Some (b, ns) \<longleftrightarrow> P pos \<and> p g pos = Some (b, ns)"
  by (auto simp: sp_seq_Some sp_check_def split: if_splits)

lemma aligned_dir_block: "keeps_aligned BLOCK_SIZE (dir_block_script b)"
proof -
  have "keeps_aligned BLOCK_SIZE (sp_seq (block_script b) (sp_pad BLOCK_SIZE))" by (rule aligned_end) simp
  then show ?thesis unfolding dir_block_script_def keeps_aligned_def sp_check_seq_Some by metis
qed

lemma aligned_blocks: "keeps_aligned BLOCK_SIZE (blocks_script i)"
proof -
  have "keeps_aligned a sp_skip" for a by (simp add: keeps_aligned_def sp_skip_def)
  then show ?thesis unfolding blocks_script_def
    by (cases "i_content i") (simp_all only: inode_content.case aligned_list aligned_dir_block)
qed

lemma mod_32_4: "n mod 32 = 0 \<Longrightarrow> n mod 4 = (0 :: nat)"
proof -
  assume "n mod 32 = 0"
  then obtain k where "n = 4 * (8 * k)" by (auto simp: mod_eq_0_iff_dvd elim!: dvdE)
  then show ?thesis by simp
qed

section \<open>What lies at the positions\<close>

lemma inode_at:
  assumes "image_parts ns xs g img ips xps bps" "idx < length ns"
  obtains u a inl where "placed img (ips ! idx) (extended_header_bytes
      (header_of (ns ! idx) (attrs_len (i_xattrs (ns ! idx))) (mode_of (ns ! idx)) u (ips ! idx)) @ a @ inl)"
    "ips ! idx mod 32 = 0" "content_u g idx (i_content (ns ! idx)) = Some u"
    "attrs_script (i_xattrs (ns ! idx)) g (ips ! idx + 64) = Some (a, [])"
    "inline_script (i_content (ns ! idx)) g (ips ! idx + 64 + length a) = Some (inl, [])"
proof -
  obtain nid e bi bx bb where run: "sp_list whole_inode_script (List.enumerate 0 ns) g 1152 = Some (bi, map (Pair OInode) ips)"
    and img: "img = magic_bytes @ zeros 992 @ superblock_bytes (the_superblock (length ns) nid e) @ bi @ bx @
       pad_bytes (1152 + length bi + length bx) 4096 @ bb"
    using assms(1) unfolding image_parts_def by blast
  have bi: "placed img 1152 bi"
    unfolding placed_def by (rule exI [of _ "magic_bytes @ zeros 992 @ superblock_bytes (the_superblock (length ns) nid e)"])
      (simp add: img)
  have e: "List.enumerate 0 ns ! idx = (idx, ns ! idx)" "idx < length (List.enumerate 0 ns)"
    using assms(2) by (simp_all add: nth_enumerate_eq)
  obtain b1 b b2 n1 where at: "whole_inode_script (idx, ns ! idx) g (1152 + length b1) = Some (b, [(OInode, ips ! idx)])"
    and split: "bi = b1 @ b @ b2"
    using sp_list_at [OF one_note_inode run e(2)] unfolding e(1) by blast
  have b: "placed img (1152 + length b1) b"
    by (rule placed_inside [OF bi]) (auto simp: placed_def split)
  from at show ?thesis
  proof (rule whole_inode_Some)
    fix pre p u a inl
    let ?h = "\<lambda>p. extended_header_bytes (header_of (ns ! idx) (attrs_len (i_xattrs (ns ! idx))) (mode_of (ns ! idx)) u p)"
    assume w: "b = pre @ ?h p @ a @ inl @ pad_bytes (p + 64 + length a + length inl) 32" "p = 1152 + length b1 + length pre"
      "p mod 32 = 0" "[(OInode, ips ! idx)] = [(OInode, p)]" "content_u g idx (i_content (ns ! idx)) = Some u"
      "attrs_script (i_xattrs (ns ! idx)) g (p + 64) = Some (a, [])"
      "inline_script (i_content (ns ! idx)) g (p + 64 + length a) = Some (inl, [])"
    have "placed b (length pre) (?h p @ a @ inl)"
      unfolding placed_def w(1) by (rule exI [of _ pre]) simp
    from placed_inside [OF b this] have "placed img p (?h p @ a @ inl)" by (simp add: w(2))
    then show ?thesis using that w by simp
  qed
qed

lemma xattrs_start:
  assumes "image_parts ns xs g img ips xps bps"
  obtains bi :: bytes and bx where "(1152 + length bi) mod 32 = 0"
    "sp_list (\<lambda>x. noted OXAttr (xattr_script x)) xs g (1152 + length bi) = Some (bx, map (Pair OXAttr) xps)"
    "placed img (1152 + length bi) bx"
proof -
  obtain nid e bi bx bb where run: "sp_list whole_inode_script (List.enumerate 0 ns) g 1152 = Some (bi, map (Pair OInode) ips)"
    and x: "sp_list (\<lambda>x. noted OXAttr (xattr_script x)) xs g (1152 + length bi) = Some (bx, map (Pair OXAttr) xps)"
    and img: "img = magic_bytes @ zeros 992 @ superblock_bytes (the_superblock (length ns) nid e) @ bi @ bx @
       pad_bytes (1152 + length bi + length bx) 4096 @ bb"
    using assms unfolding image_parts_def by blast
  have start: "(1152 + length bi) mod 32 = 0"
    by (rule keeps_alignedD [OF aligned_list run]) (simp_all add: aligned_inode)
  have "placed img (1152 + length bi) bx"
    unfolding placed_def by (rule exI [of _ "magic_bytes @ zeros 992 @ superblock_bytes (the_superblock (length ns) nid e) @ bi"])
      (simp add: img)
  then show ?thesis by (rule that [OF start x])
qed

lemma xattr_at:
  assumes "image_parts ns xs g img ips xps bps" "j < length xs"
  shows "placed img (xps ! j) (xattr_bytes (xs ! j) @ pad_bytes (xps ! j + length (xattr_bytes (xs ! j))) 4) \<and> xps ! j mod 4 = 0"
proof -
  obtain bi :: bytes and bx where start: "(1152 + length bi) mod 32 = 0"
    and run: "sp_list (\<lambda>x. noted OXAttr (xattr_script x)) xs g (1152 + length bi) = Some (bx, map (Pair OXAttr) xps)"
    and bx: "placed img (1152 + length bi) bx" using xattrs_start [OF assms(1)] .
  have one: "one_note OXAttr (noted OXAttr (xattr_script x))" for x by (rule one_note_noted [OF silent_xattr])
  obtain b1 b b2 n1 where pre: "sp_list (\<lambda>x. noted OXAttr (xattr_script x)) (take j xs) g (1152 + length bi) = Some (b1, n1)"
    and at: "noted OXAttr (xattr_script (xs ! j)) g (1152 + length bi + length b1) = Some (b, [(OXAttr, xps ! j)])"
    and split: "bx = b1 @ b @ b2"
    by (rule sp_list_at [of OXAttr "\<lambda>x. noted OXAttr (xattr_script x)", OF one run assms(2)])
  have "(1152 + length bi + length b1) mod 4 = 0"
    by (rule keeps_alignedD [OF aligned_list pre mod_32_4 [OF start]]) (rule aligned_noted [OF aligned_xattr])
  moreover have "xps ! j = 1152 + length bi + length b1"
    "b = xattr_bytes (xs ! j) @ pad_bytes (xps ! j + length (xattr_bytes (xs ! j))) 4"
    using at by (auto simp: noted_def sp_seq_Some sp_note_Some xattr_script_def sp_write_Some sp_pad_Some)
  moreover have "placed img (1152 + length bi + length b1) b"
    by (rule placed_inside [OF bx]) (auto simp: placed_def split)
  ultimately show ?thesis by simp
qed

lemma blocks_at:
  assumes "image_parts ns xs g img ips xps bps" "idx < length ns"
  obtains b where "blocks_script (ns ! idx) g (bps ! idx) = Some (b, [])" "placed img (bps ! idx) b" "bps ! idx mod 4096 = 0"
proof -
  obtain nid e bi bx bb where run: "sp_list (\<lambda>i. noted OBlock (blocks_script i)) ns g (block_start bi bx) = Some (bb, map (Pair OBlock) bps)"
    and img: "img = magic_bytes @ zeros 992 @ superblock_bytes (the_superblock (length ns) nid e) @ bi @ bx @
       pad_bytes (1152 + length bi + length bx) 4096 @ bb"
    using assms(1) unfolding image_parts_def by blast
  have bb: "placed img (block_start bi bx) bb"
    unfolding placed_def by (rule exI [of _ "magic_bytes @ zeros 992 @ superblock_bytes (the_superblock (length ns) nid e) @ bi @ bx @
       pad_bytes (1152 + length bi + length bx) 4096"])
      (use round_up_ge [of 4096 "1152 + length bi + length bx"] in \<open>simp add: img block_start_def\<close>)
  obtain b1 b b2 n1 where pre: "sp_list (\<lambda>i. noted OBlock (blocks_script i)) (take idx ns) g (block_start bi bx) = Some (b1, n1)"
    and at: "noted OBlock (blocks_script (ns ! idx)) g (block_start bi bx + length b1) = Some (b, [(OBlock, bps ! idx)])"
    and split: "bb = b1 @ b @ b2"
    by (rule sp_list_at [of OBlock "\<lambda>i. noted OBlock (blocks_script i)", OF one_note_blocks run assms(2)])
  have "keeps_aligned BLOCK_SIZE (sp_list (\<lambda>i. noted OBlock (blocks_script i)) (take idx ns))"
    by (rule aligned_list) (rule aligned_noted [OF aligned_blocks])
  from keeps_alignedD [OF this pre] have "(block_start bi bx + length b1) mod BLOCK_SIZE = 0"
    by (simp add: block_start_def)
  moreover have "bps ! idx = block_start bi bx + length b1" "blocks_script (ns ! idx) g (bps ! idx) = Some (b, [])"
    using at quiet_blocks [of "ns ! idx"] by (auto simp: noted_def sp_seq_Some sp_note_Some quiet_def)
  moreover have "placed img (block_start bi bx + length b1) b"
    by (rule placed_inside [OF bb]) (auto simp: placed_def split)
  ultimately show ?thesis using that by simp
qed


section \<open>Both passes\<close>

abbreviation first_init :: first_pass where "first_init \<equiv> \<lparr>fp_offset = 0, fp_layout = empty_layout\<rparr>"

lemma oblivious_noted [oblivious_intros]: "oblivious p \<Longrightarrow> oblivious (noted t p)"
  unfolding noted_def by (intro oblivious_intros)

lemma oblivious_superblock [oblivious_intros]: "oblivious (superblock_script n)"
  unfolding superblock_script_def by (rule oblivious_put) (auto simp: bind_eq_Some_conv)

lemma oblivious_whole_inode [oblivious_intros]: "oblivious (whole_inode_script ii)"
  by (cases ii) (simp add: whole_inode_script_def oblivious_inode)

lemma oblivious_image: "oblivious (image_script ns xs)"
  unfolding image_script_def by (intro oblivious_intros)

lemma first_run:
  "write_erofs FirstPass ns xs first_init = Some s \<longleftrightarrow> (\<exists>b log. image_script ns xs no_offsets 0 = Some (b, log) \<and>
     fp_offset s = length b \<and> fold_opt log_note log empty_layout = Some (fp_layout s))"
proof -
  have "get_offset FirstPass first_init = no_offsets" "out_len FirstPass first_init = 0"
    by (simp_all add: FirstPass_def)
  then have "write_erofs FirstPass ns xs first_init = (case image_script ns xs no_offsets 0 of None \<Rightarrow> None
      | Some (b, log) \<Rightarrow> fp_emit b log first_init)"
    using followsD [OF first.follows_image, of ns xs first_init] by simp
  then show ?thesis by (cases s) (auto simp: fp_emit_def split: option.splits)
qed

lemma second_run:
  "write_erofs SecondPass ns xs \<lparr>sp_output = [], sp_layout = l\<rparr> = Some s \<longleftrightarrow>
     (\<exists>b log. image_script ns xs (layout_get l) 0 = Some (b, log) \<and> s = \<lparr>sp_output = b, sp_layout = l\<rparr>)"
proof -
  let ?s = "\<lparr>sp_output = [], sp_layout = l\<rparr>"
  have "get_offset SecondPass ?s = layout_get l" "out_len SecondPass ?s = 0"
    by (simp_all add: SecondPass_def)
  then have "write_erofs SecondPass ns xs ?s = (case image_script ns xs (layout_get l) 0 of None \<Rightarrow> None
      | Some (b, log) \<Rightarrow> sp_emit b log ?s)"
    using followsD [OF second.follows_image, of ns xs ?s] by simp
  then show ?thesis by (auto simp: sp_emit_def split: option.splits)
qed

definition known :: "offset_getter \<Rightarrow> nat list \<Rightarrow> nat list \<Rightarrow> nat list \<Rightarrow> nat \<Rightarrow> bool" where
  "known g ips xps bps e \<longleftrightarrow> (\<forall>t. \<forall>i < length (positions ips xps bps e t). g t i = Some (positions ips xps bps e t ! i))"

lemma known_layout:
  assumes "fold_opt log_note (log_of (positions ips xps bps e) 6) empty_layout = Some l"
  shows "known (layout_get l) ips xps bps e"
  unfolding known_def using layout_get_log [OF _ assms] by (simp add: positions_def)

text \<open>What the first pass noted is where the second pass writes.\<close>

lemma passes_agree:
  assumes "write_erofs FirstPass ns xs first_init = Some s"
    and "write_erofs SecondPass ns xs \<lparr>sp_output = [], sp_layout = fp_layout s\<rparr> = Some s2"
  obtains ips xps bps where "image_parts ns xs (layout_get (fp_layout s)) (sp_output s2) ips xps bps"
    "known (layout_get (fp_layout s)) ips xps bps (length (sp_output s2))" "fp_offset s = length (sp_output s2)"
proof -
  obtain b log where f: "image_script ns xs no_offsets 0 = Some (b, log)" "fp_offset s = length b"
    "fold_opt log_note log empty_layout = Some (fp_layout s)" using assms(1) by (auto simp: first_run)
  obtain log' where g: "image_script ns xs (layout_get (fp_layout s)) 0 = Some (sp_output s2, log')"
    using assms(2) by (auto simp: second_run)
  have eq: "length b = length (sp_output s2)" "log = log'"
    using obliviousD [OF oblivious_image f(1) g] by simp_all
  obtain ips xps bps where "image_parts ns xs (layout_get (fp_layout s)) (sp_output s2) ips xps bps"
    "log' = log_of (positions ips xps bps (length (sp_output s2))) 6" using image_script_parts [OF g] .
  then show ?thesis using that known_layout f(2,3) eq by simp
qed

section \<open>The second pass does not panic\<close>

definition answers :: "offset_getter \<Rightarrow> script \<Rightarrow> bool" where
  "answers g p \<longleftrightarrow> (\<forall>pos. p no_offsets pos \<noteq> None \<longrightarrow> p g pos \<noteq> None)"

lemma answers_put: "(\<And>pos. e g pos \<noteq> None) \<Longrightarrow> answers g (sp_put e)"
  by (simp add: answers_def sp_put_def)

lemma answers_fixed: "answers g (sp_write b)" "answers g (sp_pad a)" "answers g sp_skip" "answers g (sp_note t)"
    "answers g (sp_check P)"
  by (simp_all add: answers_def sp_write_def sp_pad_def sp_put_def sp_skip_def sp_note_def sp_check_def)

lemma answers_seq:
  assumes "oblivious p" "answers g p" "answers g q"
  shows "answers g (sp_seq p q)"
  unfolding answers_def
proof (intro allI impI)
  fix pos
  assume "sp_seq p q no_offsets pos \<noteq> None"
  then obtain b ns c ms where s: "p no_offsets pos = Some (b, ns)" "q no_offsets (pos + length b) = Some (c, ms)"
    by (auto simp: sp_seq_Some)
  obtain b' ns' where p: "p g pos = Some (b', ns')" using assms(2) s(1) by (fastforce simp: answers_def)
  have "length b' = length b" using obliviousD [OF assms(1) s(1) p] by simp
  then obtain c' ms' where "q g (pos + length b') = Some (c', ms')" using assms(3) s(2) by (fastforce simp: answers_def)
  with p show "sp_seq p q g pos \<noteq> None" by (simp add: sp_seq_def)
qed

lemma answers_list: "(\<And>x. oblivious (f x)) \<Longrightarrow> (\<And>x. x \<in> set xs \<Longrightarrow> answers g (f x)) \<Longrightarrow> answers g (sp_list f xs)"
  by (induction xs) (auto intro!: answers_seq oblivious_intros answers_fixed)

definition content_dirents :: "inode_content \<Rightarrow> dirent list" where
  "content_dirents c = (case c of DirContent d \<Rightarrow> concat (dir_blocks d) @ dir_inline d | LeafContent _ _ \<Rightarrow> [])"

text \<open>The references of an inode are in range.\<close>

definition refs_ok :: "nat \<Rightarrow> nat \<Rightarrow> inode_rec \<Rightarrow> bool" where
  "refs_ok n m i \<longleftrightarrow> (\<forall>e \<in> set (content_dirents (i_content i)). de_inode e < n) \<and> (\<forall>j \<in> set (shared_ids (i_xattrs i)). j < m)"

definition gets_ok :: "offset_getter \<Rightarrow> nat \<Rightarrow> nat \<Rightarrow> bool" where
  "gets_ok g n m \<longleftrightarrow> (\<forall>i < n. get_nid g i \<noteq> None \<and> g OBlock i \<noteq> None) \<and> (\<forall>j < m. get_xattr g j \<noteq> None) \<and> g OEnd 0 \<noteq> None"

lemma answers_attrs: "gets_ok g n m \<Longrightarrow> \<forall>j \<in> set (shared_ids a). j < m \<Longrightarrow> answers g (attrs_script a)"
  unfolding attrs_script_def xattr_script_def
  by (auto intro!: answers_seq answers_list answers_fixed answers_put oblivious_intros simp: gets_ok_def)

lemma answers_dirents: "gets_ok g n m \<Longrightarrow> \<forall>e \<in> set es. de_inode e < n \<Longrightarrow> answers g (dirents_script es k)"
  by (induction es k rule: dirents_script.induct)
    (auto simp: dirent_script_def gets_ok_def intro!: answers_seq answers_fixed answers_put oblivious_intros)

lemma answers_block: "gets_ok g n m \<Longrightarrow> \<forall>e \<in> set es. de_inode e < n \<Longrightarrow> answers g (block_script es)"
  unfolding block_script_def by (intro answers_seq answers_list answers_fixed oblivious_intros answers_dirents)

lemma answers_blocks: "gets_ok g n m \<Longrightarrow> refs_ok n m i \<Longrightarrow> answers g (blocks_script i)"
proof (cases "i_content i")
  case (DirContent d)
  assume g: "gets_ok g n m" "refs_ok n m i"
  have o: "oblivious (dir_block_script b)" for b
    unfolding dir_block_script_def by (intro oblivious_intros)
  have "answers g (dir_block_script b)" if "b \<in> set (dir_blocks d)" for b
    unfolding dir_block_script_def using g that DirContent
    by (intro answers_seq answers_fixed oblivious_intros answers_block [of g n m])
      (auto simp: refs_ok_def content_dirents_def)
  then show ?thesis using DirContent o by (simp add: blocks_script_def answers_list)
qed (simp add: blocks_script_def answers_fixed)

lemma answers_inode:
  assumes "gets_ok g n m" "refs_ok n m i" "idx < n"
  shows "answers g (whole_inode_script (idx, i))"
proof -
  have u: "content_u g idx (i_content i) \<noteq> None"
    using assms by (cases "i_content i") (auto simp: content_u_def gets_ok_def)
  have a: "answers g (attrs_script (i_xattrs i))" using assms by (auto simp: refs_ok_def intro: answers_attrs)
  have inl: "answers g (inline_script (i_content i))"
    using assms by (cases "i_content i") (auto simp: inline_script_def refs_ok_def content_dirents_def
        intro!: answers_block answers_fixed)
  have o: "oblivious (inline_script (i_content i))"
    by (cases "i_content i") (auto simp: inline_script_def intro!: oblivious_intros)
  have p: "answers g (inline_pad_script x y)" "oblivious (inline_pad_script x y)" for x y
  proof -
    have "answers g (if c then sp_seq (sp_write z) (sp_pad 32) else sp_skip)" for c z
      by (auto intro!: answers_seq answers_fixed oblivious_intros)
    then show "answers g (inline_pad_script x y)"
      unfolding inline_pad_script_def answers_def sp_at_def Let_def by blast
    show "oblivious (inline_pad_script x y)"
      unfolding inline_pad_script_def Let_def by (auto intro!: oblivious_intros)
  qed
  show ?thesis
    unfolding whole_inode_script_def inode_script_def prod.case
    by (intro answers_seq answers_fixed oblivious_intros a inl o answers_put)
      (use p u in \<open>auto intro: answers_fixed oblivious_intros\<close>)
qed

lemma answers_image:
  assumes "gets_ok g (length ns) (length xs)" "ns \<noteq> []" "\<forall>i \<in> set ns. refs_ok (length ns) (length xs) i"
  shows "answers g (image_script ns xs)"
proof -
  have n: "answers g (noted t p)" if "answers g p" for t p
    unfolding noted_def by (intro answers_seq answers_fixed oblivious_intros that)
  have sb: "answers g (superblock_script k)" for k
    unfolding superblock_script_def using assms(1,2)
    by (intro answers_put) (auto simp: gets_ok_def bind_eq_None_conv)
  have i: "answers g (whole_inode_script ii)" if "ii \<in> set (List.enumerate 0 ns)" for ii
  proof -
    obtain idx i where ii: "ii = (idx, i)" by (cases ii)
    then have "idx < length ns" "i \<in> set ns" using that by (auto simp: in_set_enumerate_eq)
    then show ?thesis using ii assms answers_inode by blast
  qed
  have x: "answers g (xattr_script x)" for x
    unfolding xattr_script_def by (intro answers_seq answers_fixed oblivious_intros)
  have b: "answers g (blocks_script i)" if "i \<in> set ns" for i
    using answers_blocks [OF assms(1)] assms(3) that by blast
  show ?thesis unfolding image_script_def
    by (intro answers_seq answers_list answers_fixed oblivious_intros n sb i x b)
qed


text \<open>The first pass never panics: blocks start aligned, and \<open>get\<close> always answers 0.\<close>

definition runs :: "script \<Rightarrow> bool" where "runs p \<longleftrightarrow> (\<forall>pos. p no_offsets pos \<noteq> None)"

lemma runs_seq:
  assumes "runs p" "runs q"
  shows "runs (sp_seq p q)"
  unfolding runs_def
proof
  fix pos
  obtain b ns where p: "p no_offsets pos = Some (b, ns)" using assms(1) by (fastforce simp: runs_def)
  obtain c ms where "q no_offsets (pos + length b) = Some (c, ms)" using assms(2) by (fastforce simp: runs_def)
  with p show "sp_seq p q no_offsets pos \<noteq> None" by (simp add: sp_seq_def)
qed

lemma runs_silent: "silent p \<Longrightarrow> runs p"
  by (simp add: runs_def silent_def)

lemma runs_list: "(\<And>x. runs (f x)) \<Longrightarrow> runs (sp_list f xs)"
  by (induction xs) (auto intro: runs_seq runs_silent silent_fixed)

lemma runs_noted: "runs p \<Longrightarrow> runs (noted t p)"
proof -
  have "runs (sp_note t)" by (simp add: runs_def sp_note_def)
  then show "runs p \<Longrightarrow> runs (noted t p)" unfolding noted_def by (intro runs_seq)
qed

lemma runs_aligned_list:
  assumes "\<And>x. keeps_aligned a (f x)" "\<And>x pos. pos mod a = 0 \<Longrightarrow> f x no_offsets pos \<noteq> None"
  shows "pos mod a = 0 \<Longrightarrow> sp_list f xs no_offsets pos \<noteq> None"
proof (induction xs arbitrary: pos)
  case (Cons x xs)
  obtain b ns where x: "f x no_offsets pos = Some (b, ns)" using assms(2) Cons.prems by fastforce
  from Cons.IH [OF keeps_alignedD [OF assms(1) x Cons.prems]] show ?case
    using x by (auto simp: sp_seq_def)
qed (simp add: sp_skip_def)

lemma runs_blocks: "pos mod BLOCK_SIZE = 0 \<Longrightarrow> blocks_script i no_offsets pos \<noteq> None"
proof (cases "i_content i")
  case (DirContent d)
  assume pos: "pos mod BLOCK_SIZE = 0"
  have "runs (sp_seq (block_script b) (sp_pad BLOCK_SIZE))" for b
    by (intro runs_seq runs_silent silent_block silent_fixed)
  then have "dir_block_script b no_offsets k \<noteq> None" if "k mod BLOCK_SIZE = 0" for b k
    using that by (simp add: dir_block_script_def runs_def sp_seq_def [of "sp_check _"] sp_check_def)
  then have "sp_list dir_block_script (dir_blocks d) no_offsets pos \<noteq> None"
    by (intro runs_aligned_list [OF aligned_dir_block _ pos])
  then show ?thesis using DirContent by (simp add: blocks_script_def)
qed (simp add: blocks_script_def sp_skip_def)

lemma runs_whole_inode: "runs (whole_inode_script ii)"
proof (cases ii)
  case (Pair idx i)
  have "runs (inline_pad_script x y)" for x y
  proof -
    have "runs (if c then sp_seq (sp_write z) (sp_pad 32) else sp_skip)" for c z
      by (cases c) (simp_all add: runs_seq runs_silent silent_fixed)
    then show ?thesis unfolding inline_pad_script_def runs_def sp_at_def Let_def by blast
  qed
  then have pad: "runs (if c then inline_pad_script x y else sp_skip)" for c x y
    by (auto intro: runs_silent silent_fixed)
  have inl: "runs (inline_script (i_content i))"
    by (cases "i_content i") (auto simp: inline_script_def intro!: runs_silent silent_block silent_fixed)
  have nt: "runs (sp_note t)" for t by (simp add: runs_def sp_note_def)
  have u: "runs (sp_put (\<lambda>g pos. map_option (f pos) (content_u g idx (i_content i))))" for f
    by (cases "i_content i") (simp_all add: runs_def sp_put_def content_u_def)
  show ?thesis unfolding Pair whole_inode_script_def inode_script_def prod.case
    by (intro runs_seq pad inl nt u runs_silent [OF silent_attrs] runs_silent [OF silent_fixed(2)])
qed

lemma image_script_runs: "image_script ns xs no_offsets 0 \<noteq> None"
proof -
  have w: "runs (sp_write b)" "runs (sp_pad a)" for a b by (intro runs_silent silent_fixed)+
  have sb: "runs (superblock_script n)" for n
    by (simp add: runs_def superblock_script_def sp_put_def)
  let ?p = "sp_seq (noted OHeader (sp_write magic_bytes)) (sp_seq (sp_pad 1024)
    (sp_seq (noted OSuperblock (superblock_script (length ns)))
    (sp_seq (sp_list whole_inode_script (List.enumerate 0 ns))
    (sp_seq (sp_list (\<lambda>x. noted OXAttr (xattr_script x)) xs) (sp_pad 4096)))))"
  let ?q = "sp_seq (sp_list (\<lambda>i. noted OBlock (blocks_script i)) ns) (sp_note OEnd)"
  have eq: "image_script ns xs = sp_seq ?p ?q" by (simp add: image_script_def sp_seq_assoc)
  have "runs ?p"
    by (intro runs_seq runs_list runs_noted w sb runs_whole_inode runs_silent [OF silent_xattr])
  then obtain b l where p: "?p no_offsets 0 = Some (b, l)" unfolding runs_def by fastforce
  have "keeps_aligned 4096 ?p"
    unfolding sp_seq_assoc [symmetric] by (rule aligned_end) simp
  from keeps_alignedD [OF this, of no_offsets 0 b l] p have al: "length b mod BLOCK_SIZE = 0" by simp
  have "noted OBlock (blocks_script i) no_offsets pos \<noteq> None" if "pos mod BLOCK_SIZE = 0" for i pos
    using runs_blocks [OF that, of i] by (cases "blocks_script i no_offsets pos") (auto simp: noted_def sp_seq_def sp_note_def)
  then have "sp_list (\<lambda>i. noted OBlock (blocks_script i)) ns no_offsets (length b) \<noteq> None"
    by (rule runs_aligned_list [OF aligned_noted [OF aligned_blocks] _ al])
  then show ?thesis using p by (auto simp: eq sp_seq_def [of _ ?q] sp_seq_def [of _ "sp_note OEnd"] sp_note_def)
qed

lemma first_pass_runs: "\<exists>s. write_erofs FirstPass ns xs first_init = Some s"
proof -
  obtain b log where b: "image_script ns xs no_offsets 0 = Some (b, log)" using image_script_runs by fastforce
  obtain ips xps bps where "log = log_of (positions ips xps bps (length b)) 6" using image_script_parts [OF b] .
  then obtain l where "fold_opt log_note log empty_layout = Some l" using laid_log [of 6] by blast
  then have "write_erofs FirstPass ns xs first_init = Some \<lparr>fp_offset = length b, fp_layout = l\<rparr>"
    using b by (subst first_run) simp
  then show ?thesis ..
qed

lemma placed_le: "placed img p b \<Longrightarrow> p + length b \<le> length img"
  by (auto simp: placed_def)

lemma known_gets_ok:
  assumes parts: "image_parts ns xs g' img ips xps bps" and k: "known g ips xps bps e" and len: "length img < 2 ^ 34"
  shows "gets_ok g (length ns) (length xs)"
proof -
  have lens: "length ips = length ns" "length xps = length xs" "length bps = length ns"
    using parts unfolding image_parts_def by blast+
  have g: "\<And>i. i < length ns \<Longrightarrow> g OInode i = Some (ips ! i)" "\<And>i. i < length ns \<Longrightarrow> g OBlock i = Some (bps ! i)"
    "\<And>j. j < length xs \<Longrightarrow> g OXAttr j = Some (xps ! j)" "g OEnd 0 = Some e"
    using k lens by (auto simp: known_def positions_def dest: spec [of _ OInode] spec [of _ OBlock] spec [of _ OXAttr] spec [of _ OEnd])
  have "get_nid g i \<noteq> None" if "i < length ns" for i
  proof -
    have "ips ! i mod 32 = 0" by (rule inode_at [OF parts that])
    then show ?thesis using g(1) [OF that] by (simp add: get_nid_def get_div_def)
  qed
  moreover have "get_xattr g j \<noteq> None" if "j < length xs" for j
  proof -
    have "xps ! j mod 4 = 0" "xps ! j \<le> length img"
      using xattr_at [OF parts that] placed_le by fastforce+
    then have "xps ! j mod 4 = 0" "xps ! j div 4 < 2 ^ 32" using len by auto
    then show ?thesis using g(3) [OF that] len by (simp add: get_xattr_def get_div_def)
  qed
  ultimately show ?thesis using g by (simp add: gets_ok_def)
qed

lemma second_pass_runs:
  assumes "write_erofs FirstPass ns xs first_init = Some s" "fp_offset s < 2 ^ 34" "ns \<noteq> []"
    and "\<forall>i \<in> set ns. refs_ok (length ns) (length xs) i"
  shows "\<exists>s2. write_erofs SecondPass ns xs \<lparr>sp_output = [], sp_layout = fp_layout s\<rparr> = Some s2"
proof -
  obtain b log where f: "image_script ns xs no_offsets 0 = Some (b, log)" "fp_offset s = length b"
    "fold_opt log_note log empty_layout = Some (fp_layout s)" using assms(1) by (auto simp: first_run)
  obtain ips xps bps where parts: "image_parts ns xs no_offsets b ips xps bps"
    and log: "log = log_of (positions ips xps bps (length b)) 6" using image_script_parts [OF f(1)] .
  have "gets_ok (layout_get (fp_layout s)) (length ns) (length xs)"
    by (rule known_gets_ok [OF parts known_layout]) (use f assms(2) log in auto)
  from answers_image [OF this assms(3,4)] have "image_script ns xs (layout_get (fp_layout s)) 0 \<noteq> None"
    using f(1) by (simp add: answers_def)
  then show ?thesis by (auto simp: second_run)
qed

end
