(* ===== verification/Erofs_Inodes.thy ===== *)
theory Erofs_Inodes
  imports Erofs_Writer "HOL-Library.Multiset"
begin

text \<open>
  What the first half of \<open>erofs/writer.rs\<close> computes: how \<open>Directory::from_entries\<close> splits entries
  into blocks, which attributes an inode gets, that sharing loses none of them, and that the table of
  inodes that \<open>InodeCollector\<close> builds stands for the tree.
\<close>

section \<open>Directories in blocks\<close>

definition total_size :: "dirent list \<Rightarrow> nat" where
  "total_size es = sum_list (map dirent_size es)"

lemma total_size_simps [simp]:
  "total_size [] = 0" "total_size (es @ es') = total_size es + total_size es'" "total_size [e] = dirent_size e"
  by (simp_all add: total_size_def)

lemma entries_loop_Some:
  assumes "entries_loop es bs rest k nl = Some (bs', rest', k', nl')"
    and "\<forall>b \<in> set bs. b \<noteq> [] \<and> total_size b \<le> 4096" "total_size rest = k" "k \<le> 4096"
  shows "concat bs' @ rest' = concat bs @ rest @ es \<and> (\<forall>b \<in> set bs'. b \<noteq> [] \<and> total_size b \<le> 4096) \<and>
    total_size rest' = k' \<and> k' \<le> 4096"
  using assms
proof (induction es arbitrary: bs rest k nl)
  case (Cons e es)
  have e: "dirent_size e \<le> 4096" using Cons.prems(1) by (auto simp: assert_p_def split: if_splits)
  show ?case
  proof (cases "k + dirent_size e \<le> 4096")
    case True
    then have "entries_loop es bs (rest @ [e]) (k + dirent_size e) (if de_type e = FDirectory then nl + 1 else nl) = Some (bs', rest', k', nl')"
      using Cons.prems(1) e by simp
    from Cons.IH [OF this Cons.prems(2)] show ?thesis using Cons.prems(3) True by simp
  next
    case False
    then have run: "entries_loop es (bs @ [rest]) [e] (dirent_size e) (if de_type e = FDirectory then nl + 1 else nl) = Some (bs', rest', k', nl')"
      using Cons.prems(1) e by simp
    have "rest \<noteq> []" using False e Cons.prems(3) by auto
    then have "\<forall>b \<in> set (bs @ [rest]). b \<noteq> [] \<and> total_size b \<le> 4096"
      using Cons.prems(2-4) by simp
    from Cons.IH [OF run this _ e] show ?thesis by simp
  qed
qed simp

lemma from_entries_blocks:
  assumes "from_entries es = Some d"
  shows "concat (dir_blocks d) @ dir_inline d = es" "\<forall>b \<in> set (dir_blocks d). b \<noteq> [] \<and> total_size b \<le> 4096"
    "total_size (dir_inline d) \<le> 2048" "dir_size d = 4096 * length (dir_blocks d) + total_size (dir_inline d)"
proof -
  obtain bs rest k nl where run: "entries_loop es [] [] 0 0 = Some (bs, rest, k, nl)"
    and d: "d = (if 2048 < k then \<lparr>dir_blocks = bs @ [rest], dir_inline = [], dir_size = 4096 * Suc (length bs), dir_links = nl\<rparr>
      else \<lparr>dir_blocks = bs, dir_inline = rest, dir_size = 4096 * length bs + k, dir_links = nl\<rparr>)"
    using assms by (auto simp: from_entries_def bind_eq_Some_conv split: if_splits)
  from entries_loop_Some [OF run] have f: "concat bs @ rest = es" "\<forall>b \<in> set bs. b \<noteq> [] \<and> total_size b \<le> 4096"
    "total_size rest = k" "k \<le> 4096" by simp_all
  show "concat (dir_blocks d) @ dir_inline d = es" "\<forall>b \<in> set (dir_blocks d). b \<noteq> [] \<and> total_size b \<le> 4096"
    "total_size (dir_inline d) \<le> 2048" "dir_size d = 4096 * length (dir_blocks d) + total_size (dir_inline d)"
    using f by (auto simp: d)
qed

lemma entries_loop_runs: "\<forall>e \<in> set es. dirent_size e \<le> 4096 \<Longrightarrow> entries_loop es bs rest k nl \<noteq> None"
  by (induction es arbitrary: bs rest k nl) (auto simp: assert_p_def)

lemma from_entries_runs: "\<forall>e \<in> set es. dirent_size e \<le> 4096 \<Longrightarrow> \<exists>d. from_entries es = Some d"
  using entries_loop_runs [of es "[]" "[]" 0 0] by (fastforce simp: from_entries_def)

section \<open>Attributes\<close>

fun split_name :: "(nat \<times> bytes) list \<Rightarrow> bytes \<Rightarrow> nat \<times> bytes" where
  "split_name [] name = (0, name)"
| "split_name ((idx, p) # ps) name = (case strip_prefix p name of Some sfx \<Rightarrow> (idx, sfx) | None \<Rightarrow> split_name ps name)"

definition attr_of :: "bytes \<times> bytes \<Rightarrow> xattr" where
  "attr_of nv = (let (idx, sfx) = split_name (rev (List.enumerate 0 XATTR_PREFIXES)) (fst nv) in XAttr (of_nat idx) sfx (snd nv))"

definition overlay_pairs :: "hex_crate \<Rightarrow> hash_alg \<Rightarrow> inode_content \<Rightarrow> (bytes \<times> bytes) list" where
  "overlay_pairs hx H c = (case c of
       LeafContent (Regular (External oid _)) _ \<Rightarrow>
         [(''trusted.overlay.metacopy'', metacopy_bytes H oid),
          (''trusted.overlay.redirect'', CHR ''/'' # to_object_pathname hx oid)]
     | _ \<Rightarrow> [])"

text \<open>The attributes of an inode, before sharing.\<close>

definition attrs_of :: "hex_crate \<Rightarrow> hash_alg \<Rightarrow> stat \<Rightarrow> inode_content \<Rightarrow> xattr list" where
  "attrs_of hx H st c = map attr_of (overlay_pairs hx H c @ map (\<lambda>(n, v). (escape_attr n, v)) (xattrs st))"

lemma bit_or_nonzero: "k < 32 \<Longrightarrow> (w :: u32) OR push_bit k 1 \<noteq> 0"
proof -
  assume k: "k < 32"
  have "bit (w OR push_bit k 1) k" using k by (simp add: bit_simps)
  then show ?thesis by (metis bit_0_eq bot_apply bot_bool_def)
qed

lemma add_loop_Some:
  assumes "add_loop xxh32 ps name v a = Some a'"
  shows "shared_ids a' = shared_ids a \<and> attr_filter a' \<noteq> 0 \<and>
    local_attrs a' = local_attrs a @ [let (idx, sfx) = split_name ps name in XAttr (of_nat idx) sfx v]"
  using assms
proof (induction xxh32 ps name v a rule: add_loop.induct)
  case (2 xxh32 idx p ps name v a)
  show ?case
  proof (cases "strip_prefix p name")
    case (Some sfx)
    have "unat (h mod 32) < 32" for h :: u32
    proof -
      have "h mod 32 < 32" by (rule word_mod_less_divisor) simp
      then show ?thesis by (simp add: word_less_nat_alt)
    qed
    then show ?thesis using 2 Some bit_or_nonzero by auto
  qed (use 2 in simp)
qed simp

lemma add_attr_runs: "\<exists>a'. add_attr xxh32 name v a = Some a'"
proof -
  have "rev (List.enumerate 0 XATTR_PREFIXES) = rev (tl (List.enumerate 0 XATTR_PREFIXES)) @ [(0, [])]"
    by (simp add: XATTR_PREFIXES_def)
  moreover have "\<exists>a'. add_loop xxh32 (ps @ [(0, [])]) name v a = Some a'" for ps
  proof (induction ps)
    case (Cons p ps)
    then show ?case by (cases p) (auto split: option.split)
  qed (simp add: strip_prefix_def starts_with_def)
  ultimately show ?thesis by (simp add: add_attr_def)
qed

lemma add_attr_Some:
  assumes "add_attr xxh32 name v a = Some a'"
  shows "shared_ids a' = shared_ids a \<and> attr_filter a' \<noteq> 0 \<and> local_attrs a' = local_attrs a @ [attr_of (name, v)]"
  using add_loop_Some [OF assms [unfolded add_attr_def]] by (simp add: attr_of_def)

definition plain_attrs :: "attr_set \<Rightarrow> xattr list \<Rightarrow> bool" where
  "plain_attrs a as \<longleftrightarrow> shared_ids a = [] \<and> local_attrs a = as \<and> (attr_filter a = 0 \<longleftrightarrow> as = [])"

lemma plain_add: "plain_attrs a as \<Longrightarrow> add_attr xxh32 n v a = Some a' \<Longrightarrow> plain_attrs a' (as @ [attr_of (n, v)])"
  using add_attr_Some [of xxh32 n v a a'] by (simp add: plain_attrs_def)

lemma plain_fold:
  assumes "plain_attrs a as"
  shows "\<exists>a'. fold_opt (\<lambda>(n, v) a. add_attr xxh32 (escape_attr n) v a) nvs a = Some a' \<and>
    plain_attrs a' (as @ map attr_of (map (\<lambda>(n, v). (escape_attr n, v)) nvs))"
  using assms
proof (induction nvs arbitrary: a as)
  case (Cons nv nvs)
  obtain n v where nv: "nv = (n, v)" by (cases nv)
  obtain a1 where a1: "add_attr xxh32 (escape_attr n) v a = Some a1" using add_attr_runs by blast
  from Cons.IH [OF plain_add [OF Cons.prems a1]] show ?case by (auto simp: nv a1)
qed simp

lemma plain_overlay: "\<exists>a. overlay_attrs hx H xxh32 c = Some a \<and> plain_attrs a (map attr_of (overlay_pairs hx H c))"
proof -
  have none: "plain_attrs no_attrs []" by (simp add: plain_attrs_def no_attrs_def)
  show ?thesis
  proof (cases "\<exists>oid sz n. c = LeafContent (Regular (External oid sz)) n")
    case True
    then obtain oid sz n where c: "c = LeafContent (Regular (External oid sz)) n" by blast
    obtain a1 where a1: "add_attr xxh32 ''trusted.overlay.metacopy'' (metacopy_bytes H oid) no_attrs = Some a1"
      using add_attr_runs by blast
    obtain a2 where a2: "add_attr xxh32 ''trusted.overlay.redirect'' (CHR ''/'' # to_object_pathname hx oid) a1 = Some a2"
      using add_attr_runs by blast
    show ?thesis using plain_add [OF plain_add [OF none a1] a2] by (simp add: overlay_attrs_def overlay_pairs_def c a1 a2)
  next
    case False
    then have "overlay_attrs hx H xxh32 c = Some no_attrs" "overlay_pairs hx H c = []"
      by (auto simp: overlay_attrs_def overlay_pairs_def split: inode_content.split leaf_content.split regular_file.split)
    then show ?thesis using none by simp
  qed
qed

lemma push_inode_Some:
  obtains a where "push_inode hx H xxh32 st c col =
      Some (length (inodes col), col\<lparr>inodes := inodes col @ [\<lparr>i_stat = st, i_xattrs = a, i_content = c\<rparr>]\<rparr>)"
    "plain_attrs a (attrs_of hx H st c)"
proof -
  obtain a where a: "overlay_attrs hx H xxh32 c = Some a" "plain_attrs a (map attr_of (overlay_pairs hx H c))"
    using plain_overlay by blast
  obtain a' where "fold_opt (\<lambda>(n, v) a. add_attr xxh32 (escape_attr n) v a) (xattrs st) a = Some a'"
    "plain_attrs a' (attrs_of hx H st c)"
    using plain_fold [OF a(2)] by (auto simp: attrs_of_def)
  then show ?thesis using that a by (simp add: push_inode_def)
qed


section \<open>The objects that attributes name\<close>

definition attr_object :: "hash_alg \<Rightarrow> xattr \<Rightarrow> bytes set" where
  "attr_object H a = (if attr_prefix a = 4 \<and> attr_suffix a = ''overlay.metacopy''
     then set_option (metacopy_digest H (attr_value a)) else {})"

lemma split_name_cases:
  "split_name ps name = (idx, sfx) \<Longrightarrow> (idx, sfx) = (0, name) \<or> (\<exists>p. (idx, p) \<in> set ps \<and> name = p @ sfx)"
  by (induction ps name rule: split_name.induct) (auto simp: strip_prefix_Some_iff split: option.splits)

lemma split_name_prefixes:
  assumes "split_name (rev (List.enumerate 0 XATTR_PREFIXES)) name = (idx, sfx)"
  shows "idx < 7 \<and> name = XATTR_PREFIXES ! idx @ sfx"
  using split_name_cases [OF assms]
proof
  assume "\<exists>p. (idx, p) \<in> set (rev (List.enumerate 0 XATTR_PREFIXES)) \<and> name = p @ sfx"
  moreover have "length XATTR_PREFIXES = 7" by (simp add: XATTR_PREFIXES_def)
  ultimately show ?thesis by (auto simp: in_set_enumerate_eq)
qed (simp add: XATTR_PREFIXES_def)

lemma attr_of_metacopy:
  "attr_prefix (attr_of (name, v)) = 4 \<and> attr_suffix (attr_of (name, v)) = ''overlay.metacopy'' \<longleftrightarrow>
     name = ''trusted.overlay.metacopy''"
proof
  assume a: "attr_prefix (attr_of (name, v)) = 4 \<and> attr_suffix (attr_of (name, v)) = ''overlay.metacopy''"
  obtain idx sfx where s: "split_name (rev (List.enumerate 0 XATTR_PREFIXES)) name = (idx, sfx)"
    by (cases "split_name (rev (List.enumerate 0 XATTR_PREFIXES)) name")
  then have i: "idx < 7" "name = XATTR_PREFIXES ! idx @ sfx" using split_name_prefixes by blast+
  have "(of_nat idx :: u8) = 4" "sfx = ''overlay.metacopy''" using a s by (simp_all add: attr_of_def)
  moreover have "idx = 4"
  proof -
    have "unat (of_nat idx :: u8) = idx" using i(1) by (simp add: unat_of_nat)
    then show ?thesis using \<open>(of_nat idx :: u8) = 4\<close> by simp
  qed
  ultimately show "name = ''trusted.overlay.metacopy''" using i(2) by (simp add: XATTR_PREFIXES_def)
next
  assume n: "name = ''trusted.overlay.metacopy''"
  show "attr_prefix (attr_of (name, v)) = 4 \<and> attr_suffix (attr_of (name, v)) = ''overlay.metacopy''"
    unfolding n by (simp add: attr_of_def XATTR_PREFIXES_def strip_prefix_def starts_with_def)
qed

text \<open>An attribute of the tree never passes for a metacopy attribute: the name is escaped.\<close>

lemma escape_not_metacopy: "escape_attr n \<noteq> ''trusted.overlay.metacopy''"
proof (cases "strip_prefix ''trusted.overlay.'' n")
  case None
  then have "n \<noteq> ''trusted.overlay.metacopy''" by (auto simp: strip_prefix_def starts_with_def)
  then show ?thesis using None by (simp add: escape_attr_def)
qed (simp add: escape_attr_def)

definition content_objects :: "inode_content \<Rightarrow> bytes set" where
  "content_objects c = (case c of LeafContent (Regular (External oid _)) _ \<Rightarrow> {oid} | _ \<Rightarrow> {})"

lemma objects_attrs_of:
  assumes "\<forall>oid \<in> content_objects c. length oid = size_of H"
  shows "\<Union> (attr_object H ` set (attrs_of hx H st c)) = content_objects c"
proof -
  have plain: "attr_object H (attr_of (escape_attr n, v)) = {}" for n v
    using attr_of_metacopy [of "escape_attr n" v] escape_not_metacopy [of n] unfolding attr_object_def by metis
  have redirect: "attr_object H (attr_of (''trusted.overlay.redirect'', v)) = {}" for v
    using attr_of_metacopy [of "''trusted.overlay.redirect''" v] unfolding attr_object_def by (simp del: attr_of_metacopy) blast
  have copy: "attr_object H (attr_of (''trusted.overlay.metacopy'', v)) = set_option (metacopy_digest H v)" for v
  proof -
    have "attr_value (attr_of (n, v)) = v" for n by (simp add: attr_of_def split: prod.split)
    then show ?thesis using attr_of_metacopy [of "''trusted.overlay.metacopy''" v] by (simp add: attr_object_def)
  qed
  show ?thesis
  proof (cases "\<exists>oid sz n. c = LeafContent (Regular (External oid sz)) n")
    case True
    then obtain oid sz n where c: "c = LeafContent (Regular (External oid sz)) n" by blast
    have "length oid = size_of H" using assms by (simp add: c content_objects_def)
    then show ?thesis by (auto simp: attrs_of_def overlay_pairs_def c content_objects_def plain redirect copy
          metacopy_digest_bytes split: prod.splits)
  next
    case False
    then have "overlay_pairs hx H c = []" "content_objects c = {}"
      by (auto simp: overlay_pairs_def content_objects_def split: inode_content.split leaf_content.split regular_file.split)
    then show ?thesis by (auto simp: attrs_of_def plain)
  qed
qed

section \<open>Sharing\<close>

lemma share_split:
  assumes "\<And>a j. m a = Some j \<Longrightarrow> xs ! j = a"
  shows "mset (map ((!) xs) (List.map_filter m as)) + mset (filter (\<lambda>x. m x = None) as) = mset as"
proof (induction as)
  case (Cons a as)
  then show ?case using assms by (cases "m a") (auto simp: List.map_filter_simps)
qed (simp add: List.map_filter_simps)

lemma share_xattrs_table:
  assumes "share_xattrs ns = (ns', xs)"
  obtains m where "ns' = map (share_inode m) ns" "\<forall>a j. bt_get m a = Some j \<longrightarrow> j < length xs \<and> xs ! j = a"
proof -
  let ?kept = "bt_retain (\<lambda>k v. 1 < v) (fold (\<lambda>i m. fold count_attr (local_attrs (i_xattrs i)) m) ns [])"
  let ?m = "map (\<lambda>(idx, k, v). (k, idx)) (List.enumerate 0 ?kept)"
  have eq: "ns' = map (share_inode ?m) ns" "xs = map fst ?m" using assms by (simp_all add: share_xattrs_def Let_def)
  have "j < length xs \<and> xs ! j = a" if "bt_get ?m a = Some j" for a j
  proof -
    have "(a, j) \<in> set ?m" using that by (rule bt_get_SomeD)
    then have "j < length ?kept" "fst (?kept ! j) = a" by (auto simp: in_set_enumerate_eq)
    then show ?thesis by (simp add: eq(2) nth_enumerate_eq case_prod_beta')
  qed
  then show ?thesis using that [OF eq(1)] by blast
qed

definition all_attrs :: "xattr list \<Rightarrow> attr_set \<Rightarrow> xattr list" where
  "all_attrs xs a = map ((!) xs) (shared_ids a) @ local_attrs a"

lemma share_xattrs_keeps:
  assumes "share_xattrs ns = (ns', xs)" "i < length ns" "shared_ids (i_xattrs (ns ! i)) = []"
  shows "i_stat (ns' ! i) = i_stat (ns ! i)" "i_content (ns' ! i) = i_content (ns ! i)"
    "attr_filter (i_xattrs (ns' ! i)) = attr_filter (i_xattrs (ns ! i))"
    "\<forall>j \<in> set (shared_ids (i_xattrs (ns' ! i))). j < length xs"
    "mset (all_attrs xs (i_xattrs (ns' ! i))) = mset (local_attrs (i_xattrs (ns ! i)))" "length ns' = length ns"
proof -
  obtain m where m: "ns' = map (share_inode m) ns" "\<forall>a j. bt_get m a = Some j \<longrightarrow> j < length xs \<and> xs ! j = a"
    by (rule share_xattrs_table [OF assms(1)])
  have n: "ns' ! i = share_inode m (ns ! i)" using assms(2) by (simp add: m(1))
  show "i_stat (ns' ! i) = i_stat (ns ! i)" "i_content (ns' ! i) = i_content (ns ! i)"
    "attr_filter (i_xattrs (ns' ! i)) = attr_filter (i_xattrs (ns ! i))"
    by (simp_all add: n share_inode_def Let_def)
  show "length ns' = length ns" by (simp add: m(1))
  have "set (List.map_filter (bt_get m) as) \<subseteq> {j. j < length xs}" for as
    using m(2) by (induction as) (auto simp: List.map_filter_simps split: option.splits)
  then show "\<forall>j \<in> set (shared_ids (i_xattrs (ns' ! i))). j < length xs"
    by (auto simp: n share_inode_def Let_def assms(3))
  show "mset (all_attrs xs (i_xattrs (ns' ! i))) = mset (local_attrs (i_xattrs (ns ! i)))"
    using share_split [of "bt_get m" xs "local_attrs (i_xattrs (ns ! i))"] m(2)
    by (simp add: n share_inode_def Let_def assms(3) all_attrs_def)
qed


section \<open>The table of inodes stands for the tree\<close>

text \<open>Later steps change only the slots that are still reserved.\<close>

definition agree :: "inode_rec list \<Rightarrow> inode_rec list \<Rightarrow> bool" where
  "agree ns ns' \<longleftrightarrow> length ns \<le> length ns' \<and>
     (\<forall>k < length ns. i_content (ns ! k) \<noteq> DirContent empty_dir \<longrightarrow> i_content (ns' ! k) = i_content (ns ! k))"

definition dir_dirents :: "dir_data \<Rightarrow> dirent list" where
  "dir_dirents d = concat (dir_blocks d) @ dir_inline d"

inductive stands :: "inode_rec list \<Rightarrow> regular_file leaf list \<Rightarrow> nat \<Rightarrow> inode \<Rightarrow> bool" for ns h where
  leaf: "j < length ns \<Longrightarrow> i_content (ns ! j) = LeafContent (content (h ! r)) k \<Longrightarrow> stands ns h j (ILeaf r)"
| dir: "j < length ns \<Longrightarrow> i_content (ns ! j) = DirContent d \<Longrightarrow> d \<noteq> empty_dir \<Longrightarrow>
    (\<And>n t. (n, t) \<in> set es \<Longrightarrow> \<exists>e \<in> set (dir_dirents d). de_name e = n \<and> stands ns h (de_inode e) t) \<Longrightarrow>
    stands ns h j (IDirectory (Directory st es))"

lemma agree_refl [simp]: "agree ns ns"
  by (simp add: agree_def)

lemma agree_trans: "agree a b \<Longrightarrow> agree b c \<Longrightarrow> agree a c"
  by (auto simp: agree_def)

lemma stands_agree: "stands ns h j t \<Longrightarrow> agree ns ns' \<Longrightarrow> stands ns' h j t"
proof (induction rule: stands.induct)
  case (leaf j r k)
  then show ?case by (intro stands.leaf [where k = k]) (auto simp: agree_def)
next
  case (dir j d es st)
  show ?case
  proof (rule stands.dir)
    show "j < length ns'" "i_content (ns' ! j) = DirContent d" "d \<noteq> empty_dir" using dir by (auto simp: agree_def)
    show "\<exists>e \<in> set (dir_dirents d). de_name e = n \<and> stands ns' h (de_inode e) t" if "(n, t) \<in> set es" for n t
      using dir that by blast
  qed
qed

text \<open>What holds of every collected inode; \<open>F\<close> and \<open>N\<close> are conditions on the tree and its names.\<close>

definition built :: "(bytes \<Rightarrow> bool) \<Rightarrow> nat \<Rightarrow> inode_content \<Rightarrow> bool" where
  "built N n c \<longleftrightarrow> (\<forall>d. c = DirContent d \<longrightarrow> d \<noteq> empty_dir \<longrightarrow>
     (\<exists>es. from_entries es = Some d \<and> es \<noteq> [] \<and> (\<forall>e \<in> set es. de_inode e < n \<and> (N (de_name e) \<or> de_name e \<in> {''.'', ''..''}))))"

definition rec_ok :: "hex_crate \<Rightarrow> hash_alg \<Rightarrow> (stat \<Rightarrow> inode_content \<Rightarrow> bool) \<Rightarrow> (bytes \<Rightarrow> bool) \<Rightarrow> nat \<Rightarrow> inode_rec \<Rightarrow> bool" where
  "rec_ok hx H F N n i \<longleftrightarrow> plain_attrs (i_xattrs i) (attrs_of hx H (i_stat i) (i_content i)) \<and>
     F (i_stat i) (i_content i) \<and> built N n (i_content i)"

definition col_ok :: "hex_crate \<Rightarrow> hash_alg \<Rightarrow> (stat \<Rightarrow> inode_content \<Rightarrow> bool) \<Rightarrow> (bytes \<Rightarrow> bool) \<Rightarrow> regular_file leaf list \<Rightarrow>
    inode_collector \<Rightarrow> bool" where
  "col_ok hx H F N h col \<longleftrightarrow> (\<forall>i \<in> set (inodes col). rec_ok hx H F N (length (inodes col)) i) \<and>
     (\<forall>r j. hardlinks col r = Some j \<longrightarrow> stands (inodes col) h j (ILeaf r))"

definition closed_from :: "nat \<Rightarrow> inode_rec list \<Rightarrow> bool" where
  "closed_from k ns \<longleftrightarrow> (\<forall>i \<in> set (drop k ns). i_content i \<noteq> DirContent empty_dir)"

lemma rec_ok_mono: "rec_ok hx H F N n i \<Longrightarrow> n \<le> m \<Longrightarrow> rec_ok hx H F N m i"
  unfolding rec_ok_def built_def by (meson order_less_le_trans)

function dir_fits :: "(stat \<Rightarrow> inode_content \<Rightarrow> bool) \<Rightarrow> (bytes \<Rightarrow> bool) \<Rightarrow> regular_file leaf list \<Rightarrow> directory \<Rightarrow> bool"
  and inode_fits :: "(stat \<Rightarrow> inode_content \<Rightarrow> bool) \<Rightarrow> (bytes \<Rightarrow> bool) \<Rightarrow> regular_file leaf list \<Rightarrow> inode \<Rightarrow> bool" where
  "dir_fits F N h (Directory st es) \<longleftrightarrow> F st (DirContent empty_dir) \<and>
     (\<forall>e \<in> set es. N (fst e) \<and> inode_fits F N h (snd e))"
| "inode_fits F N h (IDirectory d) \<longleftrightarrow> dir_fits F N h d"
| "inode_fits F N h (ILeaf r) \<longleftrightarrow> F (leaf_stat (h ! r)) (LeafContent (content (h ! r)) 0)"
  by pat_completeness auto
termination
  by (relation "measure (case_sum (\<lambda>(F, N, h, d). size d) (\<lambda>(F, N, h, i). size_inode_of size i))")
    (auto simp: size_entry)

text \<open>\<open>F\<close> looks neither at the link count nor at the entries.\<close>

definition content_kind :: "(stat \<Rightarrow> inode_content \<Rightarrow> bool) \<Rightarrow> bool" where
  "content_kind F \<longleftrightarrow> (\<forall>st d d'. F st (DirContent d) = F st (DirContent d')) \<and>
     (\<forall>st c n n'. F st (LeafContent c n) = F st (LeafContent c n'))"

lemma prefix_agree: "prefix ns ns' \<Longrightarrow> agree ns ns'"
  by (auto simp: prefix_def agree_def nth_append)

lemma push_leaf:
  assumes "col_ok hx H F N h col" "F st (LeafContent (content (h ! r)) k)" "st = leaf_stat (h ! r)"
  obtains col' where "push_inode hx H xxh32 st (LeafContent (content (h ! r)) k) col = Some (length (inodes col), col')"
    "col_ok hx H F N h col'" "prefix (inodes col) (inodes col')" "closed_from (length (inodes col)) (inodes col')"
    "stands (inodes col') h (length (inodes col)) (ILeaf r)" "hardlinks col' = hardlinks col"
    "length (inodes col') = Suc (length (inodes col))"
proof -
  let ?c = "LeafContent (content (h ! r)) k"
  obtain a where p: "push_inode hx H xxh32 st ?c col =
      Some (length (inodes col), col\<lparr>inodes := inodes col @ [\<lparr>i_stat = st, i_xattrs = a, i_content = ?c\<rparr>]\<rparr>)"
    and a: "plain_attrs a (attrs_of hx H st ?c)" by (rule push_inode_Some)
  let ?i = "\<lparr>i_stat = st, i_xattrs = a, i_content = ?c\<rparr>"
  have ag: "agree (inodes col) (inodes col @ [?i])" by (simp add: agree_def nth_append)
  have new: "rec_ok hx H F N (Suc (length (inodes col))) ?i" using a assms(2) by (simp add: rec_ok_def built_def)
  have old: "rec_ok hx H F N (Suc (length (inodes col))) i" if "i \<in> set (inodes col)" for i
    using assms(1) that rec_ok_mono [of hx H F N "length (inodes col)" i] by (simp add: col_ok_def)
  have hl: "stands (inodes col @ [?i]) h j (ILeaf q)" if "hardlinks col q = Some j" for q j
    using assms(1) that stands_agree [OF _ ag] by (auto simp: col_ok_def)
  have "stands (inodes col @ [?i]) h (length (inodes col)) (ILeaf r)"
    by (rule stands.leaf [where k = k]) simp_all
  then show ?thesis
    by (intro that [OF p]) (use new old hl in \<open>auto simp: col_ok_def closed_from_def nth_append\<close>)
qed

lemma collect_leaf_ok:
  assumes "col_ok hx H F N h col" "content_kind F" "F (leaf_stat (h ! r)) (LeafContent (content (h ! r)) 0)"
  obtains j col' where "collect_leaf hx H xxh32 h cnt r col = Some (j, col')" "col_ok hx H F N h col'"
    "prefix (inodes col) (inodes col')" "closed_from (length (inodes col)) (inodes col')" "stands (inodes col') h j (ILeaf r)"
proof (cases "if 1 < cnt r then hardlinks col r else None")
  case (Some j)
  then have "hardlinks col r = Some j" "collect_leaf hx H xxh32 h cnt r col = Some (j, col)"
    by (auto simp: collect_leaf_def Let_def split: if_splits)
  then show ?thesis using that assms(1) by (simp add: col_ok_def closed_from_def)
next
  case None
  have F: "F (leaf_stat (h ! r)) (LeafContent (content (h ! r)) (cnt r))"
    using assms(2,3) unfolding content_kind_def by blast
  obtain col' where p: "push_inode hx H xxh32 (leaf_stat (h ! r)) (LeafContent (content (h ! r)) (cnt r)) col =
      Some (length (inodes col), col')"
    and c: "col_ok hx H F N h col'" "prefix (inodes col) (inodes col')" "closed_from (length (inodes col)) (inodes col')"
    "stands (inodes col') h (length (inodes col)) (ILeaf r)"
    using push_leaf [OF assms(1) F refl] by metis
  let ?col = "if 1 < cnt r then col'\<lparr>hardlinks := (hardlinks col')(r \<mapsto> length (inodes col))\<rparr> else col'"
  have run: "collect_leaf hx H xxh32 h cnt r col = Some (length (inodes col), ?col)"
    using None p by (simp add: collect_leaf_def Let_def)
  have "col_ok hx H F N h ?col" using c(1,4) by (auto simp: col_ok_def)
  moreover have "inodes ?col = inodes col'" by simp
  ultimately show ?thesis using that [OF run] c(2-4) by simp
qed


definition matches :: "inode_rec list \<Rightarrow> regular_file leaf list \<Rightarrow> dirent list \<Rightarrow> (bytes \<times> inode) list \<Rightarrow> bool" where
  "matches ns h ds es \<longleftrightarrow> list_all2 (\<lambda>e (n, t). de_name e = n \<and> stands ns h (de_inode e) t) ds es"

lemma matches_agree: "matches ns h ds es \<Longrightarrow> agree ns ns' \<Longrightarrow> matches ns' h ds es"
  unfolding matches_def by (erule list_all2_mono) (auto intro: stands_agree)

lemma matches_Cons [simp]:
  "matches ns h (e # ds) ((n, t) # es) \<longleftrightarrow> de_name e = n \<and> stands ns h (de_inode e) t \<and> matches ns h ds es"
  by (simp add: matches_def)

lemma stands_bound: "stands ns h j t \<Longrightarrow> j < length ns"
  by (erule stands.cases) auto

lemma matches_child: "matches ns h ds es \<Longrightarrow> (n, t) \<in> set es \<Longrightarrow> \<exists>e \<in> set ds. de_name e = n \<and> stands ns h (de_inode e) t"
  unfolding matches_def by (induction ds es rule: list_all2_induct) auto

lemma matches_entry: "matches ns h ds es \<Longrightarrow> e \<in> set ds \<Longrightarrow> de_inode e < length ns \<and> de_name e \<in> fst ` set es"
  unfolding matches_def by (induction ds es rule: list_all2_induct) (auto dest: stands_bound)

lemma set_insert_sorted [simp]: "set (insert_sorted e es) = Set.insert e (set es)"
proof -
  have "set es = set (takeWhile P es) \<union> set (dropWhile P es)" for P
    by (metis set_append takeWhile_dropWhile_id)
  then show ?thesis by (auto simp: insert_sorted_def)
qed

lemma close_dir_ok:
  assumes ok: "col_ok hx H F N h col" and F: "content_kind F" and N: "\<And>n. N n \<Longrightarrow> length n \<le> 4084"
    and me: "me < length (inodes col)" "i_content (inodes col ! me) = DirContent empty_dir" and par: "par < length (inodes col)"
    and m: "matches (inodes col) h ds es" and names: "\<forall>e \<in> set es. N (fst e)"
  obtains col' where "close_dir me par ds col = Some col'" "col_ok hx H F N h col'" "agree (inodes col) (inodes col')"
    "stands (inodes col') h me (IDirectory (Directory st es))" "hardlinks col' = hardlinks col"
    "\<exists>i. inodes col' = (inodes col)[me := i] \<and> i_content i \<noteq> DirContent empty_dir"
proof -
  let ?es = "insert_sorted \<lparr>de_name = ''..'', de_inode = par, de_type = FDirectory\<rparr>
         (insert_sorted \<lparr>de_name = ''.'', de_inode = me, de_type = FDirectory\<rparr> ds)"
  have in_ds: "de_inode e < length (inodes col) \<and> N (de_name e)" if "e \<in> set ds" for e
    using matches_entry [OF m that] names by auto
  have range: "\<forall>e \<in> set ?es. de_inode e < length (inodes col) \<and> (N (de_name e) \<or> de_name e \<in> {''.'', ''..''})"
    using in_ds me(1) par by auto
  have "\<forall>e \<in> set ?es. dirent_size e \<le> 4096"
    using in_ds N by (fastforce simp: dirent_size_def)
  then obtain d where d: "from_entries ?es = Some d" using from_entries_runs by blast
  have all: "dir_dirents d = ?es" using from_entries_blocks(1) [OF d] by (simp add: dir_dirents_def)
  then have ne: "d \<noteq> empty_dir" "?es \<noteq> []" by (auto simp: dir_dirents_def empty_dir_def dest: arg_cong [of _ _ set])
  let ?i = "(inodes col ! me)\<lparr>i_content := DirContent d\<rparr>"
  let ?col = "set_content me (DirContent d) col"
  have ns: "inodes ?col = (inodes col)[me := ?i]" "hardlinks ?col = hardlinks col" by (simp_all add: set_content_def)
  have ag: "agree (inodes col) (inodes ?col)" using me(2) by (auto simp: agree_def ns) (metis nth_list_update_neq)
  have old: "rec_ok hx H F N (length (inodes col)) i" if "i \<in> set (inodes col)" for i
    using ok that by (simp add: col_ok_def)
  have "attrs_of hx H st (DirContent d) = attrs_of hx H st (DirContent empty_dir)" for st
    by (simp add: attrs_of_def overlay_pairs_def)
  moreover have "built N (length (inodes col)) (DirContent d)" unfolding built_def using d ne(2) range by blast
  moreover have "F st (DirContent d) = F st (DirContent empty_dir)" for st
    using F unfolding content_kind_def by blast
  ultimately have new: "rec_ok hx H F N (length (inodes col)) ?i"
    using old [OF nth_mem [OF me(1)]] me(2) by (simp add: rec_ok_def)
  have hl: "stands (inodes ?col) h j (ILeaf q)" if "hardlinks col q = Some j" for q j
    using ok that stands_agree [OF _ ag] by (auto simp: col_ok_def)
  have "col_ok hx H F N h ?col"
    using new old hl me(1) by (auto simp: col_ok_def ns dest!: set_update_subset_insert [THEN subsetD])
  moreover have "stands (inodes ?col) h me (IDirectory (Directory st es))"
  proof (rule stands.dir)
    show "me < length (inodes ?col)" "i_content (inodes ?col ! me) = DirContent d" using me(1) by (simp_all add: ns)
    show "d \<noteq> empty_dir" by (rule ne)
    show "\<exists>e \<in> set (dir_dirents d). de_name e = n \<and> stands (inodes ?col) h (de_inode e) t" if "(n, t) \<in> set es" for n t
      using matches_child [OF matches_agree [OF m ag] that] by (auto simp: all)
  qed
  moreover have "\<exists>i. inodes ?col = (inodes col)[me := i] \<and> i_content i \<noteq> DirContent empty_dir"
    using ns(1) ne(1) by (intro exI [of _ ?i]) simp
  moreover have "close_dir me par ds col = Some ?col" using d by (simp add: close_dir_def)
  ultimately show ?thesis using that ag ns(2) by blast
qed


text \<open>Collecting a directory succeeds, extends the table, and leaves nothing reserved.\<close>

definition grows :: "hex_crate \<Rightarrow> hash_alg \<Rightarrow> (stat \<Rightarrow> inode_content \<Rightarrow> bool) \<Rightarrow> (bytes \<Rightarrow> bool) \<Rightarrow> regular_file leaf list \<Rightarrow>
    inode_collector \<Rightarrow> inode_collector \<Rightarrow> bool" where
  "grows hx H F N h col col' \<longleftrightarrow> col_ok hx H F N h col' \<and> prefix (inodes col) (inodes col') \<and>
     closed_from (length (inodes col)) (inodes col')"

lemma grows_trans: "grows hx H F N h a b \<Longrightarrow> grows hx H F N h b c \<Longrightarrow> grows hx H F N h a c"
  by (auto simp: grows_def closed_from_def prefix_def)

lemma grows_refl: "col_ok hx H F N h col \<Longrightarrow> grows hx H F N h col col"
  by (simp add: grows_def closed_from_def)

lemma grows_agree: "grows hx H F N h col col' \<Longrightarrow> agree (inodes col) (inodes col')"
  by (simp add: grows_def prefix_agree)

lemma grows_length: "grows hx H F N h col col' \<Longrightarrow> length (inodes col) \<le> length (inodes col')"
  by (auto simp: grows_def prefix_def)

lemma matches_step:
  assumes "grows hx H F N h col1 col2" "stands (inodes col1) h j t" "matches (inodes col2) h ds es"
  shows "matches (inodes col2) h (child_entry n j col1 # ds) ((n, t) # es)"
  using assms stands_agree [OF assms(2) grows_agree [OF assms(1)]] by (simp add: child_entry_def)

lemma collect_dir_ok:
  assumes F: "content_kind F" and N: "\<And>n. N n \<Longrightarrow> length n \<le> 4084"
  shows "col_ok hx H F N h col \<Longrightarrow> dir_fits F N h d \<Longrightarrow> par \<le> length (inodes col) \<Longrightarrow>
      \<exists>col'. collect_dir hx H xxh32 h cnt d par col = Some (length (inodes col), col') \<and> grows hx H F N h col col' \<and>
        stands (inodes col') h (length (inodes col)) (IDirectory d)"
    and "col_ok hx H F N h col \<Longrightarrow> \<forall>e \<in> set es. N (fst e) \<and> inode_fits F N h (snd e) \<Longrightarrow> me < length (inodes col) \<Longrightarrow>
      \<exists>ds col'. collect_entries hx H xxh32 h cnt me es col = Some (ds, col') \<and> grows hx H F N h col col' \<and>
        matches (inodes col') h ds es"
proof (induction hx H xxh32 h cnt d par col and hx H xxh32 h cnt me es col rule: collect_dir_collect_entries.induct)
  case (1 hx H xxh32 h cnt st es par col)
  let ?me = "length (inodes col)"
  obtain a where p: "push_inode hx H xxh32 st (DirContent empty_dir) col =
      Some (?me, col\<lparr>inodes := inodes col @ [\<lparr>i_stat = st, i_xattrs = a, i_content = DirContent empty_dir\<rparr>]\<rparr>)"
    and a: "plain_attrs a (attrs_of hx H st (DirContent empty_dir))" by (rule push_inode_Some)
  let ?i = "\<lparr>i_stat = st, i_xattrs = a, i_content = DirContent empty_dir\<rparr>"
  let ?col1 = "col\<lparr>inodes := inodes col @ [?i]\<rparr>"
  have pre: "prefix (inodes col) (inodes ?col1)" by simp
  have "rec_ok hx H F N (Suc ?me) ?i" using a "1.prems"(2) by (simp add: rec_ok_def built_def)
  moreover have "rec_ok hx H F N (Suc ?me) i" if "i \<in> set (inodes col)" for i
    using "1.prems"(1) that rec_ok_mono [of hx H F N ?me i] by (simp add: col_ok_def)
  moreover have "stands (inodes ?col1) h j (ILeaf q)" if "hardlinks col q = Some j" for q j
    using "1.prems"(1) that stands_agree [OF _ prefix_agree [OF pre]] by (auto simp: col_ok_def)
  ultimately have ok1: "col_ok hx H F N h ?col1" by (auto simp: col_ok_def)
  obtain ds col2 where run: "collect_entries hx H xxh32 h cnt ?me es ?col1 = Some (ds, col2)"
    and g: "grows hx H F N h ?col1 col2" and m: "matches (inodes col2) h ds es"
    using "1.IH" [OF p refl ok1] "1.prems"(2) by auto
  obtain new where new: "inodes col2 = inodes col @ [?i] @ new" using g by (auto simp: grows_def prefix_def)
  have slot: "?me < length (inodes col2)" "i_content (inodes col2 ! ?me) = DirContent empty_dir" "par < length (inodes col2)"
    using "1.prems"(3) by (simp_all add: new)
  have ok2: "col_ok hx H F N h col2" "closed_from (Suc ?me) (inodes col2)" using g by (simp_all add: grows_def)
  have names: "\<forall>e \<in> set es. N (fst e)" using "1.prems"(2) by simp
  obtain col3 i where c: "close_dir ?me par ds col2 = Some col3" "col_ok hx H F N h col3"
    "stands (inodes col3) h ?me (IDirectory (Directory st es))" "inodes col3 = (inodes col2)[?me := i]"
    "i_content i \<noteq> DirContent empty_dir"
    using close_dir_ok [OF ok2(1) F N slot m names, of st] by metis
  have "inodes col3 = inodes col @ [i] @ new" using c(4) by (simp add: new)
  then have "grows hx H F N h col col3" using c(2,5) ok2(2) by (auto simp: grows_def closed_from_def new)
  then show ?case using p run c by auto
next
  case (2 hx H xxh32 h cnt me col)
  then show ?case by (simp add: grows_refl matches_def)
next
  case (3 hx H xxh32 h cnt me n d es col)
  obtain col1 where d: "collect_dir hx H xxh32 h cnt d me col = Some (length (inodes col), col1)"
    "grows hx H F N h col col1" "stands (inodes col1) h (length (inodes col)) (IDirectory d)"
    using "3.IH"(1) [OF "3.prems"(1)] "3.prems"(2,3) by auto
  have "col_ok hx H F N h col1" "me < length (inodes col1)" using d(2) "3.prems"(3) grows_length [OF d(2)] by (auto simp: grows_def)
  then obtain ds col2 where r: "collect_entries hx H xxh32 h cnt me es col1 = Some (ds, col2)"
    "grows hx H F N h col1 col2" "matches (inodes col2) h ds es"
    using "3.IH"(2) [OF d(1) refl] "3.prems"(2) by auto
  then show ?case using d grows_trans [OF d(2) r(2)] matches_step [OF r(2) d(3) r(3), of n] by auto
next
  case (4 hx H xxh32 h cnt me n r es col)
  have F': "F (leaf_stat (h ! r)) (LeafContent (content (h ! r)) 0)" using "4.prems"(2) by simp
  obtain j col1 where d: "collect_leaf hx H xxh32 h cnt r col = Some (j, col1)"
    "grows hx H F N h col col1" "stands (inodes col1) h j (ILeaf r)"
    using collect_leaf_ok [OF "4.prems"(1) F F'] unfolding grows_def by metis
  have "col_ok hx H F N h col1" "me < length (inodes col1)" using d(2) "4.prems"(3) grows_length [OF d(2)] by (auto simp: grows_def)
  then obtain ds col2 where q: "collect_entries hx H xxh32 h cnt me es col1 = Some (ds, col2)"
    "grows hx H F N h col1 col2" "matches (inodes col2) h ds es"
    using "4.IH" [OF d(1) refl] "4.prems"(2) by auto
  then show ?case using d grows_trans [OF d(2) q(2)] matches_step [OF q(2) d(3) q(3), of n] by auto
qed


lemma collect_ok:
  assumes "content_kind F" "\<And>n. N n \<Longrightarrow> length n \<le> 4084" "dir_fits F N (heap fs) (root fs)"
  obtains ns where "collect hx H xxh32 fs = Some ns" "ns \<noteq> []" "\<forall>i \<in> set ns. rec_ok hx H F N (length ns) i"
    "\<forall>i \<in> set ns. i_content i \<noteq> DirContent empty_dir" "stands ns (heap fs) 0 (IDirectory (root fs))"
proof -
  let ?col = "\<lparr>inodes = [], hardlinks = (\<lambda>_. None)\<rparr>"
  have "col_ok hx H F N (heap fs) ?col" by (simp add: col_ok_def)
  from collect_dir_ok(1) [OF assms(1,2) this assms(3), of 0 xxh32 "strong_count (root fs)"]
  obtain col where c: "collect_dir hx H xxh32 (heap fs) (strong_count (root fs)) (root fs) 0 ?col = Some (0, col)"
    "grows hx H F N (heap fs) ?col col" "stands (inodes col) (heap fs) 0 (IDirectory (root fs))"
    by auto
  moreover have "inodes col \<noteq> []" using stands_bound [OF c(3)] by auto
  ultimately show ?thesis using that [of "inodes col"]
    by (simp add: collect_def grows_def col_ok_def closed_from_def)
qed

end
