(* ===== verification/Erofs_Readback.thy ===== *)
theory Erofs_Readback
  imports Erofs_Layout Erofs_Inodes Erofs_Collect
begin

text \<open>
  Reading back what the writer wrote: attributes, directory blocks and inodes placed in an image are
  parsed by \<open>erofs/reader.rs\<close> into what \<open>erofs/writer.rs\<close> was given.
\<close>

section \<open>Attributes\<close>

definition ref_of :: "xattr \<Rightarrow> xattr_ref" where
  "ref_of x = \<lparr>xa_header = \<lparr>name_len = of_nat (length (attr_suffix x)), name_index = attr_prefix x,
       value_size = of_nat (length (attr_value x))\<rparr>,
     xa_data = attr_suffix x @ attr_value x @ pad_bytes (length (attr_suffix x) + length (attr_value x)) 4\<rparr>"

definition xattr_full :: "xattr \<Rightarrow> bytes" where
  "xattr_full x = xattr_bytes x @ pad_bytes (length (xattr_bytes x)) 4"

definition attr_fits :: "xattr \<Rightarrow> bool" where
  "attr_fits x \<longleftrightarrow> length (attr_suffix x) \<le> 255 \<and> length (attr_value x) \<le> 65535"

lemma round_up_add: "0 < a \<Longrightarrow> p mod a = 0 \<Longrightarrow> round_up (p + n) a = p + round_up n a"
proof -
  assume a: "0 < a" "p mod a = 0"
  then obtain k where k: "p = a * k" by (auto simp: mod_eq_0_iff_dvd elim: dvdE)
  have "(a * k + n + a - 1) div a = k + (n + a - 1) div a"
  proof -
    have "a * k + n + a - 1 = (n + a - 1) + a * k" using a(1) by linarith
    then show ?thesis using a(1) by (simp only: div_mult_self2)
  qed
  then show ?thesis by (simp add: round_up_def k add.assoc algebra_simps)
qed

lemma pad_bytes_add: "0 < a \<Longrightarrow> p mod a = 0 \<Longrightarrow> pad_bytes (p + n) a = pad_bytes n a"
  by (simp add: pad_bytes_def round_up_add)

lemma length_xattr_full: "length (xattr_full x) = 4 + round_up (length (attr_suffix x) + length (attr_value x)) 4"
proof -
  have "round_up (4 + (length (attr_suffix x) + length (attr_value x))) 4 = 4 + round_up (length (attr_suffix x) + length (attr_value x)) 4"
    by (rule round_up_add) simp_all
  moreover have "length (xattr_bytes x) = 4 + (length (attr_suffix x) + length (attr_value x))" by (simp add: xattr_bytes_def)
  ultimately show ?thesis
    using round_up_ge [of 4 "length (xattr_bytes x)"] by (simp add: xattr_full_def)
qed

lemma length_xattr_full_mod: "length (xattr_full x) mod 4 = 0"
proof -
  have "(4 + round_up n 4) mod 4 = round_up n 4 mod 4" for n by simp
  then show ?thesis by (simp add: length_xattr_full)
qed

lemma xattr_script_full: "pos mod 4 = 0 \<Longrightarrow> xattr_script x g pos = Some (xattr_full x, [])"
  by (auto simp: xattr_script_def sp_seq_def sp_write_def sp_pad_def sp_put_def xattr_full_def pad_bytes_add)

lemma xattrs_script_full: "pos mod 4 = 0 \<Longrightarrow> sp_list xattr_script xs g pos = Some (concat (map xattr_full xs), [])"
proof (induction xs arbitrary: pos)
  case (Cons x xs)
  have "(pos + length (xattr_full x)) mod 4 = 0"
    using Cons.prems length_xattr_full_mod [of x] by (metis add_0 mod_add_eq mod_0)
  then show ?case using Cons.IH Cons.prems by (simp add: sp_seq_def xattr_script_full)
qed (simp add: sp_skip_def)

lemma from_prefix_full:
  assumes "attr_fits x"
  shows "from_prefix (xattr_full x @ rest) = Some (ref_of x, rest)"
proof -
  let ?n = "length (attr_suffix x) + length (attr_value x)"
  let ?h = "\<lparr>name_len = of_nat (length (attr_suffix x)), name_index = attr_prefix x,
       value_size = of_nat (length (attr_value x))\<rparr>"
  have lens: "unat (name_len ?h) = length (attr_suffix x)" "unat (value_size ?h) = length (attr_value x)"
    using assms by (simp_all add: attr_fits_def unat_of_nat)
  then have n: "calculate_n_elems ?h = round_up ?n 4" by (simp add: calculate_n_elems_def)
  have "pad_bytes (length (xattr_bytes x)) 4 = pad_bytes ?n 4"
    using pad_bytes_add [of 4 4 ?n] by (simp add: xattr_bytes_def)
  then have full: "xattr_full x = xattr_header_bytes ?h @ xa_data (ref_of x)"
    by (simp add: xattr_full_def xattr_bytes_def ref_of_def)
  have d: "length (xa_data (ref_of x)) = round_up ?n 4"
    using round_up_ge [of 4 ?n] by (simp add: ref_of_def)
  have "slice 0 4 (xattr_full x @ rest) = Some (xattr_header_bytes ?h)"
    by (simp add: slice_def field_def full)
  moreover have "slice 4 (round_up ?n 4) (xattr_full x @ rest) = Some (xa_data (ref_of x))"
    by (simp add: slice_def field_def full d)
  moreover have "drop (4 + round_up ?n 4) (xattr_full x @ rest) = rest" by (simp add: full d)
  moreover have "read_xattr_header (xattr_header_bytes ?h) = Some ?h"
    using read_xattr_header_bytes [of ?h "[]"] by simp
  ultimately show ?thesis by (simp add: from_prefix_def n) (simp add: ref_of_def)
qed

lemma xattr_iter_full:
  "\<forall>x \<in> set xs. attr_fits x \<Longrightarrow> xattr_iter (concat (map xattr_full xs)) = Some (map ref_of xs)"
proof (induction xs)
  case Nil
  show ?case by (subst xattr_iter.simps) simp
next
  case (Cons x xs)
  have "xattr_full x \<noteq> []" using length_xattr_full [of x] by auto
  then show ?case using Cons by (subst xattr_iter.simps) (simp add: from_prefix_full)
qed

lemma objects_ref_of: "attr_fits x \<Longrightarrow> xattr_objects H (ref_of x) = attr_object H x"
  by (simp add: xattr_objects_def attr_object_def ref_of_def attr_fits_def Erofs_Reader.suffix_def xattr_value_def field_def unat_of_nat)

text \<open>The attribute area of an inode.\<close>

definition attrs_bytes :: "u32 list \<Rightarrow> attr_set \<Rightarrow> bytes" where
  "attrs_bytes ids a = (if attr_filter a = 0 then [] else
     inode_xattr_header_bytes \<lparr>name_filter = NOT (attr_filter a), shared_count = of_nat (length (shared_ids a))\<rparr> @
     concat (map le32 ids) @ concat (map xattr_full (local_attrs a)))"

lemma ids_script: "sp_list (\<lambda>i. sp_put (\<lambda>g pos. map_option le32 (get_xattr g i))) js g pos =
    map_option (\<lambda>ids. (concat (map le32 ids), [])) (map_opt (get_xattr g) js)"
proof (induction js arbitrary: pos)
  case (Cons j js)
  then show ?case
    by (cases "get_xattr g j"; cases "map_opt (get_xattr g) js") (simp_all add: sp_seq_def sp_put_def)
qed (simp add: sp_skip_def)

lemma map_opt_length: "map_opt f xs = Some ys \<Longrightarrow> length ys = length xs"
  by (induction xs arbitrary: ys) (auto simp: bind_eq_Some_conv)

lemma length_concat_le32: "length (concat (map le32 ids)) = 4 * length ids"
  by (induction ids) auto

lemma attrs_script_bytes:
  assumes "attrs_script a g pos = Some (b, ns)" "pos mod 4 = 0"
  obtains ids where "b = attrs_bytes ids a" "length ids = length (shared_ids a)"
    "attr_filter a \<noteq> 0 \<longrightarrow> map_opt (get_xattr g) (shared_ids a) = Some ids"
proof (cases "attr_filter a = 0")
  case True
  then show ?thesis
    using assms(1) by (intro that [of "replicate (length (shared_ids a)) 0"]) (auto simp: attrs_script_def sp_skip_def attrs_bytes_def)
next
  case False
  let ?h = "\<lparr>name_filter = NOT (attr_filter a), shared_count = of_nat (length (shared_ids a))\<rparr> :: inode_xattr_header"
  obtain ids where ids: "map_opt (get_xattr g) (shared_ids a) = Some ids"
    using assms(1) False by (cases "map_opt (get_xattr g) (shared_ids a)")
      (auto simp: attrs_script_def sp_seq_def sp_write_def sp_put_def ids_script bind_eq_Some_conv)
  have l: "length ids = length (shared_ids a)" by (rule map_opt_length [OF ids])
  have "(pos + 12 + 4 * length ids) mod 4 = 0" using assms(2) by (simp add: add.assoc mod_add_left_eq [symmetric])
  then have "b = attrs_bytes ids a"
    using assms(1) False ids xattrs_script_full [of "pos + (12 + 4 * length ids)" "local_attrs a" g]
    by (simp add: attrs_script_def sp_seq_def sp_write_def sp_put_def ids_script length_concat_le32 add.assoc attrs_bytes_def)
  then show ?thesis using that ids l by blast
qed

lemma length_attrs_bytes: "length ids = length (shared_ids a) \<Longrightarrow> attr_filter a \<noteq> 0 \<Longrightarrow>
    length (attrs_bytes ids a) = 12 + 4 * length (shared_ids a) + sum_list (map (length \<circ> xattr_full) (local_attrs a))"
proof -
  have "length (concat (map xattr_full as)) = sum_list (map (length \<circ> xattr_full) as)" for as
    by (induction as) simp_all
  then show "length ids = length (shared_ids a) \<Longrightarrow> attr_filter a \<noteq> 0 \<Longrightarrow>
    length (attrs_bytes ids a) = 12 + 4 * length (shared_ids a) + sum_list (map (length \<circ> xattr_full) (local_attrs a))"
    by (simp add: attrs_bytes_def length_concat_le32)
qed

lemma length_attrs:
  assumes "attrs_script a g pos = Some (b, ns)" "pos mod 4 = 0"
  shows "length b = attrs_len a"
proof -
  obtain c where c: "attrs_script a no_offsets 0 = Some (c, [])"
    using silent_attrs [of a] by (fastforce simp: silent_def)
  obtain ids where i: "b = attrs_bytes ids a" "length ids = length (shared_ids a)" by (rule attrs_script_bytes [OF assms])
  have "(0 :: nat) mod 4 = 0" by simp
  then obtain ids' where i': "c = attrs_bytes ids' a" "length ids' = length (shared_ids a)" by (rule attrs_script_bytes [OF c])
  have "length c = length b"
  proof (cases "attr_filter a = 0")
    case False
    then show ?thesis using i i' by (simp add: length_attrs_bytes)
  qed (simp add: i i' attrs_bytes_def)
  then show ?thesis using c by (simp add: attrs_len_def)
qed


section \<open>Directory blocks\<close>

fun dirent_headers :: "u64 list \<Rightarrow> dirent list \<Rightarrow> nat \<Rightarrow> dirent_header list" where
  "dirent_headers (nid # nids) (e # es) nameofs =
     \<lparr>inode_offset = nid, name_offset = of_nat nameofs, de_file_type = file_type_field (de_type e)\<rparr> #
     dirent_headers nids es (nameofs + length (de_name e))"
| "dirent_headers _ _ nameofs = []"

definition block_bytes :: "u64 list \<Rightarrow> dirent list \<Rightarrow> bytes" where
  "block_bytes nids es = concat (map dirent_header_bytes (dirent_headers nids es (12 * length es))) @ concat (map de_name es)"

lemma dirents_script_bytes:
  assumes "dirents_script es k g pos = Some (b, ns)"
  shows "\<exists>nids. map_opt (\<lambda>e. get_nid g (de_inode e)) es = Some nids \<and> b = concat (map dirent_header_bytes (dirent_headers nids es k))"
  using assms
proof (induction es k arbitrary: pos b ns rule: dirents_script.induct)
  case (2 e es k)
  then obtain nid b2 n2 where h: "get_nid g (de_inode e) = Some nid"
    "dirents_script es (k + length (de_name e)) g (pos + 12) = Some (b2, n2)"
    "b = dirent_header_bytes \<lparr>inode_offset = nid, name_offset = of_nat k, de_file_type = file_type_field (de_type e)\<rparr> @ b2"
    by (auto simp: sp_seq_Some dirent_script_def sp_put_def)
  then show ?case using "2.IH" [OF h(2)] by auto
qed (simp add: sp_skip_Some)

lemma names_script: "sp_list (\<lambda>e. sp_write (de_name e)) es g pos = Some (concat (map de_name es), [])"
  by (induction es arbitrary: pos) (simp_all add: sp_skip_def sp_seq_def sp_write_def sp_put_def)

lemma block_script_bytes:
  assumes "block_script es g pos = Some (b, ns)"
  shows "\<exists>nids. map_opt (\<lambda>e. get_nid g (de_inode e)) es = Some nids \<and> b = block_bytes nids es"
  using assms dirents_script_bytes unfolding block_script_def sp_seq_Some names_script block_bytes_def by fastforce

lemma length_dirent_headers [simp]: "length nids = length es \<Longrightarrow> length (dirent_headers nids es k) = length es"
  by (induction nids es k rule: dirent_headers.induct) auto

lemma dirent_headers_nth:
  "length nids = length es \<Longrightarrow> i < length es \<Longrightarrow> dirent_headers nids es k ! i =
     \<lparr>inode_offset = nids ! i, name_offset = of_nat (k + sum_list (map (length \<circ> de_name) (take i es))),
      de_file_type = file_type_field (de_type (es ! i))\<rparr>"
proof (induction nids es k arbitrary: i rule: dirent_headers.induct)
  case (1 nid nids e es k)
  then show ?case by (cases i) (simp_all add: add.assoc)
qed auto

lemma length_names: "length (concat (map de_name es)) = sum_list (map (length \<circ> de_name) es)"
  by (induction es) simp_all

lemma total_size_names: "total_size es = 12 * length es + sum_list (map (length \<circ> de_name) es)"
  by (induction es) (simp_all add: total_size_def dirent_size_def)

lemma length_concat_headers: "length (concat (map dirent_header_bytes hs)) = 12 * length hs"
  by (induction hs) simp_all

lemma length_block_bytes: "length nids = length es \<Longrightarrow> length (block_bytes nids es) = total_size es"
  by (simp add: block_bytes_def length_concat_headers length_names total_size_names)

lemma drop_concat_headers: "drop (12 * i) (concat (map dirent_header_bytes hs) @ rest) =
    concat (map dirent_header_bytes (drop i hs)) @ drop (12 * i - 12 * length hs) rest"
proof (induction hs arbitrary: i)
  case (Cons h hs)
  then show ?case by (cases i) simp_all
qed simp

lemma sum_take: "i \<le> length es \<Longrightarrow> sum_list (map (length \<circ> de_name) (take i es)) \<le> sum_list (map (length \<circ> de_name) es)"
  by (metis append_take_drop_id le_add1 map_append sum_list_append)

lemma drop_names: "drop (sum_list (map (length \<circ> de_name) (take i es))) (concat (map de_name es) @ rest) =
    concat (map de_name (drop i es)) @ rest"
proof (induction es arbitrary: i)
  case (Cons e es)
  then show ?case by (cases i) simp_all
qed simp

lemma map_opt_Some: "\<forall>x \<in> set xs. f x = Some (g x) \<Longrightarrow> map_opt f xs = Some (map g xs)"
  by (induction xs) auto

lemma small_u16: "k < 65536 \<Longrightarrow> unat (of_nat k :: u16) = k"
  by (simp add: unat_of_nat)

text \<open>A block that fits, followed by zeros, is read as its entries.\<close>

definition names_ok :: "dirent list \<Rightarrow> bool" where
  "names_ok es \<longleftrightarrow> (\<forall>e \<in> set es. CHR 0x00 \<notin> set (de_name e))"

lemma dir_entries_block:
  assumes l: "length nids = length es" and ne: "es \<noteq> []" and fit: "total_size es \<le> 4096" and names: "names_ok es"
  shows "dir_entries (block_bytes nids es @ zeros z) =
    Some (zip (dirent_headers nids es (12 * length es)) (map de_name es))"
proof -
  let ?b = "block_bytes nids es @ zeros z" and ?hs = "dirent_headers nids es (12 * length es)" and ?n = "length es"
  let ?ofs = "\<lambda>i. 12 * ?n + sum_list (map (length \<circ> de_name) (take i es))"
  have lb: "length ?b = total_size es + z" by (simp add: length_block_bytes [OF l])
  have n12: "12 * ?n \<le> total_size es" by (simp add: total_size_names)
  have hdr: "get_entry_header ?b i = Some (?hs ! i)" if "i < ?n" for i
  proof -
    have "drop (12 * i) ?b = dirent_header_bytes (?hs ! i) @ concat (map dirent_header_bytes (drop (Suc i) ?hs)) @
        concat (map de_name es) @ zeros z"
      using that l drop_concat_headers [of i ?hs "concat (map de_name es) @ zeros z"]
      by (simp add: block_bytes_def Cons_nth_drop_Suc [symmetric])
    then have "field (i * 12) 12 ?b = dirent_header_bytes (?hs ! i)" by (simp add: field_def mult.commute)
    moreover have "i * 12 + 12 \<le> length ?b" using that n12 lb by simp
    ultimately show ?thesis by (simp add: get_entry_header_def slice_def)
  qed
  have ofs: "unat (name_offset (?hs ! i)) = ?ofs i" if "i < ?n" for i
  proof -
    have "?ofs i \<le> 4096" using sum_take [of i es] that fit by (simp add: total_size_names)
    then have "?ofs i < 65536" by simp
    moreover have "name_offset (?hs ! i) = of_nat (?ofs i)" using dirent_headers_nth [OF l that] by (simp only: dirent_header.simps)
    ultimately show ?thesis using small_u16 by (simp only:)
  qed
  have "n_entries ?b = Some ?n"
    using hdr [of 0] ofs [of 0] ne by (simp add: n_entries_def)
  moreover have "entry_at ?b ?n i = Some (?hs ! i, de_name (es ! i))" if i: "i < ?n" for i
  proof -
    have dr: "drop (?ofs i) ?b = concat (map de_name (drop i es)) @ zeros z"
    proof -
      have "drop (12 * ?n) ?b = concat (map de_name es) @ zeros z"
        using l by (simp add: block_bytes_def length_concat_headers)
      then show ?thesis using drop_names [of i es "zeros z"] by (metis add.commute drop_drop)
    qed
    have le: "?ofs i \<le> length ?b" using sum_take [of i es] i lb by (simp add: total_size_names)
    have d: "drop i es = es ! i # drop (Suc i) es" using i by (simp add: Cons_nth_drop_Suc)
    have nz: "\<forall>c \<in> set (de_name (es ! i)). c \<noteq> CHR 0x00" using names i by (auto simp: names_ok_def)
    show ?thesis
    proof (cases "i + 1 = ?n")
      case True
      then have "drop (?ofs i) ?b = de_name (es ! i) @ zeros z" using dr d by simp
      moreover have "takeWhile (\<lambda>c. c \<noteq> CHR 0x00) (de_name (es ! i) @ zeros z) = de_name (es ! i)"
        using nz by (cases z) (simp_all add: takeWhile_append2 zeros_def)
      ultimately show ?thesis using True le hdr [OF i] ofs [OF i] by (simp add: entry_at_def slice_from_def)
    next
      case False
      then have j: "i + 1 < ?n" using i by simp
      have next_ofs: "?ofs (i + 1) = ?ofs i + length (de_name (es ! i))" using i by (simp add: take_Suc_conv_app_nth)
      have "field (?ofs i) (length (de_name (es ! i))) ?b = de_name (es ! i)"
        unfolding field_def dr d by simp
      moreover have "?ofs (i + 1) \<le> length ?b" using sum_take [of "i + 1" es] j lb by (simp add: total_size_names)
      moreover have "name_offset (?hs ! i) \<le> name_offset (?hs ! (i + 1))"
        using ofs [OF i] ofs [OF j] next_ofs by (simp add: word_le_nat_alt)
      ultimately show ?thesis
        using False hdr [OF i] hdr [OF j] ofs [OF i] ofs [OF j] next_ofs
        by (simp add: entry_at_def slice_def)
    qed
  qed
  then have "map_opt (entry_at ?b ?n) [0..<?n] = Some (map (\<lambda>i. (?hs ! i, de_name (es ! i))) [0..<?n])"
    by (intro map_opt_Some) simp
  moreover have "map (\<lambda>i. (?hs ! i, de_name (es ! i))) [0..<?n] = zip ?hs (map de_name es)"
    using l by (intro nth_equalityI) simp_all
  ultimately show ?thesis by (simp add: dir_entries_def)
qed

end
