(* ===== verification/Erofs_Scan.thy ===== *)
theory Erofs_Scan
  imports Erofs_Readback
begin

text \<open>
  What the reader of \<open>erofs/reader.rs\<close> makes of each inode of an image that \<open>write_erofs\<close> produced:
  its attributes and its directory entries.
\<close>

section \<open>Opening the image\<close>

definition flat :: "image \<Rightarrow> bytes \<Rightarrow> bool" where
  "flat im img \<longleftrightarrow> im_image im = img \<and> im_inodes im = img \<and> im_xattrs im = img \<and> im_blkszbits im = 12 \<and>
     im_block_size im = 4096 \<and> blkszbits (im_sb im) = 12"

lemma image_open_parts:
  assumes "image_parts ns xs g img ips xps bps"
  obtains im nid where "image_open img = Some im" "flat im img" "get_nid g 0 = Some nid" "root_nid (im_sb im) = ucast nid"
proof -
  obtain nid e bi bx bb where g: "get_nid g 0 = Some nid"
    and img: "img = magic_bytes @ zeros 992 @ superblock_bytes (the_superblock (length ns) nid e) @ bi @ bx @
       pad_bytes (1152 + length bi + length bx) 4096 @ bb"
    using assms unfolding image_parts_def by blast
  let ?sb = "the_superblock (length ns) nid e" and ?rest = "bi @ bx @ pad_bytes (1152 + length bi + length bx) 4096 @ bb"
  obtain h where h: "read_composefs_header img = Some h"
    using read_composefs_header_bytes by (simp add: img magic_bytes_def)
  have d: "drop 1024 img = superblock_bytes ?sb @ ?rest" and len: "1024 \<le> length img" by (simp_all add: img)
  have sb: "read_superblock (superblock_bytes ?sb @ ?rest) = Some ?sb"
    by (rule read_superblock_bytes) (simp add: the_superblock_def)
  have bits: "blkszbits ?sb = 12" "meta_blkaddr ?sb = 0" "xattr_blkaddr ?sb = 0" "root_nid ?sb = ucast nid"
    by (simp_all add: the_superblock_def BLOCK_BITS_def)
  let ?im = "\<lparr>im_image = img, im_header = h, im_blkszbits = 12, im_block_size = 4096, im_sb = ?sb, im_inodes = img, im_xattrs = img\<rparr>"
  have "image_open img = Some ?im"
    using h d len sb bits by (simp add: image_open_def slice_from_def)
  then show ?thesis by (rule that [of ?im nid]) (simp_all add: flat_def bits g)
qed

section \<open>Attributes\<close>

lemma attrs_len_cases:
  "attrs_len a = (if attr_filter a = 0 then 0
     else 12 + 4 * length (shared_ids a) + sum_list (map (length \<circ> xattr_full) (local_attrs a)))"
proof -
  obtain c where c: "attrs_script a no_offsets 0 = Some (c, [])"
    using silent_attrs [of a] by (fastforce simp: silent_def)
  have "(0 :: nat) mod 4 = 0" by simp
  then obtain ids where i: "c = attrs_bytes ids a" "length ids = length (shared_ids a)" by (rule attrs_script_bytes [OF c])
  have "attrs_len a = length c" by (rule length_attrs [OF c, symmetric]) simp
  then show ?thesis using i length_attrs_bytes [of ids a] by (simp add: attrs_bytes_def)
qed

lemma attrs_len_mod: "attrs_len a mod 4 = 0"
proof -
  have "sum_list (map (length \<circ> xattr_full) as) mod 4 = 0" for as
  proof (induction as)
    case (Cons x as)
    then show ?case using length_xattr_full_mod [of x] by (simp add: mod_eq_0_iff_dvd)
  qed simp
  then show ?thesis by (simp add: attrs_len_cases mod_eq_0_iff_dvd)
qed

lemma icount_size:
  assumes "attrs_len a \<le> 262148" "x_xattr_icount h = icount (attrs_len a)"
  shows "xattr_size (ExtendedHeader h) = attrs_len a"
proof (cases "attrs_len a = 0")
  case True
  then show ?thesis using assms(2) by (simp add: xattr_size_def xattr_icount_def icount_def)
next
  case False
  then have ge: "12 \<le> attrs_len a" by (auto simp: attrs_len_cases split: if_splits)
  then obtain k where k: "attrs_len a = 12 + 4 * k"
  proof -
    have "4 dvd (attrs_len a - 12)" using attrs_len_mod [of a] ge by (intro dvd_diff_nat) (simp_all add: mod_eq_0_iff_dvd)
    then obtain m where "attrs_len a - 12 = 4 * m" by (rule dvdE)
    then show ?thesis using ge by (intro that [of m]) linarith
  qed
  have "k < 65535" using assms(1) k by simp
  then have u: "unat (of_nat (1 + k) :: u16) = 1 + k" by (intro small_u16) simp
  have "x_xattr_icount h = of_nat (1 + k)" using assms(2) by (simp add: icount_def k)
  moreover from this have "x_xattr_icount h \<noteq> 0" using u by (metis add_is_0 one_neq_zero unat_0)
  ultimately show ?thesis using u by (simp add: xattr_size_def xattr_icount_def k)
qed

definition readable_attrs :: "xattr list \<Rightarrow> attr_set \<Rightarrow> bool" where
  "readable_attrs xs a \<longleftrightarrow> (\<forall>j \<in> set (shared_ids a). j < length xs) \<and> length (shared_ids a) \<le> 255 \<and>
     (\<forall>x \<in> set (all_attrs xs a). attr_fits x) \<and> (attr_filter a = 0 \<longrightarrow> all_attrs xs a = []) \<and> attrs_len a \<le> 262148"

lemma known_xattr:
  assumes parts: "image_parts ns xs g img ips xps bps" and k: "known g ips xps bps e" and j: "j < length xs"
    and x: "get_xattr g j = Some x"
  shows "unat x * 4 = xps ! j"
proof -
  have "length xps = length xs" using parts unfolding image_parts_def by blast
  then have g: "g OXAttr j = Some (xps ! j)" using k j by (auto simp: known_def positions_def dest: spec [of _ OXAttr])
  have m: "xps ! j mod 4 = 0" using xattr_at [OF parts j] by simp
  have "xps ! j div 4 < 2 ^ 32" "x = of_nat (xps ! j div 4)"
    using x g m by (auto simp: get_xattr_def get_div_def bind_eq_Some_conv)
  then have "unat x = xps ! j div 4" by (simp add: unat_of_nat)
  moreover have "xps ! j div 4 * 4 = xps ! j" using m div_mult_mod_eq [of "xps ! j" 4] by linarith
  ultimately show ?thesis by (simp only:)
qed

lemma known_nid:
  assumes parts: "image_parts ns xs g img ips xps bps" and k: "known g ips xps bps e" and j: "j < length ns"
    and x: "get_nid g j = Some x"
  shows "x = of_nat (ips ! j div 32)"
proof -
  have "length ips = length ns" using parts unfolding image_parts_def by blast
  then have "g OInode j = Some (ips ! j)" using k j by (auto simp: known_def positions_def dest: spec [of _ OInode])
  then show ?thesis using x by (auto simp: get_nid_def get_div_def bind_eq_Some_conv)
qed

lemma shared_xattr_known:
  assumes parts: "image_parts ns xs g img ips xps bps" and k: "known g ips xps bps e" and j: "j < length xs"
    and x: "get_xattr g j = Some x" and im: "flat im img" and fits: "attr_fits (xs ! j)"
  shows "shared_xattr im x = Some (ref_of (xs ! j))"
proof -
  have p: "placed img (xps ! j) (xattr_bytes (xs ! j) @ pad_bytes (xps ! j + length (xattr_bytes (xs ! j))) 4)" "xps ! j mod 4 = 0"
    using xattr_at [OF parts j] by simp_all
  then have "placed img (xps ! j) (xattr_full (xs ! j))" by (simp add: xattr_full_def pad_bytes_add)
  then obtain rest where "drop (xps ! j) img = xattr_full (xs ! j) @ rest" "xps ! j \<le> length img"
    using placed_drop by fastforce
  then show ?thesis using im known_xattr [OF parts k j x] fits
    by (simp add: shared_xattr_def flat_def slice_from_def from_prefix_full)
qed

lemma map_opt_shared:
  assumes "\<And>j x. j \<in> set js \<Longrightarrow> f j = Some x \<Longrightarrow> h x = Some (r j)" "map_opt f js = Some ids"
  shows "map_opt h ids = Some (map r js)"
  using assms
proof (induction js arbitrary: ids)
  case (Cons j js)
  then show ?case by (auto simp: bind_eq_Some_conv)
qed simp

lemma read_ids: "map (\<lambda>k. get32 (field (4 * k) 4 (concat (map le32 ids)))) [0..<length ids] = ids"
proof (rule nth_equalityI)
  fix i assume "i < length (map (\<lambda>k. get32 (field (4 * k) 4 (concat (map le32 ids)))) [0..<length ids])"
  then have i: "i < length ids" by simp
  have "drop (4 * i) (concat (map le32 ids)) = concat (map le32 (drop i ids))"
  proof (induction ids arbitrary: i)
    case (Cons a ids)
    then show ?case by (cases i) simp_all
  qed simp
  also have "\<dots> = le32 (ids ! i) @ concat (map le32 (drop (Suc i) ids))" using i by (simp add: Cons_nth_drop_Suc [symmetric])
  finally show "map (\<lambda>k. get32 (field (4 * k) 4 (concat (map le32 ids)))) [0..<length ids] ! i = ids ! i"
    using i by (simp add: field_def)
qed simp

lemma inode_attrs_read:
  assumes parts: "image_parts ns xs g img ips xps bps" and k: "known g ips xps bps e" and im: "flat im img"
    and a: "attrs_script at g pos = Some (a, [])" "pos mod 4 = 0" and r: "readable_attrs xs at"
    and h: "x_xattr_icount h = icount (attrs_len at)"
  shows "inode_attrs im \<lparr>header = ExtendedHeader h, data = a @ inl\<rparr> = Some (map ref_of (all_attrs xs at))"
    and "xattr_size (ExtendedHeader h) = length a"
proof -
  have n: "xattr_size (ExtendedHeader h) = attrs_len at" using r h by (intro icount_size) (simp_all add: readable_attrs_def)
  then show sz: "xattr_size (ExtendedHeader h) = length a" using length_attrs [OF a] by simp
  obtain ids where ids: "a = attrs_bytes ids at" "length ids = length (shared_ids at)"
    "attr_filter at \<noteq> 0 \<longrightarrow> map_opt (get_xattr g) (shared_ids at) = Some ids" by (rule attrs_script_bytes [OF a])
  show "inode_attrs im \<lparr>header = ExtendedHeader h, data = a @ inl\<rparr> = Some (map ref_of (all_attrs xs at))"
  proof (cases "attr_filter at = 0")
    case True
    then show ?thesis using n r by (simp add: inode_attrs_def inode_xattrs_def attrs_len_cases readable_attrs_def)
  next
    case False
    let ?h = "\<lparr>name_filter = NOT (attr_filter at), shared_count = of_nat (length (shared_ids at))\<rparr> :: inode_xattr_header"
    let ?d = "concat (map le32 ids) @ concat (map xattr_full (local_attrs at))"
    have ne: "xattr_size (ExtendedHeader h) \<noteq> 0" using n False by (simp add: attrs_len_cases)
    have split: "a = inode_xattr_header_bytes ?h @ ?d" using ids(1) False by (simp add: attrs_bytes_def)
    then have x: "inode_xattrs \<lparr>header = ExtendedHeader h, data = a @ inl\<rparr> = Some (Some \<lparr>ix_header = ?h, ix_data = ?d\<rparr>)"
      using ne sz by (simp add: inode_xattrs_def Let_def slice_def field_def)
    have c: "unat (shared_count ?h) = length ids" using r ids(2) by (simp add: readable_attrs_def unat_of_nat)
    have sh: "shared \<lparr>ix_header = ?h, ix_data = ?d\<rparr> = Some ids"
      using c read_ids [of ids] by (simp add: shared_def Let_def slice_def field_def [of 0] length_concat_le32)
    have "map_opt (shared_xattr im) ids = Some (map (\<lambda>j. ref_of (xs ! j)) (shared_ids at))"
    proof (rule map_opt_shared [OF _ ids(3) [rule_format, OF False]])
      fix j x
      assume j: "j \<in> set (shared_ids at)" "get_xattr g j = Some x"
      have "j < length xs" "attr_fits (xs ! j)" using r j(1) by (auto simp: readable_attrs_def all_attrs_def)
      then show "shared_xattr im x = Some (ref_of (xs ! j))" by (intro shared_xattr_known [OF parts k _ j(2) im])
    qed
    moreover have "local_xattrs \<lparr>ix_header = ?h, ix_data = ?d\<rparr> = Some (map ref_of (local_attrs at))"
      using c r xattr_iter_full [of "local_attrs at"]
      by (simp add: local_xattrs_def slice_from_def length_concat_le32 mult.commute readable_attrs_def all_attrs_def)
    ultimately show ?thesis using x sh by (simp add: inode_attrs_def all_attrs_def)
  qed
qed

end
