(* ===== verification/Erofs_Inode_Read.thy ===== *)
theory Erofs_Inode_Read
  imports Erofs_Scan
begin

text \<open>
  What the reader of \<open>erofs/reader.rs\<close> makes of the inodes of an image that \<open>write_erofs\<close> produced:
  \<open>get_inode\<close> at the recorded position, its attributes, its directory entries, and so \<open>scan\<close>.
\<close>

section \<open>Finding an inode\<close>

lemma extended_bit: "get8 0 (extended_header_bytes (header_of i n m u p) @ rest) AND 1 \<noteq> 0"
proof -
  have b0: "le_bytes 2 n ! 0 = char_of n" for n :: nat by (simp add: numeral_2_eq_2)
  have "get8 0 (extended_header_bytes (header_of i n m u p) @ rest) = get8 0 (le16 (format_field Extended (content_layout (i_content i))))"
    by (simp add: get8_def extended_header_bytes_def header_of_def nth_append)
  also have "\<dots> AND 1 \<noteq> 0"
    using b0 by (cases "content_layout (i_content i)")
      (simp_all add: get8_def format_field_def layout_bits_def data_bits_def le16_def byte_u8_def)
  finally show ?thesis .
qed

text \<open>The inline data is as long as the header says.\<close>

definition inline_fits :: "inode_content \<Rightarrow> bool" where
  "inline_fits c \<longleftrightarrow> (case c of
       DirContent d \<Rightarrow> total_size (dir_inline d) \<le> 2048 \<and> dir_size d = 4096 * length (dir_blocks d) + total_size (dir_inline d)
     | LeafContent (Regular (Inline b)) _ \<Rightarrow> length b < 4096
     | LeafContent (Symlink t) _ \<Rightarrow> length t < 4096
     | _ \<Rightarrow> True)"

definition layout_extra :: "inode_content \<Rightarrow> nat" where
  "layout_extra c = (case content_layout c of FlatPlain \<Rightarrow> 0 | FlatInline \<Rightarrow> content_size c mod 4096 | ChunkBased \<Rightarrow> 4)"

lemma block_script_length: "block_script es g pos = Some (b, ns) \<Longrightarrow> length b = total_size es"
proof -
  assume "block_script es g pos = Some (b, ns)"
  then obtain nids where "map_opt (\<lambda>e. get_nid g (de_inode e)) es = Some nids" "b = block_bytes nids es"
    using block_script_bytes by blast
  then show ?thesis using map_opt_length length_block_bytes by metis
qed

lemma inline_length:
  assumes "inline_script c g pos = Some (b, ns)" "inline_fits c"
  shows "length b = layout_extra c"
proof (cases c)
  case (DirContent d)
  then have "length b = total_size (dir_inline d)" using assms(1) block_script_length by (simp add: inline_script_def)
  moreover have "(4096 * k + total_size (dir_inline d)) mod 4096 = total_size (dir_inline d)" if "total_size (dir_inline d) \<le> 2048" for k
    using that by simp
  ultimately show ?thesis using assms(2) DirContent
    by (auto simp: inline_fits_def layout_extra_def content_layout_def content_size_def)
next
  case (LeafContent l n)
  then have "b = leaf_inline l" using assms(1) by (simp add: inline_script_def sp_write_Some)
  then show ?thesis using assms(2) LeafContent
    by (auto simp: inline_fits_def layout_extra_def content_layout_def content_size_def leaf_inode_meta_def leaf_inline_def
        split: leaf_content.splits regular_file.splits)
qed

text \<open>The reader takes as much inline data as the header says, which may be less than was written.\<close>

lemma get_inode_cut:
  assumes parts: "image_parts ns xs g img ips xps bps" and k: "known g ips xps bps e" and im: "flat im img"
    and i: "idx < length ns" and len: "length img < 2 ^ 32"
    and r: "readable_attrs xs (i_xattrs (ns ! idx))"
    and f: "\<And>q b. inline_script (i_content (ns ! idx)) g q = Some (b, []) \<Longrightarrow> layout_extra (i_content (ns ! idx)) \<le> length b"
  obtains h a inl u where "get_inode im (of_nat (ips ! idx div 32)) =
      Some \<lparr>header = ExtendedHeader h, data = a @ take (layout_extra (i_content (ns ! idx))) inl\<rparr>"
    "h = header_of (ns ! idx) (attrs_len (i_xattrs (ns ! idx))) (mode_of (ns ! idx)) u (ips ! idx)"
    "inode_attrs im \<lparr>header = ExtendedHeader h, data = a @ take (layout_extra (i_content (ns ! idx))) inl\<rparr> =
      Some (map ref_of (all_attrs xs (i_xattrs (ns ! idx))))"
    "xattr_size (ExtendedHeader h) = length a" "content_u g idx (i_content (ns ! idx)) = Some u"
    "inline_script (i_content (ns ! idx)) g (ips ! idx + 64 + length a) = Some (inl, [])"
proof -
  let ?i = "ns ! idx" and ?p = "ips ! idx"
  obtain u a inl where pl: "placed img ?p (extended_header_bytes (header_of ?i (attrs_len (i_xattrs ?i)) (mode_of ?i) u ?p) @ a @ inl)"
    and al: "?p mod 32 = 0" and u: "content_u g idx (i_content ?i) = Some u"
    and a: "attrs_script (i_xattrs ?i) g (?p + 64) = Some (a, [])"
    and inl: "inline_script (i_content ?i) g (?p + 64 + length a) = Some (inl, [])" by (rule inode_at [OF parts i])
  let ?h = "header_of ?i (attrs_len (i_xattrs ?i)) (mode_of ?i) u ?p"
  obtain rest where d: "drop ?p img = extended_header_bytes ?h @ a @ inl @ rest"
    and le: "?p + length (extended_header_bytes ?h @ a @ inl) \<le> length img" using placed_drop [OF pl] by auto
  have "(?p + 64) mod 4 = 0" using mod_32_4 [OF al] by presburger
  note at = inode_attrs_read [OF parts k im a this r, of ?h]
  have ic: "x_xattr_icount ?h = icount (attrs_len (i_xattrs ?i))" by (simp add: header_of_def)
  have div: "?p div 32 * 32 = ?p" using al div_mult_mod_eq [of ?p 32] by linarith
  have small: "?p div 32 < 2 ^ 64" using le len div by simp
  then have nid: "unat (of_nat (?p div 32) :: u64) * 32 = ?p" using div by (simp add: unat_of_nat)
  have fr: "slice_from ?p img = Some (extended_header_bytes ?h @ a @ inl @ rest)"
    using d le by (simp add: slice_from_def)
  have hd: "slice 0 64 (extended_header_bytes ?h @ a @ inl @ rest) = Some (extended_header_bytes ?h)"
    by (simp add: slice_def field_def)
  have lay: "data_layout (ExtendedHeader ?h) = Some (content_layout (i_content ?i))"
    by (simp add: data_layout_def header_of_def)
  have sz: "unat (inode_size (ExtendedHeader ?h)) mod 4096 = content_size (i_content ?i) mod 4096"
    by (simp add: inode_size_def header_of_def unat_of_nat mod_mod_cancel)
  have bits: "2 ^ unat (12 :: u8) = (4096 :: nat)" by simp
  have "additional_bytes (ExtendedHeader ?h) 12 = Some (length a + layout_extra (i_content ?i))"
    by (simp only: additional_bytes_def lay at(2) [OF ic] layout_extra_def bits sz Option.bind.simps)
  then have n: "additional_bytes (ExtendedHeader ?h) 12 = Some (length a + layout_extra (i_content ?i))" .
  have sl: "slice 64 (length a + layout_extra (i_content ?i)) (extended_header_bytes ?h @ a @ inl @ rest) =
      Some (a @ take (layout_extra (i_content ?i)) inl)"
    using f [OF inl] by (simp add: slice_def field_def)
  have ne: "extended_header_bytes ?h \<noteq> []" using length_structs(2) [of ?h] by (metis list.size(3) zero_neq_numeral)
  have "get_inode im (of_nat (?p div 32)) = Some \<lparr>header = ExtendedHeader ?h, data = a @ take (layout_extra (i_content ?i)) inl\<rparr>"
    using im by (simp add: get_inode_def flat_def nid fr ne extended_bit hd n sl)
  then show ?thesis using that at [OF ic] u inl by blast
qed

lemma get_inode_at:
  assumes parts: "image_parts ns xs g img ips xps bps" and k: "known g ips xps bps e" and im: "flat im img"
    and i: "idx < length ns" and len: "length img < 2 ^ 32"
    and r: "readable_attrs xs (i_xattrs (ns ! idx))" and f: "inline_fits (i_content (ns ! idx))"
  obtains h a inl u where "get_inode im (of_nat (ips ! idx div 32)) = Some \<lparr>header = ExtendedHeader h, data = a @ inl\<rparr>"
    "h = header_of (ns ! idx) (attrs_len (i_xattrs (ns ! idx))) (mode_of (ns ! idx)) u (ips ! idx)"
    "inode_attrs im \<lparr>header = ExtendedHeader h, data = a @ inl\<rparr> = Some (map ref_of (all_attrs xs (i_xattrs (ns ! idx))))"
    "xattr_size (ExtendedHeader h) = length a" "content_u g idx (i_content (ns ! idx)) = Some u"
    "inline_script (i_content (ns ! idx)) g (ips ! idx + 64 + length a) = Some (inl, [])"
proof (rule get_inode_cut [OF parts k im i len r])
  show "layout_extra (i_content (ns ! idx)) \<le> length b" if "inline_script (i_content (ns ! idx)) g q = Some (b, [])" for q b
    using inline_length [OF that f] by simp
next
  fix h a inl u
  assume "get_inode im (of_nat (ips ! idx div 32)) = Some \<lparr>header = ExtendedHeader h, data = a @ take (layout_extra (i_content (ns ! idx))) inl\<rparr>"
    "h = header_of (ns ! idx) (attrs_len (i_xattrs (ns ! idx))) (mode_of (ns ! idx)) u (ips ! idx)"
    "inode_attrs im \<lparr>header = ExtendedHeader h, data = a @ take (layout_extra (i_content (ns ! idx))) inl\<rparr> =
      Some (map ref_of (all_attrs xs (i_xattrs (ns ! idx))))"
    "xattr_size (ExtendedHeader h) = length a" "content_u g idx (i_content (ns ! idx)) = Some u"
    "inline_script (i_content (ns ! idx)) g (ips ! idx + 64 + length a) = Some (inl, [])"
  then show ?thesis using that [of h a inl u] inline_length [OF _ f, of g "ips ! idx + 64 + length a" inl "[]"] by simp
qed

section \<open>Its directory entries\<close>

definition nid_of :: "nat list \<Rightarrow> nat \<Rightarrow> u64" where "nid_of ips j = of_nat (ips ! j div 32)"

definition entry_refs :: "nat list \<Rightarrow> dirent list \<Rightarrow> u64 list" where "entry_refs ips es = map (\<lambda>e. nid_of ips (de_inode e)) es"

definition read_entries :: "nat list \<Rightarrow> dirent list \<Rightarrow> (dirent_header \<times> bytes) list" where
  "read_entries ips es = zip (dirent_headers (entry_refs ips es) es (12 * length es)) (map de_name es)"

definition child_nids :: "nat list \<Rightarrow> dirent list \<Rightarrow> u64 set" where
  "child_nids ips es = {nid_of ips (de_inode e) | e. e \<in> set es \<and> de_name e \<noteq> ''.'' \<and> de_name e \<noteq> ''..''}"

lemma child_nids_append: "child_nids ips (es @ es') = child_nids ips es \<union> child_nids ips es'"
  by (auto simp: child_nids_def)

lemma length_entry_refs [simp]: "length (entry_refs ips es) = length es"
  by (simp add: entry_refs_def)

lemma entry_nids_read: "entry_nids (read_entries ips es) = child_nids ips es"
proof -
  have nth: "inode_offset (dirent_headers (entry_refs ips es) es (12 * length es) ! i) = nid_of ips (de_inode (es ! i))"
    if "i < length es" for i
    using that dirent_headers_nth [of "entry_refs ips es" es i "12 * length es"] by (simp add: entry_refs_def)
  show ?thesis
  proof (intro set_eqI iffI)
    fix x assume "x \<in> entry_nids (read_entries ips es)"
    then obtain i where "i < length es" "x = nid_of ips (de_inode (es ! i))" "de_name (es ! i) \<notin> {''.'', ''..''}"
      by (auto simp: entry_nids_def read_entries_def in_set_zip nth)
    then show "x \<in> child_nids ips es" by (auto simp: child_nids_def)
  next
    fix x assume "x \<in> child_nids ips es"
    then obtain i where i: "i < length es" "x = nid_of ips (de_inode (es ! i))" "de_name (es ! i) \<notin> {''.'', ''..''}"
      by (auto simp: child_nids_def in_set_conv_nth)
    let ?h = "dirent_headers (entry_refs ips es) es (12 * length es) ! i"
    have "(?h, de_name (es ! i)) \<in> set (read_entries ips es)"
      using i(1) by (auto simp: read_entries_def in_set_zip)
    then show "x \<in> entry_nids (read_entries ips es)" using i nth [OF i(1)] by (force simp: entry_nids_def)
  qed
qed

lemma read_entries_name:
  assumes "e \<in> set es"
  shows "\<exists>h. (h, de_name e) \<in> set (read_entries ips es) \<and> inode_offset h = nid_of ips (de_inode e)"
proof -
  obtain i where i: "i < length es" "e = es ! i" using assms by (auto simp: in_set_conv_nth)
  let ?h = "dirent_headers (entry_refs ips es) es (12 * length es) ! i"
  have "(?h, de_name e) \<in> set (read_entries ips es)" using i by (auto simp: read_entries_def in_set_zip)
  moreover have "inode_offset ?h = nid_of ips (de_inode e)"
    using i dirent_headers_nth [of "entry_refs ips es" es i "12 * length es"] by (simp add: entry_refs_def)
  ultimately show ?thesis by blast
qed

lemma known_block:
  assumes parts: "image_parts ns xs g img ips xps bps" and k: "known g ips xps bps e"
    and b: "block_script es g pos = Some (b, l)" and es: "\<forall>e \<in> set es. de_inode e < length ns"
  shows "b = block_bytes (entry_refs ips es) es"
proof -
  obtain nids where n: "map_opt (\<lambda>e. get_nid g (de_inode e)) es = Some nids" "b = block_bytes nids es"
    using block_script_bytes [OF b] by blast
  have "nids = entry_refs ips es" using n(1) es
  proof (induction es arbitrary: nids)
    case (Cons d es)
    then show ?case using known_nid [OF parts k] by (auto simp: entry_refs_def nid_of_def bind_eq_Some_conv)
  qed (simp add: entry_refs_def)
  then show ?thesis using n(2) by simp
qed

definition full_block :: "nat list \<Rightarrow> dirent list \<Rightarrow> bytes" where
  "full_block ips es = block_bytes (entry_refs ips es) es @ zeros (4096 - total_size es)"

lemma length_full_block: "total_size es \<le> 4096 \<Longrightarrow> length (full_block ips es) = 4096"
  by (simp add: full_block_def length_block_bytes)

lemma total_size_pos: "es \<noteq> [] \<Longrightarrow> 0 < total_size es"
  by (cases es) (simp_all add: total_size_names)

lemma known_dir_blocks:
  assumes parts: "image_parts ns xs g img ips xps bps" and k: "known g ips xps bps e"
  shows "sp_list dir_block_script bs g pos = Some (b, l) \<Longrightarrow> pos mod 4096 = 0 \<Longrightarrow>
     \<forall>es \<in> set bs. es \<noteq> [] \<and> total_size es \<le> 4096 \<and> (\<forall>e \<in> set es. de_inode e < length ns) \<Longrightarrow>
     b = concat (map (full_block ips) bs)"
proof (induction bs arbitrary: pos b l)
  case (Cons es bs)
  obtain b1 n1 b2 n2 where r: "dir_block_script es g pos = Some (b1, n1)" "sp_list dir_block_script bs g (pos + length b1) = Some (b2, n2)"
    "b = b1 @ b2" using Cons.prems(1) by (auto simp: sp_seq_Some)
  then obtain c m where c: "block_script es g pos = Some (c, m)" "b1 = c @ pad_bytes (pos + length c) 4096"
    unfolding dir_block_script_def sp_check_seq_Some by (auto simp: sp_seq_Some sp_pad_Some simp del: length_pad_bytes)
  have es: "es \<noteq> []" "total_size es \<le> 4096" "\<forall>e \<in> set es. de_inode e < length ns" using Cons.prems(3) by simp_all
  have cb: "c = block_bytes (entry_refs ips es) es" by (rule known_block [OF parts k c(1) es(3)])
  then have lc: "length c = total_size es" by (simp add: length_block_bytes)
  have "pad_bytes (pos + length c) 4096 = pad_bytes (total_size es) 4096"
    using Cons.prems(2) by (simp add: lc pad_bytes_add)
  also have "\<dots> = zeros (4096 - total_size es)"
  proof -
    have "(total_size es + 4096 - 1) div 4096 = 1" using es(2) total_size_pos [OF es(1)] by (intro div_nat_eqI) simp_all
    then show ?thesis by (simp add: pad_bytes_def round_up_def)
  qed
  finally have b1: "b1 = full_block ips es" by (simp add: c(2) cb full_block_def)
  then have "(pos + length b1) mod 4096 = 0" using Cons.prems(2) es(2) by (simp add: length_full_block)
  from Cons.IH [OF r(2) this] show ?case using Cons.prems(3) r(3) b1 by simp
qed (simp add: sp_skip_Some)

lemma read_blocks:
  assumes im: "flat im img"
  shows "placed img (4096 * s) (concat (map (full_block ips) bs)) \<Longrightarrow>
     \<forall>es \<in> set bs. es \<noteq> [] \<and> total_size es \<le> 4096 \<and> names_ok es \<Longrightarrow>
     blocks_entries im [s..<s + length bs] = Some (concat (map (read_entries ips) bs))"
proof (induction bs arbitrary: s)
  case (Cons es bs)
  have es: "es \<noteq> []" "total_size es \<le> 4096" "names_ok es" using Cons.prems(2) by simp_all
  have p: "placed img (4096 * s) (full_block ips es)" "placed img (4096 * Suc s) (concat (map (full_block ips) bs))"
    using placed_append [of img "4096 * s" "full_block ips es" "concat (map (full_block ips) bs)"] Cons.prems(1)
    by (simp_all add: length_full_block [OF es(2)] add.commute)
  have "block im s = Some (full_block ips es)"
    using im placed_field [OF p(1)] by (simp add: block_def flat_def slice_def length_full_block [OF es(2)] mult.commute)
  moreover have "dir_entries (full_block ips es) = Some (read_entries ips es)"
    using dir_entries_block [OF length_entry_refs es] by (simp add: full_block_def read_entries_def)
  moreover have "blocks_entries im [Suc s..<Suc s + length bs] = Some (concat (map (read_entries ips) bs))"
    using Cons.IH [OF p(2)] Cons.prems(2) by simp
  moreover have "[s..<s + length (es # bs)] = s # [Suc s..<Suc s + length bs]" by (simp add: upt_rec)
  ultimately show ?case by simp
qed simp

definition dir_reads :: "nat \<Rightarrow> dir_data \<Rightarrow> bool" where
  "dir_reads n d \<longleftrightarrow> (\<forall>b \<in> set (dir_blocks d). b \<noteq> [] \<and> total_size b \<le> 4096) \<and> total_size (dir_inline d) \<le> 2048 \<and>
     dir_size d = 4096 * length (dir_blocks d) + total_size (dir_inline d) \<and>
     (\<forall>e \<in> set (dir_dirents d). de_inode e < n) \<and> names_ok (dir_dirents d)"

lemma small_u64: "k < 18446744073709551616 \<Longrightarrow> unat (of_nat k :: u64) = k"
  by (simp add: unat_of_nat)

text \<open>The blocks of a directory, and its inline entries.\<close>

lemma dir_block_range:
  assumes parts: "image_parts ns xs g img ips xps bps" and k: "known g ips xps bps e" and im: "flat im img"
    and i: "idx < length ns" and len: "length img < 2 ^ 32" and d: "i_content (ns ! idx) = DirContent d" "dir_reads (length ns) d"
    and u: "content_u g idx (DirContent d) = Some u"
    and h: "h = header_of (ns ! idx) m m' u p"
  obtains s where "blocks \<lparr>header = ExtendedHeader h, data = x\<rparr> 12 = Some [s..<s + length (dir_blocks d)]"
    "blocks_entries im [s..<s + length (dir_blocks d)] = Some (concat (map (read_entries ips) (dir_blocks d)))"
proof -
  let ?n = "length (dir_blocks d)"
  have bs: "\<forall>es \<in> set (dir_blocks d). es \<noteq> [] \<and> total_size es \<le> 4096 \<and> (\<forall>e \<in> set es. de_inode e < length ns)"
    "\<forall>es \<in> set (dir_blocks d). es \<noteq> [] \<and> total_size es \<le> 4096 \<and> names_ok es"
    using d(2) by (auto simp: dir_reads_def dir_dirents_def names_ok_def)
  obtain b where b: "blocks_script (ns ! idx) g (bps ! idx) = Some (b, [])" "placed img (bps ! idx) b" "bps ! idx mod 4096 = 0"
    by (rule blocks_at [OF parts i])
  have run: "sp_list dir_block_script (dir_blocks d) g (bps ! idx) = Some (b, [])" using b(1) by (simp add: blocks_script_def d(1))
  have full: "b = concat (map (full_block ips) (dir_blocks d))" by (rule known_dir_blocks [OF parts k run b(3) bs(1)])
  have "length (concat (map (full_block ips) bs)) = 4096 * length bs" if "\<forall>es \<in> set bs. total_size es \<le> 4096" for bs
    using that by (induction bs) (simp_all add: length_full_block)
  then have lb: "length b = 4096 * ?n" using bs(1) by (simp add: full)
  have fits: "bps ! idx + 4096 * ?n \<le> length img" using placed_field [OF b(2)] lb by simp
  have "length bps = length ns" using parts unfolding image_parts_def by blast
  then have g: "g OBlock idx = Some (bps ! idx)" using k i by (auto simp: known_def positions_def dest: spec [of _ OBlock])
  have "unat (of_nat (bps ! idx) :: u32) = bps ! idx" using fits len by (simp add: unat_of_nat)
  then have w: "unat (of_nat (bps ! idx) div 4096 :: u32) = bps ! idx div 4096" by (simp add: unat_div)
  let ?s = "unat u"
  have uc: "?s = (if dir_inline d = [] \<or> dir_blocks d \<noteq> [] then bps ! idx div 4096 else 0)"
    using u w by (auto simp: content_u_def g dir_inode_meta_def)
  have ts: "total_size (dir_inline d) \<le> 2048" using d(2) by (simp add: dir_reads_def)
  have lay: "data_layout (ExtendedHeader h) = Some (if dir_inline d = [] then FlatPlain else FlatInline)"
    by (simp add: data_layout_def h header_of_def d(1) content_layout_def)
  have "unat (of_nat (4096 * ?n + total_size (dir_inline d)) :: u64) = 4096 * ?n + total_size (dir_inline d)"
    using fits len ts(1) by (intro small_u64) simp
  then have sz: "unat (inode_size (ExtendedHeader h)) = 4096 * ?n + total_size (dir_inline d)"
    using d(2) by (simp only: inode_size_def inode_header.case h header_of_def extended_header.simps d(1) content_size_def
        inode_content.case dir_reads_def)
  have iu: "unat (inode_u (ExtendedHeader h)) = ?s" by (simp add: inode_u_def h header_of_def)
  have ceil: "div_ceil (4096 * ?n) 4096 = ?n" unfolding div_ceil_def by (intro div_nat_eqI) simp_all
  have quot: "(4096 * ?n + total_size (dir_inline d)) div 4096 = ?n" using ts(1) by simp
  have small: "?s + ?n < 2 ^ 64" using uc fits len by auto
  have bits: "2 ^ unat (12 :: u8) = (4096 :: nat)" by simp
  have "blocks \<lparr>header = ExtendedHeader h, data = x\<rparr> 12 = Some [?s..<?s + ?n]"
  proof (cases "dir_inline d = []")
    case True
    then show ?thesis using ts small ceil by (simp add: blocks_def Let_def lay sz iu del: unat_numeral)
  next
    case False
    then show ?thesis using small quot by (simp add: blocks_def Let_def lay sz iu)
  qed
  moreover have "blocks_entries im [?s..<?s + ?n] = Some (concat (map (read_entries ips) (dir_blocks d)))"
  proof (cases "dir_blocks d = []")
    case False
    then have "4096 * ?s = bps ! idx" using uc b(3) mult_div_mod_eq [of 4096 "bps ! idx"] by simp
    then show ?thesis using read_blocks [OF im _ bs(2)] b(2) full by simp
  qed simp
  ultimately show ?thesis by (rule that)
qed

lemma inode_entries_dir:
  assumes parts: "image_parts ns xs g img ips xps bps" and k: "known g ips xps bps e" and im: "flat im img"
    and i: "idx < length ns" and len: "length img < 2 ^ 32" and d: "i_content (ns ! idx) = DirContent d" "dir_reads (length ns) d"
    and u: "content_u g idx (DirContent d) = Some u"
    and h: "h = header_of (ns ! idx) m m' u p" "is_dir (inode_mode (ExtendedHeader h))"
    and inl: "inline_script (DirContent d) g q = Some (inl, [])" and a: "xattr_size (ExtendedHeader h) = length a"
  shows "\<exists>es. inode_entries im \<lparr>header = ExtendedHeader h, data = a @ inl\<rparr> = Some es \<and> entry_nids es = child_nids ips (dir_dirents d) \<and>
    (\<forall>e \<in> set (dir_dirents d). \<exists>h. (h, de_name e) \<in> set es \<and> inode_offset h = nid_of ips (de_inode e))"
proof -
  let ?i = "\<lparr>header = ExtendedHeader h, data = a @ inl\<rparr>"
  obtain s where s: "blocks ?i 12 = Some [s..<s + length (dir_blocks d)]"
    "blocks_entries im [s..<s + length (dir_blocks d)] = Some (concat (map (read_entries ips) (dir_blocks d)))"
    by (rule dir_block_range [OF parts k im i len d u h(1)])
  have es: "\<forall>e \<in> set (dir_inline d). de_inode e < length ns" "names_ok (dir_inline d)" "total_size (dir_inline d) \<le> 4096"
    using d(2) by (auto simp: dir_reads_def dir_dirents_def names_ok_def)
  have run: "block_script (dir_inline d) g q = Some (inl, [])" using inl by (simp add: inline_script_def)
  have ib: "inl = block_bytes (entry_refs ips (dir_inline d)) (dir_inline d)" by (rule known_block [OF parts k run es(1)])
  have li: "length inl = total_size (dir_inline d)" by (rule block_script_length [OF run])
  have il: "inline ?i = Some (if inl = [] then None else Some inl)"
    by (simp add: inline_def a slice_from_def)
  have blocks_nids: "entry_nids (concat (map (read_entries ips) bs)) = child_nids ips (concat bs)" for bs
    by (induction bs) (simp_all add: entry_nids_read child_nids_append, simp add: child_nids_def)
  have bits: "blkszbits (im_sb im) = 12" using im by (simp add: flat_def)
  show ?thesis
  proof (cases "dir_inline d = []")
    case True
    then have "inl = []" using li by simp
    then show ?thesis using True h(2) s il blocks_nids read_entries_name [where ips = ips]
      by (fastforce simp: inode_entries_def bits dir_dirents_def)
  next
    case False
    have "inl \<noteq> []" using li total_size_pos [OF False] by auto
    moreover have "dir_entries inl = Some (read_entries ips (dir_inline d))"
      using dir_entries_block [OF length_entry_refs False es(3,2), of ips 0] by (simp add: ib read_entries_def zeros_def)
    ultimately have "inode_entries im ?i = Some (concat (map (read_entries ips) (dir_blocks d)) @ read_entries ips (dir_inline d))"
      using h(2) s il by (simp add: inode_entries_def bits)
    then show ?thesis using read_entries_name [where ips = ips]
      by (fastforce simp: blocks_nids entry_nids_read dir_dirents_def child_nids_append)
  qed
qed

section \<open>What an inode contributes\<close>

definition rec_reads :: "nat \<Rightarrow> xattr list \<Rightarrow> inode_rec \<Rightarrow> bool" where
  "rec_reads n xs i \<longleftrightarrow> readable_attrs xs (i_xattrs i) \<and> ucast (st_mode (i_stat i)) AND S_IFMT = 0 \<and>
     inline_fits (i_content i) \<and> (\<forall>d. i_content i = DirContent d \<longrightarrow> dir_reads n d)"

theorem scan_written:
  assumes parts: "image_parts ns xs g img ips xps bps" and k: "known g ips xps bps e" and im: "flat im img"
    and i: "idx < length ns" and len: "length img < 2 ^ 32" and r: "rec_reads (length ns) xs (ns ! idx)"
  shows "scan H im (nid_of ips idx) = Some (\<Union> (attr_object H ` set (all_attrs xs (i_xattrs (ns ! idx)))),
     child_nids ips (content_dirents (i_content (ns ! idx))))"
proof -
  let ?i = "ns ! idx"
  have fits: "readable_attrs xs (i_xattrs ?i)" "inline_fits (i_content ?i)" using r by (simp_all add: rec_reads_def)
  obtain h a inl u where n: "get_inode im (of_nat (ips ! idx div 32)) = Some \<lparr>header = ExtendedHeader h, data = a @ inl\<rparr>"
    and h: "h = header_of ?i (attrs_len (i_xattrs ?i)) (mode_of ?i) u (ips ! idx)"
    and as: "inode_attrs im \<lparr>header = ExtendedHeader h, data = a @ inl\<rparr> = Some (map ref_of (all_attrs xs (i_xattrs ?i)))"
    and a: "xattr_size (ExtendedHeader h) = length a" and u: "content_u g idx (i_content ?i) = Some u"
    and inl: "inline_script (i_content ?i) g (ips ! idx + 64 + length a) = Some (inl, [])"
    by (rule get_inode_at [OF parts k im i len fits])
  have "inode_mode (ExtendedHeader h) = mode_of ?i" by (simp add: inode_mode_def h header_of_def)
  then have dir: "is_dir (inode_mode (ExtendedHeader h)) \<longleftrightarrow> file_type (i_content ?i) = FDirectory"
    using is_dir_mode_field [OF mode_of] r by (simp add: rec_reads_def)
  have "\<exists>es. inode_entries im \<lparr>header = ExtendedHeader h, data = a @ inl\<rparr> = Some es \<and>
      entry_nids es = child_nids ips (content_dirents (i_content ?i))"
  proof (cases "i_content ?i")
    case (DirContent d)
    have d: "dir_reads (length ns) d" using r DirContent by (simp add: rec_reads_def)
    have isd: "is_dir (inode_mode (ExtendedHeader h))" using dir by (simp add: DirContent file_type_def)
    show ?thesis
      using inode_entries_dir [OF parts k im i len DirContent d u [unfolded DirContent] h isd inl [unfolded DirContent] a]
      by (auto simp: DirContent content_dirents_def dir_dirents_def)
  next
    case (LeafContent l m)
    then have "\<not> is_dir (inode_mode (ExtendedHeader h))"
      using dir by (simp add: file_type_def split: leaf_content.split)
    then show ?thesis using LeafContent by (simp add: inode_entries_def content_dirents_def child_nids_def)
  qed
  moreover have "\<Union> (xattr_objects H ` set (map ref_of xs')) = \<Union> (attr_object H ` set xs')" if "\<forall>x \<in> set xs'. attr_fits x" for xs'
    using that by (simp add: objects_ref_of)
  ultimately show ?thesis using n as fits(1) by (auto simp: scan_def nid_of_def readable_attrs_def)
qed

text \<open>A directory's inode leads to the inodes of its entries by their names.\<close>

lemma dir_written:
  assumes parts: "image_parts ns xs g img ips xps bps" and k: "known g ips xps bps e" and im: "flat im img"
    and i: "idx < length ns" and len: "length img < 2 ^ 32" and r: "rec_reads (length ns) xs (ns ! idx)"
    and d: "i_content (ns ! idx) = DirContent d"
  shows "\<exists>i es. get_inode im (nid_of ips idx) = Some i \<and> inode_entries im i = Some es \<and>
    (\<forall>e \<in> set (dir_dirents d). \<exists>h. (h, de_name e) \<in> set es \<and> inode_offset h = nid_of ips (de_inode e))"
proof -
  let ?i = "ns ! idx"
  have fits: "readable_attrs xs (i_xattrs ?i)" "inline_fits (i_content ?i)" "dir_reads (length ns) d"
    using r d by (simp_all add: rec_reads_def)
  obtain h a inl u where n: "get_inode im (of_nat (ips ! idx div 32)) = Some \<lparr>header = ExtendedHeader h, data = a @ inl\<rparr>"
    and h: "h = header_of ?i (attrs_len (i_xattrs ?i)) (mode_of ?i) u (ips ! idx)"
    and a: "xattr_size (ExtendedHeader h) = length a" and u: "content_u g idx (i_content ?i) = Some u"
    and inl: "inline_script (i_content ?i) g (ips ! idx + 64 + length a) = Some (inl, [])"
    by (rule get_inode_at [OF parts k im i len fits(1,2)])
  have "inode_mode (ExtendedHeader h) = mode_of ?i" by (simp add: inode_mode_def h header_of_def)
  then have isd: "is_dir (inode_mode (ExtendedHeader h))"
    using is_dir_mode_field [OF mode_of] r by (simp add: rec_reads_def d file_type_def)
  show ?thesis
    using inode_entries_dir [OF parts k im i len d fits(3) u [unfolded d] h isd inl [unfolded d] a] n by (auto simp: nid_of_def)
qed

end
