(* ===== verification/Erofs_Mkfs.thy ===== *)
theory Erofs_Mkfs
  imports Erofs_Inode_Read "HOL-Library.Code_Target_Nat"
begin

text \<open>
  Writer and reader together: \<open>mkfs_erofs\<close> of \<open>erofs/writer.rs\<close> returns an image for every tree whose
  names fit, and \<open>collect_objects\<close> of \<open>erofs/reader.rs\<close> finds in that image exactly the objects that
  the files of the tree name. The garbage collector deletes every object that no image names, so this
  is what keeps the contents of a committed file system.
\<close>

section \<open>The root inode\<close>

lemma inline_pad_length:
  assumes "inline_pad_script xsize sz g pos = Some (b, l)"
  shows "length b \<le> 4127"
proof -
  let ?k = "BLOCK_SIZE - (pos + (64 + xsize) - 1) mod BLOCK_SIZE"
  have "b = [] \<or> b = zeros ?k @ pad_bytes (pos + length (zeros ?k)) 32"
    using assms(1) unfolding inline_pad_script_def sp_at_def Let_def
    by (simp only: sp_seq_Some sp_write_Some sp_pad_Some sp_skip_Some split: if_splits) blast+
  moreover have "length (z @ pad_bytes q 32) \<le> 4127" if "length z \<le> 4096" for z q
    using round_up_less [of 32 q] that by simp
  moreover have "length (zeros ?k) \<le> 4096" by simp
  ultimately show ?thesis by (metis le0 list.size(3))
qed

lemma first_inode:
  assumes parts: "image_parts ns xs g img ips xps bps" and ne: "ns \<noteq> []"
  shows "ips ! 0 \<le> 6000"
proof -
  obtain nid e bi bx bb where run: "sp_list whole_inode_script (List.enumerate 0 ns) g 1152 = Some (bi, map (Pair OInode) ips)"
    and img: "img = magic_bytes @ zeros 992 @ superblock_bytes (the_superblock (length ns) nid e) @ bi @ bx @
       pad_bytes (1152 + length bi + length bx) 4096 @ bb"
    using parts unfolding image_parts_def by blast
  have e: "List.enumerate 0 ns ! 0 = (0, ns ! 0)" "0 < length (List.enumerate 0 ns)"
    using ne by (simp_all add: nth_enumerate_eq)
  obtain b1 b b2 n1 where b1: "sp_list whole_inode_script (take 0 (List.enumerate 0 ns)) g 1152 = Some (b1, n1)"
    and at': "whole_inode_script (List.enumerate 0 ns ! 0) g (1152 + length b1) = Some (b, [(OInode, ips ! 0)])"
    by (rule sp_list_at [OF one_note_inode run e(2)])
  note at = at' [unfolded e(1)]
  let ?c = "i_content (ns ! 0)" and ?x = "attrs_len (i_xattrs (ns ! 0))"
  have b1': "b1 = []" using b1 by (simp add: sp_skip_Some)
  obtain p0 n0 p1 m1 l where p: "sp_pad 32 g 1152 = Some (p0, n0)"
    "(if content_layout ?c = FlatInline then inline_pad_script ?x (content_size ?c) else sp_skip) g (1152 + length p0) = Some (p1, m1)"
    "[(OInode, ips ! 0)] = n0 @ m1 @ (OInode, 1152 + length p0 + length p1) # l"
    using at unfolding whole_inode_script_def inode_script_def prod.case b1' sp_seq_Some sp_note_Some by auto
  then have "length p0 \<le> 31" using round_up_less [of 32 1152] by (auto simp: sp_pad_Some)
  moreover have "length p1 \<le> 4127" using p(2) inline_pad_length by (auto simp: sp_skip_Some split: if_splits)
  moreover have "ips ! 0 = 1152 + length p0 + length p1" using p(3) by (cases n0; cases m1) auto
  ultimately show ?thesis by simp
qed

lemma root_found:
  assumes parts: "image_parts ns xs g img ips xps bps" and k: "known g ips xps bps e" and ne: "ns \<noteq> []"
    and nid: "get_nid g 0 = Some nid" "root_nid (im_sb im) = ucast nid"
  shows "ucast (root_nid (im_sb im)) = nid_of ips 0"
proof -
  have n: "nid = of_nat (ips ! 0 div 32)" using known_nid [OF parts k _ nid(1)] ne by simp
  have "ips ! 0 div 32 < 65536" using first_inode [OF parts ne] by simp
  then have "unat (ucast (ucast nid :: u16) :: u64) = ips ! 0 div 32"
    by (simp add: n unat_of_nat take_bit_eq_mod unsigned_ucast_eq unsigned_of_nat)
  moreover have "unat (nid_of ips 0) = ips ! 0 div 32"
    using \<open>ips ! 0 div 32 < 65536\<close> unfolding nid_of_def by (intro small_u64) simp
  ultimately show ?thesis by (simp add: nid(2) word_unat_eq_iff)
qed

section \<open>Trees whose contents fit the format\<close>

definition name_fits :: "bytes \<Rightarrow> bool" where
  "name_fits n \<longleftrightarrow> length n \<le> 4084 \<and> CHR 0x00 \<notin> set n \<and> n \<noteq> ''.'' \<and> n \<noteq> ''..''"

definition attrs_fit :: "xattr list \<Rightarrow> bool" where
  "attrs_fit as \<longleftrightarrow> length as \<le> 255 \<and> (\<forall>x \<in> set as. attr_fits x) \<and> sum_list (map (length \<circ> xattr_full) as) \<le> 262136"

definition leaf_fits :: "hash_alg \<Rightarrow> regular_file leaf_content \<Rightarrow> bool" where
  "leaf_fits H c \<longleftrightarrow> (case c of Regular (External oid _) \<Rightarrow> length oid = size_of H | Regular (Inline b) \<Rightarrow> length b < 4096
     | Symlink t \<Rightarrow> length t < 4096 | _ \<Rightarrow> True)"

text \<open>\<open>meta_fits\<close> says nothing of the contents of files.\<close>

definition meta_fits :: "hex_crate \<Rightarrow> hash_alg \<Rightarrow> stat \<Rightarrow> inode_content \<Rightarrow> bool" where
  "meta_fits hx H st c \<longleftrightarrow> ucast (st_mode st) AND S_IFMT = 0 \<and> attrs_fit (attrs_of hx H st c)"

definition node_fits :: "hex_crate \<Rightarrow> hash_alg \<Rightarrow> stat \<Rightarrow> inode_content \<Rightarrow> bool" where
  "node_fits hx H st c \<longleftrightarrow> meta_fits hx H st c \<and>
     (case c of DirContent _ \<Rightarrow> True | LeafContent l _ \<Rightarrow> leaf_fits H l)"

definition tree_fits :: "hex_crate \<Rightarrow> hash_alg \<Rightarrow> regular_file filesystem \<Rightarrow> bool" where
  "tree_fits hx H fs \<longleftrightarrow> dir_fits (node_fits hx H) name_fits (heap fs) (root fs)"

text \<open>The objects that the files of a tree name.\<close>

definition tree_objects :: "regular_file filesystem \<Rightarrow> bytes set" where
  "tree_objects fs = (\<Union>r \<in> set (refs (root fs)). content_objects (LeafContent (content (heap fs ! r)) 0))"

lemma attrs_of_kind:
  "attrs_of hx H st (DirContent d) = attrs_of hx H st (DirContent d')"
  "attrs_of hx H st (LeafContent c n) = attrs_of hx H st (LeafContent c m)"
  by (simp_all add: attrs_of_def overlay_pairs_def)

definition named_in :: "bytes set \<Rightarrow> inode_content \<Rightarrow> bool" where
  "named_in A c \<longleftrightarrow> content_objects c \<subseteq> A"

lemma kind_node_fits: "content_kind (\<lambda>st c. node_fits hx H st c \<and> named_in A c)"
  unfolding content_kind_def node_fits_def meta_fits_def named_in_def
  by (auto simp: content_objects_def attrs_of_def overlay_pairs_def)

lemma dir_fits_named:
  "dir_fits F N h d \<Longrightarrow> \<forall>r \<in> set (refs d). named_in A (LeafContent (content (h ! r)) 0) \<Longrightarrow>
     dir_fits (\<lambda>st c. F st c \<and> named_in A c) N h d"
  "inode_fits F N h i \<Longrightarrow> \<forall>r \<in> set (inode_refs i). named_in A (LeafContent (content (h ! r)) 0) \<Longrightarrow>
     inode_fits (\<lambda>st c. F st c \<and> named_in A c) N h i"
proof (induction F N h d and F N h i rule: dir_fits_inode_fits.induct)
  case (1 F N h st es)
  have "named_in A (DirContent empty_dir)" by (simp add: named_in_def content_objects_def)
  then show ?case using 1 by fastforce
qed simp_all

lemma tree_fits_named: "tree_fits hx H fs \<Longrightarrow>
    dir_fits (\<lambda>st c. node_fits hx H st c \<and> named_in (tree_objects fs) c) name_fits (heap fs) (root fs)"
  unfolding tree_fits_def by (rule dir_fits_named) (auto simp: named_in_def tree_objects_def)

section \<open>Collected inodes can be read\<close>

lemma shared_area:
  assumes "mset (all_attrs xs a) = mset as" "attrs_fit as"
  shows "length (shared_ids a) \<le> 255" "attrs_len a \<le> 262148" "\<forall>x \<in> set (all_attrs xs a). attr_fits x"
proof -
  have "length (all_attrs xs a) = length as" using assms(1) by (metis size_mset)
  then show "length (shared_ids a) \<le> 255" using assms(2) by (simp add: all_attrs_def attrs_fit_def)
  show "\<forall>x \<in> set (all_attrs xs a). attr_fits x" using assms mset_eq_setD [OF assms(1)] by (simp add: attrs_fit_def)
  have "sum_list (map (length \<circ> xattr_full) (all_attrs xs a)) = sum_list (map (length \<circ> xattr_full) as)"
    using assms(1) by (metis mset_map sum_mset_sum_list)
  then have le: "sum_list (map (length \<circ> xattr_full) (map ((!) xs) (shared_ids a))) +
      sum_list (map (length \<circ> xattr_full) (local_attrs a)) \<le> 262136"
    using assms(2) by (simp add: all_attrs_def attrs_fit_def)
  have "4 * length ys \<le> sum_list (map (length \<circ> xattr_full) ys)" for ys
    by (induction ys) (simp_all add: length_xattr_full)
  from this [of "map ((!) xs) (shared_ids a)"]
  have "4 * length (shared_ids a) \<le> sum_list (map (length \<circ> xattr_full) (map ((!) xs) (shared_ids a)))" by simp
  then show "attrs_len a \<le> 262148" using le by (simp add: attrs_len_cases)
qed

lemma rec_ok_meta:
  assumes ok: "rec_ok hx H F name_fits n i" and F: "meta_fits hx H (i_stat i) (i_content i)" and new: "i_content i \<noteq> DirContent empty_dir"
    and sh: "attr_filter (i_xattrs i') = attr_filter (i_xattrs i)" "\<forall>j \<in> set (shared_ids (i_xattrs i')). j < length xs"
      "mset (all_attrs xs (i_xattrs i')) = mset (local_attrs (i_xattrs i))"
  shows "readable_attrs xs (i_xattrs i')" "\<forall>d. i_content i = DirContent d \<longrightarrow> dir_reads n d"
    "mset (all_attrs xs (i_xattrs i')) = mset (attrs_of hx H (i_stat i) (i_content i))"
proof -
  let ?as = "attrs_of hx H (i_stat i) (i_content i)"
  have plain: "plain_attrs (i_xattrs i) ?as" and built: "built name_fits n (i_content i)" using ok by (simp_all add: rec_ok_def)
  show m: "mset (all_attrs xs (i_xattrs i')) = mset ?as" using sh(3) plain by (simp add: plain_attrs_def)
  have af: "attrs_fit ?as" using F by (simp add: meta_fits_def)
  have "all_attrs xs (i_xattrs i') = []" if "attr_filter (i_xattrs i') = 0"
    using that m plain sh(1) by (simp add: plain_attrs_def)
  then show "readable_attrs xs (i_xattrs i')"
    using shared_area [OF m af] sh(2) by (simp add: readable_attrs_def)
  show "\<forall>d. i_content i = DirContent d \<longrightarrow> dir_reads n d"
  proof (intro allI impI)
    fix d assume d: "i_content i = DirContent d"
    obtain es where es: "from_entries es = Some d" "\<forall>e \<in> set es. de_inode e < n \<and> (name_fits (de_name e) \<or> de_name e \<in> {''.'', ''..''})"
      using built new d unfolding built_def by blast
    have "names_ok es" using es(2) by (auto simp: names_ok_def name_fits_def)
    then show "dir_reads n d" using from_entries_blocks [OF es(1)] es(2) by (simp add: dir_reads_def dir_dirents_def)
  qed
qed

lemma rec_ok_reads:
  assumes ok: "rec_ok hx H (\<lambda>st c. node_fits hx H st c \<and> named_in A c) name_fits n i" and new: "i_content i \<noteq> DirContent empty_dir"
    and sh: "i_stat i' = i_stat i" "i_content i' = i_content i" "attr_filter (i_xattrs i') = attr_filter (i_xattrs i)"
      "\<forall>j \<in> set (shared_ids (i_xattrs i')). j < length xs"
      "mset (all_attrs xs (i_xattrs i')) = mset (local_attrs (i_xattrs i))"
  shows "rec_reads n xs i'" "\<Union> (attr_object H ` set (all_attrs xs (i_xattrs i'))) = content_objects (i_content i)"
proof -
  have fits: "node_fits hx H (i_stat i) (i_content i)" using ok by (simp add: rec_ok_def)
  then have meta: "meta_fits hx H (i_stat i) (i_content i)" by (simp add: node_fits_def)
  note m = rec_ok_meta [OF ok meta new sh(3-5)]
  have "inline_fits (i_content i)"
  proof (cases "i_content i")
    case (DirContent d)
    then show ?thesis using m(2) by (simp add: inline_fits_def dir_reads_def)
  next
    case (LeafContent c k)
    then have "leaf_fits H c" using fits by (simp add: node_fits_def)
    then show ?thesis using LeafContent
      by (auto simp: inline_fits_def leaf_fits_def split: leaf_content.splits regular_file.splits)
  qed
  then show "rec_reads n xs i'" using m meta sh(1,2) by (simp add: rec_reads_def meta_fits_def)
  have "\<forall>oid \<in> content_objects (i_content i). length oid = size_of H"
    using fits by (auto simp: content_objects_def node_fits_def leaf_fits_def
        split: inode_content.splits leaf_content.splits regular_file.splits)
  then show "\<Union> (attr_object H ` set (all_attrs xs (i_xattrs i'))) = content_objects (i_content i)"
    using objects_attrs_of [of "i_content i" H hx "i_stat i"] mset_eq_setD [OF m(3)] by simp
qed

section \<open>The inodes that the reader reaches\<close>

text \<open>An image and the table of inodes that it was written from.\<close>

definition holds_table :: "hash_alg \<Rightarrow> image \<Rightarrow> nat list \<Rightarrow> inode_rec list \<Rightarrow> bool" where
  "holds_table H im ips ns \<longleftrightarrow> ns \<noteq> [] \<and> ucast (root_nid (im_sb im)) = nid_of ips 0 \<and>
     (\<forall>j < length ns. scan H im (nid_of ips j) = Some (content_objects (i_content (ns ! j)), child_nids ips (content_dirents (i_content (ns ! j)))) \<and>
       (\<forall>e \<in> set (content_dirents (i_content (ns ! j))). de_inode e < length ns))"

lemma reachable_is_nid:
  assumes t: "holds_table H im ips ns" and r: "reachable H im (nid_of ips 0) n"
  shows "\<exists>j < length ns. n = nid_of ips j"
  using r
proof induction
  case root
  then show ?case using t by (auto simp: holds_table_def)
next
  case (child n os ks k)
  then obtain j where j: "j < length ns" "n = nid_of ips j" by blast
  then have "ks = child_nids ips (content_dirents (i_content (ns ! j)))" using child.hyps(2) t by (simp add: holds_table_def)
  then obtain e where "e \<in> set (content_dirents (i_content (ns ! j)))" "k = nid_of ips (de_inode e)"
    using child.hyps(3) by (auto simp: child_nids_def)
  then show ?case using t j(1) unfolding holds_table_def by blast
qed

text \<open>Every leaf of the tree is reached.\<close>

lemma stands_reached:
  assumes t: "holds_table H im ips ns"
  shows "stands ns h j i \<Longrightarrow> inode_fits F name_fits h i \<Longrightarrow> reachable H im (nid_of ips 0) (nid_of ips j) \<Longrightarrow> r \<in> set (inode_refs i) \<Longrightarrow>
    \<exists>j' k. j' < length ns \<and> reachable H im (nid_of ips 0) (nid_of ips j') \<and> i_content (ns ! j') = LeafContent (content (h ! r)) k"
proof (induction rule: stands.induct)
  case (leaf j q k)
  then show ?case by auto
next
  case (dir j d es st)
  obtain e where e: "e \<in> set es" "r \<in> set (inode_refs (snd e))" using dir.prems(3) by auto
  obtain n i where ni: "e = (n, i)" by (cases e)
  have fits: "name_fits n" "inode_fits F name_fits h i" using dir.prems(1) e(1) ni by auto
  obtain x where x: "x \<in> set (dir_dirents d)" "de_name x = n" "stands ns h (de_inode x) i"
    and IH: "inode_fits F name_fits h i \<Longrightarrow> reachable H im (nid_of ips 0) (nid_of ips (de_inode x)) \<Longrightarrow> r \<in> set (inode_refs i) \<Longrightarrow>
      \<exists>j' k. j' < length ns \<and> reachable H im (nid_of ips 0) (nid_of ips j') \<and> i_content (ns ! j') = LeafContent (content (h ! r)) k"
    using dir.IH e(1) ni by blast
  have sc: "scan H im (nid_of ips j) = Some (content_objects (i_content (ns ! j)), child_nids ips (content_dirents (i_content (ns ! j))))"
    using t dir.hyps(1) by (simp add: holds_table_def)
  have "nid_of ips (de_inode x) \<in> child_nids ips (content_dirents (i_content (ns ! j)))"
    using x(1,2) fits(1) dir.hyps(2) by (auto simp: child_nids_def content_dirents_def dir_dirents_def name_fits_def)
  then have "reachable H im (nid_of ips 0) (nid_of ips (de_inode x))"
    by (rule reachable.child [OF dir.prems(2) sc])
  then show ?case using IH fits(2) e(2) ni by simp
qed

lemma collect_table:
  assumes im: "image_open img = Some im" and t: "holds_table H im ips ns"
    and s: "stands ns (heap fs) 0 (IDirectory (root fs))" and f: "dir_fits F name_fits (heap fs) (root fs)"
    and sub: "\<forall>i \<in> set ns. content_objects (i_content i) \<subseteq> tree_objects fs"
  shows "collect_objects H img = Some (tree_objects fs)"
proof -
  let ?r = "nid_of ips 0"
  have root: "ucast (root_nid (im_sb im)) = ?r" using t by (simp add: holds_table_def)
  have scan: "\<exists>j < length ns. n = nid_of ips j \<and> scan H im n = Some (content_objects (i_content (ns ! j)), child_nids ips (content_dirents (i_content (ns ! j))))"
    if "reachable H im ?r n" for n using reachable_is_nid [OF t that] t by (auto simp: holds_table_def)
  have "reachable_objects H im ?r \<subseteq> tree_objects fs"
    unfolding reachable_objects_def using scan sub by (fastforce dest: nth_mem)
  moreover have "tree_objects fs \<subseteq> reachable_objects H im ?r"
  proof
    fix oid assume "oid \<in> tree_objects fs"
    then obtain r where r: "r \<in> set (refs (root fs))" "oid \<in> content_objects (LeafContent (content (heap fs ! r)) 0)"
      by (auto simp: tree_objects_def)
    obtain j k where j: "j < length ns" "reachable H im ?r (nid_of ips j)" "i_content (ns ! j) = LeafContent (content (heap fs ! r)) k"
      using stands_reached [OF t s _ reachable.root, of F r] f r(1) by auto
    have "content_objects (LeafContent c k) = content_objects (LeafContent c 0)" for c by (simp add: content_objects_def)
    then have "oid \<in> content_objects (i_content (ns ! j))" using r(2) j(3) by simp
    then show "oid \<in> reachable_objects H im ?r"
      using j(1,2) t unfolding reachable_objects_def holds_table_def by blast
  qed
  moreover have "\<not> (\<exists>n. reachable H im ?r n \<and> scan H im n = None)" using scan by fastforce
  moreover have "loop_inv H im ?r \<lparr>visited_nids = {}, nids_to_visit = [?r], objects = {}\<rparr>"
    by (simp add: loop_inv_def reachable.root)
  from collect_loop_objects [OF this] have "(case collect_loop H im \<lparr>visited_nids = {}, nids_to_visit = [?r], objects = {}\<rparr> of
      None \<Rightarrow> \<exists>n. reachable H im ?r n \<and> scan H im n = None
    | Some st' \<Rightarrow> (\<forall>n. reachable H im ?r n \<longrightarrow> scan H im n \<noteq> None) \<and> objects st' = reachable_objects H im ?r)" .
  ultimately show ?thesis using im root by (auto simp: collect_objects_def split: option.splits)
qed

section \<open>Writing and reading\<close>

lemma written_table:
  assumes parts: "image_parts ns' xs g img ips xps bps" and k: "known g ips xps bps e" and len: "length img < 2 ^ 32"
    and sh: "share_xattrs ns = (ns', xs)" and ne: "ns \<noteq> []"
    and ok: "\<forall>i \<in> set ns. rec_ok hx H (\<lambda>st c. node_fits hx H st c \<and> named_in A c) name_fits (length ns) i"
      "\<forall>i \<in> set ns. i_content i \<noteq> DirContent empty_dir"
  obtains im where "image_open img = Some im" "holds_table H im ips ns"
proof -
  obtain im nid where im: "image_open img = Some im" "flat im img" and nid: "get_nid g 0 = Some nid" "root_nid (im_sb im) = ucast nid"
    by (rule image_open_parts [OF parts])
  have l: "length ns' = length ns" using share_xattrs_keeps(6) [OF sh, of 0] ne ok(1)
    by (auto simp: rec_ok_def plain_attrs_def)
  then have ne': "ns' \<noteq> []" using ne by auto
  have "scan H im (nid_of ips j) = Some (content_objects (i_content (ns ! j)), child_nids ips (content_dirents (i_content (ns ! j)))) \<and>
      (\<forall>e \<in> set (content_dirents (i_content (ns ! j))). de_inode e < length ns)" if j: "j < length ns" for j
  proof -
    have r: "rec_ok hx H (\<lambda>st c. node_fits hx H st c \<and> named_in A c) name_fits (length ns) (ns ! j)"
      "i_content (ns ! j) \<noteq> DirContent empty_dir" using ok j by simp_all
    then have s0: "shared_ids (i_xattrs (ns ! j)) = []" by (simp add: rec_ok_def plain_attrs_def)
    note keep = share_xattrs_keeps [OF sh j s0]
    note reads = rec_ok_reads [OF r keep(1-5)]
    have "scan H im (nid_of ips j) = Some (\<Union> (attr_object H ` set (all_attrs xs (i_xattrs (ns' ! j)))),
       child_nids ips (content_dirents (i_content (ns' ! j))))"
      by (rule scan_written [OF parts k im(2) _ len]) (use j l reads(1) in simp_all)
    moreover have "de_inode e < length ns" if "e \<in> set (content_dirents (i_content (ns ! j)))" for e
      using reads(1) keep(2) that
      by (cases "i_content (ns ! j)") (auto simp: rec_reads_def dir_reads_def content_dirents_def dir_dirents_def)
    ultimately show ?thesis using reads(2) keep(2) by simp
  qed
  then have "holds_table H im ips ns"
    using ne root_found [OF parts k ne' nid] by (simp add: holds_table_def)
  then show ?thesis using that im(1) by blast
qed

section \<open>The writer returns\<close>

definition names_short :: "regular_file filesystem \<Rightarrow> bool" where
  "names_short fs \<longleftrightarrow> dir_fits (\<lambda>_ _. True) (\<lambda>n. length n \<le> 4084) (heap fs) (root fs)"

text \<open>The offset at which the first pass ends.\<close>

definition image_size :: "hex_crate \<Rightarrow> hash_alg \<Rightarrow> (bytes \<Rightarrow> u32 \<Rightarrow> u32) \<Rightarrow> regular_file filesystem \<Rightarrow> nat option" where
  "image_size hx H xxh32 fs = do {
     ns \<leftarrow> collect hx H xxh32 fs;
     (ns, xs) \<leftarrow> Some (share_xattrs ns);
     first \<leftarrow> write_erofs FirstPass ns xs first_init;
     Some (fp_offset first)
   }"

lemma shared_refs_ok:
  assumes sh: "share_xattrs ns = (ns', xs)" and j: "j < length ns"
    and ok: "rec_ok hx H F N (length ns) (ns ! j)" "i_content (ns ! j) \<noteq> DirContent empty_dir"
  shows "refs_ok (length ns) (length xs) (ns' ! j)"
proof -
  have "shared_ids (i_xattrs (ns ! j)) = []" using ok(1) by (simp add: rec_ok_def plain_attrs_def)
  note keep = share_xattrs_keeps [OF sh j this]
  have "de_inode e < length ns" if "e \<in> set (content_dirents (i_content (ns ! j)))" for e
  proof (cases "i_content (ns ! j)")
    case (DirContent d)
    then obtain es where "from_entries es = Some d" "\<forall>e \<in> set es. de_inode e < length ns"
      using ok unfolding rec_ok_def built_def by blast
    then show ?thesis using that DirContent from_entries_blocks(1) by (simp add: content_dirents_def)
  qed (use that in \<open>simp add: content_dirents_def\<close>)
  then show ?thesis using keep by (simp add: refs_ok_def)
qed

lemma mkfs_runs:
  assumes "names_short fs"
  obtains n where "image_size hx H xxh32 fs = Some n"
    "n < 2 ^ 34 \<longrightarrow> (\<exists>img. mkfs_erofs hx H xxh32 fs = Some img \<and> length img = n)"
proof -
  have kind: "content_kind (\<lambda>_ _. True)" by (simp add: content_kind_def)
  obtain ns where ns: "collect hx H xxh32 fs = Some ns" "ns \<noteq> []"
    "\<forall>i \<in> set ns. rec_ok hx H (\<lambda>_ _. True) (\<lambda>n. length n \<le> 4084) (length ns) i" "\<forall>i \<in> set ns. i_content i \<noteq> DirContent empty_dir"
    using collect_ok [OF kind _ assms [unfolded names_short_def]] by blast
  obtain ns' xs where sh: "share_xattrs ns = (ns', xs)" by (cases "share_xattrs ns")
  have l: "length ns' = length ns" using share_xattrs_keeps(6) [OF sh, of 0] ns(2,3)
    by (auto simp: rec_ok_def plain_attrs_def)
  obtain s where s: "write_erofs FirstPass ns' xs first_init = Some s" using first_pass_runs by blast
  have refs: "\<forall>i \<in> set ns'. refs_ok (length ns') (length xs) i"
  proof
    fix i assume "i \<in> set ns'"
    then obtain j where "j < length ns" "i = ns' ! j" by (auto simp: in_set_conv_nth l)
    then show "refs_ok (length ns') (length xs) i" using ns(3,4) l
      by (simp add: shared_refs_ok [OF sh, of j hx H "\<lambda>_ _. True" "\<lambda>n. length n \<le> 4084"])
  qed
  have "\<exists>img. mkfs_erofs hx H xxh32 fs = Some img \<and> length img = fp_offset s" if small: "fp_offset s < 2 ^ 34"
  proof -
    have "ns' \<noteq> []" using l ns(2) by auto
    then obtain s2 where s2: "write_erofs SecondPass ns' xs \<lparr>sp_output = [], sp_layout = fp_layout s\<rparr> = Some s2"
      using second_pass_runs [OF s small _ refs] by blast
    have "fp_offset s = length (sp_output s2)" by (rule passes_agree [OF s s2])
    then show ?thesis using s s2 by (simp add: mkfs_erofs_def ns(1) sh)
  qed
  moreover have "image_size hx H xxh32 fs = Some (fp_offset s)" by (simp add: image_size_def ns(1) sh s)
  ultimately show ?thesis using that by blast
qed

section \<open>An example\<close>

definition plain_stat :: "u32 \<Rightarrow> stat" where
  "plain_stat m = \<lparr>st_mode = m, st_uid = 0, st_gid = 0, st_mtim_sec = 0, xattrs = []\<rparr>"

definition one_file_fs :: "regular_file filesystem" where
  "one_file_fs = \<lparr>root = Directory (plain_stat 0x1ED) [(''a'', ILeaf 0)],
     heap = [\<lparr>leaf_stat = plain_stat 0x1A4, content = Regular (External (replicate 32 CHR 0x2A) 5000)\<rparr>]\<rparr>"

lemma one_file_fs_short: "names_short one_file_fs"
  by (simp add: names_short_def one_file_fs_def)

lemma one_file_fs_fits: "tree_fits hex_codec (Sha256HashValue rev) one_file_fs"
  by code_simp

definition example_root_inode :: inode_rec where
  "example_root_inode = \<lparr>i_stat = plain_stat 0x1ED, i_xattrs = no_attrs, i_content = DirContent \<lparr>dir_blocks = [],
     dir_inline = [\<lparr>de_name = ''.'', de_inode = 0, de_type = FDirectory\<rparr>,
       \<lparr>de_name = ''..'', de_inode = 0, de_type = FDirectory\<rparr>, \<lparr>de_name = ''a'', de_inode = 1, de_type = FRegular\<rparr>],
     dir_size = 40, dir_links = 2\<rparr>\<rparr>"

definition example_file_inode :: inode_rec where
  "example_file_inode = \<lparr>i_stat = plain_stat 0x1A4,
     i_xattrs = \<lparr>shared_ids = [], local_attrs = attrs_of hex_codec (Sha256HashValue rev) (plain_stat 0x1A4)
        (LeafContent (Regular (External (replicate 32 CHR 0x2A) 5000)) 1), attr_filter = 8\<rparr>,
     i_content = LeafContent (Regular (External (replicate 32 CHR 0x2A) 5000)) 1\<rparr>"


lemma example_inodes: "map_option share_xattrs (collect hex_codec (Sha256HashValue rev) (\<lambda>_ _. 3) one_file_fs) =
    Some ([example_root_inode, example_file_inode], [])"
  by code_simp

lemma first_pass_simps: "out_write FirstPass b s = s\<lparr>fp_offset := fp_offset s + length b\<rparr>"
  "out_pad FirstPass a s = s\<lparr>fp_offset := round_up (fp_offset s) a\<rparr>" "out_len FirstPass s = fp_offset s"
  "get_offset FirstPass s t i = Some 0" "note_offset FirstPass t s = fp_note t s"
  by (simp_all add: FirstPass_def)

lemma example_root_attrs: "attrs_size (i_xattrs example_root_inode) = Some 0"
  by (simp add: attrs_size_def example_root_inode_def no_attrs_def write_attrs_def)

lemma example_file_attrs: "\<exists>v w. local_attrs (i_xattrs example_file_inode) = [XAttr 4 ''overlay.metacopy'' v, XAttr 4 ''overlay.redirect'' w] \<and> length v = 36 \<and> length w = 66"
proof -
  have "local_attrs (i_xattrs example_file_inode) = [XAttr 4 ''overlay.metacopy'' (metacopy_bytes (Sha256HashValue rev) (replicate 32 CHR 0x2A)),
     XAttr 4 ''overlay.redirect'' (SLASH # to_object_pathname hex_codec (replicate 32 CHR 0x2A))]"
    by code_simp
  moreover have "length (metacopy_bytes (Sha256HashValue rev) (replicate 32 CHR 0x2A)) = 36" by code_simp
  moreover have "length (SLASH # to_object_pathname hex_codec (replicate 32 CHR 0x2A)) = 66" by code_simp
  ultimately show ?thesis by blast
qed

lemma example_file_attrs_size: "attrs_size (i_xattrs example_file_inode) = Some 156"
proof -
  obtain v w where "local_attrs (i_xattrs example_file_inode) = [XAttr 4 ''overlay.metacopy'' v, XAttr 4 ''overlay.redirect'' w]" "length v = 36" "length w = 66"
    using example_file_attrs by blast
  moreover have "attr_filter (i_xattrs example_file_inode) = 8" "shared_ids (i_xattrs example_file_inode) = []" by (simp_all add: example_file_inode_def)
  ultimately show ?thesis by (simp add: attrs_size_def write_attrs_def xattr_write_def first_pass_simps round_up_def)
qed

lemma example_root_written: "write_inode FirstPass example_root_inode 0 \<lparr>fp_offset = 1152, fp_layout = \<lparr>offset_types = [0, Suc 0], offsets = [0, 1024]\<rparr>\<rparr> =
   Some \<lparr>fp_offset = 1280, fp_layout = \<lparr>offset_types = [0, Suc 0, 2], offsets = [0, 1024, 1152]\<rparr>\<rparr>"
proof -
  obtain m where "mode_field (file_type (i_content example_root_inode)) (st_mode (i_stat example_root_inode)) = Some m"
    using mode_field_total by blast
  then show ?thesis
    by (simp add: write_inode_def example_root_attrs first_pass_simps) (simp add: example_root_inode_def no_attrs_def dir_inode_meta_def Let_def inline_pad_def fp_note_def offset_index_def
      write_attrs_def first_pass_simps round_up_def write_block_def get_nid_def get_div_def)
qed

lemma example_file_written: "write_inode FirstPass example_file_inode (Suc 0) \<lparr>fp_offset = 1280, fp_layout = \<lparr>offset_types = [0, Suc 0, 2], offsets = [0, 1024, 1152]\<rparr>\<rparr> =
   Some \<lparr>fp_offset = 1504, fp_layout = \<lparr>offset_types = [0, Suc 0, 2], offsets = [0, 1024, 1152, 1280]\<rparr>\<rparr>"
proof -
  obtain m where m: "mode_field (file_type (i_content example_file_inode)) (st_mode (i_stat example_file_inode)) = Some m"
    using mode_field_total by blast
  obtain v w where "local_attrs (i_xattrs example_file_inode) = [XAttr 4 ''overlay.metacopy'' v, XAttr 4 ''overlay.redirect'' w]" "length v = 36" "length w = 66"
    using example_file_attrs by blast
  moreover have "attr_filter (i_xattrs example_file_inode) = 8" "shared_ids (i_xattrs example_file_inode) = []" by (simp_all add: example_file_inode_def)
  moreover have "i_content example_file_inode = LeafContent (Regular (External (replicate 32 CHR 0x2A) 5000)) 1" by (simp add: example_file_inode_def)
  ultimately show ?thesis using m
    by (simp add: write_inode_def example_file_attrs_size first_pass_simps leaf_inode_meta_def Let_def fp_note_def offset_index_def
      write_attrs_def round_up_def xattr_write_def leaf_inline_def)
qed

lemma example_first_pass: "map_option fp_offset (write_erofs FirstPass [example_root_inode, example_file_inode] [] first_init) = Some 4096"
proof -
  have "write_blocks FirstPass i s = Some s" if "i = example_root_inode \<or> i = example_file_inode" for i s
    using that by (auto simp: write_blocks_def example_root_inode_def example_file_inode_def write_dir_blocks_def)
  then show ?thesis
    by (simp add: write_erofs_def first_pass_simps fp_note_def empty_layout_def offset_index_def round_up_def get_nid_def get_div_def example_root_written example_file_written Let_def)
qed

lemma one_file_fs_size: "image_size hex_codec (Sha256HashValue rev) (\<lambda>_ _. 3) one_file_fs = Some 4096"
proof -
  obtain ns where "collect hex_codec (Sha256HashValue rev) (\<lambda>_ _. 3) one_file_fs = Some ns"
    "share_xattrs ns = ([example_root_inode, example_file_inode], [])" using example_inodes by blast
  then show ?thesis using example_first_pass by (auto simp: image_size_def)
qed

section \<open>The claims\<close>

text \<open>
  C2: Collecting the objects of an image finds what was written: when \<open>mkfs_erofs\<close> returns an image of less
  than 4 GiB for a tree that fits the format, \<open>collect_objects\<close> of the image returns exactly the object
  names of the external files of the tree. So a garbage collection that keeps these objects keeps the
  contents of every file, and keeps nothing else for this image.
\<close>

theorem collect_objects_mkfs:
  assumes "tree_fits hx H fs" "mkfs_erofs hx H xxh32 fs = Some img" "length img < 2 ^ 32"
  shows "collect_objects H img = Some (tree_objects fs)"
proof -
  let ?F = "\<lambda>st c. node_fits hx H st c \<and> named_in (tree_objects fs) c"
  have fits: "dir_fits ?F name_fits (heap fs) (root fs)" by (rule tree_fits_named [OF assms(1)])
  have short: "length n \<le> 4084" if "name_fits n" for n using that by (simp add: name_fits_def)
  obtain ns where ns: "collect hx H xxh32 fs = Some ns" "ns \<noteq> []"
    "\<forall>i \<in> set ns. rec_ok hx H ?F name_fits (length ns) i" "\<forall>i \<in> set ns. i_content i \<noteq> DirContent empty_dir"
    "stands ns (heap fs) 0 (IDirectory (root fs))"
    using collect_ok [OF kind_node_fits short fits] by blast
  obtain ns' xs where sh: "share_xattrs ns = (ns', xs)" by (cases "share_xattrs ns")
  obtain s s2 where w: "write_erofs FirstPass ns' xs first_init = Some s"
    "write_erofs SecondPass ns' xs \<lparr>sp_output = [], sp_layout = fp_layout s\<rparr> = Some s2" "img = sp_output s2"
    using assms(2) by (auto simp: mkfs_erofs_def ns(1) sh bind_eq_Some_conv)
  obtain ips xps bps where parts: "image_parts ns' xs (layout_get (fp_layout s)) img ips xps bps"
    and k: "known (layout_get (fp_layout s)) ips xps bps (length img)" using passes_agree [OF w(1,2)] w(3) by metis
  obtain im where "image_open img = Some im" "holds_table H im ips ns"
    by (rule written_table [OF parts k assms(3) sh ns(2-4)])
  then show ?thesis
    by (rule collect_table [OF _ _ ns(5) fits]) (use ns(3) in \<open>auto simp: rec_ok_def named_in_def\<close>)
qed

lemma collect_objects_mkfs_witness:
  "\<exists>img. mkfs_erofs hex_codec (Sha256HashValue rev) (\<lambda>_ _. 3) one_file_fs = Some img \<and>
     collect_objects (Sha256HashValue rev) img = Some {replicate 32 CHR 0x2A}"
proof -
  obtain n where n: "image_size hex_codec (Sha256HashValue rev) (\<lambda>_ _. 3) one_file_fs = Some n"
    "n < 2 ^ 34 \<longrightarrow> (\<exists>img. mkfs_erofs hex_codec (Sha256HashValue rev) (\<lambda>_ _. 3) one_file_fs = Some img \<and> length img = n)"
    by (rule mkfs_runs [OF one_file_fs_short])
  then obtain img where img: "mkfs_erofs hex_codec (Sha256HashValue rev) (\<lambda>_ _. 3) one_file_fs = Some img" "length img = 4096"
    using one_file_fs_size by auto
  have "length img < 2 ^ 32" using img(2) by simp
  moreover have "tree_objects one_file_fs = {replicate 32 CHR 0x2A}"
    by (simp add: tree_objects_def one_file_fs_def content_objects_def)
  ultimately show ?thesis using img(1) collect_objects_mkfs [OF one_file_fs_fits img(1)] by simp
qed

text \<open>
  C10: \<open>mkfs_erofs\<close> never panics on a tree whose names fit in a directory block, while the image stays
  below 16 GiB: the first pass always ends, every assertion and index of the second holds, and the
  image is as long as the first pass said. The bound is that of \<open>get_xattr\<close>, whose result is a
  \<open>u32\<close> in units of 4 bytes.
\<close>

theorem mkfs_returns:
  assumes "names_short fs"
  shows "\<exists>n. image_size hx H xxh32 fs = Some n \<and>
    (n < 2 ^ 34 \<longrightarrow> (\<exists>img. mkfs_erofs hx H xxh32 fs = Some img \<and> length img = n))"
  using mkfs_runs [OF assms] by metis

lemma mkfs_returns_witness:
  "\<exists>img. mkfs_erofs hex_codec (Sha256HashValue rev) (\<lambda>_ _. 3) one_file_fs = Some img \<and> length img = 4096"
  using mkfs_returns [OF one_file_fs_short, of hex_codec "Sha256HashValue rev" "\<lambda>_ _. 3"] one_file_fs_size by simp

section \<open>Inline files\<close>

text \<open>What is below an inode of a tree, and where the entries of an image lead.\<close>

fun inode_below :: "inode \<Rightarrow> bytes list \<Rightarrow> inode option" where
  "inode_below i [] = Some i"
| "inode_below (IDirectory d) (n # ns) = (case map_of (entries d) n of None \<Rightarrow> None | Some i \<Rightarrow> inode_below i ns)"
| "inode_below (ILeaf r) (n # ns) = None"

fun leads :: "image \<Rightarrow> u64 \<Rightarrow> bytes list \<Rightarrow> u64 \<Rightarrow> bool" where
  "leads im nid [] nid' \<longleftrightarrow> nid' = nid"
| "leads im nid (n # ns) nid' \<longleftrightarrow> (\<exists>i es h. get_inode im nid = Some i \<and> inode_entries im i = Some es \<and>
     (h, n) \<in> set es \<and> leads im (inode_offset h) ns nid')"

lemma stands_leads:
  assumes dirs: "\<And>j d. j < length ns \<Longrightarrow> i_content (ns ! j) = DirContent d \<Longrightarrow>
      \<exists>i es. get_inode im (nid_of ips j) = Some i \<and> inode_entries im i = Some es \<and>
        (\<forall>e \<in> set (dir_dirents d). \<exists>h. (h, de_name e) \<in> set es \<and> inode_offset h = nid_of ips (de_inode e))"
  shows "stands ns h j i \<Longrightarrow> inode_below i p = Some (ILeaf r) \<Longrightarrow>
    \<exists>j' k. leads im (nid_of ips j) p (nid_of ips j') \<and> j' < length ns \<and> i_content (ns ! j') = LeafContent (content (h ! r)) k"
proof (induction arbitrary: p rule: stands.induct)
  case (leaf j q k)
  then show ?case by (cases p) (auto intro: exI [of _ j] exI [of _ k])
next
  case (dir j d es st)
  obtain n p' where p: "p = n # p'" using dir.prems by (cases p) auto
  then obtain t where t: "map_of es n = Some t" "inode_below t p' = Some (ILeaf r)"
    using dir.prems by (auto split: option.splits)
  then have "(n, t) \<in> set es" by (simp add: map_of_SomeD)
  then obtain e where e: "e \<in> set (dir_dirents d)" "de_name e = n"
    and IH: "\<exists>j' k. leads im (nid_of ips (de_inode e)) p' (nid_of ips j') \<and> j' < length ns \<and> i_content (ns ! j') = LeafContent (content (h ! r)) k"
    using dir.IH t(2) by blast
  obtain i es' hd where "get_inode im (nid_of ips j) = Some i" "inode_entries im i = Some es'" "(hd, n) \<in> set es'"
      "inode_offset hd = nid_of ips (de_inode e)"
    using dirs [OF dir.hyps(1,2)] e by blast
  then show ?case using IH p by (auto intro!: exI [of _ i] exI [of _ es'] exI [of _ hd])
qed

lemma inline_leaf_read:
  assumes parts: "image_parts ns xs g img ips xps bps" and k: "known g ips xps bps e" and im: "flat im img"
    and j: "j < length ns" and len: "length img < 2 ^ 32" and r: "readable_attrs xs (i_xattrs (ns ! j))"
    and c: "i_content (ns ! j) = LeafContent (Regular (Inline b)) q" and b: "length b < 2 ^ 64"
  shows "\<exists>i. get_inode im (nid_of ips j) = Some i \<and> unat (inode_size (header i)) = length b \<and>
    blocks i 12 = Some [0..<length b div 4096] \<and>
    inline i = Some (if length b mod 4096 = 0 then None else Some (take (length b mod 4096) b))"
proof (rule get_inode_cut [OF parts k im j len r])
  have x: "layout_extra (i_content (ns ! j)) = length b mod 4096"
    using c by (auto simp: layout_extra_def content_layout_def content_size_def leaf_inode_meta_def)
  show "layout_extra (i_content (ns ! j)) \<le> length b'" if "inline_script (i_content (ns ! j)) g p = Some (b', [])" for p b'
    using that c x by (simp add: inline_script_def sp_write_Some leaf_inline_def)
  fix h a inl u
  assume n: "get_inode im (of_nat (ips ! j div 32)) =
      Some \<lparr>header = ExtendedHeader h, data = a @ take (layout_extra (i_content (ns ! j))) inl\<rparr>"
    and h: "h = header_of (ns ! j) (attrs_len (i_xattrs (ns ! j))) (mode_of (ns ! j)) u (ips ! j)"
    and a: "xattr_size (ExtendedHeader h) = length a" and u: "content_u g j (i_content (ns ! j)) = Some u"
    and inl: "inline_script (i_content (ns ! j)) g (ips ! j + 64 + length a) = Some (inl, [])"
  let ?i = "\<lparr>header = ExtendedHeader h, data = a @ take (layout_extra (i_content (ns ! j))) inl\<rparr>"
  have ib: "inl = b" using inl c by (simp add: inline_script_def sp_write_Some leaf_inline_def)
  have u0: "u = 0" using u c by (auto simp: content_u_def leaf_inode_meta_def)
  have sz: "unat (inode_size (ExtendedHeader h)) = length b"
    using b c h by (simp add: inode_size_def header_of_def content_size_def leaf_inode_meta_def unat_of_nat)
  have lay: "data_layout (ExtendedHeader h) = Some (if b = [] then FlatPlain else FlatInline)"
    using c h by (simp add: data_layout_def header_of_def content_layout_def leaf_inode_meta_def)
  have "length b div 4096 < 2 ^ 64" using b by (meson div_le_dividend le_less_trans)
  then have "blocks ?i 12 = Some [0..<length b div 4096]"
    using sz lay u0 h by (simp add: blocks_def inode_u_def header_of_def div_ceil_def Let_def)
  moreover have "inline ?i = Some (if length b mod 4096 = 0 then None else Some (take (length b mod 4096) b))"
    by (simp add: inline_def a slice_from_def x ib)
  ultimately show ?thesis using n sz by (auto simp: nid_of_def)
qed

text \<open>
  C26: In the image of a tree, the path of an inline file leads to an inode with the size of the file. Of its contents
  the reader finds after the inode only the first bytes, as many as the size modulo 4096; and the blocks that the inode names for the
  rest are the first blocks of the image itself, its headers. So an inline file of less than a block reads back as it was, and
  one of a block or more does not, although \<open>mkfs_erofs\<close> writes it without an error.
\<close>

theorem inline_file_truncated:
  assumes "dir_fits (meta_fits hx H) name_fits (heap fs) (root fs)" "mkfs_erofs hx H xxh32 fs = Some img" "length img < 2 ^ 32"
    and "inode_below (IDirectory (root fs)) p = Some (ILeaf r)" "content (heap fs ! r) = Regular (Inline b)" "length b < 2 ^ 64"
  shows "\<exists>im nid i. image_open img = Some im \<and> leads im (ucast (root_nid (im_sb im))) p nid \<and> get_inode im nid = Some i \<and>
    unat (inode_size (header i)) = length b \<and> blocks i (blkszbits (im_sb im)) = Some [0..<length b div 4096] \<and>
    inline i = Some (if length b mod 4096 = 0 then None else Some (take (length b mod 4096) b))"
proof -
  have kind: "content_kind (meta_fits hx H)"
    unfolding content_kind_def meta_fits_def by (auto simp: attrs_of_def overlay_pairs_def)
  have short: "length n \<le> 4084" if "name_fits n" for n using that by (simp add: name_fits_def)
  obtain ns where ns: "collect hx H xxh32 fs = Some ns" "ns \<noteq> []"
    "\<forall>i \<in> set ns. rec_ok hx H (meta_fits hx H) name_fits (length ns) i" "\<forall>i \<in> set ns. i_content i \<noteq> DirContent empty_dir"
    "stands ns (heap fs) 0 (IDirectory (root fs))"
    using collect_ok [OF kind short assms(1)] by blast
  obtain ns' xs where sh: "share_xattrs ns = (ns', xs)" by (cases "share_xattrs ns")
  obtain s s2 where w: "write_erofs FirstPass ns' xs first_init = Some s"
    "write_erofs SecondPass ns' xs \<lparr>sp_output = [], sp_layout = fp_layout s\<rparr> = Some s2" "img = sp_output s2"
    using assms(2) by (auto simp: mkfs_erofs_def ns(1) sh bind_eq_Some_conv)
  obtain ips xps bps where parts: "image_parts ns' xs (layout_get (fp_layout s)) img ips xps bps"
    and k: "known (layout_get (fp_layout s)) ips xps bps (length img)" using passes_agree [OF w(1,2)] w(3) by metis
  obtain im nid where im: "image_open img = Some im" "flat im img"
    and nid: "get_nid (layout_get (fp_layout s)) 0 = Some nid" "root_nid (im_sb im) = ucast nid"
    by (rule image_open_parts [OF parts])
  have s0: "shared_ids (i_xattrs (ns ! j)) = []" if "j < length ns" for j
    using ns(3) that by (auto simp: rec_ok_def plain_attrs_def)
  have l: "length ns' = length ns" using share_xattrs_keeps(6) [OF sh _ s0] ns(2) by blast
  have keep: "i_stat (ns' ! j) = i_stat (ns ! j)" "i_content (ns' ! j) = i_content (ns ! j)" if "j < length ns" for j
    using share_xattrs_keeps(1,2) [OF sh that s0 [OF that]] .
  have meta: "readable_attrs xs (i_xattrs (ns' ! j))" "\<forall>d. i_content (ns ! j) = DirContent d \<longrightarrow> dir_reads (length ns) d"
    "meta_fits hx H (i_stat (ns ! j)) (i_content (ns ! j))" if j: "j < length ns" for j
  proof -
    have ok: "rec_ok hx H (meta_fits hx H) name_fits (length ns) (ns ! j)" "i_content (ns ! j) \<noteq> DirContent empty_dir"
      using ns(3,4) j by simp_all
    then show m: "meta_fits hx H (i_stat (ns ! j)) (i_content (ns ! j))" by (simp add: rec_ok_def)
    show "readable_attrs xs (i_xattrs (ns' ! j))" "\<forall>d. i_content (ns ! j) = DirContent d \<longrightarrow> dir_reads (length ns) d"
      using rec_ok_meta(1,2) [OF ok(1) m ok(2) share_xattrs_keeps(3-5) [OF sh j s0 [OF j]]] by blast+
  qed
  have dirs: "\<exists>i es. get_inode im (nid_of ips j) = Some i \<and> inode_entries im i = Some es \<and>
      (\<forall>e \<in> set (dir_dirents d). \<exists>h. (h, de_name e) \<in> set es \<and> inode_offset h = nid_of ips (de_inode e))"
    if j: "j < length ns" and d: "i_content (ns ! j) = DirContent d" for j d
  proof (rule dir_written [OF parts k im(2) _ assms(3)])
    show "j < length ns'" "i_content (ns' ! j) = DirContent d" using j d l keep(2) by simp_all
    show "rec_reads (length ns') xs (ns' ! j)"
      using meta [OF j] d l keep [OF j] by (simp add: rec_reads_def meta_fits_def inline_fits_def dir_reads_def)
  qed
  obtain j q where j: "leads im (nid_of ips 0) p (nid_of ips j)" "j < length ns" "i_content (ns ! j) = LeafContent (Regular (Inline b)) q"
    using stands_leads [OF dirs ns(5) assms(4)] assms(5) by auto
  have "j < length ns'" "i_content (ns' ! j) = LeafContent (Regular (Inline b)) q" using j l keep(2) by simp_all
  from inline_leaf_read [OF parts k im(2) this(1) assms(3) meta(1) [OF j(2)] this(2) assms(6)]
  obtain i where i: "get_inode im (nid_of ips j) = Some i" "unat (inode_size (header i)) = length b"
    "blocks i 12 = Some [0..<length b div 4096]"
    "inline i = Some (if length b mod 4096 = 0 then None else Some (take (length b mod 4096) b))" by blast
  have "ns' \<noteq> []" using l ns(2) by auto
  then have "ucast (root_nid (im_sb im)) = nid_of ips 0" by (rule root_found [OF parts k _ nid])
  moreover have "blkszbits (im_sb im) = 12" using im(2) by (simp add: flat_def)
  ultimately show ?thesis using im(1) j(1) i by (intro exI [of _ im] exI [of _ "nid_of ips j"] exI [of _ i]) simp
qed

text \<open>A tree with a file of 5000 bytes: of its contents the reader finds the first 904 bytes, as the last ones.\<close>

definition inline_fs :: "bytes \<Rightarrow> regular_file filesystem" where
  "inline_fs b = \<lparr>root = Directory (plain_stat 0x1ED) [(''a'', ILeaf 0)],
     heap = [\<lparr>leaf_stat = plain_stat 0x1A4, content = Regular (Inline b)\<rparr>]\<rparr>"

definition inline_inode :: "bytes \<Rightarrow> inode_rec" where
  "inline_inode b = \<lparr>i_stat = plain_stat 0x1A4, i_xattrs = no_attrs, i_content = LeafContent (Regular (Inline b)) 1\<rparr>"

lemma inline_inodes: "map_option share_xattrs (collect hex_codec (Sha256HashValue rev) (\<lambda>_ _. 3) (inline_fs b)) =
    Some ([example_root_inode, inline_inode b], [])"
  by code_simp

lemma inline_attrs: "attrs_size (i_xattrs (inline_inode b)) = Some 0"
  by (simp add: attrs_size_def inline_inode_def no_attrs_def write_attrs_def)

lemma inline_written: "length b = 5000 \<Longrightarrow>
    write_inode FirstPass (inline_inode b) (Suc 0) \<lparr>fp_offset = 1280, fp_layout = \<lparr>offset_types = [0, Suc 0, 2], offsets = [0, 1024, 1152]\<rparr>\<rparr> =
   Some \<lparr>fp_offset = 6368, fp_layout = \<lparr>offset_types = [0, Suc 0, 2], offsets = [0, 1024, 1152, 1280]\<rparr>\<rparr>"
proof -
  assume b: "length b = 5000"
  then have "b \<noteq> []" by auto
  moreover obtain m where "mode_field (file_type (i_content (inline_inode b))) (st_mode (i_stat (inline_inode b))) = Some m"
    using mode_field_total by blast
  ultimately show ?thesis using b
    by (simp add: write_inode_def inline_attrs first_pass_simps) (simp add: inline_inode_def no_attrs_def leaf_inode_meta_def Let_def
      inline_pad_def fp_note_def offset_index_def write_attrs_def first_pass_simps round_up_def leaf_inline_def)
qed

lemma inline_fs_size: "length b = 5000 \<Longrightarrow> image_size hex_codec (Sha256HashValue rev) (\<lambda>_ _. 3) (inline_fs b) = Some 8192"
proof -
  assume b: "length b = 5000"
  have "write_blocks FirstPass i s = Some s" if "i = example_root_inode \<or> i = inline_inode b" for i s
    using that by (auto simp: write_blocks_def example_root_inode_def inline_inode_def write_dir_blocks_def)
  then have "map_option fp_offset (write_erofs FirstPass [example_root_inode, inline_inode b] [] first_init) = Some 8192"
    by (simp add: write_erofs_def first_pass_simps fp_note_def empty_layout_def offset_index_def round_up_def get_nid_def get_div_def
        example_root_written inline_written [OF b] Let_def)
  moreover obtain ns where "collect hex_codec (Sha256HashValue rev) (\<lambda>_ _. 3) (inline_fs b) = Some ns"
    "share_xattrs ns = ([example_root_inode, inline_inode b], [])" using inline_inodes by blast
  ultimately show ?thesis by (auto simp: image_size_def)
qed

lemma inline_file_truncated_witness:
  "\<exists>img im nid i. mkfs_erofs hex_codec (Sha256HashValue rev) (\<lambda>_ _. 3) (inline_fs (replicate 5000 CHR ''x'')) = Some img \<and>
     image_open img = Some im \<and> leads im (ucast (root_nid (im_sb im))) [''a''] nid \<and> get_inode im nid = Some i \<and>
     unat (inode_size (header i)) = 5000 \<and> blocks i (blkszbits (im_sb im)) = Some [0] \<and> inline i = Some (Some (replicate 904 CHR ''x''))"
proof -
  define b where "b = replicate 5000 CHR ''x''"
  have b: "length b = 5000" "take 904 b = replicate 904 CHR ''x''" by (simp_all add: b_def)
  have short: "names_short (inline_fs b)" by (simp add: names_short_def inline_fs_def)
  have fits: "dir_fits (meta_fits hex_codec (Sha256HashValue rev)) name_fits (heap (inline_fs b)) (root (inline_fs b))"
    by code_simp
  obtain img where img: "mkfs_erofs hex_codec (Sha256HashValue rev) (\<lambda>_ _. 3) (inline_fs b) = Some img" "length img = 8192"
    by (rule mkfs_runs [OF short, of hex_codec "Sha256HashValue rev" "\<lambda>_ _. 3"]) (use inline_fs_size [OF b(1)] in auto)
  have len: "length img < 2 ^ 32" using img(2) by simp
  have p: "inode_below (IDirectory (root (inline_fs b))) [''a''] = Some (ILeaf 0)" "content (heap (inline_fs b) ! 0) = Regular (Inline b)"
    by (simp_all add: inline_fs_def)
  have "length b < 2 ^ 64" using b(1) by simp
  from inline_file_truncated [OF fits img(1) len p this] show ?thesis
    using img(1) b by (auto simp: b_def [symmetric])
qed

end
