(* ===== verification/Host_Read.thy ===== *)
theory Host_Read
  imports Oci_Image Dumpfile_Parse "HOL-Library.Code_Target_Nat"
begin

text \<open>
  Models the reading half of \<open>crates/composefs/src/fs.rs\<close>: loading a directory tree of the host into the
  tree of the program. The system calls are a parameter; the tree does not change while it is read, so that they are functions
  of their arguments, and descriptors are of any type.
\<close>

section \<open>System calls\<close>

text \<open>The buffer of \<open>fstat\<close>; sizes and times are signed.\<close>

record host_stat =
  hs_dev :: u64
  hs_ino :: u64
  hs_mode :: u32
  hs_uid :: u32
  hs_gid :: u32
  hs_rdev :: u64
  hs_size :: u64
  hs_mtime :: u64

datatype open_flags = OpenDirectory | OpenRead | OpenPath

record 'fd host_calls =
  sys_openat :: "'fd \<Rightarrow> bytes \<Rightarrow> open_flags \<Rightarrow> Fsverity.errno + 'fd"
  sys_fstat :: "'fd \<Rightarrow> Fsverity.errno + host_stat"
  sys_listxattr :: "'fd \<Rightarrow> Fsverity.errno + bytes"
  sys_getxattr :: "'fd \<Rightarrow> bytes \<Rightarrow> Fsverity.errno + bytes"
  sys_read :: "'fd \<Rightarrow> nat \<Rightarrow> Fsverity.errno + bytes"
  sys_readlink :: "'fd \<Rightarrow> Fsverity.errno + bytes"
  sys_readdir :: "'fd \<Rightarrow> Fsverity.errno + (Fsverity.errno + bytes \<times> file_type) list"

datatype host_error =
    HostErrno Fsverity.errno
  | NotNulTerminated
  | TypeChanged
  | SizeOverflow
  | HostRepo repo_error

section \<open>Reading\<close>

text \<open>\<open>split_inclusive(0)\<close>: the pieces of a buffer, each with the NUL that ends it.\<close>

fun split_nul :: "bytes \<Rightarrow> bytes list" where
  "split_nul [] = []"
| "split_nul (c # cs) = (if c = CHR 0x00 then [c] # split_nul cs
     else (case split_nul cs of [] \<Rightarrow> [[c]] | p # ps \<Rightarrow> (c # p) # ps))"

definition cstr :: "bytes \<Rightarrow> host_error + bytes" where
  "cstr p = (if p \<noteq> [] \<and> last p = CHR 0x00 then Inr (butlast p) else Inl NotNulTerminated)"

fun read_values :: "'fd host_calls \<Rightarrow> 'fd \<Rightarrow> bytes list \<Rightarrow> (bytes \<times> bytes) list \<Rightarrow> host_error + (bytes \<times> bytes) list" where
  "read_values W fd [] xs = Inr xs"
| "read_values W fd (p # ps) xs = rbind (cstr p) (\<lambda>name.
     rbind (map_err HostErrno (sys_getxattr W fd name)) (\<lambda>v. read_values W fd ps (bt_insert name v xs)))"

definition read_xattrs :: "'fd host_calls \<Rightarrow> 'fd \<Rightarrow> host_error + (bytes \<times> bytes) list" where
  "read_xattrs W fd = rbind (map_err HostErrno (sys_listxattr W fd)) (\<lambda>names. read_values W fd (split_nul names) [])"

definition stat_of :: "host_stat \<Rightarrow> (bytes \<times> bytes) list \<Rightarrow> stat" where
  "stat_of hs xs = \<lparr>st_mode = and (hs_mode hs) 0xFFF, st_uid = hs_uid hs, st_gid = hs_gid hs, st_mtim_sec = hs_mtime hs, xattrs = xs\<rparr>"

definition read_stat :: "'fd host_calls \<Rightarrow> 'fd \<Rightarrow> file_type \<Rightarrow> host_error + (host_stat \<times> stat)" where
  "read_stat W fd ifmt = rbind (map_err HostErrno (sys_fstat W fd)) (\<lambda>buf.
     rbind (ensure_r (from_raw_mode (hs_mode buf) = ifmt) TypeChanged) (\<lambda>_.
     rbind (read_xattrs W fd) (\<lambda>xs. Inr (buf, stat_of buf xs))))"

text \<open>The digest of a large file: its object is stored when there is a repository.\<close>

definition file_digest :: "hex_crate \<Rightarrow> kernel \<Rightarrow> hash_alg \<Rightarrow> bool \<Rightarrow> bytes \<Rightarrow> (host_error, 'z repo_scheme, bytes) io" where
  "file_digest hx K H repo dat = (if repo then (\<lambda>s. map_option (\<lambda>(r, s'). (map_err HostRepo r, s')) (ensure_object hx K H dat s))
     else (case compute_verity H dat of None \<Rightarrow> (\<lambda>s. None) | Some oid \<Rightarrow> io_return oid))"

text \<open>
  One call of \<open>read\<close> fills the buffer; None is the \<open>unreachable!()\<close> of directories and unknown types.
\<close>

definition read_leaf_content :: "'fd host_calls \<Rightarrow> hex_crate \<Rightarrow> kernel \<Rightarrow> hash_alg \<Rightarrow> bool \<Rightarrow> 'fd \<Rightarrow> host_stat \<Rightarrow>
    (host_error, 'z repo_scheme, regular_file leaf_content) io" where
  "read_leaf_content W hx K H repo fd buf = (case from_raw_mode (hs_mode buf) of
       FtRegular \<Rightarrow> io_bind (io_lift (ensure_r (0 \<le> sint (hs_size buf)) SizeOverflow)) (\<lambda>_.
         io_bind (if 0 < sint (hs_size buf) then io_lift (map_err HostErrno (sys_read W fd (unat (hs_size buf)))) else io_return [])
           (\<lambda>dat. if int INLINE_CONTENT_MAX < sint (hs_size buf)
              then io_bind (file_digest hx K H repo dat) (\<lambda>oid. io_return (Regular (External oid (hs_size buf))))
              else io_return (Regular (Inline dat))))
     | FtSymlink \<Rightarrow> io_bind (io_lift (map_err HostErrno (sys_readlink W fd))) (\<lambda>target. io_return (Symlink target))
     | FtCharacterDevice \<Rightarrow> io_return (CharacterDevice (hs_rdev buf))
     | FtBlockDevice \<Rightarrow> io_return (BlockDevice (hs_rdev buf))
     | FtFifo \<Rightarrow> io_return Fifo
     | FtSocket \<Rightarrow> io_return Socket
     | _ \<Rightarrow> (\<lambda>s. None))"

record fs_reader =
  inodes :: "(u64 \<times> u64) \<Rightarrow> rc option"
  leaves :: "regular_file leaf list"

definition read_leaf :: "'fd host_calls \<Rightarrow> hex_crate \<Rightarrow> kernel \<Rightarrow> hash_alg \<Rightarrow> bool \<Rightarrow> 'fd \<Rightarrow> bytes \<Rightarrow> file_type \<Rightarrow> fs_reader \<Rightarrow>
    (host_error, 'z repo_scheme, rc \<times> fs_reader) io" where
  "read_leaf W hx K H repo dirfd name ifmt rd =
     io_bind (io_lift (map_err HostErrno (sys_openat W dirfd name (if ifmt = FtRegular then OpenRead else OpenPath)))) (\<lambda>fd.
     io_bind (io_lift (read_stat W fd ifmt)) (\<lambda>(buf, st).
       let key = (hs_dev buf, hs_ino buf) in
       case inodes rd key of
         Some r \<Rightarrow> io_return (r, rd)
       | None \<Rightarrow> io_bind (read_leaf_content W hx K H repo fd buf) (\<lambda>c.
           let r = length (leaves rd) in
           io_return (r, \<lparr>inodes = (inodes rd)(key \<mapsto> r), leaves = leaves rd @ [\<lparr>leaf_stat = st, content = c\<rparr>]\<rparr>))))"

text \<open>The loop over the entries of a directory; \<open>sub\<close> reads a directory below it.\<close>

fun read_items :: "('fd \<Rightarrow> bytes \<Rightarrow> fs_reader \<Rightarrow> (host_error, 'z repo_scheme, directory \<times> fs_reader) io) \<Rightarrow>
    'fd host_calls \<Rightarrow> hex_crate \<Rightarrow> kernel \<Rightarrow> hash_alg \<Rightarrow> bool \<Rightarrow> 'fd \<Rightarrow> (Fsverity.errno + bytes \<times> file_type) list \<Rightarrow> directory \<Rightarrow> fs_reader \<Rightarrow>
    (host_error, 'z repo_scheme, directory \<times> fs_reader) io" where
  "read_items sub W hx K H repo fd [] d rd = io_return (d, rd)"
| "read_items sub W hx K H repo fd (Inl e # listing) d rd = io_fail (HostErrno e)"
| "read_items sub W hx K H repo fd (Inr (name, ft) # listing) d rd =
     (if name = ''.'' \<or> name = ''..'' then read_items sub W hx K H repo fd listing d rd
      else if ft = FtDirectory
      then io_bind (sub fd name rd) (\<lambda>(s, rd'). read_items sub W hx K H repo fd listing (Generic_Tree.insert name (IDirectory s) d) rd')
      else io_bind (read_leaf W hx K H repo fd name ft rd) (\<lambda>(r, rd').
        read_items sub W hx K H repo fd listing (Generic_Tree.insert name (ILeaf r) d) rd'))"

text \<open>The recursion into directories is bounded by the depth of the tree: None when it is deeper.\<close>

fun read_directory :: "nat \<Rightarrow> 'fd host_calls \<Rightarrow> hex_crate \<Rightarrow> kernel \<Rightarrow> hash_alg \<Rightarrow> bool \<Rightarrow> 'fd \<Rightarrow> bytes \<Rightarrow> fs_reader \<Rightarrow>
    (host_error, 'z repo_scheme, directory \<times> fs_reader) io" where
  "read_directory 0 W hx K H repo dirfd name rd = (\<lambda>s. None)"
| "read_directory (Suc n) W hx K H repo dirfd name rd =
     io_bind (io_lift (map_err HostErrno (sys_openat W dirfd name OpenDirectory))) (\<lambda>fd.
     io_bind (io_lift (read_stat W fd FtDirectory)) (\<lambda>(_, st).
     io_bind (io_lift (map_err HostErrno (sys_readdir W fd))) (\<lambda>listing.
       read_items (read_directory n W hx K H repo) W hx K H repo fd listing (directory_new st) rd)))"

definition read_filesystem :: "nat \<Rightarrow> 'fd host_calls \<Rightarrow> hex_crate \<Rightarrow> kernel \<Rightarrow> hash_alg \<Rightarrow> bool \<Rightarrow> 'fd \<Rightarrow> bytes \<Rightarrow>
    (host_error, 'z repo_scheme, regular_file filesystem) io" where
  "read_filesystem n W hx K H repo dirfd path =
     io_bind (read_directory n W hx K H repo dirfd path \<lparr>inodes = (\<lambda>_. None), leaves = []\<rparr>) (\<lambda>(d, rd).
       io_return \<lparr>root = d, heap = leaves rd\<rparr>)"

definition read_filesystem_filtered :: "nat \<Rightarrow> 'fd host_calls \<Rightarrow> hex_crate \<Rightarrow> kernel \<Rightarrow> hash_alg \<Rightarrow> bool \<Rightarrow> 'fd \<Rightarrow> bytes \<Rightarrow> (bytes \<Rightarrow> bool) \<Rightarrow>
    (host_error, 'z repo_scheme, regular_file filesystem) io" where
  "read_filesystem_filtered n W hx K H repo dirfd path xattr_filter =
     io_bind (read_filesystem n W hx K H repo dirfd path) (\<lambda>fs. io_return (filter_xattrs xattr_filter fs))"

definition CONTAINER_XATTR_ALLOWLIST :: "bytes list" where
  "CONTAINER_XATTR_ALLOWLIST = [''security.capability'']"

definition is_allowed_container_xattr :: "bytes \<Rightarrow> bool" where
  "is_allowed_container_xattr name \<longleftrightarrow> list_ex (\<lambda>allowed. name = allowed) CONTAINER_XATTR_ALLOWLIST"

datatype container_error = ContainerRead host_error | ContainerImage image_error

definition read_container_root :: "nat \<Rightarrow> 'fd host_calls \<Rightarrow> hex_crate \<Rightarrow> kernel \<Rightarrow> hash_alg \<Rightarrow> bool \<Rightarrow> 'fd \<Rightarrow> bytes \<Rightarrow>
    (container_error, 'z repo_scheme, regular_file filesystem) io" where
  "read_container_root n W hx K H repo dirfd path = (\<lambda>s.
     case read_filesystem_filtered n W hx K H repo dirfd path is_allowed_container_xattr s of
       None \<Rightarrow> None
     | Some (Inl e, s') \<Rightarrow> Some (Inl (ContainerRead e), s')
     | Some (Inr fs, s') \<Rightarrow> Some (map_err ContainerImage (transform_for_oci fs), s'))"

section \<open>A tree of the host\<close>

text \<open>
  A tree as the host has it: the stat, the extended attributes and the contents (or the target) of a node, and the entries
  of a directory. Two names of one file are two nodes with the same device and inode number.
\<close>

datatype htree = HTree (ht_stat: host_stat) (ht_xattrs: "(bytes \<times> bytes) list") (ht_data: bytes)
  (ht_children: "(bytes \<times> htree) list")

definition ht_type :: "htree \<Rightarrow> file_type" where "ht_type t = from_raw_mode (hs_mode (ht_stat t))"

definition ht_key :: "htree \<Rightarrow> u64 \<times> u64" where "ht_key t = (hs_dev (ht_stat t), hs_ino (ht_stat t))"

fun ht_at :: "htree \<Rightarrow> bytes list \<Rightarrow> htree option" where
  "ht_at t [] = Some t"
| "ht_at t (n # ns) = (case map_of (ht_children t) n of None \<Rightarrow> None | Some c \<Rightarrow> ht_at c ns)"

definition open_flag :: "file_type \<Rightarrow> open_flags" where
  "open_flag ft = (if ft = FtDirectory then OpenDirectory else if ft = FtRegular then OpenRead else OpenPath)"

fun is_dot :: "Fsverity.errno + bytes \<times> file_type \<Rightarrow> bool" where
  "is_dot (Inl e) = False"
| "is_dot (Inr (n, ft)) = (n = ''.'' \<or> n = ''..'')"

text \<open>What the system calls say of the node that a descriptor stands for, and of those below it.\<close>

definition shows_node :: "'fd host_calls \<Rightarrow> 'fd \<Rightarrow> htree \<Rightarrow> bool" where
  "shows_node W fd t \<longleftrightarrow> sys_fstat W fd = Inr (ht_stat t) \<and>
     sys_listxattr W fd = Inr (concat (map (\<lambda>e. fst e @ [CHR 0x00]) (ht_xattrs t))) \<and>
     (\<forall>e \<in> set (ht_xattrs t). CHR 0x00 \<notin> set (fst e) \<and> sys_getxattr W fd (fst e) = Inr (snd e)) \<and>
     (case ht_type t of
        FtRegular \<Rightarrow> hs_size (ht_stat t) = of_nat (length (ht_data t)) \<and> length (ht_data t) < 2 ^ 63 \<and>
          sys_read W fd (length (ht_data t)) = Inr (ht_data t)
      | FtSymlink \<Rightarrow> sys_readlink W fd = Inr (ht_data t)
      | FtDirectory \<Rightarrow> (case sys_readdir W fd of Inl e \<Rightarrow> False
          | Inr es \<Rightarrow> filter (\<lambda>e. \<not> is_dot e) es = map (\<lambda>(n, c). Inr (n, ht_type c)) (ht_children t)) \<and>
          distinct (map fst (ht_children t))
      | FtUnknown \<Rightarrow> False
      | _ \<Rightarrow> True) \<and>
     (ht_type t \<noteq> FtDirectory \<longrightarrow> ht_children t = [])"

lemma size_child: "e \<in> set cs \<Longrightarrow> size (snd e) < Suc (size_list (size_prod (\<lambda>_. 0) size) cs)"
  by (induction cs) auto

function host_shows :: "'fd host_calls \<Rightarrow> 'fd \<Rightarrow> htree \<Rightarrow> bool" where
  "host_shows W fd (HTree st xs d cs) \<longleftrightarrow> shows_node W fd (HTree st xs d cs) \<and>
     (\<forall>e \<in> set cs. case sys_openat W fd (fst e) (open_flag (ht_type (snd e))) of Inl x \<Rightarrow> False | Inr fd' \<Rightarrow> host_shows W fd' (snd e))"
  by pat_completeness auto
termination
  by (relation "measure (\<lambda>(W, fd, t). size t)") (auto dest: size_child)

function ht_depth :: "htree \<Rightarrow> nat" where
  "ht_depth (HTree st xs d cs) = Suc (Max (Set.insert 0 (set (map (\<lambda>e. ht_depth (snd e)) cs))))"
  by pat_completeness auto
termination
  by (relation "measure size") (auto dest: size_child)

definition ht_tree_stat :: "htree \<Rightarrow> stat" where
  "ht_tree_stat t = stat_of (ht_stat t) (fold (\<lambda>(k, v). bt_insert k v) (ht_xattrs t) [])"

definition ht_content :: "hash_alg \<Rightarrow> htree \<Rightarrow> regular_file leaf_content" where
  "ht_content H t = (case ht_type t of
       FtRegular \<Rightarrow> Regular (if INLINE_CONTENT_MAX < length (ht_data t)
         then External (fsverity_digest H 12 (ht_data t)) (of_nat (length (ht_data t))) else Inline (ht_data t))
     | FtSymlink \<Rightarrow> Symlink (ht_data t)
     | FtCharacterDevice \<Rightarrow> CharacterDevice (hs_rdev (ht_stat t))
     | FtBlockDevice \<Rightarrow> BlockDevice (hs_rdev (ht_stat t))
     | FtFifo \<Rightarrow> Fifo
     | _ \<Rightarrow> Socket)"

definition ht_leaf :: "hash_alg \<Rightarrow> htree \<Rightarrow> regular_file leaf" where
  "ht_leaf H t = \<lparr>leaf_stat = ht_tree_stat t, content = ht_content H t\<rparr>"

section \<open>Reading one node\<close>

text \<open>
  What a step of the reader does: a result has the property, and without a repository there is one and nothing
  else changes.
\<close>

definition does :: "bool \<Rightarrow> ('e, 's, 'a) io \<Rightarrow> 's \<Rightarrow> ('a \<Rightarrow> 's \<Rightarrow> bool) \<Rightarrow> bool" where
  "does repo m s P \<longleftrightarrow> (\<forall>x s'. m s = Some (Inr x, s') \<longrightarrow> P x s') \<and> (\<not> repo \<longrightarrow> (\<exists>x. m s = Some (Inr x, s)))"

lemma does_return [intro]: "P x s \<Longrightarrow> does repo (io_return x) s P"
  by (simp add: does_def)

lemma does_bind: "does repo m s P \<Longrightarrow> (\<And>x s'. P x s' \<Longrightarrow> does repo (f x) s' Q) \<Longrightarrow> does repo (io_bind m f) s Q"
  unfolding does_def
proof (intro conjI allI impI, goal_cases)
  case 1
  then show ?case by (auto simp: io_bind_Inr_iff)
next
  case 2
  then obtain x where "m s = Some (Inr x, s)" by blast
  then show ?case using 2 by (fastforce simp: io_bind_def)
qed

lemma does_mono: "does repo m s P \<Longrightarrow> (\<And>x s'. P x s' \<Longrightarrow> Q x s') \<Longrightarrow> does repo m s Q"
  unfolding does_def by blast

lemma split_nul_append: "CHR 0x00 \<notin> set k \<Longrightarrow> split_nul (k @ [CHR 0x00] @ r) = (k @ [CHR 0x00]) # split_nul r"
  by (induction k) auto

lemma read_values_listed:
  "\<forall>e \<in> set es. CHR 0x00 \<notin> set (fst e) \<and> sys_getxattr W fd (fst e) = Inr (snd e) \<Longrightarrow>
     read_values W fd (split_nul (concat (map (\<lambda>e. fst e @ [CHR 0x00]) es))) xs = Inr (fold (\<lambda>(k, v). bt_insert k v) es xs)"
proof (induction es arbitrary: xs)
  case (Cons e es)
  then show ?case by (cases e) (simp add: split_nul_append [simplified] cstr_def)
qed simp

lemma read_stat_shown:
  "shows_node W fd t \<Longrightarrow> read_stat W fd (ht_type t) = Inr (ht_stat t, ht_tree_stat t)"
  by (simp add: shows_node_def read_stat_def ht_type_def read_xattrs_def read_values_listed ht_tree_stat_def ensure_r_def)

lemma file_digest_does:
  assumes env: "env_ok hx K H" and inv: "store_inv hx H s"
  shows "does repo (file_digest hx K H repo d) s (\<lambda>oid s'. oid = fsverity_digest H 12 d \<and> store_inv hx H s')"
proof (cases repo)
  case True
  then show ?thesis using ensure_object_result(1,3) [OF env inv]
    by (cases "ensure_object hx K H d s") (auto simp: does_def file_digest_def map_err_def split: sum.splits)
next
  case False
  then show ?thesis using inv by (simp add: does_def file_digest_def env_ok_simps(4) [OF env])
qed

lemma size_of_nat: "n < 2 ^ 63 \<Longrightarrow> sint (of_nat n :: u64) = int n \<and> unat (of_nat n :: u64) = n"
proof -
  assume n: "n < 2 ^ 63"
  have "take_bit 64 n = n" by (rule take_bit_nat_eq_self) (use n in simp)
  moreover have "sint (of_nat n :: u64) = int n" by (rule sint_small) (use n in \<open>simp add: I64_MAX_def\<close>)
  ultimately show ?thesis by (simp add: unsigned_of_nat)
qed

lemma read_leaf_content_does:
  assumes env: "env_ok hx K H" and inv: "store_inv hx H s" and t: "shows_node W fd t" "ht_type t \<noteq> FtDirectory"
  shows "does repo (read_leaf_content W hx K H repo fd (ht_stat t)) s (\<lambda>c s'. c = ht_content H t \<and> store_inv hx H s')"
proof (cases "ht_type t")
  case FtRegular
  have z: "hs_size (ht_stat t) = of_nat (length (ht_data t))" "length (ht_data t) < 2 ^ 63"
    "sys_read W fd (length (ht_data t)) = Inr (ht_data t)"
    using t(1) FtRegular by (simp_all add: shows_node_def)
  have c: "read_leaf_content W hx K H repo fd (ht_stat t) =
      (if INLINE_CONTENT_MAX < length (ht_data t)
       then io_bind (file_digest hx K H repo (ht_data t)) (\<lambda>oid. io_return (Regular (External oid (of_nat (length (ht_data t))))))
       else io_return (Regular (Inline (ht_data t))))"
    using FtRegular z size_of_nat [OF z(2)]
    by (cases "ht_data t = []") (simp_all add: read_leaf_content_def ht_type_def ensure_r_def if_distrib io_bind_return fun_eq_iff)
  show ?thesis unfolding c using FtRegular inv
    by (auto simp: ht_content_def intro!: does_bind [OF file_digest_does [OF env inv]])
qed (use t inv in \<open>auto simp: does_def read_leaf_content_def ht_type_def ht_content_def shows_node_def\<close>)

section \<open>The state of the reader\<close>

text \<open>
  \<open>U\<close> is the set of the nodes that are not directories: those with the same key are the same file. Every key that was
  read has its own leaf, with the stat and the contents of the file.
\<close>

definition same_files :: "hash_alg \<Rightarrow> htree set \<Rightarrow> bool" where
  "same_files H U \<longleftrightarrow> (\<forall>u \<in> U. \<forall>v \<in> U. ht_key u = ht_key v \<longrightarrow> ht_leaf H u = ht_leaf H v)"

definition reader_ok :: "hash_alg \<Rightarrow> htree set \<Rightarrow> fs_reader \<Rightarrow> bool" where
  "reader_ok H U rd \<longleftrightarrow> inj_on (inodes rd) (dom (inodes rd)) \<and>
     (\<forall>k r. inodes rd k = Some r \<longrightarrow> r < length (leaves rd) \<and> (\<forall>u \<in> U. ht_key u = k \<longrightarrow> leaves rd ! r = ht_leaf H u))"

lemma inj_on_fresh:
  assumes "inj_on f (dom f)" "\<And>k r. f k = Some r \<Longrightarrow> r < (n :: nat)"
  shows "inj_on (f(x \<mapsto> n)) (dom (f(x \<mapsto> n)))"
proof (rule inj_onI)
  fix a b
  assume ab: "a \<in> dom (f(x \<mapsto> n))" "b \<in> dom (f(x \<mapsto> n))" "(f(x \<mapsto> n)) a = (f(x \<mapsto> n)) b"
  have "f c \<noteq> Some n" for c using assms(2) [of c n] by blast
  then show "a = b" using ab assms(1) by (auto simp: inj_on_def dom_def split: if_splits)
qed

lemma reader_ok_add:
  assumes "reader_ok H U rd" "same_files H U" "u \<in> U" "inodes rd (ht_key u) = None"
  shows "reader_ok H U \<lparr>inodes = (inodes rd)(ht_key u \<mapsto> length (leaves rd)), leaves = leaves rd @ [ht_leaf H u]\<rparr>"
proof -
  have lt: "r < length (leaves rd)" if "inodes rd k = Some r" for k r using assms(1) that unfolding reader_ok_def by blast
  have "inj_on ((inodes rd)(ht_key u \<mapsto> length (leaves rd))) (dom ((inodes rd)(ht_key u \<mapsto> length (leaves rd))))"
    by (rule inj_on_fresh) (use assms(1) lt in \<open>simp add: reader_ok_def, blast\<close>)
  moreover have "r < Suc (length (leaves rd)) \<and>
      (\<forall>v \<in> U. ht_key v = k \<longrightarrow> (leaves rd @ [ht_leaf H u]) ! r = ht_leaf H v)"
    if "((inodes rd)(ht_key u \<mapsto> length (leaves rd))) k = Some r" for k r
  proof (cases "k = ht_key u")
    case True
    have r: "r = length (leaves rd)" using that unfolding True by simp
    have "\<forall>v \<in> U. ht_key v = ht_key u \<longrightarrow> ht_leaf H u = ht_leaf H v"
      using assms(2,3) unfolding same_files_def by metis
    then show ?thesis unfolding r True nth_append_length by blast
  next
    case False
    then have k: "inodes rd k = Some r" using that by simp
    have "\<forall>v \<in> U. ht_key v = k \<longrightarrow> leaves rd ! r = ht_leaf H v"
      using assms(1) k unfolding reader_ok_def by blast
    then show ?thesis using lt [OF k] by (simp add: nth_append)
  qed
  ultimately show ?thesis unfolding reader_ok_def fs_reader.simps length_append_singleton by blast
qed

definition ht_leaves :: "htree \<Rightarrow> htree set" where
  "ht_leaves t = {u. (\<exists>ns. ht_at t ns = Some u) \<and> ht_type u \<noteq> FtDirectory}"

definition ht_node :: "fs_reader \<Rightarrow> htree \<Rightarrow> fnode" where
  "ht_node rd u = (if ht_type u = FtDirectory then DirNode (ht_tree_stat u) else LeafNode (the (inodes rd (ht_key u))))"

definition inode_at :: "inode \<Rightarrow> path_map" where
  "inode_at i ns = (case i of IDirectory d \<Rightarrow> node_at d ns | ILeaf r \<Rightarrow> if ns = [] then Some (LeafNode r) else None)"

definition reads_as :: "fs_reader \<Rightarrow> inode \<Rightarrow> htree \<Rightarrow> bool" where
  "reads_as rd i t \<longleftrightarrow> (\<forall>ns. inode_at i ns = map_option (ht_node rd) (ht_at t ns)) \<and>
     ht_key ` ht_leaves t \<subseteq> dom (inodes rd)"

lemma reads_as_mono:
  assumes "reads_as rd i t" "inodes rd \<subseteq>\<^sub>m inodes rd'"
  shows "reads_as rd' i t"
proof -
  have "ht_node rd' u = ht_node rd u" if "ht_at t ns = Some u" for u ns
  proof (cases "ht_type u = FtDirectory")
    case False
    then have "u \<in> ht_leaves t" using that by (auto simp: ht_leaves_def)
    then obtain r where "inodes rd (ht_key u) = Some r" using assms(1) by (auto simp: reads_as_def)
    then show ?thesis using assms(2) False by (force simp: ht_node_def map_le_def)
  qed (simp add: ht_node_def)
  then have "map_option (ht_node rd') (ht_at t ns) = map_option (ht_node rd) (ht_at t ns)" for ns
    by (cases "ht_at t ns") auto
  moreover have "ht_key ` ht_leaves t \<subseteq> dom (inodes rd')"
    by (rule subset_trans [OF conjunct2 [OF assms(1) [unfolded reads_as_def]] map_le_implies_dom_le [OF assms(2)]])
  ultimately show ?thesis using assms(1) unfolding reads_as_def by simp
qed

text \<open>What a step promises for a node: the reader keeps what it had, and what it returns is the node.\<close>

definition reads_node :: "hex_crate \<Rightarrow> hash_alg \<Rightarrow> htree set \<Rightarrow> fs_reader \<Rightarrow> htree \<Rightarrow> inode \<times> fs_reader \<Rightarrow> 'z repo_scheme \<Rightarrow> bool" where
  "reads_node hx H U rd t ir s' \<longleftrightarrow> reader_ok H U (snd ir) \<and> inodes rd \<subseteq>\<^sub>m inodes (snd ir) \<and> reads_as (snd ir) (fst ir) t \<and> store_inv hx H s'"

lemma read_leaf_does:
  assumes env: "env_ok hx K H" and inv: "store_inv hx H s" and rd: "reader_ok H U rd" and U: "same_files H U" "t \<in> U"
    and o: "sys_openat W dirfd name (open_flag (ht_type t)) = Inr fd" and t: "shows_node W fd t" "ht_type t \<noteq> FtDirectory"
  shows "does repo (read_leaf W hx K H repo dirfd name (ht_type t) rd) s
    (\<lambda>x s'. reads_node hx H U rd t (ILeaf (fst x), snd x) s')"
proof -
  have leaf: "reads_as rd' (ILeaf r) t" if "inodes rd' (ht_key t) = Some r" for rd' r
  proof -
    have "ht_children t = []" using t by (simp add: shows_node_def)
    then have at: "ht_at t ns = (if ns = [] then Some t else None)" for ns by (cases ns) simp_all
    then show ?thesis using that t(2) by (auto simp: reads_as_def inode_at_def ht_node_def ht_leaves_def)
  qed
  have f: "(if ht_type t = FtRegular then OpenRead else OpenPath) = open_flag (ht_type t)" using t(2) by (simp add: open_flag_def)
  show ?thesis
  proof (cases "inodes rd (ht_key t)")
    case (Some r)
    then have eq: "read_leaf W hx K H repo dirfd name (ht_type t) rd = io_return (r, rd)"
      by (simp add: read_leaf_def f o read_stat_shown [OF t(1)] ht_key_def Let_def fun_eq_iff)
    show ?thesis unfolding eq using rd inv leaf [OF Some] by (intro does_return) (simp add: reads_node_def)
  next
    case None
    let ?rd = "\<lambda>c. \<lparr>inodes = (inodes rd)(ht_key t \<mapsto> length (leaves rd)), leaves = leaves rd @ [\<lparr>leaf_stat = ht_tree_stat t, content = c\<rparr>]\<rparr>"
    have eq: "read_leaf W hx K H repo dirfd name (ht_type t) rd =
        io_bind (read_leaf_content W hx K H repo fd (ht_stat t)) (\<lambda>c. io_return (length (leaves rd), ?rd c))"
      using None by (simp add: read_leaf_def f o read_stat_shown [OF t(1)] ht_key_def Let_def)
    have "reads_node hx H U rd t (ILeaf (length (leaves rd)), ?rd (ht_content H t)) s'" if "store_inv hx H s'" for s'
      using reader_ok_add [OF rd U None] leaf [of "?rd (ht_content H t)" "length (leaves rd)"] that None
      by (auto simp: reads_node_def ht_leaf_def map_le_def)
    then show ?thesis unfolding eq
      by (intro does_bind [OF read_leaf_content_does [OF env inv t]] does_return) simp
  qed
qed

section \<open>Reading a directory\<close>

text \<open>What the loop over the entries promises for the children \<open>cs\<close>.\<close>

definition children_read :: "hex_crate \<Rightarrow> hash_alg \<Rightarrow> htree set \<Rightarrow> fs_reader \<Rightarrow> (bytes \<times> htree) list \<Rightarrow> directory \<Rightarrow> directory \<times> fs_reader \<Rightarrow>
    'z repo_scheme \<Rightarrow> bool" where
  "children_read hx H U rd cs d x s' \<longleftrightarrow> store_inv hx H s' \<and> reader_ok H U (snd x) \<and> inodes rd \<subseteq>\<^sub>m inodes (snd x) \<and>
     dstat (fst x) = dstat d \<and> bt_wf (entries (fst x)) \<and>
     (\<forall>n. case map_of cs n of
        Some c \<Rightarrow> \<exists>i. bt_get (entries (fst x)) n = Some i \<and> reads_as (snd x) i c
      | None \<Rightarrow> bt_get (entries (fst x)) n = bt_get (entries d) n)"

lemma children_read_Nil:
  "store_inv hx H s \<Longrightarrow> reader_ok H U rd \<Longrightarrow> bt_wf (entries d) \<Longrightarrow> children_read hx H U rd [] d (d, rd) s"
  by (simp add: children_read_def)

lemma children_read_Cons:
  assumes c: "reads_node hx H U rd c (i, rd1) s1" and n: "n \<notin> fst ` set cs" and wf: "bt_wf (entries d)"
    and r: "children_read hx H U rd1 cs (Generic_Tree.insert n i d) x s'"
  shows "children_read hx H U rd ((n, c) # cs) d x s'"
proof -
  have le: "inodes rd \<subseteq>\<^sub>m inodes (snd x)" "inodes rd1 \<subseteq>\<^sub>m inodes (snd x)"
    using c r map_le_trans by (auto simp: reads_node_def children_read_def)
  have i: "reads_as (snd x) i c" using reads_as_mono [OF _ le(2)] c by (simp add: reads_node_def)
  have g: "bt_get (entries (Generic_Tree.insert n i d)) m = (if m = n then Some i else bt_get (entries d) m)" for m
    using wf by (simp add: Generic_Tree.insert_def bt_get_insert)
  have "map_of cs n = None" using n by (simp add: map_of_eq_None_iff)
  moreover have at: "case map_of cs m of
      Some c \<Rightarrow> \<exists>i. bt_get (entries (fst x)) m = Some i \<and> reads_as (snd x) i c
    | None \<Rightarrow> bt_get (entries (fst x)) m = bt_get (entries (Generic_Tree.insert n i d)) m" for m
    using r unfolding children_read_def by blast
  ultimately have "bt_get (entries (fst x)) n = Some i" using g [of n] at [of n] by simp
  then have "case map_of ((n, c) # cs) m of
      Some c \<Rightarrow> \<exists>i. bt_get (entries (fst x)) m = Some i \<and> reads_as (snd x) i c
    | None \<Rightarrow> bt_get (entries (fst x)) m = bt_get (entries d) m" for m
    using at [of m] g [of m] i by (cases "m = n") (simp_all split: option.splits)
  then show ?thesis using r le(1) by (simp add: children_read_def Generic_Tree.insert_def)
qed

lemma read_items_does:
  assumes env: "env_ok hx K H" and U: "same_files H U"
    and sub: "\<And>n c rd s. (n, c) \<in> set cs \<Longrightarrow> ht_type c = FtDirectory \<Longrightarrow> reader_ok H U rd \<Longrightarrow> store_inv hx H s \<Longrightarrow>
      does repo (sub fd n rd) s (\<lambda>x s'. reads_node hx H U rd c (IDirectory (fst x), snd x) s')"
    and leaf: "\<And>n c. (n, c) \<in> set cs \<Longrightarrow> ht_type c \<noteq> FtDirectory \<Longrightarrow>
      c \<in> U \<and> (\<exists>fd'. sys_openat W fd n (open_flag (ht_type c)) = Inr fd' \<and> shows_node W fd' c)"
  shows "filter (\<lambda>e. \<not> is_dot e) es = map (\<lambda>(n, c). Inr (n, ht_type c)) cs \<Longrightarrow> distinct (map fst cs) \<Longrightarrow>
    store_inv hx H s \<Longrightarrow> reader_ok H U rd \<Longrightarrow> bt_wf (entries d) \<Longrightarrow>
    does repo (read_items sub W hx K H repo fd es d rd) s (children_read hx H U rd cs d)"
  using sub leaf
proof (induction es arbitrary: cs d rd s)
  case Nil
  then show ?case using children_read_Nil by (simp add: does_def)
next
  case (Cons e es)
  show ?case
  proof (cases "is_dot e")
    case True
    then obtain n ft where e: "e = Inr (n, ft)" "n = ''.'' \<or> n = ''..''" by (cases e) auto
    have "does repo (read_items sub W hx K H repo fd es d rd) s (children_read hx H U rd cs d)"
      using Cons.prems True by (intro Cons.IH) simp_all
    then show ?thesis using e by simp
  next
    case False
    then obtain n c cs' where cs: "cs = (n, c) # cs'" "e = Inr (n, ht_type c)"
      "filter (\<lambda>e. \<not> is_dot e) es = map (\<lambda>(n, c). Inr (n, ht_type c)) cs'"
      using Cons.prems(1) by (cases cs) auto
    have n: "n \<notin> fst ` set cs'" "distinct (map fst cs')" "\<not> (n = ''.'' \<or> n = ''..'')"
      using Cons.prems(2) False cs by auto
    have wf: "bt_wf (entries (Generic_Tree.insert n i d))" for i
      using Cons.prems(5) by (simp add: Generic_Tree.insert_def bt_wf_insert)
    have rest: "does repo (read_items sub W hx K H repo fd es (Generic_Tree.insert n i d) rd1) s1 (children_read hx H U rd cs d)"
      if r: "reads_node hx H U rd c (i, rd1) s1" for i rd1 s1
    proof (rule does_mono)
      show "does repo (read_items sub W hx K H repo fd es (Generic_Tree.insert n i d) rd1) s1
          (children_read hx H U rd1 cs' (Generic_Tree.insert n i d))"
      proof (rule Cons.IH [OF cs(3) n(2) _ _ wf])
        show "store_inv hx H s1" "reader_ok H U rd1" using r by (simp_all add: reads_node_def)
        show "does repo (sub fd m rd) s (\<lambda>x s'. reads_node hx H U rd k (IDirectory (fst x), snd x) s')"
          if "(m, k) \<in> set cs'" "ht_type k = FtDirectory" "reader_ok H U rd" "store_inv hx H s" for m k rd s
          by (rule Cons.prems(6)) (use that cs(1) in simp_all)
        show "k \<in> U \<and> (\<exists>fd'. sys_openat W fd m (open_flag (ht_type k)) = Inr fd' \<and> shows_node W fd' k)"
          if "(m, k) \<in> set cs'" "ht_type k \<noteq> FtDirectory" for m k
          by (rule Cons.prems(7)) (use that cs(1) in simp_all)
      qed
      show "children_read hx H U rd1 cs' (Generic_Tree.insert n i d) x s' \<Longrightarrow> children_read hx H U rd cs d x s'" for x s'
        unfolding cs(1) by (rule children_read_Cons [OF r n(1) Cons.prems(5)])
    qed
    show ?thesis
    proof (cases "ht_type c = FtDirectory")
      case True
      have "does repo (sub fd n rd) s (\<lambda>x s'. reads_node hx H U rd c (IDirectory (fst x), snd x) s')"
        using Cons.prems(3,4,6) cs(1) True by simp
      then show ?thesis using cs(2) n(3) True rest by (auto intro!: does_bind)
    next
      case False
      obtain fd' where o: "c \<in> U" "sys_openat W fd n (open_flag (ht_type c)) = Inr fd'" "shows_node W fd' c"
        using Cons.prems(7) cs(1) False by auto
      note l = read_leaf_does [OF env Cons.prems(3,4) U o(1,2,3) False]
      show ?thesis using cs(2) n(3) False rest by (auto intro!: does_bind [OF l])
    qed
  qed
qed

lemma depth_child: "e \<in> set (ht_children t) \<Longrightarrow> ht_depth t \<le> Suc n \<Longrightarrow> ht_depth (snd e) \<le> n"
  by (cases t) (auto simp: Max_insert_if)

lemma leaves_child:
  assumes "(n, c) \<in> set (ht_children t)" "distinct (map fst (ht_children t))" shows "ht_leaves c \<subseteq> ht_leaves t"
proof
  fix u
  assume "u \<in> ht_leaves c"
  then obtain ns where "ht_at c ns = Some u" "ht_type u \<noteq> FtDirectory" by (auto simp: ht_leaves_def)
  moreover have "map_of (ht_children t) n = Some c" using assms by simp
  ultimately have "ht_at t (n # ns) = Some u" by simp
  then show "u \<in> ht_leaves t" using \<open>ht_type u \<noteq> FtDirectory\<close> unfolding ht_leaves_def by blast
qed

lemma leaves_dom:
  assumes "ht_type t = FtDirectory" "\<And>n c. map_of (ht_children t) n = Some c \<Longrightarrow> ht_key ` ht_leaves c \<subseteq> D"
  shows "ht_key ` ht_leaves t \<subseteq> D"
proof
  fix k
  assume "k \<in> ht_key ` ht_leaves t"
  then obtain u ns where u: "k = ht_key u" "ht_at t ns = Some u" "ht_type u \<noteq> FtDirectory" by (auto simp: ht_leaves_def)
  then obtain n ms c where "ns = n # ms" "map_of (ht_children t) n = Some c" "ht_at c ms = Some u"
    using assms(1) by (cases ns) (auto split: option.splits)
  then have "u \<in> ht_leaves c" "ht_key ` ht_leaves c \<subseteq> D" using u(3) assms(2) by (auto simp: ht_leaves_def)
  then show "k \<in> D" using u(1) by blast
qed

lemma children_read_directory:
  assumes r: "children_read hx H U rd (ht_children t) (directory_new (ht_tree_stat t)) x s'" and t: "ht_type t = FtDirectory"
  shows "reads_node hx H U rd t (IDirectory (fst x), snd x) s'"
proof -
  have c: "case map_of (ht_children t) n of
      Some c \<Rightarrow> \<exists>i. bt_get (entries (fst x)) n = Some i \<and> reads_as (snd x) i c
    | None \<Rightarrow> bt_get (entries (fst x)) n = None" for n
  proof -
    have "case map_of (ht_children t) n of
        Some c \<Rightarrow> \<exists>i. bt_get (entries (fst x)) n = Some i \<and> reads_as (snd x) i c
      | None \<Rightarrow> bt_get (entries (fst x)) n = bt_get (entries (directory_new (ht_tree_stat t))) n"
      using r unfolding children_read_def by blast
    then show ?thesis by (simp add: directory_new_def bt_get_def split: option.splits)
  qed
  have "inode_at (IDirectory (fst x)) ns = map_option (ht_node (snd x)) (ht_at t ns)" for ns
  proof (cases ns)
    case Nil
    then show ?thesis using r t by (simp add: inode_at_def ht_node_def children_read_def directory_new_def)
  next
    case (Cons n ms)
    show ?thesis
    proof (cases "map_of (ht_children t) n")
      case None
      then show ?thesis using c [of n] Cons by (simp add: inode_at_def)
    next
      case (Some ch)
      then obtain i where i: "bt_get (entries (fst x)) n = Some i" "reads_as (snd x) i ch" using c [of n] by auto
      then have "inode_at i ms = map_option (ht_node (snd x)) (ht_at ch ms)" by (simp add: reads_as_def)
      then show ?thesis using i(1) Some Cons by (cases i) (simp_all add: inode_at_def)
    qed
  qed
  moreover have "ht_key ` ht_leaves t \<subseteq> dom (inodes (snd x))"
  proof (rule leaves_dom [OF t])
    show "map_of (ht_children t) n = Some ch \<Longrightarrow> ht_key ` ht_leaves ch \<subseteq> dom (inodes (snd x))" for n ch
      using c [of n] unfolding reads_as_def by auto
  qed
  ultimately show ?thesis using r by (simp add: reads_node_def children_read_def reads_as_def)
qed

lemma read_directory_does:
  assumes env: "env_ok hx K H" and U: "same_files H U"
  shows "ht_type t = FtDirectory \<Longrightarrow> sys_openat W dirfd name OpenDirectory = Inr fd \<Longrightarrow> host_shows W fd t \<Longrightarrow> ht_depth t \<le> n \<Longrightarrow>
    ht_leaves t \<subseteq> U \<Longrightarrow> reader_ok H U rd \<Longrightarrow> store_inv hx H (s :: 'z repo_scheme) \<Longrightarrow>
    does repo (read_directory n W hx K H repo dirfd name rd) s (\<lambda>x s'. reads_node hx H U rd t (IDirectory (fst x), snd x) s')"
proof (induction n arbitrary: t dirfd name fd rd s)
  case 0
  then show ?case by (cases t) simp
next
  case (Suc n)
  have w: "shows_node W fd t" using Suc.prems(3) by (cases t) simp
  have kids: "case sys_openat W fd (fst e) (open_flag (ht_type (snd e))) of Inl x \<Rightarrow> False | Inr fd' \<Rightarrow> host_shows W fd' (snd e)"
    if "e \<in> set (ht_children t)" for e using Suc.prems(3) that by (cases t) simp
  obtain es where es: "sys_readdir W fd = Inr es" "filter (\<lambda>e. \<not> is_dot e) es = map (\<lambda>(n, c). Inr (n, ht_type c)) (ht_children t)"
    and d: "distinct (map fst (ht_children t))"
    using w Suc.prems(1) by (auto simp: shows_node_def split: sum.splits)
  have "read_stat W fd FtDirectory = Inr (ht_stat t, ht_tree_stat t)" using read_stat_shown [OF w] Suc.prems(1) by simp
  then have eq: "read_directory (Suc n) W hx K H repo dirfd name rd =
      read_items (read_directory n W hx K H repo) W hx K H repo fd es (directory_new (ht_tree_stat t)) rd"
    using Suc.prems(2) es(1) by simp
  have "does repo (read_items (read_directory n W hx K H repo) W hx K H repo fd es (directory_new (ht_tree_stat t)) rd) s
      (children_read hx H U rd (ht_children t) (directory_new (ht_tree_stat t)))"
  proof (rule read_items_does [OF env U _ _ es(2) d Suc.prems(7,6)])
    fix m c rd1 and s1 :: "'z repo_scheme"
    assume c: "(m, c) \<in> set (ht_children t)" and ty: "ht_type c = FtDirectory" and r: "reader_ok H U rd1" "store_inv hx H s1"
    obtain fd' where "sys_openat W fd m OpenDirectory = Inr fd'" "host_shows W fd' c"
      using kids [OF c] ty by (auto simp: open_flag_def split: sum.splits)
    then show "does repo (read_directory n W hx K H repo fd m rd1) s1 (\<lambda>x s'. reads_node hx H U rd1 c (IDirectory (fst x), snd x) s')"
      using depth_child [OF c Suc.prems(4)] leaves_child [OF c d] Suc.prems(5) ty r by (intro Suc.IH) auto
  next
    fix m c
    assume c: "(m, c) \<in> set (ht_children t)" and ty: "ht_type c \<noteq> FtDirectory"
    obtain fd' where fd': "sys_openat W fd m (open_flag (ht_type c)) = Inr fd'" "host_shows W fd' c"
      using kids [OF c] by (auto split: sum.splits)
    have "c \<in> ht_leaves c" using ty by (auto simp: ht_leaves_def intro: exI [of _ "[]"])
    then have "c \<in> U" using leaves_child [OF c d] Suc.prems(5) by blast
    moreover have "shows_node W fd' c" using fd'(2) by (cases c) simp
    ultimately show "c \<in> U \<and> (\<exists>fd'. sys_openat W fd m (open_flag (ht_type c)) = Inr fd' \<and> shows_node W fd' c)"
      using fd'(1) by blast
  qed (simp add: directory_new_def)
  then show ?case unfolding eq by (rule does_mono) (rule children_read_directory [OF _ Suc.prems(1)])
qed

section \<open>Reading a tree\<close>

text \<open>
  Reading a directory of the host gives its tree: every path of the host is a path of the result and no other is, with
  the metadata and attributes of the directory, or a leaf with those of the file and its contents; two paths share a leaf exactly when they
  are names of one file. With a repository, every result that is returned is that tree, and the objects that were stored
  keep the invariant of the store; without one a result is always returned and nothing is stored. The
  bound on the recursion is any number from the depth of the tree on.
\<close>

theorem read_filesystem_tree:
  assumes "env_ok hx K H" "store_inv hx H (s :: 'z repo_scheme)" and t: "ht_type t = FtDirectory" "host_shows W fd t"
    and "sys_openat W dirfd path OpenDirectory = Inr fd" "same_files H (ht_leaves t)" "ht_depth t \<le> n"
  shows "does repo (read_filesystem n W hx K H repo dirfd path) s (\<lambda>fs s'. store_inv hx H s' \<and>
    (\<exists>f. inj_on f (ht_key ` ht_leaves t) \<and>
      (\<forall>u \<in> ht_leaves t. f (ht_key u) < length (heap fs) \<and> heap fs ! f (ht_key u) = ht_leaf H u) \<and>
      (\<forall>ns. node_at (root fs) ns = map_option (\<lambda>u. if ht_type u = FtDirectory then DirNode (ht_tree_stat u) else LeafNode (f (ht_key u)))
        (ht_at t ns))))"
proof -
  let ?rd = "\<lparr>inodes = (\<lambda>_. None), leaves = []\<rparr>"
  have ok: "reader_ok H (ht_leaves t) ?rd" by (simp add: reader_ok_def)
  show ?thesis unfolding read_filesystem_def
  proof (rule does_bind [OF read_directory_does [OF assms(1,6) t(1) assms(5) t(2) assms(7) subset_refl ok assms(2)]])
    fix x and s' :: "'z repo_scheme"
    assume r: "reads_node hx H (ht_leaves t) ?rd t (IDirectory (fst x), snd x) s'"
    let ?f = "\<lambda>k. the (inodes (snd x) k)"
    have dom: "ht_key ` ht_leaves t \<subseteq> dom (inodes (snd x))" using r by (simp add: reads_node_def reads_as_def)
    have rok: "reader_ok H (ht_leaves t) (snd x)" using r by (simp add: reads_node_def)
    have inj: "inj_on ?f (ht_key ` ht_leaves t)"
    proof (rule inj_onI)
      fix a b
      assume ab: "a \<in> ht_key ` ht_leaves t" "b \<in> ht_key ` ht_leaves t" "?f a = ?f b"
      then obtain p q where pq: "inodes (snd x) a = Some p" "inodes (snd x) b = Some q" using dom by blast
      have "inj_on (inodes (snd x)) (dom (inodes (snd x)))" using rok by (simp add: reader_ok_def)
      moreover have "inodes (snd x) a = inodes (snd x) b" using ab(3) pq by simp
      moreover have "a \<in> dom (inodes (snd x))" "b \<in> dom (inodes (snd x))" using dom ab(1,2) by blast+
      ultimately show "a = b" by (rule inj_onD)
    qed
    have lt: "?f (ht_key u) < length (leaves (snd x)) \<and> leaves (snd x) ! ?f (ht_key u) = ht_leaf H u" if "u \<in> ht_leaves t" for u
    proof -
      have "ht_key u \<in> dom (inodes (snd x))" using dom that by (rule subsetD [OF _ imageI])
      then obtain q where q: "inodes (snd x) (ht_key u) = Some q" by (rule domD [THEN exE])
      have "q < length (leaves (snd x)) \<and> leaves (snd x) ! q = ht_leaf H u" using rok q that unfolding reader_ok_def by blast
      then show ?thesis using q by simp
    qed
    have nd: "node_at (fst x) ns = map_option (\<lambda>u. if ht_type u = FtDirectory then DirNode (ht_tree_stat u) else LeafNode (?f (ht_key u))) (ht_at t ns)" for ns
      using r unfolding reads_node_def reads_as_def by (simp add: inode_at_def ht_node_def [abs_def])
    have st: "store_inv hx H s'" using r by (simp add: reads_node_def)
    show "does repo ((\<lambda>(d, rd). io_return \<lparr>root = d, heap = leaves rd\<rparr>) x) s' (\<lambda>fs s'. store_inv hx H s' \<and>
        (\<exists>f. inj_on f (ht_key ` ht_leaves t) \<and>
          (\<forall>u \<in> ht_leaves t. f (ht_key u) < length (heap fs) \<and> heap fs ! f (ht_key u) = ht_leaf H u) \<and>
          (\<forall>ns. node_at (root fs) ns = map_option (\<lambda>u. if ht_type u = FtDirectory then DirNode (ht_tree_stat u) else LeafNode (f (ht_key u)))
            (ht_at t ns))))"
      unfolding case_prod_beta
    proof (rule does_return, unfold filesystem.simps, intro conjI exI)
      show "\<forall>u \<in> ht_leaves t. ?f (ht_key u) < length (leaves (snd x)) \<and> leaves (snd x) ! ?f (ht_key u) = ht_leaf H u"
        using lt by blast
      show "\<forall>ns. node_at (fst x) ns = map_option (\<lambda>u. if ht_type u = FtDirectory then DirNode (ht_tree_stat u) else LeafNode (?f (ht_key u))) (ht_at t ns)"
        using nd by blast
    qed (rule st inj)+
  qed
qed

section \<open>An example\<close>

text \<open>A host whose descriptors are paths in a tree; the directory has two names for one file.\<close>

definition tree_host :: "htree \<Rightarrow> bytes list host_calls" where
  "tree_host t = \<lparr>sys_openat = (\<lambda>fd n fl. if n = ''/'' then Inr [] else if ht_at t (fd @ [n]) = None then Inl (OtherErrno 2) else Inr (fd @ [n])),
     sys_fstat = (\<lambda>fd. case ht_at t fd of None \<Rightarrow> Inl (OtherErrno 9) | Some u \<Rightarrow> Inr (ht_stat u)),
     sys_listxattr = (\<lambda>fd. case ht_at t fd of None \<Rightarrow> Inl (OtherErrno 9)
       | Some u \<Rightarrow> Inr (concat (map (\<lambda>e. fst e @ [CHR 0x00]) (ht_xattrs u)))),
     sys_getxattr = (\<lambda>fd k. case ht_at t fd of None \<Rightarrow> Inl (OtherErrno 9)
       | Some u \<Rightarrow> (case map_of (ht_xattrs u) k of None \<Rightarrow> Inl (OtherErrno 2) | Some v \<Rightarrow> Inr v)),
     sys_read = (\<lambda>fd n. case ht_at t fd of None \<Rightarrow> Inl (OtherErrno 9) | Some u \<Rightarrow> Inr (take n (ht_data u))),
     sys_readlink = (\<lambda>fd. case ht_at t fd of None \<Rightarrow> Inl (OtherErrno 9) | Some u \<Rightarrow> Inr (ht_data u)),
     sys_readdir = (\<lambda>fd. case ht_at t fd of None \<Rightarrow> Inl (OtherErrno 9)
       | Some u \<Rightarrow> Inr (Inr (''.'', FtDirectory) # map (\<lambda>(n, c). Inr (n, ht_type c)) (ht_children u)))\<rparr>"

definition host_node :: "u32 \<Rightarrow> u64 \<Rightarrow> bytes \<Rightarrow> (bytes \<times> htree) list \<Rightarrow> htree" where
  "host_node m ino d cs = HTree \<lparr>hs_dev = 1, hs_ino = ino, hs_mode = m, hs_uid = 0, hs_gid = 0, hs_rdev = 0,
     hs_size = of_nat (length d), hs_mtime = 5\<rparr> [(''user.k'', ''v'')] d cs"

definition demo_host :: htree where
  "demo_host = host_node 0x41ED 1 [] [(''b'', host_node 0x81A4 2 ''data'' []),
     (''a'', host_node 0x41ED 3 [] [(''c'', host_node 0x81A4 2 ''data'' [])])]"

lemma demo_host_shown: "host_shows (tree_host demo_host) [] demo_host" "ht_depth demo_host = 3"
  by code_simp+

lemma demo_host_read:
  "\<exists>fs. read_filesystem 3 (tree_host demo_host) hex_codec toy_K toy_H False [] ''/'' empty_repo = Some (Inr fs, empty_repo) \<and>
     node_at (root fs) [''b''] = node_at (root fs) [''a'', ''c''] \<and> length (heap fs) = 1"
proof -
  have "case read_filesystem 3 (tree_host demo_host) hex_codec toy_K toy_H False [] ''/'' empty_repo of
      Some (Inr fs, s') \<Rightarrow> s' = empty_repo \<and> node_at (root fs) [''b''] = node_at (root fs) [''a'', ''c''] \<and> length (heap fs) = 1
    | _ \<Rightarrow> False" by code_simp
  then show ?thesis by (auto split: option.splits prod.splits sum.splits)
qed

end
