(* ===== verification/Spec2Isabelle.thy ===== *)
theory Spec2Isabelle
  imports Dumpfile Boot_Write Oci_Create Erofs_Collect Erofs_Mkfs Repo_Keep Host_Read
begin

text \<open>
  A model of composefs-rs: the Rust libraries that store container images as a content-addressed object store with
  fs-verity digests, and describe their trees by EROFS metadata images. Paths below are relative to \<open>src/crates/\<close>.

  1. The program

  A tree of directories and leaves (composefs/src/generic_tree.rs) is the common data of the parts. It is read from a dump file, from
  a directory of the host, or from the layers of an OCI image, which the registry client imports as split streams; it is written as a dump
  file or as an EROFS image. A repository holds objects, files that are named by their fs-verity digest, and links to them for images and
  split streams; files over 64 bytes are objects, and a tree and an image only name them. A garbage collection keeps what
  the links of a repository reach, which it finds by reading the streams and the images again. For booting, the entries are
  taken out of a tree, the tree is emptied of them and labelled, and they are written to the boot partition with the
  digest of the image on their command line.

  2. Theories and files

  Foundations. Prelude (results, \<open>rbind\<close>, little-endian bytes), Rust_Strings and Rust_Path (the parts of the
  standard library that the code calls), Ordered_Map (\<open>BTreeMap\<close>, with the locale \<open>ordered_map\<close> of its laws).

  Objects. Hash_Value (fsverity/hashvalue.rs), Verity_Digest (fsverity/digest.rs and \<open>compute_verity\<close>), Fsverity (the rest of
  fsverity/mod.rs and fsverity/ioctl.rs), Object_Store (the objects of repository.rs, with the locale \<open>object_store\<close>), Splitstream
  (splitstream.rs, with the locale \<open>stream_store\<close>, an object store with streams).

  Trees. Generic_Tree (generic_tree.rs, tree.rs), Dumpfile_Parse (dumpfile_parse.rs), Dumpfile (dumpfile.rs), Host_Read (the reading half of
  fs.rs).

  Images. Erofs_Format (erofs/format.rs, erofs/composefs.rs), Erofs_Reader (erofs/reader.rs), Erofs_Collect (what
  \<open>collect_objects\<close> computes), Erofs_Writer (erofs/writer.rs). The writer runs the same code with two outputs, one that counts
  and one that writes: Erofs_Script states what both have in common as the locale \<open>byte_output\<close>, Erofs_Passes interprets it for
  the two, Erofs_Inodes and Erofs_Layout say what the tables and the positions are, Erofs_Readback, Erofs_Scan and Erofs_Inode_Read what the
  reader makes of the bytes, and Erofs_Mkfs puts writer and reader together.

  Repository. Repo_Links (the directories of links, with the kernel's resolution of paths), Repository (streams and images of repository.rs),
  Repo_Gc (its garbage collection), Repo_Live, Repo_Sweep, Repo_Keep (what is live, what is removed, what is kept), Repo_Example.

  OCI. Oci_Tar and Oci_Layer (composefs-oci/src/tar.rs: splitting an archive, reading it back), Oci_Image (\<open>process_entry\<close> of image.rs), Oci_Config
  (lib.rs, \<open>create_filesystem\<close> of image.rs, composefs/src/filesystem_ops.rs), Oci_Create (what \<open>create_filesystem\<close> guarantees).

  Boot. Boot_Cmdline (composefs-boot/src/cmdline.rs, the entry files of bootloader.rs), Boot_Entries (the rest of bootloader.rs), Boot_Os_Release
  (os_release.rs), Boot_Uki (uki.rs), Boot_Selabel (selabel.rs), Boot_Transform (lib.rs), Boot_Write (write_boot.rs).

  3. State, errors and parameters

  Definitions have the names of the functions and types that they translate. A struct is a record, an enum a datatype, a machine integer a
  word; bytes, \<open>OsStr\<close> and \<open>Vec<u8>\<close> are lists of 8-bit \<open>char\<close>. A \<open>BTreeMap\<close> is a list with increasing keys. \<open>Rc<Leaf>\<close> is an index
  into the heap of leaves of a filesystem, so that two names of a file are the same index. A mutable reference is what it reaches and a function that puts
  it back. A \<open>Result\<close> is a sum with the error on the left; a function that may panic or not return has None as one of its values; a function with the
  repository as its state is of type \<open>io\<close>, of a state to an optional result and state. The states are \<open>repo\<close> (the objects, the insecure flag,
  and the number of enable ioctls so far) and \<open>link_repo\<close>, which adds the links.

  Code outside of the repository is a parameter with named laws, each of them with an instance: the hex crate (\<open>hex_laws\<close>), the
  hash (\<open>alg_ok\<close>; \<open>never_empty\<close>, since the code uses the zero hash as no value), the kernel's fs-verity (\<open>kernel_laws\<close>) and the calls
  that copy a file, the zstd crate (\<open>zstd_laws\<close>), the tar crate (\<open>tar_crate\<close>), oci-spec (\<open>spec_laws\<close>), the automaton of
  regular expressions (\<open>dfa_laws\<close>: of the patterns that match, the first), xxhash, the system calls of a directory (\<open>host_calls\<close>), and the boot
  partition (\<open>host\<close>). That two contents do not have the same digest is a hypothesis where it matters (\<open>no_collision\<close>).

  4. What is proved

  Digests: the incremental hasher is the fs-verity digest for every input. Objects: what is stored is named by its contents and is read
  back, by the two ways to store; with enforcement a read never returns other data. Enabling fs-verity on a copy is characterised with the
  cases in which it does not return. Streams: what a writer wrote the reader returns, with references; a tar archive comes back byte for byte, the two
  importers agree, and the entries of the layer are those of the archive.

  Trees: writing a directory that was reached by a path changes just that directory; \<open>transform_for_oci\<close>, and a layer, are described by
  what they do to the map from paths to nodes. A layer is compared with two specifications: entry by entry, as the code does it, and that of
  the OCI image format, in which whiteouts act on lower layers only; they agree when no whiteout comes after an entry of its layer that it hides.
  Dump files: entries and trees survive printing and parsing, up to the stated exceptions. A directory of the host that is read is the
  tree that the system calls show (\<open>read_filesystem_tree\<close>).

  Images: the writer never panics below 16 GiB and the passes agree; \<open>collect_objects\<close> finds what the directory entries reach, and
  for a written image the objects of the tree; the inode of an inline file is found by its path, and has its contents only if the file is shorter than a block.

  Repository: a collection returns unless the reader of images panics; the live objects are the closure of the roots; the objects that stay are the live ones;
  reachable streams and images read the same as before; a dry run predicts the objects.

  OCI and boot: the filesystem of an image is made of checked layers in order; a configuration is found again; entries, os-release files and UKIs
  are read as they were made; labelling gives every file the label of one of its paths and changes nothing else; an entry file is written after its files,
  and a UKI only with the right digest.

  Theorems whose text says so show what the code gets wrong; the manifest lists them as findings.

  5. Bounds and fuel

  The walk over streams has the fuel (number of streams + 2): a stream that is walked twice costs no recursion, and \<open>stream_roots_return\<close> shows
  that it is enough. Links are followed 40 times, as Linux does (\<open>MAXSYMLINKS\<close>). \<open>read_directory\<close> has a bound on the depth; any bound from the depth of
  the tree on gives the result. The loop of \<open>enable_verity_on_copy\<close> may run forever: it is a \<open>partial_function\<close>, and None is that it does.
  \<open>mkfs_erofs\<close> returns below 16 GiB, the reach of its 32-bit references to attributes, and is read back below 4 GiB; names are at most 4084 bytes, so that a
  directory block holds one. Entry files are ASCII, where byte and character positions agree.

  6. What is not modelled

  Mounting, FUSE, the initramfs and the command line tools (system calls and argument parsing around the libraries); the registry client (network); the debug output
  of images and \<open>dump\<close> (text for people, another process); writing a tree to a directory (system calls only). Threads, locks, \<open>sync\<close> and the order of hash
  sets have no counterpart. Reads of a file give all that there is: a short \<open>pread\<close>, or a file that changes while it is read, is not modelled.
  The end of the last name of a directory block is found by a binary search, which the model takes to find the first zero byte; the standard library promises
  that only when zeros follow, as in the blocks that the writer makes. The log of the boot partition has completed operations only: an
  operation that fails may still leave directories or a part of a file.
\<close>

end
